(* ===== verification/Prelude.thy ===== *)
theory Prelude
  imports Main "HOL-Library.Word" "HOL-Library.Monad_Syntax"
begin

text \<open>
  Shared vocabulary of the development: the machine types and error codes of
  \<^verbatim>\<open>include/rtdef.h\<close>, the alignment macros, bounded memory copies, and the generic lemmas
  on lists, words and options that the component theories use.  The result type of an operation
  that can run into \<^verbatim>\<open>RT_ASSERT\<close> (or touch memory it does not own) is an \<open>option\<close>:
  \<open>None\<close> stands for the halted system.
\<close>

unbundle bit_operations_syntax

named_theorems rt_defs "definitions that unfold in component proofs"
named_theorems rt_simps "rewrite rules shared by the component proofs"

type_synonym u8 = "8 word"
type_synonym u16 = "16 word"
type_synonym u32 = "32 word"
type_synonym u64 = "64 word"

text \<open>Error codes; the kernel returns their negations.\<close>

definition RT_EOK :: int where [rt_defs]: "RT_EOK = 0"
definition RT_ERROR :: int where [rt_defs]: "RT_ERROR = 1"
definition RT_ETIMEOUT :: int where [rt_defs]: "RT_ETIMEOUT = 2"
definition RT_EFULL :: int where [rt_defs]: "RT_EFULL = 3"
definition RT_EEMPTY :: int where [rt_defs]: "RT_EEMPTY = 4"
definition RT_ENOMEM :: int where [rt_defs]: "RT_ENOMEM = 5"
definition RT_EBUSY :: int where [rt_defs]: "RT_EBUSY = 7"
definition RT_EINTR :: int where [rt_defs]: "RT_EINTR = 9"
definition RT_EINVAL :: int where [rt_defs]: "RT_EINVAL = 10"

lemmas rt_errno_defs =
  RT_EOK_def RT_ERROR_def RT_ETIMEOUT_def RT_EFULL_def RT_EEMPTY_def RT_ENOMEM_def
  RT_EBUSY_def RT_EINTR_def RT_EINVAL_def

text \<open>\<^verbatim>\<open>RT_ALIGN\<close> and \<^verbatim>\<open>RT_ALIGN_DOWN\<close>, as the bit masks the macros compute.\<close>

definition RT_ALIGN :: "int \<Rightarrow> int \<Rightarrow> int" where
  "RT_ALIGN sz align = ((sz + align - 1) AND NOT (align - 1))"

definition RT_ALIGN_DOWN :: "int \<Rightarrow> int \<Rightarrow> int" where
  "RT_ALIGN_DOWN sz align = (sz AND NOT (align - 1))"

definition RT_ALIGN_SIZE :: int where
  "RT_ALIGN_SIZE = 64"

lemma and_not_mask_eq_mult_div: "(n :: int) AND NOT (2 ^ k - 1) = n div 2 ^ k * 2 ^ k"
proof -
  have "n AND NOT (mask k) = push_bit k (drop_bit k n)"
    by (rule bit_eqI) (auto simp: bit_simps)
  then show ?thesis
    by (simp add: mask_eq_exp_minus_1 push_bit_eq_mult drop_bit_eq_div)
qed

lemma RT_ALIGN_DOWN_pow2: "RT_ALIGN_DOWN n (2 ^ k) = n div 2 ^ k * 2 ^ k"
  by (simp add: RT_ALIGN_DOWN_def and_not_mask_eq_mult_div)

lemma RT_ALIGN_pow2: "RT_ALIGN n (2 ^ k) = (n + 2 ^ k - 1) div 2 ^ k * 2 ^ k"
  by (simp add: RT_ALIGN_def and_not_mask_eq_mult_div)

lemma RT_ALIGN_SIZE_pow2: "RT_ALIGN_SIZE = 2 ^ 6"
  by (simp add: RT_ALIGN_SIZE_def)

lemma sint_eq_0_iff [simp]: "sint (w :: 'a :: len word) = 0 \<longleftrightarrow> w = 0"
  by (metis signed_0 signed_word_eqI)

text \<open>Overwriting a stretch of a list.\<close>

definition splice_at :: "nat \<Rightarrow> 'a list \<Rightarrow> 'a list \<Rightarrow> 'a list" where
  "splice_at i xs b = take i b @ xs @ drop (i + length xs) b"

lemma length_splice_at [simp]:
  "i + length xs \<le> length b \<Longrightarrow> length (splice_at i xs b) = length b"
  by (simp add: splice_at_def)

lemma take_splice_at:
  "i \<le> length b \<Longrightarrow> n = i + length xs \<Longrightarrow> take n (splice_at i xs b) = take i b @ xs"
  by (simp add: splice_at_def)

lemma drop_splice_at_above:
  assumes "i + length xs \<le> r" and "i \<le> length b"
  shows "drop r (splice_at i xs b) = drop r b"
proof -
  obtain k where "r = i + length xs + k" using assms(1) le_Suc_ex by blast
  with assms(2) show ?thesis by (simp add: splice_at_def add.commute)
qed

lemma drop_splice_at_below:
  assumes "r \<le> i" and "i \<le> length b"
  shows "drop r (splice_at i xs b) = take (i - r) (drop r b) @ xs @ drop (i + length xs) b"
  using assms by (simp add: splice_at_def drop_take)

lemma splice_at_append:
  assumes "i \<le> length b" and "j = i + length xs"
  shows "splice_at j ys (splice_at i xs b) = splice_at i (xs @ ys) b"
  using assms by (simp add: splice_at_def min_def add_ac)

lemma splice_at_Nil [simp]: "i \<le> length b \<Longrightarrow> splice_at i [] b = b"
  by (simp add: splice_at_def)

lemma list_update_splice_at: "i < length b \<Longrightarrow> b[i := x] = splice_at i [x] b"
  by (simp add: splice_at_def upd_conv_take_nth_drop)

lemma nth_splice_at:
  "i + length xs \<le> length b \<Longrightarrow> n < length b \<Longrightarrow>
   splice_at i xs b ! n = (if i \<le> n \<and> n < i + length xs then xs ! (n - i) else b ! n)"
  by (auto simp: splice_at_def nth_append min_def)

text \<open>\<^verbatim>\<open>memcpy\<close> into a buffer at an offset; \<open>None\<close> when it would leave the buffer.\<close>

definition memcpy_at :: "'a list \<Rightarrow> nat \<Rightarrow> 'a list \<Rightarrow> 'a list option" where
  "memcpy_at buf i xs =
     (if i + length xs \<le> length buf then Some (splice_at i xs buf) else None)"

lemma memcpy_at_in_range [simp]:
  "i + length xs \<le> length buf \<Longrightarrow> memcpy_at buf i xs = Some (splice_at i xs buf)"
  by (simp add: memcpy_at_def)

text \<open>A store at one index, guarded in the same way.\<close>

definition store_at :: "'a list \<Rightarrow> nat \<Rightarrow> 'a \<Rightarrow> 'a list option" where
  "store_at buf i x = (if i < length buf then Some (buf[i := x]) else None)"

lemma store_at_in_range [simp]: "i < length buf \<Longrightarrow> store_at buf i x = Some (buf[i := x])"
  by (simp add: store_at_def)

text \<open>A load at one index.\<close>

definition load_at :: "'a list \<Rightarrow> nat \<Rightarrow> 'a option" where
  "load_at buf i = (if i < length buf then Some (buf ! i) else None)"

lemma load_at_in_range [simp]: "i < length buf \<Longrightarrow> load_at buf i = Some (buf ! i)"
  by (simp add: load_at_def)

text \<open>\<^verbatim>\<open>RT_ASSERT\<close>: the operation goes on only when the condition holds.\<close>

definition rt_assert :: "bool \<Rightarrow> unit option" where
  "rt_assert b = (if b then Some () else None)"

lemma rt_assert_simps [simp]:
  "rt_assert True = Some ()" "rt_assert False = None"
  by (simp_all add: rt_assert_def)

lemma rt_assert_bind [simp]: "Option.bind (rt_assert b) f = (if b then f () else None)"
  by (simp add: rt_assert_def)

lemma rt_assert_eq_Some [simp]: "rt_assert b = Some u \<longleftrightarrow> b"
  by (simp add: rt_assert_def)

text \<open>Lists: removing a node wherever it is, and splitting off heads.\<close>

lemma removeAll_notin [simp]: "x \<notin> set xs \<Longrightarrow> removeAll x xs = xs"
  by (induction xs) auto

lemma remove1_distinct_eq: "distinct xs \<Longrightarrow> remove1 x xs = removeAll x xs"
  by (simp add: distinct_remove1_removeAll)

lemma length_filter_conj: "length (filter (\<lambda>x. P x \<and> Q x) xs) \<le> length (filter Q xs)"
  by (induction xs) auto

lemma take_eq_all_iff: "take n xs = xs \<longleftrightarrow> length xs \<le> n"
  by (metis length_take min.absorb_iff1 take_all_iff)

end
