(* ===== verification/Interfaces.thy ===== *)
theory Interfaces
  imports Prelude
begin

text \<open>
  Contracts between components, as locales.  \<open>bounded_fifo\<close> is what a buffer of limited
  capacity promises to its producers and consumers: \<open>enq\<close> accepts a prefix of what it is
  offered and reports how much, \<open>deq\<close> hands out the oldest elements.  The locale derives what a
  client relies on: over any sequence of operations, what has come out followed by what is still
  inside is exactly what was accepted, in order.

  \<open>slot_queue\<close> is the contract of a queue with a fixed number of slots, one message at a time, as the
  mailboxes and message queues have it: a client may put while a slot is free and get while there is a
  message.  What is stored \<open>carries\<close> the message: it may be longer, since the slots of a message queue have
  a fixed size.  Every history of puts and gets conserves the messages and their order.

  \<open>node_map\<close> is the contract of an index of nodes by key, as the search trees offer it to the tables of
  process and thread identifiers and to the memory areas: \<open>add\<close> and \<open>del\<close> change the map by one entry and
  leave all other nodes alone, \<open>look\<close> reads it.
\<close>

datatype 'a fifo_op = Enq "'a list" | Deq nat

locale bounded_fifo =
  fixes inv :: "'s \<Rightarrow> bool"
    and contents :: "'s \<Rightarrow> 'a list"
    and capacity :: "'s \<Rightarrow> nat"
    and enq :: "'a list \<Rightarrow> 's \<Rightarrow> (nat \<times> 's) option"
    and deq :: "nat \<Rightarrow> 's \<Rightarrow> ('a list \<times> 's) option"
    and offer_ok :: "'a list \<Rightarrow> bool"
  assumes enq_accepts: "inv s \<Longrightarrow> offer_ok xs \<Longrightarrow>
      \<exists>s'. enq xs s = Some (min (length xs) (capacity s - length (contents s)), s') \<and> inv s'
        \<and> contents s' = contents s @ take (capacity s - length (contents s)) xs
        \<and> capacity s' = capacity s"
    and deq_oldest: "inv s \<Longrightarrow>
      \<exists>s'. deq n s = Some (take n (contents s), s') \<and> inv s'
        \<and> contents s' = drop n (contents s) \<and> capacity s' = capacity s"
    and within_capacity: "inv s \<Longrightarrow> length (contents s) \<le> capacity s"
begin

fun run :: "'a fifo_op list \<Rightarrow> 's \<Rightarrow> ('a list \<times> 'a list \<times> 's) option" where
  "run [] s = Some ([], [], s)"
| "run (Enq xs # ops) s =
     (case enq xs s of None \<Rightarrow> None
      | Some (n, s') \<Rightarrow>
          (case run ops s' of None \<Rightarrow> None
           | Some (i, out, t) \<Rightarrow> Some (take n xs @ i, out, t)))"
| "run (Deq n # ops) s =
     (case deq n s of None \<Rightarrow> None
      | Some (ys, s') \<Rightarrow>
          (case run ops s' of None \<Rightarrow> None
           | Some (i, out, t) \<Rightarrow> Some (i, ys @ out, t)))"

fun ops_ok :: "'a fifo_op list \<Rightarrow> bool" where
  "ops_ok [] = True"
| "ops_ok (Enq xs # ops) = (offer_ok xs \<and> ops_ok ops)"
| "ops_ok (Deq n # ops) = ops_ok ops"

lemma run_history:
  assumes "inv s" and "ops_ok ops"
  shows "\<exists>i out t. run ops s = Some (i, out, t) \<and> inv t
           \<and> contents s @ i = out @ contents t
           \<and> length (contents t) \<le> capacity s"
  using assms
proof (induction ops s rule: run.induct)
  case (1 s)
  then show ?case by (simp add: within_capacity)
next
  case (2 xs ops s)
  obtain s' where s': "enq xs s = Some (min (length xs) (capacity s - length (contents s)), s')"
      "inv s'" "contents s' = contents s @ take (capacity s - length (contents s)) xs"
      "capacity s' = capacity s"
    using enq_accepts [of s xs] 2 by auto
  then obtain i out t where "run ops s' = Some (i, out, t)" "inv t"
      "contents s' @ i = out @ contents t" "length (contents t) \<le> capacity s'"
    using 2 by fastforce
  with s' show ?case by (auto simp: min_def)
next
  case (3 n ops s)
  obtain s' where s': "deq n s = Some (take n (contents s), s')" "inv s'"
      "contents s' = drop n (contents s)" "capacity s' = capacity s"
    using deq_oldest [of s n] 3 by auto
  then obtain i out t where "run ops s' = Some (i, out, t)" "inv t"
      "contents s' @ i = out @ contents t" "length (contents t) \<le> capacity s'"
    using 3 by fastforce
  with s' show ?case
    by (auto, metis append_assoc append_take_drop_id)
qed

lemma roundtrip:
  assumes "inv s" and "contents s = []" and "offer_ok xs" and "length xs \<le> capacity s"
  shows "\<exists>s1 s2. enq xs s = Some (length xs, s1) \<and> deq (length xs) s1 = Some (xs, s2)
           \<and> contents s2 = []"
proof -
  obtain s1 where s1: "enq xs s = Some (length xs, s1)" "inv s1" "contents s1 = xs"
    using enq_accepts [of s xs] assms by auto
  obtain s2 where "deq (length xs) s1 = Some (take (length xs) (contents s1), s2)"
      "contents s2 = drop (length xs) (contents s1)"
    using deq_oldest [of s1 "length xs"] s1 by auto
  with s1 show ?thesis by auto
qed

end

locale slot_queue =
  fixes inv :: "'s \<Rightarrow> bool"
    and contents :: "'s \<Rightarrow> 'a list"
    and capacity :: "'s \<Rightarrow> nat"
    and put :: "'m \<Rightarrow> 's \<Rightarrow> 's option"
    and get :: "'s \<Rightarrow> ('a \<times> 's) option"
    and msg_ok :: "'s \<Rightarrow> 'm \<Rightarrow> bool"
    and carries :: "'m \<Rightarrow> 'a \<Rightarrow> bool"
  assumes put_last: "inv s \<Longrightarrow> length (contents s) < capacity s \<Longrightarrow> msg_ok s x \<Longrightarrow>
      \<exists>s' y. put x s = Some s' \<and> inv s' \<and> carries x y \<and> contents s' = contents s @ [y] \<and> capacity s' = capacity s"
    and get_first: "inv s \<Longrightarrow> contents s = y # ys \<Longrightarrow>
      \<exists>s'. get s = Some (y, s') \<and> inv s' \<and> contents s' = ys \<and> capacity s' = capacity s"
    and bounded: "inv s \<Longrightarrow> length (contents s) \<le> capacity s"
begin

text \<open>The histories: the messages put and the slots got on the way from one state to another.\<close>

inductive history :: "'s \<Rightarrow> 'm list \<Rightarrow> 'a list \<Rightarrow> 's \<Rightarrow> bool" for s0 :: 's where
  start: "history s0 [] [] s0"
| put: "history s0 i out s \<Longrightarrow> length (contents s) < capacity s \<Longrightarrow> msg_ok s x \<Longrightarrow> put x s = Some s' \<Longrightarrow>
    history s0 (i @ [x]) out s'"
| get: "history s0 i out s \<Longrightarrow> contents s \<noteq> [] \<Longrightarrow> get s = Some (y, s') \<Longrightarrow> history s0 i (out @ [y]) s'"

lemma history_inv:
  assumes "history s0 i out s" and "inv s0"
  shows "inv s" "\<exists>ys. list_all2 carries i ys \<and> contents s0 @ ys = out @ contents s" "capacity s = capacity s0"
    "length (contents s) \<le> capacity s0"
proof -
  have *: "inv s \<and> (\<exists>ys. list_all2 carries i ys \<and> contents s0 @ ys = out @ contents s) \<and> capacity s = capacity s0"
    using assms
  proof (induction rule: history.induct)
    case (put i out s x s')
    then obtain ys where ys: "inv s" "list_all2 carries i ys" "contents s0 @ ys = out @ contents s" "capacity s = capacity s0"
      by blast
    obtain y where "inv s'" "carries x y" "contents s' = contents s @ [y]" "capacity s' = capacity s"
      using put_last [OF ys(1) put.hyps(2,3)] put.hyps(4) by auto
    moreover from this have "list_all2 carries (i @ [x]) (ys @ [y])" "contents s0 @ (ys @ [y]) = out @ contents s'"
      using ys by (auto intro: list_all2_appendI simp del: append_assoc simp: append_assoc [symmetric])
    ultimately show ?case using ys(4) by metis
  next
    case (get i out s y s')
    then obtain z zs where "contents s = z # zs" by (cases "contents s") auto
    then show ?case using get_first [of s z zs] get by auto
  qed simp
  then show "inv s" "\<exists>ys. list_all2 carries i ys \<and> contents s0 @ ys = out @ contents s" "capacity s = capacity s0"
    by blast+
  then show "length (contents s) \<le> capacity s0" using bounded [of s] by simp
qed

end

locale node_map =
  fixes holds :: "'s \<Rightarrow> ('k \<rightharpoonup> 'n) \<Rightarrow> bool"
    and key_of :: "'s \<Rightarrow> 'n \<Rightarrow> 'k"
    and limit :: nat
    and outside :: "'s \<Rightarrow> 's \<Rightarrow> 'n set \<Rightarrow> bool"
    and add :: "'n \<Rightarrow> 's \<Rightarrow> 's option"
    and del :: "'n \<Rightarrow> 's \<Rightarrow> 's option"
    and look :: "'k \<Rightarrow> 's \<Rightarrow> 'n option option"
  assumes holds_keys: "holds s M \<Longrightarrow> M k = Some n \<Longrightarrow> key_of s n = k"
    and holds_finite: "holds s M \<Longrightarrow> finite (dom M)"
    and add_entry: "holds s M \<Longrightarrow> key_of s n \<notin> dom M \<Longrightarrow> n \<notin> ran M \<Longrightarrow> card (dom M) < limit \<Longrightarrow>
      \<exists>s'. add n s = Some s' \<and> holds s' (M(key_of s n \<mapsto> n)) \<and> outside s s' (insert n (ran M))"
    and del_entry: "holds s M \<Longrightarrow> M k = Some n \<Longrightarrow> card (dom M) < limit \<Longrightarrow>
      \<exists>s'. del n s = Some s' \<and> holds s' (M(k := None)) \<and> outside s s' (ran M)"
    and look_entry: "holds s M \<Longrightarrow> look k s = Some (M k)"
begin

lemma inj_entries: "holds s M \<Longrightarrow> inj_on M (dom M)"
  by (rule inj_onI) (metis domD holds_keys)

lemma card_entries: "holds s M \<Longrightarrow> card (ran M) = card (dom M)"
proof -
  assume h: "holds s M"
  have "ran M = (\<lambda>k. the (M k)) ` dom M" by (force simp: ran_def dom_def)
  moreover have "inj_on (\<lambda>k. the (M k)) (dom M)"
  proof (rule inj_onI)
    fix x y assume "x \<in> dom M" "y \<in> dom M" "the (M x) = the (M y)"
    then obtain n where "M x = Some n" "M y = Some n" by auto
    then show "x = y" using holds_keys [OF h] by blast
  qed
  ultimately show ?thesis by (simp add: card_image)
qed

lemma ran_del:
  assumes h: "holds s M" and k: "M k = Some n"
  shows "ran (M(k := None)) = ran M - {n}"
proof -
  have uniq: "j = k" if "M j = Some n" for j using holds_keys [OF h that] holds_keys [OF h k] by simp
  show ?thesis
  proof (intro set_eqI iffI)
    fix x assume "x \<in> ran (M(k := None))"
    then obtain j where "j \<noteq> k" "M j = Some x" by (auto simp: ran_def split: if_splits)
    then show "x \<in> ran M - {n}" using uniq by (auto intro: ranI)
  next
    fix x assume "x \<in> ran M - {n}"
    then obtain j where "M j = Some x" "x \<noteq> n" by (auto simp: ran_def)
    then show "x \<in> ran (M(k := None))" using k by (intro ranI [of _ j]) auto
  qed
qed

text \<open>Among more keys than there are entries, one is free, and the client's search finds it.\<close>

lemma free_key:
  assumes h: "holds s M" and d: "distinct ks" and few: "card (dom M) < length ks"
  shows "\<exists>k\<in>set ks. look k s = Some None"
proof (rule ccontr)
  assume "\<not> ?thesis"
  then have "set ks \<subseteq> dom M" using look_entry [OF h] by auto
  then have "card (set ks) \<le> card (dom M)" using holds_finite [OF h] by (rule card_mono [rotated])
  then show False using few distinct_card [OF d] by simp
qed

lemma add_then_look:
  assumes "holds s M" "key_of s n \<notin> dom M" "n \<notin> ran M" "card (dom M) < limit"
  shows "\<exists>s'. add n s = Some s' \<and> look (key_of s n) s' = Some (Some n) \<and> (\<forall>k. k \<noteq> key_of s n \<longrightarrow> look k s' = look k s)"
proof -
  from add_entry [OF assms] obtain s' where "add n s = Some s'" "holds s' (M(key_of s n \<mapsto> n))" by blast
  then show ?thesis using look_entry [OF assms(1)] look_entry [of s' "M(key_of s n \<mapsto> n)"] by auto
qed

end

end
