(* ===== verification/RingBuffer.thy ===== *)
theory RingBuffer
  imports Interfaces
begin

text \<open>
  The byte ring buffer of the device drivers (\<^verbatim>\<open>components/drivers/src/ringbuffer.c\<close>).
  A mirror bit beside each index tells a full ring from an empty one.  The operations are
  translated as the code has them; \<open>rb_data\<close> reads the ring as the list of bytes it holds and
  \<open>rb_ok\<close> is the invariant.  Stores into the 15-bit index fields truncate.  The theory shows that
  \<^verbatim>\<open>put\<close> and \<^verbatim>\<open>get\<close> implement the bounded FIFO contract, and where
  \<^verbatim>\<open>put_force\<close> keeps the newest bytes and where it loses the whole content.
\<close>

record rt_ringbuffer =
  buffer_ptr :: "u8 list"
  read_mirror :: bool
  read_index :: nat
  write_mirror :: bool
  write_index :: nat
  buffer_size :: nat

datatype rt_ringbuffer_state = RT_RINGBUFFER_EMPTY | RT_RINGBUFFER_FULL | RT_RINGBUFFER_HALFFULL

definition bits15 :: "nat \<Rightarrow> nat" where
  "bits15 n = n mod 2 ^ 15"

definition rt_ringbuffer_status :: "rt_ringbuffer \<Rightarrow> rt_ringbuffer_state" where
  "rt_ringbuffer_status rb =
     (if read_index rb = write_index rb
      then if read_mirror rb = write_mirror rb then RT_RINGBUFFER_EMPTY else RT_RINGBUFFER_FULL
      else RT_RINGBUFFER_HALFFULL)"

definition rt_ringbuffer_init :: "u8 list \<Rightarrow> int \<Rightarrow> rt_ringbuffer option" where
  "rt_ringbuffer_init pool sz = do {
     rt_assert (sz > 0);
     Some \<lparr>buffer_ptr = pool, read_mirror = False, read_index = 0,
           write_mirror = False, write_index = 0,
           buffer_size = nat (RT_ALIGN_DOWN sz RT_ALIGN_SIZE)\<rparr>
   }"

definition rt_ringbuffer_data_len :: "rt_ringbuffer \<Rightarrow> nat" where
  "rt_ringbuffer_data_len rb =
     (case rt_ringbuffer_status rb of
        RT_RINGBUFFER_EMPTY \<Rightarrow> 0
      | RT_RINGBUFFER_FULL \<Rightarrow> buffer_size rb
      | RT_RINGBUFFER_HALFFULL \<Rightarrow>
          if write_index rb > read_index rb then write_index rb - read_index rb
          else buffer_size rb - (read_index rb - write_index rb))"

definition rt_ringbuffer_space_len :: "rt_ringbuffer \<Rightarrow> nat" where
  "rt_ringbuffer_space_len rb = buffer_size rb - rt_ringbuffer_data_len rb"

text \<open>The copy into the ring shared by \<^verbatim>\<open>put\<close> and \<^verbatim>\<open>put_force\<close>: one or two
  \<^verbatim>\<open>memcpy\<close> calls and the move of the write index.\<close>

definition rb_copy_in :: "rt_ringbuffer \<Rightarrow> u8 list \<Rightarrow> rt_ringbuffer option" where
  "rb_copy_in rb xs =
     (if buffer_size rb - write_index rb > length xs
      then do {
        buf \<leftarrow> memcpy_at (buffer_ptr rb) (write_index rb) xs;
        Some (rb\<lparr>buffer_ptr := buf, write_index := bits15 (write_index rb + length xs)\<rparr>)
      }
      else do {
        let n = buffer_size rb - write_index rb;
        buf1 \<leftarrow> memcpy_at (buffer_ptr rb) (write_index rb) (take n xs);
        buf2 \<leftarrow> memcpy_at buf1 0 (drop n xs);
        Some (rb\<lparr>buffer_ptr := buf2, write_mirror := \<not> write_mirror rb,
                 write_index := bits15 (length xs - n)\<rparr>)
      })"

definition rt_ringbuffer_put :: "rt_ringbuffer \<Rightarrow> u8 list \<Rightarrow> (nat \<times> rt_ringbuffer) option" where
  "rt_ringbuffer_put rb ptr =
     (let space = rt_ringbuffer_space_len rb;
          len = (if space < length ptr then space else length ptr)
      in if space = 0 then Some (0, rb)
         else do {
           rb' \<leftarrow> rb_copy_in rb (take len ptr);
           Some (len, rb')
         })"

definition rt_ringbuffer_put_force ::
    "rt_ringbuffer \<Rightarrow> u8 list \<Rightarrow> (nat \<times> rt_ringbuffer) option" where
  "rt_ringbuffer_put_force rb ptr =
     (let space = rt_ringbuffer_space_len rb;
          xs = (if length ptr > buffer_size rb then drop (length ptr - buffer_size rb) ptr else ptr)
      in do {
        rb' \<leftarrow> rb_copy_in rb xs;
        Some (length xs,
          if length xs > space
          then if buffer_size rb - write_index rb > length xs
               then rb'\<lparr>read_index := write_index rb'\<rparr>
               else rb'\<lparr>read_mirror := \<not> read_mirror rb', read_index := write_index rb'\<rparr>
          else rb')
      })"

definition rt_ringbuffer_get :: "rt_ringbuffer \<Rightarrow> nat \<Rightarrow> (u8 list \<times> rt_ringbuffer) option" where
  "rt_ringbuffer_get rb n =
     (let sz = rt_ringbuffer_data_len rb;
          len = (if sz < n then sz else n);
          m = buffer_size rb - read_index rb
      in if sz = 0 then Some ([], rb)
         else if read_index rb + min len m > length (buffer_ptr rb) then None
         else if m > len
         then Some (take len (drop (read_index rb) (buffer_ptr rb)),
                    rb\<lparr>read_index := bits15 (read_index rb + len)\<rparr>)
         else Some (take m (drop (read_index rb) (buffer_ptr rb))
                      @ take (len - m) (buffer_ptr rb),
                    rb\<lparr>read_mirror := \<not> read_mirror rb, read_index := bits15 (len - m)\<rparr>))"

definition rt_ringbuffer_putchar :: "rt_ringbuffer \<Rightarrow> u8 \<Rightarrow> (nat \<times> rt_ringbuffer) option" where
  "rt_ringbuffer_putchar rb ch =
     (if rt_ringbuffer_space_len rb = 0 then Some (0, rb)
      else do {
        buf \<leftarrow> store_at (buffer_ptr rb) (write_index rb) ch;
        let rb' = rb\<lparr>buffer_ptr := buf\<rparr>;
        Some (1, if int (write_index rb) = int (buffer_size rb) - 1
                 then rb'\<lparr>write_mirror := \<not> write_mirror rb, write_index := 0\<rparr>
                 else rb'\<lparr>write_index := bits15 (Suc (write_index rb))\<rparr>)
      })"

definition rt_ringbuffer_putchar_force ::
    "rt_ringbuffer \<Rightarrow> u8 \<Rightarrow> (nat \<times> rt_ringbuffer) option" where
  "rt_ringbuffer_putchar_force rb ch = do {
     let old_state = rt_ringbuffer_status rb;
     buf \<leftarrow> store_at (buffer_ptr rb) (write_index rb) ch;
     let rb1 = rb\<lparr>buffer_ptr := buf\<rparr>;
     Some (1,
       if int (write_index rb) = int (buffer_size rb) - 1
       then let rb2 = rb1\<lparr>write_mirror := \<not> write_mirror rb, write_index := 0\<rparr>
            in if old_state = RT_RINGBUFFER_FULL
               then rb2\<lparr>read_mirror := \<not> read_mirror rb2, read_index := write_index rb2\<rparr>
               else rb2
       else let rb2 = rb1\<lparr>write_index := bits15 (Suc (write_index rb))\<rparr>
            in if old_state = RT_RINGBUFFER_FULL
               then rb2\<lparr>read_index := write_index rb2\<rparr>
               else rb2)
   }"

definition rt_ringbuffer_getchar :: "rt_ringbuffer \<Rightarrow> (u8 option \<times> rt_ringbuffer) option" where
  "rt_ringbuffer_getchar rb =
     (if rt_ringbuffer_data_len rb = 0 then Some (None, rb)
      else do {
        ch \<leftarrow> load_at (buffer_ptr rb) (read_index rb);
        Some (Some ch,
          if int (read_index rb) = int (buffer_size rb) - 1
          then rb\<lparr>read_mirror := \<not> read_mirror rb, read_index := 0\<rparr>
          else rb\<lparr>read_index := bits15 (Suc (read_index rb))\<rparr>)
      })"

definition rt_ringbuffer_reset :: "rt_ringbuffer \<Rightarrow> rt_ringbuffer" where
  "rt_ringbuffer_reset rb =
     rb\<lparr>read_mirror := False, read_index := 0, write_mirror := False, write_index := 0\<rparr>"

text \<open>The bytes a ring holds, oldest first, and the invariant of its indices.\<close>

definition rb_data :: "rt_ringbuffer \<Rightarrow> u8 list" where
  "rb_data rb =
     (if read_mirror rb = write_mirror rb
      then take (write_index rb - read_index rb) (drop (read_index rb) (buffer_ptr rb))
      else take (buffer_size rb - read_index rb) (drop (read_index rb) (buffer_ptr rb))
           @ take (write_index rb) (buffer_ptr rb))"

definition rb_ok :: "rt_ringbuffer \<Rightarrow> bool" where
  "rb_ok rb \<longleftrightarrow>
     0 < buffer_size rb \<and> buffer_size rb < 2 ^ 15 \<and> buffer_size rb \<le> length (buffer_ptr rb) \<and>
     read_index rb < buffer_size rb \<and> write_index rb < buffer_size rb \<and>
     (if read_mirror rb = write_mirror rb then read_index rb \<le> write_index rb
      else write_index rb \<le> read_index rb)"

lemma bits15_small [simp]: "n < 2 ^ 15 \<Longrightarrow> bits15 n = n"
  by (simp add: bits15_def)

lemma rb_data_len: "rb_ok rb \<Longrightarrow> rt_ringbuffer_data_len rb = length (rb_data rb)"
  by (auto simp: rb_ok_def rb_data_def rt_ringbuffer_data_len_def rt_ringbuffer_status_def
      split: if_splits)

lemma length_rb_data:
  "rb_ok rb \<Longrightarrow> length (rb_data rb) =
     (if read_mirror rb = write_mirror rb then write_index rb - read_index rb
      else buffer_size rb - read_index rb + write_index rb)"
  by (auto simp: rb_ok_def rb_data_def)

lemma rb_okD:
  assumes "rb_ok rb"
  shows "0 < buffer_size rb" "buffer_size rb < 2 ^ 15" "buffer_size rb \<le> length (buffer_ptr rb)"
    "read_index rb < buffer_size rb" "write_index rb < buffer_size rb"
    "read_mirror rb = write_mirror rb \<Longrightarrow> read_index rb \<le> write_index rb"
    "read_mirror rb \<noteq> write_mirror rb \<Longrightarrow> write_index rb \<le> read_index rb"
  using assms by (auto simp: rb_ok_def)

lemma rb_data_le_size: "rb_ok rb \<Longrightarrow> length (rb_data rb) \<le> buffer_size rb"
  by (auto simp: rb_ok_def rb_data_def split: if_splits)

lemma rb_space_len:
  "rb_ok rb \<Longrightarrow> rt_ringbuffer_space_len rb = buffer_size rb - length (rb_data rb)"
  by (simp add: rt_ringbuffer_space_len_def rb_data_len)

lemma rb_copy_in_short:
  assumes ok: "rb_ok rb" and fits: "length xs \<le> buffer_size rb - length (rb_data rb)"
    and short: "buffer_size rb - write_index rb > length xs"
  shows "\<exists>rb'. rb_copy_in rb xs = Some rb' \<and> rb_ok rb' \<and> rb_data rb' = rb_data rb @ xs
           \<and> buffer_size rb' = buffer_size rb"
proof -
  let ?r = "read_index rb" and ?w = "write_index rb" and ?b = "buffer_ptr rb"
  let ?rb' = "rb\<lparr>buffer_ptr := splice_at ?w xs ?b, write_index := ?w + length xs\<rparr>"
  note facts = rb_okD [OF ok] short length_rb_data [OF ok]
  have run: "rb_copy_in rb xs = Some ?rb'"
    using facts by (simp add: rb_copy_in_def)
  have "rb_ok ?rb' \<and> rb_data ?rb' = rb_data rb @ xs"
  proof (cases "read_mirror rb = write_mirror rb")
    case True
    with facts show ?thesis
      by (simp add: rb_ok_def rb_data_def drop_splice_at_below)
  next
    case False
    have "?w + length xs \<le> ?r"
      using facts fits False by simp
    with facts False show ?thesis
      by (simp add: rb_ok_def rb_data_def drop_splice_at_above take_splice_at)
  qed
  with run show ?thesis by simp
qed

lemma rb_copy_in_wrap_eq:
  assumes ok: "rb_ok rb" and sz: "length xs \<le> buffer_size rb"
    and long: "\<not> length xs < buffer_size rb - write_index rb"
  shows "rb_copy_in rb xs = Some (rb\<lparr>
      buffer_ptr := splice_at 0 (drop (buffer_size rb - write_index rb) xs)
        (splice_at (write_index rb) (take (buffer_size rb - write_index rb) xs) (buffer_ptr rb)),
      write_mirror := \<not> write_mirror rb,
      write_index := length xs - (buffer_size rb - write_index rb)\<rparr>)"
  using rb_okD [OF ok] sz long by (simp add: rb_copy_in_def Let_def)

lemma rb_copy_in_wrap:
  assumes ok: "rb_ok rb" and fits: "length xs \<le> buffer_size rb - length (rb_data rb)"
    and long: "\<not> buffer_size rb - write_index rb > length xs"
  shows "\<exists>rb'. rb_copy_in rb xs = Some rb' \<and> rb_ok rb' \<and> rb_data rb' = rb_data rb @ xs
           \<and> buffer_size rb' = buffer_size rb"
proof -
  let ?r = "read_index rb" and ?w = "write_index rb" and ?b = "buffer_ptr rb"
  let ?m = "buffer_size rb - ?w"
  let ?b1 = "splice_at ?w (take ?m xs) ?b"
  let ?b2 = "splice_at 0 (drop ?m xs) ?b1"
  let ?rb' = "rb\<lparr>buffer_ptr := ?b2, write_mirror := \<not> write_mirror rb,
                 write_index := length xs - ?m\<rparr>"
  note facts = rb_okD [OF ok] long length_rb_data [OF ok]
  have same: "read_mirror rb = write_mirror rb"
    using facts fits by (auto split: if_splits)
  have low: "length xs - ?m \<le> ?r"
    using facts fits same by simp
  have run: "rb_copy_in rb xs = Some ?rb'"
    using facts low same by (simp add: rb_copy_in_wrap_eq [OF ok])
  have "drop ?r ?b2 = drop ?r ?b1"
    using low by (simp add: drop_splice_at_above)
  moreover have "take (length xs - ?m) ?b2 = drop ?m xs"
    by (simp add: splice_at_def)
  moreover have "take (buffer_size rb - ?r) (drop ?r ?b1) = take (?w - ?r) (drop ?r ?b) @ take ?m xs"
    using facts same by (simp add: drop_splice_at_below)
  ultimately have "rb_data ?rb' = rb_data rb @ xs"
    using same by (simp add: rb_data_def)
  moreover have "rb_ok ?rb'"
    using facts same low by (simp add: rb_ok_def)
  ultimately show ?thesis using run by simp
qed

lemma rb_copy_in_ok:
  assumes "rb_ok rb" and "length xs \<le> buffer_size rb - length (rb_data rb)"
  shows "\<exists>rb'. rb_copy_in rb xs = Some rb' \<and> rb_ok rb' \<and> rb_data rb' = rb_data rb @ xs
           \<and> buffer_size rb' = buffer_size rb"
  using rb_copy_in_short [OF assms] rb_copy_in_wrap [OF assms] by blast

lemma rb_put_ok:
  assumes "rb_ok rb"
  shows "\<exists>rb'. rt_ringbuffer_put rb xs
            = Some (min (length xs) (buffer_size rb - length (rb_data rb)), rb') \<and> rb_ok rb'
          \<and> rb_data rb' = rb_data rb @ take (buffer_size rb - length (rb_data rb)) xs
          \<and> buffer_size rb' = buffer_size rb"
proof (cases "buffer_size rb - length (rb_data rb) = 0")
  case True
  with assms show ?thesis by (simp add: rt_ringbuffer_put_def rb_space_len)
next
  case False
  let ?sp = "buffer_size rb - length (rb_data rb)"
  have eq: "take (if ?sp < length xs then ?sp else length xs) xs = take ?sp xs"
    by simp
  obtain rb' where "rb_copy_in rb (take ?sp xs) = Some rb'" "rb_ok rb'"
      "rb_data rb' = rb_data rb @ take ?sp xs" "buffer_size rb' = buffer_size rb"
    using rb_copy_in_ok [OF assms, of "take ?sp xs"] by auto
  with False assms show ?thesis
    by (simp add: rt_ringbuffer_put_def rb_space_len Let_def eq min_def)
qed

lemma rb_get_short:
  assumes ok: "rb_ok rb" and n: "n \<le> length (rb_data rb)" and short: "n < buffer_size rb - read_index rb"
  shows "rb_ok (rb\<lparr>read_index := read_index rb + n\<rparr>)"
    and "rb_data (rb\<lparr>read_index := read_index rb + n\<rparr>) = drop n (rb_data rb)"
    and "take n (drop (read_index rb) (buffer_ptr rb)) = take n (rb_data rb)"
proof -
  note facts = rb_okD [OF ok] short n length_rb_data [OF ok]
  show "rb_ok (rb\<lparr>read_index := read_index rb + n\<rparr>)"
    using facts by (auto simp: rb_ok_def split: if_splits)
  show "rb_data (rb\<lparr>read_index := read_index rb + n\<rparr>) = drop n (rb_data rb)"
    using facts by (auto simp: rb_data_def drop_take add.commute diff_diff_add split: if_splits)
  show "take n (drop (read_index rb) (buffer_ptr rb)) = take n (rb_data rb)"
    using facts by (auto simp: rb_data_def min_def split: if_splits)
qed

lemma rb_get_wrap:
  assumes ok: "rb_ok rb" and n: "n \<le> length (rb_data rb)"
    and long: "\<not> n < buffer_size rb - read_index rb"
  defines "m \<equiv> buffer_size rb - read_index rb"
  shows "rb_ok (rb\<lparr>read_mirror := \<not> read_mirror rb, read_index := n - m\<rparr>)"
    and "rb_data (rb\<lparr>read_mirror := \<not> read_mirror rb, read_index := n - m\<rparr>) = drop n (rb_data rb)"
    and "take m (drop (read_index rb) (buffer_ptr rb)) @ take (n - m) (buffer_ptr rb)
           = take n (rb_data rb)"
proof -
  note facts = rb_okD [OF ok] long n length_rb_data [OF ok] m_def
  have diff: "read_mirror rb \<noteq> write_mirror rb"
    using facts by (auto split: if_splits)
  have w: "n - m \<le> write_index rb" using facts diff by simp
  have len: "length (take (buffer_size rb - read_index rb) (drop (read_index rb) (buffer_ptr rb))) = m"
    using facts by simp
  show "rb_ok (rb\<lparr>read_mirror := \<not> read_mirror rb, read_index := n - m\<rparr>)"
    using facts diff w by (auto simp: rb_ok_def)
  show "rb_data (rb\<lparr>read_mirror := \<not> read_mirror rb, read_index := n - m\<rparr>) = drop n (rb_data rb)"
    using facts diff w len by (auto simp: rb_data_def drop_take)
  show "take m (drop (read_index rb) (buffer_ptr rb)) @ take (n - m) (buffer_ptr rb)
           = take n (rb_data rb)"
    using facts diff w len by (simp add: rb_data_def min_def)
qed

lemma rb_get_ok:
  assumes ok: "rb_ok rb"
  shows "\<exists>rb'. rt_ringbuffer_get rb n = Some (take n (rb_data rb), rb') \<and> rb_ok rb'
          \<and> rb_data rb' = drop n (rb_data rb) \<and> buffer_size rb' = buffer_size rb"
proof -
  let ?sz = "length (rb_data rb)"
  let ?n = "if ?sz < n then ?sz else n"
  have tk: "take ?n (rb_data rb) = take n (rb_data rb)" "drop ?n (rb_data rb) = drop n (rb_data rb)"
    by auto
  have n: "?n \<le> ?sz" by simp
  have inb: "\<not> length (buffer_ptr rb) < read_index rb + min ?n (buffer_size rb - read_index rb)"
    using rb_okD [OF ok] by (auto simp: min_def)
  show ?thesis
  proof (cases "?sz = 0")
    case True
    with ok show ?thesis by (simp add: rt_ringbuffer_get_def rb_data_len)
  next
    case False
    show ?thesis
    proof (cases "?n < buffer_size rb - read_index rb")
      case True
      with rb_get_short [OF ok n True] rb_okD [OF ok] False inb tk show ?thesis
        by (simp add: rt_ringbuffer_get_def rb_data_len [OF ok] Let_def split del: if_split)
    next
      case wrap: False
      have "?n - (buffer_size rb - read_index rb) < 2 ^ 15"
        using n rb_data_le_size [OF ok] rb_okD [OF ok] by linarith
      with rb_get_wrap [OF ok n wrap] False inb tk wrap show ?thesis
        by (simp add: rt_ringbuffer_get_def rb_data_len [OF ok] Let_def split del: if_split)
    qed
  qed
qed

interpretation rb_fifo: bounded_fifo rb_ok rb_data buffer_size
    "\<lambda>xs rb. rt_ringbuffer_put rb xs" "\<lambda>n rb. rt_ringbuffer_get rb n" "\<lambda>xs. True"
  using rb_put_ok rb_get_ok rb_data_le_size by unfold_locales auto

text \<open>The single-byte operations are the block operations at length one.\<close>

lemma rb_putchar_eq_put:
  assumes "rb_ok rb"
  shows "rt_ringbuffer_putchar rb ch = rt_ringbuffer_put rb [ch]"
proof -
  have "splice_at (write_index rb) [ch] (buffer_ptr rb) = (buffer_ptr rb)[write_index rb := ch]"
    using rb_okD [OF assms] by (simp add: splice_at_def upd_conv_take_nth_drop)
  moreover have "buffer_size rb - write_index rb = 1 \<Longrightarrow>
      splice_at 0 [] ((buffer_ptr rb)[write_index rb := ch]) = (buffer_ptr rb)[write_index rb := ch]"
    by (simp add: splice_at_def)
  ultimately show ?thesis
    using rb_okD [OF assms]
    by (auto simp: rt_ringbuffer_putchar_def rt_ringbuffer_put_def rb_copy_in_def Let_def)
qed

lemma rb_getchar_eq_get:
  assumes "rb_ok rb"
  shows "rt_ringbuffer_getchar rb =
     map_option (\<lambda>(xs, rb'). (case xs of [] \<Rightarrow> None | x # _ \<Rightarrow> Some x, rb')) (rt_ringbuffer_get rb 1)"
proof -
  have "take 1 (drop (read_index rb) (buffer_ptr rb)) = [buffer_ptr rb ! read_index rb]"
    using rb_okD [OF assms] by (simp add: take_Suc_conv_app_nth hd_drop_conv_nth take_Suc)
  moreover have "\<not> Suc 0 < buffer_size rb - read_index rb \<Longrightarrow> buffer_size rb - read_index rb = 1"
    using rb_okD [OF assms] by simp
  ultimately show ?thesis
    using rb_okD [OF assms]
    by (auto simp: rt_ringbuffer_getchar_def rt_ringbuffer_get_def Let_def)
qed

text \<open>Overwriting writes: first the copy when it overruns the unread bytes.\<close>

lemma rb_copy_over_short:
  assumes ok: "rb_ok rb" and diff: "read_mirror rb \<noteq> write_mirror rb"
    and over: "length xs > buffer_size rb - length (rb_data rb)"
    and short: "length xs < buffer_size rb - write_index rb"
  shows "\<exists>rb'. rb_copy_in rb xs = Some rb' \<and> rb_ok (rb'\<lparr>read_index := write_index rb'\<rparr>)
          \<and> rb_data (rb'\<lparr>read_index := write_index rb'\<rparr>)
              = drop (length (rb_data rb) + length xs - buffer_size rb) (rb_data rb @ xs)"
proof -
  let ?r = "read_index rb" and ?w = "write_index rb" and ?b = "buffer_ptr rb"
  let ?w' = "?w + length xs"
  note facts = rb_okD [OF ok] short over length_rb_data [OF ok] diff
  have "length (rb_data rb) + length xs - buffer_size rb = ?w' - ?r" using facts by simp
  moreover have "drop (?w' - ?r) (rb_data rb @ xs)
      = take (buffer_size rb - ?w') (drop ?w' ?b) @ take ?w ?b @ xs"
    using facts by (simp add: rb_data_def drop_take)
  moreover have "rb_copy_in rb xs
      = Some (rb\<lparr>buffer_ptr := splice_at ?w xs ?b, write_index := ?w'\<rparr>)"
    using facts by (simp add: rb_copy_in_def)
  ultimately show ?thesis
    using facts by (simp add: rb_ok_def rb_data_def drop_splice_at_above take_splice_at)
qed

lemma rb_copy_over_wrap:
  assumes ok: "rb_ok rb" and diff: "read_mirror rb \<noteq> write_mirror rb"
    and sz: "length xs \<le> buffer_size rb" and long: "\<not> length xs < buffer_size rb - write_index rb"
  shows "\<exists>rb'. rb_copy_in rb xs = Some rb'
          \<and> rb_ok (rb'\<lparr>read_mirror := \<not> read_mirror rb', read_index := write_index rb'\<rparr>)
          \<and> rb_data (rb'\<lparr>read_mirror := \<not> read_mirror rb', read_index := write_index rb'\<rparr>)
              = drop (length (rb_data rb) + length xs - buffer_size rb) (rb_data rb @ xs)"
proof -
  let ?r = "read_index rb" and ?w = "write_index rb" and ?b = "buffer_ptr rb"
  let ?m = "buffer_size rb - ?w"
  let ?b1 = "splice_at ?w (take ?m xs) ?b"
  let ?b2 = "splice_at 0 (drop ?m xs) ?b1"
  let ?w' = "length xs - ?m"
  note facts = rb_okD [OF ok] long sz length_rb_data [OF ok] diff
  have w': "?w' \<le> ?w" using facts by simp
  have run: "rb_copy_in rb xs
      = Some (rb\<lparr>buffer_ptr := ?b2, write_mirror := \<not> write_mirror rb, write_index := ?w'\<rparr>)"
    using rb_copy_in_wrap_eq [OF ok sz long] .
  have "length (rb_data rb) + length xs - buffer_size rb = buffer_size rb - ?r + ?w'"
    using facts by simp
  moreover have "drop (buffer_size rb - ?r + ?w') (rb_data rb @ xs) = drop ?w' (take ?w ?b) @ xs"
    using facts w' by (simp add: rb_data_def)
  moreover have "take (buffer_size rb - ?w') (drop ?w' ?b2) = drop ?w' (take ?w ?b) @ take ?m xs"
    using facts w' by (simp add: drop_splice_at_above drop_splice_at_below drop_take)
  moreover have "take ?w' ?b2 = drop ?m xs"
    by (simp add: splice_at_def)
  ultimately show ?thesis
    using facts run w' by (simp add: rb_ok_def rb_data_def)
qed

text \<open>C31: writing a block into a ring buffer and reading it back return the same bytes, and over
  any sequence of puts and gets the bytes that came out followed by the bytes still stored are the
  bytes accepted, in order, never more than the buffer size.\<close>

theorem ringbuffer_fifo_history:
  assumes "rb_ok rb"
  shows "\<exists>i out rb'. rb_fifo.run ops rb = Some (i, out, rb') \<and> rb_ok rb'
           \<and> rb_data rb @ i = out @ rb_data rb' \<and> length (rb_data rb') \<le> buffer_size rb"
proof -
  have "rb_fifo.ops_ok ops" by (induction ops rule: rb_fifo.ops_ok.induct) auto
  with assms show ?thesis by (rule rb_fifo.run_history)
qed

theorem ringbuffer_fifo_history_witness:
  "\<exists>i out rb'. rb_fifo.run [Enq [7, 8, 9], Deq 2, Enq [5, 6]]
        \<lparr>buffer_ptr = [0, 0, 0, 0], read_mirror = False, read_index = 3, write_mirror = False,
          write_index = 3, buffer_size = 4\<rparr> = Some (i, out, rb') \<and> i = out @ rb_data rb'"
proof -
  let ?rb = "\<lparr>buffer_ptr = [0, 0, 0, 0], read_mirror = False, read_index = 3,
      write_mirror = False, write_index = 3, buffer_size = 4\<rparr>"
  have "rb_ok ?rb" "rb_data ?rb = []" by (simp_all add: rb_ok_def rb_data_def)
  with ringbuffer_fifo_history [of ?rb "[Enq [7, 8, 9], Deq 2, Enq [5, 6]]"]
  show ?thesis by auto
qed

lemma put_force_keeps_newest_aux:
  assumes ok: "rb_ok rb" and diff: "read_mirror rb \<noteq> write_mirror rb"
    and len: "length ptr \<le> buffer_size rb"
  shows "\<exists>rb'. rt_ringbuffer_put_force rb ptr = Some (length ptr, rb') \<and> rb_ok rb'
           \<and> rb_data rb' = drop (length (rb_data rb) + length ptr - buffer_size rb) (rb_data rb @ ptr)"
proof (cases "length ptr > buffer_size rb - length (rb_data rb)")
  case True
  show ?thesis
  proof (cases "length ptr < buffer_size rb - write_index rb")
    case short: True
    from rb_copy_over_short [OF ok diff True short] show ?thesis
      using True short len ok by (auto simp: rt_ringbuffer_put_force_def rb_space_len)
  next
    case False
    from rb_copy_over_wrap [OF ok diff len False] show ?thesis
      using True False len ok by (auto simp: rt_ringbuffer_put_force_def rb_space_len)
  qed
next
  case False
  then obtain rb' where "rb_copy_in rb ptr = Some rb'" "rb_ok rb'" "rb_data rb' = rb_data rb @ ptr"
    using rb_copy_in_ok [OF ok, of ptr] by auto
  with False len ok rb_data_le_size [OF ok] show ?thesis
    by (auto simp: rt_ringbuffer_put_force_def rb_space_len)
qed

text \<open>\<^verbatim>\<open>rt_ringbuffer_put_force\<close> on a ring whose unread data wraps around (the mirrors
  differ) always takes the newest bytes, drops exactly the oldest ones that no longer fit, and
  keeps the invariant.\<close>

lemma put_force_keeps_newest:
  assumes ok: "rb_ok rb" and diff: "read_mirror rb \<noteq> write_mirror rb"
    and len: "length ptr \<le> buffer_size rb"
  shows "\<exists>rb'. rt_ringbuffer_put_force rb ptr = Some (length ptr, rb') \<and> rb_ok rb'
           \<and> rb_data rb' = drop (length (rb_data rb) + length ptr - buffer_size rb) (rb_data rb @ ptr)"
  using assms by (rule put_force_keeps_newest_aux)

text \<open>\<^verbatim>\<open>rt_ringbuffer_put_force\<close> on a ring whose unread data does not wrap (equal
  mirrors) and that must overwrite some of it flips the read mirror together with the write mirror:
  both indices and both mirrors end equal, so the ring reads as empty and every byte, the new ones
  included, is lost.\<close>

lemma put_force_overrun_loses_all:
  assumes ok: "rb_ok rb" and same: "read_mirror rb = write_mirror rb"
    and over: "min (length ptr) (buffer_size rb) > buffer_size rb - length (rb_data rb)"
  shows "\<exists>rb'. rt_ringbuffer_put_force rb ptr = Some (min (length ptr) (buffer_size rb), rb')
           \<and> rb_data rb' = [] \<and> rt_ringbuffer_status rb' = RT_RINGBUFFER_EMPTY"
proof -
  let ?xs = "if length ptr > buffer_size rb then drop (length ptr - buffer_size rb) ptr else ptr"
  note facts = rb_okD [OF ok] length_rb_data [OF ok] same over
  have len: "length ?xs = min (length ptr) (buffer_size rb)" by simp
  have long: "\<not> length ?xs < buffer_size rb - write_index rb"
    using facts len by (simp split: if_splits)
  show ?thesis
    using rb_copy_in_wrap_eq [OF ok _ long] len long over ok same
    by (simp add: rt_ringbuffer_put_force_def rb_space_len Let_def rb_data_def
        rt_ringbuffer_status_def split del: if_split)
qed

lemma rb_full_iff: "rb_ok rb \<Longrightarrow>
    rt_ringbuffer_status rb = RT_RINGBUFFER_FULL \<longleftrightarrow> length (rb_data rb) = buffer_size rb"
  by (auto simp: rt_ringbuffer_status_def length_rb_data dest: rb_okD)

lemma rb_putchar_force_full:
  assumes ok: "rb_ok rb" and full: "rt_ringbuffer_status rb = RT_RINGBUFFER_FULL"
  shows "rt_ringbuffer_putchar_force rb ch = rt_ringbuffer_put_force rb [ch]"
proof -
  have idx: "read_index rb = write_index rb" "read_mirror rb \<noteq> write_mirror rb"
    using full by (auto simp: rt_ringbuffer_status_def split: if_splits)
  have sp: "splice_at (write_index rb) [ch] (buffer_ptr rb) = (buffer_ptr rb)[write_index rb := ch]"
    using rb_okD [OF ok] by (simp add: splice_at_def upd_conv_take_nth_drop)
  have sp0: "splice_at 0 [] b = b" for b :: "u8 list" by (simp add: splice_at_def)
  have "rt_ringbuffer_space_len rb = 0"
    using full by (simp add: rt_ringbuffer_space_len_def rt_ringbuffer_data_len_def)
  moreover have "int (write_index rb) = int (buffer_size rb) - 1 \<longleftrightarrow>
      \<not> Suc 0 < buffer_size rb - write_index rb"
    using rb_okD [OF ok] by linarith
  ultimately show ?thesis
    using full idx sp sp0 rb_okD [OF ok]
    by (simp add: rt_ringbuffer_putchar_force_def rt_ringbuffer_put_force_def rb_copy_in_def Let_def)
qed

text \<open>\<^verbatim>\<open>rt_ringbuffer_putchar_force\<close> stores the byte in every state of a valid ring; when
  the ring is full it gives up exactly the oldest byte, otherwise nothing is lost.\<close>

lemma putchar_force_spec:
  assumes ok: "rb_ok rb"
  shows "\<exists>rb'. rt_ringbuffer_putchar_force rb ch = Some (1, rb') \<and> rb_ok rb'
           \<and> rb_data rb' = (if length (rb_data rb) = buffer_size rb then tl (rb_data rb)
                            else rb_data rb) @ [ch]"
proof (cases "rt_ringbuffer_status rb = RT_RINGBUFFER_FULL")
  case True
  then have "read_mirror rb \<noteq> write_mirror rb"
    by (auto simp: rt_ringbuffer_status_def split: if_splits)
  with put_force_keeps_newest_aux [OF ok this, of "[ch]"] rb_okD [OF ok]
    True rb_putchar_force_full [OF ok True]
  show ?thesis by (cases "rb_data rb") (auto simp: rb_full_iff [OF ok])
next
  case False
  then have "rt_ringbuffer_putchar_force rb ch = rt_ringbuffer_putchar rb ch"
    using rb_data_le_size [OF ok] rb_full_iff [OF ok] rb_okD [OF ok]
    by (auto simp: rt_ringbuffer_putchar_force_def rt_ringbuffer_putchar_def rb_space_len [OF ok]
        Let_def)
  with rb_put_ok [OF ok, of "[ch]"] rb_putchar_eq_put [OF ok] False rb_data_le_size [OF ok]
  show ?thesis by (fastforce simp: rb_full_iff [OF ok])
qed

text \<open>\<^verbatim>\<open>rt_ringbuffer_init\<close> rounds the pool size down to a multiple of
  \<^verbatim>\<open>RT_ALIGN_SIZE\<close>: from one alignment unit on the ring is valid and empty, below it the
  capacity is zero and every put is refused.\<close>

lemma ringbuffer_init_spec:
  assumes "0 < sz" and "sz < 2 ^ 15" and "sz \<le> int (length pool)"
  shows "\<exists>rb. rt_ringbuffer_init pool sz = Some rb \<and> rb_data rb = []
           \<and> int (buffer_size rb) = sz div 64 * 64
           \<and> (64 \<le> sz \<longrightarrow> rb_ok rb)
           \<and> (sz < 64 \<longrightarrow> (\<forall>xs. rt_ringbuffer_put rb xs = Some (0, rb)))"
proof -
  have al: "RT_ALIGN_DOWN sz RT_ALIGN_SIZE = sz div 64 * 64"
    using RT_ALIGN_DOWN_pow2 [of sz 6] by (simp add: RT_ALIGN_SIZE_def)
  have bound: "0 \<le> sz div 64 * 64" "sz div 64 * 64 \<le> sz" "64 \<le> sz \<Longrightarrow> 64 \<le> sz div 64 * 64"
    "sz < 64 \<Longrightarrow> sz div 64 = 0"
    using assms(1) by (auto simp: div_pos_pos_trivial)
  let ?rb = "\<lparr>buffer_ptr = pool, read_mirror = False, read_index = 0, write_mirror = False,
      write_index = 0, buffer_size = nat (sz div 64 * 64)\<rparr>"
  have "rt_ringbuffer_init pool sz = Some ?rb"
    using assms(1) al by (simp add: rt_ringbuffer_init_def)
  moreover have "64 \<le> sz \<longrightarrow> rb_ok ?rb"
    using assms bound by (auto simp: rb_ok_def)
  moreover have "sz < 64 \<longrightarrow> (\<forall>xs. rt_ringbuffer_put ?rb xs = Some (0, ?rb))"
    using bound by (simp add: rt_ringbuffer_put_def rt_ringbuffer_space_len_def)
  ultimately show ?thesis
    using bound by (auto simp: rb_data_def)
qed

end
