(* ===== verification/RtList.thy ===== *)
theory RtList
  imports Prelude
begin

text \<open>
  The intrusive circular doubly linked lists of \<^verbatim>\<open>include/rtservice.h\<close>, at pointer level:
  a heap maps every node to its \<^verbatim>\<open>next\<close> and \<^verbatim>\<open>prev\<close> node, and each operation is the
  sequence of assignments of the C code, so aliasing is in the model.  \<open>dll h l xs\<close> says that the
  head \<open>l\<close> anchors exactly the nodes \<open>xs\<close>.  The operations refine the list operations that the
  kernel theories use for their queues: insertion after the head conses, insertion before the head
  appends, insertion before a member inserts in front of it, removal removes wherever the node is.
\<close>

record 'n list_heap =
  lnext :: "'n \<Rightarrow> 'n"
  lprev :: "'n \<Rightarrow> 'n"

definition rt_list_init :: "'n \<Rightarrow> 'n list_heap \<Rightarrow> 'n list_heap" where
  "rt_list_init l h = h\<lparr>lnext := (lnext h)(l := l), lprev := (lprev h)(l := l)\<rparr>"

definition rt_list_insert_after :: "'n \<Rightarrow> 'n \<Rightarrow> 'n list_heap \<Rightarrow> 'n list_heap" where
  "rt_list_insert_after l n h0 =
     (let h1 = h0\<lparr>lprev := (lprev h0)(lnext h0 l := n)\<rparr>;
          h2 = h1\<lparr>lnext := (lnext h1)(n := lnext h1 l)\<rparr>;
          h3 = h2\<lparr>lnext := (lnext h2)(l := n)\<rparr>
      in h3\<lparr>lprev := (lprev h3)(n := l)\<rparr>)"

definition rt_list_insert_before :: "'n \<Rightarrow> 'n \<Rightarrow> 'n list_heap \<Rightarrow> 'n list_heap" where
  "rt_list_insert_before l n h0 =
     (let h1 = h0\<lparr>lnext := (lnext h0)(lprev h0 l := n)\<rparr>;
          h2 = h1\<lparr>lprev := (lprev h1)(n := lprev h1 l)\<rparr>;
          h3 = h2\<lparr>lprev := (lprev h2)(l := n)\<rparr>
      in h3\<lparr>lnext := (lnext h3)(n := l)\<rparr>)"

definition rt_list_remove :: "'n \<Rightarrow> 'n list_heap \<Rightarrow> 'n list_heap" where
  "rt_list_remove n h0 =
     (let h1 = h0\<lparr>lprev := (lprev h0)(lnext h0 n := lprev h0 n)\<rparr>;
          h2 = h1\<lparr>lnext := (lnext h1)(lprev h1 n := lnext h1 n)\<rparr>
      in h2\<lparr>lnext := (lnext h2)(n := n), lprev := (lprev h2)(n := n)\<rparr>)"

definition rt_list_isempty :: "'n \<Rightarrow> 'n list_heap \<Rightarrow> bool" where
  "rt_list_isempty l h \<longleftrightarrow> lnext h l = l"

partial_function (option) rt_list_len_from ::
    "'n \<Rightarrow> 'n list_heap \<Rightarrow> 'n \<Rightarrow> nat \<Rightarrow> nat option" where
  "rt_list_len_from l h p len =
     (if lnext h p \<noteq> l then rt_list_len_from l h (lnext h p) (Suc len) else Some len)"

definition rt_list_len :: "'n \<Rightarrow> 'n list_heap \<Rightarrow> nat option" where
  "rt_list_len l h = rt_list_len_from l h l 0"

text \<open>Paths along one pointer field, and well-formed lists.\<close>

fun path :: "('n \<Rightarrow> 'n) \<Rightarrow> 'n \<Rightarrow> 'n list \<Rightarrow> 'n \<Rightarrow> bool" where
  "path f a [] b \<longleftrightarrow> f a = b"
| "path f a (x # xs) b \<longleftrightarrow> f a = x \<and> path f x xs b"

definition dll :: "'n list_heap \<Rightarrow> 'n \<Rightarrow> 'n list \<Rightarrow> bool" where
  "dll h l xs \<longleftrightarrow> distinct (l # xs) \<and> path (lnext h) l xs l \<and> path (lprev h) l (rev xs) l"

lemma path_append [simp]: "path f a (xs @ y # ys) b \<longleftrightarrow> path f a xs y \<and> path f y ys b"
  by (induction xs arbitrary: a) auto

lemma path_upd [simp]: "c \<noteq> a \<Longrightarrow> c \<notin> set xs \<Longrightarrow> path (f(c := v)) a xs b = path f a xs b"
  by (induction xs arbitrary: a) auto

lemma path_last: "path f a xs b \<Longrightarrow> f (last (a # xs)) = b"
  by (induction xs arbitrary: a) auto

lemma path_upd_last:
  "path f a xs b \<Longrightarrow> distinct (a # xs) \<Longrightarrow> path (f(last (a # xs) := c)) a xs c"
proof (induction xs arbitrary: a)
  case Nil
  then show ?case by simp
next
  case (Cons x xs)
  then have "last (x # xs) \<noteq> a" by (metis distinct.simps(2) last_in_set list.distinct(1))
  with Cons show ?case by auto
qed

lemma dll_init: "dll (rt_list_init l h) l []"
  by (simp add: dll_def rt_list_init_def)

lemma dll_isempty: "dll h l xs \<Longrightarrow> rt_list_isempty l h \<longleftrightarrow> xs = []"
  by (cases xs) (auto simp: dll_def rt_list_isempty_def)

lemma dll_first: "dll h l (x # xs) \<Longrightarrow> lnext h l = x"
  by (simp add: dll_def)

lemma last_rev_Cons: "last (a # rev (x # xs)) = x"
  by simp

text \<open>The general insertion: between two neighbours of the circle.\<close>

lemma dll_splitD:
  assumes "dll h l (xs @ y # ys)"
  shows "path (lnext h) l xs y" "path (lnext h) y ys l" "path (lprev h) l (rev ys) y"
    "path (lprev h) y (rev xs) l" "distinct (l # xs @ y # ys)"
  using assms by (auto simp: dll_def)

lemma dll_insert_before_member:
  assumes d: "dll h l (xs @ y # ys)" and n: "n \<notin> set (l # xs @ y # ys)"
  shows "dll (rt_list_insert_before y n h) l (xs @ n # y # ys)"
proof -
  note p = dll_splitD [OF d]
  let ?q = "lprev h y"
  have q: "?q = last (l # xs)"
    using p(4) by (cases xs rule: rev_cases) auto
  have nx: "path ((lnext h)(?q := n)) l xs n"
    using path_upd_last [OF p(1)] p(5) q by simp
  have qy: "?q \<noteq> y" "?q \<notin> set ys" "?q \<noteq> n"
    using q p(5) n last_in_set [of "l # xs"] by auto
  have "path (lnext (rt_list_insert_before y n h)) l (xs @ n # y # ys) l"
    using nx p n qy by (simp add: rt_list_insert_before_def Let_def)
  moreover have "path (lprev (rt_list_insert_before y n h)) l (rev ys @ y # n # rev xs) l"
  proof -
    have "path ((lprev h)(n := lprev h y, y := n)) n (rev xs) l"
      using p n by (cases xs rule: rev_cases) auto
    then show ?thesis
      using p n by (auto simp: rt_list_insert_before_def Let_def)
  qed
  ultimately show ?thesis
    using p(5) n by (auto simp: dll_def)
qed

lemma dll_insert_before:
  assumes d: "dll h l xs" and n: "n \<notin> set (l # xs)"
  shows "dll (rt_list_insert_before l n h) l (xs @ [n])"
proof -
  have p: "path (lnext h) l xs l" "path (lprev h) l (rev xs) l" "distinct (l # xs)"
    using d by (auto simp: dll_def)
  have q: "lprev h l = last (l # xs)"
    using p(2) by (cases xs rule: rev_cases) auto
  have nx: "path ((lnext h)(lprev h l := n)) l xs n"
    using path_upd_last [OF p(1) p(3)] q by simp
  have "path ((lprev h)(n := lprev h l, l := n)) n (rev xs) l"
    using p n by (cases xs rule: rev_cases) auto
  with nx p n q show ?thesis
    by (auto simp: dll_def rt_list_insert_before_def Let_def)
qed

lemma dll_insert_after:
  assumes d: "dll h l xs" and n: "n \<notin> set (l # xs)"
  shows "dll (rt_list_insert_after l n h) l (n # xs)"
proof (cases xs)
  case Nil
  with d n show ?thesis by (auto simp: dll_def rt_list_insert_after_def Let_def)
next
  case (Cons y ys)
  have p: "path (lnext h) y ys l" "path (lprev h) l (rev ys) y" "lprev h y = l" "lnext h l = y"
    using d Cons by (auto simp: dll_def)
  with d n Cons show ?thesis
    by (auto simp: dll_def rt_list_insert_after_def Let_def)
qed

lemma dll_remove:
  assumes d: "dll h l (xs @ n # ys)"
  shows "dll (rt_list_remove n h) l (xs @ ys)" and "dll (rt_list_remove n h) n []"
proof -
  note p = dll_splitD [OF d]
  let ?q = "lprev h n" and ?s = "lnext h n"
  have q: "?q = last (l # xs)"
    using p(4) by (cases xs rule: rev_cases) auto
  have s: "?s = hd (ys @ [l])"
    using p(2) by (cases ys) auto
  have neq: "?q \<noteq> n" "?s \<noteq> n" "n \<noteq> l"
    using q s p(5) last_in_set [of "l # xs"] hd_in_set [of "ys @ [l]"] by auto
  have nx: "path ((lnext h)(?q := ?s)) l xs ?s"
    using path_upd_last [OF p(1)] p(5) q by simp
  have pv: "path ((lprev h)(?s := ?q)) l (rev ys) ?q"
  proof -
    have "last (l # rev ys) = ?s" using s by (cases ys) auto
    then show ?thesis using path_upd_last [OF p(3), of ?q] p(5) by simp
  qed
  have qy: "?q \<notin> set ys" using q p(5) last_in_set [of "l # xs"] by auto
  have sx: "?s \<notin> set xs" using s p(5) hd_in_set [of "ys @ [l]"] by auto
  have "path (lnext (rt_list_remove n h)) l (xs @ ys) l"
  proof (cases ys)
    case Nil
    with nx s neq p(5) show ?thesis by (auto simp: rt_list_remove_def Let_def)
  next
    case (Cons y zs)
    then have "?s = y" using s by simp
    with nx p neq Cons qy show ?thesis by (auto simp: rt_list_remove_def Let_def)
  qed
  moreover have "path (lprev (rt_list_remove n h)) l (rev ys @ rev xs) l"
  proof (cases xs rule: rev_cases)
    case Nil
    with pv q neq p(5) show ?thesis by (simp add: rt_list_remove_def Let_def)
  next
    case (snoc zs x)
    then have "?q = x" using q by simp
    with pv p neq snoc sx show ?thesis by (auto simp: rt_list_remove_def Let_def)
  qed
  ultimately show "dll (rt_list_remove n h) l (xs @ ys)"
    using p(5) by (auto simp: dll_def)
  show "dll (rt_list_remove n h) n []"
    by (simp add: dll_def rt_list_remove_def Let_def)
qed

text \<open>The traversal that counts the nodes terminates on a well-formed list.\<close>

lemma rt_list_len_path:
  "path (lnext h) p ys l \<Longrightarrow> l \<notin> set ys \<Longrightarrow>
   rt_list_len_from l h p k = Some (k + length ys)"
proof (induction ys arbitrary: p k)
  case Nil
  then show ?case by (subst rt_list_len_from.simps) simp
next
  case (Cons y ys)
  then show ?case by (subst rt_list_len_from.simps) auto
qed

lemma dll_len: "dll h l xs \<Longrightarrow> rt_list_len l h = Some (length xs)"
  using rt_list_len_path [of h l xs l 0] by (auto simp: rt_list_len_def dll_def)

text \<open>Separation: an operation on one list leaves a disjoint list alone.\<close>

lemma path_cong:
  "(\<And>x. x \<in> set (a # xs) \<Longrightarrow> f x = g x) \<Longrightarrow> path f a xs b = path g a xs b"
  by (induction xs arbitrary: a) auto

lemma dll_frame:
  assumes "dll h l xs"
    and "\<And>x. x \<in> set (l # xs) \<Longrightarrow> lnext h' x = lnext h x \<and> lprev h' x = lprev h x"
  shows "dll h' l xs"
proof -
  have "path (lnext h') l xs l = path (lnext h) l xs l"
    using assms(2) by (intro path_cong) auto
  moreover have "path (lprev h') l (rev xs) l = path (lprev h) l (rev xs) l"
    using assms(2) by (intro path_cong) auto
  ultimately show ?thesis using assms(1) by (simp add: dll_def)
qed

lemma dll_neighbours:
  assumes "dll h l xs" and "x \<in> set (l # xs)"
  shows "lnext h x \<in> set (l # xs)" and "lprev h x \<in> set (l # xs)"
proof -
  have mem: "path f a ys b \<Longrightarrow> x \<in> set (a # ys) \<Longrightarrow> f x \<in> set (ys @ [b])" for f a ys b
    by (induction ys arbitrary: a) auto
  show "lnext h x \<in> set (l # xs)"
    using mem [of "lnext h" l xs l] assms by (auto simp: dll_def)
  show "lprev h x \<in> set (l # xs)"
    using mem [of "lprev h" l "rev xs" l] assms by (auto simp: dll_def)
qed

text \<open>
  The contract the kernel's queues rely on: a family of disjoint lists, in which a node sits in at
  most one list and can be unlinked without naming the list.
\<close>

locale intrusive_lists =
  fixes rep :: "'h \<Rightarrow> 'n \<Rightarrow> 'n list \<Rightarrow> bool"
    and ins_before :: "'n \<Rightarrow> 'n \<Rightarrow> 'h \<Rightarrow> 'h"
    and unlink :: "'n \<Rightarrow> 'h \<Rightarrow> 'h"
  assumes append_law: "rep h l xs \<Longrightarrow> n \<notin> set (l # xs) \<Longrightarrow> rep (ins_before l n h) l (xs @ [n])"
    and insert_law: "rep h l (xs @ y # ys) \<Longrightarrow> n \<notin> set (l # xs @ y # ys) \<Longrightarrow>
      rep (ins_before y n h) l (xs @ n # y # ys)"
    and unlink_law: "rep h l (xs @ n # ys) \<Longrightarrow> rep (unlink n h) l (xs @ ys)"
    and distinct_law: "rep h l xs \<Longrightarrow> distinct (l # xs)"
    and append_frame: "rep h l xs \<Longrightarrow> rep h k ys \<Longrightarrow> set (l # xs) \<inter> set (k # ys) = {} \<Longrightarrow>
      n \<notin> set (k # ys) \<Longrightarrow> rep (ins_before l n h) k ys"
    and unlink_frame: "rep h l (xs @ n # zs) \<Longrightarrow> rep h k ys \<Longrightarrow>
      set (l # xs @ n # zs) \<inter> set (k # ys) = {} \<Longrightarrow> rep (unlink n h) k ys"
begin

lemma unlink_removeAll:
  assumes "rep h l xs" and "n \<in> set xs"
  shows "rep (unlink n h) l (removeAll n xs)"
proof -
  obtain us vs where xs: "xs = us @ n # vs" using assms(2) by (meson split_list)
  have "removeAll n xs = us @ vs"
    using distinct_law [OF assms(1)] xs by auto
  with unlink_law [of h l us n vs] assms(1) xs show ?thesis by simp
qed

lemma move_between:
  assumes l: "rep h l xs" and k: "rep h k ys" and n: "n \<in> set xs"
    and dj: "set (l # xs) \<inter> set (k # ys) = {}"
  shows "rep (ins_before k n (unlink n h)) l (removeAll n xs)"
    and "rep (ins_before k n (unlink n h)) k (ys @ [n])"
proof -
  obtain us vs where xs: "xs = us @ n # vs" using n by (meson split_list)
  have k': "rep (unlink n h) k ys"
    using unlink_frame [of h l us n vs k ys] l k dj xs by simp
  have l': "rep (unlink n h) l (removeAll n xs)"
    using l n by (rule unlink_removeAll)
  have nk: "n \<notin> set (k # ys)" using dj n by auto
  show "rep (ins_before k n (unlink n h)) k (ys @ [n])"
    using append_law [OF k' nk] .
  have "n \<notin> set (l # removeAll n xs)" using distinct_law [OF l] n by auto
  moreover have "set (k # ys) \<inter> set (l # removeAll n xs) = {}" using dj by auto
  ultimately show "rep (ins_before k n (unlink n h)) l (removeAll n xs)"
    using append_frame [OF k' l'] by blast
qed

end

lemma dll_insert_before_frame:
  assumes "dll h l xs" and "dll h k ys" and "set (l # xs) \<inter> set (k # ys) = {}"
    and "n \<notin> set (k # ys)"
  shows "dll (rt_list_insert_before l n h) k ys"
  using assms(2)
proof (rule dll_frame)
  fix x assume x: "x \<in> set (k # ys)"
  have "lprev h l \<in> set (l # xs)" using dll_neighbours(2) [OF assms(1), of l] by simp
  with x assms(3,4) have "x \<noteq> n" "x \<noteq> l" "x \<noteq> lprev h l" by auto
  then show "lnext (rt_list_insert_before l n h) x = lnext h x \<and>
      lprev (rt_list_insert_before l n h) x = lprev h x"
    by (simp add: rt_list_insert_before_def Let_def)
qed

lemma dll_remove_frame:
  assumes "dll h l (xs @ n # zs)" and "dll h k ys"
    and "set (l # xs @ n # zs) \<inter> set (k # ys) = {}"
  shows "dll (rt_list_remove n h) k ys"
  using assms(2)
proof (rule dll_frame)
  fix x assume x: "x \<in> set (k # ys)"
  have "lprev h n \<in> set (l # xs @ n # zs)" "lnext h n \<in> set (l # xs @ n # zs)"
    using dll_neighbours [OF assms(1), of n] by auto
  with x assms(3) have "x \<noteq> n" "x \<noteq> lprev h n" "x \<noteq> lnext h n" by auto
  then show "lnext (rt_list_remove n h) x = lnext h x \<and> lprev (rt_list_remove n h) x = lprev h x"
    by (auto simp: rt_list_remove_def Let_def)
qed

interpretation rt_lists: intrusive_lists dll rt_list_insert_before rt_list_remove
proof (unfold_locales, goal_cases)
  case 1 then show ?case by (rule dll_insert_before)
next
  case 2 then show ?case by (rule dll_insert_before_member)
next
  case 3 then show ?case by (rule dll_remove)
next
  case 4 then show ?case by (simp add: dll_def)
next
  case 5 then show ?case by (rule dll_insert_before_frame)
next
  case 6 then show ?case by (rule dll_remove_frame)
qed

text \<open>C38: moving a node from one circular list to the end of another with
  \<^verbatim>\<open>rt_list_remove\<close> and \<^verbatim>\<open>rt_list_insert_before\<close>, which only touch neighbouring
  pointers, removes it from the first list and appends it to the second; both stay well formed and
  their traversals count the expected nodes.\<close>

theorem list_move_refines:
  assumes "dll h l xs" and "dll h k ys" and "n \<in> set xs" and "set (l # xs) \<inter> set (k # ys) = {}"
  shows "dll (rt_list_insert_before k n (rt_list_remove n h)) l (removeAll n xs)
    \<and> dll (rt_list_insert_before k n (rt_list_remove n h)) k (ys @ [n])
    \<and> rt_list_len k (rt_list_insert_before k n (rt_list_remove n h)) = Some (Suc (length ys))"
proof -
  note m = rt_lists.move_between [OF assms]
  show ?thesis using m dll_len [OF m(2)] by simp
qed

theorem list_move_refines_witness:
  "let h = rt_list_insert_before 10 11 (rt_list_insert_before 0 2 (rt_list_insert_before 0 1
             (rt_list_init 10 (rt_list_init (0::nat) \<lparr>lnext = id, lprev = id\<rparr>))))
   in dll (rt_list_insert_before 10 1 (rt_list_remove 1 h)) 10 [11, 1]"
proof -
  let ?h = "rt_list_insert_before 10 11 (rt_list_insert_before 0 2 (rt_list_insert_before 0 1
             (rt_list_init 10 (rt_list_init (0::nat) \<lparr>lnext = id, lprev = id\<rparr>))))"
  have "dll ?h 0 [1, 2]" "dll ?h 10 [11]"
    by (simp_all add: dll_def rt_list_insert_before_def rt_list_init_def Let_def)
  from list_move_refines [OF this, of 1] show ?thesis by simp
qed

text \<open>insertion after the head puts the node first, insertion before a member puts it right in
  front of that member, and the head tests empty exactly when no node is linked.\<close>

lemma list_insert_refines:
  assumes "dll h l (xs @ y # ys)" and "n \<notin> set (l # xs @ y # ys)"
  shows "dll (rt_list_insert_before y n h) l (xs @ n # y # ys)
       \<and> dll (rt_list_insert_after l n h) l (n # xs @ y # ys)
       \<and> \<not> rt_list_isempty l h \<and> rt_list_isempty n (rt_list_remove n (rt_list_insert_after l n h))"
proof -
  have ia: "dll (rt_list_insert_after l n h) l (n # xs @ y # ys)"
    using assms by (intro dll_insert_after) auto
  then have "dll (rt_list_remove n (rt_list_insert_after l n h)) n []"
    using dll_remove(2) [of _ l "[]"] by simp
  then show ?thesis
    using ia dll_insert_before_member [OF assms] dll_isempty [OF assms(1)] dll_isempty by fastforce
qed

end
