(* ===== verification/Kservice.thy ===== *)
theory Kservice
  imports Prelude
begin

text \<open>
  Kernel services of \<^verbatim>\<open>src/kservice.c\<close>: the find-first-set routine
  \<^verbatim>\<open>__rt_ffs\<close> the scheduler uses to find the highest ready priority, with its table of
  256 lowest-bit positions.  The theory shows that it returns one plus the index of the lowest set
  bit for every non-zero word.
\<close>

definition lowest_bit_bitmap :: "nat list" where
  "lowest_bit_bitmap = [
     0, 0, 1, 0, 2, 0, 1, 0, 3, 0, 1, 0, 2, 0, 1, 0,
     4, 0, 1, 0, 2, 0, 1, 0, 3, 0, 1, 0, 2, 0, 1, 0,
     5, 0, 1, 0, 2, 0, 1, 0, 3, 0, 1, 0, 2, 0, 1, 0,
     4, 0, 1, 0, 2, 0, 1, 0, 3, 0, 1, 0, 2, 0, 1, 0,
     6, 0, 1, 0, 2, 0, 1, 0, 3, 0, 1, 0, 2, 0, 1, 0,
     4, 0, 1, 0, 2, 0, 1, 0, 3, 0, 1, 0, 2, 0, 1, 0,
     5, 0, 1, 0, 2, 0, 1, 0, 3, 0, 1, 0, 2, 0, 1, 0,
     4, 0, 1, 0, 2, 0, 1, 0, 3, 0, 1, 0, 2, 0, 1, 0,
     7, 0, 1, 0, 2, 0, 1, 0, 3, 0, 1, 0, 2, 0, 1, 0,
     4, 0, 1, 0, 2, 0, 1, 0, 3, 0, 1, 0, 2, 0, 1, 0,
     5, 0, 1, 0, 2, 0, 1, 0, 3, 0, 1, 0, 2, 0, 1, 0,
     4, 0, 1, 0, 2, 0, 1, 0, 3, 0, 1, 0, 2, 0, 1, 0,
     6, 0, 1, 0, 2, 0, 1, 0, 3, 0, 1, 0, 2, 0, 1, 0,
     4, 0, 1, 0, 2, 0, 1, 0, 3, 0, 1, 0, 2, 0, 1, 0,
     5, 0, 1, 0, 2, 0, 1, 0, 3, 0, 1, 0, 2, 0, 1, 0,
     4, 0, 1, 0, 2, 0, 1, 0, 3, 0, 1, 0, 2, 0, 1, 0]"

definition rt_ffs :: "u32 \<Rightarrow> nat" where
  "rt_ffs value =
     (if value = 0 then 0
      else if value AND 0xff \<noteq> 0
        then lowest_bit_bitmap ! unat (value AND 0xff) + 1
      else if value AND 0xff00 \<noteq> 0
        then lowest_bit_bitmap ! unat (drop_bit 8 (value AND 0xff00)) + 9
      else if value AND 0xff0000 \<noteq> 0
        then lowest_bit_bitmap ! unat (drop_bit 16 (value AND 0xff0000)) + 17
      else lowest_bit_bitmap ! unat (drop_bit 24 (value AND 0xff000000)) + 25)"

text \<open>The table, checked entry by entry.\<close>

fun table_ok :: "nat \<Rightarrow> nat list \<Rightarrow> bool" where
  "table_ok n [] = True"
| "table_ok n (p # ps) = (n mod 2 ^ p = 0 \<and> n div 2 ^ p mod 2 = 1 \<and> table_ok (n + 1) ps)"

lemma table_ok_nth:
  "table_ok n ps \<Longrightarrow> i < length ps \<Longrightarrow>
   (n + i) mod 2 ^ (ps ! i) = 0 \<and> (n + i) div 2 ^ (ps ! i) mod 2 = 1"
proof (induction ps arbitrary: n i)
  case Nil
  then show ?case by simp
next
  case (Cons p ps)
  then show ?case
    using Cons.IH [of "n + 1" "i - 1"] by (cases i) auto
qed

lemma lowest_bit_bitmap_table:
  "table_ok 1 (tl lowest_bit_bitmap)" "length lowest_bit_bitmap = 256"
  by (simp_all add: lowest_bit_bitmap_def)

lemma lowest_bit_bitmap_entry:
  assumes "n < 256" and "n \<noteq> 0"
  shows "bit n (lowest_bit_bitmap ! n) \<and> (\<forall>q < lowest_bit_bitmap ! n. \<not> bit n q)"
proof -
  let ?p = "lowest_bit_bitmap ! n"
  have "tl lowest_bit_bitmap ! (n - 1) = ?p"
    using assms lowest_bit_bitmap_table(2) by (cases n) (auto simp: nth_tl)
  then have *: "n mod 2 ^ ?p = 0" "n div 2 ^ ?p mod 2 = 1"
    using table_ok_nth [OF lowest_bit_bitmap_table(1), of "n - 1"] assms
    by (auto simp: lowest_bit_bitmap_table(2))
  have "\<not> bit n q" if "q < ?p" for q
  proof -
    have "take_bit ?p n = 0" using *(1) by (simp add: take_bit_eq_mod)
    then have "\<not> bit (take_bit ?p n) q" by simp
    with that show ?thesis by (simp add: bit_take_bit_iff)
  qed
  with *(2) show ?thesis by (simp add: bit_iff_odd odd_iff_mod_2_eq_one)
qed

text \<open>One byte of the word, at bit offset \<open>k\<close>.\<close>

definition byte_at :: "nat \<Rightarrow> u32 \<Rightarrow> u32" where
  "byte_at k v = take_bit 8 (drop_bit k v)"

lemma byte_at_masks:
  "v AND 0xff = byte_at 0 v"
  "drop_bit 8 (v AND 0xff00) = byte_at 8 v"
  "drop_bit 16 (v AND 0xff0000) = byte_at 16 v"
  "drop_bit 24 (v AND 0xff000000) = byte_at 24 v"
proof -
  have m: "(0xff :: u32) = mask 8" "(0xff00 :: u32) = push_bit 8 (mask 8)"
    "(0xff0000 :: u32) = push_bit 16 (mask 8)" "(0xff000000 :: u32) = push_bit 24 (mask 8)"
    by (simp_all add: mask_eq_exp_minus_1 push_bit_eq_mult)
  show "v AND 0xff = byte_at 0 v"
    by (simp add: byte_at_def m take_bit_eq_mask)
  show "drop_bit 8 (v AND 0xff00) = byte_at 8 v"
    unfolding m byte_at_def by (rule bit_eqI) (auto simp: bit_simps)
  show "drop_bit 16 (v AND 0xff0000) = byte_at 16 v"
    unfolding m byte_at_def by (rule bit_eqI) (auto simp: bit_simps)
  show "drop_bit 24 (v AND 0xff000000) = byte_at 24 v"
    unfolding m byte_at_def by (rule bit_eqI) (auto simp: bit_simps)
qed

lemma byte_at_bit: "bit (byte_at k v) q \<longleftrightarrow> q < 8 \<and> bit v (k + q)"
  by (simp add: byte_at_def bit_take_bit_iff bit_drop_bit_eq)

lemma byte_at_nonzero: "byte_at k v \<noteq> 0 \<longleftrightarrow> (\<exists>q < 8. bit v (k + q))"
  by (metis byte_at_bit bit_eq_iff bit_0_eq bot_apply bot_bool_def)

lemma unat_byte_at: "unat (byte_at k v) < 256"
proof -
  have "unat (byte_at k v) = take_bit 8 (unat (drop_bit k v))"
    by (simp add: byte_at_def unsigned_take_bit_eq)
  then show ?thesis by (simp add: take_bit_eq_mod)
qed

lemma byte_at_lowest:
  assumes "byte_at k v \<noteq> 0"
  shows "bit v (k + lowest_bit_bitmap ! unat (byte_at k v))"
    and "\<And>q. k \<le> q \<Longrightarrow> q < k + lowest_bit_bitmap ! unat (byte_at k v) \<Longrightarrow> \<not> bit v q"
    and "lowest_bit_bitmap ! unat (byte_at k v) < 8"
proof -
  let ?p = "lowest_bit_bitmap ! unat (byte_at k v)"
  have e: "bit (unat (byte_at k v)) ?p \<and> (\<forall>q < ?p. \<not> bit (unat (byte_at k v)) q)"
    using assms by (intro lowest_bit_bitmap_entry unat_byte_at) (simp add: unat_eq_zero)
  then have e': "bit (byte_at k v) ?p" "\<And>q. q < ?p \<Longrightarrow> \<not> bit (byte_at k v) q"
    by (auto simp: bit_unsigned_iff)
  show "?p < 8" "bit v (k + ?p)" using e'(1) by (simp_all add: byte_at_bit)
  fix q assume "k \<le> q" "q < k + ?p"
  then show "\<not> bit v q"
    using e'(2) [of "q - k"] \<open>?p < 8\<close> by (simp add: byte_at_bit)
qed

lemma byte_at_zero_iff:
  "v AND 0xff00 = 0 \<longleftrightarrow> byte_at 8 v = 0" "v AND 0xff0000 = 0 \<longleftrightarrow> byte_at 16 v = 0"
proof -
  have m: "(0xff00 :: u32) = push_bit 8 (mask 8)" "(0xff0000 :: u32) = push_bit 16 (mask 8)"
    by (simp_all add: mask_eq_exp_minus_1 push_bit_eq_mult)
  have *: "v AND push_bit k (mask 8) = push_bit k (byte_at k v)" for k
    unfolding byte_at_def by (rule bit_eqI) (auto simp: bit_simps)
  have **: "push_bit k (byte_at k v) = 0 \<Longrightarrow> k + 8 \<le> 32 \<Longrightarrow> byte_at k v = 0" for k
  proof -
    assume 0: "push_bit k (byte_at k v) = 0" and k: "k + 8 \<le> 32"
    have "\<not> bit v (k + q)" if "q < 8" for q
    proof -
      have "\<not> bit (push_bit k (byte_at k v)) (k + q)" using 0 by simp
      with that k show ?thesis by (simp add: bit_push_bit_iff byte_at_bit)
    qed
    then show "byte_at k v = 0" using byte_at_nonzero by blast
  qed
  show "v AND 0xff00 = 0 \<longleftrightarrow> byte_at 8 v = 0" "v AND 0xff0000 = 0 \<longleftrightarrow> byte_at 16 v = 0"
    unfolding m * using ** [of 8] ** [of 16] by auto
qed

lemma rt_ffs_bytes:
  "rt_ffs v =
     (if v = 0 then 0
      else if byte_at 0 v \<noteq> 0 then lowest_bit_bitmap ! unat (byte_at 0 v) + 1
      else if byte_at 8 v \<noteq> 0 then lowest_bit_bitmap ! unat (byte_at 8 v) + 9
      else if byte_at 16 v \<noteq> 0 then lowest_bit_bitmap ! unat (byte_at 16 v) + 17
      else lowest_bit_bitmap ! unat (byte_at 24 v) + 25)"
  by (simp only: rt_ffs_def byte_at_masks byte_at_zero_iff)

lemma byte_at_cover:
  assumes "bit (v :: u32) q" shows "byte_at (q div 8 * 8) v \<noteq> 0"
proof -
  have "q mod 8 < 8" "bit v (q div 8 * 8 + q mod 8)" using assms by simp_all
  then show ?thesis by (meson byte_at_nonzero)
qed

lemma byte_at_zeroD: "byte_at k v = 0 \<Longrightarrow> k \<le> q \<Longrightarrow> q < k + 8 \<Longrightarrow> \<not> bit v q"
  using byte_at_nonzero [of k v] by (metis add_less_cancel_left le_add_diff_inverse)

lemma rt_ffs_lowest:
  assumes "v \<noteq> 0"
  shows "\<exists>p. rt_ffs v = Suc p \<and> bit v p \<and> (\<forall>q < p. \<not> bit v q)"
proof -
  have step: "\<exists>p. lowest_bit_bitmap ! unat (byte_at k v) + Suc k = Suc p \<and> bit v p
      \<and> (\<forall>q < p. \<not> bit v q)" if "byte_at k v \<noteq> 0" "\<And>q. q < k \<Longrightarrow> \<not> bit v q" for k
  proof (intro exI conjI allI impI)
    let ?p = "k + lowest_bit_bitmap ! unat (byte_at k v)"
    show "lowest_bit_bitmap ! unat (byte_at k v) + Suc k = Suc ?p" by simp
    show "bit v ?p" by (rule byte_at_lowest(1) [OF that(1)])
    fix q assume "q < ?p"
    then show "\<not> bit v q"
      using that(2) [of q] byte_at_lowest(2) [OF that(1), of q] by (cases "q < k") auto
  qed
  consider "byte_at 0 v \<noteq> 0" | "byte_at 0 v = 0" "byte_at 8 v \<noteq> 0"
    | "byte_at 0 v = 0" "byte_at 8 v = 0" "byte_at 16 v \<noteq> 0"
    | "byte_at 0 v = 0" "byte_at 8 v = 0" "byte_at 16 v = 0"
    by blast
  then show ?thesis
  proof cases
    case 1
    with step [of 0] assms show ?thesis by (simp add: rt_ffs_bytes)
  next
    case 2
    with step [of 8] byte_at_zeroD [of 0 v] assms show ?thesis by (simp add: rt_ffs_bytes)
  next
    case 3
    have "\<not> bit v q" if "q < 16" for q
      using that 3 byte_at_zeroD [of 0 v q] byte_at_zeroD [of 8 v q] by linarith
    with step [of 16] 3 assms show ?thesis by (simp add: rt_ffs_bytes)
  next
    case 4
    have low: "\<not> bit v q" if "q < 24" for q
      using that 4 byte_at_zeroD [of 0 v q] byte_at_zeroD [of 8 v q] byte_at_zeroD [of 16 v q]
      by linarith
    have "byte_at 24 v \<noteq> 0"
    proof
      assume "byte_at 24 v = 0"
      with low have "\<not> bit v q" for q
        using byte_at_zeroD [of 24 v q] bit_imp_le_length [of v q] by (cases "q < 24") auto
      then have "v = 0" by (simp add: bit_eq_iff)
      with assms show False by simp
    qed
    with step [of 24] low 4 assms show ?thesis by (simp add: rt_ffs_bytes)
  qed
qed

text \<open>C39: \<^verbatim>\<open>__rt_ffs\<close> returns zero for zero and otherwise one plus the index of the lowest
  set bit, so its table look-ups pick the numerically smallest ready priority.\<close>

theorem rt_ffs_spec:
  "(v = 0 \<and> rt_ffs v = 0) \<or>
   (0 < rt_ffs v \<and> bit v (rt_ffs v - 1) \<and> rt_ffs v \<le> 32 \<and> {q. bit v q \<and> q < rt_ffs v - 1} = {})"
proof (cases "v = 0")
  case True
  then show ?thesis by (simp add: rt_ffs_def)
next
  case False
  then obtain p where p: "rt_ffs v = Suc p" "bit v p" "\<forall>q < p. \<not> bit v q"
    using rt_ffs_lowest by blast
  have "p < 32" using bit_imp_le_length [OF p(2)] by simp
  with p show ?thesis by auto
qed

end
