(* ===== verification/CString.thy ===== *)
theory CString
  imports Prelude
begin

text \<open>
  The string and memory routines of \<^verbatim>\<open>src/kservice.c\<close> on bounded memory: a pointer is an index
  into a byte list, and an access outside of the list gives \<open>None\<close>.  The theory relates each loop
  to what it computes on the string (the bytes before the first zero), and the overlapping copy
  \<^verbatim>\<open>rt_memmove\<close> to the simultaneous copy.
\<close>

subsection \<open>Operations\<close>

fun rt_strlen_from :: "u8 list \<Rightarrow> nat \<Rightarrow> nat \<Rightarrow> nat option" where
  "rt_strlen_from [] i n = None"
| "rt_strlen_from (c # cs) i n = (if c \<noteq> 0 then rt_strlen_from cs i (n + 1) else Some (n - i))"

definition rt_strlen :: "u8 list \<Rightarrow> nat \<Rightarrow> nat option" where
  "rt_strlen mem s = rt_strlen_from (drop s mem) s s"

text \<open>The loop condition reads the character before it compares the length.\<close>

fun rt_strnlen_loop :: "u8 list \<Rightarrow> nat \<Rightarrow> nat \<Rightarrow> nat option" where
  "rt_strnlen_loop [] n maxlen = None"
| "rt_strnlen_loop (c # cs) n maxlen =
     (if c \<noteq> 0 \<and> n < maxlen then rt_strnlen_loop cs (n + 1) maxlen else Some n)"

definition rt_strnlen :: "u8 list \<Rightarrow> nat \<Rightarrow> nat option" where
  "rt_strnlen s maxlen = rt_strnlen_loop s 0 maxlen"

fun rt_strncpy_pad :: "u8 list \<Rightarrow> nat \<Rightarrow> nat \<Rightarrow> u8 list option" where
  "rt_strncpy_pad d i 0 = Some d"
| "rt_strncpy_pad d i (Suc n) = do {
     d \<leftarrow> store_at d i 0;
     rt_strncpy_pad d (i + 1) n
   }"

fun rt_strncpy_loop :: "u8 list \<Rightarrow> u8 list \<Rightarrow> nat \<Rightarrow> nat \<Rightarrow> u8 list option" where
  "rt_strncpy_loop d s i 0 = Some d"
| "rt_strncpy_loop d s i (Suc n) = do {
     c \<leftarrow> load_at s i;
     d \<leftarrow> store_at d i c;
     if c = 0 then rt_strncpy_pad d (i + 1) n else rt_strncpy_loop d s (i + 1) n
   }"

definition rt_strncpy :: "u8 list \<Rightarrow> u8 list \<Rightarrow> nat \<Rightarrow> u8 list option" where
  "rt_strncpy dst src n = (if n \<noteq> 0 then rt_strncpy_loop dst src 0 n else Some dst)"

text \<open>The difference is kept in a signed char.\<close>

fun rt_strncmp_loop :: "u8 list \<Rightarrow> u8 list \<Rightarrow> nat \<Rightarrow> nat \<Rightarrow> u8 \<Rightarrow> int option" where
  "rt_strncmp_loop cs ct i 0 res = Some (sint res)"
| "rt_strncmp_loop cs ct i (Suc count) _ = do {
     a \<leftarrow> load_at cs i;
     b \<leftarrow> load_at ct i;
     let res = a - b;
     if res \<noteq> 0 \<or> a = 0 then Some (sint res) else rt_strncmp_loop cs ct (i + 1) count res
   }"

definition rt_strncmp :: "u8 list \<Rightarrow> u8 list \<Rightarrow> nat \<Rightarrow> int option" where
  "rt_strncmp cs ct count = rt_strncmp_loop cs ct 0 count 0"

fun rt_strcmp :: "u8 list \<Rightarrow> u8 list \<Rightarrow> int option" where
  "rt_strcmp (a # cs) (b # ct) =
     (if a \<noteq> 0 \<and> a = b then rt_strcmp cs ct else Some (uint a - uint b))"
| "rt_strcmp _ _ = None"

fun rt_memcmp :: "u8 list \<Rightarrow> u8 list \<Rightarrow> nat \<Rightarrow> int option" where
  "rt_memcmp cs ct 0 = Some 0"
| "rt_memcmp (a # cs) (b # ct) (Suc count) =
     (if uint a - uint b \<noteq> 0 then Some (uint a - uint b)
      else rt_memcmp cs ct count)"
| "rt_memcmp _ _ (Suc count) = None"

text \<open>\<^verbatim>\<open>rt_strstr\<close>: the position of the first occurrence of \<open>s2\<close> in \<open>s1\<close>; the outer option is
  the memory error, the inner one the null pointer.\<close>

fun rt_strstr_loop :: "u8 list \<Rightarrow> u8 list \<Rightarrow> nat \<Rightarrow> nat \<Rightarrow> nat \<Rightarrow> nat option option" where
  "rt_strstr_loop s1 s2 pos l1 l2 =
     (if l1 \<ge> l2 then do {
        r \<leftarrow> rt_memcmp (drop pos s1) s2 l2;
        if r = 0 then Some (Some pos)
        else if l1 = 0 then Some None
        else rt_strstr_loop s1 s2 (pos + 1) (l1 - 1) l2
      } else Some None)"

definition rt_strstr :: "u8 list \<Rightarrow> u8 list \<Rightarrow> nat option option" where
  "rt_strstr s1 s2 = do {
     l2 \<leftarrow> rt_strlen s2 0;
     if l2 = 0 then Some (Some 0) else do {
       l1 \<leftarrow> rt_strlen s1 0;
       rt_strstr_loop s1 s2 0 l1 l2
     }
   }"

definition lower_ascii :: "u8 \<Rightarrow> u8" where
  "lower_ascii c = (if 0x41 \<le> c \<and> c \<le> 0x5a then c + 0x20 else c)"

fun rt_strcasecmp :: "u8 list \<Rightarrow> u8 list \<Rightarrow> int option" where
  "rt_strcasecmp (a # as) (b # bs) =
     (let ca = lower_ascii a; cb = lower_ascii b
      in if ca = cb \<and> ca \<noteq> 0 then rt_strcasecmp as bs else Some (uint ca - uint cb))"
| "rt_strcasecmp _ _ = None"

text \<open>\<^verbatim>\<open>rt_memmove\<close> inside one memory: upwards, or downwards when the destination starts inside
  the source.\<close>

fun move_up :: "'a list \<Rightarrow> nat \<Rightarrow> nat \<Rightarrow> nat \<Rightarrow> 'a list option" where
  "move_up mem d s 0 = Some mem"
| "move_up mem d s (Suc n) = do {
     c \<leftarrow> load_at mem s;
     mem \<leftarrow> store_at mem d c;
     move_up mem (d + 1) (s + 1) n
   }"

fun move_down :: "'a list \<Rightarrow> nat \<Rightarrow> nat \<Rightarrow> nat \<Rightarrow> 'a list option" where
  "move_down mem d s 0 = Some mem"
| "move_down mem d s (Suc n) = do {
     c \<leftarrow> load_at mem (s - 1);
     mem \<leftarrow> store_at mem (d - 1) c;
     move_down mem (d - 1) (s - 1) n
   }"

definition rt_memmove :: "'a list \<Rightarrow> nat \<Rightarrow> nat \<Rightarrow> nat \<Rightarrow> 'a list option" where
  "rt_memmove mem dest src n =
     (if src < dest \<and> dest < src + n
      then move_down mem (dest + n) (src + n) n
      else move_up mem dest src n)"

text \<open>\<^verbatim>\<open>rt_memset\<close>: blocks of four words, then words, then bytes, when the start is aligned.\<close>

fun store_run :: "u8 list \<Rightarrow> nat \<Rightarrow> u8 list \<Rightarrow> u8 list option" where
  "store_run mem i [] = Some mem"
| "store_run mem i (b # bs) = do {
     mem \<leftarrow> store_at mem i b;
     store_run mem (i + 1) bs
   }"

definition word_bytes :: "u64 \<Rightarrow> u8 list" where
  "word_bytes w = map (\<lambda>i. ucast (drop_bit (8 * i) w)) [0..<8]"

fun fill_word :: "u8 \<Rightarrow> nat \<Rightarrow> u64 \<Rightarrow> u64" where
  "fill_word d 0 buffer = buffer"
| "fill_word d (Suc i) buffer = fill_word d i (push_bit 8 buffer OR ucast d)"

fun set_bytes :: "u8 list \<Rightarrow> nat \<Rightarrow> u8 \<Rightarrow> nat \<Rightarrow> u8 list option" where
  "set_bytes mem m d 0 = Some mem"
| "set_bytes mem m d (Suc count) = do {
     mem \<leftarrow> store_at mem m d;
     set_bytes mem (m + 1) d count
   }"

fun set_words :: "u8 list \<Rightarrow> nat \<Rightarrow> u64 \<Rightarrow> nat \<Rightarrow> (u8 list \<times> nat \<times> nat) option" where
  "set_words mem a buffer count =
     (if count \<ge> 8 then do {
        mem \<leftarrow> store_run mem a (word_bytes buffer);
        set_words mem (a + 8) buffer (count - 8)
      } else Some (mem, a, count))"

fun set_blocks :: "u8 list \<Rightarrow> nat \<Rightarrow> u64 \<Rightarrow> nat \<Rightarrow> (u8 list \<times> nat \<times> nat) option" where
  "set_blocks mem a buffer count =
     (if count \<ge> 32 then do {
        mem \<leftarrow> store_run mem a (word_bytes buffer);
        mem \<leftarrow> store_run mem (a + 8) (word_bytes buffer);
        mem \<leftarrow> store_run mem (a + 16) (word_bytes buffer);
        mem \<leftarrow> store_run mem (a + 24) (word_bytes buffer);
        set_blocks mem (a + 32) buffer (count - 32)
      } else Some (mem, a, count))"

definition rt_memset :: "u8 list \<Rightarrow> nat \<Rightarrow> u8 \<Rightarrow> nat \<Rightarrow> u8 list option" where
  "rt_memset mem s c count =
     (if \<not> count < 8 \<and> s mod 8 = 0
      then do {
        let buffer = fill_word c 8 0;
        (mem, a, count) \<leftarrow> set_blocks mem s buffer count;
        (mem, a, count) \<leftarrow> set_words mem a buffer count;
        set_bytes mem a c count
      }
      else set_bytes mem s c count)"

declare rt_strstr_loop.simps [simp del] set_words.simps [simp del] set_blocks.simps [simp del]

subsection \<open>What the loops compute\<close>

text \<open>The string stored at the start of a memory: the bytes before the first zero.\<close>

definition cstr :: "u8 list \<Rightarrow> u8 list" where
  "cstr mem = takeWhile (\<lambda>c. c \<noteq> 0) mem"

lemma rt_strncpy_pad_spec:
  "i + n \<le> length d \<Longrightarrow> rt_strncpy_pad d i n = Some (splice_at i (replicate n 0) d)"
proof (induction n arbitrary: d i)
  case (Suc n)
  then show ?case
    by (simp add: list_update_splice_at splice_at_append)
qed simp

lemma rt_strncpy_loop_spec:
  assumes "i + n \<le> length d" and "0 \<in> set (drop i s) \<or> i + n \<le> length s"
  shows "rt_strncpy_loop d s i n = Some (splice_at i (take n (cstr (drop i s) @ replicate n 0)) d)"
  using assms
proof (induction n arbitrary: d i)
  case (Suc n)
  then have i: "i < length s" "i < length d" by (auto intro: ccontr)
  then have split: "drop i s = s ! i # drop (Suc i) s" by (simp add: Cons_nth_drop_Suc)
  show ?case
  proof (cases "s ! i = 0")
    case True
    then show ?thesis
      using Suc.prems(1) i split
      by (simp add: rt_strncpy_pad_spec list_update_splice_at splice_at_append cstr_def)
  next
    case False
    then have "0 \<in> set (drop (Suc i) s) \<or> Suc i + n \<le> length s"
      using Suc.prems(2) split by auto
    then show ?thesis
      using Suc.IH [of "Suc i" "d[i := s ! i]"] Suc.prems(1) i split False
      by (simp add: list_update_splice_at splice_at_append cstr_def replicate_append_same [symmetric]
          flip: replicate_Suc)
  qed
qed simp

lemma rt_strncpy_spec:
  assumes "n \<le> length dst" and "0 \<in> set src \<or> n \<le> length src"
  shows "rt_strncpy dst src n = Some (take n (cstr src @ replicate n 0) @ drop n dst)"
  using rt_strncpy_loop_spec [of 0 n dst src] assms
  by (auto simp: rt_strncpy_def splice_at_def min_def)

lemma rt_strncmp_loop_zero:
  assumes "0 \<in> set (drop i cs) \<or> i + n \<le> length cs" and "0 \<in> set (drop i ct) \<or> i + n \<le> length ct"
  shows "\<exists>r. rt_strncmp_loop cs ct i n 0 = Some r \<and>
    (r = 0 \<longleftrightarrow> take n (cstr (drop i cs)) = take n (cstr (drop i ct)))"
  using assms
proof (induction n arbitrary: i)
  case (Suc n)
  then have i: "i < length cs" "i < length ct" by (auto intro: ccontr)
  then have split: "drop i cs = cs ! i # drop (Suc i) cs" "drop i ct = ct ! i # drop (Suc i) ct"
    by (simp_all add: Cons_nth_drop_Suc)
  show ?case
  proof (cases "cs ! i = ct ! i \<and> cs ! i \<noteq> 0")
    case True
    then have "0 \<in> set (drop (Suc i) cs) \<or> Suc i + n \<le> length cs"
      "0 \<in> set (drop (Suc i) ct) \<or> Suc i + n \<le> length ct"
      using Suc.prems split by auto
    from Suc.IH [OF this] True i split show ?thesis
      by (simp add: cstr_def Let_def)
  next
    case False
    then show ?thesis using i split by (auto simp: cstr_def Let_def)
  qed
qed simp

lemma rt_strncmp_zero:
  assumes "0 \<in> set cs \<or> n \<le> length cs" and "0 \<in> set ct \<or> n \<le> length ct"
  shows "\<exists>r. rt_strncmp cs ct n = Some r \<and> (r = 0 \<longleftrightarrow> take n (cstr cs) = take n (cstr ct))"
  using rt_strncmp_loop_zero [of 0 cs n ct] assms by (simp add: rt_strncmp_def)

subsection \<open>Overlapping copies\<close>

text \<open>The simultaneous copy that \<open>rt_memmove\<close> is meant to perform.\<close>

definition move_spec :: "'a list \<Rightarrow> nat \<Rightarrow> nat \<Rightarrow> nat \<Rightarrow> 'a list" where
  "move_spec mem d s n = splice_at d (take n (drop s mem)) mem"

lemma move_up_spec:
  assumes "s + n \<le> length mem" "d + n \<le> length mem" "d \<le> s \<or> s + n \<le> d"
  shows "move_up mem d s n = Some (move_spec mem d s n)"
  using assms
proof (induction n arbitrary: mem d s)
  case 0
  then show ?case by (simp add: move_spec_def)
next
  case (Suc n)
  let ?mem = "mem[d := mem ! s]"
  have "move_up ?mem (Suc d) (Suc s) n = Some (move_spec ?mem (Suc d) (Suc s) n)"
    using Suc.prems by (intro Suc.IH) auto
  moreover have "take n (drop (Suc s) ?mem) = take n (drop (Suc s) mem)"
    using Suc.prems by (intro nth_equalityI) auto
  moreover have "take (Suc n) (drop s mem) = mem ! s # take n (drop (Suc s) mem)"
    using Suc.prems by (metis Cons_nth_drop_Suc add_Suc_right add_lessD1 less_eq_Suc_le take_Suc_Cons)
  ultimately show ?case
    using Suc.prems
    by (simp add: move_spec_def list_update_splice_at splice_at_append)
qed

lemma move_down_spec:
  assumes "s + n \<le> length mem" "d + n \<le> length mem" "s \<le> d"
  shows "move_down mem (d + n) (s + n) n = Some (move_spec mem d s n)"
  using assms
proof (induction n arbitrary: mem)
  case 0
  then show ?case by (simp add: move_spec_def)
next
  case (Suc n)
  let ?mem = "mem[d + n := mem ! (s + n)]"
  have "move_down ?mem (d + n) (s + n) n = Some (move_spec ?mem d s n)"
    using Suc.prems by (intro Suc.IH) auto
  moreover have "move_spec ?mem d s n = move_spec mem d s (Suc n)"
  proof (rule nth_equalityI)
    show "length (move_spec ?mem d s n) = length (move_spec mem d s (Suc n))"
      using Suc.prems by (simp add: move_spec_def)
    fix i assume "i < length (move_spec ?mem d s n)"
    then have "i < length mem" using Suc.prems by (simp add: move_spec_def)
    then show "move_spec ?mem d s n ! i = move_spec mem d s (Suc n) ! i"
      using Suc.prems
      by (cases "i = d + n") (auto simp: move_spec_def nth_splice_at nth_list_update)
  qed
  ultimately show ?case using Suc.prems by simp
qed

text \<open>C40: \<open>rt_memmove\<close> copies correctly for every overlap of the two areas: as long as both lie in
  memory, the result is the memory with the destination replaced by the old contents of the
  source.\<close>

theorem memmove_simultaneous:
  assumes "src + n \<le> length mem" and "dest + n \<le> length mem"
  shows "rt_memmove mem dest src n = Some (splice_at dest (take n (drop src mem)) mem)"
  using move_up_spec [OF assms] move_down_spec [OF assms] assms
  by (auto simp: rt_memmove_def move_spec_def)

theorem memmove_simultaneous_witness:
  "rt_memmove [1, 2, 3, 4, 5 :: u8] 1 0 3 = Some [1, 1, 2, 3, 5]"
  using memmove_simultaneous [of 0 3 "[1, 2, 3, 4, 5 :: u8]" 1] by (simp add: splice_at_def)

subsection \<open>Filling memory\<close>

lemma set_bytes_spec:
  "m + n \<le> length mem \<Longrightarrow> set_bytes mem m d n = Some (splice_at m (replicate n d) mem)"
proof (induction n arbitrary: mem m)
  case (Suc n)
  then show ?case by (simp add: list_update_splice_at splice_at_append)
qed simp

lemma store_run_spec:
  "i + length bs \<le> length mem \<Longrightarrow> store_run mem i bs = Some (splice_at i bs mem)"
proof (induction bs arbitrary: mem i)
  case (Cons b bs)
  then show ?case by (simp add: list_update_splice_at splice_at_append)
qed simp

lemma bit_fill_word:
  "m < 64 \<Longrightarrow> bit (fill_word d n b) m \<longleftrightarrow>
     (if m < 8 * n then bit d (m mod 8) else bit b (m - 8 * n))"
proof (induction n arbitrary: b)
  case (Suc n)
  have "bit d (m - 8 * n) \<longleftrightarrow> bit d (m mod 8)" if "8 * n \<le> m" "m < 8 * Suc n"
  proof -
    have "m div 8 = n" using that by (simp add: div_nat_eqI)
    then have "m mod 8 = m - 8 * n" using minus_mult_div_eq_mod [of m 8] by simp
    then show ?thesis by simp
  qed
  moreover have "\<not> bit d k" if "8 \<le> k" for k
    using that bit_imp_le_length [of d k] by auto
  ultimately show ?case
    using Suc by (auto simp: bit_simps not_less diff_diff_left add.commute)
qed simp

lemma fill_word_bytes: "word_bytes (fill_word d 8 0) = replicate 8 d"
proof (rule nth_equalityI)
  fix i assume "i < length (word_bytes (fill_word d 8 0))"
  then have i: "i < 8" by (simp add: word_bytes_def)
  have "ucast (drop_bit (8 * i) (fill_word d 8 0)) = d"
  proof (rule bit_word_eqI)
    fix n assume "n < LENGTH(8)"
    then show "bit (ucast (drop_bit (8 * i) (fill_word d 8 0)) :: u8) n = bit d n"
      using i bit_fill_word [of "8 * i + n" d 8 0] by (simp add: bit_simps)
  qed
  then show "word_bytes (fill_word d 8 0) ! i = replicate 8 d ! i"
    using i by (simp add: word_bytes_def)
qed (simp add: word_bytes_def)

definition fill_state :: "u8 list \<Rightarrow> nat \<Rightarrow> u8 \<Rightarrow> nat \<Rightarrow> u8 list \<times> nat \<times> nat \<Rightarrow> bool" where
  "fill_state mem a d count r \<longleftrightarrow>
     (\<exists>n\<le>count. r = (splice_at a (replicate n d) mem, a + n, count - n))"

lemma set_words_spec:
  assumes "a + count \<le> length mem"
  shows "\<exists>r. set_words mem a (fill_word d 8 0) count = Some r \<and> fill_state mem a d count r"
  using assms
proof (induction count arbitrary: mem a rule: less_induct)
  case (less count)
  show ?case
  proof (cases "8 \<le> count")
    case True
    let ?mem = "splice_at a (replicate 8 d) mem"
    obtain n where n: "n \<le> count - 8"
        "set_words ?mem (a + 8) (fill_word d 8 0) (count - 8) =
          Some (splice_at (a + 8) (replicate n d) ?mem, a + 8 + n, count - 8 - n)"
      using less.IH [of "count - 8" "a + 8" ?mem] True less.prems by (auto simp: fill_state_def)
    have "set_words mem a (fill_word d 8 0) count =
        Some (splice_at a (replicate (8 + n) d) mem, a + (8 + n), count - (8 + n))"
      using True less.prems n
      by (subst set_words.simps)
        (simp add: fill_word_bytes store_run_spec splice_at_append replicate_add add.assoc
          del: replicate.simps)
    moreover have "8 + n \<le> count" using n True by simp
    ultimately show ?thesis unfolding fill_state_def by blast
  next
    case False
    then show ?thesis
      using less.prems by (subst set_words.simps) (auto simp: fill_state_def intro!: exI [of _ 0])
  qed
qed

lemma set_blocks_spec:
  assumes "a + count \<le> length mem"
  shows "\<exists>r. set_blocks mem a (fill_word d 8 0) count = Some r \<and> fill_state mem a d count r"
  using assms
proof (induction count arbitrary: mem a rule: less_induct)
  case (less count)
  show ?case
  proof (cases "32 \<le> count")
    case True
    let ?mem = "splice_at a (replicate 32 d) mem"
    obtain n where n: "n \<le> count - 32"
        "set_blocks ?mem (a + 32) (fill_word d 8 0) (count - 32) =
          Some (splice_at (a + 32) (replicate n d) ?mem, a + 32 + n, count - 32 - n)"
      using less.IH [of "count - 32" "a + 32" ?mem] True less.prems by (auto simp: fill_state_def)
    have four: "replicate 8 d @ replicate 8 d @ replicate 8 d @ replicate 8 d = replicate 32 d"
      by (simp flip: replicate_add del: replicate.simps)
    have "set_blocks mem a (fill_word d 8 0) count =
        Some (splice_at a (replicate (32 + n) d) mem, a + (32 + n), count - (32 + n))"
      using True less.prems n
      by (subst set_blocks.simps)
        (simp add: fill_word_bytes store_run_spec four splice_at_append replicate_add add.assoc
          del: replicate.simps)
    moreover have "32 + n \<le> count" using n True by simp
    ultimately show ?thesis unfolding fill_state_def by blast
  next
    case False
    then show ?thesis
      using less.prems by (subst set_blocks.simps) (auto simp: fill_state_def intro!: exI [of _ 0])
  qed
qed

text \<open>\<open>rt_memset\<close>, with its word-wise fast path for aligned addresses, sets exactly the
  \<open>count\<close> bytes from the start and nothing else.\<close>

lemma memset_fills:
  assumes "s + count \<le> length mem"
  shows "rt_memset mem s c count = Some (splice_at s (replicate count c) mem)"
proof (cases "\<not> count < 8 \<and> s mod 8 = 0")
  case True
  obtain n where n: "n \<le> count" and b: "set_blocks mem s (fill_word c 8 0) count =
      Some (splice_at s (replicate n c) mem, s + n, count - n)"
    using set_blocks_spec [OF assms, of c] by (auto simp: fill_state_def)
  obtain m where m: "m \<le> count - n" and w: "set_words (splice_at s (replicate n c) mem) (s + n)
      (fill_word c 8 0) (count - n) =
      Some (splice_at (s + n) (replicate m c) (splice_at s (replicate n c) mem), s + n + m,
        count - n - m)"
    using set_words_spec [of "s + n" "count - n" "splice_at s (replicate n c) mem" c] n assms
    by (auto simp: fill_state_def)
  have "replicate count c = (replicate n c @ replicate m c) @ replicate (count - n - m) c"
    using n m by (simp flip: replicate_add)
  then show ?thesis
    using True b w n m assms
    by (simp add: rt_memset_def set_bytes_spec splice_at_append)
next
  case False
  then show ?thesis using set_bytes_spec [OF assms] by (auto simp: rt_memset_def)
qed

subsection \<open>Lengths and searches\<close>

lemma rt_strnlen_loop_spec:
  "n \<le> maxlen \<Longrightarrow> 0 \<in> set s \<or> maxlen < n + length s \<Longrightarrow>
   rt_strnlen_loop s n maxlen = Some (min maxlen (n + length (cstr s)))"
  by (induction s n maxlen rule: rt_strnlen_loop.induct) (auto simp: cstr_def)

lemma rt_strnlen_loop_past:
  "0 \<notin> set s \<Longrightarrow> n + length s \<le> maxlen \<Longrightarrow> rt_strnlen_loop s n maxlen = None"
  by (induction s n maxlen rule: rt_strnlen_loop.induct) auto

text \<open>\<open>rt_strnlen\<close> returns the string length cut at \<open>maxlen\<close> whenever the memory holds a
  terminator or is longer than \<open>maxlen\<close>; on a field of exactly \<open>maxlen\<close> bytes without a terminator
  (a full \<^verbatim>\<open>name[RT_NAME_MAX]\<close>, for instance) it reads the byte behind the field, contrary to its
  description.\<close>

lemma strnlen_bounds:
  "(0 \<in> set s \<or> maxlen < length s \<longrightarrow> rt_strnlen s maxlen = Some (min maxlen (length (cstr s))))
   \<and> (0 \<notin> set s \<and> length s = maxlen \<longrightarrow> rt_strnlen s maxlen = None)"
  using rt_strnlen_loop_spec [of 0 maxlen s] rt_strnlen_loop_past [of s 0 maxlen]
  by (auto simp: rt_strnlen_def)

lemma rt_strlen_from_spec:
  "0 \<in> set s \<Longrightarrow> i \<le> n \<Longrightarrow> rt_strlen_from s i n = Some (n - i + length (cstr s))"
  by (induction s i n rule: rt_strlen_from.induct) (auto simp: cstr_def)

lemma rt_strlen_spec: "0 \<in> set s \<Longrightarrow> rt_strlen s 0 = Some (length (cstr s))"
  by (simp add: rt_strlen_def rt_strlen_from_spec)

lemma rt_memcmp_zero:
  "n \<le> length cs \<Longrightarrow> n \<le> length ct \<Longrightarrow>
   \<exists>r. rt_memcmp cs ct n = Some r \<and> (r = 0 \<longleftrightarrow> take n cs = take n ct)"
  by (induction cs ct n rule: rt_memcmp.induct) (auto simp: word_uint_eq_iff)

text \<open>\<open>s2\<close> occurs in \<open>s1\<close> at position \<open>p\<close>.\<close>

definition occurs_at :: "u8 list \<Rightarrow> u8 list \<Rightarrow> nat \<Rightarrow> bool" where
  "occurs_at s1 s2 p \<longleftrightarrow> take (length s2) (drop p s1) = s2"

definition first_occurrence :: "u8 list \<Rightarrow> u8 list \<Rightarrow> nat \<Rightarrow> nat option \<Rightarrow> bool" where
  "first_occurrence s1 s2 from r \<longleftrightarrow>
     (case r of None \<Rightarrow> \<forall>p\<ge>from. \<not> occurs_at s1 s2 p
      | Some p \<Rightarrow> from \<le> p \<and> occurs_at s1 s2 p \<and> (\<forall>q. from \<le> q \<and> q < p \<longrightarrow> \<not> occurs_at s1 s2 q))"

lemma first_occurrence_skip:
  assumes "\<not> occurs_at s1 s2 from" and "first_occurrence s1 s2 (Suc from) r"
  shows "first_occurrence s1 s2 from r"
proof -
  have "\<not> occurs_at s1 s2 p" if "from \<le> p" "\<forall>q\<ge>Suc from. \<not> occurs_at s1 s2 q" for p
    using that assms(1) by (cases "p = from") auto
  moreover have "\<not> occurs_at s1 s2 q"
    if "from \<le> q" "q < p" "\<forall>q. Suc from \<le> q \<and> q < p \<longrightarrow> \<not> occurs_at s1 s2 q" for p q
    using that assms(1) by (cases "q = from") auto
  ultimately show ?thesis
    using assms(2) unfolding first_occurrence_def by (auto split: option.splits)
qed

lemma cstr_split: "0 \<in> set s \<Longrightarrow> \<exists>rest. s = cstr s @ 0 # rest"
proof -
  assume "0 \<in> set s"
  then have "dropWhile (\<lambda>c. c \<noteq> 0) s \<noteq> []" by (simp add: dropWhile_eq_Nil_conv)
  then obtain c rest where d: "dropWhile (\<lambda>c. c \<noteq> 0) s = c # rest" by (cases "dropWhile (\<lambda>c. c \<noteq> 0) s") auto
  moreover have "c = 0" using d by (metis (mono_tags, lifting) hd_dropWhile list.discI list.sel(1))
  ultimately have "s = cstr s @ 0 # rest"
    using takeWhile_dropWhile_id [of "\<lambda>c. c \<noteq> 0" s] by (simp add: cstr_def)
  then show ?thesis by blast
qed

lemma take_drop_append1: "pos + n \<le> length a \<Longrightarrow> take n (drop pos (a @ b)) = take n (drop pos a)"
  by simp

lemma rt_strstr_loop_spec:
  assumes z: "0 \<in> set s1" "0 \<in> set s2" and ne: "0 < length (cstr s2)"
    and l1: "pos + l1 = length (cstr s1)"
  shows "\<exists>r. rt_strstr_loop s1 s2 pos l1 (length (cstr s2)) = Some r \<and>
    first_occurrence (cstr s1) (cstr s2) pos r"
  using l1
proof (induction l1 arbitrary: pos)
  case 0
  have "\<not> occurs_at (cstr s1) (cstr s2) p" if "pos \<le> p" for p
    using 0 that ne by (auto simp: occurs_at_def)
  then show ?case using ne by (subst rt_strstr_loop.simps) (simp add: first_occurrence_def)
next
  case (Suc l1)
  obtain r1 where r1: "s1 = cstr s1 @ 0 # r1" using cstr_split [OF z(1)] by blast
  obtain r2 where r2: "s2 = cstr s2 @ 0 # r2" using cstr_split [OF z(2)] by blast
  show ?case
  proof (cases "length (cstr s2) \<le> Suc l1")
    case True
    have "length s1 = length (cstr s1) + Suc (length r1)" "length s2 = length (cstr s2) + Suc (length r2)"
      using arg_cong [OF r1, of length] arg_cong [OF r2, of length] by simp_all
    then have len: "length (cstr s2) \<le> length (drop pos s1)" "length (cstr s2) \<le> length s2"
      using True Suc.prems by simp_all
    have "pos + length (cstr s2) \<le> length (cstr s1)" using True Suc.prems by simp
    then have "take (length (cstr s2)) (drop pos s1) = take (length (cstr s2)) (drop pos (cstr s1))"
      using r1 take_drop_append1 by metis
    moreover have "take (length (cstr s2)) s2 = cstr s2" using r2 by (metis append_eq_conv_conj)
    ultimately obtain r where r: "rt_memcmp (drop pos s1) s2 (length (cstr s2)) = Some r"
        "r = 0 \<longleftrightarrow> occurs_at (cstr s1) (cstr s2) pos"
      using rt_memcmp_zero [OF len] by (auto simp: occurs_at_def)
    obtain r' where r': "rt_strstr_loop s1 s2 (Suc pos) l1 (length (cstr s2)) = Some r'"
        "first_occurrence (cstr s1) (cstr s2) (Suc pos) r'"
      using Suc.IH [of "Suc pos"] Suc.prems by auto
    show ?thesis
    proof (cases "r = 0")
      case True
      then show ?thesis
        using \<open>length (cstr s2) \<le> Suc l1\<close> r
        by (subst rt_strstr_loop.simps) (auto simp: first_occurrence_def)
    next
      case False
      then show ?thesis
        using \<open>length (cstr s2) \<le> Suc l1\<close> r r' first_occurrence_skip
        by (subst rt_strstr_loop.simps) auto
    qed
  next
    case False
    have "\<not> occurs_at (cstr s1) (cstr s2) p" if "pos \<le> p" for p
    proof
      assume "occurs_at (cstr s1) (cstr s2) p"
      then have "length (cstr s2) \<le> length (drop p (cstr s1))"
        by (metis occurs_at_def length_take min.cobounded1 min.commute)
      then show False using False Suc.prems that by simp
    qed
    then show ?thesis using False by (subst rt_strstr_loop.simps) (simp add: first_occurrence_def)
  qed
qed

text \<open>\<open>rt_strstr\<close> on two terminated strings stays in memory and returns the position of the
  first occurrence of the second string in the first, or the null pointer when there is none.\<close>

lemma strstr_first:
  assumes "0 \<in> set s1" and "0 \<in> set s2"
  shows "\<exists>r. rt_strstr s1 s2 = Some r \<and> first_occurrence (cstr s1) (cstr s2) 0 r"
proof (cases "cstr s2 = []")
  case True
  then show ?thesis
    using assms by (simp add: rt_strstr_def rt_strlen_spec first_occurrence_def occurs_at_def)
next
  case False
  then show ?thesis
    using assms rt_strstr_loop_spec [OF assms, of 0 "length (cstr s1)"]
    by (simp add: rt_strstr_def rt_strlen_spec)
qed

end
