(* ===== verification/Rtdef.thy ===== *)
theory Rtdef
  imports Prelude
begin

text \<open>
  The data model of the kernel: the constants and structures of
  \<^verbatim>\<open>include/rtdef.h\<close> and the global variables of the kernel sources, gathered in one record
  \<open>kernel\<close>.

  Objects are named by identifiers instead of addresses: a thread by a \<open>tid\<close>, every kernel object
  by an \<open>oid\<close> whose constructor says which structure it heads.  A thread is linked into at most
  one list through its node \<^verbatim>\<open>tlist\<close> (a ready list, the list of waiters of an object, or the list
  of dead threads); those lists are the values of \<open>queues\<close>, a timer's node \<^verbatim>\<open>row[0]\<close> (the skip
  list has one level in this configuration) links it into one of \<open>timer_lists\<close>.  Unlinking a node
  that is in no list is a no-op in the source, since its node then points to itself; here it removes
  the identifier from every list.
\<close>

subsection \<open>Constants\<close>

definition RT_THREAD_PRIORITY_MAX :: nat where [rt_defs]: "RT_THREAD_PRIORITY_MAX = 32"
definition RT_NAME_MAX :: nat where [rt_defs]: "RT_NAME_MAX = 20"
definition RT_TICK_MAX :: u32 where [rt_defs]: "RT_TICK_MAX = 0xffffffff"
definition RT_SEM_VALUE_MAX :: u16 where [rt_defs]: "RT_SEM_VALUE_MAX = 0xffff"
definition RT_MUTEX_HOLD_MAX :: u8 where [rt_defs]: "RT_MUTEX_HOLD_MAX = 0xff"
definition RT_MB_ENTRY_MAX :: u16 where [rt_defs]: "RT_MB_ENTRY_MAX = 0xffff"
definition RT_MQ_ENTRY_MAX :: u16 where [rt_defs]: "RT_MQ_ENTRY_MAX = 0xffff"

text \<open>Thread states.\<close>

definition RT_THREAD_INIT :: u8 where [rt_defs]: "RT_THREAD_INIT = 0x00"
definition RT_THREAD_CLOSE :: u8 where [rt_defs]: "RT_THREAD_CLOSE = 0x01"
definition RT_THREAD_READY :: u8 where [rt_defs]: "RT_THREAD_READY = 0x02"
definition RT_THREAD_RUNNING :: u8 where [rt_defs]: "RT_THREAD_RUNNING = 0x03"
definition RT_THREAD_SUSPEND_MASK :: u8 where [rt_defs]: "RT_THREAD_SUSPEND_MASK = 0x04"
definition RT_THREAD_SUSPEND :: u8 where [rt_defs]: "RT_THREAD_SUSPEND = 0x04"
definition RT_THREAD_SUSPEND_INTERRUPTIBLE :: u8 where
  [rt_defs]: "RT_THREAD_SUSPEND_INTERRUPTIBLE = 0x04"
definition RT_THREAD_SUSPEND_KILLABLE :: u8 where
  [rt_defs]: "RT_THREAD_SUSPEND_KILLABLE = 0x06"
definition RT_THREAD_SUSPEND_UNINTERRUPTIBLE :: u8 where
  [rt_defs]: "RT_THREAD_SUSPEND_UNINTERRUPTIBLE = 0x07"
definition RT_THREAD_STAT_MASK :: u8 where [rt_defs]: "RT_THREAD_STAT_MASK = 0x07"
definition RT_THREAD_STAT_YIELD :: u8 where [rt_defs]: "RT_THREAD_STAT_YIELD = 0x08"

text \<open>Suspend flags of \<^verbatim>\<open>rt_thread_suspend_with_flag\<close>.\<close>

definition RT_INTERRUPTIBLE :: int where [rt_defs]: "RT_INTERRUPTIBLE = 0"
definition RT_KILLABLE :: int where [rt_defs]: "RT_KILLABLE = 1"
definition RT_UNINTERRUPTIBLE :: int where [rt_defs]: "RT_UNINTERRUPTIBLE = 2"

text \<open>Timer flags.\<close>

definition RT_TIMER_FLAG_ACTIVATED :: u8 where [rt_defs]: "RT_TIMER_FLAG_ACTIVATED = 0x1"
definition RT_TIMER_FLAG_ONE_SHOT :: u8 where [rt_defs]: "RT_TIMER_FLAG_ONE_SHOT = 0x0"
definition RT_TIMER_FLAG_PERIODIC :: u8 where [rt_defs]: "RT_TIMER_FLAG_PERIODIC = 0x2"
definition RT_TIMER_FLAG_SOFT_TIMER :: u8 where [rt_defs]: "RT_TIMER_FLAG_SOFT_TIMER = 0x4"

text \<open>IPC and event flags.\<close>

definition RT_IPC_FLAG_FIFO :: u8 where [rt_defs]: "RT_IPC_FLAG_FIFO = 0x00"
definition RT_IPC_FLAG_PRIO :: u8 where [rt_defs]: "RT_IPC_FLAG_PRIO = 0x01"
definition RT_IPC_CMD_RESET :: int where [rt_defs]: "RT_IPC_CMD_RESET = 1"
definition RT_EVENT_FLAG_AND :: u8 where [rt_defs]: "RT_EVENT_FLAG_AND = 0x01"
definition RT_EVENT_FLAG_OR :: u8 where [rt_defs]: "RT_EVENT_FLAG_OR = 0x02"
definition RT_EVENT_FLAG_CLEAR :: u8 where [rt_defs]: "RT_EVENT_FLAG_CLEAR = 0x04"

text \<open>Object classes (\<^verbatim>\<open>enum rt_object_class_type\<close>).\<close>

definition RT_Object_Class_Thread :: u8 where [rt_defs]: "RT_Object_Class_Thread = 0x01"
definition RT_Object_Class_Semaphore :: u8 where [rt_defs]: "RT_Object_Class_Semaphore = 0x02"
definition RT_Object_Class_Mutex :: u8 where [rt_defs]: "RT_Object_Class_Mutex = 0x03"
definition RT_Object_Class_Event :: u8 where [rt_defs]: "RT_Object_Class_Event = 0x04"
definition RT_Object_Class_MailBox :: u8 where [rt_defs]: "RT_Object_Class_MailBox = 0x05"
definition RT_Object_Class_MessageQueue :: u8 where
  [rt_defs]: "RT_Object_Class_MessageQueue = 0x06"
definition RT_Object_Class_MemHeap :: u8 where [rt_defs]: "RT_Object_Class_MemHeap = 0x07"
definition RT_Object_Class_MemPool :: u8 where [rt_defs]: "RT_Object_Class_MemPool = 0x08"
definition RT_Object_Class_Device :: u8 where [rt_defs]: "RT_Object_Class_Device = 0x09"
definition RT_Object_Class_Timer :: u8 where [rt_defs]: "RT_Object_Class_Timer = 0x0a"
definition RT_Object_Class_Channel :: u8 where [rt_defs]: "RT_Object_Class_Channel = 0x0c"
definition RT_Object_Class_Custom :: u8 where [rt_defs]: "RT_Object_Class_Custom = 0x0d"
definition RT_Object_Class_Proc :: u8 where [rt_defs]: "RT_Object_Class_Proc = 0x0e"
definition RT_Object_Class_Static :: u8 where [rt_defs]: "RT_Object_Class_Static = 0x80"

subsection \<open>Identifiers\<close>

type_synonym tid = nat

text \<open>A timer is the built-in timer of a thread or an object of its own.\<close>

datatype timerid = ThreadTimer tid | TimerObj nat

datatype oid =
    OThread tid | OSem nat | OMutex nat | OEvent nat | OMailBox nat | OMq nat | OMemPool nat
  | OTimer timerid | OCustom nat

text \<open>The lists a thread's \<^verbatim>\<open>tlist\<close> node can be in.\<close>

datatype qid =
    QReady nat | QSem nat | QMutex nat | QEvent nat
  | QMbRecv nat | QMbSend nat | QMqRecv nat | QMqSend nat | QMemPool nat | QDefunct

text \<open>The lists a timer's node can be in: the hard and soft timer lists, and the local list of
  \<^verbatim>\<open>rt_timer_check\<close> or \<^verbatim>\<open>rt_soft_timer_check\<close> a timer sits in while its callback runs.\<close>

datatype timer_list = LHard | LSoft | LTmpHard | LTmpSoft

fun tmp_list :: "timer_list \<Rightarrow> bool" where
  "tmp_list LTmpHard = True"
| "tmp_list LTmpSoft = True"
| "tmp_list LHard = False"
| "tmp_list LSoft = False"

text \<open>Timeout functions: the kernel's own, or one installed by a client.\<close>

datatype timeout_fn = Rt_thread_timeout | UserFn nat

subsection \<open>Structures\<close>

record rt_object =
  obj_name :: "u8 list"
  obj_type :: u8
  obj_flag :: u8

record rt_timer =
  timeout_func :: timeout_fn
  timer_parameter :: nat
  timer_init_tick :: u32
  timeout_tick :: u32

record rt_thread =
  thread_entry :: nat
  thread_parameter :: nat
  stack_addr :: nat
  stack_size :: u32
  error :: int
  stat :: u8
  current_priority :: u8
  init_priority :: u8
  number_mask :: u32
  taken_object_list :: "nat list"
  pending_object :: "oid option"
  event_set :: u32
  event_info :: u8
  thread_init_tick :: u64
  remaining_tick :: u64
  run_tick :: u64
  cleanup :: "nat option"
  thread_signal :: u64
  thread_signal_mask :: u64
  wakeup_func :: "nat option"

record rt_semaphore =
  sem_value :: u16

record rt_mutex =
  ceiling_priority :: u8
  mutex_priority :: u8
  mutex_hold :: u8
  mutex_owner :: "tid option"

record rt_event =
  ev_set :: u32

record rt_mailbox =
  mb_pool :: "u64 list"
  mb_size :: u16
  mb_entry :: u16
  in_offset :: u16
  out_offset :: u16

text \<open>A message of a message queue is a node of the pool: the link and the payload area of
  \<^verbatim>\<open>RT_ALIGN(msg_size, RT_ALIGN_SIZE)\<close> bytes behind it.  Nodes are named by their index.\<close>

record rt_mq_message =
  msg_next :: "nat option"
  msg_data :: "u8 list"

record rt_messagequeue =
  msg_pool :: "rt_mq_message list"
  msg_size :: u16
  max_msgs :: u16
  mq_entry :: u16
  msg_queue_head :: "nat option"
  msg_queue_tail :: "nat option"
  msg_queue_free :: "nat option"

text \<open>A block of a memory pool starts with a word that holds the next free block while the block is
  free, and the pool while it is allocated.\<close>

datatype block_header = HNext "nat option" | HPool nat

record rt_mempool =
  mp_size :: u64
  mp_block_size :: u64
  mp_blocks :: "block_header list"
  mp_block_list :: "nat option"
  block_total_count :: u64
  block_free_count :: u64

text \<open>A custom object carries a destructor and a private pointer.\<close>

record rt_custom_object =
  custom_destroy :: "nat option"
  custom_data :: nat

subsection \<open>The kernel state\<close>

record kernel =
  objs :: "oid \<Rightarrow> rt_object"
  containers :: "u8 \<Rightarrow> oid list"
  threads :: "tid \<Rightarrow> rt_thread"
  queues :: "qid \<Rightarrow> tid list"
  ready_priority_group :: u32
  scheduler_lock_nest :: "16 word"
  interrupt_nest :: u8
  current_thread :: "tid option"
  cur_priority :: u8
  tick :: u32
  timers :: "timerid \<Rightarrow> rt_timer"
  timer_lists :: "timer_list \<Rightarrow> timerid list"
  random_nr :: u32
  soft_timer_idle :: bool
  timer_thread :: tid
  system_sem :: nat
  sems :: "nat \<Rightarrow> rt_semaphore"
  mutexes :: "nat \<Rightarrow> rt_mutex"
  events :: "nat \<Rightarrow> rt_event"
  mailboxes :: "nat \<Rightarrow> rt_mailbox"
  mqs :: "nat \<Rightarrow> rt_messagequeue"
  mempools :: "nat \<Rightarrow> rt_mempool"
  customs :: "nat \<Rightarrow> rt_custom_object"
  rt_errno :: int

subsection \<open>Access to one structure of the state\<close>

definition upd_obj :: "oid \<Rightarrow> (rt_object \<Rightarrow> rt_object) \<Rightarrow> kernel \<Rightarrow> kernel" where
  "upd_obj x f k = k\<lparr>objs := (objs k)(x := f (objs k x))\<rparr>"

definition upd_thread :: "tid \<Rightarrow> (rt_thread \<Rightarrow> rt_thread) \<Rightarrow> kernel \<Rightarrow> kernel" where
  "upd_thread t f k = k\<lparr>threads := (threads k)(t := f (threads k t))\<rparr>"

definition upd_timer :: "timerid \<Rightarrow> (rt_timer \<Rightarrow> rt_timer) \<Rightarrow> kernel \<Rightarrow> kernel" where
  "upd_timer t f k = k\<lparr>timers := (timers k)(t := f (timers k t))\<rparr>"

definition set_queue :: "qid \<Rightarrow> tid list \<Rightarrow> kernel \<Rightarrow> kernel" where
  "set_queue q ts k = k\<lparr>queues := (queues k)(q := ts)\<rparr>"

definition set_timer_list :: "timer_list \<Rightarrow> timerid list \<Rightarrow> kernel \<Rightarrow> kernel" where
  "set_timer_list l ts k = k\<lparr>timer_lists := (timer_lists k)(l := ts)\<rparr>"

text \<open>\<^verbatim>\<open>rt_list_remove(&thread->tlist)\<close>.\<close>

definition tlist_remove :: "tid \<Rightarrow> kernel \<Rightarrow> kernel" where
  "tlist_remove t k = k\<lparr>queues := (\<lambda>q. removeAll t (queues k q))\<rparr>"

text \<open>\<^verbatim>\<open>rt_list_insert_before(list, &thread->tlist)\<close> and \<^verbatim>\<open>rt_list_insert_after(list, ...)\<close> on
  a list head: at the end and at the front.\<close>

definition tlist_insert_before :: "qid \<Rightarrow> tid \<Rightarrow> kernel \<Rightarrow> kernel" where
  "tlist_insert_before q t k = set_queue q (queues k q @ [t]) k"

definition tlist_insert_after :: "qid \<Rightarrow> tid \<Rightarrow> kernel \<Rightarrow> kernel" where
  "tlist_insert_after q t k = set_queue q (t # queues k q) k"

text \<open>\<^verbatim>\<open>RT_DEBUG_NOT_IN_INTERRUPT\<close> and \<^verbatim>\<open>RT_DEBUG_IN_THREAD_CONTEXT\<close>.\<close>

definition in_interrupt :: "kernel \<Rightarrow> bool" where
  "in_interrupt k = (interrupt_nest k \<noteq> 0)"

definition in_thread_context :: "kernel \<Rightarrow> bool" where
  "in_thread_context k = (current_thread k \<noteq> None \<and> \<not> in_interrupt k)"

lemmas upd_defs = upd_obj_def upd_thread_def upd_timer_def set_queue_def set_timer_list_def
  tlist_remove_def tlist_insert_before_def tlist_insert_after_def

subsection \<open>The state at reset\<close>

text \<open>Static storage is zero, list heads are initialised to empty.\<close>

definition zero_object :: rt_object where
  "zero_object = \<lparr>obj_name = replicate RT_NAME_MAX 0, obj_type = 0, obj_flag = 0\<rparr>"

definition zero_timer :: rt_timer where
  "zero_timer = \<lparr>timeout_func = UserFn 0, timer_parameter = 0, timer_init_tick = 0, timeout_tick = 0\<rparr>"

definition zero_thread :: rt_thread where
  "zero_thread = \<lparr>thread_entry = 0, thread_parameter = 0, stack_addr = 0, stack_size = 0, error = 0,
     stat = 0, current_priority = 0, init_priority = 0, number_mask = 0, taken_object_list = [],
     pending_object = None, event_set = 0, event_info = 0, thread_init_tick = 0, remaining_tick = 0,
     run_tick = 0, cleanup = None, thread_signal = 0, thread_signal_mask = 0, wakeup_func = None\<rparr>"

definition zero_mempool :: rt_mempool where
  "zero_mempool = \<lparr>mp_size = 0, mp_block_size = 0, mp_blocks = [], mp_block_list = None,
     block_total_count = 0, block_free_count = 0\<rparr>"

definition zero_mq :: rt_messagequeue where
  "zero_mq = \<lparr>msg_pool = [], msg_size = 0, max_msgs = 0, mq_entry = 0, msg_queue_head = None,
     msg_queue_tail = None, msg_queue_free = None\<rparr>"

definition zero_mailbox :: rt_mailbox where
  "zero_mailbox = \<lparr>mb_pool = [], mb_size = 0, mb_entry = 0, in_offset = 0, out_offset = 0\<rparr>"

definition zero_mutex :: rt_mutex where
  "zero_mutex = \<lparr>ceiling_priority = 0, mutex_priority = 0, mutex_hold = 0, mutex_owner = None\<rparr>"

definition reset_kernel :: kernel where
  "reset_kernel = \<lparr>objs = (\<lambda>_. zero_object), containers = (\<lambda>_. []), threads = (\<lambda>_. zero_thread),
     queues = (\<lambda>_. []), ready_priority_group = 0, scheduler_lock_nest = 0, interrupt_nest = 0,
     current_thread = None, cur_priority = 0, tick = 0, timers = (\<lambda>_. zero_timer),
     timer_lists = (\<lambda>_. []), random_nr = 0, soft_timer_idle = True, timer_thread = 0,
     system_sem = 0, sems = (\<lambda>_. \<lparr>sem_value = 0\<rparr>), mutexes = (\<lambda>_. zero_mutex),
     events = (\<lambda>_. \<lparr>ev_set = 0\<rparr>), mailboxes = (\<lambda>_. zero_mailbox), mqs = (\<lambda>_. zero_mq),
     mempools = (\<lambda>_. zero_mempool), customs = (\<lambda>_. \<lparr>custom_destroy = None, custom_data = 0\<rparr>), rt_errno = 0\<rparr>"

end
