(* ===== verification/Scheduler.thy ===== *)
theory Scheduler
  imports Rtdef Kservice
begin

text \<open>
  The uniprocessor priority scheduler of \<^verbatim>\<open>src/scheduler.c\<close> (the \<^verbatim>\<open>RT_USING_SMP\<close> variant is
  off in every configuration of the board) and the interrupt nesting counter of
  \<^verbatim>\<open>src/irq.c\<close>.  \<open>rt_schedule\<close> is modelled up to the context switch: the switch itself is the
  change of \<open>current_thread\<close>.

  The invariant \<open>sched_inv\<close> ties the ready bitmap, the ready lists, the thread states and the
  current thread together; every operation keeps it, and \<open>rt_schedule\<close> leaves a thread of highest
  priority running.
\<close>

subsection \<open>Operations\<close>

definition stat_class :: "rt_thread \<Rightarrow> u8" where
  "stat_class th = (stat th AND RT_THREAD_STAT_MASK)"

definition rt_thread_self :: "kernel \<Rightarrow> tid option" where
  "rt_thread_self k = current_thread k"

definition get_highest_priority_thread :: "kernel \<Rightarrow> (tid \<times> nat) option" where
  "get_highest_priority_thread k =
     (let highest_ready_priority = rt_ffs (ready_priority_group k) - 1
      in case queues k (QReady highest_ready_priority) of
           [] \<Rightarrow> None
         | t # _ \<Rightarrow> Some (t, highest_ready_priority))"

definition rt_system_scheduler_init :: "kernel \<Rightarrow> kernel" where
  "rt_system_scheduler_init k =
     k\<lparr>scheduler_lock_nest := 0,
       queues := (\<lambda>q. case q of QReady p \<Rightarrow> (if p < RT_THREAD_PRIORITY_MAX then [] else queues k q)
                             | _ \<Rightarrow> queues k q),
       ready_priority_group := 0\<rparr>"

text \<open>Insertion into the ready list of the thread's priority; an index outside the table of
  \<^verbatim>\<open>RT_THREAD_PRIORITY_MAX\<close> lists is an access out of bounds.\<close>

definition rt_schedule_insert_thread :: "tid \<Rightarrow> kernel \<Rightarrow> kernel option" where
  "rt_schedule_insert_thread t k =
     (if current_thread k = Some t
      then Some (upd_thread t (\<lambda>th. th\<lparr>stat := RT_THREAD_RUNNING OR (stat th AND NOT RT_THREAD_STAT_MASK)\<rparr>) k)
      else do {
        let k = upd_thread t (\<lambda>th. th\<lparr>stat := RT_THREAD_READY OR (stat th AND NOT RT_THREAD_STAT_MASK)\<rparr>) k;
        let p = unat (current_priority (threads k t));
        rt_assert (p < RT_THREAD_PRIORITY_MAX);
        let k = tlist_insert_before (QReady p) t k;
        Some (k\<lparr>ready_priority_group := ready_priority_group k OR number_mask (threads k t)\<rparr>)
      })"

definition rt_schedule_remove_thread :: "tid \<Rightarrow> kernel \<Rightarrow> kernel option" where
  "rt_schedule_remove_thread t k = do {
     let k = tlist_remove t k;
     let p = unat (current_priority (threads k t));
     rt_assert (p < RT_THREAD_PRIORITY_MAX);
     Some (if queues k (QReady p) = []
           then k\<lparr>ready_priority_group := ready_priority_group k AND NOT (number_mask (threads k t))\<rparr>
           else k)
   }"

definition set_running :: "tid \<Rightarrow> kernel \<Rightarrow> kernel" where
  "set_running t =
     upd_thread t (\<lambda>th. th\<lparr>stat := RT_THREAD_RUNNING OR (stat th AND NOT RT_THREAD_STAT_MASK)\<rparr>)"

definition rt_system_scheduler_start :: "kernel \<Rightarrow> kernel option" where
  "rt_system_scheduler_start k = do {
     (to_thread, _) \<leftarrow> get_highest_priority_thread k;
     let k = k\<lparr>current_thread := Some to_thread\<rparr>;
     k \<leftarrow> rt_schedule_remove_thread to_thread k;
     Some (upd_thread to_thread (\<lambda>th. th\<lparr>stat := RT_THREAD_RUNNING\<rparr>) k)
   }"

text \<open>The choice of the next thread: the thread, whether the current one goes back to the ready
  lists, and the state with the yield mark cleared.\<close>

definition schedule_choice :: "tid \<Rightarrow> tid \<Rightarrow> nat \<Rightarrow> kernel \<Rightarrow> tid \<times> bool \<times> kernel" where
  "schedule_choice cur highest highest_ready_priority k =
     (if stat_class (threads k cur) = RT_THREAD_RUNNING
      then let k' = upd_thread cur (\<lambda>th. th\<lparr>stat := stat th AND NOT RT_THREAD_STAT_YIELD\<rparr>) k
           in if unat (current_priority (threads k cur)) < highest_ready_priority
              then (cur, False, k')
              else if unat (current_priority (threads k cur)) = highest_ready_priority \<and>
                      stat (threads k cur) AND RT_THREAD_STAT_YIELD = 0
              then (cur, False, k')
              else (highest, True, k')
      else (highest, False, k))"

definition rt_schedule :: "kernel \<Rightarrow> kernel option" where
  "rt_schedule k =
     (if scheduler_lock_nest k = 0 \<and> ready_priority_group k \<noteq> 0
      then do {
        (highest, highest_ready_priority) \<leftarrow> get_highest_priority_thread k;
        cur \<leftarrow> rt_thread_self k;
        let (to_thread, need_insert_from_thread, k) =
              schedule_choice cur highest highest_ready_priority k;
        if to_thread \<noteq> cur
        then do {
          let k = k\<lparr>cur_priority := word_of_nat highest_ready_priority,
                    current_thread := Some to_thread\<rparr>;
          k \<leftarrow> (if need_insert_from_thread then rt_schedule_insert_thread cur k else Some k);
          k \<leftarrow> rt_schedule_remove_thread to_thread k;
          Some (set_running to_thread k)
        }
        else do {
          k \<leftarrow> rt_schedule_remove_thread cur k;
          Some (set_running cur k)
        }
      }
      else Some k)"

definition rt_enter_critical :: "kernel \<Rightarrow> kernel" where
  "rt_enter_critical k = k\<lparr>scheduler_lock_nest := scheduler_lock_nest k + 1\<rparr>"

definition rt_exit_critical :: "kernel \<Rightarrow> kernel option" where
  "rt_exit_critical k =
     (let n = scheduler_lock_nest k - 1
      in if sint n \<le> 0
         then let k = k\<lparr>scheduler_lock_nest := 0\<rparr>
              in if current_thread k \<noteq> None then rt_schedule k else Some k
         else Some (k\<lparr>scheduler_lock_nest := n\<rparr>))"

definition rt_critical_level :: "kernel \<Rightarrow> u16" where
  "rt_critical_level k = scheduler_lock_nest k"

text \<open>Interrupt nesting (\<^verbatim>\<open>src/irq.c\<close>).\<close>

definition rt_interrupt_enter :: "kernel \<Rightarrow> kernel" where
  "rt_interrupt_enter k = k\<lparr>interrupt_nest := interrupt_nest k + 1\<rparr>"

definition rt_interrupt_leave :: "kernel \<Rightarrow> kernel" where
  "rt_interrupt_leave k = k\<lparr>interrupt_nest := interrupt_nest k - 1\<rparr>"

definition rt_interrupt_get_nest :: "kernel \<Rightarrow> u8" where
  "rt_interrupt_get_nest k = interrupt_nest k"

subsection \<open>The state classes\<close>

text \<open>What the scheduler writes into the state byte, seen through the state mask.\<close>

lemma stat_class_set [simp]:
  assumes "c AND NOT RT_THREAD_STAT_MASK = 0"
  shows "(c OR (s AND NOT RT_THREAD_STAT_MASK)) AND RT_THREAD_STAT_MASK = c"
proof (rule bit_word_eqI)
  fix n assume "n < LENGTH(8)"
  moreover have "\<not> bit (c AND NOT RT_THREAD_STAT_MASK) n" using assms by simp
  ultimately show "bit ((c OR (s AND NOT RT_THREAD_STAT_MASK)) AND RT_THREAD_STAT_MASK) n = bit c n"
    by (auto simp: bit_simps)
qed

lemma stat_codes [simp]:
  "RT_THREAD_RUNNING AND NOT RT_THREAD_STAT_MASK = 0"
  "RT_THREAD_READY AND NOT RT_THREAD_STAT_MASK = 0"
  "RT_THREAD_SUSPEND_INTERRUPTIBLE AND NOT RT_THREAD_STAT_MASK = 0"
  "RT_THREAD_SUSPEND_KILLABLE AND NOT RT_THREAD_STAT_MASK = 0"
  "RT_THREAD_SUSPEND_UNINTERRUPTIBLE AND NOT RT_THREAD_STAT_MASK = 0"
  by (simp_all add: rt_defs)

lemma stat_class_clear_yield [simp]:
  "stat_class (th\<lparr>stat := stat th AND NOT RT_THREAD_STAT_YIELD\<rparr>) = stat_class th"
proof -
  have "(s AND NOT RT_THREAD_STAT_YIELD) AND RT_THREAD_STAT_MASK = s AND RT_THREAD_STAT_MASK"
    for s :: u8
  proof -
    have "NOT RT_THREAD_STAT_YIELD AND RT_THREAD_STAT_MASK = (RT_THREAD_STAT_MASK :: u8)"
      by (simp add: rt_defs)
    then show ?thesis by (simp add: and.assoc)
  qed
  then show ?thesis by (simp add: stat_class_def)
qed

lemma stat_distinct [simp]:
  "RT_THREAD_READY \<noteq> RT_THREAD_RUNNING" "RT_THREAD_RUNNING \<noteq> RT_THREAD_READY"
  "RT_THREAD_INIT \<noteq> RT_THREAD_READY" "RT_THREAD_READY \<noteq> RT_THREAD_INIT"
  "RT_THREAD_INIT \<noteq> RT_THREAD_RUNNING" "RT_THREAD_RUNNING \<noteq> RT_THREAD_INIT"
  "RT_THREAD_CLOSE \<noteq> RT_THREAD_READY" "RT_THREAD_READY \<noteq> RT_THREAD_CLOSE"
  "RT_THREAD_CLOSE \<noteq> RT_THREAD_RUNNING" "RT_THREAD_RUNNING \<noteq> RT_THREAD_CLOSE"
  by (simp_all add: rt_defs)

subsection \<open>The invariant\<close>

definition prio_ok :: "rt_thread \<Rightarrow> bool" where
  "prio_ok th \<longleftrightarrow> unat (current_priority th) < RT_THREAD_PRIORITY_MAX \<and>
     number_mask th = push_bit (unat (current_priority th)) 1"

definition started :: "rt_thread \<Rightarrow> bool" where
  "started th \<longleftrightarrow> stat_class th \<noteq> RT_THREAD_INIT \<and> stat_class th \<noteq> RT_THREAD_CLOSE"

definition suspended :: "rt_thread \<Rightarrow> bool" where
  "suspended th \<longleftrightarrow> stat th AND RT_THREAD_SUSPEND_MASK = RT_THREAD_SUSPEND_MASK"

fun ready_queue :: "qid \<Rightarrow> bool" where
  "ready_queue (QReady p) = True"
| "ready_queue _ = False"

text \<open>A thread is in no list at all.\<close>

definition unqueued :: "tid \<Rightarrow> kernel \<Rightarrow> bool" where
  "unqueued t k \<longleftrightarrow> (\<forall>q. t \<notin> set (queues k q))"

text \<open>The invariant of the lists, with a set \<open>X\<close> of threads in transit between two lists.\<close>

definition core_inv :: "tid set \<Rightarrow> kernel \<Rightarrow> bool" where
  "core_inv X k \<longleftrightarrow>
     (\<forall>q. distinct (queues k q)) \<and>
     (\<forall>q q' t. t \<in> set (queues k q) \<longrightarrow> t \<in> set (queues k q') \<longrightarrow> q = q') \<and>
     (\<forall>t\<in>X. unqueued t k) \<and>
     (\<forall>p t. t \<notin> X \<longrightarrow> (t \<in> set (queues k (QReady p)) \<longleftrightarrow>
        stat_class (threads k t) = RT_THREAD_READY \<and> unat (current_priority (threads k t)) = p)) \<and>
     (\<forall>p<RT_THREAD_PRIORITY_MAX. bit (ready_priority_group k) p \<longleftrightarrow> queues k (QReady p) \<noteq> []) \<and>
     (\<forall>t. t \<notin> X \<longrightarrow> started (threads k t) \<longrightarrow> prio_ok (threads k t)) \<and>
     (\<forall>q t. t \<in> set (queues k q) \<longrightarrow> \<not> ready_queue q \<longrightarrow> q \<noteq> QDefunct \<longrightarrow> suspended (threads k t)) \<and>
     (\<forall>t\<in>set (queues k QDefunct). stat_class (threads k t) = RT_THREAD_CLOSE)"

definition running_inv :: "kernel \<Rightarrow> bool" where
  "running_inv k \<longleftrightarrow>
     (\<forall>t. stat_class (threads k t) = RT_THREAD_RUNNING \<longrightarrow> current_thread k = Some t) \<and>
     (\<forall>c. current_thread k = Some c \<longrightarrow> stat_class (threads k c) \<noteq> RT_THREAD_READY)"

definition sched_inv :: "kernel \<Rightarrow> bool" where
  "sched_inv k \<longleftrightarrow> core_inv {} k \<and> running_inv k"

lemma core_invI:
  assumes "\<And>q. distinct (queues k q)"
    and "\<And>q q' t. t \<in> set (queues k q) \<Longrightarrow> t \<in> set (queues k q') \<Longrightarrow> q = q'"
    and "\<And>t. t \<in> X \<Longrightarrow> unqueued t k"
    and "\<And>p t. t \<notin> X \<Longrightarrow> t \<in> set (queues k (QReady p)) \<longleftrightarrow>
        stat_class (threads k t) = RT_THREAD_READY \<and> unat (current_priority (threads k t)) = p"
    and "\<And>p. p < RT_THREAD_PRIORITY_MAX \<Longrightarrow>
        bit (ready_priority_group k) p \<longleftrightarrow> queues k (QReady p) \<noteq> []"
    and "\<And>t. t \<notin> X \<Longrightarrow> started (threads k t) \<Longrightarrow> prio_ok (threads k t)"
    and "\<And>q t. t \<in> set (queues k q) \<Longrightarrow> \<not> ready_queue q \<Longrightarrow> q \<noteq> QDefunct \<Longrightarrow>
        suspended (threads k t)"
    and "\<And>t. t \<in> set (queues k QDefunct) \<Longrightarrow> stat_class (threads k t) = RT_THREAD_CLOSE"
  shows "core_inv X k"
  using assms unfolding core_inv_def by blast

lemma core_invD:
  assumes "core_inv X k"
  shows core_distinct: "distinct (queues k q)"
    and core_one_queue: "t \<in> set (queues k q) \<Longrightarrow> t \<in> set (queues k q') \<Longrightarrow> q = q'"
    and core_transit: "t \<in> X \<Longrightarrow> unqueued t k"
    and core_ready: "t \<notin> X \<Longrightarrow> t \<in> set (queues k (QReady p)) \<longleftrightarrow>
        stat_class (threads k t) = RT_THREAD_READY \<and> unat (current_priority (threads k t)) = p"
    and core_bitmap: "p < RT_THREAD_PRIORITY_MAX \<Longrightarrow>
        bit (ready_priority_group k) p \<longleftrightarrow> queues k (QReady p) \<noteq> []"
    and core_prio: "t \<notin> X \<Longrightarrow> started (threads k t) \<Longrightarrow> prio_ok (threads k t)"
    and core_waiting: "t \<in> set (queues k q) \<Longrightarrow> \<not> ready_queue q \<Longrightarrow> q \<noteq> QDefunct \<Longrightarrow>
        suspended (threads k t)"
    and core_defunct: "t \<in> set (queues k QDefunct) \<Longrightarrow> stat_class (threads k t) = RT_THREAD_CLOSE"
  using assms unfolding core_inv_def by blast+

text \<open>Suspended threads are neither ready, running, closed nor new.\<close>

lemma suspended_class:
  assumes "suspended th"
  shows "stat_class th \<noteq> RT_THREAD_READY" "stat_class th \<noteq> RT_THREAD_RUNNING"
    "stat_class th \<noteq> RT_THREAD_CLOSE" "stat_class th \<noteq> RT_THREAD_INIT"
proof -
  have "bit (stat th) 2"
  proof -
    have "bit (stat th AND RT_THREAD_SUSPEND_MASK) 2"
      using assms by (simp add: suspended_def rt_defs bit_numeral_rec)
    then show ?thesis by (simp add: bit_simps)
  qed
  then have "bit (stat_class th) 2"
    by (simp add: stat_class_def rt_defs bit_simps bit_numeral_rec)
  then show "stat_class th \<noteq> RT_THREAD_READY" "stat_class th \<noteq> RT_THREAD_RUNNING"
    "stat_class th \<noteq> RT_THREAD_CLOSE" "stat_class th \<noteq> RT_THREAD_INIT"
    by (auto simp: rt_defs bit_numeral_rec)
qed

lemma ready_queue_iff: "ready_queue q \<longleftrightarrow> (\<exists>p. q = QReady p)"
  by (cases q) auto

text \<open>A running thread is in no list.\<close>

lemma core_running_unqueued:
  assumes inv: "core_inv X k" and run: "stat_class (threads k t) = RT_THREAD_RUNNING"
  shows "unqueued t k"
proof (cases "t \<in> X")
  case True
  then show ?thesis using core_transit [OF inv] by blast
next
  case False
  show ?thesis
    unfolding unqueued_def
  proof (rule allI, rule notI)
    fix q assume t: "t \<in> set (queues k q)"
    consider p where "q = QReady p" | "q = QDefunct" | "\<not> ready_queue q" "q \<noteq> QDefunct"
      using ready_queue_iff by blast
    then show False
    proof cases
      case 1
      then show ?thesis using core_ready [OF inv False] t run by simp
    next
      case 2
      then show ?thesis using core_defunct [OF inv] t run by force
    next
      case 3
      then show ?thesis using core_waiting [OF inv t] suspended_class run by blast
    qed
  qed
qed

subsection \<open>The invariant through the list operations\<close>

lemma queues_upd_thread [simp]: "queues (upd_thread t f k) = queues k"
  and group_upd_thread [simp]: "ready_priority_group (upd_thread t f k) = ready_priority_group k"
  and current_upd_thread [simp]: "current_thread (upd_thread t f k) = current_thread k"
  and lock_upd_thread [simp]: "scheduler_lock_nest (upd_thread t f k) = scheduler_lock_nest k"
  by (simp_all add: upd_thread_def)

lemma threads_upd_thread: "threads (upd_thread t f k) = (threads k)(t := f (threads k t))"
  by (simp add: upd_thread_def)

lemma unqueued_upd_thread [simp]: "unqueued s (upd_thread t f k) = unqueued s k"
  by (simp add: unqueued_def)

text \<open>Two states that agree on what the invariant reads.\<close>

lemma core_inv_cong:
  assumes "queues k' = queues k" "threads k' = threads k"
    "ready_priority_group k' = ready_priority_group k"
  shows "core_inv X k' = core_inv X k"
  using assms by (simp add: core_inv_def unqueued_def)

lemma core_inv_transit_upd:
  assumes "core_inv X k" "t \<in> X"
  shows "core_inv X (upd_thread t f k)"
proof -
  have "t \<notin> set (queues k q)" for q
    using core_transit [OF assms] by (simp add: unqueued_def)
  then show ?thesis
    using core_invD [OF assms(1)] assms(2)
    by (intro core_invI) (auto simp: threads_upd_thread)
qed

text \<open>An update that keeps the state class, the suspension and the priority.\<close>

lemma core_inv_upd_other:
  assumes inv: "core_inv X k"
    and "stat_class (f (threads k t)) = stat_class (threads k t)"
    and "suspended (f (threads k t)) = suspended (threads k t)"
    and "current_priority (f (threads k t)) = current_priority (threads k t)"
    and "number_mask (f (threads k t)) = number_mask (threads k t)"
  shows "core_inv X (upd_thread t f k)"
proof -
  have "stat_class ((threads (upd_thread t f k)) s) = stat_class (threads k s)"
    "suspended ((threads (upd_thread t f k)) s) = suspended (threads k s)"
    "started ((threads (upd_thread t f k)) s) = started (threads k s)"
    "prio_ok ((threads (upd_thread t f k)) s) = prio_ok (threads k s)"
    "current_priority ((threads (upd_thread t f k)) s) = current_priority (threads k s)" for s
    using assms(2-) by (simp_all add: threads_upd_thread started_def prio_ok_def)
  with inv show ?thesis
    by (simp add: core_inv_def)
qed

lemma core_inv_enter_transit:
  assumes "core_inv X k" "unqueued t k"
  shows "core_inv (insert t X) k"
  using assms unfolding core_inv_def by blast

lemma core_inv_leave_transit:
  assumes inv: "core_inv X k"
    and cls: "stat_class (threads k t) \<noteq> RT_THREAD_READY"
    and prio: "started (threads k t) \<Longrightarrow> prio_ok (threads k t)"
  shows "core_inv (X - {t}) k"
proof (cases "t \<in> X")
  case True
  then have "t \<notin> set (queues k q)" for q
    using core_transit [OF inv] by (simp add: unqueued_def)
  then show ?thesis
    using core_invD [OF inv] cls prio by (intro core_invI) auto
next
  case False
  then show ?thesis using inv by simp
qed

lemma queues_tlist_remove [simp]: "queues (tlist_remove t k) q = removeAll t (queues k q)"
  by (simp add: tlist_remove_def)

lemma bit_clear_mask:
  "bit ((g :: u32) AND NOT (2 ^ p)) n \<longleftrightarrow> bit g n \<and> n \<noteq> p"
  by (cases "n < 32") (auto simp: bit_simps dest: bit_imp_le_length)

lemma bit_set_mask:
  "n < 32 \<Longrightarrow> bit ((g :: u32) OR 2 ^ p) n \<longleftrightarrow> bit g n \<or> n = p"
  by (auto simp: bit_simps)

lemma rt_schedule_remove_thread_core:
  assumes inv: "core_inv X k" and prio: "prio_ok (threads k t)"
  shows "\<exists>k'. rt_schedule_remove_thread t k = Some k' \<and> core_inv (insert t X) k'
    \<and> threads k' = threads k \<and> queues k' = (\<lambda>q. removeAll t (queues k q))
    \<and> current_thread k' = current_thread k"
proof -
  let ?p = "unat (current_priority (threads k t))"
  let ?Q = "\<lambda>q. removeAll t (queues k q)"
  let ?g = "if ?Q (QReady ?p) = [] then ready_priority_group k AND NOT (push_bit ?p 1)
            else ready_priority_group k"
  let ?k = "k\<lparr>queues := ?Q, ready_priority_group := ?g\<rparr>"
  have p: "?p < RT_THREAD_PRIORITY_MAX" and mask: "number_mask (threads k t) = push_bit ?p 1"
    using prio by (auto simp: prio_ok_def)
  have eq: "rt_schedule_remove_thread t k = Some ?k"
    using p mask by (simp add: rt_schedule_remove_thread_def tlist_remove_def Let_def)
  have other: "?Q (QReady n) = queues k (QReady n)" if "n \<noteq> ?p" for n
  proof -
    have "t \<notin> set (queues k (QReady n))"
      using that core_transit [OF inv, of t] core_ready [OF inv, of t n]
      by (cases "t \<in> X") (auto simp: unqueued_def)
    then show ?thesis by simp
  qed
  have "core_inv (insert t X) ?k"
  proof (rule core_invI)
    fix n assume n: "n < RT_THREAD_PRIORITY_MAX"
    show "bit (ready_priority_group ?k) n = (queues ?k (QReady n) \<noteq> [])"
    proof (cases "n = ?p")
      case True
      then show ?thesis
        using core_bitmap [OF inv, of ?p] p by (auto simp: bit_clear_mask)
    next
      case False
      then show ?thesis
        using core_bitmap [OF inv n] other [OF False] by (auto simp: bit_clear_mask)
    qed
  next
    fix q q' s assume "s \<in> set (queues ?k q)" "s \<in> set (queues ?k q')"
    then show "q = q'" using core_one_queue [OF inv, of s q q'] by simp
  next
    fix s assume "s \<in> insert t X"
    then show "unqueued s ?k" using core_transit [OF inv, of s] by (auto simp: unqueued_def)
  next
    fix q s assume "s \<in> set (queues ?k q)" "\<not> ready_queue q" "q \<noteq> QDefunct"
    then show "suspended (threads ?k s)" using core_waiting [OF inv, of s q] by simp
  qed (use core_distinct [OF inv] core_ready [OF inv] core_prio [OF inv] core_defunct [OF inv]
       in \<open>auto simp: distinct_removeAll\<close>)
  with eq show ?thesis by simp
qed

lemma rt_schedule_insert_thread_core:
  assumes inv: "core_inv X k" and t: "t \<in> X" and prio: "prio_ok (threads k t)"
  shows "\<exists>k' s. rt_schedule_insert_thread t k = Some k' \<and> core_inv (X - {t}) k'
    \<and> current_thread k' = current_thread k
    \<and> threads k' = (threads k)(t := (threads k t)\<lparr>stat := s\<rparr>)
    \<and> stat_class ((threads k t)\<lparr>stat := s\<rparr>) =
        (if current_thread k = Some t then RT_THREAD_RUNNING else RT_THREAD_READY)
    \<and> (\<forall>q. \<not> ready_queue q \<longrightarrow> queues k' q = queues k q)
    \<and> (current_thread k \<noteq> Some t \<longrightarrow> queues k' = (queues k)
          (QReady (unat (current_priority (threads k t))) :=
             queues k (QReady (unat (current_priority (threads k t)))) @ [t]))"
proof (cases "current_thread k = Some t")
  case True
  let ?s = "RT_THREAD_RUNNING OR (stat (threads k t) AND NOT RT_THREAD_STAT_MASK)"
  let ?k = "upd_thread t (\<lambda>th. th\<lparr>stat := RT_THREAD_RUNNING OR (stat th AND NOT RT_THREAD_STAT_MASK)\<rparr>) k"
  have "core_inv (X - {t}) ?k"
    using prio by (intro core_inv_leave_transit core_inv_transit_upd inv t)
      (auto simp: threads_upd_thread stat_class_def prio_ok_def)
  with True show ?thesis
    by (intro exI [of _ ?k] exI [of _ ?s])
      (simp add: rt_schedule_insert_thread_def threads_upd_thread stat_class_def)
next
  case False
  let ?p = "unat (current_priority (threads k t))"
  let ?s = "RT_THREAD_READY OR (stat (threads k t) AND NOT RT_THREAD_STAT_MASK)"
  let ?th = "(threads k t)\<lparr>stat := ?s\<rparr>"
  let ?k = "k\<lparr>threads := (threads k)(t := ?th),
       queues := (queues k)(QReady ?p := queues k (QReady ?p) @ [t]),
       ready_priority_group := ready_priority_group k OR push_bit ?p 1\<rparr>"
  have p: "?p < RT_THREAD_PRIORITY_MAX" and mask: "number_mask (threads k t) = push_bit ?p 1"
    using prio by (auto simp: prio_ok_def)
  have eq: "rt_schedule_insert_thread t k = Some ?k"
    using p mask False
    by (simp add: rt_schedule_insert_thread_def upd_defs Let_def)
  have cls: "stat_class ?th = RT_THREAD_READY"
    by (simp add: stat_class_def)
  have out: "t \<notin> set (queues k q)" for q
    using core_transit [OF inv t] by (simp add: unqueued_def)
  have "core_inv (X - {t}) ?k"
  proof (rule core_invI)
    fix q q' s assume "s \<in> set (queues ?k q)" "s \<in> set (queues ?k q')"
    then show "q = q'"
      using core_one_queue [OF inv, of s q q'] out by (auto split: if_splits)
  next
    fix n assume n: "n < RT_THREAD_PRIORITY_MAX"
    then show "bit (ready_priority_group ?k) n = (queues ?k (QReady n) \<noteq> [])"
      using core_bitmap [OF inv n]
      by (auto simp: bit_set_mask RT_THREAD_PRIORITY_MAX_def)
  next
    fix n s assume s: "s \<notin> X - {t}"
    show "(s \<in> set (queues ?k (QReady n))) =
        (stat_class (threads ?k s) = RT_THREAD_READY \<and> unat (current_priority (threads ?k s)) = n)"
      using s core_ready [OF inv, of s n] cls out by auto
  next
    fix s assume "s \<in> X - {t}"
    then show "unqueued s ?k" using core_transit [OF inv, of s] by (auto simp: unqueued_def)
  next
    fix q s assume s: "s \<in> set (queues ?k q)" "\<not> ready_queue q" "q \<noteq> QDefunct"
    then have "s \<in> set (queues k q)" by (auto split: if_splits)
    then show "suspended (threads ?k s)"
      using core_waiting [OF inv, of s q] s out by auto
  next
    fix s assume "s \<in> set (queues ?k QDefunct)"
    then show "stat_class (threads ?k s) = RT_THREAD_CLOSE"
      using core_defunct [OF inv, of s] out by auto
  next
    fix s assume "s \<notin> X - {t}" "started (threads ?k s)"
    then show "prio_ok (threads ?k s)"
      using core_prio [OF inv, of s] prio by (auto simp: prio_ok_def)
  next
    fix q show "distinct (queues ?k q)"
      using core_distinct [OF inv, of q] core_distinct [OF inv, of "QReady ?p"] out by simp
  qed
  with eq cls False show ?thesis
    by (intro exI [of _ ?k] exI [of _ ?s]) auto
qed

subsection \<open>Choosing the next thread\<close>

text \<open>What an operation of the scheduler leaves alone: all of the state but the scheduler's own
  variables, the state bytes of the threads and the ready lists.\<close>

definition sched_frame :: "kernel \<Rightarrow> kernel \<Rightarrow> bool" where
  "sched_frame k k' \<longleftrightarrow>
     objs k' = objs k \<and> containers k' = containers k \<and> interrupt_nest k' = interrupt_nest k \<and>
     tick k' = tick k \<and> timers k' = timers k \<and> timer_lists k' = timer_lists k \<and>
     sems k' = sems k \<and> mutexes k' = mutexes k \<and> events k' = events k \<and>
     mailboxes k' = mailboxes k \<and> mqs k' = mqs k \<and> mempools k' = mempools k \<and>
     soft_timer_idle k' = soft_timer_idle k \<and> timer_thread k' = timer_thread k \<and>
     system_sem k' = system_sem k \<and> random_nr k' = random_nr k \<and> customs k' = customs k \<and>
     (\<forall>t. \<exists>s. threads k' t = (threads k t)\<lparr>stat := s\<rparr>) \<and>
     (\<forall>q. \<not> ready_queue q \<longrightarrow> queues k' q = queues k q)"

lemma stat_same: "\<exists>s. (th :: rt_thread) = th\<lparr>stat := s\<rparr>"
  by (rule exI [of _ "stat th"]) simp

lemma sched_frame_refl [simp]: "sched_frame k k"
  by (simp add: sched_frame_def stat_same)

lemma sched_frame_trans:
  assumes "sched_frame a b" and "sched_frame b c"
  shows "sched_frame a c"
proof -
  have "\<exists>s. threads c t = (threads a t)\<lparr>stat := s\<rparr>" for t
  proof -
    obtain s where "threads b t = (threads a t)\<lparr>stat := s\<rparr>"
      using assms(1) by (auto simp: sched_frame_def)
    moreover obtain s' where "threads c t = (threads b t)\<lparr>stat := s'\<rparr>"
      using assms(2) by (auto simp: sched_frame_def)
    ultimately have "threads c t = (threads a t)\<lparr>stat := s'\<rparr>" by simp
    then show ?thesis by blast
  qed
  with assms show ?thesis by (simp add: sched_frame_def)
qed

lemma sched_frameD:
  assumes "sched_frame k k'"
  shows "objs k' = objs k" "containers k' = containers k" "interrupt_nest k' = interrupt_nest k"
    "tick k' = tick k" "timers k' = timers k" "timer_lists k' = timer_lists k"
    "sems k' = sems k" "mutexes k' = mutexes k" "events k' = events k"
    "mailboxes k' = mailboxes k" "mqs k' = mqs k" "mempools k' = mempools k"
    "soft_timer_idle k' = soft_timer_idle k" "timer_thread k' = timer_thread k"
    "system_sem k' = system_sem k" "random_nr k' = random_nr k" "customs k' = customs k"
    "\<not> ready_queue q \<Longrightarrow> queues k' q = queues k q"
  using assms by (simp_all add: sched_frame_def)

lemma sched_frame_thread:
  assumes "sched_frame k k'"
  shows "error (threads k' t) = error (threads k t)"
    "current_priority (threads k' t) = current_priority (threads k t)"
    "init_priority (threads k' t) = init_priority (threads k t)"
    "number_mask (threads k' t) = number_mask (threads k t)"
    "event_set (threads k' t) = event_set (threads k t)"
    "event_info (threads k' t) = event_info (threads k t)"
    "pending_object (threads k' t) = pending_object (threads k t)"
    "taken_object_list (threads k' t) = taken_object_list (threads k t)"
    "remaining_tick (threads k' t) = remaining_tick (threads k t)"
    "thread_init_tick (threads k' t) = thread_init_tick (threads k t)"
    "thread_signal (threads k' t) = thread_signal (threads k t)"
    "thread_signal_mask (threads k' t) = thread_signal_mask (threads k t)"
proof -
  obtain s where "threads k' t = (threads k t)\<lparr>stat := s\<rparr>"
    using assms by (auto simp: sched_frame_def)
  then show "error (threads k' t) = error (threads k t)"
    "current_priority (threads k' t) = current_priority (threads k t)"
    "init_priority (threads k' t) = init_priority (threads k t)"
    "number_mask (threads k' t) = number_mask (threads k t)"
    "event_set (threads k' t) = event_set (threads k t)"
    "event_info (threads k' t) = event_info (threads k t)"
    "pending_object (threads k' t) = pending_object (threads k t)"
    "taken_object_list (threads k' t) = taken_object_list (threads k t)"
    "remaining_tick (threads k' t) = remaining_tick (threads k t)"
    "thread_init_tick (threads k' t) = thread_init_tick (threads k t)"
    "thread_signal (threads k' t) = thread_signal (threads k t)"
    "thread_signal_mask (threads k' t) = thread_signal_mask (threads k t)"
    by simp_all
qed

text \<open>The state-byte update, the list operations and the scheduler variables are within the frame.\<close>

lemma sched_frame_upd_stat:
  assumes "\<And>th. \<exists>s. f th = th\<lparr>stat := s\<rparr>"
  shows "sched_frame k (upd_thread t f k)"
  using assms by (simp add: sched_frame_def upd_thread_def stat_same)

lemma rt_schedule_remove_thread_frame:
  assumes "rt_schedule_remove_thread t k = Some k'"
    and "\<And>q. \<not> ready_queue q \<Longrightarrow> t \<notin> set (queues k q)"
  shows "sched_frame k k'"
  using assms
  by (auto simp: rt_schedule_remove_thread_def tlist_remove_def sched_frame_def stat_same Let_def
      split: if_splits)

lemma rt_schedule_insert_thread_frame:
  assumes "rt_schedule_insert_thread t k = Some k'"
  shows "sched_frame k k'"
  using assms
  by (auto simp: rt_schedule_insert_thread_def upd_defs sched_frame_def stat_same Let_def
      split: if_splits)

lemma get_highest_priority_thread_spec:
  assumes inv: "core_inv X k" and ne: "ready_priority_group k \<noteq> 0"
  shows "\<exists>t p. get_highest_priority_thread k = Some (t, p) \<and> p < RT_THREAD_PRIORITY_MAX
    \<and> t \<in> set (queues k (QReady p)) \<and> hd (queues k (QReady p)) = t
    \<and> (\<forall>n<p. queues k (QReady n) = [])"
proof -
  obtain p where p: "rt_ffs (ready_priority_group k) = Suc p" "bit (ready_priority_group k) p"
      and low: "\<And>q. q < p \<Longrightarrow> \<not> bit (ready_priority_group k) q"
    using rt_ffs_lowest [OF ne] by blast
  have p32: "p < RT_THREAD_PRIORITY_MAX"
    using p(2) bit_imp_le_length [of "ready_priority_group k" p] by (simp add: rt_defs)
  then obtain t ts where q: "queues k (QReady p) = t # ts"
    using core_bitmap [OF inv p32] p(2) by (cases "queues k (QReady p)") auto
  have "queues k (QReady n) = []" if "n < p" for n
    using core_bitmap [OF inv, of n] low [OF that] that p32 by simp
  with p p32 q show ?thesis
    by (simp add: get_highest_priority_thread_def)
qed

lemma suspended_cases:
  "suspended th \<longleftrightarrow> stat_class th AND RT_THREAD_SUSPEND_MASK = RT_THREAD_SUSPEND_MASK"
proof -
  have "RT_THREAD_STAT_MASK AND RT_THREAD_SUSPEND_MASK = RT_THREAD_SUSPEND_MASK"
    by (simp add: rt_defs)
  then show ?thesis by (simp add: suspended_def stat_class_def and.assoc)
qed

lemma suspended_cong: "stat_class th = stat_class th' \<Longrightarrow> suspended th = suspended th'"
  by (simp add: suspended_cases)

lemma stat_class_running [simp]:
  "stat_class (th\<lparr>stat := RT_THREAD_RUNNING OR (s AND NOT RT_THREAD_STAT_MASK)\<rparr>) = RT_THREAD_RUNNING"
  by (simp add: stat_class_def)

text \<open>A ready thread is taken out of its list and made the running one.\<close>

lemma dispatch_core:
  assumes inv: "core_inv {} k" and t: "stat_class (threads k t) \<in> {RT_THREAD_READY, RT_THREAD_RUNNING}"
    and cur: "current_thread k = Some t"
  shows "\<exists>k'. Option.bind (rt_schedule_remove_thread t k) (\<lambda>k. Some (set_running t k)) = Some k'
    \<and> core_inv {} k' \<and> sched_frame k k' \<and> current_thread k' = Some t
    \<and> stat_class (threads k' t) = RT_THREAD_RUNNING
    \<and> (\<forall>s. s \<noteq> t \<longrightarrow> threads k' s = threads k s)
    \<and> queues k' = (\<lambda>q. removeAll t (queues k q))"
proof -
  have prio: "prio_ok (threads k t)"
    using core_prio [OF inv, of t] t by (auto simp: started_def)
  obtain k1 where k1: "rt_schedule_remove_thread t k = Some k1" "core_inv {t} k1"
      "threads k1 = threads k" "queues k1 = (\<lambda>q. removeAll t (queues k q))"
      "current_thread k1 = current_thread k"
    using rt_schedule_remove_thread_core [OF inv prio] by auto
  have "core_inv ({t} - {t}) (set_running t k1)"
    unfolding set_running_def
    by (intro core_inv_leave_transit core_inv_transit_upd k1(2))
      (use prio k1(3) in \<open>auto simp: threads_upd_thread prio_ok_def\<close>)
  moreover have "sched_frame k (set_running t k1)"
  proof -
    have "t \<notin> set (queues k q)" if "\<not> ready_queue q" for q
      using core_waiting [OF inv, of t q] core_defunct [OF inv, of t] suspended_class
        that t by force
    then have "sched_frame k k1"
      using rt_schedule_remove_thread_frame [OF k1(1)] by blast
    moreover have "sched_frame k1 (set_running t k1)"
      unfolding set_running_def by (rule sched_frame_upd_stat) blast
    ultimately show ?thesis by (rule sched_frame_trans)
  qed
  ultimately show ?thesis
    using k1 cur by (auto simp: set_running_def threads_upd_thread)
qed

text \<open>The path of \<open>rt_schedule\<close> that switches.\<close>

lemma rt_schedule_unfold:
  assumes "scheduler_lock_nest k = 0" "ready_priority_group k \<noteq> 0"
    and "get_highest_priority_thread k = Some (h, p)" "current_thread k = Some c"
    and "schedule_choice c h p k = (h, ins, k1)" "h \<noteq> c"
  shows "rt_schedule k =
    Option.bind (if ins then rt_schedule_insert_thread c
                   (k1\<lparr>cur_priority := word_of_nat p, current_thread := Some h\<rparr>)
                 else Some (k1\<lparr>cur_priority := word_of_nat p, current_thread := Some h\<rparr>))
      (\<lambda>k. Option.bind (rt_schedule_remove_thread h k) (\<lambda>k. Some (set_running h k)))"
  unfolding rt_schedule_def rt_thread_self_def using assms by simp

text \<open>What \<open>rt_schedule\<close> promises: the thread it leaves running has the highest priority.\<close>

definition highest_running :: "tid \<Rightarrow> kernel \<Rightarrow> bool" where
  "highest_running c k \<longleftrightarrow>
     current_thread k = Some c \<and> stat_class (threads k c) = RT_THREAD_RUNNING \<and>
     (\<forall>t. stat_class (threads k t) = RT_THREAD_READY \<longrightarrow>
        current_priority (threads k c) \<le> current_priority (threads k t))"

lemma ready_above_highest:
  assumes inv: "core_inv {} k" and none: "\<And>n. n < p \<Longrightarrow> queues k (QReady n) = []"
    and t: "stat_class (threads k t) = RT_THREAD_READY"
  shows "p \<le> unat (current_priority (threads k t))"
proof (rule ccontr)
  assume "\<not> p \<le> unat (current_priority (threads k t))"
  then show False
    using core_ready [OF inv, of t "unat (current_priority (threads k t))"] t none by auto
qed

text \<open>The current thread keeps the processor.\<close>

lemma rt_schedule_keep:
  assumes inv: "sched_inv k" and cur: "current_thread k = Some c"
    and run: "stat_class (threads k c) = RT_THREAD_RUNNING"
    and keep: "unat (current_priority (threads k c)) < p \<or>
        unat (current_priority (threads k c)) = p \<and> stat (threads k c) AND RT_THREAD_STAT_YIELD = 0"
    and high: "get_highest_priority_thread k = Some (h, p)"
    and none: "\<And>n. n < p \<Longrightarrow> queues k (QReady n) = []"
    and go: "scheduler_lock_nest k = 0" "ready_priority_group k \<noteq> 0"
  shows "\<exists>k'. rt_schedule k = Some k' \<and> sched_inv k' \<and> sched_frame k k' \<and> highest_running c k'
    \<and> (\<forall>t. t \<noteq> c \<longrightarrow> threads k' t = threads k t) \<and> queues k' = queues k"
proof -
  let ?k = "upd_thread c (\<lambda>th. th\<lparr>stat := stat th AND NOT RT_THREAD_STAT_YIELD\<rparr>) k"
  have core: "core_inv {} k" and runinv: "running_inv k" using inv by (auto simp: sched_inv_def)
  have core1: "core_inv {} ?k"
    by (intro core_inv_upd_other core) (auto simp: suspended_cases)
  have run1: "stat_class (threads ?k c) \<in> {RT_THREAD_READY, RT_THREAD_RUNNING}"
    using run by (simp add: threads_upd_thread)
  have cur1: "current_thread ?k = Some c" using cur by simp
  obtain k2 where k2: "Option.bind (rt_schedule_remove_thread c ?k) (\<lambda>k. Some (set_running c k)) = Some k2"
      "core_inv {} k2" "sched_frame ?k k2" "current_thread k2 = Some c"
      "stat_class (threads k2 c) = RT_THREAD_RUNNING"
      "\<forall>s. s \<noteq> c \<longrightarrow> threads k2 s = threads ?k s"
      "queues k2 = (\<lambda>q. removeAll c (queues ?k q))"
    using dispatch_core [OF core1 run1 cur1] by blast
  have eq: "rt_schedule k = Some k2"
    using go high cur run keep k2(1)
    by (auto simp: rt_schedule_def rt_thread_self_def schedule_choice_def Let_def)
  have frame: "sched_frame k k2"
    by (rule sched_frame_trans [OF sched_frame_upd_stat k2(3)]) blast
  have same: "threads k2 t = threads k t" if "t \<noteq> c" for t
    using k2(6) that by (simp add: threads_upd_thread)
  have "running_inv k2"
    using runinv same cur k2(4,5) unfolding running_inv_def by (metis stat_distinct(2))
  moreover have "highest_running c k2"
  proof -
    have "current_priority (threads k2 c) \<le> current_priority (threads k2 t)"
      if "stat_class (threads k2 t) = RT_THREAD_READY" for t
    proof -
      have "t \<noteq> c" using that k2(5) by auto
      then have "p \<le> unat (current_priority (threads k t))"
        using ready_above_highest [OF core none] that same by simp
      then show ?thesis
        using keep sched_frame_thread(2) [OF frame] by (auto simp: word_le_nat_alt)
    qed
    then show ?thesis using k2(4,5) by (simp add: highest_running_def)
  qed
  moreover have "queues k2 = queues k"
    using k2(7) core_running_unqueued [OF core run] by (simp add: unqueued_def)
  ultimately show ?thesis
    using eq k2(2) frame same by (auto simp: sched_inv_def)
qed

text \<open>The processor goes to the first thread of the highest non-empty ready list; a running
  current thread is queued behind the threads of its priority.\<close>

lemma rt_schedule_switch:
  assumes inv: "sched_inv k" and cur: "current_thread k = Some c"
    and away: "stat_class (threads k c) = RT_THREAD_RUNNING \<Longrightarrow>
        p < unat (current_priority (threads k c)) \<or>
        unat (current_priority (threads k c)) = p \<and> stat (threads k c) AND RT_THREAD_STAT_YIELD \<noteq> 0"
    and high: "get_highest_priority_thread k = Some (h, p)"
    and h: "h \<in> set (queues k (QReady p))"
    and none: "\<And>n. n < p \<Longrightarrow> queues k (QReady n) = []"
    and go: "scheduler_lock_nest k = 0" "ready_priority_group k \<noteq> 0"
  shows "\<exists>k'. rt_schedule k = Some k' \<and> sched_inv k' \<and> sched_frame k k' \<and> highest_running h k'
    \<and> (\<forall>t. t \<noteq> c \<and> t \<noteq> h \<longrightarrow> threads k' t = threads k t)
    \<and> (stat_class (threads k c) = RT_THREAD_RUNNING \<longrightarrow> stat_class (threads k' c) = RT_THREAD_READY)
    \<and> (stat_class (threads k c) \<noteq> RT_THREAD_RUNNING \<longrightarrow> threads k' c = threads k c)
    \<and> (stat_class (threads k c) = RT_THREAD_RUNNING \<longrightarrow> (\<forall>q. queues k' q = removeAll h
         (if q = QReady (unat (current_priority (threads k c))) then queues k q @ [c] else queues k q)))"
proof -
  have core: "core_inv {} k" and runinv: "running_inv k" using inv by (auto simp: sched_inv_def)
  have hr: "stat_class (threads k h) = RT_THREAD_READY" "unat (current_priority (threads k h)) = p"
    using core_ready [OF core, of h p] h by auto
  have hc: "h \<noteq> c" using runinv cur hr by (auto simp: running_inv_def)
  define run where "run = (stat_class (threads k c) = RT_THREAD_RUNNING)"
  define k1 where "k1 = (if run then upd_thread c (\<lambda>th. th\<lparr>stat := stat th AND NOT RT_THREAD_STAT_YIELD\<rparr>) k
      else k)"
  define k2 where "k2 = k1\<lparr>cur_priority := word_of_nat p, current_thread := Some h\<rparr>"
  have core1: "core_inv {} k1"
    unfolding k1_def by (auto intro!: core_inv_upd_other core simp: suspended_cases)
  then have core2: "core_inv {} k2"
    using core_inv_cong [of k2 k1] by (simp add: k2_def)
  have f2: "sched_frame k k2"
  proof -
    have "sched_frame k k1"
      unfolding k1_def by (auto intro: sched_frame_upd_stat)
    moreover have "sched_frame k1 k2" by (simp add: k2_def sched_frame_def stat_same)
    ultimately show ?thesis by (rule sched_frame_trans)
  qed
  have cls2: "stat_class (threads k2 t) = stat_class (threads k t)" for t
    by (simp add: k2_def k1_def threads_upd_thread)
  have same2: "t \<noteq> c \<or> \<not> run \<Longrightarrow> threads k2 t = threads k t" for t
    by (auto simp: k2_def k1_def threads_upd_thread)
  obtain k3 where k3: "(if run then rt_schedule_insert_thread c k2 else Some k2) = Some k3"
      "core_inv {} k3" "current_thread k3 = Some h" "sched_frame k2 k3"
      "\<And>t. t \<noteq> c \<or> \<not> run \<Longrightarrow> threads k3 t = threads k2 t"
      "run \<Longrightarrow> stat_class (threads k3 c) = RT_THREAD_READY"
      "run \<Longrightarrow> queues k3 = (queues k2)(QReady (unat (current_priority (threads k2 c))) :=
         queues k2 (QReady (unat (current_priority (threads k2 c)))) @ [c])"
  proof (cases run)
    case True
    have "unqueued c k2"
      using core_running_unqueued [OF core2, of c] True cls2 by (simp add: run_def)
    then have i: "core_inv {c} k2" using core_inv_enter_transit [OF core2] by simp
    have "prio_ok (threads k2 c)"
      using core_prio [OF core2, of c] True cls2 by (simp add: started_def run_def)
    from rt_schedule_insert_thread_core [OF i _ this] hc
    obtain k' s where "rt_schedule_insert_thread c k2 = Some k'" "core_inv ({c} - {c}) k'"
        "current_thread k' = current_thread k2" "threads k' = (threads k2)(c := (threads k2 c)\<lparr>stat := s\<rparr>)"
        "stat_class ((threads k2 c)\<lparr>stat := s\<rparr>) =
          (if current_thread k2 = Some c then RT_THREAD_RUNNING else RT_THREAD_READY)"
        "current_thread k2 \<noteq> Some c \<longrightarrow> queues k' = (queues k2)
           (QReady (unat (current_priority (threads k2 c))) :=
             queues k2 (QReady (unat (current_priority (threads k2 c)))) @ [c])"
      by blast
    then show ?thesis
      using that [of k'] True hc rt_schedule_insert_thread_frame [of c k2 k']
      by (simp add: k2_def)
  next
    case False
    then show ?thesis using that [of k2] core2 by (simp add: k2_def)
  qed
  have hr3: "stat_class (threads k3 h) \<in> {RT_THREAD_READY, RT_THREAD_RUNNING}"
    using k3(5) [of h] hc cls2 hr by simp
  obtain k4 where k4: "Option.bind (rt_schedule_remove_thread h k3) (\<lambda>k. Some (set_running h k)) = Some k4"
      "core_inv {} k4" "sched_frame k3 k4" "current_thread k4 = Some h"
      "stat_class (threads k4 h) = RT_THREAD_RUNNING"
      "\<forall>s. s \<noteq> h \<longrightarrow> threads k4 s = threads k3 s"
      "queues k4 = (\<lambda>q. removeAll h (queues k3 q))"
    using dispatch_core [OF k3(2) hr3 k3(3)] by blast
  have choice: "schedule_choice c h p k = (h, run, k1)"
    using away by (auto simp: schedule_choice_def run_def k1_def Let_def)
  have "rt_schedule k = Option.bind (Some k3)
      (\<lambda>k. Option.bind (rt_schedule_remove_thread h k) (\<lambda>k. Some (set_running h k)))"
    using rt_schedule_unfold [OF go high cur choice hc] k3(1) unfolding k2_def by argo
  then have eq: "rt_schedule k = Some k4"
    using k4(1) by simp
  have frame: "sched_frame k k4"
    by (rule sched_frame_trans [OF f2 sched_frame_trans [OF k3(4) k4(3)]])
  have others: "threads k4 t = threads k t" if "t \<noteq> h" "t \<noteq> c \<or> \<not> run" for t
    using that k4(6) k3(5) [of t] same2 [of t] by simp
  have ready_c: "run \<Longrightarrow> stat_class (threads k4 c) = RT_THREAD_READY"
    using k4(6) k3(6) hc by auto
  have "running_inv k4"
  proof -
    have "t = h" if "stat_class (threads k4 t) = RT_THREAD_RUNNING" for t
    proof (rule ccontr)
      assume "t \<noteq> h"
      then have "t = c \<longrightarrow> \<not> run" using that ready_c by auto
      then have "stat_class (threads k t) = RT_THREAD_RUNNING"
        using others [OF \<open>t \<noteq> h\<close>] that by auto
      then have "t = c" "run" using runinv cur by (auto simp: running_inv_def run_def)
      then show False using that ready_c by simp
    qed
    then show ?thesis unfolding running_inv_def using k4(4,5) by (metis option.inject stat_distinct(2))
  qed
  moreover have "highest_running h k4"
  proof -
    have "current_priority (threads k4 h) \<le> current_priority (threads k4 t)"
      if t: "stat_class (threads k4 t) = RT_THREAD_READY" for t
    proof -
      have "p \<le> unat (current_priority (threads k t))"
      proof (cases "t = c \<and> run")
        case True
        then show ?thesis using away by (auto simp: run_def)
      next
        case False
        have "t \<noteq> h" using t k4(5) by auto
        then show ?thesis
          using ready_above_highest [OF core none] others [of t] False t by auto
      qed
      then show ?thesis using hr sched_frame_thread(2) [OF frame] by (simp add: word_le_nat_alt)
    qed
    then show ?thesis using k4(4,5) by (simp add: highest_running_def)
  qed
  moreover have "queues k4 q = removeAll h
      (if q = QReady (unat (current_priority (threads k c))) then queues k q @ [c] else queues k q)"
    if "run" for q
  proof -
    have "queues k2 = queues k" by (simp add: k2_def k1_def)
    moreover have "current_priority (threads k2 c) = current_priority (threads k c)"
      using sched_frame_thread(2) [OF f2] .
    ultimately show ?thesis using k4(7) k3(7) [OF that] by simp
  qed
  ultimately show ?thesis
    using eq k4(2) frame others ready_c hc by (auto simp: sched_inv_def run_def)
qed

lemma rt_schedule_spec:
  assumes inv: "sched_inv k" and cur: "current_thread k = Some c"
  shows "\<exists>k' c'. rt_schedule k = Some k' \<and> sched_inv k' \<and> sched_frame k k'
    \<and> current_thread k' = Some c'
    \<and> (\<forall>t. stat_class (threads k t) \<notin> {RT_THREAD_READY, RT_THREAD_RUNNING} \<longrightarrow>
         threads k' t = threads k t)
    \<and> (\<forall>t. stat_class (threads k t) \<in> {RT_THREAD_READY, RT_THREAD_RUNNING} \<longrightarrow>
         stat_class (threads k' t) \<in> {RT_THREAD_READY, RT_THREAD_RUNNING})
    \<and> (scheduler_lock_nest k = 0 \<and>
         (ready_priority_group k \<noteq> 0 \<or> stat_class (threads k c) = RT_THREAD_RUNNING) \<longrightarrow>
         highest_running c' k')
    \<and> (scheduler_lock_nest k \<noteq> 0 \<or> ready_priority_group k = 0 \<longrightarrow> k' = k)"
proof -
  have core: "core_inv {} k" and runinv: "running_inv k" using inv by (auto simp: sched_inv_def)
  show ?thesis
  proof (cases "scheduler_lock_nest k = 0 \<and> ready_priority_group k \<noteq> 0")
    case False
    then have eq: "rt_schedule k = Some k" by (auto simp: rt_schedule_def)
    have "highest_running c k"
      if "scheduler_lock_nest k = 0" "stat_class (threads k c) = RT_THREAD_RUNNING"
    proof -
      have "stat_class (threads k t) \<noteq> RT_THREAD_READY" for t
      proof
        assume t: "stat_class (threads k t) = RT_THREAD_READY"
        then have "unat (current_priority (threads k t)) < RT_THREAD_PRIORITY_MAX"
          using core_prio [OF core, of t] by (simp add: started_def prio_ok_def)
        then show False
          using core_ready [OF core, of t "unat (current_priority (threads k t))"] t
            core_bitmap [OF core, of "unat (current_priority (threads k t))"] False that(1) by auto
      qed
      then show ?thesis using cur that(2) by (simp add: highest_running_def)
    qed
    then show ?thesis using eq inv cur False by auto
  next
    case True
    then obtain h p where high: "get_highest_priority_thread k = Some (h, p)"
        "h \<in> set (queues k (QReady p))" "\<forall>n<p. queues k (QReady n) = []"
      using get_highest_priority_thread_spec [OF core] by blast
    have hr: "stat_class (threads k h) = RT_THREAD_READY"
      using core_ready [OF core, of h p] high(2) by simp
    show ?thesis
    proof (cases "stat_class (threads k c) = RT_THREAD_RUNNING \<and>
        (unat (current_priority (threads k c)) < p \<or>
         unat (current_priority (threads k c)) = p \<and> stat (threads k c) AND RT_THREAD_STAT_YIELD = 0)")
      case keep: True
      from rt_schedule_keep [OF inv cur _ _ high(1)] keep True high(3)
      obtain k' where "rt_schedule k = Some k'" "sched_inv k'" "sched_frame k k'"
          "highest_running c k'" "\<forall>t. t \<noteq> c \<longrightarrow> threads k' t = threads k t" by blast
      then show ?thesis
        using True keep by (intro exI [of _ k'] exI [of _ c]) (auto simp: highest_running_def)
    next
      case False
      then have "stat_class (threads k c) = RT_THREAD_RUNNING \<Longrightarrow>
          p < unat (current_priority (threads k c)) \<or>
          unat (current_priority (threads k c)) = p \<and> stat (threads k c) AND RT_THREAD_STAT_YIELD \<noteq> 0"
        by linarith
      from rt_schedule_switch [OF inv cur this high(1,2)] True high(3)
      obtain k' where "rt_schedule k = Some k'" "sched_inv k'" "sched_frame k k'"
          "highest_running h k'" "\<forall>t. t \<noteq> c \<and> t \<noteq> h \<longrightarrow> threads k' t = threads k t"
          "stat_class (threads k c) \<noteq> RT_THREAD_RUNNING \<longrightarrow> threads k' c = threads k c"
          "stat_class (threads k c) = RT_THREAD_RUNNING \<longrightarrow> stat_class (threads k' c) = RT_THREAD_READY"
        by blast
      moreover from this have "threads k' t = threads k t"
        if "stat_class (threads k t) \<notin> {RT_THREAD_READY, RT_THREAD_RUNNING}" for t
        using that hr by (cases "t = c") auto
      moreover from calculation have "stat_class (threads k' t) \<in> {RT_THREAD_READY, RT_THREAD_RUNNING}"
        if "stat_class (threads k t) \<in> {RT_THREAD_READY, RT_THREAD_RUNNING}" for t
        using that by (cases "t = h"; cases "t = c") (auto simp: highest_running_def)
      ultimately show ?thesis
        using True by (intro exI [of _ k'] exI [of _ h]) (auto simp: highest_running_def)
    qed
  qed
qed

subsection \<open>A small system\<close>

text \<open>Thread 1 runs at priority 10; thread 2 is ready at priority 5 and thread 3 at priority 10.\<close>

definition sample_thread :: "u8 \<Rightarrow> u8 \<Rightarrow> rt_thread" where
  "sample_thread s p = zero_thread\<lparr>stat := s, current_priority := p, init_priority := p,
     number_mask := push_bit (unat p) 1, thread_init_tick := 10, remaining_tick := 10\<rparr>"

definition sample_kernel :: kernel where
  "sample_kernel = reset_kernel\<lparr>
     threads := (threads reset_kernel)(1 := sample_thread RT_THREAD_RUNNING 10,
       2 := sample_thread RT_THREAD_READY 5, 3 := sample_thread RT_THREAD_READY 10),
     objs := (\<lambda>x. case x of OThread _ \<Rightarrow> zero_object\<lparr>obj_type := 0x81\<rparr>
                          | OTimer _ \<Rightarrow> zero_object\<lparr>obj_type := 0x8a\<rparr>
                          | OSem _ \<Rightarrow> zero_object\<lparr>obj_type := 0x82\<rparr>
                          | OMutex _ \<Rightarrow> zero_object\<lparr>obj_type := 0x83, obj_flag := RT_IPC_FLAG_PRIO\<rparr>
                          | OEvent _ \<Rightarrow> zero_object\<lparr>obj_type := 0x84\<rparr>
                          | OMailBox _ \<Rightarrow> zero_object\<lparr>obj_type := 0x85\<rparr>
                          | OMq _ \<Rightarrow> zero_object\<lparr>obj_type := 0x86\<rparr>
                          | OMemPool _ \<Rightarrow> zero_object\<lparr>obj_type := 0x88\<rparr>
                          | _ \<Rightarrow> zero_object),
     timers := (\<lambda>tm. case tm of
        ThreadTimer t \<Rightarrow> zero_timer\<lparr>timeout_func := Rt_thread_timeout, timer_parameter := t\<rparr>
      | TimerObj _ \<Rightarrow> zero_timer),
     queues := (queues reset_kernel)(QReady 5 := [2], QReady 10 := [3]),
     ready_priority_group := 0x420, current_thread := Some 1, cur_priority := 10\<rparr>"

lemma sample_bitmap: "n < 32 \<Longrightarrow> bit (0x420 :: u32) n \<longleftrightarrow> n = 5 \<or> n = 10"
proof -
  assume n: "n < 32"
  have "(0x420 :: u32) = (0 OR 2 ^ 5) OR 2 ^ 10" by simp
  then show "bit (0x420 :: u32) n \<longleftrightarrow> n = 5 \<or> n = 10"
    using bit_set_mask [OF n, of "0 OR 2 ^ 5" 10] bit_set_mask [OF n, of 0 5] bit_0_eq
    by (metis bot_apply bot_bool_def)
qed

lemma sample_kernel_inv: "sched_inv sample_kernel"
proof -
  have "core_inv {} sample_kernel"
  proof (rule core_invI)
    fix p t
    show "(t \<in> set (queues sample_kernel (QReady p))) =
      (stat_class (threads sample_kernel t) = RT_THREAD_READY \<and>
       unat (current_priority (threads sample_kernel t)) = p)"
      by (auto simp: sample_kernel_def sample_thread_def reset_kernel_def zero_thread_def
          stat_class_def rt_defs)
  next
    fix q q' t assume "t \<in> set (queues sample_kernel q)" "t \<in> set (queues sample_kernel q')"
    then show "q = q'" by (auto simp: sample_kernel_def reset_kernel_def split: if_splits)
  next
    fix p assume "p < RT_THREAD_PRIORITY_MAX"
    then have "bit (0x420 :: u32) p \<longleftrightarrow> p = 5 \<or> p = 10"
      using sample_bitmap by (simp only: rt_defs)
    then show "bit (ready_priority_group sample_kernel) p = (queues sample_kernel (QReady p) \<noteq> [])"
      by (simp add: sample_kernel_def reset_kernel_def)
  qed (auto simp: sample_kernel_def sample_thread_def reset_kernel_def zero_thread_def
      started_def prio_ok_def stat_class_def rt_defs split: if_splits)
  then show ?thesis
    by (auto simp: sched_inv_def running_inv_def sample_kernel_def sample_thread_def
        reset_kernel_def zero_thread_def stat_class_def rt_defs split: if_splits)
qed

subsection \<open>Properties\<close>

text \<open>C1: With the scheduler unlocked, \<open>rt_schedule\<close> keeps the scheduler invariant and leaves
  running a thread whose priority is the highest among the running and all ready threads (a
  smaller number is a higher priority).\<close>

theorem rt_schedule_highest:
  assumes "sched_inv k" and "current_thread k = Some c" and "scheduler_lock_nest k = 0"
    and "ready_priority_group k \<noteq> 0 \<or> stat_class (threads k c) = RT_THREAD_RUNNING"
  shows "\<exists>k' c'. rt_schedule k = Some k' \<and> sched_inv k' \<and> highest_running c' k'"
  using rt_schedule_spec [OF assms(1,2)] assms(3,4) by blast

theorem rt_schedule_highest_witness:
  "\<exists>k' c'. rt_schedule sample_kernel = Some k' \<and> sched_inv k' \<and> highest_running c' k'"
proof (rule rt_schedule_highest)
  show "current_thread sample_kernel = Some 1" "scheduler_lock_nest sample_kernel = 0"
    "ready_priority_group sample_kernel \<noteq> 0 \<or>
      stat_class (threads sample_kernel 1) = RT_THREAD_RUNNING"
    by (simp_all add: sample_kernel_def reset_kernel_def)
qed (rule sample_kernel_inv)

text \<open>Nesting of scheduler locks: the counter is a signed 16-bit number.\<close>

lemma lock_after_enters:
  "scheduler_lock_nest ((rt_enter_critical ^^ n) k) = scheduler_lock_nest k + word_of_nat n"
  "current_thread ((rt_enter_critical ^^ n) k) = current_thread k"
  by (induction n) (simp_all add: rt_enter_critical_def add_ac)

text \<open>The scheduler lock nests: from an unlocked scheduler, after \<open>n + 1\<close> calls of
  \<open>rt_enter_critical\<close> with \<open>n\<close> up to 32767 a call of \<open>rt_exit_critical\<close> only counts down, and
  \<open>rt_schedule\<close> does nothing while the lock is held; but the counter is a signed 16-bit variable,
  so after 32769 nested calls a single exit releases the lock.\<close>

lemma critical_nesting:
  assumes unlocked: "scheduler_lock_nest k = 0" and boot: "current_thread k = None"
  shows "(\<forall>n. 0 < n \<and> n < 32768 \<longrightarrow>
        rt_exit_critical ((rt_enter_critical ^^ (n + 1)) k) =
          Some (((rt_enter_critical ^^ (n + 1)) k)\<lparr>scheduler_lock_nest := word_of_nat n\<rparr>)
        \<and> rt_schedule ((rt_enter_critical ^^ n) k) = Some ((rt_enter_critical ^^ n) k))
    \<and> rt_exit_critical ((rt_enter_critical ^^ 32769) k) =
        Some (((rt_enter_critical ^^ 32769) k)\<lparr>scheduler_lock_nest := 0\<rparr>)"
proof (intro conjI allI impI)
  fix n :: nat assume n: "0 < n \<and> n < 32768"
  then have s: "sint (word_of_nat n :: 16 word) = int n"
    by (simp add: sint_uint unsigned_of_nat take_bit_nat_eq_self signed_take_bit_int_eq_self)
  then have nz: "(word_of_nat n :: 16 word) \<noteq> 0"
    using n by (metis bot_nat_0.not_eq_extremum of_nat_eq_0_iff signed_0)
  have "scheduler_lock_nest ((rt_enter_critical ^^ (n + 1)) k) = word_of_nat n + 1"
    using unlocked lock_after_enters(1) [of "n + 1" k] by simp
  then show "rt_exit_critical ((rt_enter_critical ^^ (n + 1)) k) =
      Some (((rt_enter_critical ^^ (n + 1)) k)\<lparr>scheduler_lock_nest := word_of_nat n\<rparr>)"
    using n s by (simp add: rt_exit_critical_def Let_def del: funpow.simps)
  show "rt_schedule ((rt_enter_critical ^^ n) k) = Some ((rt_enter_critical ^^ n) k)"
    using nz unlocked lock_after_enters(1) [of n k] by (simp add: rt_schedule_def)
next
  show "rt_exit_critical ((rt_enter_critical ^^ 32769) k) =
      Some (((rt_enter_critical ^^ 32769) k)\<lparr>scheduler_lock_nest := 0\<rparr>)"
    using unlocked boot lock_after_enters [of 32769 k] by (simp add: rt_exit_critical_def Let_def)
qed

end
