(* ===== verification/Object.thy ===== *)
theory Object
  imports Scheduler CString
begin

text \<open>
  The kernel object system of \<^verbatim>\<open>src/object.c\<close>: containers of registered objects by class,
  registration of static and of allocated objects, lookup by name.  What the heap returns for a new
  object is an argument of the model (\<open>None\<close> for the null pointer); hooks are unset.

  \<open>rt_exit_critical\<close> may hand the processor to another thread; the rest of the caller is then
  executed when that thread is scheduled again.  The model runs it at once, on the state the
  scheduler left.
\<close>

subsection \<open>Operations\<close>

definition rt_object_container :: "u8 list" where
  "rt_object_container =
     [RT_Object_Class_Thread, RT_Object_Class_Semaphore, RT_Object_Class_Mutex,
      RT_Object_Class_Event, RT_Object_Class_MailBox, RT_Object_Class_MessageQueue,
      RT_Object_Class_MemHeap, RT_Object_Class_MemPool, RT_Object_Class_Device,
      RT_Object_Class_Timer, RT_Object_Class_Channel, RT_Object_Class_Custom,
      RT_Object_Class_Proc]"

definition rt_object_get_information :: "u8 \<Rightarrow> u8 option" where
  "rt_object_get_information type = find (\<lambda>c. c = type) rt_object_container"

definition rt_object_get_length :: "u8 \<Rightarrow> kernel \<Rightarrow> nat" where
  "rt_object_get_length type k =
     (case rt_object_get_information type of
        None \<Rightarrow> 0
      | Some information \<Rightarrow> length (containers k information))"

definition rt_object_get_pointers :: "u8 \<Rightarrow> int \<Rightarrow> kernel \<Rightarrow> oid list" where
  "rt_object_get_pointers type maxlen k =
     (if maxlen \<le> 0 then []
      else case rt_object_get_information type of
             None \<Rightarrow> []
           | Some information \<Rightarrow> take (nat maxlen) (containers k information))"

definition list_insert_object :: "u8 \<Rightarrow> oid \<Rightarrow> kernel \<Rightarrow> kernel" where
  "list_insert_object c x k = k\<lparr>containers := (containers k)(c := x # containers k c)\<rparr>"

definition list_remove_object :: "oid \<Rightarrow> kernel \<Rightarrow> kernel" where
  "list_remove_object x k = k\<lparr>containers := (\<lambda>c. removeAll x (containers k c))\<rparr>"

definition rt_object_init :: "oid \<Rightarrow> u8 \<Rightarrow> u8 list \<Rightarrow> kernel \<Rightarrow> kernel option" where
  "rt_object_init object type name k = do {
     information \<leftarrow> rt_object_get_information type;
     let k = rt_enter_critical k;
     rt_assert (object \<notin> set (containers k information));
     k \<leftarrow> rt_exit_critical k;
     let k = upd_obj object (\<lambda>ob. ob\<lparr>obj_type := type OR RT_Object_Class_Static\<rparr>) k;
     nm \<leftarrow> rt_strncpy (obj_name (objs k object)) name RT_NAME_MAX;
     let k = upd_obj object (\<lambda>ob. ob\<lparr>obj_name := nm\<rparr>) k;
     Some (list_insert_object information object k)
   }"

definition rt_object_detach :: "oid \<Rightarrow> kernel \<Rightarrow> kernel" where
  "rt_object_detach object k =
     list_remove_object object (upd_obj object (\<lambda>ob. ob\<lparr>obj_type := 0\<rparr>) k)"

text \<open>\<^verbatim>\<open>rt_memset(object, 0, object_size)\<close> on the structure the object heads.\<close>

definition clear_object :: "oid \<Rightarrow> kernel \<Rightarrow> kernel" where
  "clear_object x k =
     (let k = k\<lparr>objs := (objs k)(x := zero_object)\<rparr>
      in case x of
           OThread t \<Rightarrow> k\<lparr>threads := (threads k)(t := zero_thread)\<rparr>
         | OSem s \<Rightarrow> k\<lparr>sems := (sems k)(s := \<lparr>sem_value = 0\<rparr>)\<rparr>
         | OMutex m \<Rightarrow> k\<lparr>mutexes := (mutexes k)(m := zero_mutex)\<rparr>
         | OEvent e \<Rightarrow> k\<lparr>events := (events k)(e := \<lparr>ev_set = 0\<rparr>)\<rparr>
         | OMailBox b \<Rightarrow> k\<lparr>mailboxes := (mailboxes k)(b := zero_mailbox)\<rparr>
         | OMq q \<Rightarrow> k\<lparr>mqs := (mqs k)(q := zero_mq)\<rparr>
         | OMemPool p \<Rightarrow> k\<lparr>mempools := (mempools k)(p := zero_mempool)\<rparr>
         | OTimer t \<Rightarrow> k\<lparr>timers := (timers k)(t := zero_timer)\<rparr>
         | OCustom c \<Rightarrow> k\<lparr>customs := (customs k)(c := \<lparr>custom_destroy = None, custom_data = 0\<rparr>)\<rparr>)"

definition rt_object_allocate ::
  "oid option \<Rightarrow> u8 \<Rightarrow> u8 list \<Rightarrow> kernel \<Rightarrow> (oid option \<times> kernel) option" where
  "rt_object_allocate malloc type name k = do {
     rt_assert (\<not> in_interrupt k);
     information \<leftarrow> rt_object_get_information type;
     case malloc of
       None \<Rightarrow> Some (None, k)
     | Some object \<Rightarrow> do {
         let k = clear_object object k;
         let k = upd_obj object (\<lambda>ob. ob\<lparr>obj_type := type, obj_flag := 0\<rparr>) k;
         nm \<leftarrow> rt_strncpy (obj_name (objs k object)) name RT_NAME_MAX;
         let k = upd_obj object (\<lambda>ob. ob\<lparr>obj_name := nm\<rparr>) k;
         Some (Some object, list_insert_object information object k)
       }
   }"

definition rt_object_is_systemobject :: "oid \<Rightarrow> kernel \<Rightarrow> bool" where
  "rt_object_is_systemobject object k \<longleftrightarrow> obj_type (objs k object) AND RT_Object_Class_Static \<noteq> 0"

definition rt_object_get_type :: "oid \<Rightarrow> kernel \<Rightarrow> u8" where
  "rt_object_get_type object k = obj_type (objs k object) AND NOT RT_Object_Class_Static"

definition rt_object_delete :: "oid \<Rightarrow> kernel \<Rightarrow> kernel option" where
  "rt_object_delete object k = do {
     rt_assert (\<not> rt_object_is_systemobject object k);
     Some (list_remove_object object (upd_obj object (\<lambda>ob. ob\<lparr>obj_type := 0\<rparr>) k))
   }"

fun find_by_name :: "(oid \<Rightarrow> rt_object) \<Rightarrow> u8 list \<Rightarrow> oid list \<Rightarrow> oid option option" where
  "find_by_name obs name [] = Some None"
| "find_by_name obs name (x # xs) = do {
     r \<leftarrow> rt_strncmp (obj_name (obs x)) name RT_NAME_MAX;
     if r = 0 then Some (Some x) else find_by_name obs name xs
   }"

definition rt_object_find ::
  "u8 list option \<Rightarrow> u8 \<Rightarrow> kernel \<Rightarrow> (oid option \<times> kernel) option" where
  "rt_object_find name type k =
     (case (name, rt_object_get_information type) of
        (Some name, Some information) \<Rightarrow> do {
          rt_assert (\<not> in_interrupt k);
          let k = rt_enter_critical k;
          r \<leftarrow> find_by_name (objs k) name (containers k information);
          k \<leftarrow> rt_exit_critical k;
          Some (r, k)
        }
      | _ \<Rightarrow> Some (None, k))"

definition rt_custom_object_create ::
  "nat option \<Rightarrow> u8 list \<Rightarrow> nat \<Rightarrow> nat option \<Rightarrow> kernel \<Rightarrow> (oid option \<times> kernel) option" where
  "rt_custom_object_create malloc name data data_destroy k = do {
     (cobj, k) \<leftarrow> rt_object_allocate (map_option OCustom malloc) RT_Object_Class_Custom name k;
     case cobj of
       Some (OCustom c) \<Rightarrow>
         Some (cobj, k\<lparr>customs := (customs k)
           (c := \<lparr>custom_destroy = data_destroy, custom_data = data\<rparr>)\<rparr>)
     | _ \<Rightarrow> Some (None, k)
   }"

text \<open>The destructor is a client's function: its result is the argument \<open>destroy\<close>.\<close>

definition rt_custom_object_destroy ::
  "(nat \<Rightarrow> nat \<Rightarrow> int) \<Rightarrow> nat option \<Rightarrow> kernel \<Rightarrow> (int \<times> kernel) option" where
  "rt_custom_object_destroy destroy obj k =
     (case obj of
        None \<Rightarrow> Some (- 1, k)
      | Some c \<Rightarrow>
          if obj_type (objs k (OCustom c)) = RT_Object_Class_Custom
          then do {
            let ret = (case custom_destroy (customs k c) of
                         Some f \<Rightarrow> destroy f (custom_data (customs k c))
                       | None \<Rightarrow> - 1);
            k \<leftarrow> rt_object_delete (OCustom c) k;
            Some (ret, k)
          }
          else Some (- 1, k))"

subsection \<open>A critical section\<close>

text \<open>A lock level that can still be raised.\<close>

definition lock_ok :: "kernel \<Rightarrow> bool" where
  "lock_ok k \<longleftrightarrow> 0 \<le> sint (scheduler_lock_nest k) \<and> sint (scheduler_lock_nest k) < 32767"

lemma sched_frame_lock [simp]: "sched_frame k (k\<lparr>scheduler_lock_nest := n\<rparr>)"
  by (simp add: sched_frame_def stat_same)

lemma lock_remove:
  "rt_schedule_remove_thread t k = Some k' \<Longrightarrow> scheduler_lock_nest k' = scheduler_lock_nest k"
  by (auto simp: rt_schedule_remove_thread_def tlist_remove_def Let_def split: if_splits)

lemma lock_insert:
  "rt_schedule_insert_thread t k = Some k' \<Longrightarrow> scheduler_lock_nest k' = scheduler_lock_nest k"
  by (auto simp: rt_schedule_insert_thread_def upd_defs Let_def split: if_splits)

lemma lock_choice:
  "schedule_choice c h p k = (x, b, k') \<Longrightarrow> scheduler_lock_nest k' = scheduler_lock_nest k"
  by (auto simp: schedule_choice_def Let_def split: if_splits)

lemma rt_schedule_lock:
  assumes "rt_schedule k = Some k'"
  shows "scheduler_lock_nest k' = scheduler_lock_nest k"
proof (cases "scheduler_lock_nest k = 0 \<and> ready_priority_group k \<noteq> 0")
  case True
  then obtain h p c where hp: "get_highest_priority_thread k = Some (h, p)" "rt_thread_self k = Some c"
    using assms by (auto simp: rt_schedule_def bind_eq_Some_conv)
  obtain x ins k1 where ch: "schedule_choice c h p k = (x, ins, k1)"
    by (cases "schedule_choice c h p k")
  then have "scheduler_lock_nest k1 = scheduler_lock_nest k" by (rule lock_choice)
  then show ?thesis
    using assms True hp ch
    by (auto simp: rt_schedule_def bind_eq_Some_conv set_running_def Let_def split: if_splits
        dest!: lock_remove lock_insert)
next
  case False
  then show ?thesis using assms by (auto simp: rt_schedule_def)
qed

lemma sched_inv_lock [simp]: "sched_inv (k\<lparr>scheduler_lock_nest := n\<rparr>) = sched_inv k"
  by (simp add: sched_inv_def running_inv_def core_inv_def unqueued_def)

lemma critical_section:
  assumes inv: "sched_inv k" and lock: "lock_ok k"
  shows "\<exists>k'. rt_exit_critical (rt_enter_critical k) = Some k' \<and> sched_inv k' \<and> sched_frame k k'
    \<and> scheduler_lock_nest k' = scheduler_lock_nest k"
proof -
  let ?n = "scheduler_lock_nest k"
  have restore: "(rt_enter_critical k)\<lparr>scheduler_lock_nest := ?n\<rparr> = k"
    by (simp add: rt_enter_critical_def)
  show ?thesis
  proof (cases "?n = 0")
    case False
    then have "0 < sint ?n" using lock by (simp add: lock_ok_def order_less_le)
    then have "rt_exit_critical (rt_enter_critical k) = Some k"
      using restore by (simp add: rt_exit_critical_def rt_enter_critical_def)
    then show ?thesis using inv by simp
  next
    case zero: True
    then have same: "k\<lparr>scheduler_lock_nest := 0\<rparr> = k" by (cases k) simp
    have eq: "rt_exit_critical (rt_enter_critical k) =
        (if current_thread k \<noteq> None then rt_schedule k else Some k)"
      by (simp add: rt_exit_critical_def rt_enter_critical_def zero same)
    show ?thesis
    proof (cases "current_thread k")
      case None
      then show ?thesis using eq inv by simp
    next
      case (Some c)
      then obtain k' where "rt_schedule k = Some k'" "sched_inv k'" "sched_frame k k'"
        using rt_schedule_spec [OF inv] by blast
      then show ?thesis using eq Some rt_schedule_lock by auto
    qed
  qed
qed

subsection \<open>The containers\<close>

definition obj_inv :: "kernel \<Rightarrow> bool" where
  "obj_inv k \<longleftrightarrow>
     (\<forall>c. distinct (containers k c)) \<and>
     (\<forall>c. \<forall>x\<in>set (containers k c).
        rt_object_get_type x k = c \<and> c \<in> set rt_object_container \<and>
        length (obj_name (objs k x)) = RT_NAME_MAX)"

lemma rt_object_get_information_iff:
  "rt_object_get_information c = (if c \<in> set rt_object_container then Some c else None)"
proof (cases "rt_object_get_information c")
  case None
  then show ?thesis by (simp add: rt_object_get_information_def find_None_iff)
next
  case (Some d)
  then have "d = c" "c \<in> set rt_object_container"
    by (auto simp: rt_object_get_information_def find_Some_iff)
  with Some show ?thesis by simp
qed

lemma class_below_static:
  assumes "c \<in> set rt_object_container"
  shows "(c OR RT_Object_Class_Static) AND NOT RT_Object_Class_Static = c"
    "c AND NOT RT_Object_Class_Static = c" "(c OR RT_Object_Class_Static) AND RT_Object_Class_Static \<noteq> 0"
    "c AND RT_Object_Class_Static = 0" "c \<noteq> 0"
  using assms by (auto simp: rt_object_container_def rt_defs)

lemma obj_inv_frame:
  assumes "sched_frame k k'" shows "obj_inv k' = obj_inv k"
  using sched_frameD [OF assms] by (simp add: obj_inv_def rt_object_get_type_def)

text \<open>The name field after registration: the string cut to the field, padded with zeros.\<close>

definition name_field :: "u8 list \<Rightarrow> u8 list" where
  "name_field name = take RT_NAME_MAX (cstr name @ replicate RT_NAME_MAX 0)"

lemma length_name_field [simp]: "length (name_field name) = RT_NAME_MAX"
  by (simp add: name_field_def)

lemma takeWhile_pad:
  "0 \<notin> set xs \<Longrightarrow> takeWhile (\<lambda>c. c \<noteq> 0) (xs @ replicate n (0 :: u8)) = xs"
  by (induction xs) (auto simp: takeWhile_eq_Nil_iff)

lemma cstr_name_field: "cstr (name_field name) = take RT_NAME_MAX (cstr name)"
proof -
  have "name_field name =
      take RT_NAME_MAX (cstr name) @ replicate (RT_NAME_MAX - length (cstr name)) 0"
    by (simp add: name_field_def)
  moreover have "0 \<notin> set (take RT_NAME_MAX (cstr name))"
    by (auto simp: cstr_def dest!: in_set_takeD set_takeWhileD)
  ultimately show ?thesis
    using takeWhile_pad [of "take RT_NAME_MAX (cstr name)"] by (simp add: cstr_def)
qed

lemma rt_strncpy_name:
  assumes "0 \<in> set name" and "length d = RT_NAME_MAX"
  shows "rt_strncpy d name RT_NAME_MAX = Some (name_field name)"
  using rt_strncpy_spec [of RT_NAME_MAX d name] assms by (simp add: name_field_def)

lemma name_matches:
  assumes "0 \<in> set name"
  shows "rt_strncmp (name_field name) name RT_NAME_MAX = Some 0"
proof -
  have "\<exists>r. rt_strncmp (name_field name) name RT_NAME_MAX = Some r \<and> (r = 0 \<longleftrightarrow>
      take RT_NAME_MAX (cstr (name_field name)) = take RT_NAME_MAX (cstr name))"
    by (rule rt_strncmp_zero) (use assms in simp_all)
  then show ?thesis by (simp add: cstr_name_field)
qed

text \<open>What registration of a static object does, in one equation.\<close>

lemma rt_object_init_eq:
  assumes inv: "sched_inv k" and lock: "lock_ok k"
    and c: "c \<in> set rt_object_container" and x: "x \<notin> set (containers k c)"
    and name: "0 \<in> set name" and len: "length (obj_name (objs k x)) = RT_NAME_MAX"
  shows "\<exists>k'. rt_exit_critical (rt_enter_critical k) = Some k' \<and> sched_inv k' \<and> sched_frame k k'
    \<and> scheduler_lock_nest k' = scheduler_lock_nest k
    \<and> rt_object_init x c name k = Some (k'\<lparr>
        objs := (objs k)(x := (objs k x)\<lparr>obj_type := c OR RT_Object_Class_Static,
                                         obj_name := name_field name\<rparr>),
        containers := (containers k)(c := x # containers k c)\<rparr>)"
proof -
  obtain k' where k': "rt_exit_critical (rt_enter_critical k) = Some k'" "sched_inv k'"
      "sched_frame k k'" "scheduler_lock_nest k' = scheduler_lock_nest k"
    using critical_section [OF inv lock] by blast
  have "containers (rt_enter_critical k) = containers k" by (simp add: rt_enter_critical_def)
  then show ?thesis
    using k' c x len rt_strncpy_name [OF name len] sched_frameD(1,2) [OF k'(3)]
    by (simp add: rt_object_init_def rt_object_get_information_iff upd_obj_def list_insert_object_def)
qed

text \<open>Changes of the object tables do not concern the scheduler.\<close>

lemma sched_inv_objs [simp]: "sched_inv (k\<lparr>objs := os, containers := cs\<rparr>) = sched_inv k"
  by (simp add: sched_inv_def running_inv_def core_inv_def unqueued_def)

lemma sched_inv_cong:
  assumes "queues k' = queues k" "threads k' = threads k"
    "ready_priority_group k' = ready_priority_group k" "current_thread k' = current_thread k"
  shows "sched_inv k' = sched_inv k"
  using assms by (simp add: sched_inv_def running_inv_def core_inv_def unqueued_def)

lemma obj_inv_insert:
  assumes inv: "obj_inv k" and c: "c \<in> set rt_object_container"
    and x: "\<And>d. x \<notin> set (containers k d)"
    and new: "objs k' = (objs k)(x := ob)" "containers k' = (containers k)(c := x # containers k c)"
    and ob: "obj_type ob AND NOT RT_Object_Class_Static = c" "length (obj_name ob) = RT_NAME_MAX"
  shows "obj_inv k'"
  unfolding obj_inv_def
proof (intro conjI allI ballI)
  fix d show "distinct (containers k' d)" using inv x new by (simp add: obj_inv_def)
next
  fix d y assume y: "y \<in> set (containers k' d)"
  show "rt_object_get_type y k' = d" "d \<in> set rt_object_container"
    "length (obj_name (objs k' y)) = RT_NAME_MAX"
    using y inv x [of d] c new ob
    by (auto simp: obj_inv_def rt_object_get_type_def split: if_splits)
qed

lemma obj_inv_remove:
  assumes inv: "obj_inv k"
    and new: "objs k' = (objs k)(x := ob)" "containers k' = (\<lambda>c. removeAll x (containers k c))"
  shows "obj_inv k'"
  using assms by (auto simp: obj_inv_def rt_object_get_type_def distinct_removeAll)

subsection \<open>Properties\<close>

text \<open>C37: Registering an unregistered static object under a class with a terminated name succeeds,
  keeps the containers well formed and the scheduler invariant, makes the object a system object of
  that class, adds one to the length of the container, and a lookup of the name in that class
  returns that object, also when older objects carry the same name.\<close>

theorem object_init_find:
  assumes "sched_inv k" and "lock_ok k" and "obj_inv k" and "\<not> in_interrupt k"
    and "c \<in> set rt_object_container" and "\<forall>d. x \<notin> set (containers k d)"
    and "0 \<in> set name" and "length (obj_name (objs k x)) = RT_NAME_MAX"
  shows "\<exists>k1 k2. rt_object_init x c name k = Some k1 \<and> obj_inv k1 \<and> sched_inv k1
    \<and> rt_object_get_type x k1 = c \<and> rt_object_is_systemobject x k1
    \<and> rt_object_get_length c k1 = rt_object_get_length c k + 1
    \<and> rt_object_find (Some name) c k1 = Some (Some x, k2)"
proof -
  let ?ob = "(objs k x)\<lparr>obj_type := c OR RT_Object_Class_Static, obj_name := name_field name\<rparr>"
  obtain k' where k': "sched_inv k'" "sched_frame k k'"
      "scheduler_lock_nest k' = scheduler_lock_nest k"
      and eq: "rt_object_init x c name k = Some (k'\<lparr>objs := (objs k)(x := ?ob),
        containers := (containers k)(c := x # containers k c)\<rparr>)"
    using rt_object_init_eq [OF assms(1,2,5) _ assms(7,8)] assms(6) by blast
  define k1 where "k1 = k'\<lparr>objs := (objs k)(x := ?ob),
        containers := (containers k)(c := x # containers k c)\<rparr>"
  have inv1: "sched_inv k1" using k'(1) by (simp add: k1_def)
  have lock1: "lock_ok k1" using assms(2) k'(3) by (simp add: k1_def lock_ok_def)
  have obj1: "obj_inv k1"
    by (rule obj_inv_insert [OF assms(3,5), of x k1 ?ob])
      (use assms(6) class_below_static [OF assms(5)] in \<open>simp_all add: k1_def\<close>)
  have int1: "\<not> in_interrupt k1"
    using assms(4) sched_frameD(3) [OF k'(2)] by (simp add: k1_def in_interrupt_def)
  obtain k2 where k2: "rt_exit_critical (rt_enter_critical k1) = Some k2"
    using critical_section [OF inv1 lock1] by blast
  have "find_by_name (objs (rt_enter_critical k1)) name (containers (rt_enter_critical k1) c) =
      Some (Some x)"
    using name_matches [OF assms(7)] by (simp add: rt_enter_critical_def k1_def)
  then have "rt_object_find (Some name) c k1 = Some (Some x, k2)"
    using k2 int1 assms(5) by (simp add: rt_object_find_def rt_object_get_information_iff)
  moreover have "rt_object_get_type x k1 = c" "rt_object_is_systemobject x k1"
    using class_below_static [OF assms(5)]
    by (simp_all add: rt_object_get_type_def rt_object_is_systemobject_def k1_def)
  moreover have "rt_object_get_length c k1 = rt_object_get_length c k + 1"
    using assms(5) by (simp add: rt_object_get_length_def rt_object_get_information_iff k1_def)
  ultimately show ?thesis using eq inv1 obj1 by (auto simp: k1_def)
qed

theorem object_init_find_witness:
  "\<exists>k1 k2. rt_object_init (OSem 7) RT_Object_Class_Semaphore [115, 0] sample_kernel = Some k1
    \<and> rt_object_find (Some [115, 0]) RT_Object_Class_Semaphore k1 = Some (Some (OSem 7), k2)"
proof -
  have "lock_ok sample_kernel" "obj_inv sample_kernel" "\<not> in_interrupt sample_kernel"
    "\<forall>d. OSem 7 \<notin> set (containers sample_kernel d)"
    "length (obj_name (objs sample_kernel (OSem 7))) = RT_NAME_MAX"
    by (simp_all add: sample_kernel_def reset_kernel_def lock_ok_def obj_inv_def in_interrupt_def
        zero_object_def)
  moreover have "RT_Object_Class_Semaphore \<in> set rt_object_container"
    by (simp add: rt_object_container_def)
  ultimately show ?thesis
    using object_init_find [OF sample_kernel_inv, of RT_Object_Class_Semaphore "OSem 7" "[115, 0]"]
    by auto
qed

text \<open>The containers stay well formed through allocation, deletion and detaching: every
  registered object is in exactly the container of its class, once.\<close>

lemma object_containers_preserved:
  assumes "obj_inv k"
  shows "obj_inv (rt_object_detach x k)
    \<and> (rt_object_delete x k = Some k1 \<longrightarrow> obj_inv k1)
    \<and> ((\<forall>d. y \<notin> set (containers k d)) \<and> 0 \<in> set name \<and>
         rt_object_allocate (Some y) c name k = Some (r, k2) \<longrightarrow>
         r = Some y \<and> obj_inv k2 \<and> \<not> rt_object_is_systemobject y k2)"
proof (intro conjI impI)
  show "obj_inv (rt_object_detach x k)"
    by (rule obj_inv_remove [OF assms, of _ x])
      (simp_all add: rt_object_detach_def list_remove_object_def upd_obj_def)
next
  assume "rt_object_delete x k = Some k1"
  then show "obj_inv k1"
    by (intro obj_inv_remove [OF assms, of _ x])
      (auto simp: rt_object_delete_def list_remove_object_def upd_obj_def split: if_splits)
next
  let ?ob = "zero_object\<lparr>obj_type := c, obj_name := name_field name\<rparr>"
  assume a: "(\<forall>d. y \<notin> set (containers k d)) \<and> 0 \<in> set name \<and>
         rt_object_allocate (Some y) c name k = Some (r, k2)"
  then have c: "c \<in> set rt_object_container"
    by (auto simp: rt_object_allocate_def rt_object_get_information_iff bind_eq_Some_conv
        split: if_splits)
  have clear: "objs (clear_object y k) = (objs k)(y := zero_object)"
      "containers (clear_object y k) = containers k"
    by (auto simp: clear_object_def Let_def split: oid.splits)
  have "rt_strncpy (replicate RT_NAME_MAX 0) name RT_NAME_MAX = Some (name_field name)"
    using a by (intro rt_strncpy_name) auto
  then have k2: "r = Some y" "objs k2 = (objs k)(y := ?ob)"
      "containers k2 = (containers k)(c := y # containers k c)"
    using a c clear
    by (auto simp: rt_object_allocate_def rt_object_get_information_iff upd_obj_def
        list_insert_object_def zero_object_def split: if_splits)
  show "r = Some y" by (rule k2(1))
  show "obj_inv k2"
    by (rule obj_inv_insert [OF assms c _ k2(2,3)])
      (use a class_below_static [OF c] in simp_all)
  show "\<not> rt_object_is_systemobject y k2"
    using k2(2) class_below_static [OF c] by (simp add: rt_object_is_systemobject_def)
qed

end
