(* ===== verification/TimerBase.thy ===== *)
theory TimerBase
  imports Object
begin

text \<open>
  The operations of \<^verbatim>\<open>src/timer.c\<close> that do not need the thread operations: initialisation,
  removal from the lists, stopping, control, creation and deletion.  \<open>rt_timer_start\<close> and the tick
  processing, which resume threads, are in \<open>TimerRun\<close>.
\<close>

subsection \<open>Operations\<close>

definition timer_flag :: "timerid \<Rightarrow> kernel \<Rightarrow> u8" where
  "timer_flag tm k = obj_flag (objs k (OTimer tm))"

definition set_timer_flag :: "timerid \<Rightarrow> u8 \<Rightarrow> kernel \<Rightarrow> kernel" where
  "set_timer_flag tm f = upd_obj (OTimer tm) (\<lambda>ob. ob\<lparr>obj_flag := f\<rparr>)"

definition timer_init_fields :: "timerid \<Rightarrow> timeout_fn \<Rightarrow> nat \<Rightarrow> u32 \<Rightarrow> u8 \<Rightarrow> kernel \<Rightarrow> kernel" where
  "timer_init_fields tm timeout parameter time flag k =
     (let k = set_timer_flag tm flag k;
          k = set_timer_flag tm (timer_flag tm k AND NOT RT_TIMER_FLAG_ACTIVATED) k;
          k = upd_timer tm (\<lambda>_. \<lparr>timeout_func = timeout, timer_parameter = parameter,
                                 timer_init_tick = time, timeout_tick = 0\<rparr>) k
      in k\<lparr>timer_lists := (\<lambda>l. removeAll tm (timer_lists k l))\<rparr>)"

definition rt_timer_list_next_timeout :: "timer_list \<Rightarrow> kernel \<Rightarrow> u32" where
  "rt_timer_list_next_timeout l k =
     (case timer_lists k l of [] \<Rightarrow> RT_TICK_MAX | t # _ \<Rightarrow> timeout_tick (timers k t))"

definition timer_remove :: "timerid \<Rightarrow> kernel \<Rightarrow> kernel" where
  "timer_remove tm k = k\<lparr>timer_lists := (\<lambda>l. removeAll tm (timer_lists k l))\<rparr>"

definition is_timer :: "timerid \<Rightarrow> kernel \<Rightarrow> bool" where
  "is_timer tm k \<longleftrightarrow> rt_object_get_type (OTimer tm) k = RT_Object_Class_Timer"

definition deactivate :: "timerid \<Rightarrow> kernel \<Rightarrow> kernel" where
  "deactivate tm k = set_timer_flag tm (timer_flag tm k AND NOT RT_TIMER_FLAG_ACTIVATED) k"

definition rt_timer_init ::
  "timerid \<Rightarrow> u8 list \<Rightarrow> timeout_fn \<Rightarrow> nat \<Rightarrow> u32 \<Rightarrow> u8 \<Rightarrow> kernel \<Rightarrow> kernel option" where
  "rt_timer_init tm name timeout parameter time flag k = do {
     k \<leftarrow> rt_object_init (OTimer tm) RT_Object_Class_Timer name k;
     Some (timer_init_fields tm timeout parameter time flag k)
   }"

definition rt_timer_detach :: "timerid \<Rightarrow> kernel \<Rightarrow> (int \<times> kernel) option" where
  "rt_timer_detach tm k = do {
     rt_assert (is_timer tm k);
     rt_assert (rt_object_is_systemobject (OTimer tm) k);
     let k = deactivate tm (timer_remove tm k);
     Some (RT_EOK, rt_object_detach (OTimer tm) k)
   }"

definition rt_timer_create ::
  "timerid option \<Rightarrow> u8 list \<Rightarrow> timeout_fn \<Rightarrow> nat \<Rightarrow> u32 \<Rightarrow> u8 \<Rightarrow> kernel
     \<Rightarrow> (timerid option \<times> kernel) option" where
  "rt_timer_create malloc name timeout parameter time flag k = do {
     (r, k) \<leftarrow> rt_object_allocate (map_option OTimer malloc) RT_Object_Class_Timer name k;
     case r of
       Some (OTimer tm) \<Rightarrow> Some (Some tm, timer_init_fields tm timeout parameter time flag k)
     | _ \<Rightarrow> Some (None, k)
   }"

definition rt_timer_delete :: "timerid \<Rightarrow> kernel \<Rightarrow> (int \<times> kernel) option" where
  "rt_timer_delete tm k = do {
     rt_assert (is_timer tm k);
     rt_assert (\<not> rt_object_is_systemobject (OTimer tm) k);
     let k = deactivate tm (timer_remove tm k);
     k \<leftarrow> rt_object_delete (OTimer tm) k;
     Some (RT_EOK, k)
   }"

definition rt_timer_stop :: "timerid \<Rightarrow> kernel \<Rightarrow> (int \<times> kernel) option" where
  "rt_timer_stop tm k = do {
     rt_assert (is_timer tm k);
     if timer_flag tm k AND RT_TIMER_FLAG_ACTIVATED = 0
     then Some (- RT_ERROR, k)
     else Some (RT_EOK, deactivate tm (timer_remove tm k))
   }"

text \<open>The control commands with their arguments, and what is stored through the argument pointer.\<close>

datatype timer_cmd =
    RT_TIMER_CTRL_GET_TIME | RT_TIMER_CTRL_SET_TIME u32
  | RT_TIMER_CTRL_SET_ONESHOT | RT_TIMER_CTRL_SET_PERIODIC | RT_TIMER_CTRL_GET_STATE
  | RT_TIMER_CTRL_GET_FUNC | RT_TIMER_CTRL_SET_FUNC timeout_fn
  | RT_TIMER_CTRL_GET_PARM | RT_TIMER_CTRL_SET_PARM nat
  | RT_TIMER_CTRL_GET_REMAIN_TIME | RT_TIMER_CTRL_OTHER int

datatype timer_out = No_out | Out_tick u32 | Out_func timeout_fn | Out_parm nat

definition rt_timer_control ::
  "timerid \<Rightarrow> timer_cmd \<Rightarrow> kernel \<Rightarrow> (int \<times> timer_out \<times> kernel) option" where
  "rt_timer_control tm cmd k = do {
     rt_assert (is_timer tm k);
     let (out, k) =
       (case cmd of
          RT_TIMER_CTRL_GET_TIME \<Rightarrow> (Out_tick (timer_init_tick (timers k tm)), k)
        | RT_TIMER_CTRL_SET_TIME time \<Rightarrow>
            (No_out, upd_timer tm (\<lambda>t. t\<lparr>timer_init_tick := time\<rparr>) k)
        | RT_TIMER_CTRL_SET_ONESHOT \<Rightarrow>
            (No_out, set_timer_flag tm (timer_flag tm k AND NOT RT_TIMER_FLAG_PERIODIC) k)
        | RT_TIMER_CTRL_SET_PERIODIC \<Rightarrow>
            (No_out, set_timer_flag tm (timer_flag tm k OR RT_TIMER_FLAG_PERIODIC) k)
        | RT_TIMER_CTRL_GET_STATE \<Rightarrow>
            (Out_tick (if timer_flag tm k AND RT_TIMER_FLAG_ACTIVATED \<noteq> 0
                       then ucast RT_TIMER_FLAG_ACTIVATED else 0), k)
        | RT_TIMER_CTRL_GET_FUNC \<Rightarrow> (Out_func (timeout_func (timers k tm)), k)
        | RT_TIMER_CTRL_SET_FUNC f \<Rightarrow> (No_out, upd_timer tm (\<lambda>t. t\<lparr>timeout_func := f\<rparr>) k)
        | RT_TIMER_CTRL_GET_PARM \<Rightarrow> (Out_parm (timer_parameter (timers k tm)), k)
        | RT_TIMER_CTRL_SET_PARM p \<Rightarrow> (No_out, upd_timer tm (\<lambda>t. t\<lparr>timer_parameter := p\<rparr>) k)
        | RT_TIMER_CTRL_GET_REMAIN_TIME \<Rightarrow> (Out_tick (timeout_tick (timers k tm)), k)
        | RT_TIMER_CTRL_OTHER _ \<Rightarrow> (No_out, k));
     Some (RT_EOK, out, k)
   }"

definition rt_timer_next_timeout_tick :: "kernel \<Rightarrow> u32" where
  "rt_timer_next_timeout_tick k = rt_timer_list_next_timeout LHard k"

definition rt_system_timer_init :: "kernel \<Rightarrow> kernel" where
  "rt_system_timer_init k = set_timer_list LHard [] k"

subsection \<open>Timer lists\<close>

definition timer_active :: "timerid \<Rightarrow> kernel \<Rightarrow> bool" where
  "timer_active tm k \<longleftrightarrow> timer_flag tm k AND RT_TIMER_FLAG_ACTIVATED \<noteq> 0"

text \<open>A timer is in at most one list, once, and every active timer is a timer object.  The
  built-in timer of a thread is a hard one-shot timer that ends the thread's wait.\<close>

definition timer_inv :: "kernel \<Rightarrow> bool" where
  "timer_inv k \<longleftrightarrow>
     (\<forall>l. distinct (timer_lists k l)) \<and>
     (\<forall>l l' tm. tm \<in> set (timer_lists k l) \<longrightarrow> tm \<in> set (timer_lists k l') \<longrightarrow> l = l') \<and>
     (\<forall>l tm. \<not> tmp_list l \<longrightarrow> tm \<in> set (timer_lists k l) \<longrightarrow> timer_active tm k)"

text \<open>Everything but the activation, the ticks and the lists of timers is untouched.\<close>

definition timer_frame :: "kernel \<Rightarrow> kernel \<Rightarrow> bool" where
  "timer_frame k k' \<longleftrightarrow>
     (\<exists>os ts ls. k' = k\<lparr>objs := os, timers := ts, timer_lists := ls\<rparr> \<and>
        (\<forall>x. (\<forall>tm. x \<noteq> OTimer tm) \<longrightarrow> os x = objs k x) \<and>
        (\<forall>x. obj_type (os x) = obj_type (objs k x) \<and> obj_name (os x) = obj_name (objs k x) \<and>
           obj_flag (os x) AND NOT RT_TIMER_FLAG_ACTIVATED =
             obj_flag (objs k x) AND NOT RT_TIMER_FLAG_ACTIVATED) \<and>
        (\<forall>tm. timeout_func (ts tm) = timeout_func (timers k tm) \<and>
           timer_parameter (ts tm) = timer_parameter (timers k tm)))"

lemma timer_frameI:
  assumes "k' = k\<lparr>objs := objs k', timers := timers k', timer_lists := timer_lists k'\<rparr>"
    and "\<And>x. (\<And>tm. x \<noteq> OTimer tm) \<Longrightarrow> objs k' x = objs k x"
    and "\<And>x. obj_type (objs k' x) = obj_type (objs k x)"
    and "\<And>x. obj_name (objs k' x) = obj_name (objs k x)"
    and "\<And>x. obj_flag (objs k' x) AND NOT RT_TIMER_FLAG_ACTIVATED =
             obj_flag (objs k x) AND NOT RT_TIMER_FLAG_ACTIVATED"
    and "\<And>tm. timeout_func (timers k' tm) = timeout_func (timers k tm)"
    and "\<And>tm. timer_parameter (timers k' tm) = timer_parameter (timers k tm)"
  shows "timer_frame k k'"
  unfolding timer_frame_def
  using assms
  by (intro exI [of _ "objs k'"] exI [of _ "timers k'"] exI [of _ "timer_lists k'"]) simp

lemma timer_frame_refl [simp]: "timer_frame k k"
  by (rule timer_frameI) simp_all

lemma timer_frameD:
  assumes "timer_frame k k'"
  shows "queues k' = queues k" "threads k' = threads k" "current_thread k' = current_thread k"
    "ready_priority_group k' = ready_priority_group k" "tick k' = tick k"
    "scheduler_lock_nest k' = scheduler_lock_nest k" "interrupt_nest k' = interrupt_nest k"
    "sems k' = sems k" "mutexes k' = mutexes k" "events k' = events k"
    "mailboxes k' = mailboxes k" "mqs k' = mqs k" "mempools k' = mempools k"
    "containers k' = containers k" "rt_object_get_type x k' = rt_object_get_type x k"
    "(\<And>tm. x \<noteq> OTimer tm) \<Longrightarrow> objs k' x = objs k x"
    "timer_thread k' = timer_thread k" "soft_timer_idle k' = soft_timer_idle k"
    "system_sem k' = system_sem k"
  using assms by (auto simp: timer_frame_def rt_object_get_type_def)

lemma sched_inv_timer_frame: "timer_frame k k' \<Longrightarrow> sched_inv k' = sched_inv k"
  by (rule sched_inv_cong) (simp_all add: timer_frameD)

lemma and_not_idem [simp]: "(w AND NOT m) AND NOT m = w AND NOT (m :: 'a :: len word)"
  by (simp add: and.assoc)

lemma or_and_not [simp]: "(w OR m) AND NOT m = w AND NOT (m :: 'a :: len word)"
  by (rule bit_word_eqI) (auto simp: bit_simps)

text \<open>Deactivating a timer and taking it out of its list.\<close>

lemma timer_frame_deactivate: "timer_frame k (deactivate tm (timer_remove tm k))"
  by (rule timer_frameI)
    (auto simp: deactivate_def timer_remove_def set_timer_flag_def timer_flag_def upd_obj_def)

lemma rt_timer_stop_cases:
  assumes "rt_timer_stop tm k = Some (r, k')"
  shows "(r = - RT_ERROR \<and> k' = k \<and> \<not> timer_active tm k) \<or>
    (r = RT_EOK \<and> k' = deactivate tm (timer_remove tm k) \<and> timer_active tm k)"
  using assms by (auto simp: rt_timer_stop_def timer_active_def split: if_splits)

lemma rt_timer_stop_frame:
  assumes "rt_timer_stop tm k = Some (r, k')"
  shows "timer_frame k k'"
  using rt_timer_stop_cases [OF assms] timer_frame_deactivate by auto

lemma rt_timer_stop_total: "is_timer tm k \<Longrightarrow> \<exists>r k'. rt_timer_stop tm k = Some (r, k')"
  by (simp add: rt_timer_stop_def)

text \<open>The lists after a removal.\<close>

lemma lists_deactivate [simp]:
  "timer_lists (deactivate tm (timer_remove tm k)) = (\<lambda>l. removeAll tm (timer_lists k l))"
  by (simp add: deactivate_def timer_remove_def set_timer_flag_def upd_obj_def)

lemma timers_deactivate [simp]: "timers (deactivate tm (timer_remove tm k)) = timers k"
  by (simp add: deactivate_def timer_remove_def set_timer_flag_def upd_obj_def)

lemma active_deactivate [simp]:
  "timer_active s (deactivate tm (timer_remove tm k)) \<longleftrightarrow> s \<noteq> tm \<and> timer_active s k"
proof -
  have "(w AND NOT RT_TIMER_FLAG_ACTIVATED) AND RT_TIMER_FLAG_ACTIVATED = 0" for w :: u8
    by (simp add: and.assoc)
  then show ?thesis
    by (auto simp: deactivate_def timer_remove_def set_timer_flag_def timer_flag_def upd_obj_def
        timer_active_def)
qed

lemma timer_inv_deactivate:
  assumes "timer_inv k" shows "timer_inv (deactivate tm (timer_remove tm k))"
  using assms by (auto simp: timer_inv_def distinct_removeAll)

lemma rt_timer_stop_inv:
  assumes "rt_timer_stop tm k = Some (r, k')" and "timer_inv k"
  shows "timer_inv k'" "\<not> tmp_list l \<Longrightarrow> timer_lists k' l = removeAll tm (timer_lists k l)"
    "timers k' = timers k" "\<not> timer_active tm k'"
    "s \<noteq> tm \<Longrightarrow> timer_active s k' = timer_active s k"
proof -
  show "timer_inv k'" "timers k' = timers k" "\<not> timer_active tm k'"
    "s \<noteq> tm \<Longrightarrow> timer_active s k' = timer_active s k"
    using rt_timer_stop_cases [OF assms(1)] timer_inv_deactivate [OF assms(2)] assms(2) by auto
  show "\<not> tmp_list l \<Longrightarrow> timer_lists k' l = removeAll tm (timer_lists k l)"
  proof (cases "timer_active tm k")
    case True
    then show "timer_lists k' l = removeAll tm (timer_lists k l)"
      using rt_timer_stop_cases [OF assms(1)] by auto
  next
    case False
    moreover assume "\<not> tmp_list l"
    ultimately have "tm \<notin> set (timer_lists k l)" using assms(2) by (auto simp: timer_inv_def)
    then show "timer_lists k' l = removeAll tm (timer_lists k l)"
      using rt_timer_stop_cases [OF assms(1)] False by auto
  qed
qed

end
