(* ===== verification/Thread.thy ===== *)
theory Thread
  imports TimerBase
begin

text \<open>
  Thread management, \<^verbatim>\<open>src/thread.c\<close>: initialisation, suspension (with the signal check of
  \<^verbatim>\<open>components/lwp/lwp_signal.c\<close>), resumption, yielding, the timeout of a wait and the change of
  priority.  Operations that need the semaphores and mutexes (exit, detach, delete, the complete
  \<open>rt_thread_control\<close>) are in \<open>ThreadExit\<close>, the sleeping calls in \<open>TimerRun\<close>.

  The fields of the structure that only the context switch and the processes use (the stack pointer,
  the user context, the sibling list) are not part of the model; the initial stack contents come
  from the architecture's \<^verbatim>\<open>rt_hw_stack_init\<close>.
\<close>

subsection \<open>Operations\<close>

definition is_thread :: "tid \<Rightarrow> kernel \<Rightarrow> bool" where
  "is_thread t k \<longleftrightarrow> rt_object_get_type (OThread t) k = RT_Object_Class_Thread"

definition thread_init_fields ::
  "tid \<Rightarrow> nat \<Rightarrow> nat \<Rightarrow> nat \<Rightarrow> u32 \<Rightarrow> u8 \<Rightarrow> u32 \<Rightarrow> kernel \<Rightarrow> (int \<times> kernel) option" where
  "thread_init_fields t entry parameter stack_start stack_sz priority tk k = do {
     let k = tlist_remove t k;
     let k = upd_thread t (\<lambda>th. th\<lparr>wakeup_func := None, thread_entry := entry,
               thread_parameter := parameter, stack_addr := stack_start, stack_size := stack_sz\<rparr>) k;
     rt_assert (unat priority < RT_THREAD_PRIORITY_MAX);
     let k = upd_thread t (\<lambda>th. th\<lparr>init_priority := priority, current_priority := priority,
               number_mask := 0, taken_object_list := [], pending_object := None,
               thread_init_tick := ucast tk, remaining_tick := ucast tk, run_tick := 0,
               error := RT_EOK, stat := RT_THREAD_INIT\<rparr>) k;
     let k = upd_obj (OThread t) (\<lambda>ob. ob\<lparr>obj_flag := 0\<rparr>) k;
     let k = upd_thread t (\<lambda>th. th\<lparr>cleanup := None\<rparr>) k;
     k \<leftarrow> rt_timer_init (ThreadTimer t) (obj_name (objs k (OThread t))) Rt_thread_timeout t 0
            RT_TIMER_FLAG_ONE_SHOT k;
     Some (RT_EOK, upd_thread t (\<lambda>th. th\<lparr>thread_signal := 0, thread_signal_mask := 0\<rparr>) k)
   }"

definition rt_thread_init ::
  "tid \<Rightarrow> u8 list \<Rightarrow> nat \<Rightarrow> nat \<Rightarrow> nat \<Rightarrow> u32 \<Rightarrow> u8 \<Rightarrow> u32 \<Rightarrow> kernel \<Rightarrow> (int \<times> kernel) option" where
  "rt_thread_init t name entry parameter stack_start stack_sz priority tk k = do {
     rt_assert (stack_start \<noteq> 0);
     k \<leftarrow> rt_object_init (OThread t) RT_Object_Class_Thread name k;
     thread_init_fields t entry parameter stack_start stack_sz priority tk k
   }"

text \<open>The two allocations of \<open>rt_thread_create\<close> are its first two arguments.\<close>

definition rt_thread_create ::
  "tid option \<Rightarrow> nat option \<Rightarrow> u8 list \<Rightarrow> nat \<Rightarrow> nat \<Rightarrow> u32 \<Rightarrow> u8 \<Rightarrow> u32 \<Rightarrow> kernel
     \<Rightarrow> (tid option \<times> kernel) option" where
  "rt_thread_create malloc stack name entry parameter stack_sz priority tk k = do {
     (r, k) \<leftarrow> rt_object_allocate (map_option OThread malloc) RT_Object_Class_Thread name k;
     case r of
       Some (OThread t) \<Rightarrow>
         (case stack of
            None \<Rightarrow> do { k \<leftarrow> rt_object_delete (OThread t) k; Some (None, k) }
          | Some stack_start \<Rightarrow> do {
              (_, k) \<leftarrow> thread_init_fields t entry parameter stack_start stack_sz priority tk k;
              Some (Some t, k)
            })
     | _ \<Rightarrow> Some (None, k)
   }"

text \<open>The signal check before a suspension: \<open>True\<close> when the thread may be suspended.
  \<^verbatim>\<open>SIGKILL\<close> is signal 9, bit 8 of the set.\<close>

definition lwp_thread_signal_check :: "rt_thread \<Rightarrow> u64" where
  "lwp_thread_signal_check th = thread_signal th AND NOT (thread_signal_mask th)"

definition lwp_sigismember :: "u64 \<Rightarrow> nat \<Rightarrow> bool" where
  "lwp_sigismember s sig = (1 AND drop_bit (sig - 1) s \<noteq> 0)"

definition lwp_suspend_sigcheck :: "tid \<Rightarrow> int \<Rightarrow> kernel \<Rightarrow> bool option" where
  "lwp_suspend_sigcheck t suspend_flag k =
     (let s = lwp_thread_signal_check (threads k t)
      in if suspend_flag = RT_INTERRUPTIBLE \<or> suspend_flag = RT_KILLABLE
         then Some (s = 0 \<or> (suspend_flag = RT_KILLABLE \<and> \<not> lwp_sigismember s 9))
         else if suspend_flag = RT_UNINTERRUPTIBLE then Some True
         else None)"

definition rt_thread_set_suspend_state :: "tid \<Rightarrow> int \<Rightarrow> kernel \<Rightarrow> kernel option" where
  "rt_thread_set_suspend_state t suspend_flag k = do {
     st \<leftarrow> (if suspend_flag = RT_INTERRUPTIBLE then Some RT_THREAD_SUSPEND_INTERRUPTIBLE
           else if suspend_flag = RT_KILLABLE then Some RT_THREAD_SUSPEND_KILLABLE
           else if suspend_flag = RT_UNINTERRUPTIBLE then Some RT_THREAD_SUSPEND_UNINTERRUPTIBLE
           else None);
     Some (upd_thread t (\<lambda>th. th\<lparr>stat := st OR (stat th AND NOT RT_THREAD_STAT_MASK)\<rparr>) k)
   }"

definition rt_thread_suspend_with_flag :: "tid \<Rightarrow> int \<Rightarrow> kernel \<Rightarrow> (int \<times> kernel) option" where
  "rt_thread_suspend_with_flag t suspend_flag k = do {
     rt_assert (is_thread t k);
     let st = stat_class (threads k t);
     if st \<noteq> RT_THREAD_READY \<and> st \<noteq> RT_THREAD_RUNNING then Some (- RT_ERROR, k)
     else do {
       rt_assert (st = RT_THREAD_RUNNING \<longrightarrow> rt_thread_self k = Some t);
       may_suspend \<leftarrow> lwp_suspend_sigcheck t suspend_flag k;
       if \<not> may_suspend then Some (- RT_EINTR, k)
       else do {
         k \<leftarrow> rt_schedule_remove_thread t k;
         k \<leftarrow> rt_thread_set_suspend_state t suspend_flag k;
         (_, k) \<leftarrow> rt_timer_stop (ThreadTimer t) k;
         Some (RT_EOK, k)
       }
     }
   }"

definition rt_thread_suspend :: "tid \<Rightarrow> kernel \<Rightarrow> (int \<times> kernel) option" where
  "rt_thread_suspend t k = rt_thread_suspend_with_flag t RT_UNINTERRUPTIBLE k"

definition rt_thread_resume :: "tid \<Rightarrow> kernel \<Rightarrow> (int \<times> kernel) option" where
  "rt_thread_resume t k = do {
     rt_assert (is_thread t k);
     if stat (threads k t) AND RT_THREAD_SUSPEND_MASK \<noteq> RT_THREAD_SUSPEND_MASK
     then Some (- RT_ERROR, k)
     else do {
       let k = tlist_remove t k;
       (_, k) \<leftarrow> rt_timer_stop (ThreadTimer t) k;
       let k = upd_thread t (\<lambda>th. th\<lparr>wakeup_func := None\<rparr>) k;
       k \<leftarrow> rt_schedule_insert_thread t k;
       Some (RT_EOK, k)
     }
   }"

text \<open>The wake-up function of a thread is a client's; its effect is the argument \<open>wakeup\<close>.\<close>

definition rt_thread_wakeup ::
  "(nat \<Rightarrow> tid \<Rightarrow> kernel \<Rightarrow> (int \<times> kernel) option) \<Rightarrow> tid \<Rightarrow> kernel \<Rightarrow> (int \<times> kernel) option" where
  "rt_thread_wakeup wakeup t k = do {
     rt_assert (is_thread t k);
     case wakeup_func (threads k t) of
       Some f \<Rightarrow> do {
         (ret, k) \<leftarrow> wakeup f t k;
         Some (ret, upd_thread t (\<lambda>th. th\<lparr>wakeup_func := None\<rparr>) k)
       }
     | None \<Rightarrow> rt_thread_resume t k
   }"

definition rt_thread_wakeup_set :: "tid \<Rightarrow> nat option \<Rightarrow> kernel \<Rightarrow> kernel option" where
  "rt_thread_wakeup_set t f k = do {
     rt_assert (is_thread t k);
     Some (upd_thread t (\<lambda>th. th\<lparr>wakeup_func := f\<rparr>) k)
   }"

definition rt_thread_startup :: "tid \<Rightarrow> kernel \<Rightarrow> (int \<times> kernel) option" where
  "rt_thread_startup t k = do {
     rt_assert (stat_class (threads k t) = RT_THREAD_INIT);
     rt_assert (is_thread t k);
     let k = upd_thread t (\<lambda>th. th\<lparr>current_priority := init_priority th\<rparr>) k;
     let k = upd_thread t (\<lambda>th. th\<lparr>number_mask := push_bit (unat (current_priority th)) 1\<rparr>) k;
     let k = upd_thread t (\<lambda>th. th\<lparr>stat := RT_THREAD_SUSPEND\<rparr>) k;
     (_, k) \<leftarrow> rt_thread_resume t k;
     k \<leftarrow> (if rt_thread_self k \<noteq> None then rt_schedule k else Some k);
     Some (RT_EOK, k)
   }"

definition rt_thread_yield :: "kernel \<Rightarrow> (int \<times> kernel) option" where
  "rt_thread_yield k = do {
     t \<leftarrow> rt_thread_self k;
     let k = upd_thread t (\<lambda>th. th\<lparr>remaining_tick := thread_init_tick th\<rparr>) k;
     let k = upd_thread t (\<lambda>th. th\<lparr>stat := stat th OR RT_THREAD_STAT_YIELD\<rparr>) k;
     k \<leftarrow> rt_schedule k;
     Some (RT_EOK, k)
   }"

text \<open>The branch of \<open>rt_thread_control\<close> for \<^verbatim>\<open>RT_THREAD_CTRL_CHANGE_PRIORITY\<close> (\<open>change_init\<close>) and
  \<^verbatim>\<open>RT_THREAD_CTRL_UPDATE_PRIORITY\<close>.\<close>

definition set_priority :: "tid \<Rightarrow> u8 \<Rightarrow> bool \<Rightarrow> kernel \<Rightarrow> kernel" where
  "set_priority t p change_init =
     upd_thread t (\<lambda>th. th\<lparr>current_priority := p,
        init_priority := (if change_init then p else init_priority th),
        number_mask := push_bit (unat p) 1\<rparr>)"

definition thread_control_priority :: "tid \<Rightarrow> u8 \<Rightarrow> bool \<Rightarrow> kernel \<Rightarrow> (int \<times> kernel) option" where
  "thread_control_priority t p change_init k = do {
     rt_assert (is_thread t k);
     k \<leftarrow> (if stat_class (threads k t) = RT_THREAD_READY
           then do {
             k \<leftarrow> rt_schedule_remove_thread t k;
             let k = set_priority t p change_init k;
             rt_schedule_insert_thread t k
           }
           else Some (set_priority t p change_init k));
     Some (RT_EOK, k)
   }"

definition rt_thread_timeout :: "tid \<Rightarrow> kernel \<Rightarrow> kernel option" where
  "rt_thread_timeout t k = do {
     rt_assert (stat (threads k t) AND RT_THREAD_SUSPEND_MASK = RT_THREAD_SUSPEND_MASK);
     rt_assert (is_thread t k);
     let k = upd_thread t (\<lambda>th. th\<lparr>error := - RT_ETIMEOUT\<rparr>) k;
     let k = tlist_remove t k;
     k \<leftarrow> rt_schedule_insert_thread t k;
     rt_schedule k
   }"

definition rt_thread_find :: "u8 list \<Rightarrow> kernel \<Rightarrow> (oid option \<times> kernel) option" where
  "rt_thread_find name k = do {
     let k = (if rt_thread_self k \<noteq> None then rt_enter_critical k else k);
     information \<leftarrow> rt_object_get_information RT_Object_Class_Thread;
     r \<leftarrow> find_by_name (objs k) name (containers k information);
     k \<leftarrow> (if rt_thread_self k \<noteq> None then rt_exit_critical k else Some k);
     Some (r, k)
   }"

subsection \<open>The invariant of threads\<close>

text \<open>A started thread is a registered thread object, and so is its timer, which is a hard one-shot
  timer whose function ends the thread's wait.\<close>

definition thread_obj_ok :: "tid \<Rightarrow> kernel \<Rightarrow> bool" where
  "thread_obj_ok t k \<longleftrightarrow>
     is_thread t k \<and> is_timer (ThreadTimer t) k \<and>
     timer_flag (ThreadTimer t) k AND NOT RT_TIMER_FLAG_ACTIVATED = 0 \<and>
     timeout_func (timers k (ThreadTimer t)) = Rt_thread_timeout \<and>
     timer_parameter (timers k (ThreadTimer t)) = t"

definition thread_objs_ok :: "kernel \<Rightarrow> bool" where
  "thread_objs_ok k \<longleftrightarrow> (\<forall>t. started (threads k t) \<longrightarrow> thread_obj_ok t k)"

text \<open>The timer of a thread is only listed while the thread is suspended.\<close>

definition wait_timers_ok :: "kernel \<Rightarrow> bool" where
  "wait_timers_ok k \<longleftrightarrow>
     (\<forall>l t. \<not> tmp_list l \<longrightarrow> ThreadTimer t \<in> set (timer_lists k l) \<longrightarrow>
        suspended (threads k t) \<and> l = LHard)"

definition kernel_inv :: "kernel \<Rightarrow> bool" where
  "kernel_inv k \<longleftrightarrow> sched_inv k \<and> thread_objs_ok k \<and> timer_inv k \<and> wait_timers_ok k"

text \<open>What the thread operations leave alone.\<close>

definition ipc_frame :: "kernel \<Rightarrow> kernel \<Rightarrow> bool" where
  "ipc_frame k k' \<longleftrightarrow>
     sems k' = sems k \<and> mutexes k' = mutexes k \<and> events k' = events k \<and>
     mailboxes k' = mailboxes k \<and> mqs k' = mqs k \<and> mempools k' = mempools k \<and>
     customs k' = customs k \<and> containers k' = containers k \<and> tick k' = tick k \<and>
     interrupt_nest k' = interrupt_nest k \<and> system_sem k' = system_sem k \<and>
     timer_thread k' = timer_thread k \<and> soft_timer_idle k' = soft_timer_idle k \<and>
     scheduler_lock_nest k' = scheduler_lock_nest k \<and>
     (\<forall>x. obj_type (objs k' x) = obj_type (objs k x) \<and> obj_name (objs k' x) = obj_name (objs k x) \<and>
        obj_flag (objs k' x) AND NOT RT_TIMER_FLAG_ACTIVATED =
          obj_flag (objs k x) AND NOT RT_TIMER_FLAG_ACTIVATED) \<and>
     (\<forall>x. (\<forall>tm. x \<noteq> OTimer tm) \<longrightarrow> objs k' x = objs k x) \<and>
     (\<forall>tm. timeout_func (timers k' tm) = timeout_func (timers k tm) \<and>
        timer_parameter (timers k' tm) = timer_parameter (timers k tm))"

lemma ipc_frame_refl [simp]: "ipc_frame k k"
  by (simp add: ipc_frame_def)

lemma ipc_frame_trans: "ipc_frame a b \<Longrightarrow> ipc_frame b c \<Longrightarrow> ipc_frame a c"
  by (simp add: ipc_frame_def)

lemma ipc_frameD:
  assumes "ipc_frame k k'"
  shows "sems k' = sems k" "mutexes k' = mutexes k" "events k' = events k"
    "mailboxes k' = mailboxes k" "mqs k' = mqs k" "mempools k' = mempools k"
    "tick k' = tick k" "interrupt_nest k' = interrupt_nest k"
    "scheduler_lock_nest k' = scheduler_lock_nest k" "system_sem k' = system_sem k"
    "is_thread t k' = is_thread t k" "is_timer tm k' = is_timer tm k"
    "rt_object_get_type x k' = rt_object_get_type x k"
    "rt_object_is_systemobject x k' = rt_object_is_systemobject x k"
    "(\<And>tm. x \<noteq> OTimer tm) \<Longrightarrow> objs k' x = objs k x"
    "timer_thread k' = timer_thread k" "soft_timer_idle k' = soft_timer_idle k"
    "containers k' = containers k"
  using assms
  by (auto simp: ipc_frame_def is_thread_def is_timer_def rt_object_get_type_def
      rt_object_is_systemobject_def)

lemma ipc_frame_sched:
  "sched_frame k k' \<Longrightarrow> scheduler_lock_nest k' = scheduler_lock_nest k \<Longrightarrow> ipc_frame k k'"
  by (simp add: sched_frame_def ipc_frame_def)

lemma ipc_frame_timer: "timer_frame k k' \<Longrightarrow> ipc_frame k k'"
  by (auto simp: timer_frame_def ipc_frame_def)

lemma ipc_frame_upd_thread [simp]: "ipc_frame k (upd_thread t f k)"
  by (simp add: ipc_frame_def upd_thread_def)

lemma ipc_frame_tlist [simp]: "ipc_frame k (tlist_remove t k)" "ipc_frame k (set_queue q ts k)"
  by (simp_all add: ipc_frame_def tlist_remove_def set_queue_def)

lemma ipc_frame_schedule: "rt_schedule k = Some k' \<Longrightarrow> sched_frame k k' \<Longrightarrow> ipc_frame k k'"
  by (simp add: ipc_frame_sched rt_schedule_lock)

lemma ipc_frame_insert: "rt_schedule_insert_thread t k = Some k' \<Longrightarrow> ipc_frame k k'"
  by (simp add: ipc_frame_sched rt_schedule_insert_thread_frame lock_insert)

lemma ipc_frame_remove: "rt_schedule_remove_thread t k = Some k' \<Longrightarrow> ipc_frame k k'"
  by (auto simp: rt_schedule_remove_thread_def tlist_remove_def ipc_frame_def Let_def split: if_splits)

lemma started_cases: "started th \<longleftrightarrow> stat_class th \<in> {RT_THREAD_READY, RT_THREAD_RUNNING} \<or> suspended th"
proof -
  define n where "n = unat (stat_class th)"
  have "stat_class th = take_bit 3 (stat th)"
    by (simp add: stat_class_def rt_defs take_bit_eq_mask mask_numeral)
  then have "n < 8" by (simp add: n_def unsigned_take_bit_eq take_bit_nat_eq_self_iff
        take_bit_nat_less_exp [where n = 3, simplified])
  moreover have "stat_class th = word_of_nat n" by (simp add: n_def)
  ultimately have "stat_class th = 0 \<or> stat_class th = 1 \<or> stat_class th = 2 \<or> stat_class th = 3 \<or>
      stat_class th = 4 \<or> stat_class th = 5 \<or> stat_class th = 6 \<or> stat_class th = 7"
    by (auto simp: less_Suc_eq numeral_eq_Suc)
  then show ?thesis
    by (elim disjE) (simp_all add: started_def suspended_cases rt_defs)
qed

lemma not_suspended_class: "stat_class th \<in> {RT_THREAD_READY, RT_THREAD_RUNNING} \<Longrightarrow> \<not> suspended th"
  by (auto simp: suspended_cases rt_defs)

text \<open>A thread in transit gets a state and leaves the transit.\<close>

lemma suspended_set:
  "st \<in> {RT_THREAD_SUSPEND_INTERRUPTIBLE, RT_THREAD_SUSPEND_KILLABLE,
     RT_THREAD_SUSPEND_UNINTERRUPTIBLE} \<Longrightarrow>
   suspended (th\<lparr>stat := st OR (s AND NOT RT_THREAD_STAT_MASK)\<rparr>)"
  by (auto simp: suspended_cases stat_class_def) (simp_all add: rt_defs)

lemma thread_obj_ok_frame:
  assumes f: "ipc_frame k k'" shows "thread_obj_ok t k' = thread_obj_ok t k"
proof -
  have "timer_flag tm k' AND NOT RT_TIMER_FLAG_ACTIVATED = timer_flag tm k AND NOT RT_TIMER_FLAG_ACTIVATED"
    "timeout_func (timers k' tm) = timeout_func (timers k tm)"
    "timer_parameter (timers k' tm) = timer_parameter (timers k tm)" for tm
    using f by (auto simp: ipc_frame_def timer_flag_def)
  then show ?thesis by (simp add: thread_obj_ok_def ipc_frameD [OF f])
qed

lemma thread_objs_okI:
  assumes "thread_objs_ok k" and f: "ipc_frame k k'"
    and "\<And>t. started (threads k' t) \<Longrightarrow> started (threads k t)"
  shows "thread_objs_ok k'"
  using assms by (simp add: thread_objs_ok_def thread_obj_ok_frame [OF f])

definition flag_ok :: "int \<Rightarrow> bool" where
  "flag_ok f \<longleftrightarrow> f = RT_INTERRUPTIBLE \<or> f = RT_KILLABLE \<or> f = RT_UNINTERRUPTIBLE"

text \<open>The outcome of a suspension that takes place.\<close>

definition suspends :: "tid \<Rightarrow> kernel \<Rightarrow> kernel \<Rightarrow> bool" where
  "suspends t k k' \<longleftrightarrow>
     kernel_inv k' \<and> ipc_frame k k' \<and> current_thread k' = current_thread k \<and>
     unqueued t k' \<and> suspended (threads k' t) \<and> \<not> timer_active (ThreadTimer t) k' \<and>
     (\<exists>st. threads k' = (threads k)(t := (threads k t)\<lparr>stat := st\<rparr>)) \<and>
     (\<forall>q. \<not> ready_queue q \<longrightarrow> queues k' q = queues k q)"

lemma lwp_suspend_sigcheck_total:
  "flag_ok f \<Longrightarrow> \<exists>b. lwp_suspend_sigcheck t f k = Some b"
  by (auto simp: flag_ok_def lwp_suspend_sigcheck_def Let_def rt_defs)

lemma timer_inv_cong:
  "timer_lists k' = timer_lists k \<Longrightarrow> objs k' = objs k \<Longrightarrow> timer_inv k' = timer_inv k"
  by (simp add: timer_inv_def timer_active_def timer_flag_def)

lemma timer_lists_upd_thread [simp]:
  "timer_lists (upd_thread t f k) = timer_lists k" "objs (upd_thread t f k) = objs k"
  by (simp_all add: upd_thread_def)

lemma remove_keeps:
  "rt_schedule_remove_thread t k = Some k' \<Longrightarrow> timer_lists k' = timer_lists k \<and> objs k' = objs k"
  by (auto simp: rt_schedule_remove_thread_def tlist_remove_def Let_def split: if_splits)

lemma is_timer_cong: "objs k' = objs k \<Longrightarrow> is_timer tm k' = is_timer tm k"
  by (simp add: is_timer_def rt_object_get_type_def)

lemma rt_thread_set_suspend_state_eq:
  assumes "flag_ok f"
  shows "\<exists>st. rt_thread_set_suspend_state t f k = Some
      (upd_thread t (\<lambda>th. th\<lparr>stat := st OR (stat th AND NOT RT_THREAD_STAT_MASK)\<rparr>) k)
    \<and> suspended ((threads k t)\<lparr>stat := st OR (stat (threads k t) AND NOT RT_THREAD_STAT_MASK)\<rparr>)"
proof -
  define st where "st = (if f = RT_INTERRUPTIBLE then RT_THREAD_SUSPEND_INTERRUPTIBLE
      else if f = RT_KILLABLE then RT_THREAD_SUSPEND_KILLABLE
      else RT_THREAD_SUSPEND_UNINTERRUPTIBLE)"
  have "rt_thread_set_suspend_state t f k = Some
      (upd_thread t (\<lambda>th. th\<lparr>stat := st OR (stat th AND NOT RT_THREAD_STAT_MASK)\<rparr>) k)"
    using assms by (auto simp: flag_ok_def rt_thread_set_suspend_state_def st_def)
  moreover have "st \<in> {RT_THREAD_SUSPEND_INTERRUPTIBLE, RT_THREAD_SUSPEND_KILLABLE,
      RT_THREAD_SUSPEND_UNINTERRUPTIBLE}"
    by (simp add: st_def)
  ultimately show ?thesis using suspended_set by blast
qed

lemma rt_thread_suspend_ok:
  assumes inv: "kernel_inv k" and cls: "stat_class (threads k t) \<in> {RT_THREAD_READY, RT_THREAD_RUNNING}"
    and f: "flag_ok f" and sig: "lwp_suspend_sigcheck t f k = Some True"
  shows "\<exists>k'. rt_thread_suspend_with_flag t f k = Some (RT_EOK, k') \<and> suspends t k k'"
proof -
  have core: "core_inv {} k" and run: "running_inv k" and objs: "thread_objs_ok k"
    and tinv: "timer_inv k" and wait: "wait_timers_ok k"
    using inv by (auto simp: kernel_inv_def sched_inv_def)
  have st: "started (threads k t)" using cls by (auto simp: started_cases)
  have prio: "prio_ok (threads k t)" using core_prio [OF core] st by simp
  have obj: "is_thread t k" "is_timer (ThreadTimer t) k"
    using objs st by (auto simp: thread_objs_ok_def thread_obj_ok_def)
  obtain k1 where k1: "rt_schedule_remove_thread t k = Some k1" "core_inv {t} k1"
      "threads k1 = threads k" "queues k1 = (\<lambda>q. removeAll t (queues k q))"
      "current_thread k1 = current_thread k"
    using rt_schedule_remove_thread_core [OF core prio] by auto
  obtain s where s: "rt_thread_set_suspend_state t f k1 = Some
      (upd_thread t (\<lambda>th. th\<lparr>stat := s OR (stat th AND NOT RT_THREAD_STAT_MASK)\<rparr>) k1)"
      "suspended ((threads k1 t)\<lparr>stat := s OR (stat (threads k1 t) AND NOT RT_THREAD_STAT_MASK)\<rparr>)"
    using rt_thread_set_suspend_state_eq [OF f] by blast
  define k2 where "k2 = upd_thread t (\<lambda>th. th\<lparr>stat := s OR (stat th AND NOT RT_THREAD_STAT_MASK)\<rparr>) k1"
  have keep: "timer_lists k2 = timer_lists k" "objs k2 = objs k"
    using remove_keeps [OF k1(1)] by (simp_all add: k2_def)
  have "is_timer (ThreadTimer t) k2" using obj is_timer_cong [OF keep(2)] by simp
  then obtain r k3 where k3: "rt_timer_stop (ThreadTimer t) k2 = Some (r, k3)"
    using rt_timer_stop_total by blast
  have fr: "timer_frame k2 k3" using rt_timer_stop_frame [OF k3] .
  have thr: "threads k3 = (threads k)(t := (threads k t)\<lparr>stat := s OR (stat (threads k t) AND NOT RT_THREAD_STAT_MASK)\<rparr>)"
    using timer_frameD(2) [OF fr] k1(3) by (simp add: k2_def threads_upd_thread)
  have susp: "suspended (threads k3 t)" using s(2) k1(3) thr by simp
  have core2: "core_inv ({t} - {t}) k2"
    unfolding k2_def
  proof (intro core_inv_leave_transit core_inv_transit_upd k1(2))
    show "stat_class (threads (upd_thread t (\<lambda>th. th\<lparr>stat := s OR (stat th AND NOT RT_THREAD_STAT_MASK)\<rparr>) k1) t)
        \<noteq> RT_THREAD_READY"
      using suspended_class(1) [OF s(2)] by (simp add: threads_upd_thread)
  qed (use prio k1(3) in \<open>auto simp: threads_upd_thread prio_ok_def\<close>)
  have "sched_inv k3"
  proof -
    have "core_inv {} k3"
      using core2 core_inv_cong [of k3 k2] timer_frameD(1,2,4) [OF fr] by simp
    moreover have "running_inv k3"
      using run susp suspended_class [OF susp] timer_frameD(3) [OF fr] k1(5) thr
      by (auto simp: running_inv_def k2_def split: if_splits)
    ultimately show ?thesis by (simp add: sched_inv_def)
  qed
  moreover have frame: "ipc_frame k k3"
    using ipc_frame_trans [OF ipc_frame_remove [OF k1(1)] ipc_frame_trans [OF _ ipc_frame_timer [OF fr]]]
    by (simp add: k2_def)
  moreover have "thread_objs_ok k3"
    by (rule thread_objs_okI [OF objs frame]) (use thr st in \<open>auto split: if_splits\<close>)
  moreover have tinv2: "timer_inv k2" using tinv timer_inv_cong [OF keep] by simp
  then have "timer_inv k3" using rt_timer_stop_inv(1) [OF k3] by blast
  moreover have "wait_timers_ok k3"
    using wait rt_timer_stop_inv(2) [OF k3 tinv2] thr keep(1)
    by (auto simp: wait_timers_ok_def)
  moreover have "unqueued t k3"
    using k1(4) timer_frameD(1) [OF fr] by (simp add: unqueued_def k2_def)
  moreover have "queues k3 q = queues k q" if "\<not> ready_queue q" for q
  proof -
    have "t \<notin> set (queues k q)"
      using core_waiting [OF core, of t q] core_defunct [OF core, of t] suspended_class that cls
      by force
    then show ?thesis using k1(4) timer_frameD(1) [OF fr] by (simp add: k2_def)
  qed
  ultimately have "suspends t k k3"
    using susp timer_frameD(3) [OF fr] k1(5) rt_timer_stop_inv(4) [OF k3 tinv2] thr
    by (auto simp: suspends_def kernel_inv_def k2_def)
  moreover have "rt_thread_suspend_with_flag t f k = Some (RT_EOK, k3)"
    using obj cls sig k1(1) s(1) k3 run
    by (auto simp: rt_thread_suspend_with_flag_def rt_thread_self_def running_inv_def k2_def)
  ultimately show ?thesis by blast
qed

text \<open>Every suspension of a started thread returns; it either takes place or changes nothing.\<close>

lemma rt_thread_suspend_total:
  assumes inv: "kernel_inv k" and st: "started (threads k t)" and f: "flag_ok f"
  shows "\<exists>r k'. rt_thread_suspend_with_flag t f k = Some (r, k') \<and>
    (r = RT_EOK \<longrightarrow> suspends t k k') \<and> (r \<noteq> RT_EOK \<longrightarrow> k' = k \<and> (r = - RT_EINTR \<or> r = - RT_ERROR))"
proof -
  have obj: "is_thread t k" using inv st by (auto simp: kernel_inv_def thread_objs_ok_def thread_obj_ok_def)
  have run: "running_inv k" using inv by (simp add: kernel_inv_def sched_inv_def)
  obtain b where b: "lwp_suspend_sigcheck t f k = Some b"
    using lwp_suspend_sigcheck_total [OF f] by blast
  show ?thesis
  proof (cases "stat_class (threads k t) \<in> {RT_THREAD_READY, RT_THREAD_RUNNING} \<and> b")
    case True
    then show ?thesis using rt_thread_suspend_ok [OF inv _ f, of t] b by auto
  next
    case False
    have "rt_thread_suspend_with_flag t f k =
        Some (if stat_class (threads k t) \<in> {RT_THREAD_READY, RT_THREAD_RUNNING}
              then - RT_EINTR else - RT_ERROR, k)"
      using obj b run False
      by (auto simp: rt_thread_suspend_with_flag_def rt_thread_self_def running_inv_def Let_def)
    then show ?thesis by (simp add: rt_errno_defs)
  qed
qed

subsection \<open>Waking a thread\<close>

lemma core_inv_unlink_suspended:
  assumes inv: "core_inv {} k" and susp: "suspended (threads k t)"
  shows "core_inv {t} (tlist_remove t k)"
proof -
  have ready: "t \<notin> set (queues k (QReady p))" for p
    using core_ready [OF inv, of t p] suspended_class [OF susp] by simp
  have same: "threads (tlist_remove t k) = threads k"
    "ready_priority_group (tlist_remove t k) = ready_priority_group k"
    by (simp_all add: tlist_remove_def)
  show ?thesis
  proof (rule core_invI)
    fix p assume "p < RT_THREAD_PRIORITY_MAX"
    then show "bit (ready_priority_group (tlist_remove t k)) p =
        (queues (tlist_remove t k) (QReady p) \<noteq> [])"
      using core_bitmap [OF inv, of p] ready [of p] by (simp add: same)
  next
    fix q q' s assume "s \<in> set (queues (tlist_remove t k) q)" "s \<in> set (queues (tlist_remove t k) q')"
    then show "q = q'" using core_one_queue [OF inv, of s q q'] by simp
  qed (use core_distinct [OF inv] core_ready [OF inv] core_prio [OF inv] core_waiting [OF inv]
        core_defunct [OF inv] in \<open>auto simp: same distinct_removeAll unqueued_def\<close>)
qed

text \<open>A suspended thread leaves the list it waits in and becomes ready (or running again, when it
  is still the current thread).\<close>

definition wakes :: "tid \<Rightarrow> kernel \<Rightarrow> kernel \<Rightarrow> bool" where
  "wakes t k k' \<longleftrightarrow>
     kernel_inv k' \<and> ipc_frame k k' \<and> current_thread k' = current_thread k \<and>
     stat_class (threads k' t) =
       (if current_thread k = Some t then RT_THREAD_RUNNING else RT_THREAD_READY) \<and>
     (\<exists>st w. threads k' = (threads k)(t := (threads k t)\<lparr>wakeup_func := w, stat := st\<rparr>)) \<and>
     (\<forall>q. \<not> ready_queue q \<longrightarrow> queues k' q = removeAll t (queues k q))"

lemma insert_keeps:
  "rt_schedule_insert_thread t k = Some k' \<Longrightarrow> timer_lists k' = timer_lists k \<and> objs k' = objs k"
  using sched_frameD(1,6) [OF rt_schedule_insert_thread_frame] by blast

lemma wake_core:
  assumes inv: "kernel_inv k" and susp: "suspended (threads k t)"
    and k1: "core_inv {t} k1" "threads k1 = (threads k)(t := (threads k t)\<lparr>wakeup_func := w\<rparr>)"
      "current_thread k1 = current_thread k" "\<And>q. queues k1 q = removeAll t (queues k q)"
    and frame: "ipc_frame k k1" and tinv: "timer_inv k1"
    and lists: "\<And>l s. \<not> tmp_list l \<Longrightarrow> s \<in> set (timer_lists k1 l) \<Longrightarrow> s \<in> set (timer_lists k l) \<and> s \<noteq> ThreadTimer t"
  shows "\<exists>k'. rt_schedule_insert_thread t k1 = Some k' \<and> wakes t k k'
    \<and> timer_lists k' = timer_lists k1 \<and> objs k' = objs k1"
proof -
  have core: "core_inv {} k" and run: "running_inv k" and objs: "thread_objs_ok k"
    and wait: "wait_timers_ok k"
    using inv by (auto simp: kernel_inv_def sched_inv_def)
  have st: "started (threads k t)" using susp by (simp add: started_cases)
  have prio: "prio_ok (threads k1 t)" using core_prio [OF core] st k1(2) by (simp add: prio_ok_def)
  from rt_schedule_insert_thread_core [OF k1(1) _ prio]
  obtain k' s where k': "rt_schedule_insert_thread t k1 = Some k'" "core_inv ({t} - {t}) k'"
      "current_thread k' = current_thread k1" "threads k' = (threads k1)(t := (threads k1 t)\<lparr>stat := s\<rparr>)"
      "stat_class ((threads k1 t)\<lparr>stat := s\<rparr>) =
         (if current_thread k1 = Some t then RT_THREAD_RUNNING else RT_THREAD_READY)"
      "\<forall>q. \<not> ready_queue q \<longrightarrow> queues k' q = queues k1 q"
    by blast
  have thr: "threads k' = (threads k)(t := (threads k t)\<lparr>wakeup_func := w, stat := s\<rparr>)"
    using k'(4) k1(2) by simp
  have cls: "stat_class (threads k' t) =
      (if current_thread k = Some t then RT_THREAD_RUNNING else RT_THREAD_READY)"
    using k'(4,5) k1(3) by simp
  have fr: "ipc_frame k k'" using ipc_frame_trans [OF frame ipc_frame_insert [OF k'(1)]] .
  have keep: "timer_lists k' = timer_lists k1" "objs k' = objs k1" using insert_keeps [OF k'(1)] by auto
  have "running_inv k'"
    using run cls thr k'(3) k1(3) suspended_class [OF susp]
    by (auto simp: running_inv_def split: if_splits)
  moreover have "thread_objs_ok k'"
    by (rule thread_objs_okI [OF objs fr]) (use thr st in \<open>auto split: if_splits\<close>)
  moreover have "timer_inv k'" using tinv timer_inv_cong [OF keep] by simp
  moreover have "wait_timers_ok k'"
    unfolding wait_timers_ok_def
  proof (intro allI impI)
    fix l u assume l: "\<not> tmp_list l" and u: "ThreadTimer u \<in> set (timer_lists k' l)"
    then have "u \<noteq> t" "ThreadTimer u \<in> set (timer_lists k l)" using lists [OF l] keep(1) by auto
    then show "suspended (threads k' u) \<and> l = LHard" using wait l thr by (auto simp: wait_timers_ok_def)
  qed
  ultimately have "wakes t k k'"
    using k'(2,3,6) k1(3,4) fr cls thr
    by (auto simp: wakes_def kernel_inv_def sched_inv_def)
  with k'(1) keep show ?thesis by blast
qed

lemma rt_thread_resume_ok:
  assumes inv: "kernel_inv k" and susp: "suspended (threads k t)"
  shows "\<exists>k'. rt_thread_resume t k = Some (RT_EOK, k') \<and> wakes t k k'
    \<and> \<not> timer_active (ThreadTimer t) k'"
proof -
  have core: "core_inv {} k" and objs: "thread_objs_ok k" and tinv: "timer_inv k"
    using inv by (auto simp: kernel_inv_def sched_inv_def)
  have obj: "is_thread t k" "is_timer (ThreadTimer t) k"
    using objs susp by (auto simp: thread_objs_ok_def thread_obj_ok_def started_cases)
  define k1 where "k1 = tlist_remove t k"
  have keep: "timer_lists k1 = timer_lists k" "objs k1 = objs k" by (simp_all add: k1_def tlist_remove_def)
  obtain r k2 where k2: "rt_timer_stop (ThreadTimer t) k1 = Some (r, k2)"
    using rt_timer_stop_total obj is_timer_cong [OF keep(2)] by blast
  have tinv1: "timer_inv k1" using tinv timer_inv_cong [OF keep] by simp
  have fr: "timer_frame k1 k2" using rt_timer_stop_frame [OF k2] .
  define k3 where "k3 = upd_thread t (\<lambda>th. th\<lparr>wakeup_func := None\<rparr>) k2"
  have core1: "core_inv {t} k1" unfolding k1_def by (rule core_inv_unlink_suspended [OF core susp])
  then have core3: "core_inv {t} k3"
    unfolding k3_def using core_inv_cong [of k2 k1] timer_frameD(1,2,4) [OF fr]
    by (intro core_inv_transit_upd) simp_all
  have "\<exists>k'. rt_schedule_insert_thread t k3 = Some k' \<and> wakes t k k'
      \<and> timer_lists k' = timer_lists k3 \<and> objs k' = objs k3"
  proof (rule wake_core [OF inv susp core3, of None])
    show "threads k3 = (threads k)(t := (threads k t)\<lparr>wakeup_func := None\<rparr>)"
      using timer_frameD(2) [OF fr] by (simp add: k3_def k1_def threads_upd_thread tlist_remove_def)
    show "current_thread k3 = current_thread k" "queues k3 q = removeAll t (queues k q)" for q
      using timer_frameD(1,3) [OF fr] by (simp_all add: k3_def k1_def) (simp add: tlist_remove_def)
    show "ipc_frame k k3"
      using ipc_frame_trans [OF _ ipc_frame_trans [OF ipc_frame_timer [OF fr] ipc_frame_upd_thread]]
      by (simp add: k3_def k1_def)
    show "timer_inv k3"
      using rt_timer_stop_inv(1) [OF k2 tinv1] timer_inv_cong [of k3 k2] by (simp add: k3_def)
    show "s \<in> set (timer_lists k l) \<and> s \<noteq> ThreadTimer t"
      if "\<not> tmp_list l" "s \<in> set (timer_lists k3 l)" for l s
      using that rt_timer_stop_inv(2) [OF k2 tinv1, of l] keep by (simp add: k3_def)
  qed
  then obtain k' where k': "rt_schedule_insert_thread t k3 = Some k'" "wakes t k k'" "objs k' = objs k3"
    by blast
  have "rt_thread_resume t k = Some (RT_EOK, k')"
    using obj susp k2 k'(1) by (simp add: rt_thread_resume_def suspended_def k1_def k3_def)
  moreover have "\<not> timer_active (ThreadTimer t) k'"
    using rt_timer_stop_inv(4) [OF k2 tinv1] k'(3) by (simp add: timer_active_def timer_flag_def k3_def)
  ultimately show ?thesis using k'(2) by blast
qed

subsection \<open>Scheduling under the invariant of threads\<close>

lemma kernel_inv_sched:
  assumes inv: "kernel_inv k" and sched: "sched_inv k'" and frame: "ipc_frame k k'"
    and keep: "timer_lists k' = timer_lists k" "objs k' = objs k"
    and same: "\<And>t. stat_class (threads k t) \<notin> {RT_THREAD_READY, RT_THREAD_RUNNING} \<Longrightarrow>
        suspended (threads k' t) = suspended (threads k t) \<and>
        (started (threads k' t) \<longrightarrow> started (threads k t) \<or> thread_obj_ok t k)"
  shows "kernel_inv k'"
proof -
  have "thread_objs_ok k'"
    unfolding thread_objs_ok_def
  proof (intro allI impI)
    fix t assume "started (threads k' t)"
    then have "started (threads k t) \<or> thread_obj_ok t k"
      using same [of t] by (auto simp: started_cases [of "threads k t"])
    then show "thread_obj_ok t k'"
      using inv by (auto simp: kernel_inv_def thread_objs_ok_def thread_obj_ok_frame [OF frame])
  qed
  moreover have "timer_inv k'" using inv timer_inv_cong [OF keep] by (simp add: kernel_inv_def)
  moreover have "wait_timers_ok k'"
    unfolding wait_timers_ok_def
  proof (intro allI impI)
    fix l t assume "\<not> tmp_list l" "ThreadTimer t \<in> set (timer_lists k' l)"
    then have t: "suspended (threads k t)" "l = LHard"
      using inv keep(1) by (auto simp: kernel_inv_def wait_timers_ok_def)
    then have "suspended (threads k' t)" using same [of t] suspended_class by auto
    with t show "suspended (threads k' t) \<and> l = LHard" by simp
  qed
  ultimately show ?thesis using sched by (simp add: kernel_inv_def)
qed

lemma rt_schedule_ok:
  assumes inv: "kernel_inv k" and cur: "current_thread k = Some c"
  shows "\<exists>k' c'. rt_schedule k = Some k' \<and> kernel_inv k' \<and> sched_frame k k' \<and> ipc_frame k k'
    \<and> current_thread k' = Some c'
    \<and> (\<forall>t. stat_class (threads k t) \<notin> {RT_THREAD_READY, RT_THREAD_RUNNING} \<longrightarrow>
         threads k' t = threads k t)
    \<and> (\<forall>t. stat_class (threads k t) \<in> {RT_THREAD_READY, RT_THREAD_RUNNING} \<longrightarrow>
         stat_class (threads k' t) \<in> {RT_THREAD_READY, RT_THREAD_RUNNING})
    \<and> (scheduler_lock_nest k = 0 \<and>
         (ready_priority_group k \<noteq> 0 \<or> stat_class (threads k c) = RT_THREAD_RUNNING) \<longrightarrow>
         highest_running c' k')
    \<and> (scheduler_lock_nest k \<noteq> 0 \<or> ready_priority_group k = 0 \<longrightarrow> k' = k)"
proof -
  have "sched_inv k" using inv by (simp add: kernel_inv_def)
  from rt_schedule_spec [OF this cur] obtain k' c' where k': "rt_schedule k = Some k'" "sched_inv k'"
      "sched_frame k k'" "current_thread k' = Some c'"
      "\<forall>t. stat_class (threads k t) \<notin> {RT_THREAD_READY, RT_THREAD_RUNNING} \<longrightarrow>
         threads k' t = threads k t"
      "\<forall>t. stat_class (threads k t) \<in> {RT_THREAD_READY, RT_THREAD_RUNNING} \<longrightarrow>
         stat_class (threads k' t) \<in> {RT_THREAD_READY, RT_THREAD_RUNNING}"
      "scheduler_lock_nest k = 0 \<and>
         (ready_priority_group k \<noteq> 0 \<or> stat_class (threads k c) = RT_THREAD_RUNNING) \<longrightarrow>
         highest_running c' k'"
      "scheduler_lock_nest k \<noteq> 0 \<or> ready_priority_group k = 0 \<longrightarrow> k' = k"
    by blast
  have frame: "ipc_frame k k'" using ipc_frame_schedule [OF k'(1,3)] .
  have "kernel_inv k'"
    by (rule kernel_inv_sched [OF inv k'(2) frame])
      (use k'(5) sched_frameD(1,6) [OF k'(3)] in auto)
  with k' frame show ?thesis by blast
qed

text \<open>What an operation on thread \<open>t\<close> leaves of all threads: the attributes that the scheduler and the
  wake-ups do not touch; and every other thread that is suspended stays as it is.\<close>

definition same_attrs :: "rt_thread \<Rightarrow> rt_thread \<Rightarrow> bool" where
  "same_attrs th' th \<longleftrightarrow>
     init_priority th' = init_priority th \<and> current_priority th' = current_priority th \<and>
     number_mask th' = number_mask th \<and> taken_object_list th' = taken_object_list th \<and>
     pending_object th' = pending_object th \<and> event_set th' = event_set th \<and>
     event_info th' = event_info th"

definition others :: "tid \<Rightarrow> kernel \<Rightarrow> kernel \<Rightarrow> bool" where
  "others t k k' \<longleftrightarrow>
     (\<forall>s. same_attrs (threads k' s) (threads k s)) \<and>
     (\<forall>s. s \<noteq> t \<longrightarrow> suspended (threads k' s) = suspended (threads k s)) \<and>
     (\<forall>s. s \<noteq> t \<longrightarrow> suspended (threads k s) \<longrightarrow> threads k' s = threads k s) \<and>
     (\<forall>s. s \<noteq> t \<longrightarrow> error (threads k' s) = error (threads k s))"

lemma othersD:
  assumes "others t k k'"
  shows "same_attrs (threads k' s) (threads k s)"
    "s \<noteq> t \<Longrightarrow> suspended (threads k' s) = suspended (threads k s)"
    "s \<noteq> t \<Longrightarrow> suspended (threads k s) \<Longrightarrow> threads k' s = threads k s"
    "s \<noteq> t \<Longrightarrow> error (threads k' s) = error (threads k s)"
  using assms unfolding others_def by blast+

lemma others_trans:
  assumes "others t a b" "others t b c" shows "others t a c"
proof -
  have "same_attrs (threads c s) (threads a s)" for s
    using othersD(1) [OF assms(1), of s] othersD(1) [OF assms(2), of s] by (simp add: same_attrs_def)
  then show ?thesis
    using othersD(2-) [OF assms(1)] othersD(2-) [OF assms(2)] by (simp add: others_def)
qed

lemma others_upd:
  assumes "threads k' = (threads k)(t := th)" "same_attrs th (threads k t)"
  shows "others t k k'"
  using assms by (simp add: others_def same_attrs_def)

lemma others_schedule:
  assumes frame: "sched_frame k k'"
    and same: "\<forall>t. stat_class (threads k t) \<notin> {RT_THREAD_READY, RT_THREAD_RUNNING} \<longrightarrow> threads k' t = threads k t"
    and run: "\<forall>t. stat_class (threads k t) \<in> {RT_THREAD_READY, RT_THREAD_RUNNING} \<longrightarrow>
         stat_class (threads k' t) \<in> {RT_THREAD_READY, RT_THREAD_RUNNING}"
  shows "others t k k'"
proof -
  have "same_attrs (threads k' s) (threads k s)" for s
    using sched_frame_thread [OF frame] by (simp add: same_attrs_def)
  moreover have keep: "threads k' s = threads k s" if "suspended (threads k s)" for s
    using same suspended_class [OF that] by simp
  moreover have "suspended (threads k s)" if "suspended (threads k' s)" for s
    using that same run suspended_class [OF that] by (metis insert_iff singletonD)
  ultimately show ?thesis
    using sched_frame_thread(1) [OF frame] by (auto simp: others_def)
qed

text \<open>Updates of a thread's other fields.\<close>

lemma kernel_inv_upd_class:
  assumes inv: "kernel_inv k"
    and "stat_class (f (threads k t)) = stat_class (threads k t)"
    and "current_priority (f (threads k t)) = current_priority (threads k t)"
    and "number_mask (f (threads k t)) = number_mask (threads k t)"
  shows "kernel_inv (upd_thread t f k)"
proof -
  have cls: "stat_class (threads (upd_thread t f k) s) = stat_class (threads k s)" for s
    using assms(2) by (simp add: threads_upd_thread)
  have "core_inv {} (upd_thread t f k)"
    using assms by (intro core_inv_upd_other) (auto simp: kernel_inv_def sched_inv_def suspended_cases)
  moreover have "running_inv (upd_thread t f k)"
    using inv by (simp add: kernel_inv_def sched_inv_def running_inv_def cls)
  ultimately have "sched_inv (upd_thread t f k)" by (simp add: sched_inv_def)
  then show ?thesis
    by (rule kernel_inv_sched [OF inv]) (simp_all add: suspended_cases started_def cls)
qed

lemma kernel_inv_upd_other:
  assumes "kernel_inv k"
    and "stat (f (threads k t)) = stat (threads k t)"
    and "current_priority (f (threads k t)) = current_priority (threads k t)"
    and "number_mask (f (threads k t)) = number_mask (threads k t)"
  shows "kernel_inv (upd_thread t f k)"
  using assms by (intro kernel_inv_upd_class) (auto simp: stat_class_def)

lemma stat_class_yield [simp]:
  "stat_class (th\<lparr>stat := stat th OR RT_THREAD_STAT_YIELD\<rparr>) = stat_class th"
  by (simp add: stat_class_def bit.conj_disj_distrib2 rt_defs)

subsection \<open>Priorities\<close>

lemma core_inv_set_priority:
  assumes inv: "core_inv X k" and p: "unat p < RT_THREAD_PRIORITY_MAX"
    and t: "t \<in> X \<or> stat_class (threads k t) \<noteq> RT_THREAD_READY"
  shows "core_inv X (set_priority t p ci k)"
proof -
  let ?k = "set_priority t p ci k"
  have cls: "stat_class (threads ?k s) = stat_class (threads k s)"
    "suspended (threads ?k s) = suspended (threads k s)"
    "started (threads ?k s) = started (threads k s)" for s
    by (auto simp: set_priority_def threads_upd_thread stat_class_def suspended_def started_def)
  have pr: "current_priority (threads ?k s) = (if s = t then p else current_priority (threads k s))" for s
    by (simp add: set_priority_def threads_upd_thread)
  have same: "queues ?k = queues k" "ready_priority_group ?k = ready_priority_group k"
    by (simp_all add: set_priority_def)
  have pok: "prio_ok (threads ?k t)" "s \<noteq> t \<Longrightarrow> threads ?k s = threads k s" for s
    using p by (simp_all add: prio_ok_def set_priority_def threads_upd_thread)
  show ?thesis
  proof (rule core_invI)
    fix n s assume "s \<notin> X"
    then show "(s \<in> set (queues ?k (QReady n))) =
        (stat_class (threads ?k s) = RT_THREAD_READY \<and> unat (current_priority (threads ?k s)) = n)"
      using core_ready [OF inv, of s n] t by (auto simp: cls pr same)
  next
    fix s assume "s \<notin> X" "started (threads ?k s)"
    then show "prio_ok (threads ?k s)"
      using core_prio [OF inv, of s] pok by (cases "s = t") (auto simp: cls)
  qed (use core_distinct [OF inv] core_one_queue [OF inv] core_transit [OF inv] core_bitmap [OF inv]
        core_waiting [OF inv] core_defunct [OF inv] in \<open>auto simp: cls same unqueued_def\<close>)
qed

lemma set_priority_thread:
  "threads (set_priority t p ci k) = (threads k)(t := (threads k t)\<lparr>current_priority := p,
     init_priority := (if ci then p else init_priority (threads k t)), number_mask := push_bit (unat p) 1\<rparr>)"
  by (simp add: set_priority_def threads_upd_thread)

lemma running_inv_classes:
  assumes "running_inv k" and "current_thread k' = current_thread k"
    and "\<And>s. stat_class (threads k' s) = stat_class (threads k s)"
  shows "running_inv k'"
  using assms by (simp add: running_inv_def)

lemma thread_control_priority_ok:
  assumes inv: "kernel_inv k" and t: "is_thread t k" and p: "unat p < RT_THREAD_PRIORITY_MAX"
  shows "\<exists>k'. thread_control_priority t p ci k = Some (RT_EOK, k') \<and> kernel_inv k'
    \<and> ipc_frame k k' \<and> current_thread k' = current_thread k
    \<and> current_priority (threads k' t) = p
    \<and> init_priority (threads k' t) = (if ci then p else init_priority (threads k t))
    \<and> (\<forall>s. stat_class (threads k' s) = stat_class (threads k s)
          \<and> suspended (threads k' s) = suspended (threads k s)
          \<and> error (threads k' s) = error (threads k s)
          \<and> pending_object (threads k' s) = pending_object (threads k s)
          \<and> taken_object_list (threads k' s) = taken_object_list (threads k s))
    \<and> (\<forall>s. s \<noteq> t \<longrightarrow> threads k' s = threads k s)
    \<and> (\<forall>q. \<not> ready_queue q \<longrightarrow> queues k' q = queues k q)"
proof (cases "stat_class (threads k t) = RT_THREAD_READY")
  case True
  have core: "core_inv {} k" and run: "running_inv k" using inv by (auto simp: kernel_inv_def sched_inv_def)
  have st: "started (threads k t)" using True by (auto simp: started_cases)
  obtain k1 where k1: "rt_schedule_remove_thread t k = Some k1" "core_inv {t} k1"
      "threads k1 = threads k" "queues k1 = (\<lambda>q. removeAll t (queues k q))"
      "current_thread k1 = current_thread k"
    using rt_schedule_remove_thread_core [OF core core_prio [OF core _ st]] by auto
  define k2 where "k2 = set_priority t p ci k1"
  have core2: "core_inv {t} k2" unfolding k2_def by (rule core_inv_set_priority [OF k1(2) p]) simp
  have "prio_ok (threads k2 t)" using p by (simp add: k2_def set_priority_thread prio_ok_def)
  from rt_schedule_insert_thread_core [OF core2 _ this]
  obtain k3 s where k3: "rt_schedule_insert_thread t k2 = Some k3" "core_inv ({t} - {t}) k3"
      "current_thread k3 = current_thread k2" "threads k3 = (threads k2)(t := (threads k2 t)\<lparr>stat := s\<rparr>)"
      "stat_class ((threads k2 t)\<lparr>stat := s\<rparr>) =
         (if current_thread k2 = Some t then RT_THREAD_RUNNING else RT_THREAD_READY)"
      "\<forall>q. \<not> ready_queue q \<longrightarrow> queues k3 q = queues k2 q"
    by blast
  have nc: "current_thread k2 \<noteq> Some t"
    using run True k1(5) by (auto simp: running_inv_def k2_def set_priority_def)
  have thr: "threads k3 = (threads k)(t := (threads k t)\<lparr>current_priority := p,
      init_priority := (if ci then p else init_priority (threads k t)),
      number_mask := push_bit (unat p) 1, stat := s\<rparr>)"
    using k3(4) k1(3) by (simp add: k2_def set_priority_thread)
  have cls: "stat_class (threads k3 s') = stat_class (threads k s')" for s'
  proof (cases "s' = t")
    case True
    then show ?thesis using k3(4,5) nc \<open>stat_class (threads k t) = RT_THREAD_READY\<close> by simp
  next
    case False
    then show ?thesis using thr by simp
  qed
  have cur: "current_thread k3 = current_thread k" using k3(3) k1(5) by (simp add: k2_def set_priority_def)
  have sched: "sched_inv k3"
    using k3(2) running_inv_classes [OF run cur cls] by (simp add: sched_inv_def)
  have frame: "ipc_frame k k3"
    using ipc_frame_trans [OF ipc_frame_remove [OF k1(1)] ipc_frame_trans [OF _ ipc_frame_insert [OF k3(1)]]]
    by (simp add: k2_def set_priority_def)
  have keep: "timer_lists k3 = timer_lists k" "objs k3 = objs k"
    using insert_keeps [OF k3(1)] remove_keeps [OF k1(1)] by (auto simp: k2_def set_priority_def)
  have "kernel_inv k3"
    by (rule kernel_inv_sched [OF inv sched frame keep])
      (simp add: suspended_cases started_def cls)
  moreover have "queues k3 q = queues k q" if "\<not> ready_queue q" for q
  proof -
    have "t \<notin> set (queues k q)"
      using core_waiting [OF core, of t q] core_defunct [OF core, of t] suspended_class that True by force
    then show ?thesis using that k3(6) k1(4) by (simp add: k2_def set_priority_def)
  qed
  moreover have "thread_control_priority t p ci k = Some (RT_EOK, k3)"
    using t True k1(1) k3(1) by (simp add: thread_control_priority_def k2_def)
  ultimately show ?thesis using frame cur cls thr by (auto simp: suspended_cases)
next
  case False
  let ?k = "set_priority t p ci k"
  have core: "core_inv {} k" and run: "running_inv k" using inv by (auto simp: kernel_inv_def sched_inv_def)
  have cls: "stat_class (threads ?k s) = stat_class (threads k s)" for s
    by (simp add: set_priority_thread stat_class_def)
  have frame: "ipc_frame k ?k" by (simp add: set_priority_def)
  have cur: "current_thread ?k = current_thread k" by (simp add: set_priority_def)
  have sched: "sched_inv ?k"
    using core_inv_set_priority [OF core p, of t ci] False running_inv_classes [OF run cur cls]
    by (simp add: sched_inv_def)
  have keep: "timer_lists ?k = timer_lists k" "objs ?k = objs k" by (simp_all add: set_priority_def)
  have "kernel_inv ?k"
    by (rule kernel_inv_sched [OF inv sched frame keep]) (simp add: suspended_cases started_def cls)
  moreover have "thread_control_priority t p ci k = Some (RT_EOK, ?k)"
    using t False by (simp add: thread_control_priority_def)
  moreover have "queues ?k = queues k" by (simp add: set_priority_def)
  moreover have "suspended (threads ?k s) = suspended (threads k s)" for s
    by (simp add: suspended_cases cls)
  ultimately show ?thesis
    using frame cur cls by (intro exI [of _ ?k]) (auto simp: set_priority_thread)
qed

subsection \<open>Properties\<close>

lemma sample_kernel_kinv: "kernel_inv sample_kernel"
proof -
  have "thread_obj_ok t sample_kernel" for t
    by (simp add: thread_obj_ok_def is_thread_def is_timer_def rt_object_get_type_def timer_flag_def
        sample_kernel_def reset_kernel_def zero_timer_def zero_object_def rt_defs)
  then show ?thesis
    using sample_kernel_inv
    by (simp add: kernel_inv_def thread_objs_ok_def timer_inv_def wait_timers_ok_def)
      (simp add: sample_kernel_def reset_kernel_def)
qed

text \<open>A change of a thread's priority to a value inside the range keeps every invariant, moves
  a ready thread to the list of its new priority and leaves the wait lists and the other threads
  alone.  The argument is not checked: a ready thread given a priority of 32 or more is queued outside
  the table of ready lists, an access out of bounds.\<close>

lemma change_priority:
  assumes "kernel_inv k" and "is_thread t k"
  shows "(unat p < RT_THREAD_PRIORITY_MAX \<longrightarrow>
      (\<exists>k'. thread_control_priority t p ci k = Some (RT_EOK, k') \<and> kernel_inv k'
        \<and> current_priority (threads k' t) = p
        \<and> (stat_class (threads k t) = RT_THREAD_READY \<longrightarrow> t \<in> set (queues k' (QReady (unat p))))
        \<and> (\<forall>s. s \<noteq> t \<longrightarrow> threads k' s = threads k s)
        \<and> (\<forall>q. \<not> ready_queue q \<longrightarrow> queues k' q = queues k q)))
    \<and> (RT_THREAD_PRIORITY_MAX \<le> unat p \<and> stat_class (threads k t) = RT_THREAD_READY \<longrightarrow>
        thread_control_priority t p ci k = None)"
proof (intro conjI impI)
  assume "unat p < RT_THREAD_PRIORITY_MAX"
  from thread_control_priority_ok [OF assms this, of ci]
  obtain k' where k': "thread_control_priority t p ci k = Some (RT_EOK, k')" "kernel_inv k'"
      "current_priority (threads k' t) = p"
      "\<forall>s. stat_class (threads k' s) = stat_class (threads k s)"
      "\<forall>s. s \<noteq> t \<longrightarrow> threads k' s = threads k s" "\<forall>q. \<not> ready_queue q \<longrightarrow> queues k' q = queues k q"
    by blast
  have "core_inv {} k'" using k'(2) by (simp add: kernel_inv_def sched_inv_def)
  then have "stat_class (threads k t) = RT_THREAD_READY \<longrightarrow> t \<in> set (queues k' (QReady (unat p)))"
    using core_ready [of "{}" k' t "unat p"] k'(3,4) by simp
  with k' show "\<exists>k'. thread_control_priority t p ci k = Some (RT_EOK, k') \<and> kernel_inv k'
        \<and> current_priority (threads k' t) = p
        \<and> (stat_class (threads k t) = RT_THREAD_READY \<longrightarrow> t \<in> set (queues k' (QReady (unat p))))
        \<and> (\<forall>s. s \<noteq> t \<longrightarrow> threads k' s = threads k s)
        \<and> (\<forall>q. \<not> ready_queue q \<longrightarrow> queues k' q = queues k q)"
    by blast
next
  assume a: "RT_THREAD_PRIORITY_MAX \<le> unat p \<and> stat_class (threads k t) = RT_THREAD_READY"
  have core: "core_inv {} k" and run: "running_inv k"
    using assms by (auto simp: kernel_inv_def sched_inv_def)
  have "current_thread k \<noteq> Some t" using run a by (auto simp: running_inv_def)
  moreover obtain k1 where "rt_schedule_remove_thread t k = Some k1" "current_thread k1 = current_thread k"
    using rt_schedule_remove_thread_core [OF core core_prio [OF core, of t]] a
    by (auto simp: started_cases)
  ultimately show "thread_control_priority t p ci k = None"
    using a by (simp add: thread_control_priority_def rt_schedule_insert_thread_def
        set_priority_def threads_upd_thread Let_def)
qed

text \<open>C35: Yielding is round robin: when the running thread yields and the first ready thread of the
  same priority is \<open>h\<close>, with no higher priority ready, then \<open>h\<close> runs next and the yielding thread is
  queued last in the list, with its time slice refilled.\<close>

theorem yield_round_robin:
  assumes "sched_inv k" and "current_thread k = Some c"
    and "stat_class (threads k c) = RT_THREAD_RUNNING" and "scheduler_lock_nest k = 0"
    and "queues k (QReady (unat (current_priority (threads k c)))) = h # rest"
    and "\<forall>n<unat (current_priority (threads k c)). queues k (QReady n) = []"
  shows "\<exists>k'. rt_thread_yield k = Some (RT_EOK, k') \<and> sched_inv k' \<and> current_thread k' = Some h
    \<and> queues k' (QReady (unat (current_priority (threads k c)))) = rest @ [c]
    \<and> remaining_tick (threads k' c) = thread_init_tick (threads k c)"
proof -
  let ?p = "unat (current_priority (threads k c))"
  let ?f = "\<lambda>th. th\<lparr>remaining_tick := thread_init_tick th\<rparr>"
  let ?g = "\<lambda>th. th\<lparr>stat := stat th OR RT_THREAD_STAT_YIELD\<rparr>"
  define k1 where "k1 = upd_thread c ?g (upd_thread c ?f k)"
  have y: "(s OR RT_THREAD_STAT_YIELD) AND RT_THREAD_STAT_MASK = s AND RT_THREAD_STAT_MASK"
    "(s OR RT_THREAD_STAT_YIELD) AND RT_THREAD_STAT_YIELD \<noteq> 0" for s :: u8
    by (simp_all add: bit.conj_disj_distrib2 rt_defs)
  have core: "core_inv {} k" and run: "running_inv k" using assms(1) by (auto simp: sched_inv_def)
  have cls: "stat_class (threads k1 t) = stat_class (threads k t)" for t
    by (simp add: k1_def threads_upd_thread stat_class_def y)
  have pr: "current_priority (threads k1 t) = current_priority (threads k t)" for t
    by (simp add: k1_def threads_upd_thread)
  have same: "queues k1 = queues k" "ready_priority_group k1 = ready_priority_group k"
      "current_thread k1 = current_thread k" "scheduler_lock_nest k1 = scheduler_lock_nest k"
    by (simp_all add: k1_def)
  have "core_inv {} k1"
    unfolding k1_def
    by (intro core_inv_upd_other core)
      (simp_all add: suspended_cases stat_class_def y threads_upd_thread)
  moreover have "running_inv k1" using running_inv_classes [OF run same(3) cls] .
  ultimately have inv1: "sched_inv k1" by (simp add: sched_inv_def)
  have p32: "?p < RT_THREAD_PRIORITY_MAX"
    using core_prio [OF core, of c] assms(3) by (simp add: started_cases prio_ok_def)
  have ne: "ready_priority_group k1 \<noteq> 0"
    using core_bitmap [OF core p32] assms(5) same(2) by auto
  obtain h' p where hp: "get_highest_priority_thread k1 = Some (h', p)"
      "h' \<in> set (queues k1 (QReady p))" "hd (queues k1 (QReady p)) = h'" "\<forall>n<p. queues k1 (QReady n) = []"
    using get_highest_priority_thread_spec [of "{}" k1] inv1 ne by (auto simp: sched_inv_def)
  have "p = ?p"
    using hp(2,4) assms(5,6) same(1) by (metis linorder_neqE_nat list.distinct(1) list.set(1) empty_iff)
  then have "h' = h" using hp(3) assms(5) same(1) by simp
  have away: "p < unat (current_priority (threads k1 c)) \<or>
        unat (current_priority (threads k1 c)) = p \<and> stat (threads k1 c) AND RT_THREAD_STAT_YIELD \<noteq> 0"
    using \<open>p = ?p\<close> pr y by (simp add: k1_def threads_upd_thread)
  have rc: "stat_class (threads k1 c) = RT_THREAD_RUNNING" using cls assms(3) by simp
  from rt_schedule_switch [OF inv1 _ away hp(1,2) _ _ ne] same assms(2,4) hp(4) rc
  obtain k' where k': "rt_schedule k1 = Some k'" "sched_inv k'" "sched_frame k1 k'"
      "highest_running h' k'" "\<forall>q. queues k' q = removeAll h'
         (if q = QReady (unat (current_priority (threads k1 c))) then queues k1 q @ [c] else queues k1 q)"
    by auto
  have "h \<notin> set rest" "h \<noteq> c"
    using core_distinct [OF core, of "QReady ?p"] core_ready [OF core, of h ?p] assms(3,5) by auto
  then have "queues k' (QReady ?p) = rest @ [c]"
    using k'(5) pr same(1) assms(5) \<open>h' = h\<close> by simp
  moreover have "remaining_tick (threads k' c) = thread_init_tick (threads k c)"
    using sched_frame_thread(9) [OF k'(3)] by (simp add: k1_def threads_upd_thread)
  moreover have "rt_thread_yield k = Some (RT_EOK, k')"
    using assms(2) k'(1) by (simp add: rt_thread_yield_def rt_thread_self_def k1_def)
  ultimately show ?thesis using k'(2,4) \<open>h' = h\<close> by (auto simp: highest_running_def)
qed

text \<open>The running thread of the sample system after thread 2 is done: thread 3 has its priority.\<close>

definition sample_pair :: kernel where
  "sample_pair = sample_kernel\<lparr>queues := (queues sample_kernel)(QReady 5 := []),
     ready_priority_group := 0x400, threads := (threads sample_kernel)(2 := zero_thread)\<rparr>"

lemma sample_pair_inv: "sched_inv sample_pair"
proof -
  have "core_inv {} sample_pair"
  proof (rule core_invI)
    fix p t
    show "(t \<in> set (queues sample_pair (QReady p))) =
      (stat_class (threads sample_pair t) = RT_THREAD_READY \<and>
       unat (current_priority (threads sample_pair t)) = p)"
      by (auto simp: sample_pair_def sample_kernel_def sample_thread_def reset_kernel_def
          zero_thread_def stat_class_def rt_defs)
  next
    fix q q' t assume "t \<in> set (queues sample_pair q)" "t \<in> set (queues sample_pair q')"
    then show "q = q'"
      by (auto simp: sample_pair_def sample_kernel_def reset_kernel_def split: if_splits)
  next
    fix p assume p: "p < RT_THREAD_PRIORITY_MAX"
    have "(0x400 :: u32) = 0 OR 2 ^ 10" by simp
    then have "bit (0x400 :: u32) p \<longleftrightarrow> p = 10"
      using bit_set_mask [of p 0 10] p by (metis RT_THREAD_PRIORITY_MAX_def bit_0_eq bot_apply bot_bool_def)
    then show "bit (ready_priority_group sample_pair) p = (queues sample_pair (QReady p) \<noteq> [])"
      by (simp add: sample_pair_def sample_kernel_def reset_kernel_def)
  qed (auto simp: sample_pair_def sample_kernel_def sample_thread_def reset_kernel_def
      zero_thread_def started_def prio_ok_def stat_class_def rt_defs split: if_splits)
  then show ?thesis
    by (auto simp: sched_inv_def running_inv_def sample_pair_def sample_kernel_def sample_thread_def
        reset_kernel_def zero_thread_def stat_class_def rt_defs split: if_splits)
qed

theorem yield_round_robin_witness:
  "\<exists>k'. rt_thread_yield sample_pair = Some (RT_EOK, k') \<and> current_thread k' = Some 3
     \<and> queues k' (QReady 10) = [1]"
proof -
  have f: "current_thread sample_pair = Some 1" "current_priority (threads sample_pair 1) = 10"
    "stat_class (threads sample_pair 1) = RT_THREAD_RUNNING" "scheduler_lock_nest sample_pair = 0"
    "queues sample_pair (QReady 10) = [3]" "\<forall>n<10. queues sample_pair (QReady n) = []"
    by (simp_all add: sample_pair_def sample_kernel_def sample_thread_def reset_kernel_def
        stat_class_def rt_defs)
  from yield_round_robin [OF sample_pair_inv f(1,3,4), of 3 "[]"] f(2,5,6) show ?thesis by auto
qed

end
