(* ===== verification/TimerRun.thy ===== *)
theory TimerRun
  imports Thread
begin

text \<open>
  The running side of \<^verbatim>\<open>src/timer.c\<close> and \<^verbatim>\<open>src/clock.c\<close>: starting a timer, the processing of
  expired timers in the tick interrupt and in the timer thread, the system tick, and the sleeping
  calls of \<^verbatim>\<open>src/thread.c\<close>.

  A call that blocks is modelled in two parts.  The first runs up to and including
  \<open>rt_schedule\<close> and answers \<open>Waiting\<close>, or answers \<open>Returned\<close> when the call returns without waiting;
  the second, named with the suffix \<open>_resume\<close>, is what the thread executes when \<open>rt_schedule\<close>
  returns to it.  Callbacks of timers that are not the kernel's own are an argument \<open>call\<close> of the
  model.
\<close>

datatype 'r call = Returned 'r | Waiting

subsection \<open>Starting a timer\<close>

text \<open>The search for the place of a timer: behind all timers that expire no later, in the cyclic
  order of ticks.\<close>

fun timer_insert :: "(timerid \<Rightarrow> u32) \<Rightarrow> timerid \<Rightarrow> timerid list \<Rightarrow> timerid list" where
  "timer_insert at tm [] = [tm]"
| "timer_insert at tm (t # ts) =
     (if at t - at tm = 0 then t # timer_insert at tm ts
      else if at t - at tm < RT_TICK_MAX div 2 then tm # t # ts
      else t # timer_insert at tm ts)"

definition soft_timer :: "timerid \<Rightarrow> kernel \<Rightarrow> bool" where
  "soft_timer tm k \<longleftrightarrow> timer_flag tm k AND RT_TIMER_FLAG_SOFT_TIMER \<noteq> 0"

text \<open>The part of \<open>rt_timer_start\<close> that runs with interrupts disabled.\<close>

definition timer_enlist :: "timerid \<Rightarrow> kernel \<Rightarrow> kernel option" where
  "timer_enlist tm k = do {
     rt_assert (is_timer tm k);
     let k = deactivate tm (timer_remove tm k);
     rt_assert (timer_init_tick (timers k tm) < RT_TICK_MAX div 2);
     let k = upd_timer tm (\<lambda>t. t\<lparr>timeout_tick := tick k + timer_init_tick t\<rparr>) k;
     let l = (if soft_timer tm k then LSoft else LHard);
     let k = set_timer_list l
               (timer_insert (\<lambda>t. timeout_tick (timers k t)) tm (timer_lists k l)) k;
     let k = k\<lparr>random_nr := random_nr k + 1\<rparr>;
     Some (set_timer_flag tm (timer_flag tm k OR RT_TIMER_FLAG_ACTIVATED) k)
   }"

definition rt_timer_start :: "timerid \<Rightarrow> kernel \<Rightarrow> (int \<times> kernel) option" where
  "rt_timer_start tm k = do {
     k \<leftarrow> timer_enlist tm k;
     k \<leftarrow> (if soft_timer tm k \<and> soft_timer_idle k \<and>
              stat (threads k (timer_thread k)) AND RT_THREAD_SUSPEND_MASK = RT_THREAD_SUSPEND_MASK
           then do {
             (_, k) \<leftarrow> rt_thread_resume (timer_thread k) k;
             rt_schedule k
           }
           else Some k);
     Some (RT_EOK, k)
   }"

subsection \<open>Expired timers\<close>

definition periodic_timer :: "timerid \<Rightarrow> kernel \<Rightarrow> bool" where
  "periodic_timer tm k \<longleftrightarrow> timer_flag tm k AND RT_TIMER_FLAG_PERIODIC \<noteq> 0"

definition call_timeout ::
  "(nat \<Rightarrow> nat \<Rightarrow> kernel \<Rightarrow> kernel option) \<Rightarrow> timerid \<Rightarrow> kernel \<Rightarrow> kernel option" where
  "call_timeout call tm k =
     (case timeout_func (timers k tm) of
        Rt_thread_timeout \<Rightarrow> rt_thread_timeout (timer_parameter (timers k tm)) k
      | UserFn f \<Rightarrow> call f (timer_parameter (timers k tm)) k)"

text \<open>Before the callback: out of its list into the local list, deactivated when it is a one-shot.\<close>

definition timer_take :: "timer_list \<Rightarrow> timerid \<Rightarrow> kernel \<Rightarrow> kernel" where
  "timer_take tmp tm k =
     (let k = timer_remove tm k;
          k = (if periodic_timer tm k then k else deactivate tm k)
      in set_timer_list tmp (tm # timer_lists k tmp) k)"

text \<open>After the callback: nothing, when the callback took the timer out of the local list (it was
  stopped, deleted or started again); otherwise a periodic timer is started again.\<close>

definition timer_put_back :: "timer_list \<Rightarrow> timerid \<Rightarrow> kernel \<Rightarrow> kernel option" where
  "timer_put_back tmp tm k =
     (if timer_lists k tmp = [] then Some k
      else do {
        let k = timer_remove tm k;
        if periodic_timer tm k \<and> timer_active tm k
        then do {
          (_, k) \<leftarrow> rt_timer_start tm (deactivate tm k);
          Some k
        }
        else Some k
      })"

definition timer_fire ::
  "(nat \<Rightarrow> nat \<Rightarrow> kernel \<Rightarrow> kernel option) \<Rightarrow> timerid \<Rightarrow> kernel \<Rightarrow> kernel option" where
  "timer_fire call tm k = do {
     k \<leftarrow> call_timeout call tm (timer_take LTmpHard tm k);
     timer_put_back LTmpHard tm k
   }"

text \<open>The tick test of both check loops.\<close>

definition expired :: "u32 \<Rightarrow> u32 \<Rightarrow> bool" where
  "expired now timeout \<longleftrightarrow> now - timeout < RT_TICK_MAX div 2"

partial_function (option) timer_check_loop ::
  "(nat \<Rightarrow> nat \<Rightarrow> kernel \<Rightarrow> kernel option) \<Rightarrow> u32 \<Rightarrow> kernel \<Rightarrow> kernel option" where
  "timer_check_loop call current_tick k =
     (case timer_lists k LHard of
        [] \<Rightarrow> Some k
      | t # _ \<Rightarrow>
          if expired current_tick (timeout_tick (timers k t))
          then do {
            k \<leftarrow> timer_fire call t k;
            timer_check_loop call (tick k) k
          }
          else Some k)"

definition rt_timer_check ::
  "(nat \<Rightarrow> nat \<Rightarrow> kernel \<Rightarrow> kernel option) \<Rightarrow> kernel \<Rightarrow> kernel option" where
  "rt_timer_check call k = timer_check_loop call (tick k) (set_timer_list LTmpHard [] k)"

definition soft_timer_fire ::
  "(nat \<Rightarrow> nat \<Rightarrow> kernel \<Rightarrow> kernel option) \<Rightarrow> timerid \<Rightarrow> kernel \<Rightarrow> kernel option" where
  "soft_timer_fire call tm k = do {
     let k = timer_take LTmpSoft tm k;
     let k = k\<lparr>soft_timer_idle := False\<rparr>;
     k \<leftarrow> call_timeout call tm k;
     let k = k\<lparr>soft_timer_idle := True\<rparr>;
     timer_put_back LTmpSoft tm k
   }"

partial_function (option) soft_timer_check_loop ::
  "(nat \<Rightarrow> nat \<Rightarrow> kernel \<Rightarrow> kernel option) \<Rightarrow> kernel \<Rightarrow> kernel option" where
  "soft_timer_check_loop call k =
     (case timer_lists k LSoft of
        [] \<Rightarrow> Some k
      | t # _ \<Rightarrow>
          if expired (tick k) (timeout_tick (timers k t))
          then do {
            k \<leftarrow> soft_timer_fire call t k;
            soft_timer_check_loop call k
          }
          else Some k)"

definition rt_soft_timer_check ::
  "(nat \<Rightarrow> nat \<Rightarrow> kernel \<Rightarrow> kernel option) \<Rightarrow> kernel \<Rightarrow> kernel option" where
  "rt_soft_timer_check call k = soft_timer_check_loop call (set_timer_list LTmpSoft [] k)"

subsection \<open>The clock\<close>

definition RT_TICK_PER_SECOND :: int where [rt_defs]: "RT_TICK_PER_SECOND = 1000"

definition rt_tick_get :: "kernel \<Rightarrow> u32" where
  "rt_tick_get k = tick k"

definition rt_tick_set :: "u32 \<Rightarrow> kernel \<Rightarrow> kernel" where
  "rt_tick_set t k = k\<lparr>tick := t\<rparr>"

definition rt_tick_increase ::
  "(nat \<Rightarrow> nat \<Rightarrow> kernel \<Rightarrow> kernel option) \<Rightarrow> kernel \<Rightarrow> kernel option" where
  "rt_tick_increase call k = do {
     let k = k\<lparr>tick := tick k + 1\<rparr>;
     t \<leftarrow> rt_thread_self k;
     let k = upd_thread t (\<lambda>th. th\<lparr>remaining_tick := remaining_tick th - 1\<rparr>) k;
     k \<leftarrow> (if remaining_tick (threads k t) = 0
           then do {
             let k = upd_thread t (\<lambda>th. th\<lparr>remaining_tick := thread_init_tick th\<rparr>) k;
             let k = upd_thread t (\<lambda>th. th\<lparr>stat := stat th OR RT_THREAD_STAT_YIELD\<rparr>) k;
             rt_schedule k
           }
           else Some k);
     rt_timer_check call k
   }"

definition rt_tick_from_millisecond :: "32 word \<Rightarrow> u32" where
  "rt_tick_from_millisecond ms =
     (if sint ms < 0 then - 1
      else let t = word_of_int (RT_TICK_PER_SECOND * (sint ms div 1000))
           in t + word_of_int ((RT_TICK_PER_SECOND * (sint ms mod 1000) + 999) div 1000))"

definition rt_tick_get_millisecond :: "kernel \<Rightarrow> u32" where
  "rt_tick_get_millisecond k = rt_tick_get k * word_of_int (1000 div RT_TICK_PER_SECOND)"

subsection \<open>Sleeping\<close>

text \<open>Setting and starting the timer of a thread, as every wait with a timeout does.\<close>

definition start_thread_timer :: "tid \<Rightarrow> u32 \<Rightarrow> kernel \<Rightarrow> kernel option" where
  "start_thread_timer t time k = do {
     (_, _, k) \<leftarrow> rt_timer_control (ThreadTimer t) (RT_TIMER_CTRL_SET_TIME time) k;
     (_, k) \<leftarrow> rt_timer_start (ThreadTimer t) k;
     Some k
   }"

definition rt_thread_sleep :: "u32 \<Rightarrow> kernel \<Rightarrow> (int call \<times> kernel) option" where
  "rt_thread_sleep tk k = do {
     t \<leftarrow> rt_thread_self k;
     rt_assert (is_thread t k);
     (err, k) \<leftarrow> rt_thread_suspend_with_flag t RT_INTERRUPTIBLE k;
     if err = RT_EOK
     then do {
       k \<leftarrow> start_thread_timer t tk k;
       let k = upd_thread t (\<lambda>th. th\<lparr>error := - RT_EINTR\<rparr>) k;
       k \<leftarrow> rt_schedule k;
       Some (Waiting, k)
     }
     else Some (Returned err, k)
   }"

definition clear_timeout_error :: "tid \<Rightarrow> kernel \<Rightarrow> kernel" where
  "clear_timeout_error t k =
     (if error (threads k t) = - RT_ETIMEOUT then upd_thread t (\<lambda>th. th\<lparr>error := RT_EOK\<rparr>) k else k)"

definition rt_thread_sleep_resume :: "tid \<Rightarrow> kernel \<Rightarrow> int \<times> kernel" where
  "rt_thread_sleep_resume t k = (RT_EOK, clear_timeout_error t k)"

definition rt_thread_delay :: "u32 \<Rightarrow> kernel \<Rightarrow> (int call \<times> kernel) option" where
  "rt_thread_delay tk k = rt_thread_sleep tk k"

definition rt_thread_mdelay :: "32 word \<Rightarrow> kernel \<Rightarrow> (int call \<times> kernel) option" where
  "rt_thread_mdelay ms k = rt_thread_sleep (rt_tick_from_millisecond ms) k"

text \<open>\<open>rt_thread_delay_until\<close> ends with the new value of the caller's tick variable.\<close>

definition rt_thread_delay_until :: "u32 \<Rightarrow> u32 \<Rightarrow> kernel \<Rightarrow> ((int \<times> u32) call \<times> kernel) option" where
  "rt_thread_delay_until tk inc_tick k = do {
     t \<leftarrow> rt_thread_self k;
     rt_assert (is_thread t k);
     if rt_tick_get k - tk < inc_tick
     then do {
       let tk = tk + inc_tick - rt_tick_get k;
       (_, k) \<leftarrow> rt_thread_suspend_with_flag t RT_UNINTERRUPTIBLE k;
       k \<leftarrow> start_thread_timer t tk k;
       k \<leftarrow> rt_schedule k;
       Some (Waiting, k)
     }
     else Some (Returned (RT_EOK, rt_tick_get k), k)
   }"

definition rt_thread_delay_until_resume :: "tid \<Rightarrow> kernel \<Rightarrow> (int \<times> u32) \<times> kernel" where
  "rt_thread_delay_until_resume t k =
     (let k = clear_timeout_error t k in ((RT_EOK, rt_tick_get k), k))"

text \<open>One round of the timer thread up to its wait; \<open>rt_soft_timer_check\<close> follows.\<close>

definition rt_thread_timer_entry_wait :: "kernel \<Rightarrow> (int call \<times> kernel) option" where
  "rt_thread_timer_entry_wait k =
     (let next_timeout = rt_timer_list_next_timeout LSoft k
      in if next_timeout = RT_TICK_MAX
         then do {
           t \<leftarrow> rt_thread_self k;
           (_, k) \<leftarrow> rt_thread_suspend_with_flag t RT_UNINTERRUPTIBLE k;
           k \<leftarrow> rt_schedule k;
           Some (Waiting, k)
         }
         else if next_timeout - tick k < RT_TICK_MAX div 2
         then rt_thread_delay (next_timeout - tick k) k
         else Some (Returned RT_EOK, k))"

definition rt_system_timer_thread_init :: "tid \<Rightarrow> nat \<Rightarrow> nat \<Rightarrow> u8 \<Rightarrow> kernel \<Rightarrow> kernel option" where
  "rt_system_timer_thread_init t entry stack prio k = do {
     let k = set_timer_list LSoft [] k;
     let k = k\<lparr>timer_thread := t\<rparr>;
     (_, k) \<leftarrow> rt_thread_init t (map (\<lambda>c. of_char c) ''timer'' @ [0]) entry 0 stack 16384 prio 10 k;
     (_, k) \<leftarrow> rt_thread_startup t k;
     Some k
   }"

subsection \<open>The order of a timer list\<close>

text \<open>The distance of a tick from a base tick; ticks less than half the range ahead of the base are
  ordered by it.\<close>

definition ahead :: "u32 \<Rightarrow> u32 \<Rightarrow> nat" where
  "ahead base t = unat (t - base)"

lemma tick_half: "unat (RT_TICK_MAX div 2) = 2147483647"
  by (simp add: rt_defs unat_div)

lemma unat_diff_wrap:
  fixes a b base :: u32
  shows "unat (a - b) = (if ahead base b \<le> ahead base a then ahead base a - ahead base b
      else 2 ^ 32 - (ahead base b - ahead base a))"
proof -
  have eq: "a - b = (a - base) - (b - base)" by simp
  have "unat (b - base) < 2 ^ 32" "unat (a - base) < 2 ^ 32"
    using unsigned_less [of "b - base"] unsigned_less [of "a - base"] by simp_all
  then show ?thesis
    unfolding ahead_def
    by (subst eq, subst unat_sub_if_size) (auto simp: word_size)
qed

lemma insert_compare:
  fixes base :: u32
  assumes "ahead base a < 2147483647" "ahead base b < 2147483647"
  shows "a - b = 0 \<longleftrightarrow> ahead base a = ahead base b"
    and "a - b < RT_TICK_MAX div 2 \<longleftrightarrow> ahead base b \<le> ahead base a"
proof -
  show "a - b = 0 \<longleftrightarrow> ahead base a = ahead base b"
  proof -
    have "ahead base a = ahead base b \<longleftrightarrow> a - base = b - base"
      unfolding ahead_def by (rule word_unat_eq_iff [symmetric])
    then show ?thesis by simp
  qed
  show "a - b < RT_TICK_MAX div 2 \<longleftrightarrow> ahead base b \<le> ahead base a"
    using assms unat_diff_wrap [of a b base] by (auto simp: word_less_nat_alt tick_half)
qed

lemma timer_insert_split:
  fixes at :: "timerid \<Rightarrow> u32"
  assumes "sorted (map (\<lambda>t. ahead base (at t)) ts)"
    and "\<forall>t\<in>set ts. ahead base (at t) < 2147483647" and "ahead base (at tm) < 2147483647"
  shows "timer_insert at tm ts =
      filter (\<lambda>t. ahead base (at t) \<le> ahead base (at tm)) ts @ [tm] @
      filter (\<lambda>t. ahead base (at tm) < ahead base (at t)) ts"
  using assms
proof (induction ts)
  case (Cons t ts)
  note c = insert_compare [of base "at t" "at tm"]
  show ?case
  proof (cases "ahead base (at t) \<le> ahead base (at tm)")
    case True
    then show ?thesis using Cons c by auto
  next
    case False
    then have "\<forall>u\<in>set ts. ahead base (at tm) < ahead base (at u)" using Cons.prems(1) by force
    then have "filter (\<lambda>t. ahead base (at t) \<le> ahead base (at tm)) ts = []"
      "filter (\<lambda>t. ahead base (at tm) < ahead base (at t)) ts = ts"
      by (auto simp: filter_empty_conv not_le)
    then show ?thesis using False Cons.prems c by auto
  qed
qed simp

text \<open>A list is in order, with the current tick as the base, and every entry lies less than half the
  range ahead.\<close>

definition list_ordered :: "timer_list \<Rightarrow> u32 \<Rightarrow> kernel \<Rightarrow> bool" where
  "list_ordered l base k \<longleftrightarrow>
     sorted (map (\<lambda>t. ahead base (timeout_tick (timers k t))) (timer_lists k l)) \<and>
     (\<forall>t\<in>set (timer_lists k l). ahead base (timeout_tick (timers k t)) < 2147483647)"

lemma timer_insert_sorted:
  fixes at :: "timerid \<Rightarrow> u32"
  assumes "sorted (map (\<lambda>t. ahead base (at t)) ts)"
    and "\<forall>t\<in>set ts. ahead base (at t) < 2147483647" and "ahead base (at tm) < 2147483647"
  shows "sorted (map (\<lambda>t. ahead base (at t)) (timer_insert at tm ts))"
    and "set (timer_insert at tm ts) = insert tm (set ts)"
proof -
  show "set (timer_insert at tm ts) = insert tm (set ts)"
    using timer_insert_split [OF assms] by (auto simp: not_le)
  have "sorted (map (\<lambda>t. ahead base (at t)) (filter P ts))" for P
    using assms(1) by (simp add: sorted_filter)
  then show "sorted (map (\<lambda>t. ahead base (at t)) (timer_insert at tm ts))"
    unfolding timer_insert_split [OF assms] by (auto simp: sorted_append)
qed

text \<open>Without any assumption on the order, insertion adds just the timer.\<close>

lemma set_timer_insert [simp]: "set (timer_insert at tm ts) = insert tm (set ts)"
  by (induction at tm ts rule: timer_insert.induct) auto

lemma length_filter_timer_insert:
  "length (filter Q (timer_insert at tm ts)) = length (filter Q ts) + (if Q tm then 1 else 0)"
  by (induction at tm ts rule: timer_insert.induct) auto

lemma distinct_timer_insert [simp]:
  "distinct (timer_insert at tm ts) \<longleftrightarrow> tm \<notin> set ts \<and> distinct ts"
  by (induction at tm ts rule: timer_insert.induct) auto

subsection \<open>Starting a timer\<close>

definition list_of :: "timerid \<Rightarrow> kernel \<Rightarrow> timer_list" where
  "list_of tm k = (if soft_timer tm k then LSoft else LHard)"

lemma not_tmp_list_of [simp]: "\<not> tmp_list (list_of tm k)"
  by (simp add: list_of_def)

lemma timer_enlist_eq:
  assumes "is_timer tm k" and "timer_init_tick (timers k tm) < RT_TICK_MAX div 2"
  shows "\<exists>k'. timer_enlist tm k = Some k' \<and> ipc_frame k k'
    \<and> queues k' = queues k \<and> threads k' = threads k \<and> current_thread k' = current_thread k
    \<and> ready_priority_group k' = ready_priority_group k
    \<and> timers k' = (timers k)(tm := (timers k tm)
         \<lparr>timeout_tick := tick k + timer_init_tick (timers k tm)\<rparr>)
    \<and> timer_lists k' = (\<lambda>l. removeAll tm (timer_lists k l))(list_of tm k :=
         timer_insert (\<lambda>t. timeout_tick (timers k' t)) tm (removeAll tm (timer_lists k (list_of tm k))))
    \<and> timer_active tm k' \<and> (\<forall>s. s \<noteq> tm \<longrightarrow> timer_active s k' = timer_active s k)
    \<and> soft_timer tm k' = soft_timer tm k"
proof -
  let ?f = "timer_flag tm k AND NOT RT_TIMER_FLAG_ACTIVATED OR RT_TIMER_FLAG_ACTIVATED"
  let ?ts = "(timers k)(tm := (timers k tm)\<lparr>timeout_tick := tick k + timer_init_tick (timers k tm)\<rparr>)"
  let ?os = "(objs k)(OTimer tm := (objs k (OTimer tm))\<lparr>obj_flag := ?f\<rparr>)"
  let ?ls = "(\<lambda>l. removeAll tm (timer_lists k l))(list_of tm k :=
         timer_insert (\<lambda>t. timeout_tick (?ts t)) tm (removeAll tm (timer_lists k (list_of tm k))))"
  let ?k = "k\<lparr>objs := ?os, timers := ?ts, timer_lists := ?ls, random_nr := random_nr k + 1\<rparr>"
  have soft: "(w AND NOT RT_TIMER_FLAG_ACTIVATED) AND RT_TIMER_FLAG_SOFT_TIMER = w AND RT_TIMER_FLAG_SOFT_TIMER"
    "(w OR RT_TIMER_FLAG_ACTIVATED) AND RT_TIMER_FLAG_SOFT_TIMER = w AND RT_TIMER_FLAG_SOFT_TIMER"
    for w :: u8
    by (simp_all add: and.assoc bit.conj_disj_distrib2 rt_defs)
  have act: "?f AND RT_TIMER_FLAG_ACTIVATED \<noteq> 0"
    by (simp add: bit.conj_disj_distrib2 rt_defs)
  have "timer_enlist tm k = Some ?k"
    using assms
    by (simp add: timer_enlist_def deactivate_def timer_remove_def set_timer_flag_def timer_flag_def
        upd_defs soft_timer_def list_of_def soft Let_def fun_upd_def cong: if_cong)
  moreover have "ipc_frame k ?k"
    by (simp add: ipc_frame_def timer_flag_def)
  ultimately show ?thesis
    using act soft
    by (intro exI [of _ ?k]) (simp add: timer_active_def timer_flag_def soft_timer_def)
qed

lemma timer_inv_enlist:
  assumes inv: "timer_inv k"
    and lists: "timer_lists k' = (\<lambda>l. removeAll tm (timer_lists k l))(l0 := timer_insert at tm (removeAll tm (timer_lists k l0)))"
    and act: "timer_active tm k'" "\<And>s. s \<noteq> tm \<Longrightarrow> timer_active s k' = timer_active s k"
  shows "timer_inv k'"
  unfolding timer_inv_def
proof (intro conjI allI impI)
  fix l show "distinct (timer_lists k' l)"
    using inv lists by (simp add: timer_inv_def distinct_removeAll)
next
  fix l l' s assume "s \<in> set (timer_lists k' l)" "s \<in> set (timer_lists k' l')"
  then show "l = l'" using inv lists by (auto simp: timer_inv_def split: if_splits)
next
  fix l s assume "\<not> tmp_list l" "s \<in> set (timer_lists k' l)"
  then show "timer_active s k'"
    using inv lists act by (cases "s = tm") (auto simp: timer_inv_def split: if_splits)
qed

text \<open>Setting the time of a timer.\<close>

lemma rt_timer_control_set_time:
  assumes "is_timer tm k"
  shows "rt_timer_control tm (RT_TIMER_CTRL_SET_TIME time) k =
    Some (RT_EOK, No_out, upd_timer tm (\<lambda>t. t\<lparr>timer_init_tick := time\<rparr>) k)"
  using assms by (simp add: rt_timer_control_def)

text \<open>A suspended thread's timer is started: the thread's wait now ends at \<open>tick + time\<close>.\<close>

definition timed_wait :: "tid \<Rightarrow> u32 \<Rightarrow> kernel \<Rightarrow> kernel \<Rightarrow> bool" where
  "timed_wait t time k k' \<longleftrightarrow>
     kernel_inv k' \<and> ipc_frame k k' \<and> queues k' = queues k \<and> threads k' = threads k \<and>
     current_thread k' = current_thread k \<and> ready_priority_group k' = ready_priority_group k \<and>
     ThreadTimer t \<in> set (timer_lists k' LHard) \<and>
     timeout_tick (timers k' (ThreadTimer t)) = tick k + time \<and>
     (\<forall>tm. tm \<noteq> ThreadTimer t \<longrightarrow> timers k' tm = timers k tm)"

lemma thread_timer_hard:
  assumes "thread_obj_ok t k" shows "\<not> soft_timer (ThreadTimer t) k"
proof -
  let ?f = "timer_flag (ThreadTimer t) k"
  have "RT_TIMER_FLAG_SOFT_TIMER = NOT RT_TIMER_FLAG_ACTIVATED AND RT_TIMER_FLAG_SOFT_TIMER"
    by (simp add: rt_defs)
  then have "?f AND RT_TIMER_FLAG_SOFT_TIMER = (?f AND NOT RT_TIMER_FLAG_ACTIVATED) AND RT_TIMER_FLAG_SOFT_TIMER"
    by (simp add: and.assoc)
  then show ?thesis using assms by (simp add: soft_timer_def thread_obj_ok_def)
qed

lemma thread_timer_oneshot:
  assumes "thread_obj_ok t k" shows "\<not> periodic_timer (ThreadTimer t) k"
proof -
  let ?f = "timer_flag (ThreadTimer t) k"
  have "RT_TIMER_FLAG_PERIODIC = NOT RT_TIMER_FLAG_ACTIVATED AND RT_TIMER_FLAG_PERIODIC"
    by (simp add: rt_defs)
  then have "?f AND RT_TIMER_FLAG_PERIODIC = (?f AND NOT RT_TIMER_FLAG_ACTIVATED) AND RT_TIMER_FLAG_PERIODIC"
    by (simp add: and.assoc)
  then show ?thesis using assms by (simp add: periodic_timer_def thread_obj_ok_def)
qed

lemma start_thread_timer_ok:
  assumes inv: "kernel_inv k" and susp: "suspended (threads k t)" and time: "time < RT_TICK_MAX div 2"
  shows "\<exists>k'. start_thread_timer t time k = Some k' \<and> timed_wait t time k k'"
proof -
  let ?tm = "ThreadTimer t"
  define k1 where "k1 = upd_timer ?tm (\<lambda>t. t\<lparr>timer_init_tick := time\<rparr>) k"
  have tok: "thread_objs_ok k" and tinv: "timer_inv k" and wait: "wait_timers_ok k" and sch: "sched_inv k"
    using inv by (auto simp: kernel_inv_def)
  have obj: "thread_obj_ok t k" using tok susp by (auto simp: thread_objs_ok_def started_cases)
  have same1: "objs k1 = objs k" "timer_lists k1 = timer_lists k" "queues k1 = queues k"
      "threads k1 = threads k" "current_thread k1 = current_thread k"
      "ready_priority_group k1 = ready_priority_group k" "tick k1 = tick k"
      "timers k1 = (timers k)(?tm := (timers k ?tm)\<lparr>timer_init_tick := time\<rparr>)"
    by (simp_all add: k1_def upd_timer_def)
  have fr1: "ipc_frame k k1" by (simp add: ipc_frame_def k1_def upd_timer_def)
  have "is_timer ?tm k" using obj by (simp add: thread_obj_ok_def)
  then have tm1: "is_timer ?tm k1" using ipc_frameD(12) [OF fr1] by simp
  have hard: "list_of ?tm k1 = LHard" "\<not> soft_timer ?tm k1"
    using thread_timer_hard [OF obj] same1(1) by (simp_all add: list_of_def soft_timer_def timer_flag_def)
  have "timer_init_tick (timers k1 ?tm) < RT_TICK_MAX div 2" using time same1(8) by simp
  from timer_enlist_eq [OF tm1 this]
  obtain k' where k': "timer_enlist ?tm k1 = Some k'" "ipc_frame k1 k'" "queues k' = queues k1"
      "threads k' = threads k1" "current_thread k' = current_thread k1"
      "ready_priority_group k' = ready_priority_group k1"
      "timers k' = (timers k1)(?tm := (timers k1 ?tm)\<lparr>timeout_tick := tick k1 + timer_init_tick (timers k1 ?tm)\<rparr>)"
      "timer_lists k' = (\<lambda>l. removeAll ?tm (timer_lists k1 l))(LHard :=
         timer_insert (\<lambda>t. timeout_tick (timers k' t)) ?tm (removeAll ?tm (timer_lists k1 LHard)))"
      "timer_active ?tm k'" "\<forall>s. s \<noteq> ?tm \<longrightarrow> timer_active s k' = timer_active s k1"
      "soft_timer ?tm k' = soft_timer ?tm k1"
    unfolding hard(1) by blast
  have "start_thread_timer t time k = Some k'"
    using rt_timer_control_set_time [OF \<open>is_timer ?tm k\<close>] k'(1,11) hard(2)
    by (simp add: start_thread_timer_def rt_timer_start_def k1_def)
  moreover have "timed_wait t time k k'"
  proof -
    have fr: "ipc_frame k k'" using ipc_frame_trans [OF fr1 k'(2)] .
    have "sched_inv k'" using sch sched_inv_cong [of k' k] k' same1 by simp
    moreover have "thread_objs_ok k'"
      by (rule thread_objs_okI [OF tok fr]) (simp add: k'(4) same1(4))
    moreover have "timer_inv k'"
    proof (rule timer_inv_enlist [OF _ k'(8)])
      show "timer_inv k1" using tinv timer_inv_cong [OF same1(2,1)] by simp
    qed (use k'(9,10) in auto)
    moreover have "wait_timers_ok k'"
      unfolding wait_timers_ok_def
    proof (intro allI impI)
      fix l u assume l: "\<not> tmp_list l" and u: "ThreadTimer u \<in> set (timer_lists k' l)"
      show "suspended (threads k' u) \<and> l = LHard"
      proof (cases "u = t")
        case True
        then show ?thesis using u susp k'(4,8) same1(4) by (auto split: if_splits)
      next
        case False
        then have "ThreadTimer u \<in> set (timer_lists k l)"
          using u k'(8) same1(2) by (auto split: if_splits)
        then show ?thesis using wait l k'(4) same1(4) by (auto simp: wait_timers_ok_def)
      qed
    qed
    ultimately show ?thesis
      using fr k' same1 by (simp add: timed_wait_def kernel_inv_def)
  qed
  ultimately show ?thesis by blast
qed

lemma start_thread_timer_too_long:
  assumes "is_timer (ThreadTimer t) k" and "\<not> time < RT_TICK_MAX div 2"
  shows "start_thread_timer t time k = None"
proof -
  let ?k = "upd_timer (ThreadTimer t) (\<lambda>t. t\<lparr>timer_init_tick := time\<rparr>) k"
  have "timers ?k (ThreadTimer t) = (timers k (ThreadTimer t))\<lparr>timer_init_tick := time\<rparr>"
    by (simp add: upd_timer_def)
  then have "timer_enlist (ThreadTimer t) ?k = None"
    using assms(2) by (simp add: timer_enlist_def Let_def)
  then show ?thesis
    using rt_timer_control_set_time [OF assms(1)]
    by (simp add: start_thread_timer_def rt_timer_start_def)
qed

subsection \<open>The end of a wait\<close>

definition awake :: "tid \<Rightarrow> kernel \<Rightarrow> bool" where
  "awake t k \<longleftrightarrow> stat_class (threads k t) \<in> {RT_THREAD_READY, RT_THREAD_RUNNING}"

text \<open>The wait of a thread ends by a timeout: it is ready with the timeout error, and the scheduler
  runs.\<close>

lemma rt_thread_timeout_ok:
  assumes inv: "kernel_inv k" and susp: "suspended (threads k t)"
    and out: "\<And>l. \<not> tmp_list l \<Longrightarrow> ThreadTimer t \<notin> set (timer_lists k l)"
    and cur: "current_thread k = Some c"
  shows "\<exists>k'. rt_thread_timeout t k = Some k' \<and> kernel_inv k' \<and> ipc_frame k k'
    \<and> current_thread k' \<noteq> None
    \<and> error (threads k' t) = - RT_ETIMEOUT
    \<and> stat_class (threads k' t) \<in> {RT_THREAD_READY, RT_THREAD_RUNNING}
    \<and> timer_lists k' = timer_lists k \<and> timers k' = timers k \<and> objs k' = objs k
    \<and> (\<forall>q. \<not> ready_queue q \<longrightarrow> queues k' q = removeAll t (queues k q))
    \<and> (\<forall>s. s \<noteq> t \<longrightarrow> suspended (threads k s) \<longrightarrow> threads k' s = threads k s)
    \<and> (\<forall>s. s \<noteq> t \<longrightarrow> error (threads k' s) = error (threads k s)) \<and> others t k k' \<and> (\<forall>s. awake s k \<longrightarrow> awake s k')"
proof -
  define k1 where "k1 = upd_thread t (\<lambda>th. th\<lparr>error := - RT_ETIMEOUT\<rparr>) k"
  define k2 where "k2 = tlist_remove t k1"
  have inv1: "kernel_inv k1" unfolding k1_def by (rule kernel_inv_upd_other [OF inv]) simp_all
  have susp1: "suspended (threads k1 t)" using susp by (simp add: k1_def threads_upd_thread suspended_def)
  have core1: "core_inv {} k1" using inv1 by (simp add: kernel_inv_def sched_inv_def)
  have lists: "timer_lists k2 = timer_lists k1" "objs k2 = objs k1" "timers k2 = timers k1"
    "threads k2 = threads k1" "current_thread k2 = current_thread k1"
    by (simp_all add: k2_def tlist_remove_def)
  have "\<exists>k'. rt_schedule_insert_thread t k2 = Some k' \<and> wakes t k1 k'
    \<and> timer_lists k' = timer_lists k2 \<and> objs k' = objs k2"
  proof (rule wake_core [OF inv1 susp1, of k2 "wakeup_func (threads k1 t)"])
    show "core_inv {t} k2" unfolding k2_def by (rule core_inv_unlink_suspended [OF core1 susp1])
    show "timer_inv k2"
      using inv1 timer_inv_cong [OF lists(1,2)] by (simp add: kernel_inv_def)
    show "s \<in> set (timer_lists k1 l) \<and> s \<noteq> ThreadTimer t"
      if "\<not> tmp_list l" "s \<in> set (timer_lists k2 l)" for l s
      using that lists(1) out [OF that(1)] by (auto simp: k1_def)
  qed (use lists in \<open>simp_all add: k2_def\<close>)
  then obtain k3 where k3: "rt_schedule_insert_thread t k2 = Some k3" "wakes t k1 k3"
      "timer_lists k3 = timer_lists k2" "objs k3 = objs k2" by blast
  have fr3: "sched_frame k2 k3" using rt_schedule_insert_thread_frame [OF k3(1)] .
  have inv3: "kernel_inv k3" and ipc3: "ipc_frame k1 k3" and cur3: "current_thread k3 = Some c"
    and cls3: "stat_class (threads k3 t) \<in> {RT_THREAD_READY, RT_THREAD_RUNNING}"
    and q3: "\<forall>q. \<not> ready_queue q \<longrightarrow> queues k3 q = removeAll t (queues k1 q)"
    using k3(2) cur by (auto simp: wakes_def k1_def)
  obtain k' c' where k': "rt_schedule k3 = Some k'" "kernel_inv k'" "sched_frame k3 k'" "ipc_frame k3 k'"
      "current_thread k' = Some c'"
      "\<forall>t. stat_class (threads k3 t) \<notin> {RT_THREAD_READY, RT_THREAD_RUNNING} \<longrightarrow> threads k' t = threads k3 t"
      "\<forall>t. stat_class (threads k3 t) \<in> {RT_THREAD_READY, RT_THREAD_RUNNING} \<longrightarrow>
         stat_class (threads k' t) \<in> {RT_THREAD_READY, RT_THREAD_RUNNING}"
    using rt_schedule_ok [OF inv3 cur3] by blast
  obtain st w where thr3: "threads k3 = (threads k1)(t := (threads k1 t)\<lparr>wakeup_func := w, stat := st\<rparr>)"
    using k3(2) by (auto simp: wakes_def)
  have err: "error (threads k' s) = error (threads k1 s)" for s
    using sched_frame_thread(1) [OF k'(3)] thr3 by simp
  have others: "threads k' s = threads k s" if "s \<noteq> t" "suspended (threads k s)" for s
    using that k'(6) thr3 suspended_class [OF that(2)] by (simp add: k1_def threads_upd_thread)
  have obj: "is_thread t k"
    using inv susp by (auto simp: kernel_inv_def thread_objs_ok_def thread_obj_ok_def started_cases)
  have "rt_thread_timeout t k = Some k'"
    using susp obj k3(1) k'(1) by (simp add: rt_thread_timeout_def suspended_def k1_def k2_def)
  moreover have "ipc_frame k k'"
    using ipc_frame_trans [OF _ ipc_frame_trans [OF ipc3 k'(4)], of k] by (simp add: k1_def)
  moreover have "timer_lists k' = timer_lists k" "objs k' = objs k" "timers k' = timers k"
    using sched_frameD(1,5,6) [OF k'(3)] sched_frameD(1,5,6) [OF fr3] lists
    by (simp_all add: k1_def) (simp add: upd_thread_def)
  moreover have "queues k' q = removeAll t (queues k q)" if "\<not> ready_queue q" for q
    using q3 that sched_frameD(18) [OF k'(3) that] by (simp add: k1_def)
  moreover have "others t k k'"
  proof (rule others_trans [OF _ others_schedule [OF k'(3,6,7)]])
    show "others t k k3"
      by (rule others_upd [of k3 k t "(threads k t)\<lparr>error := - RT_ETIMEOUT, wakeup_func := w, stat := st\<rparr>"])
        (simp_all add: thr3 k1_def threads_upd_thread same_attrs_def)
  qed
  moreover have "awake s k \<longrightarrow> awake s k'" for s
  proof -
    have "awake s k \<longrightarrow> awake s k3" using cls3 by (simp add: awake_def thr3 k1_def threads_upd_thread)
    then show ?thesis using k'(7) unfolding awake_def by blast
  qed
  ultimately show ?thesis
    using k'(2,5,7) cls3 err others by (auto simp: k1_def threads_upd_thread)
qed

subsection \<open>Firing a timer\<close>

lemma timer_take_lists:
  "timer_lists (timer_take tmp tm k) = (\<lambda>l. removeAll tm (timer_lists k l))
     (tmp := tm # removeAll tm (timer_lists k tmp))"
  by (auto simp: timer_take_def deactivate_def timer_remove_def set_timer_flag_def upd_obj_def
      set_timer_list_def Let_def)

lemma timer_take_other:
  "queues (timer_take tmp tm k) = queues k" "threads (timer_take tmp tm k) = threads k"
  "current_thread (timer_take tmp tm k) = current_thread k" "tick (timer_take tmp tm k) = tick k"
  "ready_priority_group (timer_take tmp tm k) = ready_priority_group k"
  "timers (timer_take tmp tm k) = timers k"
  by (auto simp: timer_take_def deactivate_def timer_remove_def set_timer_flag_def upd_obj_def
      set_timer_list_def Let_def)

lemma periodic_mask [simp]:
  "(w AND NOT RT_TIMER_FLAG_ACTIVATED) AND RT_TIMER_FLAG_PERIODIC = w AND RT_TIMER_FLAG_PERIODIC"
  for w :: u8
  by (simp add: and.assoc rt_defs)

lemma timer_take_frame: "ipc_frame k (timer_take tmp tm k)"
  by (auto simp: timer_take_def deactivate_def timer_remove_def set_timer_flag_def upd_obj_def
      set_timer_list_def ipc_frame_def timer_flag_def Let_def)

lemma timer_take_active:
  "s \<noteq> tm \<Longrightarrow> timer_active s (timer_take tmp tm k) = timer_active s k"
  "timer_active tm (timer_take tmp tm k) \<longleftrightarrow> periodic_timer tm k \<and> timer_active tm k"
  by (auto simp: timer_take_def deactivate_def timer_remove_def set_timer_flag_def upd_obj_def
      set_timer_list_def timer_active_def timer_flag_def periodic_timer_def Let_def and.assoc)

lemma periodic_frame: "ipc_frame k k' \<Longrightarrow> periodic_timer tm k' = periodic_timer tm k"
proof -
  assume f: "ipc_frame k k'"
  have "timer_flag tm k' AND NOT RT_TIMER_FLAG_ACTIVATED = timer_flag tm k AND NOT RT_TIMER_FLAG_ACTIVATED"
    using f by (simp add: ipc_frame_def timer_flag_def)
  then show ?thesis unfolding periodic_timer_def by (metis periodic_mask)
qed

lemma soft_frame: "ipc_frame k k' \<Longrightarrow> soft_timer tm k' = soft_timer tm k"
proof -
  assume f: "ipc_frame k k'"
  have m: "(w AND NOT RT_TIMER_FLAG_ACTIVATED) AND RT_TIMER_FLAG_SOFT_TIMER = w AND RT_TIMER_FLAG_SOFT_TIMER"
    for w :: u8 by (simp add: and.assoc rt_defs)
  have "timer_flag tm k' AND NOT RT_TIMER_FLAG_ACTIVATED = timer_flag tm k AND NOT RT_TIMER_FLAG_ACTIVATED"
    using f by (simp add: ipc_frame_def timer_flag_def)
  then show ?thesis unfolding soft_timer_def by (metis m)
qed

text \<open>A change of the timer lists and activations only.\<close>

lemma kernel_inv_timers:
  assumes inv: "kernel_inv k" and frame: "ipc_frame k k'"
    and same: "queues k' = queues k" "threads k' = threads k" "current_thread k' = current_thread k"
      "ready_priority_group k' = ready_priority_group k"
    and tinv: "timer_inv k'"
    and sub: "\<And>l t. \<not> tmp_list l \<Longrightarrow> ThreadTimer t \<in> set (timer_lists k' l) \<Longrightarrow>
        ThreadTimer t \<in> set (timer_lists k l)"
  shows "kernel_inv k'"
proof -
  have "sched_inv k'" using inv sched_inv_cong [OF same(1,2,4,3)] by (simp add: kernel_inv_def)
  moreover have "thread_objs_ok k'"
    by (rule thread_objs_okI [OF _ frame]) (use inv same(2) in \<open>auto simp: kernel_inv_def\<close>)
  moreover have "wait_timers_ok k'"
    using inv sub same(2) by (auto simp: kernel_inv_def wait_timers_ok_def)
  ultimately show ?thesis using tinv by (simp add: kernel_inv_def)
qed

lemma timer_take_inv:
  assumes inv: "kernel_inv k" and tmp: "tmp_list tmp"
  shows "kernel_inv (timer_take tmp tm k)"
proof (rule kernel_inv_timers [OF inv timer_take_frame])
  have t: "timer_inv k" using inv by (simp add: kernel_inv_def)
  show "timer_inv (timer_take tmp tm k)"
    unfolding timer_inv_def
  proof (intro conjI allI impI)
    fix l show "distinct (timer_lists (timer_take tmp tm k) l)"
      using t by (simp add: timer_inv_def timer_take_lists distinct_removeAll)
  next
    fix l l' s assume "s \<in> set (timer_lists (timer_take tmp tm k) l)"
      "s \<in> set (timer_lists (timer_take tmp tm k) l')"
    then show "l = l'" using t by (auto simp: timer_inv_def timer_take_lists split: if_splits)
  next
    fix l s assume "\<not> tmp_list l" "s \<in> set (timer_lists (timer_take tmp tm k) l)"
    then have "s \<noteq> tm" "s \<in> set (timer_lists k l)" using tmp by (auto simp: timer_take_lists split: if_splits)
    then show "timer_active s (timer_take tmp tm k)"
      using t timer_take_active(1) \<open>\<not> tmp_list l\<close> by (simp add: timer_inv_def)
  qed
  show "ThreadTimer t \<in> set (timer_lists k l)"
    if "\<not> tmp_list l" "ThreadTimer t \<in> set (timer_lists (timer_take tmp tm k) l)" for l t
    using that tmp by (auto simp: timer_take_lists split: if_splits)
qed (simp_all add: timer_take_other)

lemma timer_inv_remove:
  assumes "timer_inv k" shows "timer_inv (timer_remove tm k)"
proof -
  have act: "timer_active s (timer_remove tm k) = timer_active s k" for s
    by (simp add: timer_active_def timer_flag_def timer_remove_def)
  have ls: "timer_lists (timer_remove tm k) l = removeAll tm (timer_lists k l)" for l
    by (simp add: timer_remove_def)
  show ?thesis
    using assms unfolding timer_inv_def act ls by (simp add: distinct_removeAll) blast
qed

lemma hard_timer_suspended:
  "kernel_inv k \<Longrightarrow> ThreadTimer t \<in> set (timer_lists k LHard) \<Longrightarrow> suspended (threads k t)"
  unfolding kernel_inv_def wait_timers_ok_def by (metis tmp_list.simps(3))

text \<open>The kernel's own callback on a due thread timer.\<close>

lemma timer_fire_thread:
  assumes inv: "kernel_inv k" and tm: "ThreadTimer t \<in> set (timer_lists k LHard)"
    and tmp: "timer_lists k LTmpHard = []" and cur: "current_thread k \<noteq> None"
  shows "\<exists>k'. timer_fire call (ThreadTimer t) k = Some k' \<and> kernel_inv k' \<and> ipc_frame k k'
    \<and> current_thread k' \<noteq> None
    \<and> error (threads k' t) = - RT_ETIMEOUT
    \<and> stat_class (threads k' t) \<in> {RT_THREAD_READY, RT_THREAD_RUNNING}
    \<and> timer_lists k' = (\<lambda>l. removeAll (ThreadTimer t) (timer_lists k l)) \<and> timers k' = timers k
    \<and> (\<forall>q. \<not> ready_queue q \<longrightarrow> queues k' q = removeAll t (queues k q))
    \<and> (\<forall>s. s \<noteq> t \<longrightarrow> suspended (threads k s) \<longrightarrow> threads k' s = threads k s)
    \<and> others t k k'"
proof -
  let ?tm = "ThreadTimer t"
  define k1 where "k1 = timer_take LTmpHard ?tm k"
  have susp: "suspended (threads k t)"
    by (rule hard_timer_suspended [OF inv tm])
  have obj: "thread_obj_ok t k"
    using inv susp by (auto simp: kernel_inv_def thread_objs_ok_def started_cases)
  have inv1: "kernel_inv k1" unfolding k1_def by (rule timer_take_inv [OF inv]) simp
  have "suspended (threads k1 t)" using susp by (simp add: k1_def timer_take_other)
  moreover have "?tm \<notin> set (timer_lists k1 l)" if "\<not> tmp_list l" for l
    using that by (auto simp: k1_def timer_take_lists)
  moreover obtain c where "current_thread k1 = Some c" using cur by (auto simp: k1_def timer_take_other)
  ultimately obtain k2 where k2: "rt_thread_timeout t k1 = Some k2" "kernel_inv k2" "ipc_frame k1 k2"
      "current_thread k2 \<noteq> None" "error (threads k2 t) = - RT_ETIMEOUT"
      "stat_class (threads k2 t) \<in> {RT_THREAD_READY, RT_THREAD_RUNNING}"
      "timer_lists k2 = timer_lists k1" "timers k2 = timers k1" "objs k2 = objs k1"
      "\<forall>q. \<not> ready_queue q \<longrightarrow> queues k2 q = removeAll t (queues k1 q)"
      "\<forall>s. s \<noteq> t \<longrightarrow> suspended (threads k1 s) \<longrightarrow> threads k2 s = threads k1 s" "others t k1 k2"
    using rt_thread_timeout_ok [OF inv1] by blast
  have fr2: "ipc_frame k k2" using ipc_frame_trans [OF timer_take_frame k2(3) [unfolded k1_def]] .
  have nper: "\<not> periodic_timer ?tm (timer_remove ?tm k2)"
    using thread_timer_oneshot [OF obj] periodic_frame [OF fr2]
    by (simp add: periodic_timer_def timer_flag_def timer_remove_def)
  have "call_timeout call ?tm k1 = Some k2"
    using obj k2(1) by (simp add: call_timeout_def k1_def timer_take_other thread_obj_ok_def)
  then have fire: "timer_fire call ?tm k = Some (timer_remove ?tm k2)"
    using k2(7) nper by (simp add: timer_fire_def timer_put_back_def k1_def [symmetric])
      (simp add: k1_def timer_take_lists)
  have lists: "timer_lists (timer_remove ?tm k2) = (\<lambda>l. removeAll ?tm (timer_lists k l))"
    using k2(7) tmp by (auto simp: timer_remove_def k1_def timer_take_lists)
  have "kernel_inv (timer_remove ?tm k2)"
  proof (rule kernel_inv_timers [OF k2(2)])
    show "ipc_frame k2 (timer_remove ?tm k2)" by (simp add: timer_remove_def ipc_frame_def)
    show "timer_inv (timer_remove ?tm k2)"
      using k2(2) timer_inv_remove by (auto simp: kernel_inv_def)
  qed (auto simp: timer_remove_def)
  moreover have "ipc_frame k (timer_remove ?tm k2)"
    by (rule ipc_frame_trans [OF fr2]) (simp add: timer_remove_def ipc_frame_def)
  moreover have same: "threads (timer_remove ?tm k2) = threads k2" "queues (timer_remove ?tm k2) = queues k2"
      "current_thread (timer_remove ?tm k2) = current_thread k2" "timers (timer_remove ?tm k2) = timers k2"
      "threads k1 = threads k" "queues k1 = queues k" "timers k1 = timers k"
    by (simp_all add: timer_remove_def k1_def timer_take_other)
  moreover have "others t k (timer_remove ?tm k2)"
    using k2(12) unfolding others_def same by blast
  ultimately show ?thesis
    by (intro exI [of _ "timer_remove ?tm k2"] conjI fire lists)
      (use k2(4,5,6,8,10,11) in \<open>simp_all only: same simp_thms\<close>)
qed

text \<open>The sample system with thread 3 waiting for semaphore 0, its timer running.\<close>

definition sample_waiting :: kernel where
  "sample_waiting = sample_kernel\<lparr>
     objs := (objs sample_kernel)(OTimer (ThreadTimer 3) := zero_object\<lparr>obj_type := 0x8a, obj_flag := RT_TIMER_FLAG_ACTIVATED\<rparr>),
     threads := (threads sample_kernel)(3 := sample_thread RT_THREAD_SUSPEND_UNINTERRUPTIBLE 10),
     queues := (queues reset_kernel)(QReady 5 := [2], QSem 0 := [3]),
     ready_priority_group := 0x20,
     timers := (timers sample_kernel)(ThreadTimer 3 := (timers sample_kernel (ThreadTimer 3))
        \<lparr>timer_init_tick := 7, timeout_tick := 7\<rparr>),
     timer_lists := (\<lambda>_. [])(LHard := [ThreadTimer 3])\<rparr>"

lemmas sample_waiting_defs = sample_waiting_def sample_kernel_def sample_thread_def reset_kernel_def
  zero_thread_def zero_object_def zero_timer_def

lemma sample_waiting_sched: "sched_inv sample_waiting"
proof -
  have "core_inv {} sample_waiting"
  proof (rule core_invI)
    fix p t
    show "(t \<in> set (queues sample_waiting (QReady p))) =
      (stat_class (threads sample_waiting t) = RT_THREAD_READY \<and>
       unat (current_priority (threads sample_waiting t)) = p)"
      by (auto simp: sample_waiting_defs stat_class_def rt_defs)
  next
    fix q q' t assume "t \<in> set (queues sample_waiting q)" "t \<in> set (queues sample_waiting q')"
    then show "q = q'" by (auto simp: sample_waiting_defs split: if_splits)
  next
    fix p assume p: "p < RT_THREAD_PRIORITY_MAX"
    have "(0x20 :: u32) = 0 OR 2 ^ 5" by simp
    then have "bit (0x20 :: u32) p \<longleftrightarrow> p = 5"
      using bit_set_mask [of p 0 5] p by (metis RT_THREAD_PRIORITY_MAX_def bit_0_eq bot_apply bot_bool_def)
    then show "bit (ready_priority_group sample_waiting) p = (queues sample_waiting (QReady p) \<noteq> [])"
      by (simp add: sample_waiting_defs)
  qed (auto simp: sample_waiting_defs started_def prio_ok_def suspended_def stat_class_def rt_defs
      split: if_splits)
  then show ?thesis
    by (auto simp: sched_inv_def running_inv_def sample_waiting_defs stat_class_def rt_defs
        split: if_splits)
qed

lemma sample_waiting_inv: "kernel_inv sample_waiting"
proof -
  have "thread_obj_ok t sample_waiting" for t
    by (simp add: thread_obj_ok_def is_thread_def is_timer_def rt_object_get_type_def timer_flag_def
        sample_waiting_defs rt_defs)
  moreover have "wait_timers_ok sample_waiting"
    by (simp add: wait_timers_ok_def sample_waiting_defs suspended_def rt_defs)
  moreover have "timer_inv sample_waiting"
    by (auto simp: timer_inv_def timer_active_def timer_flag_def sample_waiting_defs rt_defs
        split: if_splits)
  ultimately show ?thesis
    using sample_waiting_sched by (simp add: kernel_inv_def thread_objs_ok_def)
qed

text \<open>C21: A thread waiting with a timeout is released when its timer fires: its built-in timer leaves
  the list, the thread leaves the list it waits in, becomes ready (or runs) and carries the timeout
  error, all invariants are kept and no other waiting thread is touched.\<close>

theorem timeout_releases_waiter:
  assumes "kernel_inv k" and "ThreadTimer t \<in> set (timer_lists k LHard)"
    and "timer_lists k LTmpHard = []" and "current_thread k \<noteq> None"
  shows "\<exists>k'. timer_fire call (ThreadTimer t) k = Some k' \<and> kernel_inv k'
    \<and> error (threads k' t) = - RT_ETIMEOUT
    \<and> stat_class (threads k' t) \<in> {RT_THREAD_READY, RT_THREAD_RUNNING}
    \<and> (\<forall>q. \<not> ready_queue q \<longrightarrow> t \<notin> set (queues k' q))
    \<and> (\<forall>l. ThreadTimer t \<notin> set (timer_lists k' l))
    \<and> (\<forall>s. s \<noteq> t \<longrightarrow> suspended (threads k s) \<longrightarrow> threads k' s = threads k s)"
  using timer_fire_thread [OF assms, of call] by auto

theorem timeout_releases_waiter_witness:
  "\<exists>k'. timer_fire (\<lambda>_ _. Some) (ThreadTimer 3) sample_waiting = Some k'
    \<and> error (threads k' 3) = - RT_ETIMEOUT \<and> (\<forall>q. \<not> ready_queue q \<longrightarrow> 3 \<notin> set (queues k' q))"
proof -
  have "ThreadTimer 3 \<in> set (timer_lists sample_waiting LHard)"
    "timer_lists sample_waiting LTmpHard = []" "current_thread sample_waiting \<noteq> None"
    by (simp_all add: sample_waiting_defs)
  from timeout_releases_waiter [OF sample_waiting_inv this] show ?thesis by blast
qed

text \<open>Sleeping suspends the caller and starts its timer.\<close>

lemma rt_thread_sleep_ok:
  assumes inv: "kernel_inv k" and cur: "current_thread k = Some c"
    and run: "stat_class (threads k c) = RT_THREAD_RUNNING"
    and sig: "lwp_suspend_sigcheck c RT_INTERRUPTIBLE k = Some True"
    and tk: "tk < RT_TICK_MAX div 2"
  shows "\<exists>k'. rt_thread_sleep tk k = Some (Waiting, k') \<and> kernel_inv k' \<and> current_thread k' \<noteq> None
    \<and> suspended (threads k' c) \<and> error (threads k' c) = - RT_EINTR
    \<and> ThreadTimer c \<in> set (timer_lists k' LHard) \<and> tick k' = tick k
    \<and> timeout_tick (timers k' (ThreadTimer c)) = tick k + tk"
proof -
  have f: "flag_ok RT_INTERRUPTIBLE" by (simp add: flag_ok_def)
  obtain k1 where k1: "rt_thread_suspend_with_flag c RT_INTERRUPTIBLE k = Some (RT_EOK, k1)" "suspends c k k1"
    using rt_thread_suspend_ok [OF inv _ f sig] run by auto
  have inv1: "kernel_inv k1" "suspended (threads k1 c)" "current_thread k1 = Some c" "ipc_frame k k1"
    using k1(2) cur by (simp_all add: suspends_def)
  obtain k2 where k2: "start_thread_timer c tk k1 = Some k2" "timed_wait c tk k1 k2"
    using start_thread_timer_ok [OF inv1(1,2) tk] by blast
  define k3 where "k3 = upd_thread c (\<lambda>th. th\<lparr>error := - RT_EINTR\<rparr>) k2"
  have inv3: "kernel_inv k3"
    unfolding k3_def by (rule kernel_inv_upd_other) (use k2(2) in \<open>simp_all add: timed_wait_def\<close>)
  have cur3: "current_thread k3 = Some c" using k2(2) inv1(3) by (simp add: k3_def timed_wait_def)
  have susp3: "suspended (threads k3 c)"
    using k2(2) inv1(2) by (simp add: k3_def timed_wait_def threads_upd_thread suspended_def)
  from rt_schedule_ok [OF inv3 cur3] obtain k' c' where k': "rt_schedule k3 = Some k'" "kernel_inv k'"
      "sched_frame k3 k'" "current_thread k' = Some c'" "threads k' c = threads k3 c"
    using suspended_class [OF susp3] by blast
  have "is_thread c k"
    using inv run by (auto simp: kernel_inv_def thread_objs_ok_def thread_obj_ok_def started_cases)
  then have "rt_thread_sleep tk k = Some (Waiting, k')"
    using cur k1(1) k2(1) k'(1) by (simp add: rt_thread_sleep_def rt_thread_self_def k3_def)
  moreover have "timer_lists k' = timer_lists k2" "timers k' = timers k2" "tick k' = tick k"
    using sched_frameD(4,5,6) [OF k'(3)] ipc_frameD(7) [OF inv1(4)] k2(2)
    by (auto simp: k3_def upd_thread_def timed_wait_def ipc_frame_def)
  ultimately show ?thesis
    using k'(2,4,5) susp3 k2(2) ipc_frameD(7) [OF inv1(4)]
    by (auto simp: k3_def threads_upd_thread timed_wait_def)
qed

lemma rt_thread_sleep_too_long:
  assumes inv: "kernel_inv k" and cur: "current_thread k = Some c"
    and run: "stat_class (threads k c) = RT_THREAD_RUNNING"
    and sig: "lwp_suspend_sigcheck c RT_INTERRUPTIBLE k = Some True"
    and tk: "\<not> tk < RT_TICK_MAX div 2"
  shows "rt_thread_sleep tk k = None"
proof -
  have f: "flag_ok RT_INTERRUPTIBLE" by (simp add: flag_ok_def)
  obtain k1 where k1: "rt_thread_suspend_with_flag c RT_INTERRUPTIBLE k = Some (RT_EOK, k1)" "suspends c k k1"
    using rt_thread_suspend_ok [OF inv _ f sig] run by auto
  have "is_timer (ThreadTimer c) k"
    using inv run by (auto simp: kernel_inv_def thread_objs_ok_def thread_obj_ok_def started_cases)
  then have "is_timer (ThreadTimer c) k1"
    using k1(2) ipc_frameD(12) [of k k1] by (auto simp: suspends_def)
  from start_thread_timer_too_long [OF this tk] show ?thesis
    using cur k1(1) by (simp add: rt_thread_sleep_def rt_thread_self_def)
qed

lemma expired_at:
  fixes i tk now :: u32
  assumes "tk < RT_TICK_MAX div 2" and "i \<le> tk"
  shows "expired (now + i) (now + tk) \<longleftrightarrow> i = tk"
proof -
  have "now + i - (now + tk) = i - tk" by simp
  moreover have "unat (i - tk) = (if i = tk then 0 else 2 ^ 32 - (unat tk - unat i))"
    using assms(2) by (subst unat_sub_if_size) (auto simp: word_size word_le_nat_alt word_unat_eq_iff)
  ultimately show ?thesis
    using assms by (auto simp: expired_def word_less_nat_alt word_le_nat_alt tick_half)
qed

text \<open>C26: A running thread that sleeps for fewer than half the tick range (and has no signal
  pending) is suspended with its timer in the list of running timers, and the tick test of the check loop holds for
  that timer \<open>tk\<close> ticks later and not before; when the timer fires, the thread is
  ready or runs again, the call returns \<open>RT_EOK\<close> and the thread's error is cleared.  The bound is
  sharp: from half the range on, the assertion in \<open>rt_timer_start\<close> halts the system.\<close>

theorem sleep_wakes:
  assumes "kernel_inv k" and "current_thread k = Some c"
    and "stat_class (threads k c) = RT_THREAD_RUNNING"
    and "lwp_suspend_sigcheck c RT_INTERRUPTIBLE k = Some True"
  shows "(tk < RT_TICK_MAX div 2 \<longrightarrow> (\<exists>k'. rt_thread_sleep tk k = Some (Waiting, k') \<and> kernel_inv k'
      \<and> suspended (threads k' c) \<and> ThreadTimer c \<in> set (timer_lists k' LHard)
      \<and> timeout_tick (timers k' (ThreadTimer c)) = tick k + tk
      \<and> (\<forall>i\<le>tk. expired (tick k + i) (timeout_tick (timers k' (ThreadTimer c))) \<longleftrightarrow> i = tk)
      \<and> (timer_lists k' LTmpHard = [] \<longrightarrow> (\<exists>k2. timer_fire call (ThreadTimer c) k' = Some k2
          \<and> stat_class (threads k2 c) \<in> {RT_THREAD_READY, RT_THREAD_RUNNING}
          \<and> fst (rt_thread_sleep_resume c k2) = RT_EOK
          \<and> error (threads (snd (rt_thread_sleep_resume c k2)) c) = RT_EOK))))
    \<and> (\<not> tk < RT_TICK_MAX div 2 \<longrightarrow> rt_thread_sleep tk k = None)"
proof (intro conjI impI)
  assume "tk < RT_TICK_MAX div 2"
  with rt_thread_sleep_ok [OF assms] obtain k' where k': "rt_thread_sleep tk k = Some (Waiting, k')"
      "kernel_inv k'" "current_thread k' \<noteq> None" "suspended (threads k' c)"
      "ThreadTimer c \<in> set (timer_lists k' LHard)" "timeout_tick (timers k' (ThreadTimer c)) = tick k + tk"
    by blast
  note exp = expired_at [OF \<open>tk < RT_TICK_MAX div 2\<close>, of _ "tick k"]
  have "\<exists>k2. timer_fire call (ThreadTimer c) k' = Some k2
      \<and> stat_class (threads k2 c) \<in> {RT_THREAD_READY, RT_THREAD_RUNNING}
      \<and> fst (rt_thread_sleep_resume c k2) = RT_EOK
      \<and> error (threads (snd (rt_thread_sleep_resume c k2)) c) = RT_EOK"
    if tmp: "timer_lists k' LTmpHard = []"
    using timer_fire_thread [OF k'(2,5) tmp k'(3), of call]
    by (auto simp: rt_thread_sleep_resume_def clear_timeout_error_def threads_upd_thread)
  with k' exp show "\<exists>k'. rt_thread_sleep tk k = Some (Waiting, k') \<and> kernel_inv k'
      \<and> suspended (threads k' c) \<and> ThreadTimer c \<in> set (timer_lists k' LHard)
      \<and> timeout_tick (timers k' (ThreadTimer c)) = tick k + tk
      \<and> (\<forall>i\<le>tk. expired (tick k + i) (timeout_tick (timers k' (ThreadTimer c))) \<longleftrightarrow> i = tk)
      \<and> (timer_lists k' LTmpHard = [] \<longrightarrow> (\<exists>k2. timer_fire call (ThreadTimer c) k' = Some k2
          \<and> stat_class (threads k2 c) \<in> {RT_THREAD_READY, RT_THREAD_RUNNING}
          \<and> fst (rt_thread_sleep_resume c k2) = RT_EOK
          \<and> error (threads (snd (rt_thread_sleep_resume c k2)) c) = RT_EOK))"
    by auto
next
  assume "\<not> tk < RT_TICK_MAX div 2"
  then show "rt_thread_sleep tk k = None" by (rule rt_thread_sleep_too_long [OF assms])
qed

theorem sleep_wakes_witness:
  "(\<exists>k'. rt_thread_sleep 5 sample_kernel = Some (Waiting, k') \<and> suspended (threads k' 1))
    \<and> rt_thread_sleep 0x7fffffff sample_kernel = None"
proof -
  have f: "current_thread sample_kernel = Some 1" "stat_class (threads sample_kernel 1) = RT_THREAD_RUNNING"
    "lwp_suspend_sigcheck 1 RT_INTERRUPTIBLE sample_kernel = Some True"
    by (simp_all add: sample_waiting_defs stat_class_def lwp_suspend_sigcheck_def
        lwp_thread_signal_check_def rt_defs)
  have "(5 :: u32) < RT_TICK_MAX div 2" "\<not> (0x7fffffff :: u32) < RT_TICK_MAX div 2"
    by (simp_all add: word_less_nat_alt tick_half)
  then show ?thesis
    using sleep_wakes [OF sample_kernel_kinv f, of 5 "\<lambda>_ _. Some"]
      sleep_wakes [OF sample_kernel_kinv f, of "0x7fffffff" "\<lambda>_ _. Some"] by blast
qed

subsection \<open>Callbacks\<close>

text \<open>What the tick processing relies on in a callback: it returns, keeps the invariant, does not
  change the tick nor the description of a timer, and starts no timer.  The only timers it stops are the built-in ones
  of the threads it wakes, and it suspends no thread.\<close>

definition timers_only_stopped :: "kernel \<Rightarrow> kernel \<Rightarrow> bool" where
  "timers_only_stopped k k' \<longleftrightarrow>
     (\<exists>P. (\<forall>l. timer_lists k' l = filter P (timer_lists k l)) \<and>
        (\<forall>tm. \<not> P tm \<longrightarrow> (\<exists>t. tm = ThreadTimer t \<and> awake t k')) \<and>
        (\<forall>tm. P tm \<longrightarrow> timer_active tm k \<longrightarrow> timer_active tm k')) \<and>
     (\<forall>t. awake t k \<longrightarrow> awake t k') \<and> timers k' = timers k \<and> tick k' = tick k \<and>
     (\<forall>x. obj_type (objs k' x) = obj_type (objs k x) \<and>
        obj_flag (objs k' x) AND NOT RT_TIMER_FLAG_ACTIVATED =
          obj_flag (objs k x) AND NOT RT_TIMER_FLAG_ACTIVATED)"

locale timer_callbacks =
  fixes call :: "nat \<Rightarrow> nat \<Rightarrow> kernel \<Rightarrow> kernel option"
  assumes call_ok: "kernel_inv k \<Longrightarrow> current_thread k \<noteq> None \<Longrightarrow>
    \<exists>k'. call f p k = Some k' \<and> kernel_inv k' \<and> current_thread k' \<noteq> None \<and> timers_only_stopped k k'"

text \<open>The timers of the hard list: timer objects, hard ones, in the order of their expiry, none overdue, with periods
  below half the range; and in \<open>hard_list_ok\<close> also with positive periods.\<close>

definition hard_timer_ok :: "kernel \<Rightarrow> timerid \<Rightarrow> bool" where
  "hard_timer_ok k tm \<longleftrightarrow>
     is_timer tm k \<and> \<not> soft_timer tm k \<and>
     (periodic_timer tm k \<longrightarrow> timer_init_tick (timers k tm) < RT_TICK_MAX div 2) \<and>
     (timeout_func (timers k tm) = Rt_thread_timeout \<longrightarrow>
        tm = ThreadTimer (timer_parameter (timers k tm)))"

definition hard_list_sane :: "kernel \<Rightarrow> bool" where
  "hard_list_sane k \<longleftrightarrow>
     list_ordered LHard (tick k) k \<and> timer_lists k LTmpHard = [] \<and>
     (\<forall>tm\<in>set (timer_lists k LHard). hard_timer_ok k tm)"

definition hard_list_ok :: "kernel \<Rightarrow> bool" where
  "hard_list_ok k \<longleftrightarrow> hard_list_sane k \<and>
     (\<forall>tm\<in>set (timer_lists k LHard). periodic_timer tm k \<longrightarrow> 0 < timer_init_tick (timers k tm))"

definition due :: "kernel \<Rightarrow> timerid \<Rightarrow> bool" where
  "due k tm \<longleftrightarrow> timeout_tick (timers k tm) = tick k"

lemma ahead_self [simp]: "ahead b b = 0"
  by (simp add: ahead_def)

lemma ahead_eq_0 [simp]: "ahead b t = 0 \<longleftrightarrow> t = b"
  by (simp add: ahead_def unat_eq_0)

lemma expired_iff_due:
  assumes "ahead now t < 2147483647"
  shows "expired now t \<longleftrightarrow> t = now"
proof -
  have "unat (now - t) = (if t = now then 0 else 2 ^ 32 - ahead now t)"
    using unat_diff_wrap [of now t now] by auto
  then show ?thesis
    using assms by (auto simp: expired_def word_less_nat_alt tick_half)
qed

lemma flags_frame:
  assumes "\<forall>x. obj_type (objs k' x) = obj_type (objs k x) \<and>
        obj_flag (objs k' x) AND NOT RT_TIMER_FLAG_ACTIVATED =
          obj_flag (objs k x) AND NOT RT_TIMER_FLAG_ACTIVATED"
  shows "periodic_timer tm k' = periodic_timer tm k" "soft_timer tm k' = soft_timer tm k"
    "is_timer tm k' = is_timer tm k"
proof -
  have m: "(w AND NOT RT_TIMER_FLAG_ACTIVATED) AND RT_TIMER_FLAG_SOFT_TIMER = w AND RT_TIMER_FLAG_SOFT_TIMER"
    for w :: u8 by (simp add: and.assoc rt_defs)
  have "timer_flag tm k' AND NOT RT_TIMER_FLAG_ACTIVATED = timer_flag tm k AND NOT RT_TIMER_FLAG_ACTIVATED"
    using assms by (simp add: timer_flag_def)
  then show "periodic_timer tm k' = periodic_timer tm k" "soft_timer tm k' = soft_timer tm k"
    unfolding soft_timer_def periodic_timer_def by (metis periodic_mask, metis m)
  show "is_timer tm k' = is_timer tm k"
    using assms by (simp add: is_timer_def rt_object_get_type_def)
qed

lemma timers_only_stopped_same:
  assumes "timer_lists k' = timer_lists k" "timers k' = timers k" "tick k' = tick k" "objs k' = objs k"
    and "\<And>t. awake t k \<Longrightarrow> awake t k'"
  shows "timers_only_stopped k k'"
  unfolding timers_only_stopped_def
  by (intro conjI exI [of _ "\<lambda>_. True"]) (use assms in \<open>simp_all add: timer_active_def timer_flag_def\<close>)

lemma hard_timer_ok_frame:
  assumes "\<forall>x. obj_type (objs k' x) = obj_type (objs k x) \<and>
        obj_flag (objs k' x) AND NOT RT_TIMER_FLAG_ACTIVATED =
          obj_flag (objs k x) AND NOT RT_TIMER_FLAG_ACTIVATED"
    and "timeout_func (timers k' tm) = timeout_func (timers k tm)"
    and "timer_parameter (timers k' tm) = timer_parameter (timers k tm)"
    and "timer_init_tick (timers k' tm) = timer_init_tick (timers k tm)"
  shows "hard_timer_ok k' tm = hard_timer_ok k tm"
  using assms(2-) by (simp add: hard_timer_ok_def flags_frame [OF assms(1)])

lemma kernel_inv_remove:
  assumes "kernel_inv k" shows "kernel_inv (timer_remove tm k)"
proof (rule kernel_inv_timers [OF assms])
  show "ipc_frame k (timer_remove tm k)" by (simp add: timer_remove_def ipc_frame_def)
  show "timer_inv (timer_remove tm k)"
    using assms timer_inv_remove by (auto simp: kernel_inv_def)
qed (auto simp: timer_remove_def)

lemma kernel_inv_deactivate:
  assumes "kernel_inv k" shows "kernel_inv (deactivate tm (timer_remove tm k))"
proof (rule kernel_inv_timers [OF assms])
  show "ipc_frame k (deactivate tm (timer_remove tm k))"
    by (rule ipc_frame_timer [OF timer_frame_deactivate])
  show "timer_inv (deactivate tm (timer_remove tm k))"
    using assms timer_inv_deactivate by (auto simp: kernel_inv_def)
qed (use timer_frameD [OF timer_frame_deactivate] in auto)

text \<open>Starting a hard timer that is not a thread's.\<close>

lemma timer_start_hard:
  assumes inv: "kernel_inv k" and tm: "is_timer tm k" "\<not> soft_timer tm k" "\<And>t. tm \<noteq> ThreadTimer t"
    and time: "timer_init_tick (timers k tm) < RT_TICK_MAX div 2"
  shows "\<exists>k'. rt_timer_start tm k = Some (RT_EOK, k') \<and> kernel_inv k' \<and> ipc_frame k k'
    \<and> current_thread k' = current_thread k \<and> threads k' = threads k
    \<and> timers k' = (timers k)(tm := (timers k tm)\<lparr>timeout_tick := tick k + timer_init_tick (timers k tm)\<rparr>)
    \<and> timer_lists k' = (\<lambda>l. removeAll tm (timer_lists k l))(LHard :=
         timer_insert (\<lambda>t. timeout_tick (timers k' t)) tm (removeAll tm (timer_lists k LHard)))"
proof -
  have hard: "list_of tm k = LHard" using tm(2) by (simp add: list_of_def)
  from timer_enlist_eq [OF tm(1) time]
  obtain k' where k': "timer_enlist tm k = Some k'" "ipc_frame k k'" "queues k' = queues k"
      "threads k' = threads k" "current_thread k' = current_thread k"
      "ready_priority_group k' = ready_priority_group k"
      "timers k' = (timers k)(tm := (timers k tm)\<lparr>timeout_tick := tick k + timer_init_tick (timers k tm)\<rparr>)"
      "timer_lists k' = (\<lambda>l. removeAll tm (timer_lists k l))(LHard :=
         timer_insert (\<lambda>t. timeout_tick (timers k' t)) tm (removeAll tm (timer_lists k LHard)))"
      "timer_active tm k'" "\<forall>s. s \<noteq> tm \<longrightarrow> timer_active s k' = timer_active s k"
      "soft_timer tm k' = soft_timer tm k"
    unfolding hard by blast
  have "kernel_inv k'"
  proof (rule kernel_inv_timers [OF inv k'(2-6)])
    show "timer_inv k'"
      by (rule timer_inv_enlist [OF _ k'(8,9)]) (use inv k'(10) in \<open>auto simp: kernel_inv_def\<close>)
    show "ThreadTimer t \<in> set (timer_lists k l)" if "ThreadTimer t \<in> set (timer_lists k' l)" for l t
      using that k'(8) tm(3) by (auto split: if_splits)
  qed
  moreover have "rt_timer_start tm k = Some (RT_EOK, k')"
    using k'(1,11) tm(2) by (simp add: rt_timer_start_def)
  ultimately show ?thesis using k' by blast
qed

lemma thread_timer_obj:
  assumes "kernel_inv k" and "ThreadTimer t \<in> set (timer_lists k LHard)"
  shows "thread_obj_ok t k"
  using hard_timer_suspended [OF assms] assms(1) by (auto simp: kernel_inv_def thread_objs_ok_def started_cases)

context timer_callbacks
begin

text \<open>The callback of a timer of the hard list, whichever it is.\<close>

lemma call_timeout_ok:
  assumes inv: "kernel_inv k" and cur: "current_thread k \<noteq> None" and tm: "tm \<in> set (timer_lists k LHard)"
    and ok: "hard_timer_ok k tm"
  shows "\<exists>k'. call_timeout call tm (timer_take LTmpHard tm k) = Some k' \<and> kernel_inv k'
    \<and> current_thread k' \<noteq> None \<and> timers_only_stopped (timer_take LTmpHard tm k) k'
    \<and> (\<forall>t. tm = ThreadTimer t \<longrightarrow> awake t k')"
proof -
  let ?k1 = "timer_take LTmpHard tm k"
  have inv1: "kernel_inv ?k1" by (rule timer_take_inv [OF inv]) simp
  have cur1: "current_thread ?k1 \<noteq> None" using cur by (simp add: timer_take_other)
  show ?thesis
  proof (cases "timeout_func (timers k tm)")
    case (UserFn f)
    have "tm \<noteq> ThreadTimer t" for t
    proof
      assume "tm = ThreadTimer t"
      then show False using thread_timer_obj [OF inv, of t] tm UserFn by (simp add: thread_obj_ok_def)
    qed
    then show ?thesis
      using UserFn call_ok [OF inv1 cur1] by (simp add: call_timeout_def timer_take_other)
  next
    case Rt_thread_timeout
    define t where "t = timer_parameter (timers k tm)"
    have t: "tm = ThreadTimer t" using ok Rt_thread_timeout by (simp add: hard_timer_ok_def t_def)
    have "suspended (threads ?k1 t)"
      using hard_timer_suspended [OF inv] tm t by (simp add: timer_take_other)
    moreover have "ThreadTimer t \<notin> set (timer_lists ?k1 l)" if "\<not> tmp_list l" for l
      using that t by (auto simp: timer_take_lists)
    moreover obtain c where "current_thread ?k1 = Some c" using cur1 by blast
    ultimately obtain k' where k': "rt_thread_timeout t ?k1 = Some k'" "kernel_inv k'" "ipc_frame ?k1 k'"
        "current_thread k' \<noteq> None" "stat_class (threads k' t) \<in> {RT_THREAD_READY, RT_THREAD_RUNNING}"
        "timer_lists k' = timer_lists ?k1" "timers k' = timers ?k1" "objs k' = objs ?k1" "\<forall>s. awake s ?k1 \<longrightarrow> awake s k'"
      using rt_thread_timeout_ok [OF inv1] by blast
    have "timers_only_stopped ?k1 k'"
      by (rule timers_only_stopped_same) (use k'(6-9) ipc_frameD(7) [OF k'(3)] in blast)+
    moreover have "call_timeout call tm ?k1 = Some k'"
      using Rt_thread_timeout k'(1) by (simp add: call_timeout_def timer_take_other t_def)
    moreover have "awake t k'" using k'(5) by (simp add: awake_def)
    ultimately show ?thesis using k'(2,4) t by blast
  qed
qed

end

text \<open>One timer of the hard list has been processed.  Only the built-in timers of threads that are awake now have left
  the list; a periodic timer is listed again for one period later.\<close>

definition fire_filter :: "(timerid \<Rightarrow> bool) \<Rightarrow> timerid \<Rightarrow> timerid list \<Rightarrow> kernel \<Rightarrow> kernel \<Rightarrow> bool" where
  "fire_filter P tm rest k k' \<longleftrightarrow> (\<forall>s. \<not> P s \<longrightarrow> (\<exists>t. s = ThreadTimer t \<and> awake t k')) \<and>
     (if periodic_timer tm k \<and> P tm
      then timers k' = (timers k)(tm := (timers k tm)\<lparr>timeout_tick := tick k + timer_init_tick (timers k tm)\<rparr>) \<and>
        timer_lists k' LHard = timer_insert (\<lambda>t. timeout_tick (timers k' t)) tm (filter P rest)
      else timers k' = timers k \<and> timer_lists k' LHard = filter P rest)"

definition after_fire :: "timerid \<Rightarrow> timerid list \<Rightarrow> kernel \<Rightarrow> kernel \<Rightarrow> bool" where
  "after_fire tm rest k k' \<longleftrightarrow> (\<exists>P. fire_filter P tm rest k k') \<and>
     (\<forall>t. tm = ThreadTimer t \<longrightarrow> awake t k') \<and> (\<forall>t. awake t k \<longrightarrow> awake t k') \<and> tick k' = tick k \<and>
     (\<forall>x. obj_type (objs k' x) = obj_type (objs k x) \<and>
        obj_flag (objs k' x) AND NOT RT_TIMER_FLAG_ACTIVATED = obj_flag (objs k x) AND NOT RT_TIMER_FLAG_ACTIVATED)"

lemma fire_filterD:
  assumes "fire_filter P tm rest k k'"
  shows "\<not> P s \<Longrightarrow> \<exists>t. s = ThreadTimer t \<and> awake t k'"
    "periodic_timer tm k \<and> P tm \<Longrightarrow> timers k' = (timers k)(tm := (timers k tm)\<lparr>timeout_tick := tick k + timer_init_tick (timers k tm)\<rparr>)"
    "periodic_timer tm k \<and> P tm \<Longrightarrow> timer_lists k' LHard = timer_insert (\<lambda>t. timeout_tick (timers k' t)) tm (filter P rest)"
    "\<not> (periodic_timer tm k \<and> P tm) \<Longrightarrow> timers k' = timers k" "\<not> (periodic_timer tm k \<and> P tm) \<Longrightarrow> timer_lists k' LHard = filter P rest"
proof -
  show "\<not> P s \<Longrightarrow> \<exists>t. s = ThreadTimer t \<and> awake t k'" using assms unfolding fire_filter_def by blast
qed (use assms in \<open>simp_all only: fire_filter_def if_True if_False simp_thms\<close>)

lemma after_fireD:
  assumes "after_fire tm rest k k'"
  shows "tm = ThreadTimer t \<Longrightarrow> awake t k'" "awake t k \<Longrightarrow> awake t k'" "tick k' = tick k"
    "periodic_timer s k' = periodic_timer s k" "soft_timer s k' = soft_timer s k" "is_timer s k' = is_timer s k"
    "s \<noteq> tm \<Longrightarrow> timers k' s = timers k s" "timer_init_tick (timers k' s) = timer_init_tick (timers k s)"
    "timeout_func (timers k' s) = timeout_func (timers k s)" "timer_parameter (timers k' s) = timer_parameter (timers k s)"
    "s \<in> set (timer_lists k' LHard) \<Longrightarrow> s = tm \<or> s \<in> set rest"
proof -
  obtain P where P: "fire_filter P tm rest k k'" using assms unfolding after_fire_def by blast
  show "tm = ThreadTimer t \<Longrightarrow> awake t k'" "awake t k \<Longrightarrow> awake t k'" "tick k' = tick k"
    using assms unfolding after_fire_def by blast+
  have "\<forall>x. obj_type (objs k' x) = obj_type (objs k x) \<and>
      obj_flag (objs k' x) AND NOT RT_TIMER_FLAG_ACTIVATED = obj_flag (objs k x) AND NOT RT_TIMER_FLAG_ACTIVATED"
    using assms unfolding after_fire_def by blast
  from flags_frame [OF this, of s] show "periodic_timer s k' = periodic_timer s k" "soft_timer s k' = soft_timer s k"
    "is_timer s k' = is_timer s k" by blast+
  have "(s \<noteq> tm \<longrightarrow> timers k' s = timers k s) \<and> timer_init_tick (timers k' s) = timer_init_tick (timers k s) \<and>
      timeout_func (timers k' s) = timeout_func (timers k s) \<and> timer_parameter (timers k' s) = timer_parameter (timers k s) \<and>
      (s \<in> set (timer_lists k' LHard) \<longrightarrow> s = tm \<or> s \<in> set rest)"
  proof (cases "periodic_timer tm k \<and> P tm")
    case True
    show ?thesis unfolding fire_filterD(3) [OF P True] unfolding fire_filterD(2) [OF P True] by simp
  next
    case False
    show ?thesis unfolding fire_filterD(4,5) [OF P False] by simp
  qed
  then show "s \<noteq> tm \<Longrightarrow> timers k' s = timers k s" "timer_init_tick (timers k' s) = timer_init_tick (timers k s)"
    "timeout_func (timers k' s) = timeout_func (timers k s)" "timer_parameter (timers k' s) = timer_parameter (timers k s)"
    "s \<in> set (timer_lists k' LHard) \<Longrightarrow> s = tm \<or> s \<in> set rest" by blast+
qed

lemma after_fire_list:
  assumes a: "after_fire tm rest k k'" and inv: "hard_list_sane k" "timer_lists k LHard = tm # rest" "tm \<notin> set rest"
    and tmp: "timer_lists k' LTmpHard = []"
  shows "hard_list_sane k'"
proof -
  have oks: "hard_timer_ok k s" if "s = tm \<or> s \<in> set rest" for s using inv(1,2) that by (auto simp: hard_list_sane_def)
  have ok': "hard_timer_ok k' s = hard_timer_ok k s" for s unfolding hard_timer_ok_def after_fireD(4-6,8-10) [OF a] ..
  obtain P where P: "fire_filter P tm rest k k'" using a unfolding after_fire_def by blast
  let ?at = "\<lambda>k t. ahead (tick k) (timeout_tick (timers k t))"
  have same: "?at k' s = ?at k s" if "s \<in> set rest" for s
  proof -
    have "s \<noteq> tm" using that inv(3) by blast
    then show ?thesis using after_fireD(7) [OF a, of s] after_fireD(3) [OF a] by simp
  qed
  have "sorted (map (?at k) (filter P rest))"
    using inv(1,2) by (auto simp: hard_list_sane_def list_ordered_def intro: sorted_filter)
  moreover have "map (?at k') (filter P rest) = map (?at k) (filter P rest)" using same by (intro map_cong) auto
  ultimately have srt: "sorted (map (?at k') (filter P rest))" by argo
  have nr: "\<forall>s\<in>set (filter P rest). ?at k' s < 2147483647"
    using inv(1,2) same by (auto simp: hard_list_sane_def list_ordered_def)
  have "list_ordered LHard (tick k') k'"
  proof (cases "periodic_timer tm k \<and> P tm")
    case False
    show ?thesis using srt nr unfolding list_ordered_def fire_filterD(5) [OF P False] by blast
  next
    case True
    have "timer_init_tick (timers k tm) < RT_TICK_MAX div 2" using oks [of tm] True by (simp add: hard_timer_ok_def)
    then have "?at k' tm < 2147483647"
      unfolding fire_filterD(2) [OF P True] after_fireD(3) [OF a] by (simp add: ahead_def word_less_nat_alt tick_half)
    then show ?thesis using nr timer_insert_sorted [OF srt nr] unfolding list_ordered_def fire_filterD(3) [OF P True] by auto
  qed
  then show ?thesis using tmp ok' oks after_fireD(11) [OF a] unfolding hard_list_sane_def by blast
qed

text \<open>Only the tick, the threads and the scheduler have changed.\<close>

definition ticked :: "kernel \<Rightarrow> kernel \<Rightarrow> bool" where
  "ticked k k' \<longleftrightarrow> tick k' = tick k + 1 \<and> timers k' = timers k \<and> timer_lists k' = timer_lists k \<and> objs k' = objs k \<and> sems k' = sems k"

text \<open>One expiry as a client sees it: the function of the timer is called with the timer's parameter.\<close>

definition expiry :: "(nat \<Rightarrow> nat \<Rightarrow> kernel \<Rightarrow> kernel option) \<Rightarrow> timerid \<Rightarrow> kernel \<Rightarrow> kernel \<Rightarrow> bool" where
  "expiry call tm k k' \<longleftrightarrow>
     (\<exists>k1. (case timeout_func (timers k tm) of
              UserFn f \<Rightarrow> call f (timer_parameter (timers k tm)) (timer_take LTmpHard tm k)
            | Rt_thread_timeout \<Rightarrow> rt_thread_timeout (timer_parameter (timers k tm)) (timer_take LTmpHard tm k)) = Some k1 \<and>
        timer_put_back LTmpHard tm k1 = Some k')"

fun expiries :: "(nat \<Rightarrow> nat \<Rightarrow> kernel \<Rightarrow> kernel option) \<Rightarrow> timerid list \<Rightarrow> kernel \<Rightarrow> kernel \<Rightarrow> bool" where
  "expiries call [] k k' \<longleftrightarrow> k' = k"
| "expiries call (tm # ts) k k' \<longleftrightarrow> (\<exists>k1. expiry call tm k k1 \<and> expiries call ts k1 k')"

lemma expiry_fire: "timer_fire call tm k = Some k' \<Longrightarrow> expiry call tm k k'"
  unfolding timer_fire_def call_timeout_def expiry_def timer_take_other by (auto split: Option.bind_splits)

text \<open>The due timers have fired, one after the other: threads whose timer was due are awake, timer objects are among
  those that fired, and periodic ones are listed for one period later; timer objects that were not due are left alone.\<close>

definition all_fired :: "timerid list \<Rightarrow> kernel \<Rightarrow> kernel \<Rightarrow> bool" where
  "all_fired ts k k' \<longleftrightarrow> distinct ts \<and> (\<forall>tm\<in>set ts. tm \<in> set (timer_lists k LHard) \<and> due k tm) \<and>
     (\<forall>t. awake t k \<longrightarrow> awake t k') \<and>
     (\<forall>t. ThreadTimer t \<in> set (timer_lists k LHard) \<and> due k (ThreadTimer t) \<longrightarrow> awake t k') \<and>
     (\<forall>n. TimerObj n \<in> set (timer_lists k LHard) \<and> due k (TimerObj n) \<longrightarrow> TimerObj n \<in> set ts \<and>
        (periodic_timer (TimerObj n) k \<longrightarrow> TimerObj n \<in> set (timer_lists k' LHard) \<and>
           timeout_tick (timers k' (TimerObj n)) = tick k + timer_init_tick (timers k (TimerObj n)))) \<and>
     (\<forall>n. TimerObj n \<in> set (timer_lists k LHard) \<and> \<not> due k (TimerObj n) \<longrightarrow>
        TimerObj n \<in> set (timer_lists k' LHard) \<and> timers k' (TimerObj n) = timers k (TimerObj n))"

lemma all_firedD:
  assumes "all_fired ts k k'"
  shows "distinct ts" "tm \<in> set ts \<Longrightarrow> tm \<in> set (timer_lists k LHard) \<and> due k tm"
    "ThreadTimer t \<in> set (timer_lists k LHard) \<Longrightarrow> due k (ThreadTimer t) \<Longrightarrow> awake t k'"
    "TimerObj n \<in> set (timer_lists k LHard) \<Longrightarrow> due k (TimerObj n) \<Longrightarrow> TimerObj n \<in> set ts"
    "TimerObj n \<in> set (timer_lists k LHard) \<Longrightarrow> due k (TimerObj n) \<Longrightarrow> periodic_timer (TimerObj n) k \<Longrightarrow>
       TimerObj n \<in> set (timer_lists k' LHard) \<and>
       timeout_tick (timers k' (TimerObj n)) = tick k + timer_init_tick (timers k (TimerObj n))"
    "TimerObj n \<in> set (timer_lists k LHard) \<Longrightarrow> \<not> due k (TimerObj n) \<Longrightarrow>
       TimerObj n \<in> set (timer_lists k' LHard) \<and> timers k' (TimerObj n) = timers k (TimerObj n)"
  using assms unfolding all_fired_def by blast+

lemma list_head_due:
  assumes "hard_list_sane k" and "s \<in> set (timer_lists k LHard)" and "due k s"
  shows "\<exists>tm rest. timer_lists k LHard = tm # rest \<and> due k tm"
proof -
  obtain tm rest where hd: "timer_lists k LHard = tm # rest" using assms(2) by (cases "timer_lists k LHard") auto
  have "ahead (tick k) (timeout_tick (timers k tm)) \<le> ahead (tick k) (timeout_tick (timers k s))"
    using assms(1,2) hd by (auto simp: hard_list_sane_def list_ordered_def)
  then show ?thesis using assms(3) hd by (auto simp: due_def)
qed

lemma due_other: "after_fire tm rest k k' \<Longrightarrow> s \<noteq> tm \<Longrightarrow> due k' s = due k s"
  using after_fireD(3,7) by (simp add: due_def)

text \<open>Which timers are still listed.\<close>

lemma stays_listed:
  assumes a: "after_fire tm rest k k'" and s: "s \<in> set rest"
  shows "s \<in> set (timer_lists k' LHard) \<or> (\<exists>t. s = ThreadTimer t \<and> awake t k')"
proof -
  obtain P where P: "fire_filter P tm rest k k'" using a unfolding after_fire_def by blast
  show ?thesis
  proof (cases "P s")
    case True
    then have "s \<in> set (filter P rest)" using s by simp
    then show ?thesis
      using fire_filterD(3) [OF P] fire_filterD(5) [OF P] by (cases "periodic_timer tm k \<and> P tm") (simp_all only: set_timer_insert insert_iff simp_thms)
  qed (use fire_filterD(1) [OF P] in blast)
qed

text \<open>A periodic timer object is listed again, one period later; a timer that fired and is listed is such a one.\<close>

lemma relisted:
  assumes a: "after_fire tm rest k k'"
  shows "tm = TimerObj n \<Longrightarrow> periodic_timer tm k \<Longrightarrow> tm \<in> set (timer_lists k' LHard) \<and> timeout_tick (timers k' tm) = tick k + timer_init_tick (timers k tm)"
    and "tm \<notin> set rest \<Longrightarrow> tm \<in> set (timer_lists k' LHard) \<Longrightarrow> periodic_timer tm k \<and> timeout_tick (timers k' tm) = tick k + timer_init_tick (timers k tm)"
proof -
  obtain P where P: "fire_filter P tm rest k k'" using a unfolding after_fire_def by blast
  show "tm \<in> set (timer_lists k' LHard) \<and> timeout_tick (timers k' tm) = tick k + timer_init_tick (timers k tm)"
    if "tm = TimerObj n" "periodic_timer tm k"
  proof -
    have c: "periodic_timer tm k \<and> P tm" using that fire_filterD(1) [OF P, of tm] by blast
    show ?thesis unfolding fire_filterD(3) [OF P c] unfolding fire_filterD(2) [OF P c] by simp
  qed
  show "periodic_timer tm k \<and> timeout_tick (timers k' tm) = tick k + timer_init_tick (timers k tm)"
    if "tm \<notin> set rest" "tm \<in> set (timer_lists k' LHard)"
  proof (cases "periodic_timer tm k \<and> P tm")
    case True
    then show ?thesis unfolding fire_filterD(2) [OF P True] by simp
  next
    case False
    then show ?thesis using that unfolding fire_filterD(5) [OF P False] by simp
  qed
qed

lemma fired_not_due:
  assumes a: "after_fire tm rest k k'" and fresh: "tm \<notin> set rest" and per: "periodic_timer tm k \<Longrightarrow> 0 < timer_init_tick (timers k tm)"
  shows "\<not> (tm \<in> set (timer_lists k' LHard) \<and> due k' tm)"
  using relisted(2) [OF a fresh] per after_fireD(3) [OF a] by (auto simp: due_def)

lemma fewer_due:
  assumes a: "after_fire tm rest k k'" and hd: "timer_lists k LHard = tm # rest" and fresh: "tm \<notin> set rest" and now: "due k tm"
    and per: "periodic_timer tm k \<Longrightarrow> 0 < timer_init_tick (timers k tm)" and inv: "distinct (timer_lists k LHard)" "distinct (timer_lists k' LHard)"
  shows "length (filter (due k') (timer_lists k' LHard)) < length (filter (due k) (timer_lists k LHard))"
proof -
  have sub: "set (filter (due k') (timer_lists k' LHard)) \<subseteq> set (filter (due k) rest)"
  proof
    fix s assume s: "s \<in> set (filter (due k') (timer_lists k' LHard))"
    then have neq: "s \<noteq> tm" using fired_not_due [OF a fresh per] by auto
    then have "s \<in> set rest" using s after_fireD(11) [OF a, of s] by auto
    then show "s \<in> set (filter (due k) rest)" using s due_other [OF a neq] by simp
  qed
  have "length (filter (due k') (timer_lists k' LHard)) = card (set (filter (due k') (timer_lists k' LHard)))"
    using inv(2) by (intro distinct_card [symmetric] distinct_filter)
  also have "\<dots> \<le> card (set (filter (due k) rest))" by (rule card_mono [OF _ sub]) simp
  also have "\<dots> \<le> length (filter (due k) rest)" by (rule card_length)
  finally show ?thesis using now hd by simp
qed

lemma all_fired_Cons:
  assumes a: "after_fire tm rest k k1" and hd: "timer_lists k LHard = tm # rest" and fresh: "tm \<notin> set rest" and now: "due k tm"
    and per: "periodic_timer tm k \<Longrightarrow> 0 < timer_init_tick (timers k tm)" and f: "all_fired ts k1 k'"
  shows "all_fired (tm # ts) k k'"
proof -
  note d = after_fireD [OF a]
  note tm1 = fired_not_due [OF a fresh per]
  have "distinct (tm # ts)" using f tm1 by (auto simp: all_fired_def)
  moreover have "s \<in> set (timer_lists k LHard) \<and> due k s" if "s \<in> set (tm # ts)" for s
  proof (cases "s = tm")
    case False
    then have "s \<in> set (timer_lists k1 LHard)" "due k1 s" using that f by (auto simp: all_fired_def)
    then show ?thesis using d(11) False due_other [OF a False] hd by auto
  qed (use hd now in simp)
  moreover have "awake t k'" if t: "ThreadTimer t \<in> set (timer_lists k LHard) \<and> due k (ThreadTimer t)" for t
  proof (cases "ThreadTimer t = tm")
    case True
    then show ?thesis using d(1) [of t] f by (simp add: all_fired_def)
  next
    case False
    then have "ThreadTimer t \<in> set rest" "due k1 (ThreadTimer t)" using t hd due_other [OF a False] by auto
    then have "awake t k1 \<or> ThreadTimer t \<in> set (timer_lists k1 LHard) \<and> due k1 (ThreadTimer t)" using stays_listed [OF a] by blast
    then show ?thesis using f unfolding all_fired_def by blast
  qed
  moreover have "TimerObj n \<in> set (tm # ts) \<and> (periodic_timer (TimerObj n) k \<longrightarrow> TimerObj n \<in> set (timer_lists k' LHard) \<and>
       timeout_tick (timers k' (TimerObj n)) = tick k + timer_init_tick (timers k (TimerObj n)))"
    if n: "TimerObj n \<in> set (timer_lists k LHard) \<and> due k (TimerObj n)" for n
  proof (cases "TimerObj n = tm")
    case True
    have "TimerObj n \<in> set (timer_lists k' LHard) \<and> timeout_tick (timers k' (TimerObj n)) = tick k + timer_init_tick (timers k (TimerObj n))"
      if "periodic_timer (TimerObj n) k"
    proof -
      have r: "TimerObj n \<in> set (timer_lists k1 LHard)" "timeout_tick (timers k1 (TimerObj n)) = tick k + timer_init_tick (timers k (TimerObj n))"
        using relisted(1) [OF a True [symmetric]] that True by simp_all
      moreover have "\<not> due k1 (TimerObj n)" using tm1 True r(1) by simp
      ultimately show ?thesis using f unfolding all_fired_def by simp
    qed
    then show ?thesis using True by simp
  next
    case False
    then have "TimerObj n \<in> set rest" using n hd by simp
    then have "TimerObj n \<in> set (timer_lists k1 LHard) \<and> due k1 (TimerObj n)"
      using stays_listed [OF a] due_other [OF a False] n by blast
    then have "TimerObj n \<in> set ts \<and> (periodic_timer (TimerObj n) k1 \<longrightarrow> TimerObj n \<in> set (timer_lists k' LHard) \<and>
       timeout_tick (timers k' (TimerObj n)) = tick k1 + timer_init_tick (timers k1 (TimerObj n)))"
      using f unfolding all_fired_def by blast
    then show ?thesis unfolding d(3,4,8) by simp
  qed
  moreover have "TimerObj n \<in> set (timer_lists k' LHard) \<and> timers k' (TimerObj n) = timers k (TimerObj n)"
    if n: "TimerObj n \<in> set (timer_lists k LHard) \<and> \<not> due k (TimerObj n)" for n
  proof -
    have neq: "TimerObj n \<noteq> tm" using n now by auto
    then have "TimerObj n \<in> set rest" using n hd by simp
    then have "TimerObj n \<in> set (timer_lists k1 LHard) \<and> \<not> due k1 (TimerObj n)"
      using stays_listed [OF a] due_other [OF a neq] n by blast
    then have "TimerObj n \<in> set (timer_lists k' LHard) \<and> timers k' (TimerObj n) = timers k1 (TimerObj n)"
      using f unfolding all_fired_def by blast
    then show ?thesis unfolding d(7) [OF neq] .
  qed
  moreover have "awake t k \<longrightarrow> awake t k'" for t using d(2) f by (simp add: all_fired_def)
  ultimately show ?thesis unfolding all_fired_def by blast
qed

text \<open>The first \<open>j\<close> rounds of the loop of \<open>rt_timer_check\<close>: \<open>None\<close> when it ends before, or when a round does not return.\<close>

primrec check_rounds :: "(nat \<Rightarrow> nat \<Rightarrow> kernel \<Rightarrow> kernel option) \<Rightarrow> nat \<Rightarrow> kernel \<Rightarrow> kernel option" where
  "check_rounds call 0 k = Some k"
| "check_rounds call (Suc j) k =
     (case timer_lists k LHard of
        [] \<Rightarrow> None
      | t # _ \<Rightarrow>
          if expired (tick k) (timeout_tick (timers k t))
          then do { k \<leftarrow> timer_fire call t k; check_rounds call j k }
          else None)"

text \<open>A due periodic timer object with period zero in the hard list, whatever else there is.\<close>

definition zero_period :: "nat \<Rightarrow> kernel \<Rightarrow> bool" where
  "zero_period n k \<longleftrightarrow> TimerObj n \<in> set (timer_lists k LHard) \<and> periodic_timer (TimerObj n) k \<and>
     timer_init_tick (timers k (TimerObj n)) = 0 \<and> due k (TimerObj n)"

lemma zero_period_stays:
  assumes a: "after_fire tm rest k k'" and hd: "timer_lists k LHard = tm # rest" and z: "zero_period n k"
  shows "zero_period n k'"
proof -
  note d = after_fireD [OF a]
  have z': "TimerObj n \<in> set (timer_lists k LHard)" "periodic_timer (TimerObj n) k" "timer_init_tick (timers k (TimerObj n)) = 0"
    "due k (TimerObj n)" using z by (simp_all add: zero_period_def)
  have "TimerObj n \<in> set (timer_lists k' LHard) \<and> due k' (TimerObj n)"
  proof (cases "TimerObj n = tm")
    case True
    then show ?thesis using relisted(1) [OF a True [symmetric]] z'(2,3) d(3) by (simp add: due_def)
  next
    case False
    then have "TimerObj n \<in> set rest" using z'(1) hd by simp
    then show ?thesis using stays_listed [OF a] due_other [OF a False] z'(4) by blast
  qed
  then show ?thesis using z'(2,3) d(4,8) by (simp add: zero_period_def)
qed

context timer_callbacks
begin

text \<open>One due timer is processed.\<close>

lemma fire_step:
  assumes inv: "kernel_inv k" and cur: "current_thread k \<noteq> None" and list: "hard_list_sane k"
    and hd: "timer_lists k LHard = tm # rest"
  shows "\<exists>k'. timer_fire call tm k = Some k' \<and> kernel_inv k' \<and> current_thread k' \<noteq> None
    \<and> hard_list_sane k' \<and> after_fire tm rest k k'"
proof -
  let ?k1 = "timer_take LTmpHard tm k"
  have ok: "hard_timer_ok k tm" using list hd by (auto simp: hard_list_sane_def)
  have fresh: "tm \<notin> set rest" and tinv: "timer_inv k"
    using inv hd by (auto simp: kernel_inv_def timer_inv_def) (metis distinct.simps(2))
  have act: "timer_active tm k" using tinv hd unfolding timer_inv_def by (metis list.set_intros(1) tmp_list.simps(3))
  obtain k2 where k2: "call_timeout call tm ?k1 = Some k2" "kernel_inv k2" "current_thread k2 \<noteq> None"
      "timers_only_stopped ?k1 k2" "\<forall>t. tm = ThreadTimer t \<longrightarrow> awake t k2"
    using call_timeout_ok [OF inv cur _ ok] hd by auto
  obtain P where P: "\<And>l. timer_lists k2 l = filter P (timer_lists ?k1 l)" "\<And>s. \<not> P s \<Longrightarrow> \<exists>t. s = ThreadTimer t \<and> awake t k2"
      "\<And>s. P s \<Longrightarrow> timer_active s ?k1 \<Longrightarrow> timer_active s k2"
    using k2(4) unfolding timers_only_stopped_def by auto
  have same: "timers k2 = timers k" "tick k2 = tick k" "\<And>t. awake t k \<Longrightarrow> awake t k2"
    and flags: "\<forall>x. obj_type (objs k2 x) = obj_type (objs k x) \<and>
        obj_flag (objs k2 x) AND NOT RT_TIMER_FLAG_ACTIVATED =
          obj_flag (objs k x) AND NOT RT_TIMER_FLAG_ACTIVATED"
    using k2(4) timer_take_frame [of k LTmpHard tm]
    by (auto simp: timers_only_stopped_def ipc_frame_def timer_take_other awake_def)
  have l2: "timer_lists k2 LHard = filter P rest" "timer_lists k2 LTmpHard = (if P tm then [tm] else [])"
    using P(1) hd fresh list by (simp_all add: timer_take_lists hard_list_sane_def)
  define k3 where "k3 = timer_remove tm k2"
  have s3: "timers k3 = timers k" "tick k3 = tick k" "current_thread k3 \<noteq> None" "objs k3 = objs k2" "threads k3 = threads k2"
      "timer_lists k3 LHard = filter P rest" "timer_lists k3 LTmpHard = []"
    using same k2(3) l2 fresh by (auto simp: k3_def timer_remove_def)
  have per3: "periodic_timer tm k3 = periodic_timer tm k"
    using flags_frame(1) [OF flags] s3(4) by (simp add: periodic_timer_def timer_flag_def)
  have "\<exists>k'. timer_fire call tm k = Some k' \<and> kernel_inv k' \<and> current_thread k' \<noteq> None \<and> timer_lists k' LTmpHard = [] \<and>
      after_fire tm rest k k'"
  proof (cases "periodic_timer tm k \<and> P tm")
    case False
    define k' where "k' = (if P tm then k3 else k2)"
    have k': "timers k' = timers k" "tick k' = tick k" "timer_lists k' LHard = filter P rest" "threads k' = threads k2"
        "timer_lists k' LTmpHard = []" "objs k' = objs k2" "kernel_inv k'" "current_thread k' \<noteq> None"
      using s3 l2 same k2(2,3) kernel_inv_remove [OF k2(2)] by (auto simp: k'_def k3_def)
    have "timer_fire call tm k = Some k'"
      using k2(1) False l2 per3 unfolding timer_fire_def timer_put_back_def k'_def k3_def Let_def by auto
    moreover have "after_fire tm rest k k'"
      unfolding after_fire_def fire_filter_def using k' P(2) k2(5) same flags False
      by (intro conjI exI [of _ P]) (auto simp: awake_def)
    ultimately show ?thesis using k' by blast
  next
    case True
    define k4 where "k4 = deactivate tm (timer_remove tm k2)"
    have inv4: "kernel_inv k4" unfolding k4_def by (rule kernel_inv_deactivate [OF k2(2)])
    have fr4: "ipc_frame k2 k4" unfolding k4_def by (rule ipc_frame_timer [OF timer_frame_deactivate])
    have flags4: "\<forall>x. obj_type (objs k4 x) = obj_type (objs k x) \<and>
        obj_flag (objs k4 x) AND NOT RT_TIMER_FLAG_ACTIVATED =
          obj_flag (objs k x) AND NOT RT_TIMER_FLAG_ACTIVATED"
      using flags fr4 by (simp add: ipc_frame_def)
    have s4: "timers k4 = timers k" "tick k4 = tick k" "current_thread k4 \<noteq> None" "threads k4 = threads k2"
        "timer_lists k4 LHard = filter P rest" "timer_lists k4 LTmpHard = []"
      using same k2(3) l2 fresh timer_frameD(2,3,5) [OF timer_frame_deactivate, of tm k2]
      by (auto simp: k4_def)
    have tm4: "is_timer tm k4" "\<not> soft_timer tm k4"
      using ok flags_frame(2,3) [OF flags4] by (auto simp: hard_timer_ok_def)
    have user: "tm \<noteq> ThreadTimer t" for t
    proof
      assume "tm = ThreadTimer t"
      then show False using thread_timer_obj [OF inv, of t] thread_timer_oneshot True hd by auto
    qed
    have init: "timer_init_tick (timers k4 tm) < RT_TICK_MAX div 2" using ok True s4(1) by (simp add: hard_timer_ok_def)
    from timer_start_hard [OF inv4 tm4 user init] s4(1,2)
    obtain k' where k': "rt_timer_start tm k4 = Some (RT_EOK, k')" "kernel_inv k'" "ipc_frame k4 k'"
        "current_thread k' = current_thread k4" "threads k' = threads k4"
        "timers k' = (timers k)(tm := (timers k tm)\<lparr>timeout_tick := tick k + timer_init_tick (timers k tm)\<rparr>)"
        "timer_lists k' = (\<lambda>l. removeAll tm (timer_lists k4 l))(LHard :=
         timer_insert (\<lambda>t. timeout_tick (timers k' t)) tm (removeAll tm (timer_lists k4 LHard)))"
      by auto
    have "timer_active tm k2" using P(3) True timer_take_active(2) act by blast
    then have "timer_active tm k3" using s3(4) by (simp add: timer_active_def timer_flag_def)
    then have fire: "timer_fire call tm k = Some k'"
      using k2(1) True l2 k'(1) per3
      by (auto simp: timer_fire_def timer_put_back_def k3_def k4_def Let_def)
    have l': "timer_lists k' LHard = timer_insert (\<lambda>t. timeout_tick (timers k' t)) tm (filter P rest)"
        "timer_lists k' LTmpHard = []"
      using k'(7) s4(5,6) fresh by auto
    have flags': "\<forall>x. obj_type (objs k' x) = obj_type (objs k x) \<and>
        obj_flag (objs k' x) AND NOT RT_TIMER_FLAG_ACTIVATED =
          obj_flag (objs k x) AND NOT RT_TIMER_FLAG_ACTIVATED"
      using flags4 k'(3) by (simp add: ipc_frame_def)
    have tick': "tick k' = tick k" using ipc_frameD(7) [OF k'(3)] s4(2) by simp
    have "after_fire tm rest k k'"
      unfolding after_fire_def fire_filter_def using True k'(5,6) s4(4) l'(1) P(2) k2(5) same(3) flags' tick'
      by (intro conjI exI [of _ P]) (auto simp: awake_def)
    then show ?thesis using fire k'(2,4) s4(3) l'(2) by auto
  qed
  then show ?thesis using after_fire_list [OF _ list hd fresh] by blast
qed

text \<open>The loop processes every due timer and ends.\<close>

lemma check_loop_ok:
  assumes "kernel_inv k" and "current_thread k \<noteq> None" and "hard_list_ok k"
  shows "\<exists>ts k'. timer_check_loop call (tick k) k = Some k' \<and> kernel_inv k' \<and> current_thread k' \<noteq> None
    \<and> hard_list_ok k' \<and> tick k' = tick k \<and> (\<forall>tm\<in>set (timer_lists k' LHard). \<not> due k' tm)
    \<and> expiries call ts k k' \<and> all_fired ts k k'"
  using assms
proof (induction "length (filter (due k) (timer_lists k LHard))" arbitrary: k rule: less_induct)
  case less
  have sane: "hard_list_sane k" using less.prems(3) by (simp add: hard_list_ok_def)
  have exp: "expired (tick k) (timeout_tick (timers k t)) \<longleftrightarrow> due k t"
    if "t \<in> set (timer_lists k LHard)" for t
    using sane that expired_iff_due by (simp add: hard_list_sane_def list_ordered_def due_def)
  show ?case
  proof (cases "\<exists>tm rest. timer_lists k LHard = tm # rest \<and> due k tm")
    case False
    have none: "\<not> due k s" if "s \<in> set (timer_lists k LHard)" for s
      using list_head_due [OF sane that] False by (cases "timer_lists k LHard") auto
    then have "timer_check_loop call (tick k) k = Some k"
      using exp by (subst timer_check_loop.simps) (auto split: list.splits)
    moreover have "all_fired [] k k" unfolding all_fired_def using none by auto
    ultimately show ?thesis using less.prems none by (intro exI [of _ "[]"] exI [of _ k]) simp
  next
    case True
    then obtain tm rest where hd: "timer_lists k LHard = tm # rest" and now: "due k tm" by blast
    have fresh: "tm \<notin> set rest" using less.prems(1) hd by (auto simp: kernel_inv_def timer_inv_def) (metis distinct.simps(2))
    from fire_step [OF less.prems(1,2) sane hd] obtain k1 where k1: "timer_fire call tm k = Some k1" "kernel_inv k1"
      "current_thread k1 \<noteq> None" "hard_list_sane k1" "after_fire tm rest k k1" by blast
    note a = k1(5)
    have per: "periodic_timer s k \<Longrightarrow> 0 < timer_init_tick (timers k s)" if "s = tm \<or> s \<in> set rest" for s
      using less.prems(3) hd that by (auto simp: hard_list_ok_def)
    have ok1: "hard_list_ok k1"
      using k1(4) per after_fireD(4,8,11) [OF a] by (auto simp: hard_list_ok_def)
    have tick1: "tick k1 = tick k" by (rule after_fireD(3) [OF a])
    have few: "length (filter (due k1) (timer_lists k1 LHard)) < length (filter (due k) (timer_lists k LHard))"
      by (rule fewer_due [OF a hd fresh now]) (use per less.prems(1) k1(2) in \<open>auto simp: kernel_inv_def timer_inv_def\<close>)
    from less.hyps [OF few k1(2,3) ok1] obtain ts k' where k': "timer_check_loop call (tick k1) k1 = Some k'" "kernel_inv k'"
        "current_thread k' \<noteq> None" "hard_list_ok k'" "tick k' = tick k1" "\<forall>tm\<in>set (timer_lists k' LHard). \<not> due k' tm"
        "expiries call ts k1 k'" "all_fired ts k1 k'" by blast
    have "timer_check_loop call (tick k) k = Some k'"
      using hd now exp k1(1) k'(1) by (subst timer_check_loop.simps) simp
    moreover have "expiries call (tm # ts) k k'" using expiry_fire [OF k1(1)] k'(7) by auto
    moreover have "all_fired (tm # ts) k k'"
      by (rule all_fired_Cons [OF a hd fresh now _ k'(8)]) (use per in blast)
    ultimately show ?thesis using k'(2-6) tick1 by (intro exI [of _ "tm # ts"] exI [of _ k']) simp
  qed
qed

lemma timer_check_ok:
  assumes "kernel_inv k" and "current_thread k \<noteq> None" and "hard_list_ok k"
  shows "\<exists>ts k'. rt_timer_check call k = Some k' \<and> kernel_inv k' \<and> current_thread k' \<noteq> None
    \<and> hard_list_ok k' \<and> tick k' = tick k \<and> (\<forall>tm\<in>set (timer_lists k' LHard). \<not> due k' tm)
    \<and> expiries call ts k k' \<and> all_fired ts k k'"
proof -
  have "set_timer_list LTmpHard [] k = k"
    using assms(3) by (cases k) (auto simp: hard_list_ok_def hard_list_sane_def set_timer_list_def)
  then show ?thesis using check_loop_ok [OF assms] by (simp add: rt_timer_check_def)
qed

text \<open>One tick of the system clock.\<close>

lemma tick_increase_ok:
  assumes inv: "kernel_inv k" and cur: "current_thread k = Some c" and list: "hard_list_ok k"
    and none: "\<forall>tm\<in>set (timer_lists k LHard). \<not> due k tm"
  shows "\<exists>k'. rt_tick_increase call k = Some k' \<and> kernel_inv k' \<and> current_thread k' \<noteq> None
    \<and> hard_list_ok k' \<and> tick k' = tick k + 1 \<and> (\<forall>tm\<in>set (timer_lists k' LHard). \<not> due k' tm)
    \<and> (\<exists>k2 ts. ticked k k2 \<and> expiries call ts k2 k' \<and> all_fired ts k2 k')"
proof -
  define k1 where "k1 = upd_thread c (\<lambda>th. th\<lparr>remaining_tick := remaining_tick th - 1\<rparr>) (k\<lparr>tick := tick k + 1\<rparr>)"
  have inv0: "kernel_inv (k\<lparr>tick := tick k + 1\<rparr>)"
    using inv by (simp add: kernel_inv_def sched_inv_def running_inv_def core_inv_def unqueued_def
        thread_objs_ok_def thread_obj_ok_def is_thread_def is_timer_def rt_object_get_type_def
        timer_flag_def timer_inv_def timer_active_def wait_timers_ok_def)
  have inv1: "kernel_inv k1"
    unfolding k1_def by (rule kernel_inv_upd_other [OF inv0]) simp_all
  have s1: "timers k1 = timers k" "timer_lists k1 = timer_lists k" "tick k1 = tick k + 1"
      "current_thread k1 = Some c" "objs k1 = objs k" "sems k1 = sems k"
    using cur by (simp_all add: k1_def upd_thread_def)
  have near: "ahead (tick k + 1) (timeout_tick (timers k s)) = ahead (tick k) (timeout_tick (timers k s)) - 1"
    if "s \<in> set (timer_lists k LHard)" for s
  proof -
    have "timeout_tick (timers k s) - tick k \<noteq> 0" using none that by (auto simp: due_def)
    then show ?thesis
      unfolding ahead_def by (metis diff_add_eq_diff_diff_swap add.commute unat_minus_one)
  qed
  have pos: "0 < ahead (tick k) (timeout_tick (timers k s))" if "s \<in> set (timer_lists k LHard)" for s
    using none that by (auto simp: due_def intro: gr0I)
  have list1: "hard_list_ok k1"
  proof -
    have "sorted (map (\<lambda>t. ahead (tick k) (timeout_tick (timers k t)) - 1) (timer_lists k LHard))"
      using list unfolding hard_list_ok_def hard_list_sane_def list_ordered_def sorted_map
      by (auto elim!: sorted_wrt_mono_rel [rotated])
    then have "sorted (map (\<lambda>t. ahead (tick k + 1) (timeout_tick (timers k t))) (timer_lists k LHard))"
      using near by (simp cong: map_cong)
    moreover have "ahead (tick k + 1) (timeout_tick (timers k s)) < 2147483647"
      if "s \<in> set (timer_lists k LHard)" for s
      using near [OF that] list that by (force simp: hard_list_ok_def hard_list_sane_def list_ordered_def)
    moreover have "hard_timer_ok k1 s = hard_timer_ok k s" for s
      by (rule hard_timer_ok_frame) (simp_all add: s1)
    moreover have "periodic_timer s k1 = periodic_timer s k" for s by (rule flags_frame) (simp add: s1)
    ultimately show ?thesis
      using list by (simp add: hard_list_ok_def hard_list_sane_def list_ordered_def s1)
  qed
  obtain k2 where k2: "(if remaining_tick (threads k1 c) = 0
           then rt_schedule (upd_thread c (\<lambda>th. th\<lparr>stat := stat th OR RT_THREAD_STAT_YIELD\<rparr>)
                  (upd_thread c (\<lambda>th. th\<lparr>remaining_tick := thread_init_tick th\<rparr>) k1))
           else Some k1) = Some k2"
      and inv2: "kernel_inv k2" and cur2: "current_thread k2 \<noteq> None"
      and s2: "timers k2 = timers k1" "timer_lists k2 = timer_lists k1" "tick k2 = tick k1" "objs k2 = objs k1" "sems k2 = sems k1"
  proof (cases "remaining_tick (threads k1 c) = 0")
    case False
    then show ?thesis using that [of k1] inv1 s1 by simp
  next
    case True
    let ?k = "upd_thread c (\<lambda>th. th\<lparr>stat := stat th OR RT_THREAD_STAT_YIELD\<rparr>)
                  (upd_thread c (\<lambda>th. th\<lparr>remaining_tick := thread_init_tick th\<rparr>) k1)"
    have "kernel_inv (upd_thread c (\<lambda>th. th\<lparr>remaining_tick := thread_init_tick th\<rparr>) k1)"
      by (rule kernel_inv_upd_other [OF inv1]) simp_all
    then have "kernel_inv ?k" by (rule kernel_inv_upd_class) simp_all
    moreover have "current_thread ?k = Some c" using s1 by simp
    ultimately obtain k2 c' where "rt_schedule ?k = Some k2" "kernel_inv k2" "sched_frame ?k k2"
        "current_thread k2 = Some c'"
      using rt_schedule_ok by blast
    then show ?thesis
      using that [of k2] True sched_frameD(1,4,5,6,7) [of ?k k2] by (auto simp: upd_thread_def)
  qed
  have "hard_timer_ok k2 s = hard_timer_ok k1 s" for s
    by (rule hard_timer_ok_frame) (simp_all add: s2)
  moreover have "periodic_timer s k2 = periodic_timer s k1" for s by (rule flags_frame) (simp add: s2)
  ultimately have "hard_list_ok k2" using list1 by (simp add: hard_list_ok_def hard_list_sane_def list_ordered_def s2)
  then obtain ts k' where k': "rt_timer_check call k2 = Some k'" "kernel_inv k'" "current_thread k' \<noteq> None"
      "hard_list_ok k'" "tick k' = tick k2" "\<forall>tm\<in>set (timer_lists k' LHard). \<not> due k' tm"
      "expiries call ts k2 k'" "all_fired ts k2 k'"
    using timer_check_ok [OF inv2 cur2] by blast
  have "rt_tick_increase call k = Some k'"
    using cur k2 k'(1)
    by (auto simp: rt_tick_increase_def rt_thread_self_def k1_def Let_def split: if_splits)
  moreover have "ticked k k2" using s1 s2 by (simp add: ticked_def)
  ultimately show ?thesis using k'(2-8) s1(3) s2(3) by auto
qed

text \<open>A periodic timer without a period: the loop never ends, and no round of it halts.\<close>

lemma zero_period_step:
  assumes inv: "kernel_inv k" "current_thread k \<noteq> None" "hard_list_sane k" and z: "zero_period n k"
  shows "\<exists>tm rest k'. timer_lists k LHard = tm # rest \<and> expired (tick k) (timeout_tick (timers k tm)) \<and> timer_fire call tm k = Some k'
    \<and> kernel_inv k' \<and> current_thread k' \<noteq> None \<and> hard_list_sane k' \<and> zero_period n k'"
proof -
  obtain tm rest where hd: "timer_lists k LHard = tm # rest" "due k tm"
    using list_head_due [OF inv(3), of "TimerObj n"] z by (auto simp: zero_period_def)
  then have "expired (tick k) (timeout_tick (timers k tm))"
    using inv(3) expired_iff_due by (simp add: hard_list_sane_def list_ordered_def due_def)
  then show ?thesis using fire_step [OF inv hd(1)] zero_period_stays [OF _ hd(1) z] hd(1) by blast
qed

lemma zero_period_rounds:
  assumes "kernel_inv k" "current_thread k \<noteq> None" "hard_list_sane k" "zero_period n k"
  shows "\<exists>k'. check_rounds call j k = Some k' \<and> kernel_inv k' \<and> zero_period n k'"
  using assms
proof (induction j arbitrary: k)
  case (Suc j)
  from zero_period_step [OF Suc.prems] obtain tm rest k1 where "timer_lists k LHard = tm # rest"
    "expired (tick k) (timeout_tick (timers k tm))" "timer_fire call tm k = Some k1"
    "kernel_inv k1" "current_thread k1 \<noteq> None" "hard_list_sane k1" "zero_period n k1" by blast
  then show ?case using Suc.IH [of k1] by simp
qed simp

lemma zero_period_no_end:
  assumes "timer_check_loop c now k = Some y"
  shows "c = call \<longrightarrow> now = tick k \<longrightarrow> \<not> (kernel_inv k \<and> current_thread k \<noteq> None \<and> hard_list_sane k \<and> zero_period n k)"
  using _ assms
proof (rule timer_check_loop.raw_induct)
  fix loop c now k y
  assume IH: "\<And>c now k y. loop c now k = Some y \<Longrightarrow>
      c = call \<longrightarrow> now = tick k \<longrightarrow> \<not> (kernel_inv k \<and> current_thread k \<noteq> None \<and> hard_list_sane k \<and> zero_period n k)"
    and body: "(case timer_lists k LHard of [] \<Rightarrow> Some k
      | t # _ \<Rightarrow> if expired now (timeout_tick (timers k t))
          then do { k \<leftarrow> timer_fire c t k; loop c (tick k) k } else Some k) = Some y"
  show "c = call \<longrightarrow> now = tick k \<longrightarrow> \<not> (kernel_inv k \<and> current_thread k \<noteq> None \<and> hard_list_sane k \<and> zero_period n k)"
  proof (intro impI notI, elim conjE)
    assume c: "c = call" and now: "now = tick k"
      and z: "kernel_inv k" "current_thread k \<noteq> None" "hard_list_sane k" "zero_period n k"
    from zero_period_step [OF z] obtain tm rest k1 where k1: "timer_lists k LHard = tm # rest"
      "expired (tick k) (timeout_tick (timers k tm))" "timer_fire call tm k = Some k1"
      "kernel_inv k1" "current_thread k1 \<noteq> None" "hard_list_sane k1" "zero_period n k1" by blast
    then have "loop c (tick k1) k1 = Some y" using body c now by simp
    then show False using IH c k1(4-7) by blast
  qed
qed

lemma zero_period_diverges:
  assumes "kernel_inv k" "current_thread k \<noteq> None" "hard_list_sane k" "zero_period n k"
  shows "rt_timer_check call k = None"
proof -
  have "set_timer_list LTmpHard [] k = k"
    using assms(3) by (cases k) (auto simp: hard_list_sane_def set_timer_list_def)
  then have eq: "rt_timer_check call k = timer_check_loop call (tick k) k" by (simp add: rt_timer_check_def)
  show ?thesis
  proof (cases "timer_check_loop call (tick k) k")
    case (Some y)
    then show ?thesis using zero_period_no_end [of call "tick k" k y n] assms by simp
  qed (simp add: eq)
qed

end

end
