(* ===== verification/Ipc.thy ===== *)
theory Ipc
  imports TimerRun
begin

text \<open>
  The wait lists of \<^verbatim>\<open>src/ipc.c\<close>: suspending a thread in the list of an object in the order the
  object's flag asks for, waking the first thread or all threads of a list, and the steps every
  blocking call shares (suspension, the thread's timer, the scheduler).  The lemmas state what these
  steps do to the wait lists and that they keep the kernel invariant; the objects (semaphore, mutex,
  event, mailbox, message queue, memory pool) rest on them.
\<close>

subsection \<open>Operations\<close>

definition rt_ipc_object_init :: "qid \<Rightarrow> kernel \<Rightarrow> kernel" where
  "rt_ipc_object_init q k = set_queue q [] k"

text \<open>The search of \<^verbatim>\<open>RT_IPC_FLAG_PRIO\<close>: in front of the first thread of lower priority.\<close>

fun prio_insert :: "(tid \<Rightarrow> u8) \<Rightarrow> tid \<Rightarrow> tid list \<Rightarrow> tid list" where
  "prio_insert pr t [] = [t]"
| "prio_insert pr t (s # ts) = (if pr t < pr s then t # s # ts else s # prio_insert pr t ts)"

definition wait_insert :: "u8 \<Rightarrow> (tid \<Rightarrow> u8) \<Rightarrow> tid \<Rightarrow> tid list \<Rightarrow> tid list" where
  "wait_insert flag pr t ts =
     (if flag = RT_IPC_FLAG_FIFO then ts @ [t]
      else if flag = RT_IPC_FLAG_PRIO then prio_insert pr t ts
      else ts)"

definition rt_ipc_list_suspend ::
  "qid \<Rightarrow> tid \<Rightarrow> u8 \<Rightarrow> int \<Rightarrow> kernel \<Rightarrow> (int \<times> kernel) option" where
  "rt_ipc_list_suspend q t flag suspend_flag k = do {
     (ret, k) \<leftarrow> rt_thread_suspend_with_flag t suspend_flag k;
     if ret \<noteq> RT_EOK then Some (ret, k)
     else Some (RT_EOK, set_queue q
            (wait_insert flag (\<lambda>s. current_priority (threads k s)) t (queues k q)) k)
   }"

text \<open>The list is not empty when this is called; the head of an empty list is no thread.\<close>

definition rt_ipc_list_resume :: "qid \<Rightarrow> kernel \<Rightarrow> (int \<times> kernel) option" where
  "rt_ipc_list_resume q k =
     (case queues k q of
        [] \<Rightarrow> None
      | t # _ \<Rightarrow> do {
          let k = upd_thread t (\<lambda>th. th\<lparr>error := RT_EOK\<rparr>) k;
          (_, k) \<leftarrow> rt_thread_resume t k;
          Some (RT_EOK, k)
        })"

partial_function (option) rt_ipc_list_resume_all :: "qid \<Rightarrow> kernel \<Rightarrow> (int \<times> kernel) option" where
  "rt_ipc_list_resume_all q k =
     (case queues k q of
        [] \<Rightarrow> Some (RT_EOK, k)
      | t # _ \<Rightarrow> do {
          let k = upd_thread t (\<lambda>th. th\<lparr>error := - RT_ERROR\<rparr>) k;
          (_, k) \<leftarrow> rt_thread_resume t k;
          rt_ipc_list_resume_all q k
        })"

text \<open>The steps of a blocking call from the suspension to the return of \<open>rt_schedule\<close>: a positive
  time starts the thread's timer, a negative one waits without a limit.\<close>

definition ipc_block ::
  "qid \<Rightarrow> tid \<Rightarrow> u8 \<Rightarrow> int \<Rightarrow> 32 word \<Rightarrow> kernel \<Rightarrow> (int call \<times> kernel) option" where
  "ipc_block q t flag suspend_flag time k = do {
     (ret, k) \<leftarrow> rt_ipc_list_suspend q t flag suspend_flag k;
     if ret \<noteq> RT_EOK then Some (Returned ret, k)
     else do {
       k \<leftarrow> (if 0 < sint time then start_thread_timer t time k else Some k);
       k \<leftarrow> rt_schedule k;
       Some (Waiting, k)
     }
   }"

subsection \<open>The order of a wait list\<close>

lemma set_prio_insert [simp]: "set (prio_insert pr t ts) = insert t (set ts)"
  by (induction ts) auto

lemma distinct_prio_insert [simp]: "distinct (prio_insert pr t ts) \<longleftrightarrow> t \<notin> set ts \<and> distinct ts"
  by (induction ts) auto

lemma prio_insert_split:
  assumes "sorted (map pr ts)"
  shows "prio_insert pr t ts = filter (\<lambda>s. pr s \<le> pr t) ts @ t # filter (\<lambda>s. pr t < pr s) ts"
  using assms
proof (induction ts)
  case (Cons s ts)
  show ?case
  proof (cases "pr t < pr s")
    case True
    then have "\<forall>u\<in>set ts. pr t < pr u" using Cons.prems by force
    then have "filter (\<lambda>s. pr s \<le> pr t) ts = []" "filter (\<lambda>s. pr t < pr s) ts = ts"
      by (auto simp: filter_empty_conv not_le)
    then show ?thesis using True by (simp add: not_le)
  next
    case False
    then show ?thesis using Cons by (simp add: not_less)
  qed
qed simp

lemma sorted_prio_insert:
  assumes "sorted (map pr ts)"
  shows "sorted (map pr (prio_insert pr t ts))"
  using assms by (induction ts) (auto simp: not_less)

lemma wait_insert_sub:
  "set (wait_insert flag pr t ts) \<subseteq> insert t (set ts)"
  "t \<notin> set ts \<Longrightarrow> distinct ts \<Longrightarrow> distinct (wait_insert flag pr t ts)"
  by (auto simp: wait_insert_def)

definition wait_flag :: "u8 \<Rightarrow> bool" where
  "wait_flag f \<longleftrightarrow> f = RT_IPC_FLAG_FIFO \<or> f = RT_IPC_FLAG_PRIO"

lemma set_wait_insert:
  "wait_flag f \<Longrightarrow> set (wait_insert f pr t ts) = insert t (set ts)"
  by (auto simp: wait_flag_def wait_insert_def)

fun wait_queue :: "qid \<Rightarrow> bool" where
  "wait_queue (QReady p) = False"
| "wait_queue QDefunct = False"
| "wait_queue _ = True"

lemma wait_queue_iff: "wait_queue q \<longleftrightarrow> \<not> ready_queue q \<and> q \<noteq> QDefunct"
  by (cases q) auto

subsection \<open>Joining and leaving a wait list\<close>

text \<open>The kernel invariant reads only these parts of the state.\<close>

lemma kernel_inv_cong:
  assumes "objs k' = objs k" "threads k' = threads k" "queues k' = queues k"
    "ready_priority_group k' = ready_priority_group k" "current_thread k' = current_thread k"
    "timers k' = timers k" "timer_lists k' = timer_lists k"
  shows "kernel_inv k' = kernel_inv k"
  using assms
  by (simp add: kernel_inv_def sched_inv_def running_inv_def core_inv_def unqueued_def
      thread_objs_ok_def thread_obj_ok_def is_thread_def is_timer_def rt_object_get_type_def
      timer_flag_def timer_inv_def timer_active_def wait_timers_ok_def)

lemma kernel_inv_ipc [simp]:
  "kernel_inv (k\<lparr>sems := a\<rparr>) = kernel_inv k" "kernel_inv (k\<lparr>mutexes := b\<rparr>) = kernel_inv k"
  "kernel_inv (k\<lparr>events := c\<rparr>) = kernel_inv k" "kernel_inv (k\<lparr>mailboxes := d\<rparr>) = kernel_inv k"
  "kernel_inv (k\<lparr>mqs := e\<rparr>) = kernel_inv k" "kernel_inv (k\<lparr>mempools := f\<rparr>) = kernel_inv k"
  "kernel_inv (k\<lparr>customs := g\<rparr>) = kernel_inv k" "kernel_inv (k\<lparr>containers := h\<rparr>) = kernel_inv k"
  by (rule kernel_inv_cong; simp)+

lemma kernel_inv_wait:
  assumes inv: "kernel_inv k" and susp: "suspended (threads k t)" and un: "unqueued t k"
    and q: "wait_queue q" and ts: "set ts \<subseteq> insert t (set (queues k q))" "distinct ts"
  shows "kernel_inv (set_queue q ts k)"
proof -
  let ?k = "set_queue q ts k"
  have core: "core_inv {} k" using inv by (simp add: kernel_inv_def sched_inv_def)
  have same: "threads ?k = threads k" "ready_priority_group ?k = ready_priority_group k"
    "\<And>p. queues ?k (QReady p) = queues k (QReady p)" "queues ?k QDefunct = queues k QDefunct"
    using q by (auto simp: set_queue_def)
  have mem: "s \<in> set (queues ?k r) \<Longrightarrow> s \<in> set (queues k r) \<or> s = t \<and> r = q" for s r
    using ts(1) by (auto simp: set_queue_def split: if_splits)
  have "core_inv {} ?k"
  proof (rule core_invI)
    fix r show "distinct (queues ?k r)" using core_distinct [OF core] ts(2) by (simp add: set_queue_def)
  next
    fix r r' s assume "s \<in> set (queues ?k r)" "s \<in> set (queues ?k r')"
    then show "r = r'" using mem [of s r] mem [of s r'] core_one_queue [OF core, of s r r'] un
      by (auto simp: unqueued_def)
  next
    fix r s assume "s \<in> set (queues ?k r)" "\<not> ready_queue r" "r \<noteq> QDefunct"
    then show "suspended (threads ?k s)" using mem core_waiting [OF core] susp same(1) by auto
  qed (use core_ready [OF core] core_bitmap [OF core] core_prio [OF core] core_defunct [OF core] same in auto)
  then have "sched_inv ?k"
    using inv by (simp add: kernel_inv_def sched_inv_def running_inv_def set_queue_def)
  then show ?thesis
    by (rule kernel_inv_sched [OF inv _ ipc_frame_tlist(2)]) (simp_all add: set_queue_def)
qed

text \<open>The outcome of a suspension in a wait list.\<close>

definition joins :: "tid \<Rightarrow> qid \<Rightarrow> u8 \<Rightarrow> kernel \<Rightarrow> kernel \<Rightarrow> bool" where
  "joins t q flag k k' \<longleftrightarrow>
     kernel_inv k' \<and> ipc_frame k k' \<and> current_thread k' = current_thread k \<and>
     suspended (threads k' t) \<and>
     (\<exists>st. threads k' = (threads k)(t := (threads k t)\<lparr>stat := st\<rparr>)) \<and>
     (\<forall>r. \<not> ready_queue r \<longrightarrow> queues k' r =
        (if r = q then wait_insert flag (\<lambda>s. current_priority (threads k s)) t (queues k q) else queues k r))"

lemma rt_ipc_list_suspend_total:
  assumes inv: "kernel_inv k" and st: "started (threads k t)" and f: "flag_ok f" and q: "wait_queue q"
  shows "\<exists>r k'. rt_ipc_list_suspend q t flag f k = Some (r, k') \<and>
    (r = RT_EOK \<longrightarrow> joins t q flag k k') \<and>
    (r \<noteq> RT_EOK \<longrightarrow> k' = k \<and> (r = - RT_EINTR \<or> r = - RT_ERROR))"
proof -
  obtain r k1 where k1: "rt_thread_suspend_with_flag t f k = Some (r, k1)"
      "r = RT_EOK \<longrightarrow> suspends t k k1"
      "r \<noteq> RT_EOK \<longrightarrow> k1 = k \<and> (r = - RT_EINTR \<or> r = - RT_ERROR)"
    using rt_thread_suspend_total [OF inv st f] by blast
  show ?thesis
  proof (cases "r = RT_EOK")
    case False
    then show ?thesis using k1 by (simp add: rt_ipc_list_suspend_def)
  next
    case True
    let ?ts = "wait_insert flag (\<lambda>s. current_priority (threads k1 s)) t (queues k1 q)"
    have s: "suspends t k k1" using k1(2) True by simp
    then obtain st where thr: "threads k1 = (threads k)(t := (threads k t)\<lparr>stat := st\<rparr>)"
      by (auto simp: suspends_def)
    have pr: "(\<lambda>s. current_priority (threads k1 s)) = (\<lambda>s. current_priority (threads k s))"
      using thr by auto
    have inv1: "kernel_inv k1" "unqueued t k1" "suspended (threads k1 t)" using s by (simp_all add: suspends_def)
    have "distinct (queues k1 q)"
      using inv1(1) core_distinct by (auto simp: kernel_inv_def sched_inv_def)
    then have inv2: "kernel_inv (set_queue q ?ts k1)"
      using wait_insert_sub inv1(2) by (intro kernel_inv_wait [OF inv1(1,3,2) q]) (auto simp: unqueued_def)
    have "joins t q flag k (set_queue q ?ts k1)"
    proof -
      have "ipc_frame k (set_queue q ?ts k1)"
        using s ipc_frame_trans [OF _ ipc_frame_tlist(2)] by (simp add: suspends_def)
      moreover have "queues (set_queue q ?ts k1) r =
          (if r = q then wait_insert flag (\<lambda>s. current_priority (threads k s)) t (queues k q) else queues k r)"
        if "\<not> ready_queue r" for r
        using that s q pr wait_queue_iff [of q] by (auto simp: suspends_def set_queue_def)
      ultimately show ?thesis
        using inv2 s thr by (auto simp: joins_def suspends_def set_queue_def)
    qed
    then show ?thesis using True k1(1) by (simp add: rt_ipc_list_suspend_def)
  qed
qed

text \<open>A thread is woken with a result.\<close>

definition woken :: "tid \<Rightarrow> int \<Rightarrow> kernel \<Rightarrow> kernel \<Rightarrow> bool" where
  "woken t e k k' \<longleftrightarrow>
     kernel_inv k' \<and> ipc_frame k k' \<and> current_thread k' = current_thread k \<and>
     stat_class (threads k' t) =
       (if current_thread k = Some t then RT_THREAD_RUNNING else RT_THREAD_READY) \<and>
     (\<exists>st w. threads k' = (threads k)(t := (threads k t)\<lparr>error := e, wakeup_func := w, stat := st\<rparr>)) \<and>
     (\<forall>q. \<not> ready_queue q \<longrightarrow> queues k' q = removeAll t (queues k q)) \<and>
     timers_only_stopped k k'"

lemma woken_class:
  "woken t e k k' \<Longrightarrow> stat_class (threads k' t) \<in> {RT_THREAD_READY, RT_THREAD_RUNNING}"
  by (simp add: woken_def)

lemma timers_only_stopped_refl: "timers_only_stopped k k"
  by (rule timers_only_stopped_same) simp_all

lemma timers_only_stopped_trans:
  assumes "timers_only_stopped a b" "timers_only_stopped b c"
  shows "timers_only_stopped a c"
proof -
  obtain P Q where P: "\<And>l. timer_lists b l = filter P (timer_lists a l)" "\<And>tm. \<not> P tm \<Longrightarrow> \<exists>t. tm = ThreadTimer t \<and> awake t b"
      "\<And>tm. P tm \<Longrightarrow> timer_active tm a \<Longrightarrow> timer_active tm b"
    and Q: "\<And>l. timer_lists c l = filter Q (timer_lists b l)" "\<And>tm. \<not> Q tm \<Longrightarrow> \<exists>t. tm = ThreadTimer t \<and> awake t c"
      "\<And>tm. Q tm \<Longrightarrow> timer_active tm b \<Longrightarrow> timer_active tm c"
    using assms unfolding timers_only_stopped_def by (elim conjE exE) blast
  have aw: "awake t a \<Longrightarrow> awake t b" "awake t b \<Longrightarrow> awake t c" for t
    using assms by (simp_all add: timers_only_stopped_def)
  have "timer_lists c l = filter (\<lambda>x. P x \<and> Q x) (timer_lists a l)" for l using P(1) Q(1) by simp
  moreover have "\<exists>t. tm = ThreadTimer t \<and> awake t c" if "\<not> (P tm \<and> Q tm)" for tm using that P(2) Q(2) aw by blast
  ultimately have "\<exists>R. (\<forall>l. timer_lists c l = filter R (timer_lists a l)) \<and>
      (\<forall>tm. \<not> R tm \<longrightarrow> (\<exists>t. tm = ThreadTimer t \<and> awake t c)) \<and> (\<forall>tm. R tm \<longrightarrow> timer_active tm a \<longrightarrow> timer_active tm c)"
    using P(3) Q(3) by (intro exI [of _ "\<lambda>x. P x \<and> Q x"]) blast
  then show ?thesis using assms aw unfolding timers_only_stopped_def by simp
qed

lemma timers_only_stopped_sched:
  assumes "sched_frame k k'"
    and "\<forall>t. stat_class (threads k t) \<in> {RT_THREAD_READY, RT_THREAD_RUNNING} \<longrightarrow>
         stat_class (threads k' t) \<in> {RT_THREAD_READY, RT_THREAD_RUNNING}"
  shows "timers_only_stopped k k'"
proof (rule timers_only_stopped_same)
  show "awake t k \<Longrightarrow> awake t k'" for t using assms(2) unfolding awake_def by blast
qed (use sched_frameD(1,4,5,6) [OF assms(1)] in simp_all)

lemma timers_only_stopped_class:
  assumes "timer_lists k' = timer_lists k" "timers k' = timers k" "tick k' = tick k" "objs k' = objs k"
    and "\<And>t. stat_class (threads k' t) = stat_class (threads k t)"
  shows "timers_only_stopped k k'"
  by (rule timers_only_stopped_same) (use assms in \<open>simp_all add: awake_def\<close>)

lemma rt_thread_resume_timers:
  assumes res: "rt_thread_resume t k = Some (r, k')" and w: "wakes t k k'" and susp: "suspended (threads k t)"
  shows "timers_only_stopped k k'"
proof -
  let ?k1 = "tlist_remove t k" and ?P = "\<lambda>s. s \<noteq> ThreadTimer t"
  from res susp obtain r1 k2 where k2: "rt_timer_stop (ThreadTimer t) ?k1 = Some (r1, k2)"
      "rt_schedule_insert_thread t (upd_thread t (\<lambda>th. th\<lparr>wakeup_func := None\<rparr>) k2) = Some k'"
    by (auto simp: rt_thread_resume_def suspended_def Let_def split: Option.bind_splits if_splits)
  note fr = rt_schedule_insert_thread_frame [OF k2(2)]
  have s': "timer_lists k' = timer_lists k2" "timers k' = timers k2" "objs k' = objs k2" "tick k' = tick k2"
    using sched_frameD(1,4,5,6) [OF fr] by (simp_all add: upd_thread_def)
  have awake_t: "awake t k'" using w by (simp add: wakes_def awake_def)
  have awake_s: "awake s k'" if "awake s k" for s
  proof (cases "s = t")
    case False
    then have "threads k' s = threads k s" using w by (auto simp: wakes_def)
    then show ?thesis using that by (simp add: awake_def)
  qed (use awake_t in simp)
  note awake = awake_t awake_s
  consider "k2 = ?k1" | "k2 = deactivate (ThreadTimer t) (timer_remove (ThreadTimer t) ?k1)" using rt_timer_stop_cases [OF k2(1)] by blast
  then show ?thesis
  proof cases
    case 1
    show ?thesis by (rule timers_only_stopped_same) (use s' awake(2) 1 in \<open>simp_all add: tlist_remove_def\<close>)
  next
    case 2
    have same: "timers k2 = timers k" "tick k2 = tick k" "\<And>l. timer_lists k2 l = filter ?P (timer_lists k l)"
      using timer_frameD(5) [OF timer_frame_deactivate, of "ThreadTimer t" ?k1]
      unfolding 2 by (simp_all add: tlist_remove_def removeAll_filter_not_eq eq_commute)
    have act: "?P s \<Longrightarrow> timer_active s k \<Longrightarrow> timer_active s k'" for s
    proof -
      assume "?P s" "timer_active s k"
      then have "timer_active s k2" unfolding 2
        by (simp add: timer_active_def timer_flag_def tlist_remove_def deactivate_def timer_remove_def
            set_timer_flag_def upd_obj_def)
      then show ?thesis using s'(3) by (simp add: timer_active_def timer_flag_def)
    qed
    have "ipc_frame k k'" using w by (simp add: wakes_def)
    then have "\<forall>x. obj_type (objs k' x) = obj_type (objs k x) \<and> obj_flag (objs k' x) AND NOT RT_TIMER_FLAG_ACTIVATED =
          obj_flag (objs k x) AND NOT RT_TIMER_FLAG_ACTIVATED" by (simp add: ipc_frame_def)
    moreover have "\<exists>P. (\<forall>l. timer_lists k' l = filter P (timer_lists k l)) \<and>
        (\<forall>tm. \<not> P tm \<longrightarrow> (\<exists>t. tm = ThreadTimer t \<and> awake t k')) \<and> (\<forall>tm. P tm \<longrightarrow> timer_active tm k \<longrightarrow> timer_active tm k')"
      using same(3) s'(1) awake(1) act by (intro exI [of _ ?P]) auto
    ultimately show ?thesis using same(1,2) s'(2,4) awake(2) unfolding timers_only_stopped_def by simp
  qed
qed

lemma resume_woken:
  assumes inv: "kernel_inv k" and susp: "suspended (threads k t)"
  shows "\<exists>k'. rt_thread_resume t (upd_thread t (\<lambda>th. th\<lparr>error := e\<rparr>) k) = Some (RT_EOK, k') \<and> woken t e k k'"
proof -
  let ?k1 = "upd_thread t (\<lambda>th. th\<lparr>error := e\<rparr>) k"
  have inv1: "kernel_inv ?k1" by (rule kernel_inv_upd_other [OF inv]) simp_all
  have susp1: "suspended (threads ?k1 t)" using susp by (simp add: threads_upd_thread suspended_def)
  from rt_thread_resume_ok [OF inv1 susp1] obtain k' where k': "rt_thread_resume t ?k1 = Some (RT_EOK, k')"
      "wakes t ?k1 k'" by blast
  have "timers_only_stopped k ?k1"
    by (rule timers_only_stopped_class) (simp_all add: upd_thread_def stat_class_def)
  then have "timers_only_stopped k k'"
    using timers_only_stopped_trans rt_thread_resume_timers [OF k' susp1] by blast
  moreover have "ipc_frame k k'"
    using ipc_frame_trans [OF ipc_frame_upd_thread] k'(2) unfolding wakes_def by blast
  moreover obtain st w where "threads k' = (threads ?k1)(t := (threads ?k1 t)\<lparr>wakeup_func := w, stat := st\<rparr>)"
    using k'(2) by (auto simp: wakes_def)
  then have "threads k' = (threads k)(t := (threads k t)\<lparr>error := e, wakeup_func := w, stat := st\<rparr>)"
    by (simp add: threads_upd_thread)
  ultimately have "woken t e k k'" using k'(2) by (auto simp: woken_def wakes_def)
  then show ?thesis using k'(1) by blast
qed

lemma waiting_suspended:
  assumes "kernel_inv k" "wait_queue q" "t \<in> set (queues k q)"
  shows "suspended (threads k t)"
  using assms core_waiting wait_queue_iff by (auto simp: kernel_inv_def sched_inv_def)

lemma rt_ipc_list_resume_ok:
  assumes inv: "kernel_inv k" and q: "wait_queue q" and ne: "queues k q = t # ts"
  shows "\<exists>k'. rt_ipc_list_resume q k = Some (RT_EOK, k') \<and> woken t RT_EOK k k'
    \<and> queues k' q = ts \<and> (\<forall>r. \<not> ready_queue r \<longrightarrow> r \<noteq> q \<longrightarrow> queues k' r = queues k r)"
proof -
  have core: "core_inv {} k" using inv by (simp add: kernel_inv_def sched_inv_def)
  have "suspended (threads k t)" using waiting_suspended [OF inv q] ne by simp
  from resume_woken [OF inv this] obtain k' where k': "rt_thread_resume t
      (upd_thread t (\<lambda>th. th\<lparr>error := RT_EOK\<rparr>) k) = Some (RT_EOK, k')" "woken t RT_EOK k k'" by blast
  have "t \<notin> set ts" using core_distinct [OF core, of q] ne by simp
  moreover have "t \<notin> set (queues k r)" if "r \<noteq> q" for r
    using core_one_queue [OF core, of t r q] ne that by auto
  ultimately show ?thesis
    using k' ne q wait_queue_iff [of q] by (auto simp: rt_ipc_list_resume_def woken_def)
qed

text \<open>All threads of a list are woken with \<open>- RT_ERROR\<close>; the loop ends.\<close>

definition all_woken :: "qid \<Rightarrow> kernel \<Rightarrow> kernel \<Rightarrow> bool" where
  "all_woken q k k' \<longleftrightarrow>
     kernel_inv k' \<and> ipc_frame k k' \<and> current_thread k' = current_thread k \<and> timers_only_stopped k k' \<and>
     queues k' q = [] \<and> (\<forall>r. \<not> ready_queue r \<longrightarrow> r \<noteq> q \<longrightarrow> queues k' r = queues k r) \<and>
     (\<forall>t\<in>set (queues k q). error (threads k' t) = - RT_ERROR \<and>
        stat_class (threads k' t) \<in> {RT_THREAD_READY, RT_THREAD_RUNNING}) \<and>
     (\<forall>t. t \<notin> set (queues k q) \<longrightarrow> threads k' t = threads k t)"

lemma rt_ipc_list_resume_all_ok:
  assumes "kernel_inv k" and q: "wait_queue q"
  shows "\<exists>k'. rt_ipc_list_resume_all q k = Some (RT_EOK, k') \<and> all_woken q k k'"
  using assms(1)
proof (induction "queues k q" arbitrary: k)
  case Nil
  then show ?case
    by (subst rt_ipc_list_resume_all.simps) (simp add: all_woken_def timers_only_stopped_refl)
next
  case (Cons t ts)
  have core: "core_inv {} k" using Cons.prems by (simp add: kernel_inv_def sched_inv_def)
  have "suspended (threads k t)" using waiting_suspended [OF Cons.prems q] Cons.hyps(2) [symmetric] by simp
  from resume_woken [OF Cons.prems this] obtain k1 where k1: "rt_thread_resume t
      (upd_thread t (\<lambda>th. th\<lparr>error := - RT_ERROR\<rparr>) k) = Some (RT_EOK, k1)" "woken t (- RT_ERROR) k k1" by blast
  have nt: "t \<notin> set ts" using core_distinct [OF core, of q] Cons.hyps(2) [symmetric] by simp
  have other: "t \<notin> set (queues k r)" if "r \<noteq> q" for r
    using core_one_queue [OF core, of t r q] Cons.hyps(2) [symmetric] that by auto
  have q1: "ts = queues k1 q" using k1(2) Cons.hyps(2) [symmetric] nt q wait_queue_iff [of q]
    by (simp add: woken_def)
  have inv1: "kernel_inv k1" using k1(2) by (simp add: woken_def)
  from Cons.hyps(1) [OF q1 inv1] obtain k' where
    k': "rt_ipc_list_resume_all q k1 = Some (RT_EOK, k')" "all_woken q k1 k'" by blast
  have "rt_ipc_list_resume_all q k = Some (RT_EOK, k')"
    using k1(1) k'(1) Cons.hyps(2) [symmetric] by (subst rt_ipc_list_resume_all.simps) simp
  moreover have "all_woken q k k'"
  proof -
    obtain st w where thr: "threads k1 = (threads k)(t := (threads k t)
        \<lparr>error := - RT_ERROR, wakeup_func := w, stat := st\<rparr>)"
      using k1(2) by (auto simp: woken_def)
    have t: "threads k' t = threads k1 t" using k'(2) nt q1 by (simp add: all_woken_def)
    have cls: "stat_class (threads k1 t) \<in> {RT_THREAD_READY, RT_THREAD_RUNNING}"
      using k1(2) by (simp add: woken_def)
    have fr: "ipc_frame k k'" using k1(2) k'(2) ipc_frame_trans unfolding woken_def all_woken_def by blast
    have tm: "timers_only_stopped k k'"
      using k1(2) k'(2) timers_only_stopped_trans unfolding woken_def all_woken_def by blast
    have qs: "queues k' r = queues k r" if "\<not> ready_queue r" "r \<noteq> q" for r
      using that k'(2) k1(2) other [OF that(2)] by (simp add: all_woken_def woken_def)
    have woke: "error (threads k' s) = - RT_ERROR \<and>
        stat_class (threads k' s) \<in> {RT_THREAD_READY, RT_THREAD_RUNNING}" if "s \<in> set (t # ts)" for s
    proof (cases "s = t")
      case True
      then show ?thesis using t thr cls by simp
    next
      case False
      then show ?thesis using that k'(2) q1 by (auto simp: all_woken_def)
    qed
    have same: "threads k' s = threads k s" if "s \<notin> set (t # ts)" for s
      using that k'(2) q1 thr by (simp add: all_woken_def)
    show ?thesis
      using fr tm qs woke same k'(2) k1(2) Cons.hyps(2) [symmetric]
      unfolding all_woken_def woken_def by simp
  qed
  ultimately show ?case by blast
qed

subsection \<open>Blocking\<close>

text \<open>The state in which the blocked caller waits.\<close>

definition blocked :: "tid \<Rightarrow> qid \<Rightarrow> u8 \<Rightarrow> 32 word \<Rightarrow> kernel \<Rightarrow> kernel \<Rightarrow> bool" where
  "blocked t q flag time k k' \<longleftrightarrow>
     kernel_inv k' \<and> ipc_frame k k' \<and> current_thread k' \<noteq> None \<and> suspended (threads k' t) \<and>
     (\<exists>st. threads k' t = (threads k t)\<lparr>stat := st\<rparr>) \<and> others t k k' \<and>
     (\<forall>r. \<not> ready_queue r \<longrightarrow> queues k' r =
        (if r = q then wait_insert flag (\<lambda>s. current_priority (threads k s)) t (queues k q) else queues k r)) \<and>
     (0 < sint time \<longrightarrow> ThreadTimer t \<in> set (timer_lists k' LHard) \<and>
        timeout_tick (timers k' (ThreadTimer t)) = tick k + time)"

lemma positive_time:
  fixes time :: "32 word"
  assumes "0 < sint time" and "sint time < 2147483647"
  shows "time < RT_TICK_MAX div 2"
proof -
  have "uint time = sint time"
    using assms by (simp add: uint_sint take_bit_int_eq_self)
  then have "unat time < 2147483647" using assms(2) by (simp add: unat_eq_nat_uint nat_less_iff)
  then show ?thesis by (simp add: word_less_nat_alt tick_half)
qed

text \<open>The end of every blocking call: the timer of the suspended caller, when a time is given, and the
  scheduler.\<close>

lemma timer_schedule_ok:
  assumes inv: "kernel_inv k" and cur: "current_thread k = Some t" and susp: "suspended (threads k t)"
    and time: "sint time < 2147483647"
  shows "\<exists>k1 k'. (if 0 < sint time then start_thread_timer t time k else Some k) = Some k1 \<and>
    rt_schedule k1 = Some k' \<and> kernel_inv k' \<and> ipc_frame k k' \<and> current_thread k' \<noteq> None \<and>
    threads k' t = threads k t \<and> others t k k' \<and> (\<forall>q. \<not> ready_queue q \<longrightarrow> queues k' q = queues k q) \<and>
    (0 < sint time \<longrightarrow> ThreadTimer t \<in> set (timer_lists k' LHard) \<and>
       timeout_tick (timers k' (ThreadTimer t)) = tick k + time)"
proof -
  obtain k1 where k1: "(if 0 < sint time then start_thread_timer t time k else Some k) = Some k1"
      "kernel_inv k1" "ipc_frame k k1" "queues k1 = queues k" "threads k1 = threads k"
      "current_thread k1 = current_thread k"
      "0 < sint time \<longrightarrow> ThreadTimer t \<in> set (timer_lists k1 LHard) \<and>
         timeout_tick (timers k1 (ThreadTimer t)) = tick k + time"
  proof (cases "0 < sint time")
    case True
    from start_thread_timer_ok [OF inv susp positive_time [OF True time]] obtain k1 where
      "start_thread_timer t time k = Some k1" "timed_wait t time k k1" by blast
    with True show ?thesis by (intro that [of k1]) (simp_all add: timed_wait_def)
  next
    case False
    then show ?thesis using inv by (intro that [of k]) simp_all
  qed
  have "current_thread k1 = Some t" using k1(6) cur by simp
  from rt_schedule_ok [OF k1(2) this] obtain k' c' where k': "rt_schedule k1 = Some k'" "kernel_inv k'"
      "sched_frame k1 k'" "ipc_frame k1 k'" "current_thread k' = Some c'"
      "\<forall>t. stat_class (threads k1 t) \<notin> {RT_THREAD_READY, RT_THREAD_RUNNING} \<longrightarrow> threads k' t = threads k1 t"
      "\<forall>t. stat_class (threads k1 t) \<in> {RT_THREAD_READY, RT_THREAD_RUNNING} \<longrightarrow>
         stat_class (threads k' t) \<in> {RT_THREAD_READY, RT_THREAD_RUNNING}"
    by blast
  have "others t k k'" using others_schedule [OF k'(3,6,7), of t] by (simp add: others_def k1(5))
  moreover have "threads k' t = threads k t" using k'(6) k1(5) suspended_class [OF susp] by simp
  moreover have "queues k' q = queues k q" if "\<not> ready_queue q" for q
    using sched_frameD(18) [OF k'(3) that] k1(4) by simp
  ultimately show ?thesis
    using k1(1,7) k'(1,2,5) ipc_frame_trans [OF k1(3) k'(4)] sched_frameD(5,6) [OF k'(3)] by auto
qed

lemma ipc_block_ok:
  assumes inv: "kernel_inv k" and cur: "current_thread k = Some t"
    and st: "started (threads k t)"
    and f: "flag_ok f" and q: "wait_queue q" and time: "sint time < 2147483647"
  shows "\<exists>r k'. ipc_block q t flag f time k = Some (r, k') \<and>
    (case r of Waiting \<Rightarrow> blocked t q flag time k k'
     | Returned e \<Rightarrow> k' = k \<and> e \<in> {- RT_EINTR, - RT_ERROR} \<and>
         \<not> (f = RT_UNINTERRUPTIBLE \<and> stat_class (threads k t) = RT_THREAD_RUNNING))"
proof -
  obtain r k1 where k1: "rt_ipc_list_suspend q t flag f k = Some (r, k1)"
      "r = RT_EOK \<longrightarrow> joins t q flag k k1"
      "r \<noteq> RT_EOK \<longrightarrow> k1 = k \<and> (r = - RT_EINTR \<or> r = - RT_ERROR)"
    using rt_ipc_list_suspend_total [OF inv st f q] by blast
  show ?thesis
  proof (cases "r = RT_EOK")
    case False
    have "\<not> (f = RT_UNINTERRUPTIBLE \<and> stat_class (threads k t) = RT_THREAD_RUNNING)"
    proof
      assume u: "f = RT_UNINTERRUPTIBLE \<and> stat_class (threads k t) = RT_THREAD_RUNNING"
      have "lwp_suspend_sigcheck t f k = Some True" using u by (simp add: lwp_suspend_sigcheck_def Let_def rt_defs)
      from rt_thread_suspend_ok [OF inv _ f this] u k1(1) False show False
        by (auto simp: rt_ipc_list_suspend_def)
    qed
    then show ?thesis using k1 False by (intro exI [of _ "Returned r"]) (auto simp: ipc_block_def)
  next
    case True
    have j: "joins t q flag k k1" using k1(2) True by simp
    have inv1: "kernel_inv k1" "suspended (threads k1 t)" "current_thread k1 = Some t" "ipc_frame k k1"
      using j cur by (auto simp: joins_def)
    from timer_schedule_ok [OF inv1(1,3,2) time] obtain k2 k' where
      k': "(if 0 < sint time then start_thread_timer t time k1 else Some k1) = Some k2" "rt_schedule k2 = Some k'"
        "kernel_inv k'" "ipc_frame k1 k'" "current_thread k' \<noteq> None" "threads k' t = threads k1 t" "others t k1 k'"
        "\<forall>q. \<not> ready_queue q \<longrightarrow> queues k' q = queues k1 q"
        "0 < sint time \<longrightarrow> ThreadTimer t \<in> set (timer_lists k' LHard) \<and>
           timeout_tick (timers k' (ThreadTimer t)) = tick k1 + time" by blast
    obtain s where thr: "threads k1 = (threads k)(t := (threads k t)\<lparr>stat := s\<rparr>)" using j by (auto simp: joins_def)
    have "others t k k'" by (rule others_trans [OF others_upd [OF thr] k'(7)]) (simp add: same_attrs_def)
    moreover have "threads k' t = (threads k t)\<lparr>stat := s\<rparr>" using k'(6) thr by simp
    moreover have "queues k' r = (if r = q then wait_insert flag (\<lambda>s. current_priority (threads k s)) t (queues k q)
        else queues k r)" if "\<not> ready_queue r" for r
      using that j k'(8) by (simp add: joins_def)
    ultimately have "blocked t q flag time k k'"
      using k'(3,5,6,9) inv1(2) ipc_frame_trans [OF inv1(4) k'(4)] ipc_frameD(7) [OF inv1(4)]
      unfolding blocked_def by auto
    then show ?thesis
      using k1(1) True k'(1,2) by (intro exI [of _ Waiting] exI [of _ k']) (simp add: ipc_block_def)
  qed
qed

subsection \<open>A sample state\<close>

text \<open>Thread 3 waits in the list \<open>q\<close>, thread 1 runs, thread 2 is ready.\<close>

definition sample_wait :: "qid \<Rightarrow> kernel" where
  "sample_wait q = sample_waiting\<lparr>queues := (queues reset_kernel)(QReady 5 := [2], q := [3])\<rparr>"

lemma sample_wait_inv:
  assumes "wait_queue q"
  shows "kernel_inv (sample_wait q)"
proof -
  let ?k = "sample_wait q"
  have q: "q \<noteq> QReady p" "q \<noteq> QDefunct" for p using assms by auto
  have "core_inv {} sample_waiting" using sample_waiting_sched by (simp add: sched_inv_def)
  note core = this
  have same: "threads ?k = threads sample_waiting" "objs ?k = objs sample_waiting" "timers ?k = timers sample_waiting"
      "timer_lists ?k = timer_lists sample_waiting" "current_thread ?k = current_thread sample_waiting"
      "ready_priority_group ?k = ready_priority_group sample_waiting"
      "queues ?k (QReady p) = queues sample_waiting (QReady p)" "queues ?k QDefunct = []" for p
    using q(1) [of p, THEN not_sym] q(2) [THEN not_sym] by (simp_all add: sample_wait_def sample_waiting_def reset_kernel_def)
  have qs: "queues ?k r = (if r = q then [3] else if r = QReady 5 then [2] else [])" for r
    by (simp add: sample_wait_def reset_kernel_def)
  have "core_inv {} ?k"
  proof (rule core_invI)
    fix r r' t assume "t \<in> set (queues ?k r)" "t \<in> set (queues ?k r')"
    then show "r = r'" by (auto simp: qs split: if_splits)
  next
    fix r t assume "t \<in> set (queues ?k r)" "\<not> ready_queue r" "r \<noteq> QDefunct"
    then have "t = 3" by (auto simp: qs split: if_splits)
    then show "suspended (threads ?k t)" by (simp add: same(1) sample_waiting_def sample_thread_def suspended_def rt_defs)
  next
    fix r show "distinct (queues ?k r)" by (simp add: qs)
  next
    fix p t show "t \<in> set (queues ?k (QReady p)) \<longleftrightarrow>
        stat_class (threads ?k t) = RT_THREAD_READY \<and> unat (current_priority (threads ?k t)) = p"
      unfolding same by (rule core_ready [OF core]) simp
  next
    fix p assume "p < RT_THREAD_PRIORITY_MAX"
    then show "bit (ready_priority_group ?k) p \<longleftrightarrow> queues ?k (QReady p) \<noteq> []"
      unfolding same by (rule core_bitmap [OF core])
  next
    fix t assume "started (threads ?k t)"
    then show "prio_ok (threads ?k t)" unfolding same by (rule core_prio [OF core, rotated]) simp
  qed (simp_all add: same(8))
  then have "sched_inv ?k"
    using sample_waiting_sched by (simp add: sched_inv_def running_inv_def same)
  then show ?thesis
    using sample_waiting_inv
    by (simp add: kernel_inv_def same thread_objs_ok_def thread_obj_ok_def is_thread_def is_timer_def
        rt_object_get_type_def timer_flag_def timer_inv_def timer_active_def wait_timers_ok_def)
qed

end
