(* ===== verification/Semaphore.thy ===== *)
theory Semaphore
  imports Ipc
begin

text \<open>
  The counting semaphores of \<^verbatim>\<open>src/ipc.c\<close>.  A semaphore is its 16-bit value and its wait list
  \<open>QSem\<close>; \<open>sem_take\<close> is \<^verbatim>\<open>_rt_sem_take\<close> up to the wait and \<open>rt_sem_take_resume\<close> the rest
  of it.  The theory also discharges the contract of the timer callbacks for a callback that releases
  a semaphore, so that the processing of a whole tick is proved for a system whose timers do so.
\<close>

subsection \<open>Operations\<close>

definition is_sem :: "nat \<Rightarrow> kernel \<Rightarrow> bool" where
  "is_sem s k \<longleftrightarrow> rt_object_get_type (OSem s) k = RT_Object_Class_Semaphore"

definition set_sem :: "nat \<Rightarrow> u16 \<Rightarrow> kernel \<Rightarrow> kernel" where
  "set_sem s v k = k\<lparr>sems := (sems k)(s := \<lparr>sem_value = v\<rparr>)\<rparr>"

definition rt_sem_init :: "nat \<Rightarrow> u8 list \<Rightarrow> u32 \<Rightarrow> u8 \<Rightarrow> kernel \<Rightarrow> (int \<times> kernel) option" where
  "rt_sem_init s name val flag k = do {
     rt_assert (val < 0x10000);
     k \<leftarrow> rt_object_init (OSem s) RT_Object_Class_Semaphore name k;
     let k = rt_ipc_object_init (QSem s) k;
     let k = set_sem s (ucast val) k;
     Some (RT_EOK, upd_obj (OSem s) (\<lambda>ob. ob\<lparr>obj_flag := flag\<rparr>) k)
   }"

definition rt_sem_detach :: "nat \<Rightarrow> kernel \<Rightarrow> (int \<times> kernel) option" where
  "rt_sem_detach s k = do {
     rt_assert (is_sem s k);
     rt_assert (rt_object_is_systemobject (OSem s) k);
     (_, k) \<leftarrow> rt_ipc_list_resume_all (QSem s) k;
     Some (RT_EOK, rt_object_detach (OSem s) k)
   }"

definition rt_sem_create ::
  "nat option \<Rightarrow> u8 list \<Rightarrow> u32 \<Rightarrow> u8 \<Rightarrow> kernel \<Rightarrow> (nat option \<times> kernel) option" where
  "rt_sem_create malloc name val flag k = do {
     rt_assert (\<not> in_interrupt k);
     rt_assert (val < 0x10000);
     (r, k) \<leftarrow> rt_object_allocate (map_option OSem malloc) RT_Object_Class_Semaphore name k;
     case r of
       Some (OSem s) \<Rightarrow> do {
         let k = rt_ipc_object_init (QSem s) k;
         let k = set_sem s (ucast val) k;
         Some (Some s, upd_obj (OSem s) (\<lambda>ob. ob\<lparr>obj_flag := flag\<rparr>) k)
       }
     | _ \<Rightarrow> Some (None, k)
   }"

definition rt_sem_delete :: "nat \<Rightarrow> kernel \<Rightarrow> (int \<times> kernel) option" where
  "rt_sem_delete s k = do {
     rt_assert (\<not> in_interrupt k);
     rt_assert (is_sem s k);
     rt_assert (\<not> rt_object_is_systemobject (OSem s) k);
     (_, k) \<leftarrow> rt_ipc_list_resume_all (QSem s) k;
     k \<leftarrow> rt_object_delete (OSem s) k;
     Some (RT_EOK, k)
   }"

definition sem_take :: "nat \<Rightarrow> 32 word \<Rightarrow> int \<Rightarrow> kernel \<Rightarrow> (int call \<times> kernel) option" where
  "sem_take s time suspend_flag k = do {
     rt_assert (is_sem s k);
     if 0 < sem_value (sems k s)
     then Some (Returned RT_EOK, set_sem s (sem_value (sems k s) - 1) k)
     else if time = 0 then Some (Returned (- RT_ETIMEOUT), k)
     else do {
       rt_assert (in_thread_context k);
       t \<leftarrow> rt_thread_self k;
       let k = upd_thread t (\<lambda>th. th\<lparr>error := - RT_EINTR\<rparr>) k;
       ipc_block (QSem s) t (obj_flag (objs k (OSem s))) suspend_flag time k
     }
   }"

definition rt_sem_take_resume :: "tid \<Rightarrow> kernel \<Rightarrow> int" where
  "rt_sem_take_resume t k = (if error (threads k t) \<noteq> RT_EOK then error (threads k t) else RT_EOK)"

definition rt_sem_take :: "nat \<Rightarrow> 32 word \<Rightarrow> kernel \<Rightarrow> (int call \<times> kernel) option" where
  "rt_sem_take s time k = sem_take s time RT_UNINTERRUPTIBLE k"

definition rt_sem_take_interruptible :: "nat \<Rightarrow> 32 word \<Rightarrow> kernel \<Rightarrow> (int call \<times> kernel) option" where
  "rt_sem_take_interruptible s time k = sem_take s time RT_INTERRUPTIBLE k"

definition rt_sem_take_killable :: "nat \<Rightarrow> 32 word \<Rightarrow> kernel \<Rightarrow> (int call \<times> kernel) option" where
  "rt_sem_take_killable s time k = sem_take s time RT_KILLABLE k"

definition rt_sem_trytake :: "nat \<Rightarrow> kernel \<Rightarrow> (int call \<times> kernel) option" where
  "rt_sem_trytake s k = rt_sem_take s 0 k"

definition rt_sem_release :: "nat \<Rightarrow> kernel \<Rightarrow> (int \<times> kernel) option" where
  "rt_sem_release s k = do {
     rt_assert (is_sem s k);
     if queues k (QSem s) \<noteq> []
     then do {
       (_, k) \<leftarrow> rt_ipc_list_resume (QSem s) k;
       k \<leftarrow> rt_schedule k;
       Some (RT_EOK, k)
     }
     else if sem_value (sems k s) < RT_SEM_VALUE_MAX
     then Some (RT_EOK, set_sem s (sem_value (sems k s) + 1) k)
     else Some (- RT_EFULL, k)
   }"

definition rt_sem_control :: "nat \<Rightarrow> int \<Rightarrow> u64 \<Rightarrow> kernel \<Rightarrow> (int \<times> kernel) option" where
  "rt_sem_control s cmd arg k = do {
     rt_assert (is_sem s k);
     if cmd = RT_IPC_CMD_RESET
     then do {
       (_, k) \<leftarrow> rt_ipc_list_resume_all (QSem s) k;
       let k = set_sem s (ucast arg) k;
       k \<leftarrow> rt_schedule k;
       Some (RT_EOK, k)
     }
     else Some (- RT_ERROR, k)
   }"

subsection \<open>Lemmas\<close>

lemma set_sem_simps [simp]:
  "sems (set_sem s v k) s' = (if s' = s then \<lparr>sem_value = v\<rparr> else sems k s')"
  "queues (set_sem s v k) = queues k" "threads (set_sem s v k) = threads k"
  "current_thread (set_sem s v k) = current_thread k" "objs (set_sem s v k) = objs k"
  "tick (set_sem s v k) = tick k" "timers (set_sem s v k) = timers k"
  "timer_lists (set_sem s v k) = timer_lists k" "kernel_inv (set_sem s v k) = kernel_inv k"
  by (simp_all add: set_sem_def)

lemma is_sem_frame: "ipc_frame k k' \<Longrightarrow> is_sem s k' = is_sem s k"
  using ipc_frameD(13) by (simp add: is_sem_def)

lemma is_sem_simps [simp]:
  "is_sem s (set_sem s' v k) = is_sem s k" "is_sem s (upd_thread t f k) = is_sem s k"
  "sems (upd_thread t f k) = sems k"
  by (simp_all add: is_sem_def rt_object_get_type_def) (simp add: upd_thread_def)

text \<open>Waking the first waiter and running the scheduler, as every operation that hands something to
  a waiter does.\<close>

definition handed :: "tid \<Rightarrow> qid \<Rightarrow> kernel \<Rightarrow> kernel \<Rightarrow> bool" where
  "handed t q k k' \<longleftrightarrow>
     kernel_inv k' \<and> ipc_frame k k' \<and> current_thread k' \<noteq> None \<and> timers_only_stopped k k' \<and>
     queues k q = t # queues k' q \<and> (\<forall>r. \<not> ready_queue r \<longrightarrow> r \<noteq> q \<longrightarrow> queues k' r = queues k r) \<and>
     error (threads k' t) = RT_EOK \<and> stat_class (threads k' t) \<in> {RT_THREAD_READY, RT_THREAD_RUNNING} \<and>
     others t k k'"

lemma handedD:
  assumes "handed t q k k'"
  shows "kernel_inv k'" "ipc_frame k k'" "current_thread k' \<noteq> None" "timers_only_stopped k k'"
    "queues k q = t # queues k' q" "\<not> ready_queue r \<Longrightarrow> r \<noteq> q \<Longrightarrow> queues k' r = queues k r"
    "error (threads k' t) = RT_EOK" "stat_class (threads k' t) \<in> {RT_THREAD_READY, RT_THREAD_RUNNING}"
    "others t k k'"
  using assms unfolding handed_def by blast+

lemma resume_schedule_ok:
  assumes inv: "kernel_inv k" and cur: "current_thread k \<noteq> None" and q: "wait_queue q"
    and ne: "queues k q = t # ts"
  shows "\<exists>k1 k'. rt_ipc_list_resume q k = Some (RT_EOK, k1) \<and> rt_schedule k1 = Some k' \<and> handed t q k k'
    \<and> queues k' q = ts \<and> woken t RT_EOK k k1
    \<and> (scheduler_lock_nest k = 0 \<and> ready_priority_group k1 \<noteq> 0 \<longrightarrow> (\<exists>c. highest_running c k'))"
proof -
  obtain k1 where k1: "rt_ipc_list_resume q k = Some (RT_EOK, k1)" "woken t RT_EOK k k1" "queues k1 q = ts"
      "\<forall>r. \<not> ready_queue r \<longrightarrow> r \<noteq> q \<longrightarrow> queues k1 r = queues k r"
    using rt_ipc_list_resume_ok [OF inv q ne] by blast
  have inv1: "kernel_inv k1" using k1(2) by (simp add: woken_def)
  obtain c where "current_thread k1 = Some c" using cur k1(2) by (auto simp: woken_def)
  from rt_schedule_ok [OF inv1 this] obtain k' c' where k': "rt_schedule k1 = Some k'" "kernel_inv k'"
      "sched_frame k1 k'" "ipc_frame k1 k'" "current_thread k' = Some c'"
      "\<forall>t. stat_class (threads k1 t) \<notin> {RT_THREAD_READY, RT_THREAD_RUNNING} \<longrightarrow> threads k' t = threads k1 t"
      "\<forall>t. stat_class (threads k1 t) \<in> {RT_THREAD_READY, RT_THREAD_RUNNING} \<longrightarrow>
         stat_class (threads k' t) \<in> {RT_THREAD_READY, RT_THREAD_RUNNING}"
      "scheduler_lock_nest k1 = 0 \<and>
         (ready_priority_group k1 \<noteq> 0 \<or> stat_class (threads k1 c) = RT_THREAD_RUNNING) \<longrightarrow> highest_running c' k'"
    by blast
  obtain st w where thr: "threads k1 = (threads k)(t := (threads k t)\<lparr>error := RT_EOK, wakeup_func := w, stat := st\<rparr>)"
    using k1(2) by (auto simp: woken_def)
  have err: "error (threads k' s) = (if s = t then RT_EOK else error (threads k s))" for s
    using sched_frame_thread(1) [OF k'(3), of s] thr by simp
  have qs: "queues k' r = queues k1 r" if "\<not> ready_queue r" for r using sched_frameD(18) [OF k'(3) that] .
  have "ipc_frame k k'" using k1(2) k'(4) ipc_frame_trans unfolding woken_def by blast
  moreover have "timers_only_stopped k k'"
    using k1(2) timers_only_stopped_sched [OF k'(3,7)] timers_only_stopped_trans unfolding woken_def by blast
  moreover have "stat_class (threads k' t) \<in> {RT_THREAD_READY, RT_THREAD_RUNNING}"
    using k'(7) woken_class [OF k1(2)] by blast
  moreover have "others t k k'"
    by (rule others_trans [OF others_upd [OF thr] others_schedule [OF k'(3,6,7)]]) (simp add: same_attrs_def)
  moreover have "queues k' q = ts" using qs k1(3) q wait_queue_iff by blast
  moreover have "queues k' r = queues k r" if "\<not> ready_queue r" "r \<noteq> q" for r
    using qs [OF that(1)] k1(4) that by simp
  ultimately have "handed t q k k'"
    using k'(2,5) err ne unfolding handed_def by simp
  moreover have "scheduler_lock_nest k1 = scheduler_lock_nest k"
    using k1(2) ipc_frameD(9) unfolding woken_def by blast
  ultimately show ?thesis using k1 k' \<open>queues k' q = ts\<close> by auto
qed

lemma rt_sem_release_ok:
  assumes inv: "kernel_inv k" and cur: "current_thread k \<noteq> None" and s: "is_sem s k"
  shows "\<exists>r k'. rt_sem_release s k = Some (r, k') \<and> kernel_inv k' \<and> current_thread k' \<noteq> None
    \<and> timers_only_stopped k k'
    \<and> (case queues k (QSem s) of
         [] \<Rightarrow> if sem_value (sems k s) < RT_SEM_VALUE_MAX
               then r = RT_EOK \<and> k' = set_sem s (sem_value (sems k s) + 1) k
               else r = - RT_EFULL \<and> k' = k
       | t # ts \<Rightarrow> r = RT_EOK \<and> handed t (QSem s) k k' \<and> queues k' (QSem s) = ts)"
proof (cases "queues k (QSem s)")
  case Nil
  have "timers_only_stopped k (set_sem s v k)" for v
    by (rule timers_only_stopped_class) simp_all
  then show ?thesis
    using Nil assms timers_only_stopped_refl by (simp add: rt_sem_release_def)
next
  case (Cons t ts)
  have "wait_queue (QSem s)" by simp
  from resume_schedule_ok [OF inv cur this Cons] obtain k1 k' where
    k: "rt_ipc_list_resume (QSem s) k = Some (RT_EOK, k1)" "rt_schedule k1 = Some k'"
      "handed t (QSem s) k k'" "queues k' (QSem s) = ts" by blast
  then have "rt_sem_release s k = Some (RT_EOK, k')" using Cons s by (simp add: rt_sem_release_def)
  moreover have "kernel_inv k'" "current_thread k' \<noteq> None" "timers_only_stopped k k'"
    using k(3) by (simp_all add: handed_def)
  ultimately show ?thesis using k Cons by simp
qed

text \<open>Taking.\<close>

lemma sem_take_ok:
  assumes inv: "kernel_inv k" and s: "is_sem s k" and cur: "current_thread k = Some t"
    and st: "started (threads k t)" and ctx: "interrupt_nest k = 0" and f: "flag_ok f"
    and time: "sint time < 2147483647"
  shows "\<exists>r k'. sem_take s time f k = Some (r, k') \<and> kernel_inv k' \<and>
    (if 0 < sem_value (sems k s)
     then r = Returned RT_EOK \<and> k' = set_sem s (sem_value (sems k s) - 1) k
     else if time = 0 then r = Returned (- RT_ETIMEOUT) \<and> k' = k
     else case r of
            Returned e \<Rightarrow> e \<in> {- RT_EINTR, - RT_ERROR} \<and>
              k' = upd_thread t (\<lambda>th. th\<lparr>error := - RT_EINTR\<rparr>) k \<and>
              \<not> (f = RT_UNINTERRUPTIBLE \<and> stat_class (threads k t) = RT_THREAD_RUNNING)
          | Waiting \<Rightarrow> blocked t (QSem s) (obj_flag (objs k (OSem s))) time
              (upd_thread t (\<lambda>th. th\<lparr>error := - RT_EINTR\<rparr>) k) k')"
proof (cases "0 < sem_value (sems k s) \<or> time = 0")
  case True
  then show ?thesis using s inv by (auto simp: sem_take_def)
next
  case False
  let ?k = "upd_thread t (\<lambda>th. th\<lparr>error := - RT_EINTR\<rparr>) k"
  have inv1: "kernel_inv ?k" by (rule kernel_inv_upd_other [OF inv]) simp_all
  have cls: "stat_class (threads ?k t) = stat_class (threads k t)" "started (threads ?k t)"
    using st by (simp_all add: threads_upd_thread stat_class_def started_def)
  have "current_thread ?k = Some t" "wait_queue (QSem s)" using cur by simp_all
  from ipc_block_ok [OF inv1 this(1) cls(2) f this(2) time, of "obj_flag (objs ?k (OSem s))"]
  obtain r k' where k': "ipc_block (QSem s) t (obj_flag (objs ?k (OSem s))) f time ?k = Some (r, k')"
      "case r of Waiting \<Rightarrow> blocked t (QSem s) (obj_flag (objs ?k (OSem s))) time ?k k'
       | Returned e \<Rightarrow> k' = ?k \<and> e \<in> {- RT_EINTR, - RT_ERROR} \<and>
           \<not> (f = RT_UNINTERRUPTIBLE \<and> stat_class (threads ?k t) = RT_THREAD_RUNNING)"
    by blast
  have "sem_take s time f k = Some (r, k')"
    using s False cur ctx k'(1)
    by (simp add: sem_take_def in_thread_context_def in_interrupt_def rt_thread_self_def)
  moreover have "kernel_inv k'" using k'(2) inv1 by (cases r) (auto simp: blocked_def)
  ultimately show ?thesis using False k'(2) cls(1) by (cases r) auto
qed

text \<open>No thread waits for a semaphore that has a token.\<close>

definition sem_inv :: "nat \<Rightarrow> kernel \<Rightarrow> bool" where
  "sem_inv s k \<longleftrightarrow> (queues k (QSem s) \<noteq> [] \<longrightarrow> sem_value (sems k s) = 0)"

text \<open>The life of a semaphore as its callers see it: calls of \<open>sem_take\<close> by the running thread, which
  return or leave it waiting; the rest of a take, when a thread that waited runs again; calls of
  \<open>rt_sem_release\<close> by a thread or an interrupt; timeouts of waiting threads and runs of the scheduler.
  \<open>g\<close> counts the takes that returned \<open>RT_EOK\<close>, at once or after a wait, \<open>r\<close> the releases that
  returned \<open>RT_EOK\<close>, and \<open>W\<close> holds the threads whose take has not returned yet.\<close>

inductive sem_trace :: "nat \<Rightarrow> kernel \<Rightarrow> nat \<Rightarrow> nat \<Rightarrow> tid set \<Rightarrow> kernel \<Rightarrow> bool" for s :: nat and k0 :: kernel where
  start: "sem_trace s k0 0 0 (set (queues k0 (QSem s))) k0"
| taken: "sem_trace s k0 g r W k \<Longrightarrow> current_thread k = Some t \<Longrightarrow> t \<notin> W \<Longrightarrow> started (threads k t) \<Longrightarrow>
    interrupt_nest k = 0 \<Longrightarrow> flag_ok f \<Longrightarrow> sint time < 2147483647 \<Longrightarrow>
    sem_take s time f k = Some (res, k') \<Longrightarrow>
    sem_trace s k0 (if res = Returned RT_EOK then g + 1 else g) r (if res = Waiting then insert t W else W) k'"
| resumed: "sem_trace s k0 g r W k \<Longrightarrow> t \<in> W \<Longrightarrow> current_thread k = Some t \<Longrightarrow>
    stat_class (threads k t) = RT_THREAD_RUNNING \<Longrightarrow> rt_sem_take_resume t k = e \<Longrightarrow>
    sem_trace s k0 (if e = RT_EOK then g + 1 else g) r (W - {t}) k"
| released: "sem_trace s k0 g r W k \<Longrightarrow> rt_sem_release s k = Some (e, k') \<Longrightarrow>
    sem_trace s k0 g (if e = RT_EOK then r + 1 else r) W k'"
| timed_out: "sem_trace s k0 g r W k \<Longrightarrow> ThreadTimer t \<in> set (timer_lists k LHard) \<Longrightarrow>
    timer_lists k LTmpHard = [] \<Longrightarrow> timer_fire call (ThreadTimer t) k = Some k' \<Longrightarrow>
    sem_trace s k0 g r W k'"
| scheduled: "sem_trace s k0 g r W k \<Longrightarrow> rt_schedule k = Some k' \<Longrightarrow> sem_trace s k0 g r W k'"

text \<open>The threads of a set of pending takes that are no longer in the wait list and whose take is
  going to return \<open>RT_EOK\<close>: each carries one token.\<close>

definition sem_granted :: "nat \<Rightarrow> tid set \<Rightarrow> kernel \<Rightarrow> tid set" where
  "sem_granted s W k = {t \<in> W. t \<notin> set (queues k (QSem s)) \<and> rt_sem_take_resume t k = RT_EOK}"

definition sem_waiters :: "nat \<Rightarrow> tid set \<Rightarrow> kernel \<Rightarrow> bool" where
  "sem_waiters s W k \<longleftrightarrow> finite W \<and> set (queues k (QSem s)) \<subseteq> W \<and>
     (\<forall>t\<in>sem_granted s W k. \<not> suspended (threads k t))"

lemma sem_resume_error: "rt_sem_take_resume t k = error (threads k t)"
  by (simp add: rt_sem_take_resume_def)

text \<open>A step that touches the pending take of at most one thread.\<close>

lemma sem_pending_step:
  assumes w: "sem_waiters s W k" and o: "others t k k'" and W': "W' - {t} = W - {t}" "finite W'"
    and q: "set (queues k' (QSem s)) \<subseteq> W'" "set (queues k' (QSem s)) - {t} = set (queues k (QSem s)) - {t}"
    and t: "t \<in> sem_granted s W' k' \<Longrightarrow> \<not> suspended (threads k' t)"
  shows "sem_waiters s W' k'" "sem_granted s W' k' - {t} = sem_granted s W k - {t}"
proof -
  have same: "u \<in> W' \<longleftrightarrow> u \<in> W" "u \<in> set (queues k' (QSem s)) \<longleftrightarrow> u \<in> set (queues k (QSem s))" if "u \<noteq> t" for u
    using W'(1) q(2) that by blast+
  show *: "sem_granted s W' k' - {t} = sem_granted s W k - {t}"
    using same othersD(4) [OF o] by (auto simp: sem_granted_def sem_resume_error)
  have "\<not> suspended (threads k' u)" if u: "u \<in> sem_granted s W' k'" for u
  proof (cases "u = t")
    case False
    then have "u \<in> sem_granted s W k" using u * by blast
    then show ?thesis using w othersD(2) [OF o False] by (simp add: sem_waiters_def)
  qed (use t u in simp)
  then show "sem_waiters s W' k'" using W'(2) q(1) by (simp add: sem_waiters_def)
qed

lemma errno_distinct [simp]:
  "- RT_EINTR \<noteq> RT_EOK" "- RT_ERROR \<noteq> RT_EOK" "- RT_ETIMEOUT \<noteq> RT_EOK" "- RT_EFULL \<noteq> RT_EOK"
  by (simp_all add: rt_errno_defs)

definition sem_state :: "nat \<Rightarrow> kernel \<Rightarrow> bool" where
  "sem_state s k \<longleftrightarrow> kernel_inv k \<and> current_thread k \<noteq> None \<and> is_sem s k \<and> sem_inv s k"

lemma unat_pred: "0 < w \<Longrightarrow> unat (w - 1) + 1 = unat w" for w :: "'a :: len word"
  using unat_gt_0 [of w] by (simp add: unat_minus_one word_gt_0)

lemma sem_state_frame:
  assumes "sem_state s k" "kernel_inv k'" "current_thread k' \<noteq> None" "ipc_frame k k'"
    "queues k' (QSem s) \<noteq> [] \<Longrightarrow> sem_value (sems k s) = 0"
  shows "sem_state s k'"
  using assms is_sem_frame [OF assms(4)] ipc_frameD(1) [OF assms(4)] by (simp add: sem_state_def sem_inv_def)

text \<open>The balance of the tokens.\<close>

definition sem_balance :: "nat \<Rightarrow> nat \<Rightarrow> tid set \<Rightarrow> kernel \<Rightarrow> nat" where
  "sem_balance s g W k = unat (sem_value (sems k s)) + g + card (sem_granted s W k)"

lemma sem_take_tokens:
  assumes st: "sem_state s k" and w: "sem_waiters s W k" and cur: "current_thread k = Some t" and new: "t \<notin> W"
    and args: "started (threads k t)" "interrupt_nest k = 0" "flag_ok f" "sint time < 2147483647"
    and take: "sem_take s time f k = Some (r, k')"
  defines "W' \<equiv> if r = Waiting then insert t W else W"
  shows "sem_state s k' \<and> sem_waiters s W' k' \<and>
    sem_balance s (if r = Returned RT_EOK then g + 1 else g) W' k' = sem_balance s g W k"
proof -
  let ?k = "upd_thread t (\<lambda>th. th\<lparr>error := - RT_EINTR\<rparr>) k"
  have inv: "kernel_inv k" "is_sem s k" using st by (simp_all add: sem_state_def)
  note ok = sem_take_ok [OF inv cur args]
  have inv': "kernel_inv k'" using ok take by auto
  have q: "set (queues k (QSem s)) \<subseteq> W" "finite W" using w by (simp_all add: sem_waiters_def)
  have out: "t \<notin> sem_granted s W k" using new by (simp add: sem_granted_def)
  have o: "others t k ?k"
    by (rule others_upd [where th = "(threads k t)\<lparr>error := - RT_EINTR\<rparr>"]) (simp_all add: upd_thread_def same_attrs_def)
  show ?thesis
  proof (cases "0 < sem_value (sems k s)")
    case True
    then have r: "r = Returned RT_EOK" "k' = set_sem s (sem_value (sems k s) - 1) k" using ok take by auto
    then have "sem_granted s W k' = sem_granted s W k" "sem_waiters s W k'"
      using w by (simp_all add: sem_granted_def sem_waiters_def sem_resume_error)
    then show ?thesis using r True st unat_pred [OF True] by (auto simp: sem_state_def sem_inv_def sem_balance_def W'_def)
  next
    case False
    then have zero: "sem_value (sems k s) = 0" by (simp add: word_gt_0)
    consider "r = Returned (- RT_ETIMEOUT)" "k' = k" | e where "r = Returned e" "e \<noteq> RT_EOK" "k' = ?k"
      | "r = Waiting" "blocked t (QSem s) (obj_flag (objs k (OSem s))) time ?k k'"
      using ok take False by (cases r) (auto split: if_splits)
    then show ?thesis
    proof cases
      case 1
      then show ?thesis using st w by (simp add: W'_def)
    next
      case 2
      have "sem_waiters s W k'" "sem_granted s W k' - {t} = sem_granted s W k - {t}"
        using sem_pending_step [OF w o refl q(2)] q(1) new 2(3) by (simp_all add: sem_granted_def)
      moreover have "t \<notin> sem_granted s W k'" using new by (simp add: sem_granted_def)
      ultimately show ?thesis using 2 st inv' out by (simp add: sem_state_def sem_inv_def W'_def sem_balance_def)
    next
      case 3
      have fr: "ipc_frame k k'"
        using 3(2) ipc_frame_trans [OF ipc_frame_upd_thread] unfolding blocked_def by blast
      have st': "sem_state s k'"
        by (rule sem_state_frame [OF st inv' _ fr zero]) (use 3(2) in \<open>simp add: blocked_def\<close>)
      have o': "others t k k'" using 3(2) others_trans [OF o] by (simp add: blocked_def)
      have q': "set (queues k' (QSem s)) - {t} = set (queues k (QSem s)) - {t}" "set (queues k' (QSem s)) \<subseteq> insert t W"
        using 3(2) q(1) by (auto simp: blocked_def wait_insert_def)
      have "error (threads k' t) = - RT_EINTR" using 3(2) by (auto simp: blocked_def threads_upd_thread)
      then have fresh: "t \<notin> sem_granted s (insert t W) k'" by (simp add: sem_granted_def sem_resume_error)
      moreover have "sem_waiters s (insert t W) k'" "sem_granted s (insert t W) k' - {t} = sem_granted s W k - {t}"
        using sem_pending_step [OF w o', of "insert t W"] q q' fresh by simp_all
      ultimately show ?thesis using 3(1) st' ipc_frameD(1) [OF fr] out by (simp add: W'_def sem_balance_def)
    qed
  qed
qed

lemma sem_release_tokens:
  assumes st: "sem_state s k" and w: "sem_waiters s W k" and rel: "rt_sem_release s k = Some (e, k')"
  shows "sem_state s k' \<and> sem_waiters s W k' \<and>
    sem_balance s g W k' = sem_balance s g W k + (if e = RT_EOK then 1 else 0)"
proof -
  have inv: "kernel_inv k" "current_thread k \<noteq> None" "is_sem s k" using st by (simp_all add: sem_state_def)
  note ok = rt_sem_release_ok [OF inv]
  have inv': "kernel_inv k'" "current_thread k' \<noteq> None" using ok rel by auto
  show ?thesis
  proof (cases "queues k (QSem s)")
    case Nil
    show ?thesis
    proof (cases "sem_value (sems k s) < RT_SEM_VALUE_MAX")
      case True
      then have "unat (sem_value (sems k s) + 1) = unat (sem_value (sems k s)) + 1"
        by (simp add: rt_defs unat_word_ariths word_less_nat_alt)
      moreover have k': "e = RT_EOK" "k' = set_sem s (sem_value (sems k s) + 1) k" using True Nil ok rel by auto
      moreover have "sem_granted s W k' = sem_granted s W k" "sem_waiters s W k'"
        using w k'(2) by (simp_all add: sem_granted_def sem_waiters_def sem_resume_error)
      ultimately show ?thesis using Nil st by (simp add: sem_state_def sem_inv_def sem_balance_def)
    next
      case False
      then have "e = - RT_EFULL" "k' = k" using Nil ok rel by auto
      then show ?thesis using st w by simp
    qed
  next
    case (Cons t ts)
    then have h: "handed t (QSem s) k k'" "e = RT_EOK" and ts: "queues k' (QSem s) = ts" using ok rel by auto
    have fr: "ipc_frame k k'" by (rule handedD(2) [OF h(1)])
    have "sem_value (sems k s) = 0" using st Cons by (simp add: sem_state_def sem_inv_def)
    then have st': "sem_state s k'" by (rule sem_state_frame [OF st inv' fr])
    have dist: "t \<notin> set ts" using inv(1) core_distinct [of "{}" k "QSem s"] Cons
      by (simp add: kernel_inv_def sched_inv_def)
    have W: "finite W" "t \<in> W" "set ts \<subseteq> W" using w Cons by (auto simp: sem_waiters_def)
    have "\<not> suspended (threads k' t)" using handedD(8) [OF h(1)] not_suspended_class by blast
    then have "sem_waiters s W k'" "sem_granted s W k' - {t} = sem_granted s W k - {t}"
      using sem_pending_step [OF w handedD(9) [OF h(1)] refl W(1)] W(3) ts Cons dist by auto
    moreover have "t \<in> sem_granted s W k'" "t \<notin> sem_granted s W k" "finite (sem_granted s W k)"
      using W dist ts Cons handedD(7) [OF h(1)] by (simp_all add: sem_granted_def sem_resume_error)
    then have "card (sem_granted s W k') = card (sem_granted s W k) + 1"
      using \<open>sem_granted s W k' - {t} = _\<close> by (metis Diff_empty Diff_insert0 One_nat_def Suc_eq_plus1 card_insert_disjoint insert_Diff)
    ultimately show ?thesis using st' h(2) ipc_frameD(1) [OF fr] by (simp add: sem_balance_def)
  qed
qed

lemma sem_resume_tokens:
  assumes st: "sem_state s k" and w: "sem_waiters s W k" and t: "t \<in> W" "stat_class (threads k t) = RT_THREAD_RUNNING"
  shows "sem_waiters s (W - {t}) k \<and>
    sem_balance s (if rt_sem_take_resume t k = RT_EOK then g + 1 else g) (W - {t}) k = sem_balance s g W k"
proof -
  have "\<not> suspended (threads k t)" using t(2) not_suspended_class by blast
  then have out: "t \<notin> set (queues k (QSem s))"
    using waiting_suspended [of k "QSem s" t] st by (auto simp: sem_state_def)
  have "sem_granted s (W - {t}) k = sem_granted s W k - {t}" by (auto simp: sem_granted_def)
  moreover have "t \<in> sem_granted s W k \<longleftrightarrow> rt_sem_take_resume t k = RT_EOK" using t(1) out by (simp add: sem_granted_def)
  moreover have "finite (sem_granted s W k)" using w by (simp add: sem_waiters_def sem_granted_def)
  ultimately have "card (sem_granted s W k) =
      card (sem_granted s (W - {t}) k) + (if rt_sem_take_resume t k = RT_EOK then 1 else 0)"
    using card_Suc_Diff1 [of "sem_granted s W k" t] by auto
  then show ?thesis using w out \<open>sem_granted s (W - {t}) k = _\<close> by (auto simp: sem_balance_def sem_waiters_def)
qed

lemma sem_timeout_tokens:
  assumes st: "sem_state s k" and w: "sem_waiters s W k" and tm: "ThreadTimer t \<in> set (timer_lists k LHard)"
    "timer_lists k LTmpHard = []" "timer_fire call (ThreadTimer t) k = Some k'"
  shows "sem_state s k' \<and> sem_waiters s W k' \<and> sem_balance s g W k' = sem_balance s g W k"
proof -
  have inv: "kernel_inv k" "current_thread k \<noteq> None" using st by (simp_all add: sem_state_def)
  from timer_fire_thread [OF inv(1) tm(1,2) inv(2), of call] tm(3)
  have k': "kernel_inv k'" "ipc_frame k k'" "current_thread k' \<noteq> None" "error (threads k' t) = - RT_ETIMEOUT"
      "queues k' (QSem s) = removeAll t (queues k (QSem s))" "others t k k'" by auto
  from timer_fire_thread [OF inv(1) tm(1,2) inv(2), of call] tm(3)
  have cls: "\<not> suspended (threads k' t)" using not_suspended_class by auto
  have st': "sem_state s k'"
    by (rule sem_state_frame [OF st k'(1,3,2)]) (use st k'(5) in \<open>auto simp: sem_state_def sem_inv_def\<close>)
  have W: "finite W" "set (queues k (QSem s)) \<subseteq> W" using w by (simp_all add: sem_waiters_def)
  have "sem_waiters s W k'" "sem_granted s W k' - {t} = sem_granted s W k - {t}"
    using sem_pending_step [OF w k'(6) refl W(1)] W(2) k'(5) cls by auto
  moreover have "t \<notin> sem_granted s W k'" using k'(4) by (simp add: sem_granted_def sem_resume_error)
  moreover have "t \<notin> sem_granted s W k"
    using w hard_timer_suspended [OF inv(1) tm(1)] by (auto simp: sem_granted_def sem_waiters_def)
  ultimately show ?thesis using st' ipc_frameD(1) [OF k'(2)] by (simp add: sem_balance_def)
qed

lemma sem_schedule_tokens:
  assumes st: "sem_state s k" and w: "sem_waiters s W k" and sch: "rt_schedule k = Some k'"
  shows "sem_state s k' \<and> sem_waiters s W k' \<and> sem_balance s g W k' = sem_balance s g W k"
proof -
  obtain c where c: "kernel_inv k" "current_thread k = Some c" using st by (auto simp: sem_state_def)
  from rt_schedule_ok [OF this] sch have k': "kernel_inv k'" "sched_frame k k'" "ipc_frame k k'" "current_thread k' \<noteq> None"
      "\<forall>t. stat_class (threads k t) \<notin> {RT_THREAD_READY, RT_THREAD_RUNNING} \<longrightarrow> threads k' t = threads k t"
      "\<forall>t. stat_class (threads k t) \<in> {RT_THREAD_READY, RT_THREAD_RUNNING} \<longrightarrow>
         stat_class (threads k' t) \<in> {RT_THREAD_READY, RT_THREAD_RUNNING}" by auto
  have o: "others t k k'" for t by (rule others_schedule [OF k'(2,5,6)])
  have q: "queues k' (QSem s) = queues k (QSem s)" using sched_frameD(18) [OF k'(2)] by simp
  have st': "sem_state s k'"
    by (rule sem_state_frame [OF st k'(1,4,3)]) (use st q in \<open>simp add: sem_state_def sem_inv_def\<close>)
  have susp: "suspended (threads k' t) = suspended (threads k t)" for t using othersD(2) [OF o [of "t + 1"], of t] by simp
  have err: "error (threads k' t) = error (threads k t)" for t using othersD(4) [OF o [of "t + 1"], of t] by simp
  have "sem_waiters s W k' = sem_waiters s W k" "sem_granted s W k' = sem_granted s W k"
    by (simp_all add: sem_waiters_def sem_granted_def sem_resume_error q susp err)
  then show ?thesis using st' w ipc_frameD(1) [OF k'(3)] by (simp add: sem_balance_def)
qed

lemma sem_trace_tokens:
  assumes "sem_trace s k0 g r W k" and "sem_state s k0"
  shows "sem_state s k \<and> sem_waiters s W k \<and> sem_balance s g W k = unat (sem_value (sems k0 s)) + r"
  using assms
proof (induction rule: sem_trace.induct)
  case start
  then show ?case by (auto simp: sem_waiters_def sem_balance_def sem_granted_def)
next
  case (taken g r W k t f time res k')
  then show ?case using sem_take_tokens [of s k W t f time res k' g] by auto
next
  case (resumed g r W k t e)
  then show ?case using sem_resume_tokens [of s k W t g] by auto
next
  case (released g r W k e k')
  then show ?case using sem_release_tokens [of s k W e k' g] by auto
next
  case (timed_out g r W k t call k')
  then show ?case using sem_timeout_tokens [of s k W t call k' g] by auto
next
  case (scheduled g r W k k')
  then show ?case using sem_schedule_tokens [of s k W k' g] by auto
qed

subsection \<open>Timers that release semaphores\<close>

text \<open>The usual callback: it releases the semaphore it gets as its parameter.\<close>

definition release_callback :: "nat \<Rightarrow> nat \<Rightarrow> kernel \<Rightarrow> kernel option" where
  "release_callback f s k = (if is_sem s k then map_option snd (rt_sem_release s k) else Some k)"

interpretation release_timers: timer_callbacks release_callback
proof
  fix k f s assume k: "kernel_inv k" "current_thread k \<noteq> None"
  show "\<exists>k'. release_callback f s k = Some k' \<and> kernel_inv k' \<and> current_thread k' \<noteq> None \<and>
      timers_only_stopped k k'"
  proof (cases "is_sem s k")
    case True
    then show ?thesis using rt_sem_release_ok [OF k True] by (auto simp: release_callback_def)
  next
    case False
    then show ?thesis using k timers_only_stopped_refl by (simp add: release_callback_def)
  qed
qed

subsection \<open>Properties\<close>

text \<open>A state in which the timer of a waiting thread and a periodic timer object, whose function
  releases the semaphore the thread waits for, are about to expire.\<close>

definition sample_timers :: "u32 \<Rightarrow> u32 \<Rightarrow> u32 \<Rightarrow> kernel" where
  "sample_timers period t0 t3 = sample_waiting\<lparr>
     objs := (objs sample_waiting)(OTimer (TimerObj 0) :=
        zero_object\<lparr>obj_type := 0x8a, obj_flag := RT_TIMER_FLAG_PERIODIC OR RT_TIMER_FLAG_ACTIVATED\<rparr>),
     timers := (timers sample_waiting)
        (TimerObj 0 := \<lparr>timeout_func = UserFn 0, timer_parameter = 0, timer_init_tick = period, timeout_tick = t0\<rparr>,
         ThreadTimer 3 := (timers sample_waiting (ThreadTimer 3))\<lparr>timeout_tick := t3\<rparr>),
     timer_lists := (\<lambda>_. [])(LHard := [TimerObj 0, ThreadTimer 3])\<rparr>"

lemmas sample_timers_defs = sample_timers_def sample_waiting_defs

lemma sample_timers_inv: "kernel_inv (sample_timers period t0 t3)"
proof -
  let ?k = "sample_timers period t0 t3"
  have same: "threads ?k = threads sample_waiting" "queues ?k = queues sample_waiting"
      "current_thread ?k = current_thread sample_waiting" "ready_priority_group ?k = ready_priority_group sample_waiting"
    by (simp_all add: sample_timers_def)
  have "sched_inv ?k"
    using sample_waiting_sched
    by (simp add: sched_inv_def core_inv_def running_inv_def unqueued_def same)
  moreover have "thread_obj_ok t ?k" for t
    by (simp add: thread_obj_ok_def is_thread_def is_timer_def rt_object_get_type_def timer_flag_def
        sample_timers_defs rt_defs)
  moreover have "wait_timers_ok ?k"
    by (simp add: wait_timers_ok_def sample_timers_defs suspended_def rt_defs)
  moreover have "timer_inv ?k"
    by (auto simp: timer_inv_def timer_active_def timer_flag_def sample_timers_defs rt_defs split: if_splits)
  ultimately show ?thesis by (simp add: kernel_inv_def thread_objs_ok_def)
qed

lemma sample_timers_list:
  assumes "period < RT_TICK_MAX div 2" "t0 \<le> t3" "t3 < 8"
  shows "hard_list_sane (sample_timers period t0 t3)"
proof -
  have "unat t3 < 8" "unat t0 \<le> unat t3" using assms(2,3) by (simp_all add: word_less_nat_alt word_le_nat_alt)
  then show ?thesis
    using assms(1)
    by (simp add: hard_list_sane_def list_ordered_def hard_timer_ok_def is_timer_def
      rt_object_get_type_def soft_timer_def periodic_timer_def timer_flag_def ahead_def
      sample_timers_defs rt_defs)
qed

text \<open>C10: One tick of the system clock fires exactly the timers that are due.  With the hard timers in
  order, none of them overdue, their periods positive and below half the range, and functions that return,
  keep the invariants and stop no timer but those of the threads they wake: the tick returns, however
  many timers expire in it, and what it does after counting is the sequence \<open>ts\<close> of
  expiries, in each of which the timer's function is called with the timer's parameter.  No timer
  expires twice, and only timers due at the new tick do.  A thread whose timer is due is ready or runs at
  the end, a timer object that is due is in \<open>ts\<close>, and a periodic one is listed again for one period
  later; a timer object that is not due stays listed as it was.  Afterwards no listed timer
  is due, the list is in order and all invariants hold.\<close>

theorem tick_fires_due_timers:
  assumes "timer_callbacks call" and "kernel_inv k" and "current_thread k = Some c" and "hard_list_ok k"
    and "\<forall>tm\<in>set (timer_lists k LHard). \<not> due k tm"
  shows "\<exists>k1 ts k'. rt_tick_increase call k = Some k' \<and> ticked k k1 \<and> expiries call ts k1 k' \<and> distinct ts
    \<and> (\<forall>tm\<in>set ts. tm \<in> set (timer_lists k LHard) \<and> timeout_tick (timers k tm) = tick k + 1)
    \<and> (\<forall>tm\<in>set (timer_lists k LHard). timeout_tick (timers k tm) = tick k + 1 \<longrightarrow>
        (case tm of
           ThreadTimer t \<Rightarrow> stat_class (threads k' t) \<in> {RT_THREAD_READY, RT_THREAD_RUNNING}
         | TimerObj n \<Rightarrow> tm \<in> set ts \<and> (periodic_timer tm k \<longrightarrow> tm \<in> set (timer_lists k' LHard) \<and>
             timeout_tick (timers k' tm) = tick k + 1 + timer_init_tick (timers k tm))))
    \<and> (\<forall>n. TimerObj n \<in> set (timer_lists k LHard) \<and> timeout_tick (timers k (TimerObj n)) \<noteq> tick k + 1 \<longrightarrow>
        TimerObj n \<in> set (timer_lists k' LHard) \<and> timers k' (TimerObj n) = timers k (TimerObj n))
    \<and> kernel_inv k' \<and> tick k' = tick k + 1
    \<and> hard_list_ok k' \<and> (\<forall>tm\<in>set (timer_lists k' LHard). \<not> due k' tm)"
proof -
  from timer_callbacks.tick_increase_ok [OF assms] obtain k' k1 ts where k':
      "rt_tick_increase call k = Some k'" "kernel_inv k'" "hard_list_ok k'" "tick k' = tick k + 1"
      "\<forall>tm\<in>set (timer_lists k' LHard). \<not> due k' tm"
    and k1: "ticked k k1" "expiries call ts k1 k'" and f: "all_fired ts k1 k'" by blast
  have same: "timer_lists k1 = timer_lists k" "timers k1 = timers k" "tick k1 = tick k + 1"
      "periodic_timer tm k1 = periodic_timer tm k" "due k1 tm \<longleftrightarrow> timeout_tick (timers k tm) = tick k + 1" for tm
    using k1(1) by (simp_all add: ticked_def due_def periodic_timer_def timer_flag_def)
  note fd = all_firedD [OF f, unfolded same]
  have "case tm of
           ThreadTimer t \<Rightarrow> stat_class (threads k' t) \<in> {RT_THREAD_READY, RT_THREAD_RUNNING}
         | TimerObj n \<Rightarrow> tm \<in> set ts \<and> (periodic_timer tm k \<longrightarrow> tm \<in> set (timer_lists k' LHard) \<and>
             timeout_tick (timers k' tm) = tick k + 1 + timer_init_tick (timers k tm))"
    if "tm \<in> set (timer_lists k LHard)" "timeout_tick (timers k tm) = tick k + 1" for tm
  proof (cases tm)
    case (ThreadTimer t)
    then have "awake t k'" using fd(3) that by simp
    then show ?thesis by (simp add: ThreadTimer awake_def)
  next
    case (TimerObj n)
    then show ?thesis using fd(4) [of n] fd(5) [of n] that by simp
  qed
  moreover have "distinct ts" "\<forall>tm\<in>set ts. tm \<in> set (timer_lists k LHard) \<and> timeout_tick (timers k tm) = tick k + 1"
      "\<forall>n. TimerObj n \<in> set (timer_lists k LHard) \<and> timeout_tick (timers k (TimerObj n)) \<noteq> tick k + 1 \<longrightarrow>
        TimerObj n \<in> set (timer_lists k' LHard) \<and> timers k' (TimerObj n) = timers k (TimerObj n)"
    using fd(1,2,6) by blast+
  ultimately show ?thesis using k' k1 by - (rule exI [of _ k1], rule exI [of _ ts], rule exI [of _ k'], blast)
qed

theorem tick_fires_due_timers_witness:
  "\<exists>k1 ts k'. rt_tick_increase release_callback (sample_timers 4 1 1) = Some k' \<and> ticked (sample_timers 4 1 1) k1
    \<and> expiries release_callback ts k1 k' \<and> TimerObj 0 \<in> set ts
    \<and> stat_class (threads k' 3) \<in> {RT_THREAD_READY, RT_THREAD_RUNNING} \<and> TimerObj 0 \<in> set (timer_lists k' LHard)
    \<and> timeout_tick (timers k' (TimerObj 0)) = 5"
proof -
  let ?k = "sample_timers 4 1 1"
  have f: "current_thread ?k = Some 1" "tick ?k = 0" "timer_lists ?k LHard = [TimerObj 0, ThreadTimer 3]"
      "timeout_tick (timers ?k (TimerObj 0)) = 1" "timeout_tick (timers ?k (ThreadTimer 3)) = 1"
      "timer_init_tick (timers ?k (TimerObj 0)) = 4" "periodic_timer (TimerObj 0) ?k" "\<not> periodic_timer (ThreadTimer 3) ?k"
    by (simp_all add: sample_timers_defs periodic_timer_def timer_flag_def rt_defs)
  have "hard_list_sane ?k" by (rule sample_timers_list) (simp_all add: rt_defs)
  then have "hard_list_ok ?k" using f by (simp add: hard_list_ok_def)
  moreover have "\<forall>tm\<in>set (timer_lists ?k LHard). \<not> due ?k tm" using f by (simp add: due_def)
  ultimately show ?thesis
    using tick_fires_due_timers [OF release_timers.timer_callbacks_axioms sample_timers_inv f(1)] f(2-7) by fastforce
qed



text \<open>C4: Over any history of takes (with any wait flag and timeout), their ends, releases, timeouts and
  runs of the scheduler, tokens are conserved: the value, plus the takes that have returned
  \<open>RT_EOK\<close>, plus the threads that have left the wait list and are going to return \<open>RT_EOK\<close>, is the initial
  value plus the releases that returned \<open>RT_EOK\<close>.  So no token is lost or made: a successful release puts
  up the value or hands a token to a waiter, and a take succeeds on exactly one of them.  No thread waits
  for a semaphore that has a token, and every waiting thread is in a take that has not returned.\<close>

theorem sem_tokens_conserved:
  assumes "sem_trace s k0 g r W k" and "kernel_inv k0" and "current_thread k0 \<noteq> None" and "is_sem s k0"
    and "queues k0 (QSem s) \<noteq> [] \<longrightarrow> sem_value (sems k0 s) = 0"
  shows "unat (sem_value (sems k s)) + g
      + card {t \<in> W. t \<notin> set (queues k (QSem s)) \<and> rt_sem_take_resume t k = RT_EOK} =
        unat (sem_value (sems k0 s)) + r
    \<and> finite W \<and> set (queues k (QSem s)) \<subseteq> W
    \<and> (queues k (QSem s) \<noteq> [] \<longrightarrow> sem_value (sems k s) = 0) \<and> kernel_inv k"
  using sem_trace_tokens [OF assms(1)] assms(2-)
  by (auto simp: sem_state_def sem_inv_def sem_waiters_def sem_balance_def sem_granted_def)

theorem sem_tokens_conserved_witness:
  "\<exists>k. sem_trace 0 sample_waiting 0 1 {3} k \<and> sem_value (sems k 0) = 0 \<and> queues k (QSem 0) = []
    \<and> rt_sem_take_resume 3 k = RT_EOK \<and> kernel_inv k"
proof -
  have f: "current_thread sample_waiting \<noteq> None" "is_sem 0 sample_waiting"
    "queues sample_waiting (QSem 0) = [3]" "sem_value (sems sample_waiting 0) = 0"
    by (simp_all add: is_sem_def rt_object_get_type_def sample_waiting_defs rt_defs)
  obtain k where k: "rt_sem_release 0 sample_waiting = Some (RT_EOK, k)" "queues k (QSem 0) = []" "handed 3 (QSem 0) sample_waiting k"
    using rt_sem_release_ok [OF sample_waiting_inv f(1,2)] f(3) by auto
  have v: "sems k 0 = sems sample_waiting 0" using ipc_frameD(1) [OF handedD(2) [OF k(3)]] by simp
  from sem_trace.released [OF sem_trace.start k(1)] have t: "sem_trace 0 sample_waiting 0 1 {3} k"
    using f(3) by simp
  have one: "P 3" if "card {u \<in> {3}. P u} = 1" for P :: "tid \<Rightarrow> bool"
  proof (rule ccontr)
    assume "\<not> P 3"
    then have none: "{u \<in> {3}. P u} = {}" by auto
    show False using that unfolding none by simp
  qed
  note c = sem_tokens_conserved [OF t sample_waiting_inv f(1,2)]
  have "card {u \<in> {3}. u \<notin> set (queues k (QSem 0)) \<and> rt_sem_take_resume u k = RT_EOK} = 1" using c f(4) v by simp
  from one [OF this] have "rt_sem_take_resume 3 k = RT_EOK" by simp
  then show ?thesis using c f(4) v t k(2) by (intro exI [of _ k]) simp
qed

text \<open>C27: A release wakes the first waiter, which leaves the list with result \<open>RT_EOK\<close> while the value
  and all other waiters stay as they are; without a waiter it adds a token, and at the maximal value
  it fails with \<open>- RT_EFULL\<close> and changes nothing.\<close>

theorem sem_release_spec:
  assumes "kernel_inv k" and "current_thread k \<noteq> None" and "is_sem s k"
  shows "\<exists>r k'. rt_sem_release s k = Some (r, k') \<and> kernel_inv k' \<and>
    (case queues k (QSem s) of
       [] \<Rightarrow> if unat (sem_value (sems k s)) < 65535
             then r = RT_EOK \<and> unat (sem_value (sems k' s)) = unat (sem_value (sems k s)) + 1
             else r = - RT_EFULL \<and> k' = k
     | t # ts \<Rightarrow> r = RT_EOK \<and> rt_sem_take_resume t k' = RT_EOK \<and> queues k' (QSem s) = ts \<and> sems k' = sems k
         \<and> stat_class (threads k' t) \<in> {RT_THREAD_READY, RT_THREAD_RUNNING}
         \<and> (\<forall>u\<in>set ts. threads k' u = threads k u))"
proof -
  have lim: "v < RT_SEM_VALUE_MAX \<longleftrightarrow> unat v < 65535" for v :: u16
    by (simp add: rt_defs word_less_nat_alt)
  have inc: "unat v < 65535 \<Longrightarrow> unat (v + 1) = unat v + 1" for v :: u16
    by (simp add: unat_word_ariths)
  from rt_sem_release_ok [OF assms] obtain r k' where k': "rt_sem_release s k = Some (r, k')" "kernel_inv k'"
      "case queues k (QSem s) of
         [] \<Rightarrow> if sem_value (sems k s) < RT_SEM_VALUE_MAX
               then r = RT_EOK \<and> k' = set_sem s (sem_value (sems k s) + 1) k
               else r = - RT_EFULL \<and> k' = k
       | t # ts \<Rightarrow> r = RT_EOK \<and> handed t (QSem s) k k' \<and> queues k' (QSem s) = ts"
    by blast
  show ?thesis
  proof (cases "queues k (QSem s)")
    case Nil
    then show ?thesis using k' by (auto simp: lim inc split: if_splits)
  next
    case (Cons t ts)
    then have h: "handed t (QSem s) k k'" using k'(3) by simp
    have "t \<notin> set ts" using assms(1) core_distinct [of "{}" k "QSem s"] Cons
      by (simp add: kernel_inv_def sched_inv_def)
    then have "threads k' u = threads k u" if "u \<in> set ts" for u
      using othersD(3) [OF handedD(9) [OF h], of u] that waiting_suspended [OF assms(1), of "QSem s" u] Cons by auto
    moreover have "sems k' = sems k" using ipc_frameD(1) [OF handedD(2) [OF h]] .
    moreover have "r = RT_EOK" "queues k' (QSem s) = ts" "error (threads k' t) = RT_EOK"
        "stat_class (threads k' t) \<in> {RT_THREAD_READY, RT_THREAD_RUNNING}"
      using k'(3) Cons handedD(7,8) [OF h] by simp_all
    ultimately show ?thesis
      using k'(1,2) Cons by (intro exI [of _ r] exI [of _ k']) (simp add: rt_sem_take_resume_def)
  qed
qed

theorem sem_release_spec_witness:
  "\<exists>k'. rt_sem_release 0 sample_waiting = Some (RT_EOK, k') \<and> queues k' (QSem 0) = []
    \<and> rt_sem_take_resume 3 k' = RT_EOK"
proof -
  have f: "current_thread sample_waiting \<noteq> None" "is_sem 0 sample_waiting"
    "queues sample_waiting (QSem 0) = [3]"
    by (simp_all add: is_sem_def rt_object_get_type_def sample_waiting_defs rt_defs)
  from sem_release_spec [OF sample_waiting_inv f(1,2)] f(3) show ?thesis by auto
qed

text \<open>C29: A running thread that takes a semaphore without tokens is suspended in the semaphore's list:
  at the end for a FIFO semaphore; for a priority semaphore behind all waiters of the same or a higher
  priority and in front of all others, so a sorted list stays sorted.  With a positive time its timer
  is in the list of the hard timers and expires at \<open>tick + time\<close>.\<close>

theorem sem_take_waits_in_order:
  assumes "kernel_inv k" and "is_sem s k" and "current_thread k = Some t"
    and "stat_class (threads k t) = RT_THREAD_RUNNING" and "interrupt_nest k = 0"
    and "sem_value (sems k s) = 0" and "time \<noteq> 0" and "sint time < 2147483647"
    and "prio = (\<lambda>u. current_priority (threads k u))"
  shows "\<exists>k'. rt_sem_take s time k = Some (Waiting, k') \<and> kernel_inv k' \<and> suspended (threads k' t)
    \<and> (obj_flag (objs k (OSem s)) = RT_IPC_FLAG_FIFO \<longrightarrow> queues k' (QSem s) = queues k (QSem s) @ [t])
    \<and> (obj_flag (objs k (OSem s)) = RT_IPC_FLAG_PRIO \<and> sorted (map prio (queues k (QSem s))) \<longrightarrow>
        queues k' (QSem s) = filter (\<lambda>u. prio u \<le> prio t) (queues k (QSem s)) @ t #
          filter (\<lambda>u. prio t < prio u) (queues k (QSem s))
        \<and> sorted (map prio (queues k' (QSem s))))
    \<and> (0 < sint time \<longrightarrow> ThreadTimer t \<in> set (timer_lists k' LHard)
        \<and> timeout_tick (timers k' (ThreadTimer t)) = tick k + time)"
proof -
  let ?k = "upd_thread t (\<lambda>th. th\<lparr>error := - RT_EINTR\<rparr>) k"
  have st: "started (threads k t)" and f: "flag_ok RT_UNINTERRUPTIBLE"
    using assms(4) by (auto simp: started_cases flag_ok_def)
  note ok = sem_take_ok [OF assms(1,2,3) st assms(5) f assms(8)]
  then obtain r k' where k': "sem_take s time RT_UNINTERRUPTIBLE k = Some (r, k')" "kernel_inv k'" by blast
  have r: "r = Waiting" and b: "blocked t (QSem s) (obj_flag (objs k (OSem s))) time ?k k'"
    using ok k'(1) assms(4,6,7) by (cases r; simp)+
  have "(\<lambda>u. current_priority (threads ?k u)) = prio" "tick ?k = tick k"
    using assms(9) by (auto simp: threads_upd_thread) (simp add: upd_thread_def)
  then have "queues k' (QSem s) = wait_insert (obj_flag (objs k (OSem s))) prio t (queues k (QSem s))"
    and "0 < sint time \<longrightarrow> ThreadTimer t \<in> set (timer_lists k' LHard)
        \<and> timeout_tick (timers k' (ThreadTimer t)) = tick k + time"
    and "suspended (threads k' t)"
    using b by (auto simp: blocked_def)
  moreover have "RT_IPC_FLAG_PRIO \<noteq> RT_IPC_FLAG_FIFO" by (simp add: rt_defs)
  ultimately show ?thesis
    using k'(1,2) r prio_insert_split [of prio "queues k (QSem s)" t] sorted_prio_insert [of prio "queues k (QSem s)" t]
    by (auto simp: rt_sem_take_def wait_insert_def intro!: exI [of _ k'])
qed

theorem sem_take_waits_in_order_witness:
  "\<exists>k'. rt_sem_take 0 (- 1) sample_waiting = Some (Waiting, k') \<and> queues k' (QSem 0) = [3, 1]"
proof -
  have "is_sem 0 sample_waiting" "current_thread sample_waiting = Some 1"
    "stat_class (threads sample_waiting 1) = RT_THREAD_RUNNING" "interrupt_nest sample_waiting = 0"
    "sem_value (sems sample_waiting 0) = 0" "(- 1 :: 32 word) \<noteq> 0" "sint (- 1 :: 32 word) < 2147483647"
    by (simp_all add: is_sem_def rt_object_get_type_def stat_class_def sample_waiting_defs rt_defs)
  moreover have "queues sample_waiting (QSem 0) = [3]" "obj_flag (objs sample_waiting (OSem 0)) = RT_IPC_FLAG_FIFO"
    by (simp_all add: sample_waiting_defs rt_defs)
  ultimately show ?thesis using sem_take_waits_in_order [OF sample_waiting_inv _ _ _ _ _ _ _ refl] by fastforce
qed

end
