(* ===== verification/Mutex.thy ===== *)
theory Mutex
  imports Semaphore
begin

text \<open>
  The mutexes of \<^verbatim>\<open>src/ipc.c\<close>: recursive, with priority inheritance and an optional priority
  ceiling.  \<open>mutex_take\<close> is \<^verbatim>\<open>_rt_mutex_take\<close> up to the wait, \<open>mutex_take_resume\<close> what the
  thread does when \<open>rt_schedule\<close> returns to it.  The recursion of \<^verbatim>\<open>_thread_update_priority\<close>
  along the chain of owners is a partial function; it ends at once for an owner that is not itself
  waiting interruptibly for a mutex, which is the case of all lemmas but the last.

  The error number of a thread or of the system (\<^verbatim>\<open>src/kservice.c\<close>) is modelled here too.
\<close>

subsection \<open>Operations\<close>

definition rt_get_errno :: "kernel \<Rightarrow> int" where
  "rt_get_errno k =
     (if in_interrupt k then rt_errno k
      else case rt_thread_self k of None \<Rightarrow> rt_errno k | Some t \<Rightarrow> error (threads k t))"

definition rt_set_errno :: "int \<Rightarrow> kernel \<Rightarrow> kernel" where
  "rt_set_errno e k =
     (if in_interrupt k then k\<lparr>rt_errno := e\<rparr>
      else case rt_thread_self k of
             None \<Rightarrow> k\<lparr>rt_errno := e\<rparr>
           | Some t \<Rightarrow> upd_thread t (\<lambda>th. th\<lparr>error := e\<rparr>) k)"

definition is_mutex :: "nat \<Rightarrow> kernel \<Rightarrow> bool" where
  "is_mutex m k \<longleftrightarrow> rt_object_get_type (OMutex m) k = RT_Object_Class_Mutex"

definition upd_mutex :: "nat \<Rightarrow> (rt_mutex \<Rightarrow> rt_mutex) \<Rightarrow> kernel \<Rightarrow> kernel" where
  "upd_mutex m f k = k\<lparr>mutexes := (mutexes k)(m := f (mutexes k m))\<rparr>"

text \<open>\<^verbatim>\<open>rt_list_remove(&mutex->taken_list)\<close>.\<close>

definition taken_remove :: "nat \<Rightarrow> kernel \<Rightarrow> kernel" where
  "taken_remove m k = k\<lparr>threads := (\<lambda>t. (threads k t)
     \<lparr>taken_object_list := removeAll m (taken_object_list (threads k t))\<rparr>)\<rparr>"

definition mutex_update_priority :: "nat \<Rightarrow> kernel \<Rightarrow> u8 \<times> kernel" where
  "mutex_update_priority m k =
     (let p = (case queues k (QMutex m) of [] \<Rightarrow> 0xff | t # _ \<Rightarrow> current_priority (threads k t))
      in (p, upd_mutex m (\<lambda>x. x\<lparr>mutex_priority := p\<rparr>) k))"

definition thread_get_mutex_priority :: "tid \<Rightarrow> kernel \<Rightarrow> u8" where
  "thread_get_mutex_priority t k =
     fold (\<lambda>m p. if mutex_priority (mutexes k m) < p then mutex_priority (mutexes k m) else p)
       (taken_object_list (threads k t)) (init_priority (threads k t))"

partial_function (option) thread_update_priority :: "tid \<Rightarrow> u8 \<Rightarrow> int \<Rightarrow> kernel \<Rightarrow> kernel option" where
  "thread_update_priority t p suspend_flag k = do {
     (_, k) \<leftarrow> thread_control_priority t p False k;
     if stat_class (threads k t) = RT_THREAD_SUSPEND
     then case pending_object (threads k t) of
            Some (OMutex m) \<Rightarrow>
              if is_mutex m k
              then do {
                let k = tlist_remove t k;
                (_, k) \<leftarrow> rt_ipc_list_suspend (QMutex m) t (obj_flag (objs k (OMutex m))) suspend_flag k;
                let k = snd (mutex_update_priority m k);
                owner \<leftarrow> mutex_owner (mutexes k m);
                let mutex_priority = thread_get_mutex_priority owner k;
                if mutex_priority \<noteq> current_priority (threads k owner)
                then thread_update_priority owner mutex_priority suspend_flag k
                else Some k
              }
              else Some k
          | _ \<Rightarrow> Some k
     else Some k
   }"

definition fresh_mutex :: rt_mutex where
  "fresh_mutex = \<lparr>ceiling_priority = 0xff, mutex_priority = 0xff, mutex_hold = 0, mutex_owner = None\<rparr>"

definition rt_mutex_init :: "nat \<Rightarrow> u8 list \<Rightarrow> kernel \<Rightarrow> (int \<times> kernel) option" where
  "rt_mutex_init m name k = do {
     k \<leftarrow> rt_object_init (OMutex m) RT_Object_Class_Mutex name k;
     let k = rt_ipc_object_init (QMutex m) k;
     let k = upd_mutex m (\<lambda>_. fresh_mutex) k;
     Some (RT_EOK, upd_obj (OMutex m) (\<lambda>ob. ob\<lparr>obj_flag := RT_IPC_FLAG_PRIO\<rparr>) k)
   }"

definition rt_mutex_detach :: "nat \<Rightarrow> kernel \<Rightarrow> (int \<times> kernel) option" where
  "rt_mutex_detach m k = do {
     rt_assert (is_mutex m k);
     rt_assert (rt_object_is_systemobject (OMutex m) k);
     (_, k) \<leftarrow> rt_ipc_list_resume_all (QMutex m) k;
     let k = taken_remove m k;
     Some (RT_EOK, rt_object_detach (OMutex m) k)
   }"

definition owner_needs_update :: "nat \<Rightarrow> tid \<Rightarrow> kernel \<Rightarrow> bool" where
  "owner_needs_update m t k \<longleftrightarrow>
     (case mutex_owner (mutexes k m) of
        None \<Rightarrow> False
      | Some owner \<Rightarrow> current_priority (threads k owner) = current_priority (threads k t))"

text \<open>Restoring the owner's priority after a waiter has left.\<close>

definition owner_restore :: "nat \<Rightarrow> int \<Rightarrow> kernel \<Rightarrow> kernel option" where
  "owner_restore m suspend_flag k = do {
     owner \<leftarrow> mutex_owner (mutexes k m);
     let priority = thread_get_mutex_priority owner k;
     if priority \<noteq> current_priority (threads k owner)
     then thread_update_priority owner priority suspend_flag k
     else Some k
   }"

definition rt_mutex_drop_thread :: "nat \<Rightarrow> tid \<Rightarrow> kernel \<Rightarrow> kernel option" where
  "rt_mutex_drop_thread m t k = do {
     let k = tlist_remove t k;
     _ \<leftarrow> mutex_owner (mutexes k m);
     let need_update = owner_needs_update m t k;
     let k = snd (mutex_update_priority m k);
     if need_update then owner_restore m RT_UNINTERRUPTIBLE k else Some k
   }"

definition rt_mutex_setprioceiling :: "nat option \<Rightarrow> u8 \<Rightarrow> kernel \<Rightarrow> u8 \<times> kernel" where
  "rt_mutex_setprioceiling mutex priority k =
     (case mutex of
        Some m \<Rightarrow>
          if unat priority < RT_THREAD_PRIORITY_MAX
          then (ceiling_priority (mutexes k m), upd_mutex m (\<lambda>x. x\<lparr>ceiling_priority := priority\<rparr>) k)
          else (0xff, rt_set_errno (- RT_EINVAL) k)
      | None \<Rightarrow> (0xff, rt_set_errno (- RT_EINVAL) k))"

definition rt_mutex_getprioceiling :: "nat option \<Rightarrow> kernel \<Rightarrow> u8" where
  "rt_mutex_getprioceiling mutex k =
     (case mutex of Some m \<Rightarrow> ceiling_priority (mutexes k m) | None \<Rightarrow> 0xff)"

definition rt_mutex_create :: "nat option \<Rightarrow> u8 list \<Rightarrow> kernel \<Rightarrow> (nat option \<times> kernel) option" where
  "rt_mutex_create malloc name k = do {
     rt_assert (\<not> in_interrupt k);
     (r, k) \<leftarrow> rt_object_allocate (map_option OMutex malloc) RT_Object_Class_Mutex name k;
     case r of
       Some (OMutex m) \<Rightarrow> do {
         let k = rt_ipc_object_init (QMutex m) k;
         let k = upd_mutex m (\<lambda>_. fresh_mutex) k;
         Some (Some m, upd_obj (OMutex m) (\<lambda>ob. ob\<lparr>obj_flag := RT_IPC_FLAG_PRIO\<rparr>) k)
       }
     | _ \<Rightarrow> Some (None, k)
   }"

definition rt_mutex_delete :: "nat \<Rightarrow> kernel \<Rightarrow> (int \<times> kernel) option" where
  "rt_mutex_delete m k = do {
     rt_assert (is_mutex m k);
     rt_assert (\<not> rt_object_is_systemobject (OMutex m) k);
     rt_assert (\<not> in_interrupt k);
     (_, k) \<leftarrow> rt_ipc_list_resume_all (QMutex m) k;
     let k = taken_remove m k;
     k \<leftarrow> rt_object_delete (OMutex m) k;
     Some (RT_EOK, k)
   }"

text \<open>The three cases of a take: the caller owns the mutex, nobody does, another thread does.\<close>

definition mutex_take_again :: "nat \<Rightarrow> kernel \<Rightarrow> int \<times> kernel" where
  "mutex_take_again m k =
     (if mutex_hold (mutexes k m) < RT_MUTEX_HOLD_MAX
      then (RT_EOK, upd_mutex m (\<lambda>x. x\<lparr>mutex_hold := mutex_hold x + 1\<rparr>) k)
      else (- RT_EFULL, k))"

definition mutex_take_free :: "nat \<Rightarrow> tid \<Rightarrow> int \<Rightarrow> kernel \<Rightarrow> kernel option" where
  "mutex_take_free m t suspend_flag k = do {
     let k = upd_mutex m (\<lambda>x. x\<lparr>mutex_priority := 0xff, mutex_hold := 1, mutex_owner := Some t\<rparr>) k;
     let ceiling = ceiling_priority (mutexes k m);
     if ceiling \<noteq> 0xff
     then if ceiling < current_priority (threads k t)
          then thread_update_priority t ceiling suspend_flag k
          else Some k
     else Some (upd_thread t (\<lambda>th. th\<lparr>taken_object_list := m # taken_object_list th\<rparr>) k)
   }"

definition mutex_take_wait ::
  "nat \<Rightarrow> tid \<Rightarrow> tid \<Rightarrow> 32 word \<Rightarrow> int \<Rightarrow> kernel \<Rightarrow> (int call \<times> kernel) option" where
  "mutex_take_wait m t owner timeout suspend_flag k = do {
     let priority = current_priority (threads k t);
     let k = upd_thread t (\<lambda>th. th\<lparr>error := - RT_EINTR\<rparr>) k;
     (ret, k) \<leftarrow> rt_ipc_list_suspend (QMutex m) t (obj_flag (objs k (OMutex m))) suspend_flag k;
     if ret \<noteq> RT_EOK then Some (Returned ret, k)
     else do {
       let k = upd_thread t (\<lambda>th. th\<lparr>pending_object := Some (OMutex m)\<rparr>) k;
       k \<leftarrow> (if priority < mutex_priority (mutexes k m)
             then do {
               let k = upd_mutex m (\<lambda>x. x\<lparr>mutex_priority := priority\<rparr>) k;
               if priority < current_priority (threads k owner)
               then thread_update_priority owner priority suspend_flag k
               else Some k
             }
             else Some k);
       k \<leftarrow> (if 0 < sint timeout then start_thread_timer t timeout k else Some k);
       k \<leftarrow> rt_schedule k;
       Some (Waiting, k)
     }
   }"

definition mutex_take :: "nat \<Rightarrow> 32 word \<Rightarrow> int \<Rightarrow> kernel \<Rightarrow> (int call \<times> kernel) option" where
  "mutex_take m timeout suspend_flag k = do {
     rt_assert (\<not> in_interrupt k);
     rt_assert (is_mutex m k);
     t \<leftarrow> rt_thread_self k;
     let k = upd_thread t (\<lambda>th. th\<lparr>error := RT_EOK\<rparr>) k;
     case mutex_owner (mutexes k m) of
       None \<Rightarrow> do {
         k \<leftarrow> mutex_take_free m t suspend_flag k;
         Some (Returned RT_EOK, k)
       }
     | Some owner \<Rightarrow>
         if owner = t
         then let (ret, k) = mutex_take_again m k in Some (Returned ret, k)
         else if timeout = 0
         then Some (Returned (- RT_ETIMEOUT), upd_thread t (\<lambda>th. th\<lparr>error := - RT_ETIMEOUT\<rparr>) k)
         else mutex_take_wait m t owner timeout suspend_flag k
   }"

definition mutex_take_resume :: "nat \<Rightarrow> tid \<Rightarrow> int \<Rightarrow> kernel \<Rightarrow> (int \<times> kernel) option" where
  "mutex_take_resume m t suspend_flag k =
     (if error (threads k t) = RT_EOK then Some (RT_EOK, k)
      else do {
        let k = upd_thread t (\<lambda>th. th\<lparr>pending_object := None\<rparr>) k;
        let need_update = owner_needs_update m t k;
        let k = snd (mutex_update_priority m k);
        k \<leftarrow> (if need_update then owner_restore m suspend_flag k else Some k);
        Some (error (threads k t), k)
      })"

definition rt_mutex_take :: "nat \<Rightarrow> 32 word \<Rightarrow> kernel \<Rightarrow> (int call \<times> kernel) option" where
  "rt_mutex_take m time k = mutex_take m time RT_UNINTERRUPTIBLE k"

definition rt_mutex_take_interruptible :: "nat \<Rightarrow> 32 word \<Rightarrow> kernel \<Rightarrow> (int call \<times> kernel) option" where
  "rt_mutex_take_interruptible m time k = mutex_take m time RT_INTERRUPTIBLE k"

definition rt_mutex_take_killable :: "nat \<Rightarrow> 32 word \<Rightarrow> kernel \<Rightarrow> (int call \<times> kernel) option" where
  "rt_mutex_take_killable m time k = mutex_take m time RT_KILLABLE k"

text \<open>Passing the mutex on to its first waiter.\<close>

definition mutex_pass_on :: "nat \<Rightarrow> tid \<Rightarrow> kernel \<Rightarrow> kernel option" where
  "mutex_pass_on m next_thread k = do {
     let k = tlist_remove next_thread k;
     let k = upd_mutex m (\<lambda>x. x\<lparr>mutex_hold := 1, mutex_owner := Some next_thread\<rparr>) k;
     let k = upd_thread next_thread (\<lambda>th. th\<lparr>error := RT_EOK,
               taken_object_list := m # taken_object_list th, pending_object := None\<rparr>) k;
     (_, k) \<leftarrow> rt_thread_resume next_thread k;
     Some (snd (mutex_update_priority m k))
   }"

text \<open>Whether the caller's priority has to be set again.\<close>

definition lowers :: "nat \<Rightarrow> tid \<Rightarrow> kernel \<Rightarrow> bool" where
  "lowers m t k \<longleftrightarrow> ceiling_priority (mutexes k m) \<noteq> 0xff \<or>
     current_priority (threads k t) = mutex_priority (mutexes k m)"

definition rt_mutex_release :: "nat \<Rightarrow> kernel \<Rightarrow> (int \<times> kernel) option" where
  "rt_mutex_release m k = do {
     rt_assert (is_mutex m k);
     rt_assert (in_thread_context k);
     t \<leftarrow> rt_thread_self k;
     if mutex_owner (mutexes k m) \<noteq> Some t
     then Some (- RT_ERROR, upd_thread t (\<lambda>th. th\<lparr>error := - RT_ERROR\<rparr>) k)
     else do {
       let k = upd_mutex m (\<lambda>x. x\<lparr>mutex_hold := mutex_hold x - 1\<rparr>) k;
       if mutex_hold (mutexes k m) \<noteq> 0 then Some (RT_EOK, k)
       else do {
         let k = taken_remove m k;
         let lower = lowers m t k;
         k \<leftarrow> (if lower
               then map_option snd (thread_control_priority t (thread_get_mutex_priority t k) False k)
               else Some k);
         let waiting = queues k (QMutex m);
         k \<leftarrow> (case waiting of
                 next_thread # _ \<Rightarrow> mutex_pass_on m next_thread k
               | [] \<Rightarrow> Some (upd_mutex m (\<lambda>x. x\<lparr>mutex_priority := 0xff, mutex_owner := None\<rparr>) k));
         k \<leftarrow> (if lower \<or> waiting \<noteq> [] then rt_schedule k else Some k);
         Some (RT_EOK, k)
       }
     }
   }"

definition rt_mutex_control :: "nat \<Rightarrow> int \<Rightarrow> kernel \<Rightarrow> (int \<times> kernel) option" where
  "rt_mutex_control m cmd k = do {
     rt_assert (is_mutex m k);
     Some (- RT_ERROR, k)
   }"

subsection \<open>Frames\<close>

lemma upd_mutex_simps [simp]:
  "mutexes (upd_mutex m f k) = (mutexes k)(m := f (mutexes k m))"
  "queues (upd_mutex m f k) = queues k" "threads (upd_mutex m f k) = threads k" "objs (upd_mutex m f k) = objs k"
  "current_thread (upd_mutex m f k) = current_thread k" "kernel_inv (upd_mutex m f k) = kernel_inv k"
  "tick (upd_mutex m f k) = tick k" "interrupt_nest (upd_mutex m f k) = interrupt_nest k"
  by (simp_all add: upd_mutex_def)

lemma mutex_update_priority_simps [simp]:
  "queues (snd (mutex_update_priority m k)) = queues k" "threads (snd (mutex_update_priority m k)) = threads k"
  "objs (snd (mutex_update_priority m k)) = objs k"
  "current_thread (snd (mutex_update_priority m k)) = current_thread k"
  "kernel_inv (snd (mutex_update_priority m k)) = kernel_inv k"
  "mutex_owner (mutexes (snd (mutex_update_priority m k)) n) = mutex_owner (mutexes k n)"
  "mutex_hold (mutexes (snd (mutex_update_priority m k)) n) = mutex_hold (mutexes k n)"
  "ceiling_priority (mutexes (snd (mutex_update_priority m k)) n) = ceiling_priority (mutexes k n)"
  by (simp_all add: mutex_update_priority_def Let_def)

lemma kernel_inv_threads:
  assumes inv: "kernel_inv k" and thr: "\<And>t. stat (ths t) = stat (threads k t) \<and>
      current_priority (ths t) = current_priority (threads k t) \<and> number_mask (ths t) = number_mask (threads k t)"
  shows "kernel_inv (k\<lparr>threads := ths\<rparr>)"
proof -
  have "stat_class (ths t) = stat_class (threads k t)" "suspended (ths t) = suspended (threads k t)"
    "started (ths t) = started (threads k t)" "prio_ok (ths t) = prio_ok (threads k t)" for t
    using thr [of t] by (simp_all add: stat_class_def suspended_def started_def prio_ok_def)
  then show ?thesis
    using inv thr by (simp add: kernel_inv_def sched_inv_def running_inv_def core_inv_def unqueued_def
      thread_objs_ok_def thread_obj_ok_def is_thread_def is_timer_def rt_object_get_type_def
      timer_flag_def timer_inv_def timer_active_def wait_timers_ok_def)
qed

lemma taken_remove_simps [simp]:
  "mutexes (taken_remove m k) = mutexes k" "queues (taken_remove m k) = queues k"
  "objs (taken_remove m k) = objs k" "current_thread (taken_remove m k) = current_thread k"
  "kernel_inv k \<Longrightarrow> kernel_inv (taken_remove m k)"
  "error (threads (taken_remove m k) t) = error (threads k t)"
  "stat (threads (taken_remove m k) t) = stat (threads k t)"
  "current_priority (threads (taken_remove m k) t) = current_priority (threads k t)"
  "init_priority (threads (taken_remove m k) t) = init_priority (threads k t)"
  "pending_object (threads (taken_remove m k) t) = pending_object (threads k t)"
  by (simp_all add: taken_remove_def kernel_inv_threads)

text \<open>The objects stay what they are.\<close>

definition obj_frame :: "kernel \<Rightarrow> kernel \<Rightarrow> bool" where
  "obj_frame k k' \<longleftrightarrow> (\<forall>x. rt_object_get_type x k' = rt_object_get_type x k) \<and>
     (\<forall>m. objs k' (OMutex m) = objs k (OMutex m))"

lemma obj_frame_ipc: "ipc_frame k k' \<Longrightarrow> obj_frame k k'"
  using ipc_frameD(13,15) by (auto simp: obj_frame_def)

lemma obj_frame_same: "objs k' = objs k \<Longrightarrow> obj_frame k k'"
  by (simp add: obj_frame_def rt_object_get_type_def)

lemma obj_frame_trans: "obj_frame a b \<Longrightarrow> obj_frame b c \<Longrightarrow> obj_frame a c"
  by (simp add: obj_frame_def)

lemma obj_frameD:
  assumes "obj_frame k k'"
  shows "is_mutex m k' = is_mutex m k" "is_thread t k' = is_thread t k"
    "obj_flag (objs k' (OMutex m)) = obj_flag (objs k (OMutex m))"
  using assms by (auto simp: obj_frame_def is_mutex_def is_thread_def)

subsection \<open>Priorities\<close>

lemma fold_min_le:
  "fold (\<lambda>m p. if f m < p then f m else p) ms p \<le> (p :: 'a :: linorder)"
proof (induction ms arbitrary: p)
  case (Cons m ms)
  have "fold (\<lambda>m p. if f m < p then f m else p) ms (if f m < p then f m else p) \<le> (if f m < p then f m else p)"
    by (rule Cons.IH)
  also have "\<dots> \<le> p" by (simp add: less_imp_le)
  finally show ?case by simp
qed simp

lemma fold_min_member:
  "m \<in> set ms \<Longrightarrow> fold (\<lambda>m p. if f m < p then f m else p) ms p \<le> (f m :: 'a :: linorder)"
proof (induction ms arbitrary: p)
  case (Cons n ms)
  have "fold (\<lambda>m p. if f m < p then f m else p) ms (if f n < p then f n else p) \<le> (if f n < p then f n else p)"
    by (rule fold_min_le)
  then show ?case using Cons by (auto split: if_splits)
qed simp

text \<open>The priority a thread must have: the highest of its own and of the waiters for its mutexes.\<close>

lemma thread_get_mutex_priority_le:
  "thread_get_mutex_priority t k \<le> init_priority (threads k t)"
  "m \<in> set (taken_object_list (threads k t)) \<Longrightarrow>
    thread_get_mutex_priority t k \<le> mutex_priority (mutexes k m)"
  unfolding thread_get_mutex_priority_def by (rule fold_min_le, rule fold_min_member)

lemma thread_get_mutex_priority_cong:
  assumes "taken_object_list (threads k' t) = taken_object_list (threads k t)"
    "init_priority (threads k' t) = init_priority (threads k t)"
    "\<And>m. mutex_priority (mutexes k' m) = mutex_priority (mutexes k m)"
  shows "thread_get_mutex_priority t k' = thread_get_mutex_priority t k"
  using assms by (simp add: thread_get_mutex_priority_def cong: if_cong)

text \<open>The base priorities are in the range, and no thread waits interruptibly for a mutex.\<close>

definition prios_ok :: "kernel \<Rightarrow> bool" where
  "prios_ok k \<longleftrightarrow> (\<forall>t. unat (init_priority (threads k t)) < RT_THREAD_PRIORITY_MAX \<and>
     (\<forall>m. pending_object (threads k t) = Some (OMutex m) \<longrightarrow> stat_class (threads k t) \<noteq> RT_THREAD_SUSPEND))"

lemma get_mutex_priority_range:
  "prios_ok k \<Longrightarrow> unat (thread_get_mutex_priority t k) < RT_THREAD_PRIORITY_MAX"
  using thread_get_mutex_priority_le(1) [of t k] unfolding prios_ok_def
  by (metis le_less_trans word_le_nat_alt)

lemma interruptible_suspended: "stat_class th = RT_THREAD_SUSPEND \<Longrightarrow> suspended th"
  by (simp add: suspended_cases rt_defs)

lemma prios_ok_others:
  assumes p: "prios_ok k" and o: "others t k k'" and t: "stat_class (threads k' t) \<noteq> RT_THREAD_SUSPEND"
  shows "prios_ok k'"
  unfolding prios_ok_def
proof (intro allI conjI impI notI)
  fix s show "unat (init_priority (threads k' s)) < RT_THREAD_PRIORITY_MAX"
    using p othersD(1) [OF o, of s] by (simp add: prios_ok_def same_attrs_def)
next
  fix s m assume pend: "pending_object (threads k' s) = Some (OMutex m)"
    and cls: "stat_class (threads k' s) = RT_THREAD_SUSPEND"
  then have "s \<noteq> t" using t by auto
  moreover have "suspended (threads k' s)" using interruptible_suspended [OF cls] .
  ultimately have "threads k' s = threads k s" using othersD(2,3) [OF o] by blast
  then show False using p pend cls unfolding prios_ok_def by metis
qed

lemma prios_ok_schedule:
  assumes p: "prios_ok k" and o: "\<And>t. others t k k'"
  shows "prios_ok k'"
  unfolding prios_ok_def
proof (intro allI conjI impI notI)
  fix s show "unat (init_priority (threads k' s)) < RT_THREAD_PRIORITY_MAX"
    using p othersD(1) [OF o, of s] by (simp add: prios_ok_def same_attrs_def)
next
  fix s m assume pend: "pending_object (threads k' s) = Some (OMutex m)"
    and cls: "stat_class (threads k' s) = RT_THREAD_SUSPEND"
  then have "threads k' s = threads k s"
    using interruptible_suspended othersD(2,3) [OF o [of "Suc s"], of s] by simp
  then show False using p pend cls unfolding prios_ok_def by metis
qed

lemma prios_ok_classes:
  assumes "prios_ok k" and "\<And>t. stat_class (threads k' t) = stat_class (threads k t)"
    and "\<And>t. init_priority (threads k' t) = init_priority (threads k t)"
    and "\<And>t m. pending_object (threads k' t) = Some (OMutex m) \<Longrightarrow>
        pending_object (threads k t) = Some (OMutex m) \<or> stat_class (threads k t) \<noteq> RT_THREAD_SUSPEND"
  shows "prios_ok k'"
  using assms unfolding prios_ok_def by metis

text \<open>The waits of the threads outside a set are left alone: they keep their error and stay suspended or
  not.\<close>

definition steady :: "tid set \<Rightarrow> kernel \<Rightarrow> kernel \<Rightarrow> bool" where
  "steady A k k' \<longleftrightarrow> (\<forall>s. s \<notin> A \<longrightarrow>
     error (threads k' s) = error (threads k s) \<and> suspended (threads k' s) = suspended (threads k s))"

lemma steadyD:
  assumes "steady A k k'" and "s \<notin> A"
  shows "error (threads k' s) = error (threads k s)" "suspended (threads k' s) = suspended (threads k s)"
  using assms by (simp_all add: steady_def)

lemma steady_trans:
  assumes "steady A k k1" and "steady B k1 k'" and "A \<union> B \<subseteq> C"
  shows "steady C k k'"
  unfolding steady_def
proof (intro allI impI)
  fix s assume "s \<notin> C"
  then have "s \<notin> A" "s \<notin> B" using assms(3) by auto
  then show "error (threads k' s) = error (threads k s) \<and> suspended (threads k' s) = suspended (threads k s)"
    using steadyD [OF assms(1)] steadyD [OF assms(2)] by simp
qed

lemma steady_others: "others t k k' \<Longrightarrow> steady {t} k k'"
  by (simp add: steady_def others_def)

lemma steady_class:
  assumes "\<And>s. stat_class (threads k' s) = stat_class (threads k s)" "\<And>s. error (threads k' s) = error (threads k s)"
  shows "steady A k k'"
  using assms suspended_cong [OF assms(1)] by (simp add: steady_def)

lemma steady_upd: "threads k' = (threads k)(t := th) \<Longrightarrow> steady {t} k k'"
  by (simp add: steady_def)

lemma steady_same: "threads k' = threads k \<Longrightarrow> steady A k k'"
  by (simp add: steady_def)

text \<open>A change of priority.\<close>

definition reprio :: "tid \<Rightarrow> u8 \<Rightarrow> kernel \<Rightarrow> kernel \<Rightarrow> bool" where
  "reprio t p k k' \<longleftrightarrow>
     kernel_inv k' \<and> ipc_frame k k' \<and> prios_ok k' \<and> current_thread k' = current_thread k \<and>
     current_priority (threads k' t) = p \<and> (\<forall>s. s \<noteq> t \<longrightarrow> threads k' s = threads k s) \<and>
     (\<forall>s. stat_class (threads k' s) = stat_class (threads k s) \<and> error (threads k' s) = error (threads k s) \<and>
        init_priority (threads k' s) = init_priority (threads k s) \<and>
        pending_object (threads k' s) = pending_object (threads k s) \<and>
        taken_object_list (threads k' s) = taken_object_list (threads k s)) \<and>
     (\<forall>q. \<not> ready_queue q \<longrightarrow> queues k' q = queues k q)"

lemma reprioD:
  assumes "reprio t p k k'"
  shows "kernel_inv k'" "ipc_frame k k'" "prios_ok k'" "current_thread k' = current_thread k"
    "current_priority (threads k' t) = p" "s \<noteq> t \<Longrightarrow> threads k' s = threads k s"
    "stat_class (threads k' s) = stat_class (threads k s)" "error (threads k' s) = error (threads k s)"
    "init_priority (threads k' s) = init_priority (threads k s)"
    "pending_object (threads k' s) = pending_object (threads k s)"
    "taken_object_list (threads k' s) = taken_object_list (threads k s)"
    "\<not> ready_queue q \<Longrightarrow> queues k' q = queues k q"
  using assms unfolding reprio_def by blast+

lemma control_priority_reprio:
  assumes inv: "kernel_inv k" and ps: "prios_ok k" and t: "is_thread t k"
    and p: "unat p < RT_THREAD_PRIORITY_MAX"
  shows "\<exists>k'. thread_control_priority t p False k = Some (RT_EOK, k') \<and> reprio t p k k'"
proof -
  from thread_control_priority_ok [OF inv t p, of False]
  obtain k' where k': "thread_control_priority t p False k = Some (RT_EOK, k')" "kernel_inv k'"
      "ipc_frame k k'" "current_thread k' = current_thread k" "current_priority (threads k' t) = p"
      "init_priority (threads k' t) = init_priority (threads k t)"
      "\<forall>s. stat_class (threads k' s) = stat_class (threads k s)
          \<and> suspended (threads k' s) = suspended (threads k s) \<and> error (threads k' s) = error (threads k s)
          \<and> pending_object (threads k' s) = pending_object (threads k s)
          \<and> taken_object_list (threads k' s) = taken_object_list (threads k s)"
      "\<forall>s. s \<noteq> t \<longrightarrow> threads k' s = threads k s"
      "\<forall>q. \<not> ready_queue q \<longrightarrow> queues k' q = queues k q" by auto
  have init: "init_priority (threads k' s) = init_priority (threads k s)" for s
    using k'(6,8) by (cases "s = t") auto
  have "prios_ok k'" by (rule prios_ok_classes [OF ps]) (use k'(7) init in auto)
  then have "reprio t p k k'" using k'(2-9) init unfolding reprio_def by blast
  with k'(1) show ?thesis by blast
qed

lemma thread_update_priority_ok:
  assumes "kernel_inv k" and ps: "prios_ok k" and "is_thread t k" and "unat p < RT_THREAD_PRIORITY_MAX"
  shows "\<exists>k'. thread_update_priority t p f k = Some k' \<and> reprio t p k k'"
proof -
  from control_priority_reprio [OF assms] obtain k' where
    k': "thread_control_priority t p False k = Some (RT_EOK, k')" "reprio t p k k'" by blast
  have "stat_class (threads k' t) = RT_THREAD_SUSPEND \<Longrightarrow> pending_object (threads k' t) \<noteq> Some (OMutex m)" for m
    using reprioD(3) [OF k'(2)] unfolding prios_ok_def by metis
  then have "thread_update_priority t p f k = Some k'"
    using k'(1) by (subst thread_update_priority.simps) (auto split: option.splits oid.splits)
  with k'(2) show ?thesis by blast
qed

subsection \<open>The state of a mutex\<close>

text \<open>A free mutex is held zero times and nobody waits for it; a taken one has a thread as its owner
  and a positive count.\<close>

definition lock_ok_state :: "nat \<Rightarrow> kernel \<Rightarrow> bool" where
  "lock_ok_state m k \<longleftrightarrow>
     (case mutex_owner (mutexes k m) of
        None \<Rightarrow> mutex_hold (mutexes k m) = 0 \<and> queues k (QMutex m) = []
      | Some t \<Rightarrow> 0 < mutex_hold (mutexes k m) \<and> is_thread t k)"

definition mutex_state :: "nat \<Rightarrow> kernel \<Rightarrow> bool" where
  "mutex_state m k \<longleftrightarrow>
     kernel_inv k \<and> prios_ok k \<and> current_thread k \<noteq> None \<and> is_mutex m k \<and>
     obj_flag (objs k (OMutex m)) = RT_IPC_FLAG_PRIO \<and>
     (ceiling_priority (mutexes k m) = 0xff \<or> unat (ceiling_priority (mutexes k m)) < RT_THREAD_PRIORITY_MAX) \<and>
     lock_ok_state m k"

lemma mutex_stateD:
  assumes "mutex_state m k"
  shows "kernel_inv k" "prios_ok k" "current_thread k \<noteq> None" "is_mutex m k"
    "obj_flag (objs k (OMutex m)) = RT_IPC_FLAG_PRIO"
    "ceiling_priority (mutexes k m) = 0xff \<or> unat (ceiling_priority (mutexes k m)) < RT_THREAD_PRIORITY_MAX"
    "lock_ok_state m k"
  using assms by (simp_all add: mutex_state_def)

lemma mutex_stateI:
  assumes "mutex_state m k" and "kernel_inv k'" "prios_ok k'" "current_thread k' \<noteq> None" "obj_frame k k'"
    and "ceiling_priority (mutexes k' m) = ceiling_priority (mutexes k m)" "lock_ok_state m k'"
  shows "mutex_state m k'"
  using assms(1-4,6,7) obj_frameD [OF assms(5)] by (simp add: mutex_state_def)

lemma lock_ok_same:
  assumes "lock_ok_state m k" "obj_frame k k'" "mutex_owner (mutexes k' m) = mutex_owner (mutexes k m)"
    "mutex_hold (mutexes k' m) = mutex_hold (mutexes k m)"
    "queues k (QMutex m) = [] \<and> mutex_owner (mutexes k m) = None \<Longrightarrow> queues k' (QMutex m) = []"
  shows "lock_ok_state m k'"
  using assms obj_frameD(2) [OF assms(2)] by (auto simp: lock_ok_state_def split: option.splits)

lemma prios_ok_simps [simp]:
  "prios_ok (upd_mutex m f k) = prios_ok k"
  "prios_ok (snd (mutex_update_priority m k)) = prios_ok k"
  "prios_ok (upd_thread t (\<lambda>th. th\<lparr>error := e\<rparr>) k) = prios_ok k"
  "prios_ok (upd_thread t (\<lambda>th. th\<lparr>taken_object_list := g th\<rparr>) k) = prios_ok k"
  "prios_ok (taken_remove m k) = prios_ok k"
  by (auto simp: prios_ok_def threads_upd_thread stat_class_def taken_remove_def)

lemma obj_frame_simps [simp]:
  "obj_frame k (upd_mutex m f k)" "obj_frame k (snd (mutex_update_priority m k))"
  "obj_frame k (upd_thread t g k)" "obj_frame k (taken_remove m k)"
  by (simp_all add: obj_frame_same)

lemma mutexes_upd_thread [simp]: "mutexes (upd_thread t f k) = mutexes k"
  by (simp add: upd_thread_def)

lemma started_is_thread: "kernel_inv k \<Longrightarrow> started (threads k t) \<Longrightarrow> is_thread t k"
  by (auto simp: kernel_inv_def thread_objs_ok_def thread_obj_ok_def)

subsection \<open>Taking\<close>

lemma mutex_take_free_ok:
  assumes st: "mutex_state m k" and t: "started (threads k t)" and free: "mutex_owner (mutexes k m) = None"
  shows "\<exists>k'. mutex_take_free m t f k = Some k' \<and> mutex_state m k' \<and> mutex_owner (mutexes k' m) = Some t
    \<and> mutex_hold (mutexes k' m) = 1 \<and> current_thread k' = current_thread k
    \<and> queues k' (QMutex m) = []
    \<and> (\<forall>s. stat_class (threads k' s) = stat_class (threads k s) \<and> error (threads k' s) = error (threads k s))"
proof -
  let ?k = "upd_mutex m (\<lambda>x. x\<lparr>mutex_priority := 0xff, mutex_hold := 1, mutex_owner := Some t\<rparr>) k"
  let ?c = "ceiling_priority (mutexes k m)"
  note d = mutex_stateD [OF st]
  have th: "is_thread t k" using started_is_thread [OF d(1) t] .
  have q: "queues k (QMutex m) = []" using d(7) free by (simp add: lock_ok_state_def)
  have lock: "lock_ok_state m ?k" using obj_frameD(2) [of k ?k t] th by (simp add: lock_ok_state_def)
  have st1: "mutex_state m ?k" by (rule mutex_stateI [OF st]) (use d lock in simp_all)
  consider (lower) "?c \<noteq> 0xff" "?c < current_priority (threads k t)" | (keep) "?c \<noteq> 0xff" "\<not> ?c < current_priority (threads k t)"
    | (plain) "?c = 0xff" by blast
  then show ?thesis
  proof cases
    case lower
    then have cp: "unat ?c < RT_THREAD_PRIORITY_MAX" using d(6) by simp
    from thread_update_priority_ok [of ?k t ?c f] obtain k' where
      k': "thread_update_priority t ?c f ?k = Some k'" "reprio t ?c ?k k'"
      using d(1,2) th obj_frameD(2) [of k ?k t] cp by auto
    have mx: "mutexes k' = mutexes ?k" using ipc_frameD(2) [OF reprioD(2) [OF k'(2)]] .
    have q': "queues k' (QMutex m) = []" using reprioD(12) [OF k'(2), of "QMutex m"] q by simp
    have "lock_ok_state m k'"
      by (rule lock_ok_same [OF lock obj_frame_ipc [OF reprioD(2) [OF k'(2)]]]) (use mx q' in simp_all)
    then have "mutex_state m k'"
      using mutex_stateI [OF st1 reprioD(1,3) [OF k'(2)] _ obj_frame_ipc [OF reprioD(2) [OF k'(2)]]]
        reprioD(4) [OF k'(2)] d(3) mx by simp
    then show ?thesis
      using k'(1) lower mx q' reprioD(4,7,8) [OF k'(2)] by (simp add: mutex_take_free_def)
  next
    case keep
    then show ?thesis using st1 q by (simp add: mutex_take_free_def)
  next
    case plain
    let ?k' = "upd_thread t (\<lambda>th. th\<lparr>taken_object_list := m # taken_object_list th\<rparr>) ?k"
    have "kernel_inv ?k'" using d(1) by (intro kernel_inv_upd_other) simp_all
    moreover have "lock_ok_state m ?k'" by (rule lock_ok_same [OF lock]) simp_all
    ultimately have "mutex_state m ?k'" using mutex_stateI [OF st1, of ?k'] d by simp
    then show ?thesis
      using plain q by (simp add: mutex_take_free_def threads_upd_thread stat_class_def)
  qed
qed

text \<open>The class of an uninterruptible wait.\<close>

lemma uninterruptible_class:
  assumes "rt_thread_suspend_with_flag t RT_UNINTERRUPTIBLE k = Some (RT_EOK, k')"
  shows "stat_class (threads k' t) = RT_THREAD_SUSPEND_UNINTERRUPTIBLE"
proof -
  have fl: "RT_UNINTERRUPTIBLE \<noteq> RT_INTERRUPTIBLE" "RT_UNINTERRUPTIBLE \<noteq> RT_KILLABLE" by (simp_all add: rt_defs)
  from assms obtain k1 r where k1: "rt_timer_stop (ThreadTimer t) (upd_thread t (\<lambda>th. th\<lparr>stat :=
      RT_THREAD_SUSPEND_UNINTERRUPTIBLE OR (stat th AND NOT RT_THREAD_STAT_MASK)\<rparr>) k1) = Some (r, k')"
    by (auto simp: rt_thread_suspend_with_flag_def rt_thread_set_suspend_state_def fl Let_def
        split: if_splits Option.bind_splits)
  from timer_frameD(2) [OF rt_timer_stop_frame [OF k1]] show ?thesis
    by (simp add: threads_upd_thread stat_class_def)
qed

text \<open>The boost of the owner by a waiter of priority \<open>p\<close>.\<close>

definition boost :: "nat \<Rightarrow> tid \<Rightarrow> u8 \<Rightarrow> int \<Rightarrow> kernel \<Rightarrow> kernel option" where
  "boost m owner p suspend_flag k =
     (if p < mutex_priority (mutexes k m)
      then do {
        let k = upd_mutex m (\<lambda>x. x\<lparr>mutex_priority := p\<rparr>) k;
        if p < current_priority (threads k owner)
        then thread_update_priority owner p suspend_flag k
        else Some k
      }
      else Some k)"

lemma boost_ok:
  assumes inv: "kernel_inv k" "prios_ok k" and owner: "is_thread owner k" and p: "unat p < RT_THREAD_PRIORITY_MAX"
  shows "\<exists>k'. boost m owner p f k = Some k' \<and> kernel_inv k' \<and> prios_ok k' \<and> obj_frame k k'
    \<and> current_thread k' = current_thread k \<and> tick k' = tick k
    \<and> mutexes k' = (mutexes k)(m := (mutexes k m)\<lparr>mutex_priority := min p (mutex_priority (mutexes k m))\<rparr>)
    \<and> (\<forall>s. s \<noteq> owner \<longrightarrow> threads k' s = threads k s)
    \<and> (\<forall>s. stat_class (threads k' s) = stat_class (threads k s) \<and> error (threads k' s) = error (threads k s))
    \<and> current_priority (threads k' owner) =
        (if p < mutex_priority (mutexes k m) then min p (current_priority (threads k owner))
         else current_priority (threads k owner))
    \<and> (\<forall>q. \<not> ready_queue q \<longrightarrow> queues k' q = queues k q)"
proof -
  let ?k = "upd_mutex m (\<lambda>x. x\<lparr>mutex_priority := p\<rparr>) k"
  consider (raise) "p < mutex_priority (mutexes k m)" "p < current_priority (threads k owner)"
    | (mark) "p < mutex_priority (mutexes k m)" "\<not> p < current_priority (threads k owner)"
    | (none) "\<not> p < mutex_priority (mutexes k m)" by blast
  then show ?thesis
  proof cases
    case raise
    from thread_update_priority_ok [of ?k owner p f] obtain k' where
      k': "thread_update_priority owner p f ?k = Some k'" "reprio owner p ?k k'"
      using inv owner obj_frameD(2) [of k ?k owner] p by auto
    note r = reprioD [OF k'(2)]
    have "obj_frame k k'" using obj_frame_trans [OF _ obj_frame_ipc [OF r(2)]] by simp
    then show ?thesis
      using raise k'(1) r(1,3-5,7,8) r(6) [of s for s] r(12) ipc_frameD(2,7) [OF r(2)]
      by (intro exI [of _ k']) (simp add: boost_def min_absorb1 less_imp_le)
  next
    case mark
    then have "min p (mutex_priority (mutexes k m)) = p"
      "min p (current_priority (threads k owner)) = current_priority (threads k owner)"
      by (simp_all add: min_absorb1 min_absorb2 less_imp_le not_less)
    with mark show ?thesis using inv by (intro exI [of _ ?k]) (simp add: boost_def)
  next
    case none
    have "(mutexes k)(m := (mutexes k m)\<lparr>mutex_priority := min p (mutex_priority (mutexes k m))\<rparr>) = mutexes k"
      using none by (simp add: min_def not_less)
    then show ?thesis using none inv by (intro exI [of _ k]) (simp add: boost_def obj_frame_same)
  qed
qed

text \<open>What a blocked take leaves behind.\<close>

definition mutex_blocked :: "nat \<Rightarrow> tid \<Rightarrow> tid \<Rightarrow> 32 word \<Rightarrow> kernel \<Rightarrow> kernel \<Rightarrow> bool" where
  "mutex_blocked m t owner timeout k k' \<longleftrightarrow>
     mutex_state m k' \<and> mutex_owner (mutexes k' m) = mutex_owner (mutexes k m) \<and>
     mutex_hold (mutexes k' m) = mutex_hold (mutexes k m) \<and>
     suspended (threads k' t) \<and> pending_object (threads k' t) = Some (OMutex m) \<and>
     error (threads k' t) = - RT_EINTR \<and> steady {t} k k' \<and>
     queues k' (QMutex m) = prio_insert (\<lambda>s. current_priority (threads k s)) t (queues k (QMutex m)) \<and>
     (0 < sint timeout \<longrightarrow> timeout_tick (timers k' (ThreadTimer t)) = tick k + timeout) \<and>
     mutex_priority (mutexes k' m) = min (current_priority (threads k t)) (mutex_priority (mutexes k m)) \<and>
     current_priority (threads k' owner) =
       (if current_priority (threads k t) < mutex_priority (mutexes k m)
        then min (current_priority (threads k t)) (current_priority (threads k owner))
        else current_priority (threads k owner))"

lemma mutex_join:
  assumes inv: "kernel_inv k" "prios_ok k" and run: "stat_class (threads k t) = RT_THREAD_RUNNING"
  shows "\<exists>k'. rt_ipc_list_suspend (QMutex m) t flag RT_UNINTERRUPTIBLE k = Some (RT_EOK, k') \<and>
    joins t (QMutex m) flag k k' \<and> prios_ok k' \<and> stat_class (threads k' t) = RT_THREAD_SUSPEND_UNINTERRUPTIBLE"
proof -
  have st: "started (threads k t)" using run by (auto simp: started_cases)
  have f: "flag_ok RT_UNINTERRUPTIBLE" by (simp add: flag_ok_def)
  have sig: "lwp_suspend_sigcheck t RT_UNINTERRUPTIBLE k = Some True"
    by (simp add: lwp_suspend_sigcheck_def Let_def rt_defs)
  from rt_thread_suspend_ok [OF inv(1) _ f sig] run obtain k1 where
    k1: "rt_thread_suspend_with_flag t RT_UNINTERRUPTIBLE k = Some (RT_EOK, k1)" by auto
  then obtain k' where k': "rt_ipc_list_suspend (QMutex m) t flag RT_UNINTERRUPTIBLE k = Some (RT_EOK, k')"
      "threads k' = threads k1"
    by (simp add: rt_ipc_list_suspend_def set_queue_def)
  then have j: "joins t (QMutex m) flag k k'"
    using rt_ipc_list_suspend_total [OF inv(1) st f, of "QMutex m" flag] by auto
  have cls: "stat_class (threads k' t) = RT_THREAD_SUSPEND_UNINTERRUPTIBLE"
    using uninterruptible_class [OF k1] k'(2) by simp
  obtain s where thr: "threads k' = (threads k)(t := (threads k t)\<lparr>stat := s\<rparr>)" using j by (auto simp: joins_def)
  have "prios_ok k'"
    by (rule prios_ok_others [OF inv(2) others_upd [OF thr]]) (use cls in \<open>simp_all add: same_attrs_def rt_defs\<close>)
  with k'(1) j cls show ?thesis by blast
qed

lemma mutex_take_wait_ok:
  assumes st: "mutex_state m k" and cur: "current_thread k = Some t"
    and run: "stat_class (threads k t) = RT_THREAD_RUNNING" and owner: "mutex_owner (mutexes k m) = Some owner"
    and other: "owner \<noteq> t" and time: "sint timeout < 2147483647"
  shows "\<exists>k'. mutex_take_wait m t owner timeout RT_UNINTERRUPTIBLE k = Some (Waiting, k') \<and>
    mutex_blocked m t owner timeout k k'"
proof -
  let ?p = "current_priority (threads k t)" and ?fl = "obj_flag (objs k (OMutex m))"
  note d = mutex_stateD [OF st]
  define k1 where "k1 = upd_thread t (\<lambda>th. th\<lparr>error := - RT_EINTR\<rparr>) k"
  have inv1: "kernel_inv k1" "prios_ok k1" unfolding k1_def by (rule kernel_inv_upd_other [OF d(1)]; simp) (simp add: d(2))
  have run1: "stat_class (threads k1 t) = RT_THREAD_RUNNING"
    using run by (simp add: k1_def threads_upd_thread stat_class_def)
  from mutex_join [OF inv1 run1, of m ?fl] obtain k2 where
    k2: "rt_ipc_list_suspend (QMutex m) t ?fl RT_UNINTERRUPTIBLE k1 = Some (RT_EOK, k2)"
      "joins t (QMutex m) ?fl k1 k2" "prios_ok k2" "stat_class (threads k2 t) = RT_THREAD_SUSPEND_UNINTERRUPTIBLE"
    by blast
  obtain s2 where thr2: "threads k2 = (threads k1)(t := (threads k1 t)\<lparr>stat := s2\<rparr>)"
    using k2(2) by (auto simp: joins_def)
  have pr: "(\<lambda>s. current_priority (threads k1 s)) = (\<lambda>s. current_priority (threads k s))"
    "current_thread k1 = Some t" "queues k1 = queues k"
    using cur by (auto simp: k1_def threads_upd_thread)
  have fl: "RT_IPC_FLAG_PRIO \<noteq> RT_IPC_FLAG_FIFO" by (simp add: rt_defs)
  have j: "kernel_inv k2" "ipc_frame k1 k2" "current_thread k2 = Some t" "suspended (threads k2 t)"
      "queues k2 (QMutex m) = prio_insert (\<lambda>s. current_priority (threads k s)) t (queues k (QMutex m))"
    using k2(2) pr d(5) fl by (simp_all add: joins_def wait_insert_def)
  define k3 where "k3 = upd_thread t (\<lambda>th. th\<lparr>pending_object := Some (OMutex m)\<rparr>) k2"
  have inv3: "kernel_inv k3" unfolding k3_def by (rule kernel_inv_upd_other [OF j(1)]) simp_all
  have ps3: "prios_ok k3"
    by (rule prios_ok_classes [OF k2(3)])
      (use k2(4) in \<open>auto simp: k3_def threads_upd_thread stat_class_def rt_defs split: if_splits\<close>)
  have fr3: "obj_frame k k3"
    using obj_frame_trans [OF obj_frame_trans [OF _ obj_frame_ipc [OF j(2)]]] by (simp add: k1_def k3_def)
  have mx3: "mutexes k3 = mutexes k" "tick k3 = tick k"
    using ipc_frameD(2,7) [OF j(2)] by (simp_all add: k3_def k1_def) (simp_all add: upd_thread_def)
  have thr3: "threads k3 owner = threads k owner" "current_priority (threads k3 s) = current_priority (threads k s)" for s
    using other by (simp_all add: k3_def thr2 k1_def threads_upd_thread)
  have own3: "is_thread owner k3" using d(7) owner obj_frameD(2) [OF fr3] by (simp add: lock_ok_state_def)
  have p: "unat ?p < RT_THREAD_PRIORITY_MAX"
    using d(1) core_prio [of "{}" k t] run by (auto simp: kernel_inv_def sched_inv_def started_cases prio_ok_def)
  from boost_ok [OF inv3 ps3 own3 p, of m RT_UNINTERRUPTIBLE] obtain k4 where
    k4: "boost m owner ?p RT_UNINTERRUPTIBLE k3 = Some k4" "kernel_inv k4" "prios_ok k4" "obj_frame k3 k4"
      "current_thread k4 = current_thread k3" "tick k4 = tick k3"
      "mutexes k4 = (mutexes k3)(m := (mutexes k3 m)\<lparr>mutex_priority := min ?p (mutex_priority (mutexes k3 m))\<rparr>)"
      "\<forall>s. s \<noteq> owner \<longrightarrow> threads k4 s = threads k3 s" "\<forall>s. stat_class (threads k4 s) = stat_class (threads k3 s) \<and> error (threads k4 s) = error (threads k3 s)"
      "current_priority (threads k4 owner) =
        (if ?p < mutex_priority (mutexes k3 m) then min ?p (current_priority (threads k3 owner))
         else current_priority (threads k3 owner))"
      "\<forall>q. \<not> ready_queue q \<longrightarrow> queues k4 q = queues k3 q" by blast
  have t4: "threads k4 t = threads k3 t" using k4(8) other by simp
  have susp4: "suspended (threads k4 t)" using t4 j(4) by (simp add: k3_def threads_upd_thread suspended_def)
  have cur4: "current_thread k4 = Some t" using k4(5) j(3) by (simp add: k3_def)
  from timer_schedule_ok [OF k4(2) cur4 susp4 time] obtain k5 k' where
    k': "(if 0 < sint timeout then start_thread_timer t timeout k4 else Some k4) = Some k5" "rt_schedule k5 = Some k'"
      "kernel_inv k'" "ipc_frame k4 k'" "current_thread k' \<noteq> None" "threads k' t = threads k4 t" "others t k4 k'"
      "\<forall>q. \<not> ready_queue q \<longrightarrow> queues k' q = queues k4 q"
      "0 < sint timeout \<longrightarrow> ThreadTimer t \<in> set (timer_lists k' LHard) \<and>
         timeout_tick (timers k' (ThreadTimer t)) = tick k4 + timeout" by blast
  have "stat_class (threads k' t) = RT_THREAD_SUSPEND_UNINTERRUPTIBLE"
    using k'(6) t4 k2(4) by (simp add: k3_def threads_upd_thread stat_class_def)
  then have ps': "prios_ok k'" by (intro prios_ok_others [OF k4(3) k'(7)]) (simp add: rt_defs)
  have fr': "obj_frame k k'"
    using obj_frame_trans [OF fr3 obj_frame_trans [OF k4(4) obj_frame_ipc [OF k'(4)]]] .
  have mx': "mutexes k' = (mutexes k)(m := (mutexes k m)\<lparr>mutex_priority := min ?p (mutex_priority (mutexes k m))\<rparr>)"
    using ipc_frameD(2) [OF k'(4)] k4(7) mx3(1) by simp
  have "mutex_state m k'"
    by (rule mutex_stateI [OF st k'(3) ps' _ fr'])
      (use k'(5) mx' owner lock_ok_same [OF d(7) fr'] in simp_all)
  moreover have "queues k' (QMutex m) = prio_insert (\<lambda>s. current_priority (threads k s)) t (queues k (QMutex m))"
    using k'(8) k4(11) j(5) by (simp add: k3_def)
  moreover have "current_priority (threads k' owner) = current_priority (threads k4 owner)"
    using othersD(1) [OF k'(7), of owner] by (simp add: same_attrs_def)
  moreover have "pending_object (threads k' t) = Some (OMutex m)"
    using k'(6) t4 by (simp add: k3_def threads_upd_thread)
  moreover have "error (threads k' t) = - RT_EINTR"
    using k'(6) t4 by (simp add: k3_def thr2 k1_def threads_upd_thread)
  moreover have "steady {t} k k'"
  proof -
    have "threads k3 = (threads k)(t := threads k3 t)" by (auto simp: k3_def thr2 k1_def threads_upd_thread)
    then have "steady {t} k k3" by (rule steady_upd)
    moreover have "steady {t} k3 k4" using k4(9) by (intro steady_class) simp_all
    ultimately have "steady {t} k k4" by (rule steady_trans) simp
    then show ?thesis by (rule steady_trans [OF _ steady_others [OF k'(7)]]) simp
  qed
  ultimately have "mutex_blocked m t owner timeout k k'"
    using k'(6,9) susp4 mx' k4(6,10) mx3 thr3 by (simp add: mutex_blocked_def)
  moreover have "mutex_take_wait m t owner timeout RT_UNINTERRUPTIBLE k = Some (Waiting, k')"
    using k2(1) k4(1) k'(1,2) by (simp add: mutex_take_wait_def boost_def k1_def k3_def)
  ultimately show ?thesis by blast
qed

text \<open>All cases of a take by the running thread.\<close>

lemma mutex_take_ok:
  assumes st: "mutex_state m k" and cur: "current_thread k = Some t"
    and run: "stat_class (threads k t) = RT_THREAD_RUNNING" and ctx: "interrupt_nest k = 0"
    and time: "sint timeout < 2147483647"
  shows "\<exists>r k'. mutex_take m timeout RT_UNINTERRUPTIBLE k = Some (r, k') \<and> mutex_state m k' \<and> steady {t} k k' \<and>
    (r \<noteq> Waiting \<longrightarrow> queues k' (QMutex m) = queues k (QMutex m)) \<and>
    (case mutex_owner (mutexes k m) of
       None \<Rightarrow> r = Returned RT_EOK \<and> mutex_owner (mutexes k' m) = Some t \<and> mutex_hold (mutexes k' m) = 1
     | Some owner \<Rightarrow>
         if owner = t
         then if mutex_hold (mutexes k m) < RT_MUTEX_HOLD_MAX
              then r = Returned RT_EOK \<and> mutex_owner (mutexes k' m) = Some t \<and>
                mutex_hold (mutexes k' m) = mutex_hold (mutexes k m) + 1
              else r = Returned (- RT_EFULL) \<and> mutexes k' = mutexes k
         else if timeout = 0 then r = Returned (- RT_ETIMEOUT) \<and> mutexes k' = mutexes k
         else r = Waiting \<and> mutex_blocked m t owner timeout k k')"
proof -
  let ?k = "upd_thread t (\<lambda>th. th\<lparr>error := RT_EOK\<rparr>) k"
  note d = mutex_stateD [OF st]
  have err: "mutex_state m (upd_thread t (\<lambda>th. th\<lparr>error := e\<rparr>) h)" if "mutex_state m h" for e h
    using mutex_stateI [OF that, of "upd_thread t (\<lambda>th. th\<lparr>error := e\<rparr>) h"] mutex_stateD [OF that]
      kernel_inv_upd_other [of h "\<lambda>th. th\<lparr>error := e\<rparr>" t] lock_ok_same [of m h] by simp
  have st1: "mutex_state m ?k" by (rule err [OF st])
  have run1: "stat_class (threads ?k t) = RT_THREAD_RUNNING" "started (threads ?k t)"
    using run by (auto simp: threads_upd_thread stat_class_def started_def rt_defs)
  have pre: "\<not> in_interrupt k" "is_mutex m k" using ctx d(4) by (simp_all add: in_interrupt_def)
  note unf = mutex_take_def rt_thread_self_def
  have stdy: "steady {t} k ?k" "steady {t} k (upd_thread t (\<lambda>th. th\<lparr>error := e\<rparr>) ?k)"
      "steady {t} k (upd_mutex m g ?k)" for e g
    by (simp_all add: steady_def threads_upd_thread)
  show ?thesis
  proof (cases "mutex_owner (mutexes k m)")
    case None
    with mutex_take_free_ok [OF st1 run1(2), of RT_UNINTERRUPTIBLE] obtain k' where
      "mutex_take_free m t RT_UNINTERRUPTIBLE ?k = Some k'" "mutex_state m k'"
      "mutex_owner (mutexes k' m) = Some t" "mutex_hold (mutexes k' m) = 1"
      "\<forall>s. stat_class (threads k' s) = stat_class (threads ?k s) \<and> error (threads k' s) = error (threads ?k s)"
      "queues k' (QMutex m) = []" by auto
    moreover have "queues k (QMutex m) = []" using d(7) None by (simp add: lock_ok_state_def)
    moreover from calculation(5) have "steady {t} k k'"
      by (intro steady_trans [OF stdy(1) steady_class [of k' ?k "{t}"]]) simp_all
    ultimately show ?thesis using None pre cur by (intro exI [of _ "Returned RT_EOK"] exI [of _ k']) (simp add: unf)
  next
    case (Some owner)
    show ?thesis
    proof (cases "owner = t")
      case True
      let ?k' = "upd_mutex m (\<lambda>x. x\<lparr>mutex_hold := mutex_hold x + 1\<rparr>) ?k"
      have "mutex_state m ?k'" if "mutex_hold (mutexes k m) < RT_MUTEX_HOLD_MAX"
      proof (rule mutex_stateI [OF st1])
        have "mutex_hold (mutexes k m) + 1 \<noteq> 0" using that by (auto simp: rt_defs word_less_nat_alt unat_eq_0 [symmetric] unat_word_ariths)
        then show "lock_ok_state m ?k'"
          using mutex_stateD(7) [OF st1] Some obj_frameD(2) [of k ?k'] obj_frame_trans [of k ?k ?k']
          by (auto simp: lock_ok_state_def word_gt_0 is_thread_def rt_object_get_type_def)
      qed (use mutex_stateD [OF st1] in simp_all)
      then show ?thesis
        using Some True pre cur st1 stdy
        by (cases "mutex_hold (mutexes k m) < RT_MUTEX_HOLD_MAX") (simp_all add: unf mutex_take_again_def)
    next
      case False
      show ?thesis
      proof (cases "timeout = 0")
        case True
        then show ?thesis using Some False pre cur err [OF st1] stdy(2) by (simp add: unf)
      next
        case tm: False
        from mutex_take_wait_ok [OF st1 _ run1(1) _ False time] Some cur obtain k' where
          "mutex_take_wait m t owner timeout RT_UNINTERRUPTIBLE ?k = Some (Waiting, k')"
          "mutex_blocked m t owner timeout ?k k'" by auto
        moreover have "mutex_blocked m t owner timeout k k' = mutex_blocked m t owner timeout ?k k'"
        proof -
          have "(\<lambda>s. current_priority (threads ?k s)) = (\<lambda>s. current_priority (threads k s))"
            "current_priority (threads ?k s) = current_priority (threads k s)" "tick ?k = tick k" for s
            by (auto simp: threads_upd_thread) (simp add: upd_thread_def)
          moreover have "steady {t} ?k k' = steady {t} k k'" by (simp add: steady_def threads_upd_thread)
          ultimately show ?thesis by (simp add: mutex_blocked_def)
        qed
        ultimately show ?thesis
          using Some False tm pre cur by (intro exI [of _ Waiting] exI [of _ k']) (simp add: unf mutex_blocked_def)
      qed
    qed
  qed
qed

subsection \<open>The end of a wait without the mutex\<close>

lemma owner_restore_ok:
  assumes st: "mutex_state m k" and owner: "mutex_owner (mutexes k m) = Some ow"
  shows "\<exists>k'. owner_restore m f k = Some k' \<and> mutex_state m k' \<and> mutexes k' = mutexes k
    \<and> (\<forall>s. error (threads k' s) = error (threads k s)) \<and> steady {} k k'
    \<and> current_priority (threads k' ow) = thread_get_mutex_priority ow k
    \<and> (\<forall>q. \<not> ready_queue q \<longrightarrow> queues k' q = queues k q)"
proof (cases "thread_get_mutex_priority ow k = current_priority (threads k ow)")
  case True
  then show ?thesis using st owner steady_same [of k k] by (simp add: owner_restore_def)
next
  case False
  note d = mutex_stateD [OF st]
  have th: "is_thread ow k" using d(7) owner by (simp add: lock_ok_state_def)
  from thread_update_priority_ok [OF d(1,2) th get_mutex_priority_range [OF d(2)], of ow f] obtain k' where
    k': "thread_update_priority ow (thread_get_mutex_priority ow k) f k = Some k'"
      "reprio ow (thread_get_mutex_priority ow k) k k'" by blast
  note r = reprioD [OF k'(2)]
  have mx: "mutexes k' = mutexes k" using ipc_frameD(2) [OF r(2)] .
  have q: "queues k' (QMutex m) = queues k (QMutex m)" using r(12) [of "QMutex m"] by simp
  have "mutex_state m k'"
    by (rule mutex_stateI [OF st r(1,3) _ obj_frame_ipc [OF r(2)]])
      (use r(4) d(3) mx q lock_ok_same [OF d(7) obj_frame_ipc [OF r(2)]] in simp_all)
  moreover have "steady {} k k'" by (rule steady_class) (simp_all add: r(7,8))
  ultimately show ?thesis using False owner k'(1) mx r(5,8,12) by (simp add: owner_restore_def)
qed

lemma mutex_take_resume_ok:
  assumes st: "mutex_state m k"
  shows "\<exists>k'. mutex_take_resume m t f k = Some (error (threads k t), k') \<and> mutex_state m k'
    \<and> mutex_owner (mutexes k' m) = mutex_owner (mutexes k m)
    \<and> mutex_hold (mutexes k' m) = mutex_hold (mutexes k m)
    \<and> queues k' (QMutex m) = queues k (QMutex m) \<and> steady {} k k'"
proof (cases "error (threads k t) = RT_EOK")
  case True
  then show ?thesis using st steady_same [of k k] by (simp add: mutex_take_resume_def)
next
  case False
  note d = mutex_stateD [OF st]
  define k1 where "k1 = upd_thread t (\<lambda>th. th\<lparr>pending_object := None\<rparr>) k"
  define k2 where "k2 = snd (mutex_update_priority m k1)"
  have fr: "obj_frame k k1" "obj_frame k k2"
    using obj_frame_trans [of k k1 k2] by (simp_all add: k1_def k2_def)
  have same: "mutexes k1 = mutexes k" "queues k2 = queues k" "current_thread k2 = current_thread k"
      "mutex_owner (mutexes k2 m) = mutex_owner (mutexes k m)" "mutex_hold (mutexes k2 m) = mutex_hold (mutexes k m)"
      "ceiling_priority (mutexes k2 m) = ceiling_priority (mutexes k m)" "threads k2 = threads k1"
    by (simp_all add: k1_def k2_def)
  have "kernel_inv k1" unfolding k1_def by (rule kernel_inv_upd_other [OF d(1)]) simp_all
  moreover have "prios_ok k1"
    by (rule prios_ok_classes [OF d(2)]) (auto simp: k1_def threads_upd_thread stat_class_def split: if_splits)
  moreover have "lock_ok_state m k2" by (rule lock_ok_same [OF d(7) fr(2)]) (simp_all add: same)
  ultimately have st2: "mutex_state m k2"
    using mutex_stateI [OF st, of k2] d(3) fr(2) same by (simp add: k2_def)
  have e: "error (threads k2 t) = error (threads k t)" by (simp add: same k1_def threads_upd_thread)
  have s2: "steady {} k k2" by (simp add: steady_def same k1_def threads_upd_thread suspended_def)
  show ?thesis
  proof (cases "owner_needs_update m t k1")
    case True
    then obtain ow where "mutex_owner (mutexes k2 m) = Some ow"
      by (auto simp: owner_needs_update_def same split: option.splits)
    from owner_restore_ok [OF st2 this, of f] obtain k' where "owner_restore m f k2 = Some k'" "mutex_state m k'"
      "mutexes k' = mutexes k2" "error (threads k' t) = error (threads k2 t)"
      "queues k' (QMutex m) = queues k2 (QMutex m)" "steady {} k2 k'" by auto
    then show ?thesis
      using False True e same(2,4,5) steady_trans [OF s2, of "{}" k' "{}"] by (simp add: mutex_take_resume_def k1_def [symmetric] k2_def [symmetric])
  next
    case no: False
    then show ?thesis
      using False st2 e same(2,4,5) s2 by (simp add: mutex_take_resume_def k1_def [symmetric] k2_def [symmetric])
  qed
qed

subsection \<open>Releasing\<close>

lemma kernel_inv_unlink:
  assumes inv: "kernel_inv k" and susp: "suspended (threads k t)"
  shows "kernel_inv (tlist_remove t k)"
proof -
  let ?k = "tlist_remove t k"
  have core: "core_inv {} k" using inv by (simp add: kernel_inv_def sched_inv_def)
  have same: "threads ?k = threads k" "current_thread ?k = current_thread k" by (simp_all add: tlist_remove_def)
  have "core_inv ({t} - {t}) ?k"
    using suspended_class [OF susp] core_prio [OF core, of t] core_inv_unlink_suspended [OF core susp]
    by (intro core_inv_leave_transit) (simp_all add: same)
  then have "sched_inv ?k"
    using inv by (simp add: kernel_inv_def sched_inv_def running_inv_def same)
  then show ?thesis
    by (rule kernel_inv_sched [OF inv _ ipc_frame_tlist(1)]) (simp_all add: tlist_remove_def)
qed

lemma mutex_pass_on_ok:
  assumes inv: "kernel_inv k" "prios_ok k" and q: "queues k (QMutex m) = n # ts"
  shows "\<exists>k'. mutex_pass_on m n k = Some k' \<and> kernel_inv k' \<and> prios_ok k' \<and> obj_frame k k'
    \<and> current_thread k' = current_thread k \<and> mutex_owner (mutexes k' m) = Some n \<and> mutex_hold (mutexes k' m) = 1
    \<and> ceiling_priority (mutexes k' m) = ceiling_priority (mutexes k m)
    \<and> queues k' (QMutex m) = ts \<and> error (threads k' n) = RT_EOK \<and> pending_object (threads k' n) = None
    \<and> stat_class (threads k' n) \<in> {RT_THREAD_READY, RT_THREAD_RUNNING}
    \<and> (\<forall>s. s \<noteq> n \<longrightarrow> threads k' s = threads k s)"
proof -
  have core: "core_inv {} k" using inv by (simp add: kernel_inv_def sched_inv_def)
  have susp: "suspended (threads k n)" using waiting_suspended [OF inv(1), of "QMutex m"] q by simp
  have nt: "n \<notin> set ts" using core_distinct [OF core, of "QMutex m"] q by simp
  define k1 where "k1 = tlist_remove n k"
  define k2 where "k2 = upd_mutex m (\<lambda>x. x\<lparr>mutex_hold := 1, mutex_owner := Some n\<rparr>) k1"
  define k3 where "k3 = upd_thread n (\<lambda>th. th\<lparr>error := RT_EOK,
      taken_object_list := m # taken_object_list th, pending_object := None\<rparr>) k2"
  have same1: "threads k1 = threads k" "mutexes k1 = mutexes k" "objs k1 = objs k" "current_thread k1 = current_thread k"
    by (simp_all add: k1_def tlist_remove_def)
  have inv3: "kernel_inv k3"
    unfolding k3_def using kernel_inv_unlink [OF inv(1) susp]
    by (intro kernel_inv_upd_other) (simp_all add: k2_def k1_def)
  have thr3: "threads k3 = (threads k)(n := (threads k n)\<lparr>error := RT_EOK,
      taken_object_list := m # taken_object_list (threads k n), pending_object := None\<rparr>)"
    by (simp add: k3_def k2_def threads_upd_thread same1)
  have ps3: "prios_ok k3"
    by (rule prios_ok_classes [OF inv(2)]) (auto simp: thr3 stat_class_def split: if_splits)
  have "suspended (threads k3 n)" using susp by (simp add: thr3 suspended_def)
  from rt_thread_resume_ok [OF inv3 this] obtain k4 where
    k4: "rt_thread_resume n k3 = Some (RT_EOK, k4)" "wakes n k3 k4" by blast
  obtain st w where thr4: "threads k4 = (threads k3)(n := (threads k3 n)\<lparr>wakeup_func := w, stat := st\<rparr>)"
    using k4(2) by (auto simp: wakes_def)
  have cls4: "stat_class (threads k4 n) \<in> {RT_THREAD_READY, RT_THREAD_RUNNING}" using k4(2) by (simp add: wakes_def)
  have w: "kernel_inv k4" "ipc_frame k3 k4" "current_thread k4 = current_thread k3"
      "queues k4 (QMutex m) = removeAll n (queues k3 (QMutex m))"
    using k4(2) by (simp_all add: wakes_def)
  have ps4: "prios_ok k4"
    by (rule prios_ok_others [OF ps3 others_upd [OF thr4]]) (use cls4 in \<open>auto simp: same_attrs_def rt_defs\<close>)
  have fr: "obj_frame k k4"
    using obj_frame_trans [OF obj_frame_same obj_frame_ipc [OF w(2)], of k] by (simp add: k3_def k2_def same1)
  have mx: "mutexes k4 = mutexes k2" using ipc_frameD(2) [OF w(2)] by (simp add: k3_def)
  have "queues k3 (QMutex m) = ts" using q nt by (simp add: k3_def k2_def k1_def tlist_remove_def)
  then have q4: "queues k4 (QMutex m) = ts" using w(4) nt by simp
  let ?k' = "snd (mutex_update_priority m k4)"
  have "mutex_pass_on m n k = Some ?k'"
    using k4(1) by (simp add: mutex_pass_on_def k1_def k2_def k3_def)
  moreover have "obj_frame k ?k'" using obj_frame_trans [OF fr] by simp
  ultimately show ?thesis
    using w(1,3) ps4 q4 cls4 thr4 thr3 by (intro exI [of _ ?k']) (simp add: mx k2_def k3_def same1)
qed

lemma release_priority_ok:
  assumes inv: "kernel_inv k" "prios_ok k" and t: "is_thread t k"
  shows "\<exists>k'. (if lowers m t k then map_option snd (thread_control_priority t (thread_get_mutex_priority t k) False k)
      else Some k) = Some k' \<and> kernel_inv k' \<and> prios_ok k' \<and> ipc_frame k k' \<and> current_thread k' = current_thread k
    \<and> (\<forall>s. stat_class (threads k' s) = stat_class (threads k s)) \<and> steady {} k k'
    \<and> current_priority (threads k' t) =
        (if lowers m t k then thread_get_mutex_priority t k else current_priority (threads k t))
    \<and> (\<forall>q. \<not> ready_queue q \<longrightarrow> queues k' q = queues k q)"
proof (cases "lowers m t k")
  case True
  from control_priority_reprio [OF inv t get_mutex_priority_range [OF inv(2)], of t] obtain k' where
    "thread_control_priority t (thread_get_mutex_priority t k) False k = Some (RT_EOK, k')"
    "reprio t (thread_get_mutex_priority t k) k k'" by blast
  moreover from this(2) have "steady {} k k'" by (intro steady_class) (simp_all add: reprioD(7,8))
  ultimately show ?thesis using True by (intro exI [of _ k']) (simp add: reprio_def)
next
  case False
  then show ?thesis using inv steady_same [of k k] by simp
qed

text \<open>The outcome of a release.\<close>

definition released_to :: "nat \<Rightarrow> tid \<Rightarrow> kernel \<Rightarrow> kernel \<Rightarrow> bool" where
  "released_to m t k k' \<longleftrightarrow>
     (case queues k (QMutex m) of
        [] \<Rightarrow> mutex_owner (mutexes k' m) = None \<and> mutex_hold (mutexes k' m) = 0
      | n # ts \<Rightarrow> mutex_owner (mutexes k' m) = Some n \<and> mutex_hold (mutexes k' m) = 1 \<and>
          queues k' (QMutex m) = ts \<and> error (threads k' n) = RT_EOK \<and> pending_object (threads k' n) = None \<and>
          stat_class (threads k' n) \<in> {RT_THREAD_READY, RT_THREAD_RUNNING}) \<and>
     (lowers m t k \<longrightarrow> current_priority (threads k' t) = thread_get_mutex_priority t (taken_remove m k)) \<and>
     steady (set (take 1 (queues k (QMutex m)))) k k'"

lemma final_release_ok:
  assumes st: "mutex_state m k" and cur: "current_thread k = Some t"
    and run: "stat_class (threads k t) = RT_THREAD_RUNNING"
    and own: "mutex_owner (mutexes k m) = Some t" and hold: "mutex_hold (mutexes k m) = 1"
    and ctx: "interrupt_nest k = 0"
  shows "\<exists>k'. rt_mutex_release m k = Some (RT_EOK, k') \<and> mutex_state m k' \<and> released_to m t k k'"
proof -
  note d = mutex_stateD [OF st]
  define k1 where "k1 = upd_mutex m (\<lambda>x. x\<lparr>mutex_hold := mutex_hold x - 1\<rparr>) k"
  define k2 where "k2 = taken_remove m k1"
  have th: "is_thread t k" using d(7) own by (simp add: lock_ok_state_def)
  have fr2: "obj_frame k k2" using obj_frame_trans [of k k1 k2] by (simp add: k1_def k2_def)
  have inv2: "kernel_inv k2" "prios_ok k2" "is_thread t k2" "current_thread k2 = Some t" "queues k2 = queues k"
    using d(1,2) th cur obj_frameD(2) [OF fr2] by (simp_all add: k2_def k1_def)
  have low: "lowers m t k2 = lowers m t k" by (simp add: lowers_def k2_def k1_def)
  have prio: "thread_get_mutex_priority t k2 = thread_get_mutex_priority t (taken_remove m k)"
    by (rule thread_get_mutex_priority_cong) (simp_all add: k2_def k1_def taken_remove_def)
  have run2: "stat_class (threads k2 t) = RT_THREAD_RUNNING" using run by (simp add: k2_def k1_def stat_class_def)
  from release_priority_ok [OF inv2(1-3), of m] obtain k3 where
    k3: "(if lowers m t k2 then map_option snd (thread_control_priority t (thread_get_mutex_priority t k2) False k2)
      else Some k2) = Some k3" "kernel_inv k3" "prios_ok k3" "ipc_frame k2 k3" "current_thread k3 = Some t"
      "stat_class (threads k3 t) = RT_THREAD_RUNNING"
      "current_priority (threads k3 t) = (if lowers m t k2 then thread_get_mutex_priority t k2 else current_priority (threads k2 t))"
      "queues k3 (QMutex m) = queues k (QMutex m)" "steady {} k2 k3"
    using inv2(4,5) run2 by auto
  have stdy3: "steady {} k k3"
    by (rule steady_trans [OF _ k3(9)]) (simp_all add: steady_def k2_def k1_def suspended_def)
  have fr3: "obj_frame k k3" by (rule obj_frame_trans [OF fr2 obj_frame_ipc [OF k3(4)]])
  have mx3: "mutexes k3 = mutexes k1" using ipc_frameD(2) [OF k3(4)] by (simp add: k2_def)
  obtain k4 where k4: "(case queues k3 (QMutex m) of next_thread # _ \<Rightarrow> mutex_pass_on m next_thread k3
        | [] \<Rightarrow> Some (upd_mutex m (\<lambda>x. x\<lparr>mutex_priority := 0xff, mutex_owner := None\<rparr>) k3)) = Some k4"
      "mutex_state m k4" "current_thread k4 = Some t" "threads k4 t = threads k3 t"
      "case queues k (QMutex m) of
        [] \<Rightarrow> mutex_owner (mutexes k4 m) = None \<and> mutex_hold (mutexes k4 m) = 0
      | n # ts \<Rightarrow> mutex_owner (mutexes k4 m) = Some n \<and> mutex_hold (mutexes k4 m) = 1 \<and>
          queues k4 (QMutex m) = ts \<and> error (threads k4 n) = RT_EOK \<and> pending_object (threads k4 n) = None \<and>
          stat_class (threads k4 n) \<in> {RT_THREAD_READY, RT_THREAD_RUNNING}"
      "steady (set (take 1 (queues k (QMutex m)))) k k4"
  proof (cases "queues k (QMutex m)")
    case Nil
    let ?k = "upd_mutex m (\<lambda>x. x\<lparr>mutex_priority := 0xff, mutex_owner := None\<rparr>) k3"
    have "mutex_state m ?k"
      by (rule mutex_stateI [OF st]) (use k3 fr3 Nil mx3 hold obj_frame_trans [OF fr3] in
          \<open>simp_all add: lock_ok_state_def k1_def\<close>)
    moreover have "steady {} k ?k" by (rule steady_trans [OF stdy3 steady_same]) simp_all
    ultimately show ?thesis using that [of ?k] k3(5,8) Nil mx3 hold by (simp add: k1_def)
  next
    case (Cons n ts)
    from mutex_pass_on_ok [OF k3(2,3), of m n ts] Cons k3(8) obtain k4 where
      k4: "mutex_pass_on m n k3 = Some k4" "kernel_inv k4" "prios_ok k4" "obj_frame k3 k4"
        "current_thread k4 = Some t" "mutex_owner (mutexes k4 m) = Some n" "mutex_hold (mutexes k4 m) = 1"
        "ceiling_priority (mutexes k4 m) = ceiling_priority (mutexes k3 m)" "queues k4 (QMutex m) = ts"
        "error (threads k4 n) = RT_EOK" "pending_object (threads k4 n) = None"
        "stat_class (threads k4 n) \<in> {RT_THREAD_READY, RT_THREAD_RUNNING}"
        "\<forall>s. s \<noteq> n \<longrightarrow> threads k4 s = threads k3 s"
      using k3(5) by auto
    have "suspended (threads k n)" using waiting_suspended [OF d(1), of "QMutex m"] Cons by simp
    then have "n \<noteq> t" using suspended_class run by auto
    have fr4: "obj_frame k k4" by (rule obj_frame_trans [OF fr3 k4(4)])
    have "started (threads k4 n)" using k4(12) by (auto simp: started_cases)
    then have "is_thread n k4" using started_is_thread [OF k4(2)] by blast
    then have "mutex_state m k4"
      by (intro mutex_stateI [OF st k4(2,3) _ fr4]) (use k4 mx3 in \<open>simp_all add: lock_ok_state_def k1_def\<close>)
    moreover have "steady {n} k k4"
      by (rule steady_trans [OF stdy3, of "{n}"]) (use k4(13) in \<open>simp_all add: steady_def\<close>)
    ultimately show ?thesis using that [of k4] k4 Cons k3(8) \<open>n \<noteq> t\<close> by simp
  qed
  note d4 = mutex_stateD [OF k4(2)]
  from rt_schedule_ok [OF d4(1) k4(3)] obtain k5 c' where k5: "rt_schedule k4 = Some k5" "kernel_inv k5"
      "sched_frame k4 k5" "ipc_frame k4 k5" "current_thread k5 = Some c'"
      "\<forall>t. stat_class (threads k4 t) \<notin> {RT_THREAD_READY, RT_THREAD_RUNNING} \<longrightarrow> threads k5 t = threads k4 t"
      "\<forall>t. stat_class (threads k4 t) \<in> {RT_THREAD_READY, RT_THREAD_RUNNING} \<longrightarrow>
         stat_class (threads k5 t) \<in> {RT_THREAD_READY, RT_THREAD_RUNNING}"
    by blast
  note o = others_schedule [OF k5(3,6,7), of t]
  have mx5: "mutexes k5 = mutexes k4" using ipc_frameD(2) [OF k5(4)] .
  have q5: "queues k5 (QMutex m) = queues k4 (QMutex m)" using sched_frameD(18) [OF k5(3), of "QMutex m"] by simp
  have "stat_class (threads k5 t) \<noteq> RT_THREAD_SUSPEND"
    using k5(7) k4(4) k3(6) by (auto simp: rt_defs dest!: spec [of _ t])
  then have ps5: "prios_ok k5" by (rule prios_ok_others [OF d4(2) o])
  have "mutex_state m k5"
    by (rule mutex_stateI [OF k4(2) k5(2) ps5 _ obj_frame_ipc [OF k5(4)]])
      (use k5(5) mx5 q5 lock_ok_same [OF d4(7) obj_frame_ipc [OF k5(4)]] in simp_all)
  moreover have "released_to m t k k5" "released_to m t k k4"
  proof -
    have cp: "current_priority (threads k4 t) = thread_get_mutex_priority t (taken_remove m k)" if "lowers m t k"
      using k4(4) k3(7) that low prio by simp
    show "released_to m t k k4" using k4(5,6) cp by (simp add: released_to_def)
    have "steady {} k4 k5"
      using others_schedule [OF k5(3,6,7)] unfolding steady_def others_def by (metis n_not_Suc_n)
    then have "steady (set (take 1 (queues k (QMutex m)))) k k5" by (rule steady_trans [OF k4(6)]) simp
    moreover
    have "error (threads k5 s) = error (threads k4 s)" "pending_object (threads k5 s) = pending_object (threads k4 s)"
        "current_priority (threads k5 s) = current_priority (threads k4 s)" for s
      using sched_frame_thread(1,2,7) [OF k5(3)] by simp_all
    ultimately show "released_to m t k k5"
      using k4(5) cp k5(7) mx5 q5 by (auto simp: released_to_def split: list.splits)
  qed
  moreover have "rt_mutex_release m k = Some (RT_EOK, if lowers m t k \<or> queues k (QMutex m) \<noteq> [] then k5 else k4)"
  proof -
    have "mutex_hold (mutexes k1 m) = 0" using hold by (simp add: k1_def)
    then show ?thesis
      using own cur ctx d(4) k3(1,8) k4(1) k5(1) low
      by (auto simp: rt_mutex_release_def in_thread_context_def in_interrupt_def rt_thread_self_def Let_def
          simp flip: k1_def k2_def)
  qed
  ultimately show ?thesis using k4(2) by (cases "lowers m t k \<or> queues k (QMutex m) \<noteq> []") auto
qed

lemma rt_mutex_release_ok:
  assumes st: "mutex_state m k" and cur: "current_thread k = Some t"
    and run: "stat_class (threads k t) = RT_THREAD_RUNNING" and ctx: "interrupt_nest k = 0"
  shows "\<exists>r k'. rt_mutex_release m k = Some (r, k') \<and> mutex_state m k' \<and>
    (if mutex_owner (mutexes k m) \<noteq> Some t
     then r = - RT_ERROR \<and> k' = upd_thread t (\<lambda>th. th\<lparr>error := - RT_ERROR\<rparr>) k
     else r = RT_EOK \<and>
       (if mutex_hold (mutexes k m) = 1 then released_to m t k k'
        else k' = upd_mutex m (\<lambda>x. x\<lparr>mutex_hold := mutex_hold x - 1\<rparr>) k))"
proof (cases "mutex_owner (mutexes k m) = Some t \<and> mutex_hold (mutexes k m) = 1")
  case True
  then show ?thesis using final_release_ok [OF st cur run _ _ ctx] by auto
next
  case False
  note d = mutex_stateD [OF st]
  note unf = rt_mutex_release_def in_thread_context_def in_interrupt_def rt_thread_self_def
  show ?thesis
  proof (cases "mutex_owner (mutexes k m) = Some t")
    case True
    let ?k = "upd_mutex m (\<lambda>x. x\<lparr>mutex_hold := mutex_hold x - 1\<rparr>) k"
    have "mutex_hold (mutexes k m) - 1 \<noteq> 0" using True False by auto
    then have "lock_ok_state m ?k" "mutex_hold (mutexes ?k m) \<noteq> 0"
      using d(7) True by (auto simp: lock_ok_state_def word_gt_0 is_thread_def rt_object_get_type_def)
    then have "mutex_state m ?k" using mutex_stateI [OF st, of ?k] d by simp
    then show ?thesis using True False d(4) cur ctx \<open>mutex_hold (mutexes ?k m) \<noteq> 0\<close> by (simp add: unf Let_def)
  next
    case no: False
    let ?k = "upd_thread t (\<lambda>th. th\<lparr>error := - RT_ERROR\<rparr>) k"
    have "kernel_inv ?k" by (rule kernel_inv_upd_other [OF d(1)]) simp_all
    then have "mutex_state m ?k"
      using mutex_stateI [OF st, of ?k] d lock_ok_same [OF d(7), of ?k] by simp
    then show ?thesis using no d(4) cur ctx by (simp add: unf)
  qed
qed

subsection \<open>Histories\<close>

text \<open>What the threads know of a mutex: how often each has taken it and not yet released it, counted from
  the results alone.  A take that returns \<open>RT_EOK\<close>, at once or when the caller runs again after a wait,
  counts for the caller, a release that returns \<open>RT_EOK\<close> counts down.  \<open>W\<close> holds the threads whose
  take has not returned yet; they can do nothing else meanwhile.\<close>

inductive mutex_trace :: "nat \<Rightarrow> kernel \<Rightarrow> (tid \<Rightarrow> nat) \<Rightarrow> tid set \<Rightarrow> kernel \<Rightarrow> bool" for m :: nat and k0 :: kernel where
  start: "mutex_trace m k0 (\<lambda>_. 0) {} k0"
| taken: "mutex_trace m k0 h W k \<Longrightarrow> current_thread k = Some t \<Longrightarrow> t \<notin> W \<Longrightarrow>
    stat_class (threads k t) = RT_THREAD_RUNNING \<Longrightarrow>
    interrupt_nest k = 0 \<Longrightarrow> sint timeout < 2147483647 \<Longrightarrow> rt_mutex_take m timeout k = Some (r, k') \<Longrightarrow>
    mutex_trace m k0 (if r = Returned RT_EOK then h(t := h t + 1) else h) (if r = Waiting then insert t W else W) k'"
| resumed: "mutex_trace m k0 h W k \<Longrightarrow> current_thread k = Some t \<Longrightarrow> t \<in> W \<Longrightarrow>
    stat_class (threads k t) = RT_THREAD_RUNNING \<Longrightarrow>
    mutex_take_resume m t RT_UNINTERRUPTIBLE k = Some (e, k') \<Longrightarrow>
    mutex_trace m k0 (if e = RT_EOK then h(t := h t + 1) else h) (W - {t}) k'"
| released: "mutex_trace m k0 h W k \<Longrightarrow> current_thread k = Some t \<Longrightarrow> t \<notin> W \<Longrightarrow>
    stat_class (threads k t) = RT_THREAD_RUNNING \<Longrightarrow>
    interrupt_nest k = 0 \<Longrightarrow> rt_mutex_release m k = Some (e, k') \<Longrightarrow>
    mutex_trace m k0 (if e = RT_EOK then h(t := h t - 1) else h) W k'"
| timed_out: "mutex_trace m k0 h W k \<Longrightarrow> ThreadTimer t \<in> set (timer_lists k LHard) \<Longrightarrow>
    timer_lists k LTmpHard = [] \<Longrightarrow> timer_fire call (ThreadTimer t) k = Some k' \<Longrightarrow> mutex_trace m k0 h W k'"
| scheduled: "mutex_trace m k0 h W k \<Longrightarrow> rt_schedule k = Some k' \<Longrightarrow> mutex_trace m k0 h W k'"

text \<open>The counts agree with the owner and the hold count of the mutex; a thread in a pending take carries
  \<open>RT_EOK\<close> exactly when the mutex has been handed to it, and then it is awake and holds it once.\<close>

definition counts :: "nat \<Rightarrow> (tid \<Rightarrow> nat) \<Rightarrow> tid set \<Rightarrow> kernel \<Rightarrow> bool" where
  "counts m h W k \<longleftrightarrow>
     (\<forall>t. h t = (if mutex_owner (mutexes k m) = Some t \<and> t \<notin> W then unat (mutex_hold (mutexes k m)) else 0)) \<and>
     set (queues k (QMutex m)) \<subseteq> W \<and>
     (\<forall>t\<in>W. (error (threads k t) = RT_EOK \<longleftrightarrow> mutex_owner (mutexes k m) = Some t) \<and>
        (mutex_owner (mutexes k m) = Some t \<longrightarrow> \<not> suspended (threads k t) \<and> mutex_hold (mutexes k m) = 1))"

lemma countsD:
  assumes "counts m h W k"
  shows "h t = (if mutex_owner (mutexes k m) = Some t \<and> t \<notin> W then unat (mutex_hold (mutexes k m)) else 0)"
    "set (queues k (QMutex m)) \<subseteq> W"
    "t \<in> W \<Longrightarrow> error (threads k t) = RT_EOK \<longleftrightarrow> mutex_owner (mutexes k m) = Some t"
    "t \<in> W \<Longrightarrow> mutex_owner (mutexes k m) = Some t \<Longrightarrow> \<not> suspended (threads k t) \<and> mutex_hold (mutexes k m) = 1"
  using assms unfolding counts_def by blast+

lemma countsI:
  assumes "\<And>t. h t = (if mutex_owner (mutexes k m) = Some t \<and> t \<notin> W then unat (mutex_hold (mutexes k m)) else 0)"
    "set (queues k (QMutex m)) \<subseteq> W"
    "\<And>t. t \<in> W \<Longrightarrow> error (threads k t) = RT_EOK \<longleftrightarrow> mutex_owner (mutexes k m) = Some t"
    "\<And>t. t \<in> W \<Longrightarrow> mutex_owner (mutexes k m) = Some t \<Longrightarrow> \<not> suspended (threads k t) \<and> mutex_hold (mutexes k m) = 1"
  shows "counts m h W k"
  using assms unfolding counts_def by blast

text \<open>Steps that leave the owner, the hold count and the pending takes alone.\<close>

lemma counts_steady:
  assumes c: "counts m h W k" and s: "steady A k k'" and A: "A \<inter> W = {}"
    and same: "mutex_owner (mutexes k' m) = mutex_owner (mutexes k m)"
      "mutex_hold (mutexes k' m) = mutex_hold (mutexes k m)" "set (queues k' (QMutex m)) \<subseteq> W"
  shows "counts m h W k'"
proof (rule countsI)
  fix t assume t: "t \<in> W"
  then have st: "error (threads k' t) = error (threads k t)" "suspended (threads k' t) = suspended (threads k t)"
    using steadyD [OF s] A by blast+
  show "error (threads k' t) = RT_EOK \<longleftrightarrow> mutex_owner (mutexes k' m) = Some t"
    "mutex_owner (mutexes k' m) = Some t \<Longrightarrow> \<not> suspended (threads k' t) \<and> mutex_hold (mutexes k' m) = 1"
    using countsD(3,4) [OF c t] by (simp_all add: st same)
qed (use countsD(1) [OF c] same in simp_all)

text \<open>A thread without a pending take takes or gives back the mutex.\<close>

lemma counts_own:
  assumes c: "counts m h W k" and s: "steady {t} k k'" and t: "t \<notin> W"
    and own: "mutex_owner (mutexes k m) = None \<or> mutex_owner (mutexes k m) = Some t"
      "mutex_owner (mutexes k' m) = Some t" and n: "n = unat (mutex_hold (mutexes k' m))"
    and q: "set (queues k' (QMutex m)) \<subseteq> W"
  shows "counts m (h(t := n)) W k'"
proof (rule countsI)
  fix u assume u: "u \<in> W"
  then have "error (threads k' u) = error (threads k u)" using steadyD [OF s, of u] t by blast
  then show "error (threads k' u) = RT_EOK \<longleftrightarrow> mutex_owner (mutexes k' m) = Some u"
    using countsD(3) [OF c u] own t u by auto
  show "mutex_owner (mutexes k' m) = Some u \<Longrightarrow> \<not> suspended (threads k' u) \<and> mutex_hold (mutexes k' m) = 1"
    using own(2) t u by auto
next
  show "(h(t := n)) u = (if mutex_owner (mutexes k' m) = Some u \<and> u \<notin> W then unat (mutex_hold (mutexes k' m)) else 0)" for u
    using countsD(1) [OF c, of u] own t n by auto
qed (rule q)

lemma take_counts:
  assumes st: "mutex_state m k" and c: "counts m h W k" and args: "current_thread k = Some t"
    "stat_class (threads k t) = RT_THREAD_RUNNING" "interrupt_nest k = 0" "sint timeout < 2147483647"
    and t: "t \<notin> W" and take: "rt_mutex_take m timeout k = Some (r, k')"
  shows "mutex_state m k' \<and>
    counts m (if r = Returned RT_EOK then h(t := h t + 1) else h) (if r = Waiting then insert t W else W) k'"
proof -
  note ok = mutex_take_ok [OF st args]
  have tk: "mutex_take m timeout RT_UNINTERRUPTIBLE k = Some (r, k')" using take by (simp add: rt_mutex_take_def)
  have st': "mutex_state m k'" and stdy: "steady {t} k k'" using ok tk by auto
  have dis: "{t} \<inter> W = {}" using t by blast
  show ?thesis
  proof (cases "mutex_owner (mutexes k m)")
    case None
    then have k': "r = Returned RT_EOK" "mutex_owner (mutexes k' m) = Some t" "mutex_hold (mutexes k' m) = 1"
        "queues k' (QMutex m) = []" using ok tk mutex_stateD(7) [OF st] by (auto simp: lock_ok_state_def)
    then show ?thesis using counts_own [OF c stdy t, of 1] None countsD(1) [OF c, of t] st' by simp
  next
    case (Some ow)
    show ?thesis
    proof (cases "ow = t")
      case True
      have q: "queues k' (QMutex m) = queues k (QMutex m)" using ok tk Some True by (auto split: if_splits)
      have inc: "unat (w + 1) = unat w + 1" if "w < RT_MUTEX_HOLD_MAX" for w :: u8
        using that by (simp add: rt_defs word_less_nat_alt unat_word_ariths)
      show ?thesis
      proof (cases "mutex_hold (mutexes k m) < RT_MUTEX_HOLD_MAX")
        case less: True
        then have "r = Returned RT_EOK" "mutex_owner (mutexes k' m) = Some t"
            "mutex_hold (mutexes k' m) = mutex_hold (mutexes k m) + 1" using ok tk Some True by auto
        moreover have "h t = unat (mutex_hold (mutexes k m))" using countsD(1) [OF c, of t] t Some True by simp
        ultimately show ?thesis
          using counts_own [OF c stdy t, of "h t + 1"] Some True inc [OF less] q countsD(2) [OF c] st' by simp
      next
        case False
        then have "r = Returned (- RT_EFULL)" "mutexes k' = mutexes k" using ok tk Some True by auto
        then show ?thesis using counts_steady [OF c stdy dis] q countsD(2) [OF c] st' by simp
      qed
    next
      case False
      show ?thesis
      proof (cases "timeout = 0")
        case True
        then have "r = Returned (- RT_ETIMEOUT)" "mutexes k' = mutexes k" "queues k' (QMutex m) = queues k (QMutex m)"
          using ok tk Some False by auto
        then show ?thesis using counts_steady [OF c stdy dis] countsD(2) [OF c] st' by simp
      next
        case tm: False
        then have r: "r = Waiting" and b: "mutex_blocked m t ow timeout k k'" using ok tk Some False by auto
        have o: "mutex_owner (mutexes k' m) = Some ow" "mutex_hold (mutexes k' m) = mutex_hold (mutexes k m)"
            "error (threads k' t) = - RT_EINTR" "set (queues k' (QMutex m)) = insert t (set (queues k (QMutex m)))"
          using b Some by (simp_all add: mutex_blocked_def)
        have "counts m h (insert t W) k'"
        proof (rule countsI)
          show "h u = (if mutex_owner (mutexes k' m) = Some u \<and> u \<notin> insert t W then unat (mutex_hold (mutexes k' m)) else 0)" for u
            using countsD(1) [OF c, of u] o(1,2) Some False by auto
          show "set (queues k' (QMutex m)) \<subseteq> insert t W" using o(4) countsD(2) [OF c] by auto
        next
          fix u assume u: "u \<in> insert t W"
          show "error (threads k' u) = RT_EOK \<longleftrightarrow> mutex_owner (mutexes k' m) = Some u"
            using u o(1,3) Some False countsD(3) [OF c, of u] steadyD(1) [OF stdy, of u] by (cases "u = t") auto
          show "mutex_owner (mutexes k' m) = Some u \<Longrightarrow> \<not> suspended (threads k' u) \<and> mutex_hold (mutexes k' m) = 1"
            using u o(1,2) Some False countsD(4) [OF c, of u] steadyD(2) [OF stdy, of u] by (cases "u = t") auto
        qed
        then show ?thesis using r st' by simp
      qed
    qed
  qed
qed

lemma release_counts:
  assumes st: "mutex_state m k" and c: "counts m h W k" and args: "current_thread k = Some t"
    "stat_class (threads k t) = RT_THREAD_RUNNING" "interrupt_nest k = 0"
    and t: "t \<notin> W" and rel: "rt_mutex_release m k = Some (e, k')"
  shows "mutex_state m k' \<and> counts m (if e = RT_EOK then h(t := h t - 1) else h) W k'"
proof -
  note ok = rt_mutex_release_ok [OF st args]
  have st': "mutex_state m k'" using ok rel by auto
  show ?thesis
  proof (cases "mutex_owner (mutexes k m) = Some t")
    case False
    then have k': "e = - RT_ERROR" "k' = upd_thread t (\<lambda>th. th\<lparr>error := - RT_ERROR\<rparr>) k" using ok rel by auto
    then have "steady {t} k k'" by (simp add: steady_def threads_upd_thread)
    then show ?thesis using counts_steady [OF c] t k' countsD(2) [OF c] st' by simp
  next
    case True
    then have e: "e = RT_EOK" using ok rel by auto
    have pos: "0 < mutex_hold (mutexes k m)" using mutex_stateD(7) [OF st] True by (simp add: lock_ok_state_def)
    have dec: "unat (mutex_hold (mutexes k m) - 1) = unat (mutex_hold (mutexes k m)) - 1"
      using unat_pred [OF pos] by simp
    have ht: "h t = unat (mutex_hold (mutexes k m))" "s \<noteq> t \<Longrightarrow> h s = 0" for s
      using countsD(1) [OF c] True t by auto
    have err: "error (threads k u) \<noteq> RT_EOK" if "u \<in> W" for u using countsD(3) [OF c that] True t that by auto
    show ?thesis
    proof (cases "mutex_hold (mutexes k m) = 1")
      case one: True
      then have r: "released_to m t k k'" using ok rel True by auto
      then have stdy: "steady (set (take 1 (queues k (QMutex m)))) k k'" by (simp add: released_to_def)
      show ?thesis
      proof (cases "queues k (QMutex m)")
        case Nil
        then have k': "mutex_owner (mutexes k' m) = None" using r by (simp add: released_to_def)
        then have q': "queues k' (QMutex m) = []" using mutex_stateD(7) [OF st'] by (simp add: lock_ok_state_def)
        have "counts m (h(t := h t - 1)) W k'"
          by (rule countsI) (use k' q' ht one err steadyD(1) [OF stdy] Nil in auto)
        then show ?thesis using e st' by simp
      next
        case (Cons n ts)
        then have k': "mutex_owner (mutexes k' m) = Some n" "mutex_hold (mutexes k' m) = 1" "queues k' (QMutex m) = ts"
            "error (threads k' n) = RT_EOK" "\<not> suspended (threads k' n)"
          using r not_suspended_class by (auto simp: released_to_def)
        have n: "n \<in> W" "set ts \<subseteq> W" using countsD(2) [OF c] Cons by auto
        have "counts m (h(t := h t - 1)) W k'"
        proof (rule countsI)
          show "(h(t := h t - 1)) u = (if mutex_owner (mutexes k' m) = Some u \<and> u \<notin> W then unat (mutex_hold (mutexes k' m)) else 0)" for u
            using k'(1) n(1) ht one by auto
        next
          fix u assume u: "u \<in> W"
          show "error (threads k' u) = RT_EOK \<longleftrightarrow> mutex_owner (mutexes k' m) = Some u"
            using k'(1,4) err [OF u] steadyD(1) [OF stdy, of u] Cons by (cases "u = n") auto
        qed (use k' n in auto)
        then show ?thesis using e st' by simp
      qed
    next
      case False
      then have k': "k' = upd_mutex m (\<lambda>x. x\<lparr>mutex_hold := mutex_hold x - 1\<rparr>) k" using ok rel True by auto
      then have "steady {t} k k'" by (intro steady_same) simp
      then show ?thesis
        using counts_own [OF c _ t, of k' "h t - 1"] True k' ht(1) dec countsD(2) [OF c] e st' by simp
    qed
  qed
qed

lemma resume_counts:
  assumes st: "mutex_state m k" and c: "counts m h W k" and t: "t \<in> W"
    and run: "stat_class (threads k t) = RT_THREAD_RUNNING"
    and res: "mutex_take_resume m t RT_UNINTERRUPTIBLE k = Some (e, k')"
  shows "mutex_state m k' \<and> counts m (if e = RT_EOK then h(t := h t + 1) else h) (W - {t}) k'"
proof -
  from mutex_take_resume_ok [OF st, of t RT_UNINTERRUPTIBLE] res have e: "e = error (threads k t)"
    and k': "mutex_state m k'" "mutex_owner (mutexes k' m) = mutex_owner (mutexes k m)"
      "mutex_hold (mutexes k' m) = mutex_hold (mutexes k m)" "queues k' (QMutex m) = queues k (QMutex m)" "steady {} k k'"
    by auto
  have own: "e = RT_EOK \<longleftrightarrow> mutex_owner (mutexes k m) = Some t" using countsD(3) [OF c t] e by simp
  have out: "t \<notin> set (queues k (QMutex m))"
    using waiting_suspended [OF mutex_stateD(1) [OF st], of "QMutex m" t] not_suspended_class [of "threads k t"] run by auto
  have one: "mutex_hold (mutexes k m) = 1" if "mutex_owner (mutexes k m) = Some t" using countsD(4) [OF c t that] by simp
  have "counts m (if e = RT_EOK then h(t := h t + 1) else h) (W - {t}) k'"
  proof (rule countsI)
    show "(if e = RT_EOK then h(t := h t + 1) else h) u =
        (if mutex_owner (mutexes k' m) = Some u \<and> u \<notin> W - {t} then unat (mutex_hold (mutexes k' m)) else 0)" for u
      using countsD(1) [OF c, of u] own one t k'(2,3) by (cases "u = t") auto
    show "set (queues k' (QMutex m)) \<subseteq> W - {t}" using k'(4) out countsD(2) [OF c] by auto
  next
    fix u assume u: "u \<in> W - {t}"
    then show "error (threads k' u) = RT_EOK \<longleftrightarrow> mutex_owner (mutexes k' m) = Some u"
      "mutex_owner (mutexes k' m) = Some u \<Longrightarrow> \<not> suspended (threads k' u) \<and> mutex_hold (mutexes k' m) = 1"
      using countsD(3,4) [OF c, of u] k'(2,3) steadyD [OF k'(5), of u] by auto
  qed
  then show ?thesis using k'(1) by blast
qed

lemma timeout_mutex_state:
  assumes st: "mutex_state m k" and tm: "ThreadTimer t \<in> set (timer_lists k LHard)"
    and tmp: "timer_lists k LTmpHard = []" and fire: "timer_fire call (ThreadTimer t) k = Some k'"
  shows "mutex_state m k' \<and> mutexes k' = mutexes k \<and> steady {t} k k' \<and> error (threads k' t) = - RT_ETIMEOUT
    \<and> queues k' (QMutex m) = removeAll t (queues k (QMutex m))"
proof -
  note d = mutex_stateD [OF st]
  from timer_fire_thread [OF d(1) tm tmp d(3), of call] fire have
    k': "kernel_inv k'" "ipc_frame k k'" "current_thread k' \<noteq> None"
      "stat_class (threads k' t) \<in> {RT_THREAD_READY, RT_THREAD_RUNNING}"
      "queues k' (QMutex m) = removeAll t (queues k (QMutex m))" "others t k k'"
      "error (threads k' t) = - RT_ETIMEOUT" by auto
  have mx: "mutexes k' = mutexes k" using ipc_frameD(2) [OF k'(2)] .
  have "prios_ok k'" by (rule prios_ok_others [OF d(2) k'(6)]) (use k'(4) in \<open>auto simp: rt_defs\<close>)
  moreover have "lock_ok_state m k'"
    by (rule lock_ok_same [OF d(7) obj_frame_ipc [OF k'(2)]]) (simp_all add: mx k'(5))
  ultimately show ?thesis
    using mutex_stateI [OF st k'(1) _ k'(3) obj_frame_ipc [OF k'(2)]] mx k'(5,7) steady_others [OF k'(6)] by simp
qed

lemma timeout_counts:
  assumes st: "mutex_state m k" and c: "counts m h W k" and tm: "ThreadTimer t \<in> set (timer_lists k LHard)"
    "timer_lists k LTmpHard = []" "timer_fire call (ThreadTimer t) k = Some k'"
  shows "mutex_state m k' \<and> counts m h W k'"
proof -
  from timeout_mutex_state [OF st tm] have k': "mutex_state m k'" "mutexes k' = mutexes k" "steady {t} k k'"
    "error (threads k' t) = - RT_ETIMEOUT" "queues k' (QMutex m) = removeAll t (queues k (QMutex m))" by blast+
  have susp: "suspended (threads k t)" by (rule hard_timer_suspended [OF mutex_stateD(1) [OF st] tm(1)])
  then have no: "mutex_owner (mutexes k m) \<noteq> Some t" if "t \<in> W" using countsD(4) [OF c that] by blast
  have "counts m h W k'"
  proof (rule countsI)
    fix u assume u: "u \<in> W"
    show "error (threads k' u) = RT_EOK \<longleftrightarrow> mutex_owner (mutexes k' m) = Some u"
      using u no k'(2,4) countsD(3) [OF c u] steadyD(1) [OF k'(3), of u] by (cases "u = t") auto
    show "mutex_owner (mutexes k' m) = Some u \<Longrightarrow> \<not> suspended (threads k' u) \<and> mutex_hold (mutexes k' m) = 1"
      using u no k'(2) countsD(4) [OF c u] steadyD(2) [OF k'(3), of u] by (cases "u = t") auto
  qed (use countsD(1,2) [OF c] k'(2,5) in auto)
  then show ?thesis using k'(1) by blast
qed

lemma schedule_counts:
  assumes st: "mutex_state m k" and c: "counts m h W k" and sch: "rt_schedule k = Some k'"
  shows "mutex_state m k' \<and> counts m h W k'"
proof -
  note d = mutex_stateD [OF st]
  obtain t where "current_thread k = Some t" using d(3) by blast
  from rt_schedule_ok [OF d(1) this] sch have k': "kernel_inv k'" "sched_frame k k'" "ipc_frame k k'" "current_thread k' \<noteq> None"
      "\<forall>t. stat_class (threads k t) \<notin> {RT_THREAD_READY, RT_THREAD_RUNNING} \<longrightarrow> threads k' t = threads k t"
      "\<forall>t. stat_class (threads k t) \<in> {RT_THREAD_READY, RT_THREAD_RUNNING} \<longrightarrow>
         stat_class (threads k' t) \<in> {RT_THREAD_READY, RT_THREAD_RUNNING}" by auto
  have o: "others s k k'" for s by (rule others_schedule [OF k'(2,5,6)])
  have "steady {} k k'" using o unfolding steady_def others_def by (metis n_not_Suc_n)
  moreover have mx: "mutexes k' = mutexes k" using ipc_frameD(2) [OF k'(3)] .
  moreover have q: "queues k' (QMutex m) = queues k (QMutex m)" using sched_frameD(18) [OF k'(2), of "QMutex m"] by simp
  ultimately have "counts m h W k'" using counts_steady [OF c, of "{}" k'] countsD(2) [OF c] by simp
  moreover have "prios_ok k'" by (rule prios_ok_schedule [OF d(2) o])
  then have "mutex_state m k'"
    by (intro mutex_stateI [OF st k'(1) _ k'(4) obj_frame_ipc [OF k'(3)]])
      (use mx q lock_ok_same [OF d(7) obj_frame_ipc [OF k'(3)]] in simp_all)
  ultimately show ?thesis by blast
qed

lemma mutex_trace_counts:
  assumes "mutex_trace m k0 h W k" and "mutex_state m k0" and "mutex_owner (mutexes k0 m) = None"
  shows "mutex_state m k \<and> counts m h W k"
  using assms
proof (induction rule: mutex_trace.induct)
  case start
  then have "queues k0 (QMutex m) = []" using mutex_stateD(7) [of m k0] by (simp add: lock_ok_state_def)
  then show ?case using start by (simp add: counts_def)
next
  case (taken h W k t timeout r k')
  then show ?case using take_counts [of m k h W t timeout r k'] by blast
next
  case (resumed h W k t e k')
  then show ?case using resume_counts [of m k h W t e k'] by blast
next
  case (released h W k t e k')
  then show ?case using release_counts [of m k h W t e k'] by blast
next
  case (timed_out h W k t call k')
  then show ?case using timeout_counts [of m k h W t call k'] by blast
next
  case (scheduled h W k k')
  then show ?case using schedule_counts [of m k h W k'] by blast
qed

subsection \<open>A small system with mutexes\<close>

text \<open>Thread 1 runs at priority 4 and owns mutex 1, for which thread 3 waits (state \<open>st\<close>); thread 2
  is ready at priority 5 and owns mutex 2; mutex 5 is free.\<close>

definition sample_mutex :: "u8 \<Rightarrow> kernel" where
  "sample_mutex st = sample_kernel\<lparr>
     threads := (threads sample_kernel)
       (1 := (sample_thread RT_THREAD_RUNNING 4)\<lparr>taken_object_list := [1]\<rparr>,
        2 := (sample_thread RT_THREAD_READY 5)\<lparr>taken_object_list := [2]\<rparr>,
        3 := (sample_thread st 10)\<lparr>pending_object := Some (OMutex 1)\<rparr>),
     queues := (queues reset_kernel)(QReady 5 := [2], QMutex 1 := [3]),
     ready_priority_group := 0x20,
     mutexes := (\<lambda>_. fresh_mutex)
       (1 := \<lparr>ceiling_priority = 0xff, mutex_priority = 10, mutex_hold = 1, mutex_owner = Some 1\<rparr>,
        2 := \<lparr>ceiling_priority = 0xff, mutex_priority = 0xff, mutex_hold = 1, mutex_owner = Some 2\<rparr>)\<rparr>"

lemmas sample_mutex_defs = sample_mutex_def sample_waiting_defs fresh_mutex_def

lemma sample_mutex_inv:
  assumes st: "st = RT_THREAD_SUSPEND \<or> st = RT_THREAD_SUSPEND_UNINTERRUPTIBLE"
  shows "kernel_inv (sample_mutex st)"
proof -
  let ?k = "sample_mutex st"
  have cls: "stat_class (sample_thread st p) \<noteq> RT_THREAD_READY" "stat_class (sample_thread st p) \<noteq> RT_THREAD_RUNNING"
      "suspended ((sample_thread st p)\<lparr>pending_object := x\<rparr>)"
    and cls': "stat_class ((sample_thread s p)\<lparr>pending_object := x\<rparr>) = stat_class (sample_thread s p)"
      "stat_class ((sample_thread s p)\<lparr>taken_object_list := y\<rparr>) = stat_class (sample_thread s p)"
      "current_priority (sample_thread s p) = p" "number_mask (sample_thread s p) = push_bit (unat p) 1" for s p x y
    using st by (auto simp: sample_thread_def stat_class_def suspended_def rt_defs)
  have clr: "stat_class (sample_thread RT_THREAD_READY p) = RT_THREAD_READY"
    "stat_class (sample_thread RT_THREAD_RUNNING p) = RT_THREAD_RUNNING"
    "stat_class zero_thread = RT_THREAD_INIT" for p
    by (simp_all add: sample_thread_def zero_thread_def stat_class_def rt_defs)
  have thr: "threads ?k = (\<lambda>_. zero_thread)
       (1 := (sample_thread RT_THREAD_RUNNING 4)\<lparr>taken_object_list := [1]\<rparr>,
        2 := (sample_thread RT_THREAD_READY 5)\<lparr>taken_object_list := [2]\<rparr>,
        3 := (sample_thread st 10)\<lparr>pending_object := Some (OMutex 1)\<rparr>)"
    and qs: "queues ?k = (\<lambda>_. [])(QReady 5 := [2], QMutex 1 := [3])"
    by (auto simp: sample_mutex_def sample_kernel_def reset_kernel_def)
  have "core_inv {} ?k"
  proof (rule core_invI)
    fix p t
    show "(t \<in> set (queues ?k (QReady p))) =
      (stat_class (threads ?k t) = RT_THREAD_READY \<and> unat (current_priority (threads ?k t)) = p)"
      using cls by (auto simp: thr qs cls' clr)
  next
    fix q q' t assume "t \<in> set (queues ?k q)" "t \<in> set (queues ?k q')"
    then show "q = q'" by (auto simp: qs split: if_splits)
  next
    fix p assume p: "p < RT_THREAD_PRIORITY_MAX"
    have "(0x20 :: u32) = 0 OR 2 ^ 5" by simp
    then have "bit (0x20 :: u32) p \<longleftrightarrow> p = 5"
      using bit_set_mask [of p 0 5] p by (metis RT_THREAD_PRIORITY_MAX_def bit_0_eq bot_apply bot_bool_def)
    moreover have "ready_priority_group ?k = 0x20" by (simp add: sample_mutex_def)
    ultimately show "bit (ready_priority_group ?k) p = (queues ?k (QReady p) \<noteq> [])" by (simp add: qs)
  next
    fix t assume "started (threads ?k t)"
    then show "prio_ok (threads ?k t)"
      by (auto simp: thr prio_ok_def cls' clr started_def RT_THREAD_PRIORITY_MAX_def split: if_splits)
  next
    fix q t assume "t \<in> set (queues ?k q)" "\<not> ready_queue q"
    then show "suspended (threads ?k t)" using cls(3) by (auto simp: qs thr split: if_splits)
  qed (auto simp: qs)
  moreover have "running_inv ?k"
    using cls by (auto simp: running_inv_def thr cls' clr split: if_splits)
      (auto simp: sample_mutex_def sample_kernel_def)
  moreover have "thread_obj_ok t ?k" for t
    by (simp add: thread_obj_ok_def is_thread_def is_timer_def rt_object_get_type_def timer_flag_def
        sample_mutex_defs rt_defs)
  moreover have "timer_lists ?k = (\<lambda>_. [])" by (simp add: sample_mutex_defs)
  ultimately show ?thesis
    by (simp add: kernel_inv_def sched_inv_def thread_objs_ok_def timer_inv_def wait_timers_ok_def)
qed

definition mutex_sample :: kernel where
  "mutex_sample = sample_mutex RT_THREAD_SUSPEND_UNINTERRUPTIBLE"

lemma mutex_sample_state: "m = 1 \<or> m = 2 \<or> m = 5 \<Longrightarrow> mutex_state m mutex_sample"
proof -
  assume m: "m = 1 \<or> m = 2 \<or> m = 5"
  have "prios_ok mutex_sample"
    by (auto simp: prios_ok_def mutex_sample_def sample_mutex_defs stat_class_def rt_defs split: if_splits)
  then show "mutex_state m mutex_sample"
    using m sample_mutex_inv [of RT_THREAD_SUSPEND_UNINTERRUPTIBLE]
    by (auto simp: mutex_state_def mutex_sample_def)
      (simp_all add: is_mutex_def lock_ok_state_def is_thread_def rt_object_get_type_def sample_mutex_defs rt_defs)
qed

lemma mutex_sample_facts:
  "current_thread mutex_sample = Some 1" "stat_class (threads mutex_sample 1) = RT_THREAD_RUNNING"
  "interrupt_nest mutex_sample = 0" "mutex_owner (mutexes mutex_sample 1) = Some 1"
  "mutex_hold (mutexes mutex_sample 1) = 1" "queues mutex_sample (QMutex 1) = [3]"
  "mutex_owner (mutexes mutex_sample 2) = Some 2" "mutex_priority (mutexes mutex_sample 2) = 0xff"
  "current_priority (threads mutex_sample 1) = 4" "current_priority (threads mutex_sample 2) = 5"
  "mutex_owner (mutexes mutex_sample 5) = None" "queues mutex_sample (QMutex 2) = []"
  by (simp_all add: mutex_sample_def sample_mutex_defs stat_class_def rt_defs)

subsection \<open>Properties\<close>

text \<open>C2: Mutual exclusion.  Over any history of uninterruptible takes (with or without a timeout), their
  ends, releases, timeouts and runs of the scheduler, starting with a free mutex, and counting for each thread the
  takes that returned \<open>RT_EOK\<close> less the releases that did: at most one thread has taken the mutex more
  often than it released it, that thread is the owner recorded in the mutex, the hold count is exactly
  the difference, and the thread is not in a take.  The rest of a pending take returns \<open>RT_EOK\<close> exactly
  for the thread the mutex was handed to, and while there is such a thread nobody else has the mutex.\<close>

theorem mutex_exclusion:
  assumes "mutex_trace m k0 h W k" and "mutex_state m k0" and "mutex_owner (mutexes k0 m) = None"
  shows "(\<forall>t u. 0 < h t \<and> 0 < h u \<longrightarrow> t = u)
    \<and> (\<forall>t. 0 < h t \<longleftrightarrow> mutex_owner (mutexes k m) = Some t \<and> t \<notin> W)
    \<and> (\<forall>t. 0 < h t \<longrightarrow> unat (mutex_hold (mutexes k m)) = h t)
    \<and> (\<forall>t\<in>W. \<exists>e k'. mutex_take_resume m t RT_UNINTERRUPTIBLE k = Some (e, k') \<and>
         (e = RT_EOK \<longleftrightarrow> mutex_owner (mutexes k m) = Some t) \<and> (e = RT_EOK \<longrightarrow> h = (\<lambda>_. 0)))
    \<and> kernel_inv k"
proof -
  have st: "mutex_state m k" and c: "counts m h W k" using mutex_trace_counts [OF assms] by auto
  have pos: "0 < unat (mutex_hold (mutexes k m))" if "mutex_owner (mutexes k m) = Some t" for t
    using mutex_stateD(7) [OF st] that by (simp add: lock_ok_state_def unat_gt_0 word_gt_0)
  have iff: "0 < h t \<longleftrightarrow> mutex_owner (mutexes k m) = Some t \<and> t \<notin> W" for t
    using countsD(1) [OF c, of t] pos by auto
  have "\<exists>e k'. mutex_take_resume m t RT_UNINTERRUPTIBLE k = Some (e, k') \<and>
      (e = RT_EOK \<longleftrightarrow> mutex_owner (mutexes k m) = Some t) \<and> (e = RT_EOK \<longrightarrow> h = (\<lambda>_. 0))" if t: "t \<in> W" for t
  proof -
    have "h = (\<lambda>_. 0)" if "mutex_owner (mutexes k m) = Some t"
    proof
      fix u show "h u = 0" using countsD(1) [OF c, of u] that t by auto
    qed
    then show ?thesis
      using mutex_take_resume_ok [OF st, of t RT_UNINTERRUPTIBLE] countsD(3) [OF c t] by auto
  qed
  moreover have "unat (mutex_hold (mutexes k m)) = h t" if "0 < h t" for t using countsD(1) [OF c, of t] that by (auto split: if_splits)
  moreover have "\<forall>t u. 0 < h t \<and> 0 < h u \<longrightarrow> t = u" using iff by auto
  ultimately show ?thesis using iff mutex_stateD(1) [OF st] by blast
qed

text \<open>Two threads contend for a mutex: thread 1 takes it, the more urgent thread 2 runs and has to wait,
  thread 1 releases it, and thread 2 runs again and has it.\<close>

declare thread_update_priority.simps [code]

definition sample_contended :: kernel where
  "sample_contended = sample_waiting\<lparr>mutexes := (\<lambda>_. fresh_mutex)\<rparr>"

lemma sample_contended_state: "mutex_state 5 sample_contended" "mutex_owner (mutexes sample_contended 5) = None"
proof -
  have "kernel_inv sample_contended"
    using sample_waiting_inv by (simp add: sample_contended_def)
  moreover have "prios_ok sample_contended"
    by (auto simp: prios_ok_def sample_contended_def sample_mutex_defs stat_class_def rt_defs split: if_splits)
  ultimately show "mutex_state 5 sample_contended"
    by (simp add: mutex_state_def)
      (simp add: is_mutex_def lock_ok_state_def is_thread_def rt_object_get_type_def sample_contended_def sample_mutex_defs rt_defs)
qed (simp add: sample_contended_def fresh_mutex_def)

theorem mutex_exclusion_witness:
  "\<exists>k. mutex_trace 5 sample_contended ((\<lambda>_. 0)(2 := 1)) {} k \<and> mutex_owner (mutexes k 5) = Some 2"
proof -
  let ?k1 = "snd (the (rt_mutex_take 5 0 sample_contended))"
  let ?k2 = "the (rt_schedule ?k1)"
  let ?k3 = "snd (the (rt_mutex_take 5 (- 1) ?k2))"
  let ?k4 = "snd (the (rt_mutex_release 5 ?k3))"
  let ?k5 = "snd (the (mutex_take_resume 5 2 RT_UNINTERRUPTIBLE ?k4))"
  have c: "current_thread sample_contended = Some 1" "stat (threads sample_contended 1) = 3" "interrupt_nest sample_contended = 0"
      "map_option fst (rt_mutex_take 5 0 sample_contended) = Some (Returned 0)"
    and c1: "map_option (\<lambda>_. ()) (rt_schedule ?k1) = Some ()"
    and c2: "current_thread ?k2 = Some 2" "stat (threads ?k2 2) = 3" "interrupt_nest ?k2 = 0"
      "map_option fst (rt_mutex_take 5 (- 1) ?k2) = Some Waiting"
    and c3: "current_thread ?k3 = Some 1" "stat (threads ?k3 1) = 3" "interrupt_nest ?k3 = 0"
      "map_option fst (rt_mutex_release 5 ?k3) = Some 0"
    and c4: "current_thread ?k4 = Some 2" "stat (threads ?k4 2) = 3"
      "map_option fst (mutex_take_resume 5 2 RT_UNINTERRUPTIBLE ?k4) = Some 0"
    by code_simp+
  have run: "stat_class th = RT_THREAD_RUNNING" if "stat th = 3" for th using that by (simp add: stat_class_def rt_defs)
  have s1: "rt_mutex_take 5 0 sample_contended = Some (Returned RT_EOK, ?k1)" using c(4) by (auto simp: rt_defs)
  have s2: "rt_schedule ?k1 = Some ?k2" using c1 by auto
  have s3: "rt_mutex_take 5 (- 1) ?k2 = Some (Waiting, ?k3)" using c2(4) by auto
  have s4: "rt_mutex_release 5 ?k3 = Some (RT_EOK, ?k4)" using c3(4) by (auto simp: rt_defs)
  have s5: "mutex_take_resume 5 2 RT_UNINTERRUPTIBLE ?k4 = Some (RT_EOK, ?k5)" using c4(3) by (auto simp: rt_defs)
  have t1: "mutex_trace 5 sample_contended ((\<lambda>_. 0)(1 := 1)) {} ?k1"
    using mutex_trace.taken [OF mutex_trace.start c(1) _ run [OF c(2)] c(3) _ s1] by simp
  have t3: "mutex_trace 5 sample_contended ((\<lambda>_. 0)(1 := 1)) {2} ?k3"
    using mutex_trace.taken [OF mutex_trace.scheduled [OF t1 s2] c2(1) _ run [OF c2(2)] c2(3) _ s3] by simp
  have t4: "mutex_trace 5 sample_contended (\<lambda>_. 0) {2} ?k4"
    using mutex_trace.released [OF t3 c3(1) _ run [OF c3(2)] c3(3) s4] by (simp add: fun_upd_idem)
  have t5: "mutex_trace 5 sample_contended ((\<lambda>_. 0)(2 := 1)) {} ?k5"
    using mutex_trace.resumed [OF t4 c4(1) _ run [OF c4(2)] s5] by simp
  have "mutex_owner (mutexes ?k5 5) = Some 2"
    using mutex_exclusion [OF t5 sample_contended_state] by (metis fun_upd_same zero_less_one)
  with t5 show ?thesis by blast
qed

text \<open>C17: Priority inheritance.  A thread that has to wait for a mutex joins its waiters in the order
  of priority, and the owner, if it ran at least at the mutex's recorded priority before, then runs at
  least at the priority of the new waiter and of the recorded one.\<close>

theorem mutex_take_inherits:
  assumes "mutex_state m k" and "current_thread k = Some t" and "stat_class (threads k t) = RT_THREAD_RUNNING"
    and "interrupt_nest k = 0" and "mutex_owner (mutexes k m) = Some ow" and "ow \<noteq> t"
    and "timeout \<noteq> 0" and "sint timeout < 2147483647"
    and "current_priority (threads k ow) \<le> mutex_priority (mutexes k m)"
  shows "\<exists>k'. rt_mutex_take m timeout k = Some (Waiting, k') \<and> kernel_inv k'
    \<and> mutex_owner (mutexes k' m) = Some ow \<and> suspended (threads k' t)
    \<and> queues k' (QMutex m) = prio_insert (\<lambda>s. current_priority (threads k s)) t (queues k (QMutex m))
    \<and> current_priority (threads k' ow) \<le> current_priority (threads k t)
    \<and> current_priority (threads k' ow) \<le> mutex_priority (mutexes k' m)"
proof -
  from mutex_take_ok [OF assms(1-4,8)] assms(5-7) obtain k' where
    k': "mutex_take m timeout RT_UNINTERRUPTIBLE k = Some (Waiting, k')" "mutex_blocked m t ow timeout k k'" by auto
  then have "current_priority (threads k' ow) \<le> current_priority (threads k t)
      \<and> current_priority (threads k' ow) \<le> mutex_priority (mutexes k' m)"
    using assms(9) by (auto simp: mutex_blocked_def min_def split: if_splits)
  then show ?thesis
    using k' assms(5) mutex_stateD(1) by (auto simp: rt_mutex_take_def mutex_blocked_def)
qed

theorem mutex_take_inherits_witness:
  "\<exists>k'. rt_mutex_take 2 (- 1) mutex_sample = Some (Waiting, k') \<and> queues k' (QMutex 2) = [1]
    \<and> current_priority (threads k' 2) \<le> 4 \<and> current_priority (threads mutex_sample 2) = 5"
proof -
  have st: "mutex_state 2 mutex_sample" by (rule mutex_sample_state) simp
  have "(2 :: nat) \<noteq> 1" "(- 1 :: 32 word) \<noteq> 0" "sint (- 1 :: 32 word) < 2147483647"
    "current_priority (threads mutex_sample 2) \<le> mutex_priority (mutexes mutex_sample 2)"
    by (simp_all add: mutex_sample_facts)
  from mutex_take_inherits [OF st mutex_sample_facts(1-3,7) this] show ?thesis
    by (auto simp: mutex_sample_facts mutex_sample_facts [unfolded One_nat_def])
qed

text \<open>C18: A release by a thread that is not the owner fails with \<open>- RT_ERROR\<close> and leaves the mutex and
  its waiters alone; a release by the owner counts down; the last one passes the mutex to the first
  waiter, which becomes ready with result \<open>RT_EOK\<close>, or frees it, and sets the caller's priority back
  to what its remaining mutexes ask for when it had been raised for this one.\<close>

theorem mutex_release_spec:
  assumes "mutex_state m k" and "current_thread k = Some t"
    and "stat_class (threads k t) = RT_THREAD_RUNNING" and "interrupt_nest k = 0"
  shows "\<exists>r k'. rt_mutex_release m k = Some (r, k') \<and> mutex_state m k' \<and>
    (if mutex_owner (mutexes k m) \<noteq> Some t
     then r = - RT_ERROR \<and> mutexes k' = mutexes k \<and> queues k' = queues k
     else if mutex_hold (mutexes k m) \<noteq> 1
     then r = RT_EOK \<and> mutex_owner (mutexes k' m) = Some t \<and> mutex_hold (mutexes k' m) = mutex_hold (mutexes k m) - 1
     else r = RT_EOK
       \<and> (case queues k (QMutex m) of
            [] \<Rightarrow> mutex_owner (mutexes k' m) = None
          | n # ts \<Rightarrow> mutex_owner (mutexes k' m) = Some n \<and> mutex_hold (mutexes k' m) = 1
              \<and> queues k' (QMutex m) = ts \<and> error (threads k' n) = RT_EOK
              \<and> stat_class (threads k' n) \<in> {RT_THREAD_READY, RT_THREAD_RUNNING})
       \<and> (current_priority (threads k t) = mutex_priority (mutexes k m) \<longrightarrow>
            current_priority (threads k' t) = thread_get_mutex_priority t (taken_remove m k)))"
proof -
  from rt_mutex_release_ok [OF assms] obtain r k' where
    k': "rt_mutex_release m k = Some (r, k')" "mutex_state m k'" and
    out: "if mutex_owner (mutexes k m) \<noteq> Some t
     then r = - RT_ERROR \<and> k' = upd_thread t (\<lambda>th. th\<lparr>error := - RT_ERROR\<rparr>) k
     else r = RT_EOK \<and>
       (if mutex_hold (mutexes k m) = 1 then released_to m t k k'
        else k' = upd_mutex m (\<lambda>x. x\<lparr>mutex_hold := mutex_hold x - 1\<rparr>) k)" by blast
  show ?thesis
    by (intro exI [of _ r] exI [of _ k'] conjI k')
      (use out in \<open>auto simp: released_to_def lowers_def split: if_splits list.splits\<close>)
qed

theorem mutex_release_spec_witness:
  "\<exists>k'. rt_mutex_release 1 mutex_sample = Some (RT_EOK, k') \<and> mutex_owner (mutexes k' 1) = Some 3
    \<and> queues k' (QMutex 1) = [] \<and> error (threads k' 3) = RT_EOK"
proof -
  have st: "mutex_state 1 mutex_sample" by (rule mutex_sample_state) simp
  from mutex_release_spec [OF st mutex_sample_facts(1-3)] show ?thesis
    by (auto simp: mutex_sample_facts mutex_sample_facts [unfolded One_nat_def])
qed

text \<open>The recursion of \<open>thread_update_priority\<close> on a waiter that waits interruptibly: it is taken out
  of the list of the mutex, and the attempt to put it back is refused because it is suspended.\<close>

lemma suspend_refused:
  assumes "is_thread t k" and "suspended (threads k t)"
  shows "rt_ipc_list_suspend q t flag f k = Some (- RT_ERROR, k)"
  using assms suspended_class [OF assms(2)]
  by (simp add: rt_ipc_list_suspend_def rt_thread_suspend_with_flag_def)

text \<open>C33: Passing an inherited priority on to a thread that itself waits interruptibly for another
  mutex drops it from the waiters of that mutex: afterwards it is still suspended, still marked as
  waiting for the mutex, and in no list at all, so no release of the mutex can wake it.  (The owner of
  that mutex runs at its own priority, at least as high as all waiters, so the recursion ends there.)\<close>

theorem inheritance_drops_waiter:
  assumes inv: "kernel_inv k" and "stat_class (threads k w) = RT_THREAD_SUSPEND"
    and "pending_object (threads k w) = Some (OMutex m)" and "is_mutex m k"
    and "mutex_owner (mutexes k m) = Some ow" and "ow \<noteq> w" and "taken_object_list (threads k ow) = [m]"
    and "current_priority (threads k ow) = init_priority (threads k ow)"
    and "\<forall>u\<in>set (queues k (QMutex m)). init_priority (threads k ow) \<le> current_priority (threads k u)"
    and p: "unat p < RT_THREAD_PRIORITY_MAX"
  shows "\<exists>k'. thread_update_priority w p f k = Some k' \<and> suspended (threads k' w)
    \<and> pending_object (threads k' w) = Some (OMutex m) \<and> mutex_owner (mutexes k' m) = Some ow
    \<and> (\<forall>q. w \<notin> set (queues k' q))"
proof -
  have susp: "suspended (threads k w)" by (rule interruptible_suspended [OF assms(2)])
  then have t: "is_thread w k" using started_is_thread [OF inv] by (simp add: started_cases)
  from thread_control_priority_ok [OF inv t p, of False] obtain k1 where
    k1: "thread_control_priority w p False k = Some (RT_EOK, k1)" "kernel_inv k1" "ipc_frame k k1"
      "stat_class (threads k1 w) = RT_THREAD_SUSPEND" "suspended (threads k1 w)"
      "pending_object (threads k1 w) = Some (OMutex m)" "\<forall>s. s \<noteq> w \<longrightarrow> threads k1 s = threads k s"
      "queues k1 (QMutex m) = queues k (QMutex m)"
    using assms(2,3) susp by auto
  define k2 where "k2 = tlist_remove w k1"
  define k3 where "k3 = snd (mutex_update_priority m k2)"
  have same2: "threads k2 = threads k1" "objs k2 = objs k1" "mutexes k2 = mutexes k"
    using ipc_frameD(2) [OF k1(3)] by (simp_all add: k2_def tlist_remove_def)
  have mx: "is_mutex m k1" "is_thread w k2"
    using obj_frameD(1,2) [OF obj_frame_ipc [OF k1(3)]] assms(4) t same2(2)
    by (simp_all add: is_thread_def rt_object_get_type_def)
  have ref: "rt_ipc_list_suspend (QMutex m) w (obj_flag (objs k2 (OMutex m))) f k2 = Some (- RT_ERROR, k2)"
    by (rule suspend_refused) (use mx(2) k1(5) same2(1) in simp_all)
  have head: "init_priority (threads k ow) \<le> mutex_priority (mutexes k3 m)"
  proof (cases "queues k2 (QMutex m)")
    case Nil
    then show ?thesis
      using unsigned_less [of "init_priority (threads k ow)", where 'a = nat]
      by (simp add: k3_def mutex_update_priority_def Let_def word_le_nat_alt)
  next
    case (Cons u us)
    then have "u \<in> set (queues k2 (QMutex m))" by simp
    then have "u \<in> set (queues k (QMutex m))" "u \<noteq> w"
      using k1(8) by (auto simp: k2_def tlist_remove_def)
    then show ?thesis
      using assms(9) Cons k1(7) by (simp add: k3_def mutex_update_priority_def Let_def same2)
  qed
  have ow: "threads k3 ow = threads k ow" using k1(7) assms(6) by (simp add: k3_def same2)
  have "thread_get_mutex_priority ow k3 = current_priority (threads k3 ow)"
    using head assms(7,8) ow by (auto simp: thread_get_mutex_priority_def)
  moreover have "mutex_owner (mutexes k2 m) = Some ow" "threads k3 = threads k2"
    using assms(5) by (simp_all add: k3_def same2)
  ultimately have "thread_update_priority w p f k = Some k3"
    using k1(1,4,6) mx(1) ref
    by (subst thread_update_priority.simps) (simp add: k2_def [symmetric] k3_def [symmetric])
  moreover have "w \<notin> set (queues k3 q)" for q by (simp add: k3_def k2_def tlist_remove_def)
  ultimately show ?thesis using k1(5,6) assms(5) by (auto simp: k3_def same2)
qed

theorem inheritance_drops_waiter_witness:
  "\<exists>k'. thread_update_priority 3 7 RT_UNINTERRUPTIBLE (sample_mutex RT_THREAD_SUSPEND) = Some k'
    \<and> suspended (threads k' 3) \<and> mutex_owner (mutexes k' 1) = Some 1 \<and> (\<forall>q. 3 \<notin> set (queues k' q))"
proof -
  let ?k = "sample_mutex RT_THREAD_SUSPEND"
  have inv: "kernel_inv ?k" by (rule sample_mutex_inv) simp
  have f: "stat_class (threads ?k 3) = RT_THREAD_SUSPEND" "pending_object (threads ?k 3) = Some (OMutex 1)"
    "is_mutex 1 ?k" "mutex_owner (mutexes ?k 1) = Some 1" "(1 :: nat) \<noteq> 3" "taken_object_list (threads ?k 1) = [1]"
    "current_priority (threads ?k 1) = init_priority (threads ?k 1)"
    "\<forall>u\<in>set (queues ?k (QMutex 1)). init_priority (threads ?k 1) \<le> current_priority (threads ?k u)"
    "unat (7 :: u8) < RT_THREAD_PRIORITY_MAX"
    by (simp_all add: sample_mutex_defs is_mutex_def rt_object_get_type_def stat_class_def rt_defs)
  from inheritance_drops_waiter [OF inv f, of RT_UNINTERRUPTIBLE] show ?thesis by blast
qed

end
