(* ===== verification/Event.thy ===== *)
theory Event
  imports Semaphore
begin

text \<open>
  The event sets of \<^verbatim>\<open>src/ipc.c\<close>: 32 flags, receivers that wait for all (\<^verbatim>\<open>AND\<close>) or any
  (\<^verbatim>\<open>OR\<close>) of a set of flags and may clear what they receive.  \<open>event_recv\<close> is
  \<^verbatim>\<open>_rt_event_recv\<close> up to the wait; its results carry the value stored through the pointer
  \<^verbatim>\<open>recved\<close>.  The loop of \<open>rt_event_send\<close> over the waiters is refined to the function \<open>deliver\<close>
  on the flags and the list of waiters.
\<close>

subsection \<open>Operations\<close>

definition is_event :: "nat \<Rightarrow> kernel \<Rightarrow> bool" where
  "is_event e k \<longleftrightarrow> rt_object_get_type (OEvent e) k = RT_Object_Class_Event"

definition set_event :: "nat \<Rightarrow> u32 \<Rightarrow> kernel \<Rightarrow> kernel" where
  "set_event e s k = k\<lparr>events := (events k)(e := \<lparr>ev_set = s\<rparr>)\<rparr>"

definition rt_event_init :: "nat \<Rightarrow> u8 list \<Rightarrow> u8 \<Rightarrow> kernel \<Rightarrow> (int \<times> kernel) option" where
  "rt_event_init e name flag k = do {
     k \<leftarrow> rt_object_init (OEvent e) RT_Object_Class_Event name k;
     let k = upd_obj (OEvent e) (\<lambda>ob. ob\<lparr>obj_flag := flag\<rparr>) k;
     let k = rt_ipc_object_init (QEvent e) k;
     Some (RT_EOK, set_event e 0 k)
   }"

definition rt_event_detach :: "nat \<Rightarrow> kernel \<Rightarrow> (int \<times> kernel) option" where
  "rt_event_detach e k = do {
     rt_assert (is_event e k);
     rt_assert (rt_object_is_systemobject (OEvent e) k);
     (_, k) \<leftarrow> rt_ipc_list_resume_all (QEvent e) k;
     Some (RT_EOK, rt_object_detach (OEvent e) k)
   }"

definition rt_event_create :: "nat option \<Rightarrow> u8 list \<Rightarrow> u8 \<Rightarrow> kernel \<Rightarrow> (nat option \<times> kernel) option" where
  "rt_event_create malloc name flag k = do {
     rt_assert (\<not> in_interrupt k);
     (r, k) \<leftarrow> rt_object_allocate (map_option OEvent malloc) RT_Object_Class_Event name k;
     case r of
       Some (OEvent e) \<Rightarrow> do {
         let k = upd_obj (OEvent e) (\<lambda>ob. ob\<lparr>obj_flag := flag\<rparr>) k;
         let k = rt_ipc_object_init (QEvent e) k;
         Some (Some e, set_event e 0 k)
       }
     | _ \<Rightarrow> Some (None, k)
   }"

definition rt_event_delete :: "nat \<Rightarrow> kernel \<Rightarrow> (int \<times> kernel) option" where
  "rt_event_delete e k = do {
     rt_assert (is_event e k);
     rt_assert (\<not> rt_object_is_systemobject (OEvent e) k);
     rt_assert (\<not> in_interrupt k);
     (_, k) \<leftarrow> rt_ipc_list_resume_all (QEvent e) k;
     k \<leftarrow> rt_object_delete (OEvent e) k;
     Some (RT_EOK, k)
   }"

text \<open>Waking a receiver: the flags it clears, the resumption, the result.\<close>

definition event_wake :: "nat \<Rightarrow> tid \<Rightarrow> kernel \<Rightarrow> kernel option" where
  "event_wake e t k = do {
     let k = (if event_info (threads k t) AND RT_EVENT_FLAG_CLEAR \<noteq> 0
              then set_event e (ev_set (events k e) AND NOT (event_set (threads k t))) k
              else k);
     (_, k) \<leftarrow> rt_thread_resume t k;
     Some (upd_thread t (\<lambda>th. th\<lparr>error := RT_EOK\<rparr>) k)
   }"

text \<open>The loop over the waiters: the result of the call if it ends in the loop, and whether a thread
  has been woken.  Only the thread at hand leaves the list, so the loop visits the threads that were
  in the list at its start.\<close>

fun event_scan :: "nat \<Rightarrow> tid list \<Rightarrow> bool \<Rightarrow> kernel \<Rightarrow> (int \<times> bool \<times> kernel) option" where
  "event_scan e [] need_schedule k = Some (RT_EOK, need_schedule, k)"
| "event_scan e (t # ts) need_schedule k =
     (if event_info (threads k t) AND RT_EVENT_FLAG_AND \<noteq> 0
      then if event_set (threads k t) AND ev_set (events k e) = event_set (threads k t)
           then do { k \<leftarrow> event_wake e t k; event_scan e ts True k }
           else event_scan e ts need_schedule k
      else if event_info (threads k t) AND RT_EVENT_FLAG_OR \<noteq> 0
      then if event_set (threads k t) AND ev_set (events k e) \<noteq> 0
           then do {
             let k = upd_thread t (\<lambda>th. th\<lparr>event_set := event_set th AND ev_set (events k e)\<rparr>) k;
             k \<leftarrow> event_wake e t k;
             event_scan e ts True k
           }
           else event_scan e ts need_schedule k
      else Some (- RT_EINVAL, need_schedule, k))"

definition rt_event_send :: "nat \<Rightarrow> u32 \<Rightarrow> kernel \<Rightarrow> (int \<times> kernel) option" where
  "rt_event_send e evs k = do {
     rt_assert (is_event e k);
     if evs = 0 then Some (- RT_ERROR, k)
     else do {
       let k = set_event e (ev_set (events k e) OR evs) k;
       (ret, need_schedule, k) \<leftarrow> event_scan e (queues k (QEvent e)) False k;
       if ret \<noteq> RT_EOK then Some (ret, k)
       else do {
         k \<leftarrow> (if need_schedule then rt_schedule k else Some k);
         Some (RT_EOK, k)
       }
     }
   }"

definition event_recv ::
  "nat \<Rightarrow> u32 \<Rightarrow> u8 \<Rightarrow> 32 word \<Rightarrow> int \<Rightarrow> kernel \<Rightarrow> ((int \<times> u32 option) call \<times> kernel) option" where
  "event_recv e evs option timeout suspend_flag k = do {
     rt_assert (in_thread_context k);
     rt_assert (is_event e k);
     if evs = 0 then Some (Returned (- RT_ERROR, None), k)
     else do {
       t \<leftarrow> rt_thread_self k;
       let k = upd_thread t (\<lambda>th. th\<lparr>error := - RT_EINTR\<rparr>) k;
       rt_assert (option AND RT_EVENT_FLAG_AND \<noteq> 0 \<or> option AND RT_EVENT_FLAG_OR \<noteq> 0);
       let have = ev_set (events k e) AND evs;
       if (if option AND RT_EVENT_FLAG_AND \<noteq> 0 then have = evs else have \<noteq> 0)
       then do {
         let k = upd_thread t (\<lambda>th. th\<lparr>error := RT_EOK, event_set := have, event_info := option\<rparr>) k;
         let k = (if option AND RT_EVENT_FLAG_CLEAR \<noteq> 0
                  then set_event e (ev_set (events k e) AND NOT evs) k else k);
         Some (Returned (error (threads k t), Some have), k)
       }
       else if timeout = 0
       then Some (Returned (- RT_ETIMEOUT, None), upd_thread t (\<lambda>th. th\<lparr>error := - RT_ETIMEOUT\<rparr>) k)
       else do {
         let k = upd_thread t (\<lambda>th. th\<lparr>event_set := evs, event_info := option\<rparr>) k;
         (r, k) \<leftarrow> ipc_block (QEvent e) t (obj_flag (objs k (OEvent e))) suspend_flag timeout k;
         Some (case r of Returned err \<Rightarrow> Returned (err, None) | Waiting \<Rightarrow> Waiting, k)
       }
     }
   }"

definition event_recv_resume :: "tid \<Rightarrow> kernel \<Rightarrow> int \<times> u32 option" where
  "event_recv_resume t k =
     (if error (threads k t) \<noteq> RT_EOK then (error (threads k t), None)
      else (error (threads k t), Some (event_set (threads k t))))"

definition rt_event_recv ::
  "nat \<Rightarrow> u32 \<Rightarrow> u8 \<Rightarrow> 32 word \<Rightarrow> kernel \<Rightarrow> ((int \<times> u32 option) call \<times> kernel) option" where
  "rt_event_recv e evs option timeout k = event_recv e evs option timeout RT_UNINTERRUPTIBLE k"

definition rt_event_recv_interruptible ::
  "nat \<Rightarrow> u32 \<Rightarrow> u8 \<Rightarrow> 32 word \<Rightarrow> kernel \<Rightarrow> ((int \<times> u32 option) call \<times> kernel) option" where
  "rt_event_recv_interruptible e evs option timeout k = event_recv e evs option timeout RT_INTERRUPTIBLE k"

definition rt_event_recv_killable ::
  "nat \<Rightarrow> u32 \<Rightarrow> u8 \<Rightarrow> 32 word \<Rightarrow> kernel \<Rightarrow> ((int \<times> u32 option) call \<times> kernel) option" where
  "rt_event_recv_killable e evs option timeout k = event_recv e evs option timeout RT_KILLABLE k"

definition rt_event_control :: "nat \<Rightarrow> int \<Rightarrow> kernel \<Rightarrow> (int \<times> kernel) option" where
  "rt_event_control e cmd k = do {
     rt_assert (is_event e k);
     if cmd = RT_IPC_CMD_RESET
     then do {
       (_, k) \<leftarrow> rt_ipc_list_resume_all (QEvent e) k;
       let k = set_event e 0 k;
       k \<leftarrow> rt_schedule k;
       Some (RT_EOK, k)
     }
     else Some (- RT_ERROR, k)
   }"

subsection \<open>The specification of a delivery\<close>

definition option_ok :: "u8 \<Rightarrow> bool" where
  "option_ok opt \<longleftrightarrow> opt AND RT_EVENT_FLAG_AND \<noteq> 0 \<or> opt AND RT_EVENT_FLAG_OR \<noteq> 0"

text \<open>Whether a request is satisfied by the flags, and what it receives.\<close>

definition satisfied :: "u8 \<Rightarrow> u32 \<Rightarrow> u32 \<Rightarrow> bool" where
  "satisfied opt want flags \<longleftrightarrow>
     (if opt AND RT_EVENT_FLAG_AND \<noteq> 0 then want AND flags = want else want AND flags \<noteq> 0)"

definition left_over :: "u8 \<Rightarrow> u32 \<Rightarrow> u32 \<Rightarrow> u32" where
  "left_over opt want flags =
     (if opt AND RT_EVENT_FLAG_CLEAR \<noteq> 0 then flags AND NOT (want AND flags) else flags)"

text \<open>The waiters are served in their order; each sees the flags its predecessors left.\<close>

fun deliver :: "(tid \<Rightarrow> rt_thread) \<Rightarrow> u32 \<Rightarrow> tid list \<Rightarrow> u32 \<times> (tid \<times> u32) list" where
  "deliver th flags [] = (flags, [])"
| "deliver th flags (t # ts) =
     (if satisfied (event_info (th t)) (event_set (th t)) flags
      then let (flags', ws) = deliver th (left_over (event_info (th t)) (event_set (th t)) flags) ts
           in (flags', (t, event_set (th t) AND flags) # ws)
      else deliver th flags ts)"

lemma deliver_Cons:
  "fst (deliver th flags (t # ts)) =
     (if satisfied (event_info (th t)) (event_set (th t)) flags
      then fst (deliver th (left_over (event_info (th t)) (event_set (th t)) flags) ts)
      else fst (deliver th flags ts))"
  "snd (deliver th flags (t # ts)) =
     (if satisfied (event_info (th t)) (event_set (th t)) flags
      then (t, event_set (th t) AND flags) #
        snd (deliver th (left_over (event_info (th t)) (event_set (th t)) flags) ts)
      else snd (deliver th flags ts))"
  by (simp_all add: case_prod_beta)

declare deliver.simps(2) [simp del]

lemmas deliver_simps [simp] = deliver_Cons

lemma deliver_sub: "fst ` set (snd (deliver th flags ts)) \<subseteq> set ts"
proof (induction ts arbitrary: flags)
  case (Cons t ts)
  show ?case
    using Cons [of flags] Cons [of "left_over (event_info (th t)) (event_set (th t)) flags"]
    by (cases "satisfied (event_info (th t)) (event_set (th t)) flags") (simp_all, blast+)
qed simp

lemma deliver_cong:
  assumes "\<And>t. t \<in> set ts \<Longrightarrow> event_set (th' t) = event_set (th t) \<and> event_info (th' t) = event_info (th t)"
  shows "deliver th' flags ts = deliver th flags ts"
  using assms
proof (induction ts arbitrary: flags)
  case (Cons t ts)
  then have "deliver th' f ts = deliver th f ts" for f by simp
  then show ?case using Cons.prems [of t] by (simp add: deliver.simps(2))
qed simp

text \<open>Flags only go away, so an unsatisfied request stays unsatisfied.\<close>

lemma left_over_sub: "bit (left_over opt want flags) n \<Longrightarrow> bit flags n"
  by (auto simp: left_over_def bit_simps split: if_splits)

lemma deliver_flags: "bit (fst (deliver th flags ts)) n \<Longrightarrow> bit flags n"
proof (induction ts arbitrary: flags)
  case (Cons t ts)
  show ?case
  proof (cases "satisfied (event_info (th t)) (event_set (th t)) flags")
    case True
    then have "bit (left_over (event_info (th t)) (event_set (th t)) flags) n"
      using Cons.prems Cons.IH [of "left_over (event_info (th t)) (event_set (th t)) flags"] by simp
    then show ?thesis by (rule left_over_sub)
  next
    case False
    then show ?thesis using Cons.prems Cons.IH [of flags] by simp
  qed
qed simp

lemma satisfied_mono:
  assumes "satisfied opt want flags" and sub: "\<And>n. bit flags n \<Longrightarrow> bit flags' n"
  shows "satisfied opt want flags'"
proof (cases "opt AND RT_EVENT_FLAG_AND \<noteq> 0")
  case True
  then have "want AND flags = want" using assms(1) by (simp add: satisfied_def)
  then have "bit (want AND flags) n = bit want n" for n by simp
  then have "bit flags n" if "bit want n" for n using that by (auto simp: bit_and_iff)
  then have "want AND flags' = want" using sub by (intro bit_word_eqI) (auto simp: bit_simps)
  then show ?thesis using True by (simp add: satisfied_def)
next
  case False
  then have "want AND flags \<noteq> 0" using assms(1) by (simp add: satisfied_def)
  then obtain n where "bit (want AND flags) n" by (auto simp: bit_eq_iff)
  then have "bit (want AND flags') n" using sub by (simp add: bit_simps)
  then have "want AND flags' \<noteq> 0" by auto
  then show ?thesis using False by (simp add: satisfied_def)
qed

lemma deliver_rest:
  assumes "distinct ts" "t \<in> set ts" "t \<notin> fst ` set (snd (deliver th flags ts))"
  shows "\<not> satisfied (event_info (th t)) (event_set (th t)) (fst (deliver th flags ts))"
  using assms
proof (induction ts arbitrary: flags)
  case (Cons s ts)
  let ?sat = "satisfied (event_info (th s)) (event_set (th s)) flags"
  show ?case
  proof (cases "t = s")
    case True
    then have "\<not> ?sat" using Cons.prems(3) by auto
    then show ?thesis using True satisfied_mono [OF _ deliver_flags] by auto
  next
    case False
    then show ?thesis using Cons by (cases ?sat) auto
  qed
qed simp

subsection \<open>Sending\<close>

lemma set_event_simps [simp]:
  "events (set_event e s k) = (events k)(e := \<lparr>ev_set = s\<rparr>)"
  "queues (set_event e s k) = queues k" "threads (set_event e s k) = threads k"
  "current_thread (set_event e s k) = current_thread k" "objs (set_event e s k) = objs k"
  "kernel_inv (set_event e s k) = kernel_inv k" "is_event e' (set_event e s k) = is_event e' k"
  "tick (set_event e s k) = tick k" "interrupt_nest (set_event e s k) = interrupt_nest k"
  by (simp_all add: set_event_def is_event_def rt_object_get_type_def)

lemma is_event_cong: "objs k' (OEvent e) = objs k (OEvent e) \<Longrightarrow> is_event e k' = is_event e k"
  by (simp add: is_event_def rt_object_get_type_def)

lemma events_upd_thread [simp]: "events (upd_thread t f k) = events k"
  by (simp add: upd_thread_def)

lemma event_wake_ok:
  assumes inv: "kernel_inv k" and susp: "suspended (threads k t)"
  shows "\<exists>k'. event_wake e t k = Some k' \<and>
    woken t RT_EOK (set_event e (if event_info (threads k t) AND RT_EVENT_FLAG_CLEAR \<noteq> 0
      then ev_set (events k e) AND NOT (event_set (threads k t)) else ev_set (events k e)) k) k'"
proof -
  let ?s = "if event_info (threads k t) AND RT_EVENT_FLAG_CLEAR \<noteq> 0
      then ev_set (events k e) AND NOT (event_set (threads k t)) else ev_set (events k e)"
  have k0: "(if event_info (threads k t) AND RT_EVENT_FLAG_CLEAR \<noteq> 0
              then set_event e (ev_set (events k e) AND NOT (event_set (threads k t))) k else k) = set_event e ?s k"
    by (cases k; cases "events k e") (auto simp: set_event_def fun_upd_idem)
  have inv0: "kernel_inv (set_event e ?s k)" "suspended (threads (set_event e ?s k) t)" using inv susp by simp_all
  from rt_thread_resume_ok [OF this] obtain k1 where
    k1: "rt_thread_resume t (set_event e ?s k) = Some (RT_EOK, k1)" "wakes t (set_event e ?s k) k1" by blast
  let ?k' = "upd_thread t (\<lambda>th. th\<lparr>error := RT_EOK\<rparr>) k1"
  obtain st w where thr: "threads k1 = (threads k)(t := (threads k t)\<lparr>wakeup_func := w, stat := st\<rparr>)"
    using k1(2) by (auto simp: wakes_def)
  have "kernel_inv ?k'" by (rule kernel_inv_upd_other) (use k1(2) in \<open>simp_all add: wakes_def\<close>)
  moreover have "threads ?k' = (threads k)(t := (threads k t)\<lparr>error := RT_EOK, wakeup_func := w, stat := st\<rparr>)"
    using thr by (cases "threads k t") (simp add: threads_upd_thread)
  moreover have "stat_class (threads ?k' t) = stat_class (threads k1 t)"
    by (simp add: threads_upd_thread stat_class_def)
  moreover have "timers_only_stopped (set_event e ?s k) ?k'"
    by (rule timers_only_stopped_trans [OF rt_thread_resume_timers [OF k1 inv0(2)] timers_only_stopped_class])
      (simp_all add: upd_thread_def stat_class_def)
  moreover have "ipc_frame (set_event e ?s k) ?k'"
    using k1(2) ipc_frame_trans [OF _ ipc_frame_upd_thread] unfolding wakes_def by blast
  ultimately have "woken t RT_EOK (set_event e ?s k) ?k'"
    using k1(2) by (auto simp: woken_def wakes_def)
  moreover have "event_wake e t k = Some ?k'"
    using k1(1) by (simp add: event_wake_def k0 del: set_event_simps)
  ultimately show ?thesis by blast
qed

text \<open>One waiter of the loop.\<close>

lemma event_scan_step:
  assumes inv: "kernel_inv k" and t: "t \<in> set (queues k (QEvent e))" and opt: "option_ok (event_info (threads k t))"
  shows "\<exists>k'. event_scan e (t # ts) b k =
      event_scan e ts (b \<or> satisfied (event_info (threads k t)) (event_set (threads k t)) (ev_set (events k e))) k' \<and>
    (if satisfied (event_info (threads k t)) (event_set (threads k t)) (ev_set (events k e))
     then kernel_inv k' \<and> current_thread k' = current_thread k
       \<and> (\<forall>x. objs k' (OEvent x) = objs k (OEvent x))
       \<and> ev_set (events k' e) = left_over (event_info (threads k t)) (event_set (threads k t)) (ev_set (events k e))
       \<and> (\<forall>q. \<not> ready_queue q \<longrightarrow> queues k' q = removeAll t (queues k q))
       \<and> error (threads k' t) = RT_EOK \<and> event_set (threads k' t) = event_set (threads k t) AND ev_set (events k e)
       \<and> stat_class (threads k' t) \<in> {RT_THREAD_READY, RT_THREAD_RUNNING}
       \<and> (\<forall>s. s \<noteq> t \<longrightarrow> threads k' s = threads k s)
     else k' = k)"
proof (cases "satisfied (event_info (threads k t)) (event_set (threads k t)) (ev_set (events k e))")
  case False
  then show ?thesis using opt by (auto simp: satisfied_def option_ok_def split: if_splits)
next
  case True
  let ?w = "event_set (threads k t)" and ?s = "ev_set (events k e)" and ?o = "event_info (threads k t)"
  let ?k0 = "if ?o AND RT_EVENT_FLAG_AND \<noteq> 0 then k else upd_thread t (\<lambda>th. th\<lparr>event_set := event_set th AND ?s\<rparr>) k"
  have susp: "suspended (threads k t)" using waiting_suspended [OF inv _ t] by simp
  have inv0: "kernel_inv ?k0" using inv kernel_inv_upd_other [OF inv, of "\<lambda>th. th\<lparr>event_set := event_set th AND ?s\<rparr>" t] by simp
  have same0: "event_set (threads ?k0 t) = ?w AND ?s" "event_info (threads ?k0 t) = ?o" "events ?k0 = events k"
      "queues ?k0 = queues k" "objs ?k0 = objs k" "current_thread ?k0 = current_thread k"
      "s \<noteq> t \<Longrightarrow> threads ?k0 s = threads k s" for s
    using True by (auto simp: threads_upd_thread satisfied_def)
  have "suspended (threads ?k0 t)" using susp by (simp add: threads_upd_thread suspended_def)
  from event_wake_ok [OF inv0 this, of e] obtain k' where k': "event_wake e t ?k0 = Some k'"
      "woken t RT_EOK (set_event e (left_over ?o ?w ?s) ?k0) k'"
    unfolding same0 left_over_def by auto
  have "event_scan e (t # ts) b k = event_scan e ts True k'"
    using k'(1) True opt by (auto simp: satisfied_def option_ok_def Let_def split: if_splits)
  moreover have fr: "ipc_frame (set_event e (left_over ?o ?w ?s) ?k0) k'" using k'(2) by (simp add: woken_def)
  moreover have "objs k' (OEvent x) = objs k (OEvent x)" for x
    using ipc_frameD(15) [OF fr, of "OEvent x"] same0(5) by simp
  moreover have "events k' = (events k)(e := \<lparr>ev_set = left_over ?o ?w ?s\<rparr>)"
    using ipc_frameD(3) [OF fr] same0(3) by simp
  moreover obtain st w where "threads k' = (threads ?k0)(t := (threads ?k0 t)\<lparr>error := RT_EOK, wakeup_func := w, stat := st\<rparr>)"
    using k'(2) by (auto simp: woken_def)
  moreover have "kernel_inv k'" "current_thread k' = current_thread k"
      "queues k' q = removeAll t (queues k q)" if "\<not> ready_queue q" for q
    using k'(2) same0(4,6) that by (simp_all add: woken_def)
  moreover have "kernel_inv k'" "current_thread k' = current_thread k" using k'(2) same0(6) by (simp_all add: woken_def)
  ultimately show ?thesis
    using True same0(1,7) woken_class [OF k'(2)] by (intro exI [of _ k']) simp
qed

text \<open>The loop refines \<open>deliver\<close>.\<close>

definition delivered :: "nat \<Rightarrow> u32 \<times> (tid \<times> u32) list \<Rightarrow> kernel \<Rightarrow> kernel \<Rightarrow> bool" where
  "delivered e d k k' \<longleftrightarrow>
     kernel_inv k' \<and> (\<forall>x. objs k' (OEvent x) = objs k (OEvent x)) \<and> ev_set (events k' e) = fst d \<and>
     queues k' (QEvent e) = filter (\<lambda>t. t \<notin> fst ` set (snd d)) (queues k (QEvent e)) \<and>
     (\<forall>(t, got)\<in>set (snd d). error (threads k' t) = RT_EOK \<and> event_set (threads k' t) = got \<and>
        stat_class (threads k' t) \<in> {RT_THREAD_READY, RT_THREAD_RUNNING}) \<and>
     (\<forall>t\<in>set (queues k (QEvent e)). t \<notin> fst ` set (snd d) \<longrightarrow> threads k' t = threads k t)"

lemma event_scan_ok:
  assumes "kernel_inv k" and "set ts \<subseteq> set (queues k (QEvent e))" and "distinct ts"
    and "\<And>t. t \<in> set ts \<Longrightarrow> option_ok (event_info (threads k t))"
  shows "\<exists>k'. event_scan e ts b k =
      Some (RT_EOK, b \<or> snd (deliver (threads k) (ev_set (events k e)) ts) \<noteq> [], k') \<and>
    current_thread k' = current_thread k \<and>
    (\<forall>t. t \<notin> fst ` set (snd (deliver (threads k) (ev_set (events k e)) ts)) \<longrightarrow> threads k' t = threads k t) \<and>
    delivered e (deliver (threads k) (ev_set (events k e)) ts) k k'"
  using assms
proof (induction ts arbitrary: b k)
  case Nil
  then show ?case by (simp add: delivered_def)
next
  case (Cons t ts)
  let ?sat = "satisfied (event_info (threads k t)) (event_set (threads k t)) (ev_set (events k e))"
  have t: "t \<in> set (queues k (QEvent e))" "option_ok (event_info (threads k t))" "t \<notin> set ts"
    using Cons.prems by auto
  show ?case
  proof (cases ?sat)
    case False
    with event_scan_step [OF Cons.prems(1) t(1,2), of ts b] have "event_scan e (t # ts) b k = event_scan e ts b k" by auto
    moreover have "deliver (threads k) (ev_set (events k e)) (t # ts) = deliver (threads k) (ev_set (events k e)) ts"
      using False by (simp add: deliver.simps(2))
    ultimately show ?thesis using Cons.IH [of k b] Cons.prems by auto
  next
    case True
    with event_scan_step [OF Cons.prems(1) t(1,2), of ts b] obtain k1 where
      k1: "event_scan e (t # ts) b k = event_scan e ts True k1" "kernel_inv k1" "current_thread k1 = current_thread k"
        "\<forall>x. objs k1 (OEvent x) = objs k (OEvent x)"
        "ev_set (events k1 e) = left_over (event_info (threads k t)) (event_set (threads k t)) (ev_set (events k e))"
        "\<forall>q. \<not> ready_queue q \<longrightarrow> queues k1 q = removeAll t (queues k q)"
        "error (threads k1 t) = RT_EOK" "event_set (threads k1 t) = event_set (threads k t) AND ev_set (events k e)"
        "stat_class (threads k1 t) \<in> {RT_THREAD_READY, RT_THREAD_RUNNING}"
        "\<forall>s. s \<noteq> t \<longrightarrow> threads k1 s = threads k s" by auto
    have q1: "queues k1 (QEvent e) = removeAll t (queues k (QEvent e))" using k1(6) by simp
    have same: "threads k1 s = threads k s" if "s \<in> set ts" for s using k1(10) that t(3) by auto
    have sub: "set ts \<subseteq> set (queues k1 (QEvent e))" using Cons.prems(2) t(3) q1 by auto
    let ?d1 = "deliver (threads k) (ev_set (events k1 e)) ts"
    have d1: "deliver (threads k1) (ev_set (events k1 e)) ts = ?d1"
      using same by (intro deliver_cong) auto
    from Cons.IH [OF k1(2) sub, of True] Cons.prems(3,4) same obtain k' where
      k': "event_scan e ts True k1 = Some (RT_EOK, True, k')" "current_thread k' = current_thread k1"
        "\<forall>t. t \<notin> fst ` set (snd ?d1) \<longrightarrow> threads k' t = threads k1 t" "delivered e ?d1 k1 k'"
      unfolding d1 by auto
    have nt: "t \<notin> fst ` set (snd ?d1)" using deliver_sub [of "threads k" "ev_set (events k1 e)" ts] t(3) by auto
    have d: "fst (deliver (threads k) (ev_set (events k e)) (t # ts)) = fst ?d1"
        "snd (deliver (threads k) (ev_set (events k e)) (t # ts)) =
          (t, event_set (threads k t) AND ev_set (events k e)) # snd ?d1"
      using True k1(5) by simp_all
    have tk: "threads k' t = threads k1 t" using k'(3) nt by blast
    have "delivered e (deliver (threads k) (ev_set (events k e)) (t # ts)) k k'"
    proof -
      have "queues k' (QEvent e) =
          filter (\<lambda>s. s \<notin> fst ` set (snd (deliver (threads k) (ev_set (events k e)) (t # ts)))) (queues k (QEvent e))"
        using k'(4) unfolding d(2) by (simp add: delivered_def q1 removeAll_filter_not_eq conj_commute)
          (rule filter_cong; auto)
      moreover have "\<forall>(s, got)\<in>set (snd (deliver (threads k) (ev_set (events k e)) (t # ts))).
          error (threads k' s) = RT_EOK \<and> event_set (threads k' s) = got \<and>
          stat_class (threads k' s) \<in> {RT_THREAD_READY, RT_THREAD_RUNNING}"
        using k'(4) k1(7,8,9) tk unfolding d(2) by (simp add: delivered_def)
      moreover have "threads k' s = threads k s"
        if "s \<notin> fst ` set (snd (deliver (threads k) (ev_set (events k e)) (t # ts)))" for s
        using that k'(3) k1(10) unfolding d(2) by auto
      ultimately show ?thesis using k'(4) k1(4) d(1) unfolding delivered_def by simp
    qed
    moreover have "threads k' s = threads k s"
      if "s \<notin> fst ` set (snd (deliver (threads k) (ev_set (events k e)) (t # ts)))" for s
      using that k'(3) k1(10) unfolding d(2) by auto
    ultimately show ?thesis using k1(1,3) k'(1,2) d(2) by simp
  qed
qed

lemma delivered_schedule:
  assumes d: "delivered e d k k1" and sub: "\<And>t. t \<in> set (queues k (QEvent e)) \<Longrightarrow> suspended (threads k t)"
    and inv: "kernel_inv k'" and fr: "sched_frame k1 k'"
    and same: "\<forall>t. stat_class (threads k1 t) \<notin> {RT_THREAD_READY, RT_THREAD_RUNNING} \<longrightarrow> threads k' t = threads k1 t"
    and run: "\<forall>t. stat_class (threads k1 t) \<in> {RT_THREAD_READY, RT_THREAD_RUNNING} \<longrightarrow>
         stat_class (threads k' t) \<in> {RT_THREAD_READY, RT_THREAD_RUNNING}"
  shows "delivered e d k k'"
proof -
  have q: "queues k' (QEvent e) = queues k1 (QEvent e)" using sched_frameD(18) [OF fr, of "QEvent e"] by simp
  have th: "error (threads k' t) = error (threads k1 t)" "event_set (threads k' t) = event_set (threads k1 t)" for t
    using sched_frame_thread(1,5) [OF fr] by simp_all
  have "threads k' t = threads k t" if "t \<in> set (queues k (QEvent e))" "t \<notin> fst ` set (snd d)" for t
  proof -
    have "threads k1 t = threads k t" using d that by (simp add: delivered_def)
    then show ?thesis using same suspended_class [OF sub [OF that(1)]] by simp
  qed
  moreover have "\<forall>(t, got)\<in>set (snd d). error (threads k' t) = RT_EOK \<and> event_set (threads k' t) = got \<and>
        stat_class (threads k' t) \<in> {RT_THREAD_READY, RT_THREAD_RUNNING}"
  proof (rule ballI, clarify)
    fix t got assume "(t, got) \<in> set (snd d)"
    then have 1: "error (threads k1 t) = RT_EOK \<and> event_set (threads k1 t) = got"
        "stat_class (threads k1 t) \<in> {RT_THREAD_READY, RT_THREAD_RUNNING}"
      using d unfolding delivered_def by (fastforce+)
    have "stat_class (threads k' t) \<in> {RT_THREAD_READY, RT_THREAD_RUNNING}" using run 1(2) by blast
    then show "error (threads k' t) = RT_EOK \<and> event_set (threads k' t) = got \<and>
        stat_class (threads k' t) \<in> {RT_THREAD_READY, RT_THREAD_RUNNING}"
      using 1(1) th [of t] by simp
  qed
  ultimately show ?thesis
    using d inv q sched_frameD(1,9) [OF fr] unfolding delivered_def by simp
qed

lemma rt_event_send_ok:
  assumes inv: "kernel_inv k" and cur: "current_thread k \<noteq> None" and ev: "is_event e k" and evs: "evs \<noteq> 0"
    and opt: "\<And>t. t \<in> set (queues k (QEvent e)) \<Longrightarrow> option_ok (event_info (threads k t))"
  shows "\<exists>k'. rt_event_send e evs k = Some (RT_EOK, k') \<and> current_thread k' \<noteq> None \<and>
    delivered e (deliver (threads k) (ev_set (events k e) OR evs) (queues k (QEvent e))) k k'"
proof -
  let ?k = "set_event e (ev_set (events k e) OR evs) k"
  let ?d = "deliver (threads k) (ev_set (events k e) OR evs) (queues k (QEvent e))"
  have dist: "distinct (queues k (QEvent e))"
    using inv core_distinct by (auto simp: kernel_inv_def sched_inv_def)
  from event_scan_ok [of ?k "queues k (QEvent e)" e False] inv opt dist obtain k1 where
    k1: "event_scan e (queues k (QEvent e)) False ?k = Some (RT_EOK, snd ?d \<noteq> [], k1)"
      "current_thread k1 = current_thread k" "delivered e ?d ?k k1" by auto
  have d1: "delivered e ?d k k1" using k1(3) by (simp add: delivered_def)
  show ?thesis
  proof (cases "snd ?d = []")
    case True
    then show ?thesis using k1(1,2) d1 ev evs cur by (simp add: rt_event_send_def)
  next
    case False
    have inv1: "kernel_inv k1" using d1 by (simp add: delivered_def)
    obtain c where "current_thread k1 = Some c" using cur k1(2) by auto
    from rt_schedule_ok [OF inv1 this] obtain k' c' where k': "rt_schedule k1 = Some k'" "kernel_inv k'"
        "sched_frame k1 k'" "current_thread k' = Some c'"
        "\<forall>t. stat_class (threads k1 t) \<notin> {RT_THREAD_READY, RT_THREAD_RUNNING} \<longrightarrow> threads k' t = threads k1 t"
        "\<forall>t. stat_class (threads k1 t) \<in> {RT_THREAD_READY, RT_THREAD_RUNNING} \<longrightarrow>
           stat_class (threads k' t) \<in> {RT_THREAD_READY, RT_THREAD_RUNNING}"
      by blast
    have "delivered e ?d k k'"
      by (rule delivered_schedule [OF d1 _ k'(2,3,5,6)]) (rule waiting_suspended [OF inv, of "QEvent e"], simp_all)
    then show ?thesis using k1(1) k'(1,4) ev evs False by (simp add: rt_event_send_def)
  qed
qed

subsection \<open>The life of an event set\<close>

text \<open>No thread waits for flags that are there.\<close>

definition event_inv :: "nat \<Rightarrow> kernel \<Rightarrow> bool" where
  "event_inv e k \<longleftrightarrow> kernel_inv k \<and> current_thread k \<noteq> None \<and> is_event e k \<and>
     (\<forall>t\<in>set (queues k (QEvent e)). option_ok (event_info (threads k t)) \<and>
        \<not> satisfied (event_info (threads k t)) (event_set (threads k t)) (ev_set (events k e)))"

lemma send_event_inv:
  assumes inv: "event_inv e k" and send: "rt_event_send e evs k = Some (r, k')"
  shows "event_inv e k'"
proof (cases "evs = 0")
  case True
  then show ?thesis using inv send by (simp add: rt_event_send_def event_inv_def)
next
  case False
  let ?d = "deliver (threads k) (ev_set (events k e) OR evs) (queues k (QEvent e))"
  from rt_event_send_ok [of k e evs] inv False send have d: "current_thread k' \<noteq> None" "delivered e ?d k k'"
    by (auto simp: event_inv_def)
  have dist: "distinct (queues k (QEvent e))"
    using inv core_distinct by (auto simp: event_inv_def kernel_inv_def sched_inv_def)
  have "option_ok (event_info (threads k' t)) \<and>
      \<not> satisfied (event_info (threads k' t)) (event_set (threads k' t)) (ev_set (events k' e))"
    if "t \<in> set (queues k' (QEvent e))" for t
  proof -
    have t: "t \<in> set (queues k (QEvent e))" "t \<notin> fst ` set (snd ?d)"
      using that d(2) by (auto simp: delivered_def)
    then have "threads k' t = threads k t" "ev_set (events k' e) = fst ?d" using d(2) by (simp_all add: delivered_def)
    then show ?thesis using deliver_rest [OF dist t] t(1) inv by (simp add: event_inv_def)
  qed
  moreover have "is_event e k'"
    using inv is_event_cong [of k' e k] d(2) by (simp add: event_inv_def delivered_def)
  ultimately show ?thesis using d unfolding event_inv_def delivered_def by blast
qed

text \<open>Receiving.\<close>

lemma event_recv_inv:
  assumes inv: "event_inv e k" and cur: "current_thread k = Some t"
    and run: "stat_class (threads k t) = RT_THREAD_RUNNING" and f: "flag_ok f" and time: "sint timeout < 2147483647"
    and recv: "event_recv e evs opt timeout f k = Some (r, k')"
  shows "event_inv e k'"
proof (cases "evs = 0")
  case True
  then show ?thesis using inv recv by (auto simp: event_recv_def split: if_splits)
next
  case evs: False
  have kinv: "kernel_inv k" and ev: "is_event e k" using inv by (simp_all add: event_inv_def)
  have opt: "option_ok opt" and ctx: "in_thread_context k"
    using recv evs cur by (auto simp: event_recv_def option_ok_def rt_thread_self_def Let_def split: if_splits)
  let ?s = "ev_set (events k e)"
  have nq: "t \<notin> set (queues k (QEvent e))"
    using kinv core_running_unqueued [of "{}" k t] run by (auto simp: kernel_inv_def sched_inv_def unqueued_def)
  have upd: "event_inv e (upd_thread t g h)"
    if "event_inv e h" "stat (g (threads h t)) = stat (threads h t)"
      "current_priority (g (threads h t)) = current_priority (threads h t)"
      "number_mask (g (threads h t)) = number_mask (threads h t)" "t \<notin> set (queues h (QEvent e))" for g h
    using that kernel_inv_upd_other [of h g t] is_event_cong [of "upd_thread t g h" e h]
    by (auto simp: event_inv_def threads_upd_thread)
  define k1 where "k1 = upd_thread t (\<lambda>th. th\<lparr>error := - RT_EINTR\<rparr>) k"
  have inv1: "event_inv e k1" unfolding k1_def by (rule upd [OF inv]) (simp_all add: nq)
  have same1: "queues k1 = queues k" "events k1 = events k" "current_thread k1 = Some t" "objs k1 = objs k"
    using cur by (simp_all add: k1_def)
  let ?sat = "if opt AND RT_EVENT_FLAG_AND \<noteq> 0 then ?s AND evs = evs else ?s AND evs \<noteq> 0"
  have sat: "?sat = satisfied opt evs ?s" by (simp add: satisfied_def and.commute)
  consider (now) ?sat | (fail) "\<not> ?sat" "timeout = 0" | (wait) "\<not> ?sat" "timeout \<noteq> 0" by blast
  then show ?thesis
  proof cases
    case now
    let ?k2 = "upd_thread t (\<lambda>th. th\<lparr>error := RT_EOK, event_set := ?s AND evs, event_info := opt\<rparr>) k1"
    have "k' = (if opt AND RT_EVENT_FLAG_CLEAR \<noteq> 0 then set_event e (?s AND NOT evs) ?k2 else ?k2)"
      using recv now evs cur by (auto simp: event_recv_def rt_thread_self_def Let_def same1(2) k1_def split: if_splits)
    moreover have inv2: "event_inv e ?k2" by (rule upd [OF inv1]) (simp_all add: nq same1)
    moreover have "event_inv e (set_event e (?s AND NOT evs) ?k2)"
    proof -
      have "bit (?s AND NOT evs) n \<Longrightarrow> bit (ev_set (events ?k2 e)) n" for n by (simp add: bit_simps same1)
      then show ?thesis using inv2 satisfied_mono [of _ _ "?s AND NOT evs" "ev_set (events ?k2 e)"]
        by (auto simp: event_inv_def)
    qed
    ultimately show ?thesis by simp
  next
    case fail
    then have "k' = upd_thread t (\<lambda>th. th\<lparr>error := - RT_ETIMEOUT\<rparr>) k1"
      using recv evs cur by (auto simp: event_recv_def rt_thread_self_def Let_def same1(2) k1_def split: if_splits)
    then show ?thesis using upd [OF inv1] nq same1 by simp
  next
    case wait
    define k2 where "k2 = upd_thread t (\<lambda>th. th\<lparr>event_set := evs, event_info := opt\<rparr>) k1"
    have inv2: "event_inv e k2" unfolding k2_def by (rule upd [OF inv1]) (simp_all add: nq same1)
    have same2: "queues k2 = queues k" "events k2 = events k" "current_thread k2 = Some t" "objs k2 = objs k"
        "event_set (threads k2 t) = evs" "event_info (threads k2 t) = opt" "started (threads k2 t)"
      using same1 run by (auto simp: k2_def k1_def threads_upd_thread started_cases stat_class_def)
    have "wait_queue (QEvent e)" by simp
    have "kernel_inv k2" using inv2 by (simp add: event_inv_def)
    from ipc_block_ok [OF this same2(3,7) f \<open>wait_queue (QEvent e)\<close> time, of "obj_flag (objs k2 (OEvent e))"]
    obtain r2 k3 where
      k3: "ipc_block (QEvent e) t (obj_flag (objs k2 (OEvent e))) f timeout k2 = Some (r2, k3)"
        "case r2 of Waiting \<Rightarrow> blocked t (QEvent e) (obj_flag (objs k2 (OEvent e))) timeout k2 k3
         | Returned x \<Rightarrow> k3 = k2 \<and> x \<in> {- RT_EINTR, - RT_ERROR} \<and>
             \<not> (f = RT_UNINTERRUPTIBLE \<and> stat_class (threads k2 t) = RT_THREAD_RUNNING)"
      by blast
    have "k' = k3"
      using recv wait evs cur k3(1) ev opt ctx
      by (simp add: event_recv_def rt_thread_self_def Let_def same1(2) option_ok_def k1_def [symmetric] k2_def [symmetric] split: if_splits)
    moreover have "event_inv e k3"
    proof (cases r2)
      case (Returned x)
      then show ?thesis using k3(2) inv2 by simp
    next
      case Waiting
      then have b: "blocked t (QEvent e) (obj_flag (objs k2 (OEvent e))) timeout k2 k3" using k3(2) by simp
      then have o: "others t k2 k3" and fr: "ipc_frame k2 k3" and "kernel_inv k3" "current_thread k3 \<noteq> None"
        by (simp_all add: blocked_def)
      have at: "event_set (threads k3 s) = event_set (threads k2 s)" "event_info (threads k3 s) = event_info (threads k2 s)" for s
        using othersD(1) [OF o, of s] by (simp_all add: same_attrs_def)
      have "set (queues k3 (QEvent e)) \<subseteq> insert t (set (queues k2 (QEvent e)))"
        using b wait_insert_sub(1) by (simp add: blocked_def)
      moreover have "is_event e k3" using ipc_frameD(13) [OF fr] inv2 by (simp add: is_event_def event_inv_def)
      moreover have "option_ok (event_info (threads k3 s)) \<and>
          \<not> satisfied (event_info (threads k3 s)) (event_set (threads k3 s)) (ev_set (events k3 e))"
        if "s \<in> insert t (set (queues k2 (QEvent e)))" for s
      proof (cases "s = t")
        case True
        have "event_info (threads k3 s) = opt" "event_set (threads k3 s) = evs" "ev_set (events k3 e) = ?s"
          using at [of t] same2(2,5,6) ipc_frameD(3) [OF fr] True by simp_all
        moreover have "\<not> satisfied opt evs ?s" using wait(1) sat by blast
        ultimately show ?thesis using opt by (simp only: simp_thms)
      next
        case False
        then show ?thesis
          using that inv2 at [of s] ipc_frameD(3) [OF fr] by (simp add: event_inv_def)
      qed
      ultimately show ?thesis
        using \<open>kernel_inv k3\<close> \<open>current_thread k3 \<noteq> None\<close> unfolding event_inv_def by blast
    qed
    ultimately show ?thesis by simp
  qed
qed


lemma reset_event_inv:
  assumes inv: "event_inv e k" and ctl: "rt_event_control e cmd k = Some (r, k')"
  shows "event_inv e k'"
proof (cases "cmd = RT_IPC_CMD_RESET")
  case False
  then show ?thesis using inv ctl by (auto simp: rt_event_control_def event_inv_def)
next
  case True
  have "kernel_inv k" "wait_queue (QEvent e)" using inv by (simp_all add: event_inv_def)
  from rt_ipc_list_resume_all_ok [OF this] obtain k1 where
    k1: "rt_ipc_list_resume_all (QEvent e) k = Some (RT_EOK, k1)" "all_woken (QEvent e) k k1" by blast
  have fr: "ipc_frame k k1" and q1: "queues k1 (QEvent e) = []" using k1(2) by (simp_all add: all_woken_def)
  have inv1: "kernel_inv (set_event e 0 k1)" using k1(2) by (simp add: all_woken_def)
  obtain c where c: "current_thread (set_event e 0 k1) = Some c" using k1(2) inv by (auto simp: all_woken_def event_inv_def)
  from rt_schedule_ok [OF inv1 c] obtain k2 c2 where k2: "rt_schedule (set_event e 0 k1) = Some k2" "kernel_inv k2"
      "sched_frame (set_event e 0 k1) k2" "current_thread k2 = Some c2" by blast
  have "k' = k2" using ctl True k1(1) k2(1) by (auto simp: rt_event_control_def split: if_splits)
  moreover have "queues k2 (QEvent e) = []" using sched_frameD(18) [OF k2(3), of "QEvent e"] q1 by simp
  moreover have "is_event e k2"
    using inv ipc_frameD(15) [OF fr, of "OEvent e"] sched_frameD(1) [OF k2(3)]
    by (simp add: event_inv_def is_event_def rt_object_get_type_def)
  ultimately show ?thesis using k2(2,4) by (simp add: event_inv_def)
qed

lemma timeout_event_inv:
  assumes inv: "event_inv e k" and tm: "ThreadTimer t \<in> set (timer_lists k LHard)" "timer_lists k LTmpHard = []"
    and fire: "timer_fire call (ThreadTimer t) k = Some k'"
  shows "event_inv e k'"
proof -
  have kinv: "kernel_inv k" "current_thread k \<noteq> None" using inv by (simp_all add: event_inv_def)
  from timer_fire_thread [OF kinv(1) tm kinv(2), of call] fire
  have k': "kernel_inv k'" "ipc_frame k k'" "current_thread k' \<noteq> None"
      "queues k' (QEvent e) = removeAll t (queues k (QEvent e))"
      "\<forall>s. s \<noteq> t \<longrightarrow> suspended (threads k s) \<longrightarrow> threads k' s = threads k s" by auto
  have "is_event e k'" using inv ipc_frameD(15) [OF k'(2), of "OEvent e"]
    by (simp add: event_inv_def is_event_def rt_object_get_type_def)
  moreover have "option_ok (event_info (threads k' s)) \<and>
      \<not> satisfied (event_info (threads k' s)) (event_set (threads k' s)) (ev_set (events k' e))"
    if "s \<in> set (queues k' (QEvent e))" for s
  proof -
    have s: "s \<noteq> t" "s \<in> set (queues k (QEvent e))" using that k'(4) by auto
    have "suspended (threads k s)" by (rule waiting_suspended [OF kinv(1) _ s(2)]) simp
    then have "threads k' s = threads k s" using k'(5) s(1) by blast
    then show ?thesis using inv s(2) ipc_frameD(3) [OF k'(2)] by (simp add: event_inv_def)
  qed
  ultimately show ?thesis using k'(1,3) by (simp add: event_inv_def)
qed

inductive event_reach :: "nat \<Rightarrow> kernel \<Rightarrow> kernel \<Rightarrow> bool" for e :: nat and k0 :: kernel where
  start: "event_reach e k0 k0"
| sent: "event_reach e k0 k \<Longrightarrow> rt_event_send e evs k = Some (r, k') \<Longrightarrow> event_reach e k0 k'"
| received: "event_reach e k0 k \<Longrightarrow> current_thread k = Some t \<Longrightarrow>
    stat_class (threads k t) = RT_THREAD_RUNNING \<Longrightarrow> flag_ok f \<Longrightarrow> sint timeout < 2147483647 \<Longrightarrow>
    event_recv e evs opt timeout f k = Some (res, k') \<Longrightarrow> event_reach e k0 k'"
| timed_out: "event_reach e k0 k \<Longrightarrow> ThreadTimer t \<in> set (timer_lists k LHard) \<Longrightarrow>
    timer_lists k LTmpHard = [] \<Longrightarrow> timer_fire call (ThreadTimer t) k = Some k' \<Longrightarrow> event_reach e k0 k'"
| reset: "event_reach e k0 k \<Longrightarrow> rt_event_control e cmd k = Some (r, k') \<Longrightarrow> event_reach e k0 k'"

lemma event_reach_inv: "event_reach e k0 k \<Longrightarrow> event_inv e k0 \<Longrightarrow> event_inv e k"
proof (induction rule: event_reach.induct)
  case (sent k evs r k')
  then show ?case using send_event_inv by blast
next
  case (received k t f timeout evs opt res k')
  then show ?case using event_recv_inv by blast
next
  case (timed_out k t call k')
  then show ?case using timeout_event_inv by blast
next
  case (reset k cmd r k')
  then show ?case using reset_event_inv by blast
qed

subsection \<open>A sample state\<close>

text \<open>Thread 3 waits for all of the flags 1 and 2 and clears them (\<open>5 = AND + CLEAR\<close>); flag 1 is
  set.\<close>

definition sample_event :: kernel where
  "sample_event = set_event 0 1
     (upd_thread 3 (\<lambda>th. th\<lparr>event_set := 3, event_info := 5\<rparr>) (sample_wait (QEvent 0)))"

lemma sample_event_facts:
  "kernel_inv sample_event" "current_thread sample_event = Some 1" "is_event 0 sample_event"
  "queues sample_event (QEvent 0) = [3]" "ev_set (events sample_event 0) = 1"
  "event_info (threads sample_event 3) = 5" "event_set (threads sample_event 3) = 3"
proof -
  have "kernel_inv (upd_thread 3 (\<lambda>th. th\<lparr>event_set := 3, event_info := 5\<rparr>) (sample_wait (QEvent 0)))"
    by (rule kernel_inv_upd_other [OF sample_wait_inv]) simp_all
  then show "kernel_inv sample_event" by (simp add: sample_event_def)
qed (simp_all add: sample_event_def sample_wait_def sample_waiting_defs is_event_def
      rt_object_get_type_def threads_upd_thread rt_defs)

subsection \<open>Properties\<close>

text \<open>C3: Sending flags refines the delivery to the list of waiters.  In the order of the list every
  waiter whose request (all of its flags, or any of them) is met by the flags its predecessors left
  is woken with the result \<open>RT_EOK\<close> and receives exactly the requested flags that were set; a waiter
  with the clear option takes them away from the flags.  The others keep waiting, untouched and in
  their order, and the flags left are stored.\<close>

theorem event_send_refines:
  assumes "kernel_inv k" and "current_thread k \<noteq> None" and "is_event e k" and "evs \<noteq> 0"
    and "\<And>t. t \<in> set (queues k (QEvent e)) \<Longrightarrow> option_ok (event_info (threads k t))"
    and "deliver (threads k) (ev_set (events k e) OR evs) (queues k (QEvent e)) = (flags, ws)"
  shows "\<exists>k'. rt_event_send e evs k = Some (RT_EOK, k') \<and> kernel_inv k' \<and> ev_set (events k' e) = flags
    \<and> queues k' (QEvent e) = filter (\<lambda>t. t \<notin> fst ` set ws) (queues k (QEvent e))
    \<and> (\<forall>(t, got)\<in>set ws. event_recv_resume t k' = (RT_EOK, Some got) \<and>
        stat_class (threads k' t) \<in> {RT_THREAD_READY, RT_THREAD_RUNNING})
    \<and> (\<forall>t\<in>set (queues k' (QEvent e)). threads k' t = threads k t)"
proof -
  from rt_event_send_ok [OF assms(1-5)] obtain k' where
    k': "rt_event_send e evs k = Some (RT_EOK, k')" "delivered e (flags, ws) k k'"
    unfolding assms(6) by auto
  have "\<forall>(t, got)\<in>set ws. event_recv_resume t k' = (RT_EOK, Some got) \<and>
        stat_class (threads k' t) \<in> {RT_THREAD_READY, RT_THREAD_RUNNING}"
    using k'(2) by (fastforce simp: delivered_def event_recv_resume_def)
  moreover have "\<forall>t\<in>set (queues k' (QEvent e)). threads k' t = threads k t"
    using k'(2) by (auto simp: delivered_def)
  ultimately show ?thesis using k' by (auto simp: delivered_def)
qed

theorem event_send_refines_witness:
  "\<exists>k'. rt_event_send 0 6 sample_event = Some (RT_EOK, k') \<and> event_recv_resume 3 k' = (RT_EOK, Some 3) \<and>
    ev_set (events k' 0) = 4 \<and> queues k' (QEvent 0) = []"
proof -
  have "deliver (threads sample_event) (ev_set (events sample_event 0) OR 6) (queues sample_event (QEvent 0)) =
      (4, [(3, 3)])"
    by (simp add: sample_event_facts deliver.simps(2) satisfied_def left_over_def rt_defs)
  moreover have "option_ok (event_info (threads sample_event t))" if "t \<in> set (queues sample_event (QEvent 0))" for t
    using that sample_event_facts by (auto simp: option_ok_def rt_defs)
  moreover have "current_thread sample_event \<noteq> None" "(6 :: u32) \<noteq> 0" using sample_event_facts by simp_all
  ultimately show ?thesis
    using event_send_refines [of sample_event 0 6 4 "[(3, 3)]"] sample_event_facts(1,3,4) by auto
qed

text \<open>C19: No wakeup is lost.  Start with an event set nobody waits for and run any interleaving of
  sends, receives (with every combination of options and timeouts), timeouts of receivers and resets:
  in every state reached, no thread in the list of waiters has a request that the flags satisfy, every
  waiter's options are valid, and the kernel's invariant holds.\<close>

theorem event_no_lost_wakeup:
  assumes "event_reach e k0 k" and "kernel_inv k0" and "current_thread k0 \<noteq> None" and "is_event e k0"
    and "queues k0 (QEvent e) = []" and "t \<in> set (queues k (QEvent e))"
  shows "\<not> satisfied (event_info (threads k t)) (event_set (threads k t)) (ev_set (events k e))
    \<and> option_ok (event_info (threads k t)) \<and> suspended (threads k t) \<and> kernel_inv k"
proof -
  have "event_inv e k0" using assms(2-5) by (simp add: event_inv_def)
  then have inv: "event_inv e k" using event_reach_inv [OF assms(1)] by blast
  then have "suspended (threads k t)"
    using waiting_suspended [of k "QEvent e" t] assms(6) by (simp add: event_inv_def)
  then show ?thesis using inv assms(6) by (simp add: event_inv_def)
qed

theorem event_no_lost_wakeup_witness:
  "\<exists>k'. event_reach 1 sample_event k' \<and> queues k' (QEvent 1) = [1] \<and>
    \<not> satisfied (event_info (threads k' 1)) (event_set (threads k' 1)) (ev_set (events k' 1))"
proof -
  let ?r = "event_recv 1 8 RT_EVENT_FLAG_OR (- 1) RT_UNINTERRUPTIBLE sample_event"
  have f: "current_thread sample_event \<noteq> None" "is_event 1 sample_event" "queues sample_event (QEvent 1) = []"
      "stat_class (threads sample_event 1) = RT_THREAD_RUNNING" "flag_ok RT_UNINTERRUPTIBLE"
      "sint (- 1 :: 32 word) < 2147483647"
    by (simp_all add: sample_event_def sample_wait_def sample_waiting_defs is_event_def stat_class_def
      rt_object_get_type_def threads_upd_thread rt_defs flag_ok_def)
  have "map_option (\<lambda>(r, k'). queues k' (QEvent 1)) ?r = Some [1]"
    by code_simp
  then obtain r k' where k': "?r = Some (r, k')" "queues k' (QEvent 1) = [1]" by auto
  have "event_reach 1 sample_event k'"
    using event_reach.received [OF event_reach.start sample_event_facts(2) f(4,5,6) k'(1)] .
  with event_no_lost_wakeup [OF this sample_event_facts(1) f(1,2,3), of 1] k'(2) show ?thesis by auto
qed

end
