(* ===== verification/Mailbox.thy ===== *)
theory Mailbox
  imports Semaphore Interfaces
begin

text \<open>
  The mailboxes of \<^verbatim>\<open>src/ipc.c\<close>: a ring of machine words with a list of waiting receivers and a
  list of waiting senders.  A blocking call is a loop: \<open>mb_send_loop\<close> and \<open>mb_recv_loop\<close> are one round
  of it, from the test of the loop to the wait in \<open>rt_schedule\<close> or to the end of the call, and
  \<open>mb_send_resume\<close> and \<open>mb_recv_resume\<close> go on after the wait with the time that is left.
  \<open>mb_store\<close> and \<open>mb_fetch\<close> are the accesses to the ring.
\<close>

subsection \<open>Operations\<close>

definition is_mb :: "nat \<Rightarrow> kernel \<Rightarrow> bool" where
  "is_mb m k \<longleftrightarrow> rt_object_get_type (OMailBox m) k = RT_Object_Class_MailBox"

definition set_mb :: "nat \<Rightarrow> rt_mailbox \<Rightarrow> kernel \<Rightarrow> kernel" where
  "set_mb m b k = k\<lparr>mailboxes := (mailboxes k)(m := b)\<rparr>"

text \<open>\<^verbatim>\<open>pool\<close> is the memory the caller provides.\<close>

definition rt_mb_init :: "nat \<Rightarrow> u8 list \<Rightarrow> u64 list \<Rightarrow> u64 \<Rightarrow> u8 \<Rightarrow> kernel \<Rightarrow> (int \<times> kernel) option" where
  "rt_mb_init m name pool sz flag k = do {
     k \<leftarrow> rt_object_init (OMailBox m) RT_Object_Class_MailBox name k;
     let k = upd_obj (OMailBox m) (\<lambda>ob. ob\<lparr>obj_flag := flag\<rparr>) k;
     let k = rt_ipc_object_init (QMbRecv m) k;
     let k = set_mb m \<lparr>mb_pool = pool, mb_size = ucast sz, mb_entry = 0, in_offset = 0, out_offset = 0\<rparr> k;
     Some (RT_EOK, set_queue (QMbSend m) [] k)
   }"

definition rt_mb_detach :: "nat \<Rightarrow> kernel \<Rightarrow> (int \<times> kernel) option" where
  "rt_mb_detach m k = do {
     rt_assert (is_mb m k);
     rt_assert (rt_object_is_systemobject (OMailBox m) k);
     (_, k) \<leftarrow> rt_ipc_list_resume_all (QMbRecv m) k;
     (_, k) \<leftarrow> rt_ipc_list_resume_all (QMbSend m) k;
     Some (RT_EOK, rt_object_detach (OMailBox m) k)
   }"

text \<open>The heap is a parameter: the object and, of \<open>mb_size\<close> words, the pool it may provide.\<close>

definition rt_mb_create ::
  "nat option \<Rightarrow> (u16 \<Rightarrow> u64 list option) \<Rightarrow> u8 list \<Rightarrow> u64 \<Rightarrow> u8 \<Rightarrow> kernel \<Rightarrow> (nat option \<times> kernel) option" where
  "rt_mb_create malloc malloc_pool name sz flag k = do {
     rt_assert (\<not> in_interrupt k);
     (r, k) \<leftarrow> rt_object_allocate (map_option OMailBox malloc) RT_Object_Class_MailBox name k;
     case r of
       Some (OMailBox m) \<Rightarrow> do {
         let k = upd_obj (OMailBox m) (\<lambda>ob. ob\<lparr>obj_flag := flag\<rparr>) k;
         let k = rt_ipc_object_init (QMbRecv m) k;
         let k = set_mb m ((mailboxes k m)\<lparr>mb_size := ucast sz\<rparr>) k;
         case malloc_pool (mb_size (mailboxes k m)) of
           None \<Rightarrow> do {
             k \<leftarrow> rt_object_delete (OMailBox m) k;
             Some (None, k)
           }
         | Some pool \<Rightarrow> do {
             let k = set_mb m \<lparr>mb_pool = pool, mb_size = ucast sz, mb_entry = 0, in_offset = 0, out_offset = 0\<rparr> k;
             Some (Some m, set_queue (QMbSend m) [] k)
           }
       }
     | _ \<Rightarrow> Some (None, k)
   }"

definition rt_mb_delete :: "nat \<Rightarrow> kernel \<Rightarrow> (int \<times> kernel) option" where
  "rt_mb_delete m k = do {
     rt_assert (\<not> in_interrupt k);
     rt_assert (is_mb m k);
     rt_assert (\<not> rt_object_is_systemobject (OMailBox m) k);
     (_, k) \<leftarrow> rt_ipc_list_resume_all (QMbRecv m) k;
     (_, k) \<leftarrow> rt_ipc_list_resume_all (QMbSend m) k;
     k \<leftarrow> rt_object_delete (OMailBox m) k;
     Some (RT_EOK, k)
   }"

text \<open>Writing a word at the input offset and counting it; the second component tells whether the
  count is below its maximum.  The write is outside the pool when the offset is.\<close>

definition mb_store :: "u64 \<Rightarrow> rt_mailbox \<Rightarrow> (bool \<times> rt_mailbox) option" where
  "mb_store v b =
     (if unat (in_offset b) < length (mb_pool b)
      then let next = in_offset b + 1;
               b' = b\<lparr>mb_pool := (mb_pool b)[unat (in_offset b) := v],
                      in_offset := (if next \<ge> mb_size b then 0 else next)\<rparr>
           in if mb_entry b < RT_MB_ENTRY_MAX then Some (True, b'\<lparr>mb_entry := mb_entry b + 1\<rparr>) else Some (False, b')
      else None)"

definition mb_fetch :: "rt_mailbox \<Rightarrow> (u64 \<times> rt_mailbox) option" where
  "mb_fetch b =
     (if unat (out_offset b) < length (mb_pool b)
      then let next = out_offset b + 1
           in Some (mb_pool b ! unat (out_offset b),
                b\<lparr>mb_entry := mb_entry b - 1, out_offset := (if next \<ge> mb_size b then 0 else next)\<rparr>)
      else None)"

text \<open>Waking the first thread of a list, if there is one.\<close>

definition wake_first :: "qid \<Rightarrow> kernel \<Rightarrow> kernel option" where
  "wake_first q k =
     (if queues k q \<noteq> []
      then do { (_, k) \<leftarrow> rt_ipc_list_resume q k; rt_schedule k }
      else Some k)"

definition mb_send_loop ::
  "nat \<Rightarrow> u64 \<Rightarrow> 32 word \<Rightarrow> int \<Rightarrow> tid option \<Rightarrow> kernel \<Rightarrow> (int call \<times> kernel) option" where
  "mb_send_loop m v timeout suspend_flag self k =
     (if mb_entry (mailboxes k m) = mb_size (mailboxes k m)
      then do {
        t \<leftarrow> self;
        let k = upd_thread t (\<lambda>th. th\<lparr>error := - RT_EINTR\<rparr>) k;
        if timeout = 0 then Some (Returned (- RT_EFULL), k)
        else do {
          rt_assert (in_thread_context k);
          ipc_block (QMbSend m) t (obj_flag (objs k (OMailBox m))) suspend_flag timeout k
        }
      }
      else do {
        (counted, b) \<leftarrow> mb_store v (mailboxes k m);
        let k = set_mb m b k;
        if \<not> counted then Some (Returned (- RT_EFULL), k)
        else do { k \<leftarrow> wake_first (QMbRecv m) k; Some (Returned RT_EOK, k) }
      })"

definition mb_send_wait :: "nat \<Rightarrow> u64 \<Rightarrow> 32 word \<Rightarrow> int \<Rightarrow> kernel \<Rightarrow> (int call \<times> kernel) option" where
  "mb_send_wait m v timeout suspend_flag k = do {
     rt_assert (is_mb m k);
     if mb_entry (mailboxes k m) = mb_size (mailboxes k m) \<and> timeout = 0
     then Some (Returned (- RT_EFULL), k)
     else mb_send_loop m v timeout suspend_flag (rt_thread_self k) k
   }"

text \<open>The time that is left of \<open>timeout\<close> after a wait that began at the tick \<open>start\<close>: signed and
  unsigned 32-bit arithmetic, and never negative.\<close>

definition time_left :: "32 word \<Rightarrow> u32 \<Rightarrow> kernel \<Rightarrow> 32 word" where
  "time_left timeout start k =
     (if 0 < sint timeout
      then let rest = timeout - (tick k - start) in if sint rest < 0 then 0 else rest
      else timeout)"

definition mb_send_resume ::
  "nat \<Rightarrow> u64 \<Rightarrow> 32 word \<Rightarrow> u32 \<Rightarrow> int \<Rightarrow> tid \<Rightarrow> kernel \<Rightarrow> (int call \<times> kernel) option" where
  "mb_send_resume m v timeout start suspend_flag t k =
     (if error (threads k t) \<noteq> RT_EOK then Some (Returned (error (threads k t)), k)
      else mb_send_loop m v (time_left timeout start k) suspend_flag (Some t) k)"

definition rt_mb_send_wait :: "nat \<Rightarrow> u64 \<Rightarrow> 32 word \<Rightarrow> kernel \<Rightarrow> (int call \<times> kernel) option" where
  "rt_mb_send_wait m v timeout k = mb_send_wait m v timeout RT_UNINTERRUPTIBLE k"

definition rt_mb_send_wait_interruptible :: "nat \<Rightarrow> u64 \<Rightarrow> 32 word \<Rightarrow> kernel \<Rightarrow> (int call \<times> kernel) option" where
  "rt_mb_send_wait_interruptible m v timeout k = mb_send_wait m v timeout RT_INTERRUPTIBLE k"

definition rt_mb_send_wait_killable :: "nat \<Rightarrow> u64 \<Rightarrow> 32 word \<Rightarrow> kernel \<Rightarrow> (int call \<times> kernel) option" where
  "rt_mb_send_wait_killable m v timeout k = mb_send_wait m v timeout RT_KILLABLE k"

definition rt_mb_send :: "nat \<Rightarrow> u64 \<Rightarrow> kernel \<Rightarrow> (int call \<times> kernel) option" where
  "rt_mb_send m v k = rt_mb_send_wait m v 0 k"

definition rt_mb_send_interruptible :: "nat \<Rightarrow> u64 \<Rightarrow> kernel \<Rightarrow> (int call \<times> kernel) option" where
  "rt_mb_send_interruptible m v k = rt_mb_send_wait_interruptible m v 0 k"

definition rt_mb_send_killable :: "nat \<Rightarrow> u64 \<Rightarrow> kernel \<Rightarrow> (int call \<times> kernel) option" where
  "rt_mb_send_killable m v k = rt_mb_send_wait_killable m v 0 k"

text \<open>Receiving; a call that returns carries the word it stored through \<^verbatim>\<open>value\<close>.\<close>

definition mb_recv_loop ::
  "nat \<Rightarrow> 32 word \<Rightarrow> int \<Rightarrow> tid option \<Rightarrow> kernel \<Rightarrow> ((int \<times> u64 option) call \<times> kernel) option" where
  "mb_recv_loop m timeout suspend_flag self k =
     (if mb_entry (mailboxes k m) = 0
      then do {
        t \<leftarrow> self;
        let k = upd_thread t (\<lambda>th. th\<lparr>error := - RT_EINTR\<rparr>) k;
        if timeout = 0
        then Some (Returned (- RT_ETIMEOUT, None), upd_thread t (\<lambda>th. th\<lparr>error := - RT_ETIMEOUT\<rparr>) k)
        else do {
          rt_assert (in_thread_context k);
          (r, k) \<leftarrow> ipc_block (QMbRecv m) t (obj_flag (objs k (OMailBox m))) suspend_flag timeout k;
          Some (case r of Returned err \<Rightarrow> Returned (err, None) | Waiting \<Rightarrow> Waiting, k)
        }
      }
      else do {
        (v, b) \<leftarrow> mb_fetch (mailboxes k m);
        let k = set_mb m b k;
        k \<leftarrow> wake_first (QMbSend m) k;
        Some (Returned (RT_EOK, Some v), k)
      })"

definition mb_recv :: "nat \<Rightarrow> 32 word \<Rightarrow> int \<Rightarrow> kernel \<Rightarrow> ((int \<times> u64 option) call \<times> kernel) option" where
  "mb_recv m timeout suspend_flag k = do {
     rt_assert (is_mb m k);
     if mb_entry (mailboxes k m) = 0 \<and> timeout = 0
     then Some (Returned (- RT_ETIMEOUT, None), k)
     else mb_recv_loop m timeout suspend_flag (rt_thread_self k) k
   }"

definition mb_recv_resume ::
  "nat \<Rightarrow> 32 word \<Rightarrow> u32 \<Rightarrow> int \<Rightarrow> tid \<Rightarrow> kernel \<Rightarrow> ((int \<times> u64 option) call \<times> kernel) option" where
  "mb_recv_resume m timeout start suspend_flag t k =
     (if error (threads k t) \<noteq> RT_EOK then Some (Returned (error (threads k t), None), k)
      else mb_recv_loop m (time_left timeout start k) suspend_flag (Some t) k)"

definition rt_mb_recv :: "nat \<Rightarrow> 32 word \<Rightarrow> kernel \<Rightarrow> ((int \<times> u64 option) call \<times> kernel) option" where
  "rt_mb_recv m timeout k = mb_recv m timeout RT_UNINTERRUPTIBLE k"

definition rt_mb_recv_interruptibale :: "nat \<Rightarrow> 32 word \<Rightarrow> kernel \<Rightarrow> ((int \<times> u64 option) call \<times> kernel) option" where
  "rt_mb_recv_interruptibale m timeout k = mb_recv m timeout RT_INTERRUPTIBLE k"

definition rt_mb_recv_killable :: "nat \<Rightarrow> 32 word \<Rightarrow> kernel \<Rightarrow> ((int \<times> u64 option) call \<times> kernel) option" where
  "rt_mb_recv_killable m timeout k = mb_recv m timeout RT_KILLABLE k"

definition rt_mb_control :: "nat \<Rightarrow> int \<Rightarrow> kernel \<Rightarrow> (int \<times> kernel) option" where
  "rt_mb_control m cmd k = do {
     rt_assert (is_mb m k);
     if cmd = RT_IPC_CMD_RESET
     then do {
       (_, k) \<leftarrow> rt_ipc_list_resume_all (QMbRecv m) k;
       (_, k) \<leftarrow> rt_ipc_list_resume_all (QMbSend m) k;
       let k = set_mb m ((mailboxes k m)\<lparr>mb_entry := 0, in_offset := 0, out_offset := 0\<rparr>) k;
       k \<leftarrow> rt_schedule k;
       Some (RT_EOK, k)
     }
     else Some (- RT_ERROR, k)
   }"

subsection \<open>The ring of a mailbox\<close>

definition mb_ok :: "rt_mailbox \<Rightarrow> bool" where
  "mb_ok b \<longleftrightarrow> unat (mb_size b) \<le> length (mb_pool b) \<and> mb_entry b \<le> mb_size b \<and>
     (0 < mb_size b \<longrightarrow> out_offset b < mb_size b \<and>
        unat (in_offset b) = (unat (out_offset b) + unat (mb_entry b)) mod unat (mb_size b))"

definition mb_contents :: "rt_mailbox \<Rightarrow> u64 list" where
  "mb_contents b = map (\<lambda>i. mb_pool b ! ((unat (out_offset b) + i) mod unat (mb_size b))) [0..<unat (mb_entry b)]"

definition mb_capacity :: "rt_mailbox \<Rightarrow> nat" where
  "mb_capacity b = unat (mb_size b)"

lemma length_mb_contents [simp]: "length (mb_contents b) = unat (mb_entry b)"
  by (simp add: mb_contents_def)

lemma mb_contents_bounded: "mb_ok b \<Longrightarrow> length (mb_contents b) \<le> mb_capacity b"
  by (simp add: mb_ok_def mb_capacity_def word_le_nat_alt)

lemma mb_entry_iff:
  "mb_ok b \<Longrightarrow> mb_entry b = mb_size b \<longleftrightarrow> length (mb_contents b) = mb_capacity b"
  "mb_entry b = 0 \<longleftrightarrow> mb_contents b = []"
  by (simp_all add: mb_capacity_def word_unat_eq_iff mb_contents_def)

lemma unat_less_u16: "unat (w :: u16) < 65536"
proof -
  have "unat w < 2 ^ LENGTH(16)" by (rule unsigned_less)
  then show ?thesis by simp
qed

lemma ring_slots_differ:
  fixes i j n s :: nat
  assumes "i < n" and "n < s"
  shows "(j + i) mod s \<noteq> (j + n) mod s"
proof
  assume "(j + i) mod s = (j + n) mod s"
  then have "s dvd (j + n) - (j + i)" using assms mod_eq_dvd_iff_nat [of "j + i" "j + n" s] by simp
  then have "s dvd n - i" by simp
  then show False using assms nat_dvd_not_less [of "n - i" s] by simp
qed

lemma ring_next:
  fixes w s :: u16
  assumes "w < s"
  shows "unat (if w + 1 \<ge> s then 0 else w + 1) = (unat w + 1) mod unat s"
proof -
  have w: "unat w < unat s" using assms by (simp add: word_less_nat_alt)
  then have "unat w + 1 < 2 ^ 16" using unat_less_u16 [of s] by simp
  then have "unat (w + 1) = unat w + 1" by (simp add: unat_word_ariths)
  then show ?thesis using w by (auto simp: word_le_nat_alt mod_if)
qed

lemma mb_store_ok:
  assumes ok: "mb_ok b" and room: "length (mb_contents b) < mb_capacity b"
  shows "\<exists>b'. mb_store v b = Some (True, b') \<and> mb_ok b' \<and> mb_contents b' = mb_contents b @ [v] \<and>
    mb_capacity b' = mb_capacity b"
proof -
  let ?s = "unat (mb_size b)" and ?n = "unat (mb_entry b)" and ?o = "unat (out_offset b)"
  have n: "?n < ?s" using room by (simp add: mb_capacity_def)
  then have s: "0 < mb_size b" by (simp add: word_less_nat_alt)
  then have i: "unat (in_offset b) = (?o + ?n) mod ?s" "?o < ?s" "?s \<le> length (mb_pool b)"
    using ok by (simp_all add: mb_ok_def word_less_nat_alt)
  then have il: "unat (in_offset b) < ?s" using n by simp
  have e: "mb_entry b < RT_MB_ENTRY_MAX" using n unat_less_u16 [of "mb_size b"] by (simp add: rt_defs word_less_nat_alt)
  then have e1: "unat (mb_entry b + 1) = ?n + 1" by (simp add: rt_defs unat_word_ariths word_less_nat_alt)
  have nx: "unat (if in_offset b + 1 \<ge> mb_size b then 0 else in_offset b + 1) = (unat (in_offset b) + 1) mod ?s"
    by (rule ring_next) (use il in \<open>simp add: word_less_nat_alt\<close>)
  define b' where "b' = b\<lparr>mb_pool := (mb_pool b)[unat (in_offset b) := v],
      in_offset := (if in_offset b + 1 \<ge> mb_size b then 0 else in_offset b + 1), mb_entry := mb_entry b + 1\<rparr>"
  have st: "mb_store v b = Some (True, b')" using il i(3) e by (simp add: mb_store_def b'_def Let_def)
  have "mb_ok b'" using ok i il n nx e1 s
    by (simp add: mb_ok_def b'_def word_le_nat_alt word_less_nat_alt mod_simps)
  moreover have "mb_pool b' ! ((?o + j) mod ?s) = mb_pool b ! ((?o + j) mod ?s)" if "j < ?n" for j
  proof -
    have "(?o + j) mod ?s \<noteq> (?o + ?n) mod ?s"
      by (rule ring_slots_differ [OF that n])
    then show ?thesis using i(1) by (simp add: b'_def)
  qed
  moreover have "mb_pool b' ! ((?o + ?n) mod ?s) = v" using i(3) il unfolding i(1) [symmetric] by (simp add: b'_def)
  ultimately have "mb_ok b'" "mb_contents b' = mb_contents b @ [v]"
    using e1 by (auto simp: mb_contents_def b'_def)
  then show ?thesis using st by (simp add: b'_def mb_capacity_def)
qed

lemma mb_fetch_ok:
  assumes ok: "mb_ok b" and ne: "mb_contents b = v # vs"
  shows "\<exists>b'. mb_fetch b = Some (v, b') \<and> mb_ok b' \<and> mb_contents b' = vs \<and> mb_capacity b' = mb_capacity b"
proof -
  let ?s = "unat (mb_size b)" and ?n = "unat (mb_entry b)" and ?o = "unat (out_offset b)"
  have len: "?n = Suc (length vs)" using ne length_mb_contents [of b] by simp
  then have s: "0 < ?s" "?n \<le> ?s" using ok by (simp_all add: mb_ok_def word_le_nat_alt)
  then have o: "?o < ?s" "?s \<le> length (mb_pool b)" "unat (in_offset b) = (?o + ?n) mod ?s"
    using ok by (simp_all add: mb_ok_def word_less_nat_alt)
  have nx: "unat (if out_offset b + 1 \<ge> mb_size b then 0 else out_offset b + 1) = (?o + 1) mod ?s"
    by (rule ring_next) (use o in \<open>simp add: word_less_nat_alt\<close>)
  have e1: "unat (mb_entry b - 1) = length vs" using len by (simp add: unat_minus_one word_gt_0 unat_gt_0 [symmetric])
  define b' where "b' = b\<lparr>mb_entry := mb_entry b - 1,
      out_offset := (if out_offset b + 1 \<ge> mb_size b then 0 else out_offset b + 1)\<rparr>"
  have "v = mb_pool b ! ?o" using ne len o(1) by (simp add: mb_contents_def upt_rec)
  then have st: "mb_fetch b = Some (v, b')" using o by (simp add: mb_fetch_def b'_def Let_def)
  have "mb_ok b'" using ok o s nx e1 len
    by (simp add: mb_ok_def b'_def word_le_nat_alt word_less_nat_alt mod_simps)
  moreover have "mb_contents b' = vs"
  proof -
    have "vs = tl (mb_contents b)" using ne by simp
    also have "\<dots> = map (\<lambda>i. mb_pool b ! ((?o + Suc i) mod ?s)) [0..<length vs]"
      by (simp add: mb_contents_def len map_tl [symmetric] upt_conv_Cons map_Suc_upt [symmetric] del: upt_Suc)
    also have "\<dots> = mb_contents b'" using e1 nx by (simp add: mb_contents_def b'_def mod_simps)
    finally show ?thesis by simp
  qed
  ultimately show ?thesis using st by (simp add: b'_def mb_capacity_def)
qed

definition mb_put :: "u64 \<Rightarrow> rt_mailbox \<Rightarrow> rt_mailbox option" where
  "mb_put v b = map_option snd (mb_store v b)"

interpretation mbq: slot_queue mb_ok mb_contents mb_capacity mb_put mb_fetch "\<lambda>_ _. True" "(=)"
  using mb_store_ok mb_fetch_ok mb_contents_bounded by unfold_locales (fastforce simp: mb_put_def)+

subsection \<open>Waiting and waking\<close>

lemma set_mb_simps [simp]:
  "mailboxes (set_mb m b k) = (mailboxes k)(m := b)"
  "queues (set_mb m b k) = queues k" "threads (set_mb m b k) = threads k"
  "current_thread (set_mb m b k) = current_thread k" "objs (set_mb m b k) = objs k"
  "tick (set_mb m b k) = tick k" "interrupt_nest (set_mb m b k) = interrupt_nest k"
  "kernel_inv (set_mb m b k) = kernel_inv k" "is_mb m' (set_mb m b k) = is_mb m' k"
  "mailboxes (upd_thread t f k) = mailboxes k" "is_mb m (upd_thread t f k) = is_mb m k"
  "interrupt_nest (upd_thread t f k) = interrupt_nest k"
  by (simp_all add: set_mb_def is_mb_def rt_object_get_type_def) (simp_all add: upd_thread_def)

lemma is_mb_frame: "ipc_frame k k' \<Longrightarrow> is_mb m k' = is_mb m k"
  using ipc_frameD(13) by (simp add: is_mb_def)

lemma wake_first_ok:
  assumes inv: "kernel_inv k" and cur: "current_thread k \<noteq> None" and q: "wait_queue q"
  shows "\<exists>k'. wake_first q k = Some k' \<and> kernel_inv k' \<and> current_thread k' \<noteq> None \<and> ipc_frame k k' \<and>
    queues k' q = tl (queues k q) \<and> (\<forall>r. \<not> ready_queue r \<longrightarrow> r \<noteq> q \<longrightarrow> queues k' r = queues k r) \<and>
    (case queues k q of [] \<Rightarrow> k' = k | t # _ \<Rightarrow> handed t q k k')"
proof (cases "queues k q")
  case Nil
  then show ?thesis using inv cur by (simp add: wake_first_def)
next
  case (Cons t ts)
  from resume_schedule_ok [OF inv cur q Cons] obtain k1 k' where
    k': "rt_ipc_list_resume q k = Some (RT_EOK, k1)" "rt_schedule k1 = Some k'" "handed t q k k'" "queues k' q = ts"
    by blast
  then show ?thesis using Cons handedD [OF k'(3)] by (simp add: wake_first_def)
qed

text \<open>A round that ends in a wait.\<close>

lemma ipc_wait_ok:
  assumes inv: "kernel_inv k" and cur: "current_thread k = Some t" and st: "started (threads k t)"
    and f: "flag_ok f" and q: "wait_queue q" and time: "sint time < 2147483647"
  shows "\<exists>r k'. ipc_block q t flag f time (upd_thread t (\<lambda>th. th\<lparr>error := - RT_EINTR\<rparr>) k) = Some (r, k') \<and>
    kernel_inv k' \<and> current_thread k' \<noteq> None \<and> ipc_frame k k' \<and>
    (case r of Waiting \<Rightarrow> blocked t q flag time (upd_thread t (\<lambda>th. th\<lparr>error := - RT_EINTR\<rparr>) k) k'
     | Returned e \<Rightarrow> e \<in> {- RT_EINTR, - RT_ERROR} \<and> k' = upd_thread t (\<lambda>th. th\<lparr>error := - RT_EINTR\<rparr>) k \<and>
         \<not> (f = RT_UNINTERRUPTIBLE \<and> stat_class (threads k t) = RT_THREAD_RUNNING))"
proof -
  let ?k = "upd_thread t (\<lambda>th. th\<lparr>error := - RT_EINTR\<rparr>) k"
  have inv1: "kernel_inv ?k" by (rule kernel_inv_upd_other [OF inv]) simp_all
  have k1: "current_thread ?k = Some t" "started (threads ?k t)" "stat_class (threads ?k t) = stat_class (threads k t)"
    using cur st by (simp_all add: threads_upd_thread stat_class_def started_def)
  from ipc_block_ok [OF inv1 k1(1,2) f q time, of flag] obtain r k' where
    k': "ipc_block q t flag f time ?k = Some (r, k')"
      "case r of Waiting \<Rightarrow> blocked t q flag time ?k k'
       | Returned e \<Rightarrow> k' = ?k \<and> e \<in> {- RT_EINTR, - RT_ERROR} \<and>
           \<not> (f = RT_UNINTERRUPTIBLE \<and> stat_class (threads ?k t) = RT_THREAD_RUNNING)"
    by blast
  have "kernel_inv k' \<and> current_thread k' \<noteq> None \<and> ipc_frame ?k k'"
    using k'(2) inv1 k1(1) by (cases r) (auto simp: blocked_def)
  then have "kernel_inv k' \<and> current_thread k' \<noteq> None \<and> ipc_frame k k'"
    using ipc_frame_trans [OF ipc_frame_upd_thread] by blast
  then show ?thesis using k' k1(3) by (cases r) auto
qed

subsection \<open>Sending and receiving\<close>

definition mb_state :: "nat \<Rightarrow> kernel \<Rightarrow> bool" where
  "mb_state m k \<longleftrightarrow> kernel_inv k \<and> current_thread k \<noteq> None \<and> is_mb m k \<and> mb_ok (mailboxes k m)"

lemma mb_state_frame:
  "mb_state m k \<Longrightarrow> kernel_inv k' \<Longrightarrow> current_thread k' \<noteq> None \<Longrightarrow> ipc_frame k k' \<Longrightarrow> mb_state m k'"
  using is_mb_frame [of k k' m] ipc_frameD(4) [of k k'] by (simp add: mb_state_def)

definition mb_sent :: "nat \<Rightarrow> u64 \<Rightarrow> kernel \<Rightarrow> kernel \<Rightarrow> bool" where
  "mb_sent m v k k' \<longleftrightarrow> mb_put v (mailboxes k m) = Some (mailboxes k' m) \<and>
     mb_contents (mailboxes k' m) = mb_contents (mailboxes k m) @ [v] \<and>
     mb_capacity (mailboxes k' m) = mb_capacity (mailboxes k m) \<and>
     queues k' (QMbRecv m) = tl (queues k (QMbRecv m)) \<and> queues k' (QMbSend m) = queues k (QMbSend m) \<and>
     (\<forall>u us. queues k (QMbRecv m) = u # us \<longrightarrow> error (threads k' u) = RT_EOK \<and>
        stat_class (threads k' u) \<in> {RT_THREAD_READY, RT_THREAD_RUNNING})"

lemma mb_send_loop_ok:
  assumes st: "mb_state m k" and self: "self = current_thread k" and t: "current_thread k = Some t"
    and sta: "started (threads k t)" and f: "flag_ok f" and time: "sint timeout < 2147483647"
    and ctx: "mb_entry (mailboxes k m) = mb_size (mailboxes k m) \<Longrightarrow> timeout \<noteq> 0 \<Longrightarrow> interrupt_nest k = 0"
  shows "\<exists>r k'. mb_send_loop m v timeout f self k = Some (r, k') \<and> mb_state m k' \<and>
    (if length (mb_contents (mailboxes k m)) < mb_capacity (mailboxes k m)
     then r = Returned RT_EOK \<and> mb_sent m v k k'
     else mailboxes k' = mailboxes k \<and> r \<noteq> Returned RT_EOK \<and> (timeout = 0 \<longrightarrow> r = Returned (- RT_EFULL)) \<and>
       (timeout \<noteq> 0 \<and> f = RT_UNINTERRUPTIBLE \<and> stat_class (threads k t) = RT_THREAD_RUNNING \<longrightarrow>
          r = Waiting \<and> blocked t (QMbSend m) (obj_flag (objs k (OMailBox m))) timeout
            (upd_thread t (\<lambda>th. th\<lparr>error := - RT_EINTR\<rparr>) k) k'))"
proof (cases "length (mb_contents (mailboxes k m)) < mb_capacity (mailboxes k m)")
  case True
  have ok: "mb_ok (mailboxes k m)" using st by (simp add: mb_state_def)
  obtain b where b: "mb_store v (mailboxes k m) = Some (True, b)" "mb_ok b"
      "mb_contents b = mb_contents (mailboxes k m) @ [v]" "mb_capacity b = mb_capacity (mailboxes k m)"
    using mb_store_ok [OF ok True] by blast
  have "kernel_inv (set_mb m b k)" "current_thread (set_mb m b k) \<noteq> None" "wait_queue (QMbRecv m)"
    using st by (simp_all add: mb_state_def)
  from wake_first_ok [OF this] obtain k' where k': "wake_first (QMbRecv m) (set_mb m b k) = Some k'" "kernel_inv k'"
      "current_thread k' \<noteq> None" "ipc_frame (set_mb m b k) k'"
      "queues k' (QMbRecv m) = tl (queues (set_mb m b k) (QMbRecv m))"
      "\<forall>r. \<not> ready_queue r \<longrightarrow> r \<noteq> QMbRecv m \<longrightarrow> queues k' r = queues (set_mb m b k) r"
      "case queues (set_mb m b k) (QMbRecv m) of [] \<Rightarrow> k' = set_mb m b k | t # _ \<Rightarrow> handed t (QMbRecv m) (set_mb m b k) k'"
    by blast
  have "mb_entry (mailboxes k m) \<noteq> mb_size (mailboxes k m)" using mb_entry_iff(1) [OF ok] True by simp
  then have "mb_send_loop m v timeout f self k = Some (Returned RT_EOK, k')"
    using b(1) k'(1) by (simp add: mb_send_loop_def)
  moreover have mb: "mailboxes k' m = b" using ipc_frameD(4) [OF k'(4)] by simp
  moreover have "mb_state m k'"
    using st k'(2,3) is_mb_frame [OF k'(4)] b(2) mb by (simp add: mb_state_def)
  moreover have "error (threads k' u) = RT_EOK \<and> stat_class (threads k' u) \<in> {RT_THREAD_READY, RT_THREAD_RUNNING}"
    if "queues k (QMbRecv m) = u # us" for u us
    using k'(7) that handedD(7,8) [of u "QMbRecv m" "set_mb m b k" k'] by simp
  moreover have "queues k' (QMbSend m) = queues k (QMbSend m)" using k'(6) by simp
  ultimately show ?thesis using True b k'(5) by (simp add: mb_sent_def mb_put_def) blast
next
  case False
  have ok: "mb_ok (mailboxes k m)" and inv: "kernel_inv k" using st by (simp_all add: mb_state_def)
  have full: "mb_entry (mailboxes k m) = mb_size (mailboxes k m)"
    using False mb_entry_iff(1) [OF ok] mb_contents_bounded [OF ok] by simp
  let ?k = "upd_thread t (\<lambda>th. th\<lparr>error := - RT_EINTR\<rparr>) k"
  show ?thesis
  proof (cases "timeout = 0")
    case True
    have "mb_state m ?k" using st kernel_inv_upd_other [OF inv, of "\<lambda>th. th\<lparr>error := - RT_EINTR\<rparr>" t]
      by (simp add: mb_state_def)
    then show ?thesis using True False full self t by (simp add: mb_send_loop_def)
  next
    case tm: False
    have "wait_queue (QMbSend m)" by simp
    from ipc_wait_ok [OF inv t sta f this time, of "obj_flag (objs k (OMailBox m))"] obtain r k' where
      k': "ipc_block (QMbSend m) t (obj_flag (objs k (OMailBox m))) f timeout ?k = Some (r, k')"
        "kernel_inv k'" "current_thread k' \<noteq> None" "ipc_frame k k'"
        "case r of Waiting \<Rightarrow> blocked t (QMbSend m) (obj_flag (objs k (OMailBox m))) timeout ?k k'
         | Returned e \<Rightarrow> e \<in> {- RT_EINTR, - RT_ERROR} \<and> k' = ?k \<and>
             \<not> (f = RT_UNINTERRUPTIBLE \<and> stat_class (threads k t) = RT_THREAD_RUNNING)" by blast
    have "mb_send_loop m v timeout f self k = Some (r, k')"
      using full tm self t k'(1) ctx [OF full tm]
      by (simp add: mb_send_loop_def in_thread_context_def in_interrupt_def Let_def)
    then show ?thesis
      using False tm k'(5) ipc_frameD(4) [OF k'(4)] mb_state_frame [OF st k'(2-4)] errno_distinct [symmetric] by (cases r) auto
  qed
qed

definition mb_received :: "nat \<Rightarrow> u64 \<Rightarrow> kernel \<Rightarrow> kernel \<Rightarrow> bool" where
  "mb_received m v k k' \<longleftrightarrow> mb_fetch (mailboxes k m) = Some (v, mailboxes k' m) \<and>
     mb_contents (mailboxes k m) = v # mb_contents (mailboxes k' m) \<and>
     mb_capacity (mailboxes k' m) = mb_capacity (mailboxes k m) \<and>
     queues k' (QMbSend m) = tl (queues k (QMbSend m)) \<and> queues k' (QMbRecv m) = queues k (QMbRecv m) \<and>
     (\<forall>u us. queues k (QMbSend m) = u # us \<longrightarrow> error (threads k' u) = RT_EOK \<and>
        stat_class (threads k' u) \<in> {RT_THREAD_READY, RT_THREAD_RUNNING})"

lemma mb_recv_loop_ok:
  assumes st: "mb_state m k" and self: "self = current_thread k" and t: "current_thread k = Some t"
    and sta: "started (threads k t)" and f: "flag_ok f" and time: "sint timeout < 2147483647"
    and ctx: "mb_entry (mailboxes k m) = 0 \<Longrightarrow> timeout \<noteq> 0 \<Longrightarrow> interrupt_nest k = 0"
  shows "\<exists>r k'. mb_recv_loop m timeout f self k = Some (r, k') \<and> mb_state m k' \<and>
    (if mb_contents (mailboxes k m) \<noteq> []
     then \<exists>v. r = Returned (RT_EOK, Some v) \<and> mb_received m v k k'
     else mailboxes k' = mailboxes k \<and> (\<forall>v. r \<noteq> Returned (RT_EOK, v)) \<and>
       (timeout = 0 \<longrightarrow> r = Returned (- RT_ETIMEOUT, None)) \<and>
       (timeout \<noteq> 0 \<and> f = RT_UNINTERRUPTIBLE \<and> stat_class (threads k t) = RT_THREAD_RUNNING \<longrightarrow>
          r = Waiting \<and> blocked t (QMbRecv m) (obj_flag (objs k (OMailBox m))) timeout
            (upd_thread t (\<lambda>th. th\<lparr>error := - RT_EINTR\<rparr>) k) k'))"
proof (cases "mb_contents (mailboxes k m)")
  case (Cons v vs)
  have ok: "mb_ok (mailboxes k m)" using st by (simp add: mb_state_def)
  obtain b where b: "mb_fetch (mailboxes k m) = Some (v, b)" "mb_ok b" "mb_contents b = vs"
      "mb_capacity b = mb_capacity (mailboxes k m)"
    using mb_fetch_ok [OF ok Cons] by blast
  have "kernel_inv (set_mb m b k)" "current_thread (set_mb m b k) \<noteq> None" "wait_queue (QMbSend m)"
    using st by (simp_all add: mb_state_def)
  from wake_first_ok [OF this] obtain k' where k': "wake_first (QMbSend m) (set_mb m b k) = Some k'" "kernel_inv k'"
      "current_thread k' \<noteq> None" "ipc_frame (set_mb m b k) k'"
      "queues k' (QMbSend m) = tl (queues (set_mb m b k) (QMbSend m))"
      "\<forall>r. \<not> ready_queue r \<longrightarrow> r \<noteq> QMbSend m \<longrightarrow> queues k' r = queues (set_mb m b k) r"
      "case queues (set_mb m b k) (QMbSend m) of [] \<Rightarrow> k' = set_mb m b k | t # _ \<Rightarrow> handed t (QMbSend m) (set_mb m b k) k'"
    by blast
  have "mb_entry (mailboxes k m) \<noteq> 0" using mb_entry_iff(2) [of "mailboxes k m"] Cons by simp
  then have "mb_recv_loop m timeout f self k = Some (Returned (RT_EOK, Some v), k')"
    using b(1) k'(1) by (simp add: mb_recv_loop_def)
  moreover have mb: "mailboxes k' m = b" using ipc_frameD(4) [OF k'(4)] by simp
  moreover have "mb_state m k'"
    using st k'(2,3) is_mb_frame [OF k'(4)] b(2) mb by (simp add: mb_state_def)
  moreover have "error (threads k' u) = RT_EOK \<and> stat_class (threads k' u) \<in> {RT_THREAD_READY, RT_THREAD_RUNNING}"
    if "queues k (QMbSend m) = u # us" for u us
    using k'(7) that handedD(7,8) [of u "QMbSend m" "set_mb m b k" k'] by simp
  moreover have "queues k' (QMbRecv m) = queues k (QMbRecv m)" using k'(6) by simp
  ultimately show ?thesis using Cons b k'(5) by (simp add: mb_received_def) blast
next
  case Nil
  have inv: "kernel_inv k" using st by (simp add: mb_state_def)
  have empty: "mb_entry (mailboxes k m) = 0" using Nil mb_entry_iff(2) by blast
  let ?k = "upd_thread t (\<lambda>th. th\<lparr>error := - RT_EINTR\<rparr>) k"
  show ?thesis
  proof (cases "timeout = 0")
    case True
    have "kernel_inv (upd_thread t (\<lambda>th. th\<lparr>error := - RT_ETIMEOUT\<rparr>) ?k)"
      by (rule kernel_inv_upd_other [OF kernel_inv_upd_other [OF inv]]) simp_all
    then have "mb_state m (upd_thread t (\<lambda>th. th\<lparr>error := - RT_ETIMEOUT\<rparr>) ?k)"
      using st by (simp add: mb_state_def)
    then show ?thesis using True Nil empty self t by (simp add: mb_recv_loop_def Let_def)
  next
    case tm: False
    have "wait_queue (QMbRecv m)" by simp
    from ipc_wait_ok [OF inv t sta f this time, of "obj_flag (objs k (OMailBox m))"] obtain r k' where
      k': "ipc_block (QMbRecv m) t (obj_flag (objs k (OMailBox m))) f timeout ?k = Some (r, k')"
        "kernel_inv k'" "current_thread k' \<noteq> None" "ipc_frame k k'"
        "case r of Waiting \<Rightarrow> blocked t (QMbRecv m) (obj_flag (objs k (OMailBox m))) timeout ?k k'
         | Returned e \<Rightarrow> e \<in> {- RT_EINTR, - RT_ERROR} \<and> k' = ?k \<and>
             \<not> (f = RT_UNINTERRUPTIBLE \<and> stat_class (threads k t) = RT_THREAD_RUNNING)" by blast
    have "mb_recv_loop m timeout f self k =
        Some (case r of Returned err \<Rightarrow> Returned (err, None) | Waiting \<Rightarrow> Waiting, k')"
      using empty tm self t k'(1) ctx [OF empty tm]
      by (simp add: mb_recv_loop_def in_thread_context_def in_interrupt_def Let_def)
    then show ?thesis
      using Nil tm k'(5) ipc_frameD(4) [OF k'(4)] mb_state_frame [OF st k'(2-4)] errno_distinct [symmetric] by (cases r) auto
  qed
qed

subsection \<open>Histories\<close>

text \<open>The life of a mailbox: calls of the two operations by the current thread or by an interrupt, the
  continuations of calls that have waited, and timeouts, with the words sent and the words received by
  the calls that returned \<open>RT_EOK\<close>.\<close>

inductive mb_trace :: "nat \<Rightarrow> kernel \<Rightarrow> u64 list \<Rightarrow> u64 list \<Rightarrow> kernel \<Rightarrow> bool" for m :: nat and k0 :: kernel where
  start: "mb_trace m k0 [] [] k0"
| sent: "mb_trace m k0 i out k \<Longrightarrow> current_thread k = Some t \<Longrightarrow> started (threads k t) \<Longrightarrow> flag_ok f \<Longrightarrow>
    sint timeout < 2147483647 \<Longrightarrow> mb_send_wait m v timeout f k = Some (r, k') \<Longrightarrow>
    mb_trace m k0 (if r = Returned RT_EOK then i @ [v] else i) out k'"
| send_resumed: "mb_trace m k0 i out k \<Longrightarrow> current_thread k = Some t \<Longrightarrow> started (threads k t) \<Longrightarrow> flag_ok f \<Longrightarrow>
    sint (time_left timeout start k) < 2147483647 \<Longrightarrow> mb_send_resume m v timeout start f t k = Some (r, k') \<Longrightarrow>
    mb_trace m k0 (if r = Returned RT_EOK then i @ [v] else i) out k'"
| received: "mb_trace m k0 i out k \<Longrightarrow> current_thread k = Some t \<Longrightarrow> started (threads k t) \<Longrightarrow> flag_ok f \<Longrightarrow>
    sint timeout < 2147483647 \<Longrightarrow> mb_recv m timeout f k = Some (r, k') \<Longrightarrow>
    mb_trace m k0 i (case r of Returned (e, Some v) \<Rightarrow> out @ [v] | _ \<Rightarrow> out) k'"
| recv_resumed: "mb_trace m k0 i out k \<Longrightarrow> current_thread k = Some t \<Longrightarrow> started (threads k t) \<Longrightarrow> flag_ok f \<Longrightarrow>
    sint (time_left timeout start k) < 2147483647 \<Longrightarrow> mb_recv_resume m timeout start f t k = Some (r, k') \<Longrightarrow>
    mb_trace m k0 i (case r of Returned (e, Some v) \<Rightarrow> out @ [v] | _ \<Rightarrow> out) k'"
| timed_out: "mb_trace m k0 i out k \<Longrightarrow> ThreadTimer t \<in> set (timer_lists k LHard) \<Longrightarrow>
    timer_lists k LTmpHard = [] \<Longrightarrow> timer_fire call (ThreadTimer t) k = Some k' \<Longrightarrow> mb_trace m k0 i out k'"

text \<open>One round of a loop is a step of a history of the ring, or leaves the ring alone.\<close>

lemma mb_send_loop_history:
  assumes "mbq.history b0 i out (mailboxes k m)" and "mb_state m k" "current_thread k = Some t" "started (threads k t)"
    "flag_ok f" "sint timeout < 2147483647" and run: "mb_send_loop m v timeout f (Some t) k = Some (r, k')"
  shows "mb_state m k' \<and> mbq.history b0 (if r = Returned RT_EOK then i @ [v] else i) out (mailboxes k' m)"
proof -
  have "interrupt_nest k = 0" if "mb_entry (mailboxes k m) = mb_size (mailboxes k m)" "timeout \<noteq> 0"
    using run that by (simp add: mb_send_loop_def in_thread_context_def in_interrupt_def Let_def split: if_splits)
  from mb_send_loop_ok [OF assms(2) _ assms(3-6) this, of "Some t" v] run assms(3)
  have *: "mb_state m k'"
      "if length (mb_contents (mailboxes k m)) < mb_capacity (mailboxes k m)
       then r = Returned RT_EOK \<and> mb_sent m v k k' else mailboxes k' = mailboxes k \<and> r \<noteq> Returned RT_EOK"
    by (auto split: if_splits)
  show ?thesis
  proof (cases "length (mb_contents (mailboxes k m)) < mb_capacity (mailboxes k m)")
    case True
    then have "r = Returned RT_EOK" "mb_put v (mailboxes k m) = Some (mailboxes k' m)"
      using *(2) by (simp_all add: mb_sent_def)
    then show ?thesis using *(1) mbq.history.put [OF assms(1) True] by simp
  next
    case False
    then show ?thesis using * assms(1) by simp
  qed
qed

lemma mb_recv_loop_history:
  assumes "mbq.history b0 i out (mailboxes k m)" and "mb_state m k" "current_thread k = Some t" "started (threads k t)"
    "flag_ok f" "sint timeout < 2147483647" and run: "mb_recv_loop m timeout f (Some t) k = Some (r, k')"
  shows "mb_state m k' \<and>
    mbq.history b0 i (case r of Returned (e, Some v) \<Rightarrow> out @ [v] | _ \<Rightarrow> out) (mailboxes k' m)"
proof -
  have "interrupt_nest k = 0" if "mb_entry (mailboxes k m) = 0" "timeout \<noteq> 0"
    using run that by (simp add: mb_recv_loop_def in_thread_context_def in_interrupt_def Let_def split: if_splits)
  from mb_recv_loop_ok [OF assms(2) _ assms(3-6) this, of "Some t"] run assms(3)
  have *: "mb_state m k'"
      "if mb_contents (mailboxes k m) \<noteq> [] then \<exists>v. r = Returned (RT_EOK, Some v) \<and> mb_received m v k k'
       else mailboxes k' = mailboxes k"
    by (auto split: if_splits)
  show ?thesis
  proof (cases "mb_contents (mailboxes k m) = []")
    case False
    then obtain v where "r = Returned (RT_EOK, Some v)" "mb_fetch (mailboxes k m) = Some (v, mailboxes k' m)"
      using *(2) by (auto simp: mb_received_def)
    then show ?thesis using *(1) mbq.history.get [OF assms(1) False] by simp
  next
    case True
    have "r \<noteq> Returned (e, Some v)" for e v
      using run True mb_entry_iff(2) [of "mailboxes k m"]
      by (auto simp: mb_recv_loop_def Let_def split: if_splits call.splits option.splits bind_splits)
    then show ?thesis using True * assms(1) by (auto split: call.splits option.splits)
  qed
qed

lemma mb_trace_history:
  assumes "mb_trace m k0 i out k" and "mb_state m k0"
  shows "mb_state m k \<and> mbq.history (mailboxes k0 m) i out (mailboxes k m)"
  using assms
proof (induction rule: mb_trace.induct)
  case start
  then show ?case by (simp add: mbq.history.start)
next
  case (sent i out k t f timeout v r k')
  show ?case
  proof (cases "mb_entry (mailboxes k m) = mb_size (mailboxes k m) \<and> timeout = 0")
    case True
    then have "r = Returned (- RT_EFULL)" "k' = k" using sent.hyps(6) by (auto simp: mb_send_wait_def split: if_splits)
    then show ?thesis using sent.IH sent.prems by simp
  next
    case False
    then have "mb_send_loop m v timeout f (Some t) k = Some (r, k')"
      using sent.hyps(2,6) by (auto simp: mb_send_wait_def rt_thread_self_def split: if_splits)
    then show ?thesis using mb_send_loop_history [OF _ _ sent.hyps(2-5)] sent.IH sent.prems by blast
  qed
next
  case (send_resumed i out k t f timeout start v r k')
  show ?case
  proof (cases "error (threads k t) = RT_EOK")
    case True
    then show ?thesis
      using mb_send_loop_history [OF _ _ send_resumed.hyps(2-5)] send_resumed.hyps(6) send_resumed.IH send_resumed.prems
      by (auto simp: mb_send_resume_def)
  next
    case False
    then show ?thesis using send_resumed.hyps(6) send_resumed.IH send_resumed.prems
      by (auto simp: mb_send_resume_def)
  qed
next
  case (received i out k t f timeout r k')
  show ?case
  proof (cases "mb_entry (mailboxes k m) = 0 \<and> timeout = 0")
    case True
    then have "r = Returned (- RT_ETIMEOUT, None)" "k' = k" using received.hyps(6) by (auto simp: mb_recv_def split: if_splits)
    then show ?thesis using received.IH received.prems by simp
  next
    case False
    then have "mb_recv_loop m timeout f (Some t) k = Some (r, k')"
      using received.hyps(2,6) by (auto simp: mb_recv_def rt_thread_self_def split: if_splits)
    then show ?thesis using mb_recv_loop_history [OF _ _ received.hyps(2-5)] received.IH received.prems by blast
  qed
next
  case (recv_resumed i out k t f timeout start r k')
  show ?case
  proof (cases "error (threads k t) = RT_EOK")
    case True
    then have "mb_recv_loop m (time_left timeout start k) f (Some t) k = Some (r, k')"
      using recv_resumed.hyps(6) by (simp add: mb_recv_resume_def)
    then show ?thesis
      using mb_recv_loop_history [OF _ _ recv_resumed.hyps(2-5)] recv_resumed.IH recv_resumed.prems by blast
  next
    case False
    then show ?thesis using recv_resumed.hyps(6) recv_resumed.IH recv_resumed.prems
      by (auto simp: mb_recv_resume_def)
  qed
next
  case (timed_out i out k t call k')
  then have st: "mb_state m k" and inv: "kernel_inv k" "current_thread k \<noteq> None" by (simp_all add: mb_state_def)
  from timer_fire_thread [OF inv(1) timed_out.hyps(2,3) inv(2), of call] timed_out.hyps(4)
  have k': "kernel_inv k'" "current_thread k' \<noteq> None" "ipc_frame k k'" by auto
  then show ?case using mb_state_frame [OF st k'] timed_out ipc_frameD(4) [OF k'(3)] by simp
qed

subsection \<open>A sample state\<close>

text \<open>A mailbox of two words that holds one, with thread 3 waiting to receive (the state in which it
  has been overtaken).\<close>

definition sample_mb :: kernel where
  "sample_mb = set_mb 0 \<lparr>mb_pool = [7, 0], mb_size = 2, mb_entry = 1, in_offset = 1, out_offset = 0\<rparr>
     (sample_wait (QMbRecv 0))"

lemma sample_mb_facts:
  "mb_state 0 sample_mb" "current_thread sample_mb = Some 1" "started (threads sample_mb 1)"
  "stat_class (threads sample_mb 1) = RT_THREAD_RUNNING" "interrupt_nest sample_mb = 0"
  "mb_contents (mailboxes sample_mb 0) = [7]" "mb_capacity (mailboxes sample_mb 0) = 2"
  "queues sample_mb (QMbRecv 0) = [3]"
proof -
  have "kernel_inv sample_mb" using sample_wait_inv [of "QMbRecv 0"] by (simp add: sample_mb_def)
  then show "mb_state 0 sample_mb"
    by (simp add: mb_state_def mb_ok_def is_mb_def rt_object_get_type_def sample_mb_def sample_wait_def
        sample_waiting_defs rt_defs)
qed (simp_all add: sample_mb_def mb_contents_def mb_capacity_def sample_wait_def sample_waiting_defs started_def
      stat_class_def rt_defs)

subsection \<open>Properties\<close>

text \<open>C7: A mailbox delivers every word exactly once and in order.  Over any history of sends and
  receives by any threads or interrupts, of calls that wait and go on (with the remaining time, as
  often as they are overtaken) and of timeouts, the words in the mailbox at the start followed by the
  words of the sends that returned \<open>RT_EOK\<close> are the words received followed by the words still in the
  mailbox; the number stored stays within the size, and the kernel's invariant holds.\<close>

theorem mailbox_fifo_history:
  assumes "mb_trace m k0 sent recvd k" and "kernel_inv k0" and "current_thread k0 \<noteq> None" and "is_mb m k0"
    and "mb_ok (mailboxes k0 m)"
  shows "mb_contents (mailboxes k0 m) @ sent = recvd @ mb_contents (mailboxes k m)
    \<and> length (mb_contents (mailboxes k m)) \<le> mb_capacity (mailboxes k0 m) \<and> kernel_inv k"
proof -
  have "mb_state m k0" using assms(2-5) by (simp add: mb_state_def)
  from mb_trace_history [OF assms(1) this] have "mb_state m k" "mbq.history (mailboxes k0 m) sent recvd (mailboxes k m)"
    by blast+
  then show ?thesis using mbq.history_inv(2,4) [OF _ assms(5)] by (auto simp: mb_state_def list.rel_eq)
qed

theorem mailbox_fifo_history_witness:
  "\<exists>k. mb_trace 0 sample_mb [9] [7] k \<and> mb_contents (mailboxes k 0) = [9]"
proof -
  let ?k1 = "snd (the (mb_send_wait 0 9 0 RT_UNINTERRUPTIBLE sample_mb))"
  let ?k2 = "snd (the (mb_recv 0 0 RT_UNINTERRUPTIBLE ?k1))"
  have r1: "map_option fst (mb_send_wait 0 9 0 RT_UNINTERRUPTIBLE sample_mb) = Some (Returned 0)"
    and r2: "map_option fst (mb_recv 0 0 RT_UNINTERRUPTIBLE ?k1) = Some (Returned (0, Some 7))"
    and c: "current_thread ?k1 = Some 2" "stat (threads ?k1 2) = 3"
    by code_simp+
  have s1: "mb_send_wait 0 9 0 RT_UNINTERRUPTIBLE sample_mb = Some (Returned RT_EOK, ?k1)"
    using r1 by (auto simp: rt_defs)
  have s2: "mb_recv 0 0 RT_UNINTERRUPTIBLE ?k1 = Some (Returned (RT_EOK, Some 7), ?k2)"
    using r2 by (auto simp: rt_defs)
  have f: "flag_ok RT_UNINTERRUPTIBLE" "sint (0 :: 32 word) < 2147483647" "started (threads ?k1 2)"
    using c(2) by (simp_all add: flag_ok_def started_def stat_class_def rt_defs)
  have t1: "mb_trace 0 sample_mb [9] [] ?k1"
    using mb_trace.sent [OF mb_trace.start sample_mb_facts(2,3) f(1,2) s1] by simp
  have t2: "mb_trace 0 sample_mb [9] [7] ?k2"
    using mb_trace.received [OF t1 c(1) f(3) f(1,2) s2] by simp
  moreover have "kernel_inv sample_mb" "current_thread sample_mb \<noteq> None" "is_mb 0 sample_mb" "mb_ok (mailboxes sample_mb 0)"
    using sample_mb_facts(1) by (simp_all add: mb_state_def)
  from mailbox_fifo_history [OF t2 this] sample_mb_facts(6) have "mb_contents (mailboxes ?k2 0) = [9]" by simp
  ultimately show ?thesis by blast
qed

text \<open>Sending to a mailbox.  With a free slot the word becomes the newest one and the first waiting
  receiver is made runnable with the result \<open>RT_EOK\<close>; without one, a call that may not wait fails with
  \<open>-RT_EFULL\<close> and changes nothing, and the call of a running thread that may wait suspends it in the
  list of senders at the place its priority or its arrival gives it.\<close>

lemma mailbox_send_spec:
  assumes "kernel_inv k" and "current_thread k = Some t" and "stat_class (threads k t) = RT_THREAD_RUNNING"
    and "interrupt_nest k = 0" and "is_mb m k" and "mb_ok (mailboxes k m)" and "sint timeout < 2147483647"
  shows "\<exists>r k'. rt_mb_send_wait m v timeout k = Some (r, k') \<and> kernel_inv k' \<and> mb_ok (mailboxes k' m) \<and>
    (if length (mb_contents (mailboxes k m)) < mb_capacity (mailboxes k m)
     then r = Returned RT_EOK \<and> mb_contents (mailboxes k' m) = mb_contents (mailboxes k m) @ [v] \<and>
       queues k' (QMbRecv m) = tl (queues k (QMbRecv m)) \<and>
       (\<forall>u us. queues k (QMbRecv m) = u # us \<longrightarrow> error (threads k' u) = RT_EOK \<and>
          stat_class (threads k' u) \<in> {RT_THREAD_READY, RT_THREAD_RUNNING})
     else if timeout = 0 then r = Returned (- RT_EFULL) \<and> k' = k
     else r = Waiting \<and> mailboxes k' = mailboxes k \<and> suspended (threads k' t) \<and>
       queues k' (QMbSend m) = wait_insert (obj_flag (objs k (OMailBox m)))
         (\<lambda>s. current_priority (threads k s)) t (queues k (QMbSend m)))"
proof (cases "mb_entry (mailboxes k m) = mb_size (mailboxes k m) \<and> timeout = 0")
  case True
  moreover have "\<not> length (mb_contents (mailboxes k m)) < mb_capacity (mailboxes k m)"
    using True mb_entry_iff(1) [OF assms(6)] by simp
  ultimately show ?thesis using assms by (simp add: rt_mb_send_wait_def mb_send_wait_def)
next
  case False
  let ?k = "upd_thread t (\<lambda>th. th\<lparr>error := - RT_EINTR\<rparr>) k"
  have st: "mb_state m k" using assms by (simp add: mb_state_def)
  have "started (threads k t)" "flag_ok RT_UNINTERRUPTIBLE"
    using assms(3) by (auto simp: started_cases flag_ok_def)
  from mb_send_loop_ok [OF st refl assms(2) this assms(7) assms(4), of v] obtain r k' where
    k': "mb_send_loop m v timeout RT_UNINTERRUPTIBLE (current_thread k) k = Some (r, k')" "mb_state m k'"
      "if length (mb_contents (mailboxes k m)) < mb_capacity (mailboxes k m)
       then r = Returned RT_EOK \<and> mb_sent m v k k'
       else mailboxes k' = mailboxes k \<and> r \<noteq> Returned RT_EOK \<and> (timeout = 0 \<longrightarrow> r = Returned (- RT_EFULL)) \<and>
         (timeout \<noteq> 0 \<and> RT_UNINTERRUPTIBLE = RT_UNINTERRUPTIBLE \<and> stat_class (threads k t) = RT_THREAD_RUNNING \<longrightarrow>
            r = Waiting \<and> blocked t (QMbSend m) (obj_flag (objs k (OMailBox m))) timeout ?k k')" by blast
  have run: "rt_mb_send_wait m v timeout k = Some (r, k')"
    using False k'(1) assms(5) by (auto simp: rt_mb_send_wait_def mb_send_wait_def rt_thread_self_def)
  have ok: "kernel_inv k'" "mb_ok (mailboxes k' m)" using k'(2) by (simp_all add: mb_state_def)
  show ?thesis
  proof (cases "length (mb_contents (mailboxes k m)) < mb_capacity (mailboxes k m)")
    case True
    then have "r = Returned RT_EOK" "mb_sent m v k k'" using k'(3) by simp_all
    then show ?thesis using True run ok unfolding mb_sent_def by auto
  next
    case nr: False
    then have tm: "timeout \<noteq> 0"
      using False mb_entry_iff(1) [OF assms(6)] mb_contents_bounded [OF assms(6)] by auto
    then have b: "r = Waiting" "blocked t (QMbSend m) (obj_flag (objs k (OMailBox m))) timeout ?k k'"
        "mailboxes k' = mailboxes k"
      using k'(3) nr assms(3) by simp_all
    have "(\<lambda>s. current_priority (threads ?k s)) = (\<lambda>s. current_priority (threads k s))"
      by (auto simp: threads_upd_thread)
    then have "queues k' (QMbSend m) = wait_insert (obj_flag (objs k (OMailBox m)))
         (\<lambda>s. current_priority (threads k s)) t (queues k (QMbSend m))" "suspended (threads k' t)"
      using b(2) by (simp_all add: blocked_def)
    then show ?thesis using nr tm b(1,3) run ok by simp
  qed
qed

end
