(* ===== verification/Mq.thy ===== *)
theory Mq
  imports Mailbox
begin

text \<open>
  The message queues of \<^verbatim>\<open>src/ipc.c\<close>: a pool of nodes of equal size, a chain of free nodes and a
  chain of messages with head and tail, threaded through the nodes by index.  Sending and receiving
  copy the message with interrupts enabled, between an atomic step that takes the node (\<open>mq_alloc\<close>,
  \<open>mq_unlink\<close>) and one that gives it to the other chain (\<open>mq_link\<close>, \<open>mq_push_free\<close>); the operations are
  composed of these steps, and the steps of several callers may interleave.  A sent message of fewer
  than \<open>msg_size\<close> bytes leaves the rest of the node as it was.
\<close>

subsection \<open>The steps on the chains\<close>

definition set_next :: "nat \<Rightarrow> nat option \<Rightarrow> rt_messagequeue \<Rightarrow> rt_messagequeue option" where
  "set_next n p mq =
     (if n < length (msg_pool mq)
      then Some (mq\<lparr>msg_pool := (msg_pool mq)[n := (msg_pool mq ! n)\<lparr>msg_next := p\<rparr>]\<rparr>)
      else None)"

definition get_next :: "nat \<Rightarrow> rt_messagequeue \<Rightarrow> nat option option" where
  "get_next n mq = (if n < length (msg_pool mq) then Some (msg_next (msg_pool mq ! n)) else None)"

text \<open>Putting a node in front of the free chain; taking the first free node.\<close>

definition mq_push_free :: "nat \<Rightarrow> rt_messagequeue \<Rightarrow> rt_messagequeue option" where
  "mq_push_free n mq = do {
     mq \<leftarrow> set_next n (msg_queue_free mq) mq;
     Some (mq\<lparr>msg_queue_free := Some n\<rparr>)
   }"

definition mq_alloc :: "nat \<Rightarrow> rt_messagequeue \<Rightarrow> rt_messagequeue option" where
  "mq_alloc msg mq = do {
     next \<leftarrow> get_next msg mq;
     Some (mq\<lparr>msg_queue_free := next\<rparr>)
   }"

text \<open>\<^verbatim>\<open>rt_memcpy(msg + 1, buffer, size)\<close>.\<close>

definition mq_write :: "nat \<Rightarrow> u8 list \<Rightarrow> rt_messagequeue \<Rightarrow> rt_messagequeue option" where
  "mq_write msg buf mq =
     (if msg < length (msg_pool mq) \<and> length buf \<le> length (msg_data (msg_pool mq ! msg))
      then Some (mq\<lparr>msg_pool := (msg_pool mq)[msg := (msg_pool mq ! msg)
             \<lparr>msg_data := buf @ drop (length buf) (msg_data (msg_pool mq ! msg))\<rparr>]\<rparr>)
      else None)"

text \<open>Counting a message; whether the count is below its maximum.\<close>

definition mq_count :: "rt_messagequeue \<Rightarrow> bool \<times> rt_messagequeue" where
  "mq_count mq =
     (if mq_entry mq < RT_MQ_ENTRY_MAX then (True, mq\<lparr>mq_entry := mq_entry mq + 1\<rparr>) else (False, mq))"

text \<open>Linking a message at the end, and in front for an urgent one.\<close>

definition mq_link :: "nat \<Rightarrow> rt_messagequeue \<Rightarrow> (bool \<times> rt_messagequeue) option" where
  "mq_link msg mq = do {
     mq \<leftarrow> (case msg_queue_tail mq of Some tail \<Rightarrow> set_next tail (Some msg) mq | None \<Rightarrow> Some mq);
     let mq = mq\<lparr>msg_queue_tail := Some msg\<rparr>;
     let mq = (if msg_queue_head mq = None then mq\<lparr>msg_queue_head := Some msg\<rparr> else mq);
     Some (mq_count mq)
   }"

definition mq_link_urgent :: "nat \<Rightarrow> rt_messagequeue \<Rightarrow> (bool \<times> rt_messagequeue) option" where
  "mq_link_urgent msg mq = do {
     mq \<leftarrow> set_next msg (msg_queue_head mq) mq;
     let mq = mq\<lparr>msg_queue_head := Some msg\<rparr>;
     let mq = (if msg_queue_tail mq = None then mq\<lparr>msg_queue_tail := Some msg\<rparr> else mq);
     Some (mq_count mq)
   }"

text \<open>Taking the first message out of the chain.\<close>

definition mq_unlink_head :: "rt_messagequeue \<Rightarrow> (nat \<times> rt_messagequeue) option" where
  "mq_unlink_head mq = do {
     msg \<leftarrow> msg_queue_head mq;
     next \<leftarrow> get_next msg mq;
     let mq = mq\<lparr>msg_queue_head := next\<rparr>;
     Some (msg, if msg_queue_tail mq = Some msg then mq\<lparr>msg_queue_tail := None\<rparr> else mq)
   }"

definition mq_unlink :: "rt_messagequeue \<Rightarrow> (nat \<times> rt_messagequeue) option" where
  "mq_unlink mq = do {
     (msg, mq) \<leftarrow> mq_unlink_head mq;
     Some (msg, mq\<lparr>mq_entry := mq_entry mq - 1\<rparr>)
   }"

text \<open>\<^verbatim>\<open>rt_memcpy(buffer, msg + 1, n)\<close>.\<close>

definition mq_read :: "nat \<Rightarrow> nat \<Rightarrow> rt_messagequeue \<Rightarrow> u8 list option" where
  "mq_read msg n mq =
     (if msg < length (msg_pool mq) \<and> n \<le> length (msg_data (msg_pool mq ! msg))
      then Some (take n (msg_data (msg_pool mq ! msg)))
      else None)"

text \<open>The three parts of a send after a node has been found, and of a receive.\<close>

definition mq_fill_msg :: "nat \<Rightarrow> u8 list \<Rightarrow> rt_messagequeue \<Rightarrow> rt_messagequeue option" where
  "mq_fill_msg msg buf mq = do { mq \<leftarrow> set_next msg None mq; mq_write msg buf mq }"

definition mq_store :: "nat \<Rightarrow> u8 list \<Rightarrow> rt_messagequeue \<Rightarrow> (bool \<times> rt_messagequeue) option" where
  "mq_store msg buf mq = do {
     mq \<leftarrow> mq_alloc msg mq;
     mq \<leftarrow> mq_fill_msg msg buf mq;
     mq_link msg mq
   }"

definition mq_store_urgent :: "nat \<Rightarrow> u8 list \<Rightarrow> rt_messagequeue \<Rightarrow> (bool \<times> rt_messagequeue) option" where
  "mq_store_urgent msg buf mq = do {
     mq \<leftarrow> mq_alloc msg mq;
     mq \<leftarrow> mq_write msg buf mq;
     mq_link_urgent msg mq
   }"

definition mq_fetch :: "nat \<Rightarrow> rt_messagequeue \<Rightarrow> (u8 list \<times> rt_messagequeue) option" where
  "mq_fetch n mq = do {
     (msg, mq) \<leftarrow> mq_unlink mq;
     buf \<leftarrow> mq_read msg (min n (unat (msg_size mq))) mq;
     mq \<leftarrow> mq_push_free msg mq;
     Some (buf, mq)
   }"

text \<open>The loop that builds the free chain, and the loop of a reset that empties the queue.\<close>

fun mq_free_loop :: "nat \<Rightarrow> rt_messagequeue \<Rightarrow> rt_messagequeue option" where
  "mq_free_loop 0 mq = Some mq"
| "mq_free_loop (Suc temp) mq = do { mq \<leftarrow> mq_free_loop temp mq; mq_push_free temp mq }"

partial_function (option) mq_reset_loop :: "rt_messagequeue \<Rightarrow> rt_messagequeue option" where
  "mq_reset_loop mq =
     (case msg_queue_head mq of
        None \<Rightarrow> Some mq
      | Some _ \<Rightarrow> do {
          (msg, mq) \<leftarrow> mq_unlink_head mq;
          mq \<leftarrow> mq_push_free msg mq;
          mq_reset_loop mq
        })"

subsection \<open>Operations\<close>

definition is_mq :: "nat \<Rightarrow> kernel \<Rightarrow> bool" where
  "is_mq q k \<longleftrightarrow> rt_object_get_type (OMq q) k = RT_Object_Class_MessageQueue"

definition set_mq :: "nat \<Rightarrow> rt_messagequeue \<Rightarrow> kernel \<Rightarrow> kernel" where
  "set_mq q b k = k\<lparr>mqs := (mqs k)(q := b)\<rparr>"

definition msg_align_size :: "u64 \<Rightarrow> u64" where
  "msg_align_size sz = word_of_int (RT_ALIGN (uint sz) RT_ALIGN_SIZE)"

text \<open>\<open>pool\<close> is the memory of the caller, seen as nodes of the aligned size; a node of 8 bytes heads each
  message.\<close>

definition empty_mq :: "rt_mq_message list \<Rightarrow> u16 \<Rightarrow> u16 \<Rightarrow> rt_messagequeue" where
  "empty_mq pool sz n = \<lparr>msg_pool = pool, msg_size = sz, max_msgs = n, mq_entry = 0,
     msg_queue_head = None, msg_queue_tail = None, msg_queue_free = None\<rparr>"

definition rt_mq_init ::
  "nat \<Rightarrow> u8 list \<Rightarrow> rt_mq_message list \<Rightarrow> u64 \<Rightarrow> u64 \<Rightarrow> u8 \<Rightarrow> kernel \<Rightarrow> (int \<times> kernel) option" where
  "rt_mq_init q name pool sz pool_size flag k = do {
     k \<leftarrow> rt_object_init (OMq q) RT_Object_Class_MessageQueue name k;
     let k = upd_obj (OMq q) (\<lambda>ob. ob\<lparr>obj_flag := flag\<rparr>) k;
     let k = rt_ipc_object_init (QMqRecv q) k;
     let n = (ucast (pool_size div (msg_align_size sz + 8)) :: u16);
     let k = set_mq q ((mqs k q)\<lparr>msg_pool := pool, msg_size := ucast sz, max_msgs := n\<rparr>) k;
     if n = 0 then Some (- RT_EINVAL, k)
     else do {
       mq \<leftarrow> mq_free_loop (unat n) (empty_mq pool (ucast sz) n);
       let k = set_mq q mq k;
       Some (RT_EOK, set_queue (QMqSend q) [] k)
     }
   }"

definition rt_mq_detach :: "nat \<Rightarrow> kernel \<Rightarrow> (int \<times> kernel) option" where
  "rt_mq_detach q k = do {
     rt_assert (is_mq q k);
     rt_assert (rt_object_is_systemobject (OMq q) k);
     (_, k) \<leftarrow> rt_ipc_list_resume_all (QMqRecv q) k;
     (_, k) \<leftarrow> rt_ipc_list_resume_all (QMqSend q) k;
     Some (RT_EOK, rt_object_detach (OMq q) k)
   }"

text \<open>The heap is a parameter: the object, and the nodes of the pool it may provide for a number of
  bytes.\<close>

definition rt_mq_create ::
  "nat option \<Rightarrow> (u64 \<Rightarrow> rt_mq_message list option) \<Rightarrow> u8 list \<Rightarrow> u64 \<Rightarrow> u64 \<Rightarrow> u8 \<Rightarrow> kernel \<Rightarrow>
   (nat option \<times> kernel) option" where
  "rt_mq_create malloc malloc_pool name sz n flag k = do {
     rt_assert (\<not> in_interrupt k);
     (r, k) \<leftarrow> rt_object_allocate (map_option OMq malloc) RT_Object_Class_MessageQueue name k;
     case r of
       Some (OMq q) \<Rightarrow> do {
         let k = upd_obj (OMq q) (\<lambda>ob. ob\<lparr>obj_flag := flag\<rparr>) k;
         let k = rt_ipc_object_init (QMqRecv q) k;
         let k = set_mq q ((mqs k q)\<lparr>msg_size := ucast sz, max_msgs := ucast n\<rparr>) k;
         case malloc_pool ((msg_align_size sz + 8) * ucast (ucast n :: u16)) of
           None \<Rightarrow> do {
             k \<leftarrow> rt_object_delete (OMq q) k;
             Some (None, k)
           }
         | Some pool \<Rightarrow> do {
             mq \<leftarrow> mq_free_loop (unat (ucast n :: u16)) (empty_mq pool (ucast sz) (ucast n));
             let k = set_mq q mq k;
             Some (Some q, set_queue (QMqSend q) [] k)
           }
       }
     | _ \<Rightarrow> Some (None, k)
   }"

definition rt_mq_delete :: "nat \<Rightarrow> kernel \<Rightarrow> (int \<times> kernel) option" where
  "rt_mq_delete q k = do {
     rt_assert (\<not> in_interrupt k);
     rt_assert (is_mq q k);
     rt_assert (\<not> rt_object_is_systemobject (OMq q) k);
     (_, k) \<leftarrow> rt_ipc_list_resume_all (QMqRecv q) k;
     (_, k) \<leftarrow> rt_ipc_list_resume_all (QMqSend q) k;
     k \<leftarrow> rt_object_delete (OMq q) k;
     Some (RT_EOK, k)
   }"

text \<open>One round of the loop of a send, from the test of the loop to the wait or to the end of the call;
  the continuation after a wait.\<close>

definition mq_send_loop ::
  "nat \<Rightarrow> u8 list \<Rightarrow> 32 word \<Rightarrow> int \<Rightarrow> tid option \<Rightarrow> kernel \<Rightarrow> (int call \<times> kernel) option" where
  "mq_send_loop q buf timeout suspend_flag self k =
     (case msg_queue_free (mqs k q) of
        None \<Rightarrow> do {
          t \<leftarrow> self;
          let k = upd_thread t (\<lambda>th. th\<lparr>error := - RT_EINTR\<rparr>) k;
          if timeout = 0 then Some (Returned (- RT_EFULL), k)
          else do {
            rt_assert (in_thread_context k);
            ipc_block (QMqSend q) t (obj_flag (objs k (OMq q))) suspend_flag timeout k
          }
        }
      | Some msg \<Rightarrow> do {
          (counted, mq) \<leftarrow> mq_store msg buf (mqs k q);
          let k = set_mq q mq k;
          if \<not> counted then Some (Returned (- RT_EFULL), k)
          else do { k \<leftarrow> wake_first (QMqRecv q) k; Some (Returned RT_EOK, k) }
        })"

definition mq_send_wait :: "nat \<Rightarrow> u8 list \<Rightarrow> 32 word \<Rightarrow> int \<Rightarrow> kernel \<Rightarrow> (int call \<times> kernel) option" where
  "mq_send_wait q buf timeout suspend_flag k = do {
     rt_assert (is_mq q k);
     rt_assert (buf \<noteq> []);
     if unat (msg_size (mqs k q)) < length buf then Some (Returned (- RT_ERROR), k)
     else if msg_queue_free (mqs k q) = None \<and> timeout = 0 then Some (Returned (- RT_EFULL), k)
     else mq_send_loop q buf timeout suspend_flag (rt_thread_self k) k
   }"

definition mq_send_resume ::
  "nat \<Rightarrow> u8 list \<Rightarrow> 32 word \<Rightarrow> u32 \<Rightarrow> int \<Rightarrow> tid \<Rightarrow> kernel \<Rightarrow> (int call \<times> kernel) option" where
  "mq_send_resume q buf timeout start suspend_flag t k =
     (if error (threads k t) \<noteq> RT_EOK then Some (Returned (error (threads k t)), k)
      else mq_send_loop q buf (time_left timeout start k) suspend_flag (Some t) k)"

definition rt_mq_send_wait :: "nat \<Rightarrow> u8 list \<Rightarrow> 32 word \<Rightarrow> kernel \<Rightarrow> (int call \<times> kernel) option" where
  "rt_mq_send_wait q buf timeout k = mq_send_wait q buf timeout RT_UNINTERRUPTIBLE k"

definition rt_mq_send_wait_interruptible :: "nat \<Rightarrow> u8 list \<Rightarrow> 32 word \<Rightarrow> kernel \<Rightarrow> (int call \<times> kernel) option" where
  "rt_mq_send_wait_interruptible q buf timeout k = mq_send_wait q buf timeout RT_INTERRUPTIBLE k"

definition rt_mq_send_wait_killable :: "nat \<Rightarrow> u8 list \<Rightarrow> 32 word \<Rightarrow> kernel \<Rightarrow> (int call \<times> kernel) option" where
  "rt_mq_send_wait_killable q buf timeout k = mq_send_wait q buf timeout RT_KILLABLE k"

definition rt_mq_send :: "nat \<Rightarrow> u8 list \<Rightarrow> kernel \<Rightarrow> (int call \<times> kernel) option" where
  "rt_mq_send q buf k = rt_mq_send_wait q buf 0 k"

definition rt_mq_send_interrupt :: "nat \<Rightarrow> u8 list \<Rightarrow> kernel \<Rightarrow> (int call \<times> kernel) option" where
  "rt_mq_send_interrupt q buf k = rt_mq_send_wait_interruptible q buf 0 k"

definition rt_mq_send_killable :: "nat \<Rightarrow> u8 list \<Rightarrow> kernel \<Rightarrow> (int call \<times> kernel) option" where
  "rt_mq_send_killable q buf k = rt_mq_send_wait_killable q buf 0 k"

definition rt_mq_urgent :: "nat \<Rightarrow> u8 list \<Rightarrow> kernel \<Rightarrow> (int \<times> kernel) option" where
  "rt_mq_urgent q buf k = do {
     rt_assert (is_mq q k);
     rt_assert (buf \<noteq> []);
     if unat (msg_size (mqs k q)) < length buf then Some (- RT_ERROR, k)
     else case msg_queue_free (mqs k q) of
            None \<Rightarrow> Some (- RT_EFULL, k)
          | Some msg \<Rightarrow> do {
              (counted, mq) \<leftarrow> mq_store_urgent msg buf (mqs k q);
              let k = set_mq q mq k;
              if \<not> counted then Some (- RT_EFULL, k)
              else do { k \<leftarrow> wake_first (QMqRecv q) k; Some (RT_EOK, k) }
            }
   }"

text \<open>Receiving: a call that returns carries the bytes it copied to \<^verbatim>\<open>buffer\<close>.\<close>

definition mq_recv_loop ::
  "nat \<Rightarrow> nat \<Rightarrow> 32 word \<Rightarrow> int \<Rightarrow> tid option \<Rightarrow> kernel \<Rightarrow> ((int \<times> u8 list option) call \<times> kernel) option" where
  "mq_recv_loop q n timeout suspend_flag self k =
     (if mq_entry (mqs k q) = 0
      then do {
        rt_assert (in_thread_context k);
        t \<leftarrow> self;
        let k = upd_thread t (\<lambda>th. th\<lparr>error := - RT_EINTR\<rparr>) k;
        if timeout = 0
        then Some (Returned (- RT_ETIMEOUT, None), upd_thread t (\<lambda>th. th\<lparr>error := - RT_ETIMEOUT\<rparr>) k)
        else do {
          (r, k) \<leftarrow> ipc_block (QMqRecv q) t (obj_flag (objs k (OMq q))) suspend_flag timeout k;
          Some (case r of Returned err \<Rightarrow> Returned (err, None) | Waiting \<Rightarrow> Waiting, k)
        }
      }
      else do {
        (buf, mq) \<leftarrow> mq_fetch n (mqs k q);
        let k = set_mq q mq k;
        k \<leftarrow> wake_first (QMqSend q) k;
        Some (Returned (RT_EOK, Some buf), k)
      })"

definition mq_recv ::
  "nat \<Rightarrow> nat \<Rightarrow> 32 word \<Rightarrow> int \<Rightarrow> kernel \<Rightarrow> ((int \<times> u8 list option) call \<times> kernel) option" where
  "mq_recv q n timeout suspend_flag k = do {
     rt_assert (is_mq q k);
     rt_assert (n \<noteq> 0);
     if mq_entry (mqs k q) = 0 \<and> timeout = 0
     then Some (Returned (- RT_ETIMEOUT, None), k)
     else mq_recv_loop q n timeout suspend_flag (rt_thread_self k) k
   }"

definition mq_recv_resume ::
  "nat \<Rightarrow> nat \<Rightarrow> 32 word \<Rightarrow> u32 \<Rightarrow> int \<Rightarrow> tid \<Rightarrow> kernel \<Rightarrow> ((int \<times> u8 list option) call \<times> kernel) option" where
  "mq_recv_resume q n timeout start suspend_flag t k =
     (if error (threads k t) \<noteq> RT_EOK then Some (Returned (error (threads k t), None), k)
      else mq_recv_loop q n (time_left timeout start k) suspend_flag (Some t) k)"

definition rt_mq_recv :: "nat \<Rightarrow> nat \<Rightarrow> 32 word \<Rightarrow> kernel \<Rightarrow> ((int \<times> u8 list option) call \<times> kernel) option" where
  "rt_mq_recv q n timeout k = mq_recv q n timeout RT_UNINTERRUPTIBLE k"

definition rt_mq_recv_interruptible :: "nat \<Rightarrow> nat \<Rightarrow> 32 word \<Rightarrow> kernel \<Rightarrow> ((int \<times> u8 list option) call \<times> kernel) option" where
  "rt_mq_recv_interruptible q n timeout k = mq_recv q n timeout RT_INTERRUPTIBLE k"

definition rt_mq_recv_killable :: "nat \<Rightarrow> nat \<Rightarrow> 32 word \<Rightarrow> kernel \<Rightarrow> ((int \<times> u8 list option) call \<times> kernel) option" where
  "rt_mq_recv_killable q n timeout k = mq_recv q n timeout RT_KILLABLE k"

definition rt_mq_control :: "nat \<Rightarrow> int \<Rightarrow> kernel \<Rightarrow> (int \<times> kernel) option" where
  "rt_mq_control q cmd k = do {
     rt_assert (is_mq q k);
     if cmd = RT_IPC_CMD_RESET
     then do {
       (_, k) \<leftarrow> rt_ipc_list_resume_all (QMqRecv q) k;
       (_, k) \<leftarrow> rt_ipc_list_resume_all (QMqSend q) k;
       mq \<leftarrow> mq_reset_loop (mqs k q);
       let k = set_mq q (mq\<lparr>mq_entry := 0\<rparr>) k;
       k \<leftarrow> rt_schedule k;
       Some (RT_EOK, k)
     }
     else Some (- RT_ERROR, k)
   }"

subsection \<open>Chains\<close>

text \<open>\<open>chain pool p ns\<close>: the nodes \<open>ns\<close> hang one after the other at \<open>p\<close>.\<close>

fun chain :: "rt_mq_message list \<Rightarrow> nat option \<Rightarrow> nat list \<Rightarrow> bool" where
  "chain pool p [] \<longleftrightarrow> p = None"
| "chain pool p (n # ns) \<longleftrightarrow> p = Some n \<and> n < length pool \<and> chain pool (msg_next (pool ! n)) ns"

lemma chain_update [simp]: "n \<notin> set ns \<Longrightarrow> chain (pool[n := m]) p ns = chain pool p ns"
  by (induction ns arbitrary: p) (auto simp: nth_list_update)

lemma chain_unique: "chain pool p ns \<Longrightarrow> chain pool p ms \<Longrightarrow> ns = ms"
proof (induction ns arbitrary: p ms)
  case Nil
  then show ?case by (cases ms) auto
next
  case (Cons n ns)
  then show ?case by (cases ms) auto
qed

lemma chain_snoc:
  assumes "chain pool p ns" "distinct ns" "ns \<noteq> []" "n \<notin> set ns" "n < length pool" "msg_next (pool ! n) = None"
  shows "chain (pool[last ns := (pool ! last ns)\<lparr>msg_next := Some n\<rparr>]) p (ns @ [n])"
  using assms
proof (induction ns arbitrary: p)
  case (Cons m ns)
  show ?case
  proof (cases "ns = []")
    case True
    then show ?thesis using Cons.prems by (auto simp: nth_list_update)
  next
    case False
    then have "last ns \<noteq> m" using Cons.prems(2) by auto
    then show ?thesis using Cons False by (auto simp: nth_list_update)
  qed
qed simp

lemma chain_None: "chain pool None ns \<longleftrightarrow> ns = []"
  by (cases ns) auto

lemma chain_Some: "chain pool (Some n) ns \<Longrightarrow> \<exists>ms. ns = n # ms"
  by (cases ns) auto

text \<open>The free nodes \<open>F\<close>, the messages \<open>Q\<close> and the nodes \<open>T\<close> that callers have taken and not yet given
  back share out the pool.\<close>

definition mq_rep :: "nat list \<Rightarrow> nat list \<Rightarrow> nat set \<Rightarrow> rt_messagequeue \<Rightarrow> bool" where
  "mq_rep F Q T mq \<longleftrightarrow>
     chain (msg_pool mq) (msg_queue_free mq) F \<and> chain (msg_pool mq) (msg_queue_head mq) Q \<and>
     msg_queue_tail mq = (if Q = [] then None else Some (last Q)) \<and>
     distinct (F @ Q) \<and> set (F @ Q) \<inter> T = {} \<and> set (F @ Q) \<union> T = {..<unat (max_msgs mq)} \<and>
     unat (max_msgs mq) \<le> length (msg_pool mq) \<and> unat (mq_entry mq) = length Q \<and>
     (\<forall>n < unat (max_msgs mq). unat (msg_size mq) \<le> length (msg_data (msg_pool mq ! n)))"

definition payload :: "rt_messagequeue \<Rightarrow> nat \<Rightarrow> u8 list" where
  "payload mq n = take (unat (msg_size mq)) (msg_data (msg_pool mq ! n))"

text \<open>What the steps leave alone: the size and number of the messages and all payloads but one.\<close>

definition mq_same :: "nat set \<Rightarrow> rt_messagequeue \<Rightarrow> rt_messagequeue \<Rightarrow> bool" where
  "mq_same X mq mq' \<longleftrightarrow> msg_size mq' = msg_size mq \<and> max_msgs mq' = max_msgs mq \<and>
     length (msg_pool mq') = length (msg_pool mq) \<and> (\<forall>n. n \<notin> X \<longrightarrow> payload mq' n = payload mq n)"

lemma mq_sameD:
  assumes "mq_same X mq mq'"
  shows "msg_size mq' = msg_size mq" "max_msgs mq' = max_msgs mq" "length (msg_pool mq') = length (msg_pool mq)"
    "n \<notin> X \<Longrightarrow> payload mq' n = payload mq n"
  using assms by (simp_all add: mq_same_def)

lemma mq_same_trans: "mq_same X a b \<Longrightarrow> mq_same X b c \<Longrightarrow> mq_same X a c"
  by (simp add: mq_same_def)

lemma mq_same_mono: "mq_same X a b \<Longrightarrow> X \<subseteq> Y \<Longrightarrow> mq_same Y a b"
  by (auto simp: mq_same_def)

lemma mq_same_payloads: "mq_same X mq mq' \<Longrightarrow> set ns \<inter> X = {} \<Longrightarrow> map (payload mq') ns = map (payload mq) ns"
  by (auto simp: mq_same_def)

lemma mq_rep_node:
  assumes "mq_rep F Q T mq" and "n \<in> set F \<union> set Q \<union> T"
  shows "n < unat (max_msgs mq)" "n < length (msg_pool mq)" "unat (msg_size mq) \<le> length (msg_data (msg_pool mq ! n))"
  using assms by (auto simp: mq_rep_def)

lemma mq_rep_count:
  assumes "mq_rep F Q T mq"
  shows "length F + length Q + card T = unat (max_msgs mq)" "finite T"
proof -
  have f: "finite T" using assms finite_subset [of T "{..<unat (max_msgs mq)}"] by (auto simp: mq_rep_def)
  have "card (set (F @ Q) \<union> T) = card (set (F @ Q)) + card T"
    using assms f by (intro card_Un_disjoint) (auto simp: mq_rep_def)
  then show "length F + length Q + card T = unat (max_msgs mq)"
    using assms distinct_card [of "F @ Q"] by (simp add: mq_rep_def)
  show "finite T" by (rule f)
qed

subsection \<open>The steps keep the chains\<close>

lemma mq_alloc_ok:
  assumes rep: "mq_rep (x # F) Q T mq"
  shows "\<exists>mq'. mq_alloc x mq = Some mq' \<and> mq_rep F Q (insert x T) mq' \<and> mq_same {} mq mq'"
  using assms by (auto simp: mq_alloc_def get_next_def mq_rep_def mq_same_def payload_def)

lemma mq_fill_msg_ok:
  assumes rep: "mq_rep F Q T mq" and x: "x \<in> T" and buf: "length buf \<le> unat (msg_size mq)"
  shows "\<exists>mq'. mq_fill_msg x buf mq = Some mq' \<and> mq_rep F Q T mq' \<and> mq_same {x} mq mq' \<and>
    msg_next (msg_pool mq' ! x) = None \<and> take (length buf) (payload mq' x) = buf"
proof -
  have n: "x \<notin> set F" "x \<notin> set Q" using rep x by (auto simp: mq_rep_def)
  have l: "x < length (msg_pool mq)" "unat (msg_size mq) \<le> length (msg_data (msg_pool mq ! x))"
    using mq_rep_node [OF rep] x by auto
  let ?m = "(msg_pool mq ! x)\<lparr>msg_next := None, msg_data := buf @ drop (length buf) (msg_data (msg_pool mq ! x))\<rparr>"
  have "mq_fill_msg x buf mq = Some (mq\<lparr>msg_pool := (msg_pool mq)[x := ?m]\<rparr>)"
    using l buf by (simp add: mq_fill_msg_def set_next_def mq_write_def)
  moreover have "mq_rep F Q T (mq\<lparr>msg_pool := (msg_pool mq)[x := ?m]\<rparr>)"
    using rep n l buf by (auto simp: mq_rep_def nth_list_update)
  ultimately show ?thesis using l buf by (auto simp: mq_same_def payload_def)
qed

lemma mq_write_ok:
  assumes rep: "mq_rep F Q T mq" and x: "x \<in> T" and buf: "length buf \<le> unat (msg_size mq)"
  shows "\<exists>mq'. mq_write x buf mq = Some mq' \<and> mq_rep F Q T mq' \<and> mq_same {x} mq mq' \<and>
    take (length buf) (payload mq' x) = buf"
proof -
  have n: "x \<notin> set F" "x \<notin> set Q" using rep x by (auto simp: mq_rep_def)
  have l: "x < length (msg_pool mq)" "unat (msg_size mq) \<le> length (msg_data (msg_pool mq ! x))"
    using mq_rep_node [OF rep] x by auto
  let ?m = "(msg_pool mq ! x)\<lparr>msg_data := buf @ drop (length buf) (msg_data (msg_pool mq ! x))\<rparr>"
  have "mq_write x buf mq = Some (mq\<lparr>msg_pool := (msg_pool mq)[x := ?m]\<rparr>)"
    using l buf by (simp add: mq_write_def)
  moreover have "mq_rep F Q T (mq\<lparr>msg_pool := (msg_pool mq)[x := ?m]\<rparr>)"
    using rep n l buf by (auto simp: mq_rep_def nth_list_update)
  ultimately show ?thesis using l buf by (auto simp: mq_same_def payload_def)
qed

text \<open>The count never reaches its maximum while a node is taken.\<close>

lemma mq_count_ok:
  assumes "mq_rep F Q T mq" and "x \<in> T"
  shows "mq_entry mq < RT_MQ_ENTRY_MAX" "unat (mq_entry mq + 1) = Suc (length Q)"
proof -
  have "0 < card T" using assms mq_rep_count(2) [OF assms(1)] by (auto simp: card_gt_0_iff)
  then have "unat (mq_entry mq) < 65535"
    using mq_rep_count(1) [OF assms(1)] unat_less_u16 [of "max_msgs mq"] assms(1) by (simp add: mq_rep_def)
  then show "mq_entry mq < RT_MQ_ENTRY_MAX" "unat (mq_entry mq + 1) = Suc (length Q)"
    using assms(1) by (simp_all add: rt_defs word_less_nat_alt unat_word_ariths mq_rep_def)
qed

lemma mq_link_ok:
  assumes rep: "mq_rep F Q T mq" and x: "x \<in> T" and nx: "msg_next (msg_pool mq ! x) = None"
  shows "\<exists>mq'. mq_link x mq = Some (True, mq') \<and> mq_rep F (Q @ [x]) (T - {x}) mq' \<and> mq_same {} mq mq'"
proof -
  have n: "x \<notin> set F" "x \<notin> set Q" "x < length (msg_pool mq)" using rep x mq_rep_node [OF rep] by (auto simp: mq_rep_def)
  note c = mq_count_ok [OF rep x]
  show ?thesis
  proof (cases "Q = []")
    case True
    then have "msg_queue_head mq = None" "msg_queue_tail mq = None" using rep by (auto simp: mq_rep_def)
    then show ?thesis using True rep x n nx c
      by (auto simp: mq_link_def mq_count_def mq_rep_def mq_same_def payload_def)
  next
    case False
    let ?p = "(msg_pool mq)[last Q := (msg_pool mq ! last Q)\<lparr>msg_next := Some x\<rparr>]"
    have "msg_queue_head mq \<noteq> None" using False rep by (auto simp: mq_rep_def chain_None)
    moreover have tl: "msg_queue_tail mq = Some (last Q)" "last Q < length (msg_pool mq)"
      using False rep mq_rep_node(2) [OF rep UnI1 [OF UnI2 [OF last_in_set [OF False]]]]
      by (simp_all add: mq_rep_def)
    ultimately have "mq_link x mq = Some (True, mq\<lparr>msg_pool := ?p, msg_queue_tail := Some x, mq_entry := mq_entry mq + 1\<rparr>)"
      using c(1) by (cases mq) (auto simp: mq_link_def mq_count_def set_next_def)
    moreover have "last Q \<notin> set F" using False rep last_in_set [OF False] by (auto simp: mq_rep_def)
    moreover have "chain ?p (msg_queue_head mq) (Q @ [x])"
      using chain_snoc [of "msg_pool mq" "msg_queue_head mq" Q x] rep False n nx by (simp add: mq_rep_def)
    ultimately show ?thesis
      using rep x n c(2) tl(2) by (auto simp: mq_rep_def mq_same_def payload_def nth_list_update)
  qed
qed

lemma mq_link_urgent_ok:
  assumes rep: "mq_rep F Q T mq" and x: "x \<in> T"
  shows "\<exists>mq'. mq_link_urgent x mq = Some (True, mq') \<and> mq_rep F (x # Q) (T - {x}) mq' \<and> mq_same {} mq mq'"
proof -
  have n: "x \<notin> set F" "x \<notin> set Q" "x < length (msg_pool mq)" using rep x mq_rep_node [OF rep] by (auto simp: mq_rep_def)
  note c = mq_count_ok [OF rep x]
  let ?p = "(msg_pool mq)[x := (msg_pool mq ! x)\<lparr>msg_next := msg_queue_head mq\<rparr>]"
  have "mq_link_urgent x mq = Some (True, mq\<lparr>msg_pool := ?p, mq_entry := mq_entry mq + 1, msg_queue_head := Some x,
      msg_queue_tail := (if Q = [] then Some x else Some (last Q))\<rparr>)"
    using c(1) n rep by (cases mq) (auto simp: mq_link_urgent_def mq_count_def set_next_def mq_rep_def)
  then show ?thesis
    using rep x n c(2) by (auto simp: mq_rep_def mq_same_def payload_def nth_list_update)
qed

lemma mq_unlink_head_ok:
  assumes rep: "mq_rep F (x # Q) T mq"
  shows "\<exists>mq'. mq_unlink_head mq = Some (x, mq') \<and>
    mq_rep F Q (insert x T) (mq'\<lparr>mq_entry := mq_entry mq - 1\<rparr>) \<and> mq_entry mq' = mq_entry mq \<and> mq_same {} mq mq'"
proof -
  have e: "unat (mq_entry mq - 1) = length Q"
    using rep by (simp add: mq_rep_def unat_minus_one word_gt_0 unat_gt_0 [symmetric])
  have "last Q \<noteq> x" if "Q \<noteq> []" using rep that by (auto simp: mq_rep_def)
  then have "mq_unlink_head mq = Some (x, mq\<lparr>msg_queue_head := msg_next (msg_pool mq ! x),
      msg_queue_tail := (if Q = [] then None else Some (last Q))\<rparr>)"
    using rep by (cases mq) (auto simp: mq_unlink_head_def get_next_def mq_rep_def)
  then show ?thesis using rep e by (auto simp: mq_rep_def mq_same_def payload_def)
qed

lemma mq_unlink_ok:
  assumes rep: "mq_rep F (x # Q) T mq"
  shows "\<exists>mq'. mq_unlink mq = Some (x, mq') \<and> mq_rep F Q (insert x T) mq' \<and> mq_same {} mq mq'"
  using mq_unlink_head_ok [OF rep] by (auto simp: mq_unlink_def mq_same_def payload_def)

lemma mq_push_free_ok:
  assumes rep: "mq_rep F Q T mq" and x: "x \<in> T"
  shows "\<exists>mq'. mq_push_free x mq = Some mq' \<and> mq_rep (x # F) Q (T - {x}) mq' \<and> mq_same {} mq mq'
    \<and> mq_entry mq' = mq_entry mq"
proof -
  have n: "x \<notin> set F" "x \<notin> set Q" "x < length (msg_pool mq)" using rep x mq_rep_node [OF rep] by (auto simp: mq_rep_def)
  then show ?thesis
    using rep x by (auto simp: mq_push_free_def set_next_def mq_rep_def mq_same_def payload_def nth_list_update)
qed

lemma mq_read_ok:
  assumes rep: "mq_rep F Q T mq" and x: "x \<in> T" and n: "n \<le> unat (msg_size mq)"
  shows "mq_read x n mq = Some (take n (payload mq x))"
  using mq_rep_node [OF rep, of x] x n by (simp add: mq_read_def payload_def min_def)

subsection \<open>The queue of payloads\<close>

fun walk :: "rt_mq_message list \<Rightarrow> nat option \<Rightarrow> nat \<Rightarrow> nat list" where
  "walk pool (Some n) (Suc c) = n # (if n < length pool then walk pool (msg_next (pool ! n)) c else [])"
| "walk pool _ _ = []"

lemma walk_chain: "chain pool p ns \<Longrightarrow> walk pool p (length ns) = ns"
  by (induction ns arbitrary: p) auto

definition mq_contents :: "rt_messagequeue \<Rightarrow> u8 list list" where
  "mq_contents mq = map (payload mq) (walk (msg_pool mq) (msg_queue_head mq) (unat (mq_entry mq)))"

definition mq_capacity :: "rt_messagequeue \<Rightarrow> nat" where
  "mq_capacity mq = unat (max_msgs mq)"

definition mq_ok :: "rt_messagequeue \<Rightarrow> bool" where
  "mq_ok mq \<longleftrightarrow> (\<exists>F Q. mq_rep F Q {} mq)"

lemma mq_okI: "mq_rep F Q {} mq \<Longrightarrow> mq_ok mq"
  by (auto simp: mq_ok_def)

lemma mq_contents_rep: "mq_rep F Q T mq \<Longrightarrow> mq_contents mq = map (payload mq) Q"
  using walk_chain [of "msg_pool mq" "msg_queue_head mq" Q] by (simp add: mq_contents_def mq_rep_def)

lemma mq_free_iff:
  assumes "mq_rep F Q T mq"
  shows "msg_queue_free mq = (case F of [] \<Rightarrow> None | n # _ \<Rightarrow> Some n)" "mq_entry mq = 0 \<longleftrightarrow> Q = []"
  using assms by (auto simp: mq_rep_def word_unat_eq_iff split: list.splits)

lemma mq_store_ok:
  assumes rep: "mq_rep (x # F) Q T mq" and buf: "length buf \<le> unat (msg_size mq)"
  shows "\<exists>mq' y. mq_store x buf mq = Some (True, mq') \<and> mq_rep F (Q @ [x]) T mq' \<and> take (length buf) y = buf \<and>
    mq_contents mq' = mq_contents mq @ [y] \<and> msg_size mq' = msg_size mq \<and> max_msgs mq' = max_msgs mq"
proof -
  have x: "x \<notin> set Q" "x \<notin> T" using rep by (auto simp: mq_rep_def)
  obtain m1 where m1: "mq_alloc x mq = Some m1" "mq_rep F Q (insert x T) m1" "mq_same {} mq m1"
    using mq_alloc_ok [OF rep] by blast
  obtain m2 where m2: "mq_fill_msg x buf m1 = Some m2" "mq_rep F Q (insert x T) m2" "mq_same {x} m1 m2"
      "msg_next (msg_pool m2 ! x) = None" "take (length buf) (payload m2 x) = buf"
    using mq_fill_msg_ok [OF m1(2), of x buf] buf mq_sameD(1) [OF m1(3)] by auto
  obtain m3 where m3: "mq_link x m2 = Some (True, m3)" "mq_rep F (Q @ [x]) (insert x T - {x}) m3" "mq_same {} m2 m3"
    using mq_link_ok [OF m2(2) insertI1 m2(4)] by blast
  have "insert x T - {x} = T" using x(2) by auto
  moreover have same: "mq_same {x} mq m3"
    using mq_same_trans [OF mq_same_trans [OF mq_same_mono [OF m1(3)] m2(3)] mq_same_mono [OF m3(3)]] by blast
  moreover have "map (payload m3) Q = map (payload mq) Q" using mq_same_payloads [OF same, of Q] x(1) by simp
  moreover have "payload m3 x = payload m2 x" using mq_sameD(4) [OF m3(3), of x] by simp
  ultimately show ?thesis
    using m1(1) m2(1,5) m3(1,2) mq_contents_rep [OF rep] mq_contents_rep [OF m3(2)] mq_sameD(1,2) [OF same]
    by (auto simp: mq_store_def)
qed

lemma mq_store_urgent_ok:
  assumes rep: "mq_rep (x # F) Q T mq" and buf: "length buf \<le> unat (msg_size mq)"
  shows "\<exists>mq' y. mq_store_urgent x buf mq = Some (True, mq') \<and> mq_rep F (x # Q) T mq' \<and> take (length buf) y = buf \<and>
    mq_contents mq' = y # mq_contents mq \<and> msg_size mq' = msg_size mq \<and> max_msgs mq' = max_msgs mq"
proof -
  have x: "x \<notin> set Q" "x \<notin> T" using rep by (auto simp: mq_rep_def)
  obtain m1 where m1: "mq_alloc x mq = Some m1" "mq_rep F Q (insert x T) m1" "mq_same {} mq m1"
    using mq_alloc_ok [OF rep] by blast
  obtain m2 where m2: "mq_write x buf m1 = Some m2" "mq_rep F Q (insert x T) m2" "mq_same {x} m1 m2"
      "take (length buf) (payload m2 x) = buf"
    using mq_write_ok [OF m1(2), of x buf] buf mq_sameD(1) [OF m1(3)] by auto
  obtain m3 where m3: "mq_link_urgent x m2 = Some (True, m3)" "mq_rep F (x # Q) (insert x T - {x}) m3" "mq_same {} m2 m3"
    using mq_link_urgent_ok [OF m2(2) insertI1] by blast
  have "insert x T - {x} = T" using x(2) by auto
  moreover have same: "mq_same {x} mq m3"
    using mq_same_trans [OF mq_same_trans [OF mq_same_mono [OF m1(3)] m2(3)] mq_same_mono [OF m3(3)]] by blast
  moreover have "map (payload m3) Q = map (payload mq) Q" using mq_same_payloads [OF same, of Q] x(1) by simp
  moreover have "payload m3 x = payload m2 x" using mq_sameD(4) [OF m3(3), of x] by simp
  ultimately show ?thesis
    using m1(1) m2(1,4) m3(1,2) mq_contents_rep [OF rep] mq_contents_rep [OF m3(2)] mq_sameD(1,2) [OF same]
    by (auto simp: mq_store_urgent_def)
qed

lemma mq_fetch_ok:
  assumes rep: "mq_rep F (x # Q) T mq"
  shows "\<exists>mq'. (\<forall>n. mq_fetch n mq = Some (take n (hd (mq_contents mq)), mq')) \<and> mq_rep (x # F) Q T mq' \<and>
    mq_contents mq' = tl (mq_contents mq) \<and> msg_size mq' = msg_size mq \<and> max_msgs mq' = max_msgs mq"
proof -
  have x: "x \<notin> T" using rep by (auto simp: mq_rep_def)
  obtain m1 where m1: "mq_unlink mq = Some (x, m1)" "mq_rep F Q (insert x T) m1" "mq_same {} mq m1"
    using mq_unlink_ok [OF rep] by blast
  obtain m2 where m2: "mq_push_free x m1 = Some m2" "mq_rep (x # F) Q (insert x T - {x}) m2" "mq_same {} m1 m2"
    using mq_push_free_ok [OF m1(2) insertI1] by blast
  have same: "mq_same {} mq m2" using mq_same_trans [OF m1(3) m2(3)] .
  have pay: "payload m1 x = payload mq x" "length (payload mq x) \<le> unat (msg_size mq)"
    using mq_sameD(4) [OF m1(3), of x] by (simp_all add: payload_def)
  have "mq_read x (min n (unat (msg_size m1))) m1 = Some (take n (payload mq x))" for n
    using mq_read_ok [OF m1(2) insertI1, of "min n (unat (msg_size m1))"] pay mq_sameD(1) [OF m1(3)]
    by (simp add: min_def)
  then have "mq_fetch n mq = Some (take n (payload mq x), m2)" for n
    using m1(1) m2(1) by (simp add: mq_fetch_def)
  moreover have "insert x T - {x} = T" using x by auto
  moreover have "mq_contents mq = payload mq x # map (payload mq) Q" using mq_contents_rep [OF rep] by simp
  moreover have "mq_contents m2 = map (payload mq) Q"
    using mq_contents_rep [OF m2(2)] mq_same_payloads [OF same, of Q] by simp
  ultimately show ?thesis using m2(2) mq_sameD(1,2) [OF same] by (intro exI [of _ m2]) simp
qed

lemma mq_contents_bounded: "mq_ok mq \<Longrightarrow> length (mq_contents mq) \<le> mq_capacity mq"
  using mq_rep_count(1) mq_contents_rep by (fastforce simp: mq_ok_def mq_capacity_def)

lemma mq_ok_free:
  assumes "mq_ok mq"
  shows "msg_queue_free mq = None \<longleftrightarrow> length (mq_contents mq) = mq_capacity mq"
    "mq_entry mq = 0 \<longleftrightarrow> mq_contents mq = []"
proof -
  obtain F Q where rep: "mq_rep F Q {} mq" using assms by (auto simp: mq_ok_def)
  show "msg_queue_free mq = None \<longleftrightarrow> length (mq_contents mq) = mq_capacity mq"
    using mq_rep_count(1) [OF rep] mq_free_iff(1) [OF rep] mq_contents_rep [OF rep]
    by (auto simp: mq_capacity_def split: list.splits)
  show "mq_entry mq = 0 \<longleftrightarrow> mq_contents mq = []"
    using mq_free_iff(2) [OF rep] mq_contents_rep [OF rep] by simp
qed

text \<open>The message queue as a queue of slots.\<close>

definition mq_put :: "u8 list \<Rightarrow> rt_messagequeue \<Rightarrow> rt_messagequeue option" where
  "mq_put buf mq = do { x \<leftarrow> msg_queue_free mq; map_option snd (mq_store x buf mq) }"

definition mq_get :: "rt_messagequeue \<Rightarrow> (u8 list \<times> rt_messagequeue) option" where
  "mq_get mq = mq_fetch (unat (msg_size mq)) mq"

definition fits :: "rt_messagequeue \<Rightarrow> u8 list \<Rightarrow> bool" where
  "fits mq buf \<longleftrightarrow> length buf \<le> unat (msg_size mq)"

definition starts_with :: "u8 list \<Rightarrow> u8 list \<Rightarrow> bool" where
  "starts_with buf p \<longleftrightarrow> take (length buf) p = buf"

lemma mq_ok_store:
  assumes ok: "mq_ok mq" and room: "length (mq_contents mq) < mq_capacity mq" and buf: "fits mq buf"
  shows "\<exists>x mq' y. msg_queue_free mq = Some x \<and> mq_store x buf mq = Some (True, mq') \<and> mq_ok mq' \<and> starts_with buf y \<and>
    mq_contents mq' = mq_contents mq @ [y] \<and> msg_size mq' = msg_size mq \<and> mq_capacity mq' = mq_capacity mq"
proof -
  obtain F0 Q where rep: "mq_rep F0 Q {} mq" using ok by (auto simp: mq_ok_def)
  then obtain x F where F: "F0 = x # F"
    using room mq_rep_count(1) [OF rep] mq_contents_rep [OF rep] by (cases F0) (auto simp: mq_capacity_def)
  show ?thesis
    using mq_store_ok [of x F Q "{}" mq buf] rep F buf mq_free_iff(1) [OF rep]
    by (auto simp: fits_def starts_with_def mq_capacity_def intro: mq_okI)
qed

lemma mq_ok_fetch:
  assumes ok: "mq_ok mq" and ne: "mq_contents mq = y # ys"
  shows "\<exists>mq'. (\<forall>n. mq_fetch n mq = Some (take n y, mq')) \<and> mq_ok mq' \<and> mq_contents mq' = ys \<and>
    msg_size mq' = msg_size mq \<and> mq_capacity mq' = mq_capacity mq \<and> length y = unat (msg_size mq)"
proof -
  obtain F Q0 where rep: "mq_rep F Q0 {} mq" using ok by (auto simp: mq_ok_def)
  then obtain x Q where Q: "Q0 = x # Q" using ne mq_contents_rep [OF rep] by (cases Q0) auto
  then have "y = payload mq x" using ne mq_contents_rep [OF rep] by simp
  then have "length y = unat (msg_size mq)" using mq_rep_node [OF rep, of x] Q by (simp add: payload_def)
  then show ?thesis
    using mq_fetch_ok [of F x Q "{}" mq] rep Q ne by (auto simp: mq_capacity_def intro: mq_okI)
qed

interpretation mqq: slot_queue mq_ok mq_contents mq_capacity mq_put mq_get fits starts_with
proof
  fix s x assume "mq_ok s" "length (mq_contents s) < mq_capacity s" "fits s x"
  from mq_ok_store [OF this] show "\<exists>s' y. mq_put x s = Some s' \<and> mq_ok s' \<and> starts_with x y \<and>
      mq_contents s' = mq_contents s @ [y] \<and> mq_capacity s' = mq_capacity s"
    by (auto simp: mq_put_def)
next
  fix s y ys assume "mq_ok s" "mq_contents s = y # ys"
  from mq_ok_fetch [OF this] show "\<exists>s'. mq_get s = Some (y, s') \<and> mq_ok s' \<and> mq_contents s' = ys \<and>
      mq_capacity s' = mq_capacity s"
    by (auto simp: mq_get_def)
qed (rule mq_contents_bounded)

text \<open>Initialisation makes an empty queue; a reset empties the queue and terminates.\<close>

lemma mq_free_loop_ok:
  assumes "n \<le> length (msg_pool mq)" and "msg_queue_free mq = None"
  shows "\<exists>mq'. mq_free_loop n mq = Some mq' \<and> chain (msg_pool mq') (msg_queue_free mq') (rev [0..<n]) \<and>
    (\<exists>p f. mq' = mq\<lparr>msg_pool := p, msg_queue_free := f\<rparr> \<and> length p = length (msg_pool mq) \<and>
       map msg_data p = map msg_data (msg_pool mq))"
  using assms
proof (induction n)
  case 0
  then show ?case by (cases mq) (auto intro!: exI [of _ "msg_pool mq"])
next
  case (Suc n)
  then obtain mq' p f where m: "mq_free_loop n mq = Some mq'" "chain (msg_pool mq') (msg_queue_free mq') (rev [0..<n])"
      "mq' = mq\<lparr>msg_pool := p, msg_queue_free := f\<rparr>" "length p = length (msg_pool mq)"
      "map msg_data p = map msg_data (msg_pool mq)" by auto
  let ?p = "p[n := (p ! n)\<lparr>msg_next := f\<rparr>]"
  have "mq_free_loop (Suc n) mq = Some (mq\<lparr>msg_pool := ?p, msg_queue_free := Some n\<rparr>)"
    using m(1,3,4) Suc.prems by (simp add: mq_push_free_def set_next_def)
  moreover have "map msg_data ?p = map msg_data (msg_pool mq)"
  proof -
    have "map msg_data ?p = (map msg_data p)[n := map msg_data p ! n]" using m(4) Suc.prems by (simp add: map_update)
    then show ?thesis using m(5) by simp
  qed
  moreover have "chain ?p (Some n) (rev [0..<Suc n])" using m(2,3,4) Suc.prems by simp
  ultimately show ?case using m(4) by (intro exI [of _ "mq\<lparr>msg_pool := ?p, msg_queue_free := Some n\<rparr>"]) auto
qed

lemma empty_mq_ok:
  assumes "unat n \<le> length pool" and "\<And>i. i < unat n \<Longrightarrow> unat sz \<le> length (msg_data (pool ! i))"
  shows "\<exists>mq. mq_free_loop (unat n) (empty_mq pool sz n) = Some mq \<and> mq_ok mq \<and> mq_contents mq = [] \<and>
    mq_capacity mq = unat n \<and> msg_size mq = sz"
proof -
  from mq_free_loop_ok [of "unat n" "empty_mq pool sz n"] assms(1) obtain mq p f where
    m: "mq_free_loop (unat n) (empty_mq pool sz n) = Some mq" "chain (msg_pool mq) (msg_queue_free mq) (rev [0..<unat n])"
      "mq = (empty_mq pool sz n)\<lparr>msg_pool := p, msg_queue_free := f\<rparr>" "length p = length pool"
      "map msg_data p = map msg_data pool"
    by (auto simp: empty_mq_def)
  have "msg_data (p ! i) = msg_data (pool ! i)" if "i < unat n" for i
    using arg_cong [OF m(5), of "\<lambda>xs. xs ! i"] that assms(1) m(4) by simp
  then have "mq_rep (rev [0..<unat n]) [] {} mq"
    using m(2-4) assms by (auto simp: mq_rep_def empty_mq_def)
  then show ?thesis
    using m(1,3) mq_contents_rep by (auto simp: mq_ok_def mq_capacity_def empty_mq_def)
qed

lemma mq_unlink_head_entry:
  "mq_unlink_head (mq\<lparr>mq_entry := c\<rparr>) = map_option (\<lambda>(x, m). (x, m\<lparr>mq_entry := c\<rparr>)) (mq_unlink_head mq)"
  by (cases mq) (auto simp: mq_unlink_head_def get_next_def Let_def split: option.splits bind_splits)

lemma mq_push_free_entry: "mq_push_free x (mq\<lparr>mq_entry := c\<rparr>) = map_option (\<lambda>m. m\<lparr>mq_entry := c\<rparr>) (mq_push_free x mq)"
  by (cases mq) (auto simp: mq_push_free_def set_next_def)

lemma mq_reset_loop_ok:
  assumes "mq_rep F Q T (mq\<lparr>mq_entry := c\<rparr>)"
  shows "\<exists>mq'. mq_reset_loop mq = Some mq' \<and> mq_rep (rev Q @ F) [] T (mq'\<lparr>mq_entry := 0\<rparr>) \<and>
    msg_size mq' = msg_size mq \<and> max_msgs mq' = max_msgs mq"
  using assms
proof (induction Q arbitrary: F mq c)
  case Nil
  then have "mq_rep F [] T (mq\<lparr>mq_entry := 0\<rparr>)" "msg_queue_head mq = None" by (simp_all add: mq_rep_def)
  then show ?case by (subst mq_reset_loop.simps) simp
next
  case (Cons x Q)
  let ?m = "mq\<lparr>mq_entry := c\<rparr>"
  have x: "x \<notin> T" "msg_queue_head mq = Some x" using Cons.prems by (auto simp: mq_rep_def)
  obtain m1 where m1: "mq_unlink_head mq = Some (x, m1)" "mq_rep F Q (insert x T) (m1\<lparr>mq_entry := c - 1\<rparr>)"
      "mq_same {} mq m1"
    using mq_unlink_head_ok [OF Cons.prems]
    by (auto simp: mq_unlink_head_entry mq_same_def payload_def split: option.splits)
  obtain m2 where m2: "mq_push_free x m1 = Some m2" "mq_rep (x # F) Q (insert x T - {x}) (m2\<lparr>mq_entry := c - 1\<rparr>)"
      "mq_same {} m1 m2"
    using mq_push_free_ok [OF m1(2) insertI1] by (auto simp: mq_push_free_entry mq_same_def payload_def)
  have "insert x T - {x} = T" using x(1) by auto
  then obtain m3 where "mq_reset_loop m2 = Some m3" "mq_rep (rev Q @ x # F) [] T (m3\<lparr>mq_entry := 0\<rparr>)"
      "msg_size m3 = msg_size m2" "max_msgs m3 = max_msgs m2"
    using Cons.IH [where F = "x # F" and mq = m2 and c = "c - 1"] m2(2) by auto
  then show ?case
    using x(2) m1(1,3) m2(1,3) by (subst mq_reset_loop.simps) (simp add: mq_same_def)
qed

subsection \<open>Preemption between the steps\<close>

text \<open>The interleavings of the atomic steps of any number of senders and receivers.  A node that has been
  taken is being filled, has been filled, or is being read; a receiver's message is the payload of the
  node when it took the node.\<close>

datatype mq_task = Filling "u8 list" | Filled "u8 list" | Reading "u8 list"

inductive mq_steps ::
  "rt_messagequeue \<Rightarrow> (nat \<Rightarrow> mq_task option) \<Rightarrow> u8 list list \<Rightarrow> u8 list list \<Rightarrow> rt_messagequeue \<Rightarrow> bool"
  for mq0 :: rt_messagequeue where
  start: "mq_steps mq0 (\<lambda>_. None) [] [] mq0"
| send_take: "mq_steps mq0 ts i out mq \<Longrightarrow> msg_queue_free mq = Some x \<Longrightarrow> fits mq buf \<Longrightarrow>
    mq_alloc x mq = Some mq' \<Longrightarrow> mq_steps mq0 (ts(x := Some (Filling buf))) i out mq'"
| send_fill: "mq_steps mq0 ts i out mq \<Longrightarrow> ts x = Some (Filling buf) \<Longrightarrow>
    mq_fill_msg x buf mq = Some mq' \<Longrightarrow> mq_steps mq0 (ts(x := Some (Filled buf))) i out mq'"
| send_link: "mq_steps mq0 ts i out mq \<Longrightarrow> ts x = Some (Filled buf) \<Longrightarrow>
    mq_link x mq = Some (c, mq') \<Longrightarrow> mq_steps mq0 (ts(x := None)) (i @ [buf]) out mq'"
| recv_take: "mq_steps mq0 ts i out mq \<Longrightarrow> mq_entry mq \<noteq> 0 \<Longrightarrow>
    mq_unlink mq = Some (x, mq') \<Longrightarrow> mq_steps mq0 (ts(x := Some (Reading (payload mq x)))) i (out @ [payload mq x]) mq'"
| recv_free: "mq_steps mq0 ts i out mq \<Longrightarrow> ts x = Some (Reading p) \<Longrightarrow>
    mq_push_free x mq = Some mq' \<Longrightarrow> mq_steps mq0 (ts(x := None)) i out mq'"

definition task_ok :: "rt_messagequeue \<Rightarrow> nat \<Rightarrow> mq_task \<Rightarrow> bool" where
  "task_ok mq x task \<longleftrightarrow> (case task of
     Filling buf \<Rightarrow> fits mq buf
   | Filled buf \<Rightarrow> msg_next (msg_pool mq ! x) = None \<and> starts_with buf (payload mq x)
   | Reading p \<Rightarrow> payload mq x = p)"

definition tasks_ok :: "(nat \<Rightarrow> mq_task option) \<Rightarrow> rt_messagequeue \<Rightarrow> bool" where
  "tasks_ok ts mq \<longleftrightarrow> (\<forall>x task. ts x = Some task \<longrightarrow> task_ok mq x task)"

lemma tasks_ok_keep:
  assumes "tasks_ok ts mq" and "msg_size mq' = msg_size mq"
    and "\<And>n. n \<in> dom ts \<Longrightarrow> n \<noteq> x \<Longrightarrow> msg_pool mq' ! n = msg_pool mq ! n"
    and "\<And>task. new = Some task \<Longrightarrow> task_ok mq' x task"
  shows "tasks_ok (ts(x := new)) mq'"
proof -
  have "task_ok mq' n task" if "ts n = Some task" "n \<noteq> x" for n task
  proof -
    have "task_ok mq n task" using assms(1) that(1) by (simp add: tasks_ok_def)
    moreover have "msg_pool mq' ! n = msg_pool mq ! n" using assms(3) domI [of ts] that by blast
    ultimately show ?thesis using assms(2) by (simp add: task_ok_def payload_def fits_def split: mq_task.splits)
  qed
  then show ?thesis using assms(4) by (simp add: tasks_ok_def)
qed

lemma step_pools:
  "mq_alloc x mq = Some mq' \<Longrightarrow> msg_pool mq' = msg_pool mq"
  "mq_fill_msg x buf mq = Some mq' \<Longrightarrow> n \<noteq> x \<Longrightarrow> msg_pool mq' ! n = msg_pool mq ! n"
  "mq_link x mq = Some (c, mq') \<Longrightarrow> msg_queue_tail mq \<noteq> Some n \<Longrightarrow> msg_pool mq' ! n = msg_pool mq ! n"
  "mq_unlink mq = Some (x, mq') \<Longrightarrow> msg_pool mq' = msg_pool mq"
  "mq_push_free x mq = Some mq' \<Longrightarrow> n \<noteq> x \<Longrightarrow> msg_pool mq' ! n = msg_pool mq ! n"
  by (auto simp: mq_alloc_def get_next_def mq_fill_msg_def set_next_def mq_write_def mq_link_def mq_count_def
      mq_unlink_def mq_unlink_head_def mq_push_free_def Let_def split: if_splits bind_splits option.splits)

definition steps_inv ::
  "rt_messagequeue \<Rightarrow> (nat \<Rightarrow> mq_task option) \<Rightarrow> u8 list list \<Rightarrow> u8 list list \<Rightarrow> rt_messagequeue \<Rightarrow> bool" where
  "steps_inv mq0 ts i out mq \<longleftrightarrow> (\<exists>F Q. mq_rep F Q (dom ts) mq) \<and> tasks_ok ts mq \<and>
     msg_size mq = msg_size mq0 \<and> max_msgs mq = max_msgs mq0 \<and>
     (\<exists>ps. list_all2 starts_with i ps \<and> mq_contents mq0 @ ps = out @ mq_contents mq)"

lemma mq_steps_inv:
  assumes "mq_steps mq0 ts i out mq" and "mq_ok mq0"
  shows "steps_inv mq0 ts i out mq"
  using assms
proof (induction rule: mq_steps.induct)
  case start
  then show ?case by (auto simp: steps_inv_def mq_ok_def tasks_ok_def)
next
  case (send_take ts i out mq x buf mq')
  then obtain F0 Q ps where iv: "mq_rep F0 Q (dom ts) mq" "tasks_ok ts mq" "msg_size mq = msg_size mq0"
      "max_msgs mq = max_msgs mq0" "list_all2 starts_with i ps" "mq_contents mq0 @ ps = out @ mq_contents mq"
    by (auto simp: steps_inv_def)
  obtain F where F: "F0 = x # F" using mq_free_iff(1) [OF iv(1)] send_take.hyps(2) by (auto split: list.splits)
  have m: "mq_rep F Q (insert x (dom ts)) mq'" "mq_same {} mq mq'"
    using mq_alloc_ok [of x F Q "dom ts" mq] iv(1) F send_take.hyps(4) by auto
  have "tasks_ok (ts(x := Some (Filling buf))) mq'"
    by (rule tasks_ok_keep [OF iv(2) mq_sameD(1) [OF m(2)]])
      (use step_pools(1) [OF send_take.hyps(4)] send_take.hyps(3) mq_sameD(1) [OF m(2)] in
        \<open>auto simp: task_ok_def fits_def\<close>)
  moreover have "mq_contents mq' = mq_contents mq"
    using mq_contents_rep [OF m(1)] mq_contents_rep [OF iv(1)] mq_same_payloads [OF m(2), of Q] by simp
  ultimately show ?case using m(1) iv mq_sameD(1,2) [OF m(2)] unfolding steps_inv_def by auto
next
  case (send_fill ts i out mq x buf mq')
  then obtain F Q ps where iv: "mq_rep F Q (dom ts) mq" "tasks_ok ts mq" "msg_size mq = msg_size mq0"
      "max_msgs mq = max_msgs mq0" "list_all2 starts_with i ps" "mq_contents mq0 @ ps = out @ mq_contents mq"
    by (auto simp: steps_inv_def)
  have x: "x \<in> dom ts" using send_fill.hyps(2) by auto
  have "task_ok mq x (Filling buf)" using iv(2) send_fill.hyps(2) by (simp add: tasks_ok_def)
  then have m: "mq_rep F Q (dom ts) mq'" "mq_same {x} mq mq'" "msg_next (msg_pool mq' ! x) = None"
      "take (length buf) (payload mq' x) = buf"
    using mq_fill_msg_ok [OF iv(1) x, of buf] send_fill.hyps(3) by (auto simp: task_ok_def fits_def)
  have "tasks_ok (ts(x := Some (Filled buf))) mq'"
    by (rule tasks_ok_keep [OF iv(2) mq_sameD(1) [OF m(2)]])
      (use step_pools(2) [OF send_fill.hyps(3)] m(3,4) in \<open>auto simp: task_ok_def starts_with_def\<close>)
  moreover have "x \<notin> set Q" using iv(1) x by (auto simp: mq_rep_def)
  then have "mq_contents mq' = mq_contents mq"
    using mq_contents_rep [OF m(1)] mq_contents_rep [OF iv(1)] mq_same_payloads [OF m(2), of Q] by simp
  moreover have "dom (ts(x := Some (Filled buf))) = dom ts" using x by auto
  ultimately show ?case using m(1) iv mq_sameD(1,2) [OF m(2)] unfolding steps_inv_def by auto
next
  case (send_link ts i out mq x buf c mq')
  then obtain F Q ps where iv: "mq_rep F Q (dom ts) mq" "tasks_ok ts mq" "msg_size mq = msg_size mq0"
      "max_msgs mq = max_msgs mq0" "list_all2 starts_with i ps" "mq_contents mq0 @ ps = out @ mq_contents mq"
    by (auto simp: steps_inv_def)
  have x: "x \<in> dom ts" using send_link.hyps(2) by auto
  have task: "task_ok mq x (Filled buf)" using iv(2) send_link.hyps(2) by (simp add: tasks_ok_def)
  then have m: "mq_rep F (Q @ [x]) (dom ts - {x}) mq'" "mq_same {} mq mq'"
    using mq_link_ok [OF iv(1) x] send_link.hyps(3) by (auto simp: task_ok_def)
  have "msg_queue_tail mq \<noteq> Some n" if "n \<in> dom ts" for n
    using iv(1) that by (auto simp: mq_rep_def dest: last_in_set)
  then have "tasks_ok (ts(x := None)) mq'"
    by (intro tasks_ok_keep [OF iv(2) mq_sameD(1) [OF m(2)]])
      (use step_pools(3) [OF send_link.hyps(3)] in auto)
  moreover have "mq_contents mq' = mq_contents mq @ [payload mq x]"
    using mq_contents_rep [OF m(1)] mq_contents_rep [OF iv(1)] mq_same_payloads [OF m(2), of Q]
      mq_sameD(4) [OF m(2), of x] by simp
  then have "list_all2 starts_with (i @ [buf]) (ps @ [payload mq x])"
      "mq_contents mq0 @ (ps @ [payload mq x]) = out @ mq_contents mq'"
    using iv(5,6) task by (auto intro: list_all2_appendI simp: task_ok_def)
  moreover have "dom (ts(x := None)) = dom ts - {x}" by auto
  ultimately show ?case using m(1) iv(3,4) mq_sameD(1,2) [OF m(2)] unfolding steps_inv_def by metis
next
  case (recv_take ts i out mq x mq')
  then obtain F Q0 ps where iv: "mq_rep F Q0 (dom ts) mq" "tasks_ok ts mq" "msg_size mq = msg_size mq0"
      "max_msgs mq = max_msgs mq0" "list_all2 starts_with i ps" "mq_contents mq0 @ ps = out @ mq_contents mq"
    by (auto simp: steps_inv_def)
  obtain y Q where Q0: "Q0 = y # Q" using mq_free_iff(2) [OF iv(1)] recv_take.hyps(2) by (cases Q0) auto
  then have m: "y = x" "mq_rep F Q (insert x (dom ts)) mq'" "mq_same {} mq mq'"
    using mq_unlink_ok [of F y Q "dom ts" mq] iv(1) recv_take.hyps(3) by auto
  have "tasks_ok (ts(x := Some (Reading (payload mq x)))) mq'"
    by (rule tasks_ok_keep [OF iv(2) mq_sameD(1) [OF m(3)]])
      (use step_pools(4) [OF recv_take.hyps(3)] mq_sameD(4) [OF m(3), of x] in \<open>auto simp: task_ok_def\<close>)
  moreover have "mq_contents mq = payload mq x # mq_contents mq'"
    using mq_contents_rep [OF m(2)] mq_contents_rep [OF iv(1)] mq_same_payloads [OF m(3), of Q] Q0 m(1) by simp
  ultimately show ?case using m(2) iv mq_sameD(1,2) [OF m(3)] unfolding steps_inv_def by auto
next
  case (recv_free ts i out mq x p mq')
  then obtain F Q ps where iv: "mq_rep F Q (dom ts) mq" "tasks_ok ts mq" "msg_size mq = msg_size mq0"
      "max_msgs mq = max_msgs mq0" "list_all2 starts_with i ps" "mq_contents mq0 @ ps = out @ mq_contents mq"
    by (auto simp: steps_inv_def)
  have x: "x \<in> dom ts" using recv_free.hyps(2) by auto
  have m: "mq_rep (x # F) Q (dom ts - {x}) mq'" "mq_same {} mq mq'"
    using mq_push_free_ok [OF iv(1) x] recv_free.hyps(3) by auto
  have "tasks_ok (ts(x := None)) mq'"
    by (rule tasks_ok_keep [OF iv(2) mq_sameD(1) [OF m(2)]]) (use step_pools(5) [OF recv_free.hyps(3)] in auto)
  moreover have "mq_contents mq' = mq_contents mq"
    using mq_contents_rep [OF m(1)] mq_contents_rep [OF iv(1)] mq_same_payloads [OF m(2), of Q] by simp
  moreover have "dom (ts(x := None)) = dom ts - {x}" by auto
  ultimately show ?case using m(1) iv mq_sameD(1,2) [OF m(2)] unfolding steps_inv_def by auto
qed

subsection \<open>Sending and receiving\<close>

lemma set_mq_simps [simp]:
  "mqs (set_mq q b k) = (mqs k)(q := b)"
  "queues (set_mq q b k) = queues k" "threads (set_mq q b k) = threads k"
  "current_thread (set_mq q b k) = current_thread k" "objs (set_mq q b k) = objs k"
  "tick (set_mq q b k) = tick k" "interrupt_nest (set_mq q b k) = interrupt_nest k"
  "kernel_inv (set_mq q b k) = kernel_inv k" "is_mq q' (set_mq q b k) = is_mq q' k"
  "mqs (upd_thread t f k) = mqs k" "is_mq q (upd_thread t f k) = is_mq q k"
  by (simp_all add: set_mq_def is_mq_def rt_object_get_type_def) (simp add: upd_thread_def)

lemma is_mq_frame: "ipc_frame k k' \<Longrightarrow> is_mq q k' = is_mq q k"
  using ipc_frameD(13) by (simp add: is_mq_def)

definition mq_state :: "nat \<Rightarrow> kernel \<Rightarrow> bool" where
  "mq_state q k \<longleftrightarrow> kernel_inv k \<and> current_thread k \<noteq> None \<and> is_mq q k \<and> mq_ok (mqs k q)"

lemma mq_state_frame:
  "mq_state q k \<Longrightarrow> kernel_inv k' \<Longrightarrow> current_thread k' \<noteq> None \<Longrightarrow> ipc_frame k k' \<Longrightarrow> mq_state q k'"
  using is_mq_frame [of k k' q] ipc_frameD(5) [of k k'] by (simp add: mq_state_def)

text \<open>The end of a successful call: the new state of the queue is stored and the first thread waiting on
  the other side is woken.\<close>

lemma mq_wake_ok:
  assumes st: "mq_state q k" and mq: "mq_ok mq" and w: "wait_queue w"
  shows "\<exists>k'. wake_first w (set_mq q mq k) = Some k' \<and> mq_state q k' \<and> mqs k' q = mq \<and>
    queues k' w = tl (queues k w) \<and>
    (\<forall>u us. queues k w = u # us \<longrightarrow> error (threads k' u) = RT_EOK \<and>
       stat_class (threads k' u) \<in> {RT_THREAD_READY, RT_THREAD_RUNNING})"
proof -
  have "kernel_inv (set_mq q mq k)" "current_thread (set_mq q mq k) \<noteq> None"
    using st by (simp_all add: mq_state_def)
  from wake_first_ok [OF this w] obtain k' where k': "wake_first w (set_mq q mq k) = Some k'" "kernel_inv k'"
      "current_thread k' \<noteq> None" "ipc_frame (set_mq q mq k) k'" "queues k' w = tl (queues (set_mq q mq k) w)"
      "case queues (set_mq q mq k) w of [] \<Rightarrow> k' = set_mq q mq k | t # _ \<Rightarrow> handed t w (set_mq q mq k) k'"
    by blast
  have m: "mqs k' q = mq" using ipc_frameD(5) [OF k'(4)] by simp
  then have "mq_state q k'" using st k'(2,3) is_mq_frame [OF k'(4)] mq by (simp add: mq_state_def)
  moreover have "error (threads k' u) = RT_EOK \<and> stat_class (threads k' u) \<in> {RT_THREAD_READY, RT_THREAD_RUNNING}"
    if "queues k w = u # us" for u us
    using k'(6) that handedD(7,8) [of u w "set_mq q mq k" k'] by simp
  ultimately show ?thesis using k'(1,5) m by auto
qed

lemma mq_send_loop_ok:
  assumes st: "mq_state q k" and self: "self = current_thread k" and t: "current_thread k = Some t"
    and sta: "started (threads k t)" and f: "flag_ok f" and time: "sint timeout < 2147483647"
    and buf: "fits (mqs k q) buf"
    and ctx: "msg_queue_free (mqs k q) = None \<Longrightarrow> timeout \<noteq> 0 \<Longrightarrow> interrupt_nest k = 0"
  shows "\<exists>r k'. mq_send_loop q buf timeout f self k = Some (r, k') \<and> mq_state q k' \<and>
    (if length (mq_contents (mqs k q)) < mq_capacity (mqs k q)
     then r = Returned RT_EOK \<and> mq_put buf (mqs k q) = Some (mqs k' q)
     else mqs k' = mqs k \<and> r \<noteq> Returned RT_EOK)"
proof (cases "length (mq_contents (mqs k q)) < mq_capacity (mqs k q)")
  case True
  have ok: "mq_ok (mqs k q)" using st by (simp add: mq_state_def)
  obtain x mq where m: "msg_queue_free (mqs k q) = Some x" "mq_store x buf (mqs k q) = Some (True, mq)" "mq_ok mq"
    using mq_ok_store [OF ok True buf] by blast
  have "wait_queue (QMqRecv q)" by simp
  from mq_wake_ok [OF st m(3) this] obtain k' where
    k': "wake_first (QMqRecv q) (set_mq q mq k) = Some k'" "mq_state q k'" "mqs k' q = mq" by blast
  then have "mq_send_loop q buf timeout f self k = Some (Returned RT_EOK, k')"
    using m(1,2) by (simp add: mq_send_loop_def)
  then show ?thesis using True k'(2,3) m(1,2) by (simp add: mq_put_def)
next
  case False
  have ok: "mq_ok (mqs k q)" and inv: "kernel_inv k" using st by (simp_all add: mq_state_def)
  have full: "msg_queue_free (mqs k q) = None"
    using False mq_ok_free(1) [OF ok] mq_contents_bounded [OF ok] by simp
  let ?k = "upd_thread t (\<lambda>th. th\<lparr>error := - RT_EINTR\<rparr>) k"
  show ?thesis
  proof (cases "timeout = 0")
    case True
    have "mq_state q ?k" using st kernel_inv_upd_other [OF inv, of "\<lambda>th. th\<lparr>error := - RT_EINTR\<rparr>" t]
      by (simp add: mq_state_def)
    then show ?thesis using True False full self t by (simp add: mq_send_loop_def)
  next
    case tm: False
    have "wait_queue (QMqSend q)" by simp
    from ipc_wait_ok [OF inv t sta f this time, of "obj_flag (objs k (OMq q))"] obtain r k' where
      k': "ipc_block (QMqSend q) t (obj_flag (objs k (OMq q))) f timeout ?k = Some (r, k')"
        "kernel_inv k'" "current_thread k' \<noteq> None" "ipc_frame k k'" "r \<noteq> Returned RT_EOK"
      using errno_distinct [symmetric] by (fastforce split: call.splits)
    have "mq_send_loop q buf timeout f self k = Some (r, k')"
      using full tm self t k'(1) ctx [OF full tm]
      by (simp add: mq_send_loop_def in_thread_context_def in_interrupt_def Let_def)
    then show ?thesis using False k'(5) ipc_frameD(5) [OF k'(4)] mq_state_frame [OF st k'(2-4)] by simp
  qed
qed

lemma mq_recv_loop_ok:
  assumes st: "mq_state q k" and self: "self = current_thread k" and t: "current_thread k = Some t"
    and sta: "started (threads k t)" and f: "flag_ok f" and time: "sint timeout < 2147483647"
    and ctx: "mq_entry (mqs k q) = 0 \<Longrightarrow> interrupt_nest k = 0"
  shows "\<exists>r k'. mq_recv_loop q n timeout f self k = Some (r, k') \<and> mq_state q k' \<and>
    (case mq_contents (mqs k q) of
       y # ys \<Rightarrow> r = Returned (RT_EOK, Some (take n y)) \<and> mq_get (mqs k q) = Some (y, mqs k' q)
     | [] \<Rightarrow> mqs k' = mqs k \<and> (\<forall>e d. r \<noteq> Returned (e, Some d)))"
proof (cases "mq_contents (mqs k q)")
  case (Cons y ys)
  have ok: "mq_ok (mqs k q)" using st by (simp add: mq_state_def)
  obtain mq where m: "\<forall>n. mq_fetch n (mqs k q) = Some (take n y, mq)" "mq_ok mq" "length y = unat (msg_size (mqs k q))"
    using mq_ok_fetch [OF ok Cons] by blast
  have "wait_queue (QMqSend q)" by simp
  from mq_wake_ok [OF st m(2) this] obtain k' where
    k': "wake_first (QMqSend q) (set_mq q mq k) = Some k'" "mq_state q k'" "mqs k' q = mq" by blast
  have "mq_entry (mqs k q) \<noteq> 0" using mq_ok_free(2) [OF ok] Cons by simp
  then have "mq_recv_loop q n timeout f self k = Some (Returned (RT_EOK, Some (take n y)), k')"
    using m(1) k'(1) by (simp add: mq_recv_loop_def)
  then show ?thesis using Cons k'(2,3) m(1,3) by (simp add: mq_get_def)
next
  case Nil
  have ok: "mq_ok (mqs k q)" and inv: "kernel_inv k" using st by (simp_all add: mq_state_def)
  have empty: "mq_entry (mqs k q) = 0" using mq_ok_free(2) [OF ok] Nil by simp
  have nest: "interrupt_nest k = 0" by (rule ctx [OF empty])
  let ?k = "upd_thread t (\<lambda>th. th\<lparr>error := - RT_EINTR\<rparr>) k"
  show ?thesis
  proof (cases "timeout = 0")
    case True
    have "kernel_inv (upd_thread t (\<lambda>th. th\<lparr>error := - RT_ETIMEOUT\<rparr>) ?k)"
      by (rule kernel_inv_upd_other [OF kernel_inv_upd_other [OF inv]]) simp_all
    then have "mq_state q (upd_thread t (\<lambda>th. th\<lparr>error := - RT_ETIMEOUT\<rparr>) ?k)" using st by (simp add: mq_state_def)
    then show ?thesis using True Nil empty self t nest
      by (simp add: mq_recv_loop_def Let_def in_thread_context_def in_interrupt_def)
  next
    case tm: False
    have "wait_queue (QMqRecv q)" by simp
    from ipc_wait_ok [OF inv t sta f this time, of "obj_flag (objs k (OMq q))"] obtain r k' where
      k': "ipc_block (QMqRecv q) t (obj_flag (objs k (OMq q))) f timeout ?k = Some (r, k')"
        "kernel_inv k'" "current_thread k' \<noteq> None" "ipc_frame k k'"
      by blast
    have "mq_recv_loop q n timeout f self k =
        Some (case r of Returned err \<Rightarrow> Returned (err, None) | Waiting \<Rightarrow> Waiting, k')"
      using empty tm self t k'(1) nest
      by (simp add: mq_recv_loop_def in_thread_context_def in_interrupt_def Let_def)
    then show ?thesis
      using Nil ipc_frameD(5) [OF k'(4)] mq_state_frame [OF st k'(2-4)] by (cases r) auto
  qed
qed

subsection \<open>Histories\<close>

inductive mq_trace :: "nat \<Rightarrow> kernel \<Rightarrow> u8 list list \<Rightarrow> (nat \<times> u8 list) list \<Rightarrow> kernel \<Rightarrow> bool" for q :: nat and k0 :: kernel where
  start: "mq_trace q k0 [] [] k0"
| sent: "mq_trace q k0 i out k \<Longrightarrow> current_thread k = Some t \<Longrightarrow> started (threads k t) \<Longrightarrow> flag_ok f \<Longrightarrow>
    sint timeout < 2147483647 \<Longrightarrow> mq_send_wait q buf timeout f k = Some (r, k') \<Longrightarrow>
    mq_trace q k0 (if r = Returned RT_EOK then i @ [buf] else i) out k'"
| send_resumed: "mq_trace q k0 i out k \<Longrightarrow> current_thread k = Some t \<Longrightarrow> started (threads k t) \<Longrightarrow> flag_ok f \<Longrightarrow>
    sint (time_left timeout start k) < 2147483647 \<Longrightarrow> fits (mqs k q) buf \<Longrightarrow>
    mq_send_resume q buf timeout start f t k = Some (r, k') \<Longrightarrow>
    mq_trace q k0 (if r = Returned RT_EOK then i @ [buf] else i) out k'"
| received: "mq_trace q k0 i out k \<Longrightarrow> current_thread k = Some t \<Longrightarrow> started (threads k t) \<Longrightarrow> flag_ok f \<Longrightarrow>
    sint timeout < 2147483647 \<Longrightarrow> mq_recv q n timeout f k = Some (r, k') \<Longrightarrow>
    mq_trace q k0 i (case r of Returned (e, Some d) \<Rightarrow> out @ [(n, d)] | _ \<Rightarrow> out) k'"
| recv_resumed: "mq_trace q k0 i out k \<Longrightarrow> current_thread k = Some t \<Longrightarrow> started (threads k t) \<Longrightarrow> flag_ok f \<Longrightarrow>
    sint (time_left timeout start k) < 2147483647 \<Longrightarrow> mq_recv_resume q n timeout start f t k = Some (r, k') \<Longrightarrow>
    mq_trace q k0 i (case r of Returned (e, Some d) \<Rightarrow> out @ [(n, d)] | _ \<Rightarrow> out) k'"
| timed_out: "mq_trace q k0 i out k \<Longrightarrow> ThreadTimer t \<in> set (timer_lists k LHard) \<Longrightarrow>
    timer_lists k LTmpHard = [] \<Longrightarrow> timer_fire call (ThreadTimer t) k = Some k' \<Longrightarrow> mq_trace q k0 i out k'"

text \<open>What a receiver that asked for \<open>n\<close> bytes got of a payload of \<open>s\<close> bytes.\<close>

fun delivered :: "nat \<Rightarrow> nat \<times> u8 list \<Rightarrow> u8 list \<Rightarrow> bool" where
  "delivered s (n, d) y \<longleftrightarrow> length y = s \<and> d = take n y"

definition mq_hist :: "nat \<Rightarrow> rt_messagequeue \<Rightarrow> u8 list list \<Rightarrow> (nat \<times> u8 list) list \<Rightarrow> kernel \<Rightarrow> bool" where
  "mq_hist q mq0 i out k \<longleftrightarrow> mq_state q k \<and> msg_size (mqs k q) = msg_size mq0 \<and>
     (\<exists>ys. mqq.history mq0 i ys (mqs k q) \<and> list_all2 (delivered (unat (msg_size mq0))) out ys)"

lemma mq_hist_same: "mq_hist q mq0 i out k \<Longrightarrow> mq_state q k' \<Longrightarrow> mqs k' q = mqs k q \<Longrightarrow> mq_hist q mq0 i out k'"
  by (simp add: mq_hist_def)

lemma mq_send_loop_history:
  assumes h: "mq_hist q mq0 i out k" and t: "current_thread k = Some t" "started (threads k t)"
    "flag_ok f" "sint timeout < 2147483647" and fit: "fits (mqs k q) buf"
    and run: "mq_send_loop q buf timeout f (Some t) k = Some (r, k')"
  shows "mq_hist q mq0 (if r = Returned RT_EOK then i @ [buf] else i) out k'"
proof -
  have st: "mq_state q k" using h by (simp add: mq_hist_def)
  have "interrupt_nest k = 0" if "msg_queue_free (mqs k q) = None" "timeout \<noteq> 0"
    using run that by (simp add: mq_send_loop_def in_thread_context_def in_interrupt_def Let_def split: if_splits)
  from mq_send_loop_ok [OF st _ t fit this, of "Some t"] run t(1)
  have *: "mq_state q k'"
      "if length (mq_contents (mqs k q)) < mq_capacity (mqs k q)
       then r = Returned RT_EOK \<and> mq_put buf (mqs k q) = Some (mqs k' q) else mqs k' = mqs k \<and> r \<noteq> Returned RT_EOK"
    by (auto split: if_splits)
  show ?thesis
  proof (cases "length (mq_contents (mqs k q)) < mq_capacity (mqs k q)")
    case True
    then have r: "r = Returned RT_EOK" "mq_put buf (mqs k q) = Some (mqs k' q)" using *(2) by simp_all
    obtain ys where ys: "mqq.history mq0 i ys (mqs k q)" "list_all2 (delivered (unat (msg_size mq0))) out ys"
      and sz: "msg_size (mqs k q) = msg_size mq0" using h by (auto simp: mq_hist_def)
    have "mq_ok (mqs k q)" using st by (simp add: mq_state_def)
    from mq_ok_store [OF this True fit] r(2) have "msg_size (mqs k' q) = msg_size mq0" by (auto simp: mq_put_def sz)
    moreover
    have "mqq.history mq0 (i @ [buf]) ys (mqs k' q)" by (rule mqq.history.put [OF ys(1) True fit r(2)])
    ultimately show ?thesis using *(1) r(1) ys(2) by (auto simp: mq_hist_def)
  next
    case False
    then show ?thesis using * mq_hist_same [OF h *(1)] by simp
  qed
qed

lemma mq_recv_loop_history:
  assumes h: "mq_hist q mq0 i out k" and t: "current_thread k = Some t" "started (threads k t)"
    "flag_ok f" "sint timeout < 2147483647" and run: "mq_recv_loop q n timeout f (Some t) k = Some (r, k')"
  shows "mq_hist q mq0 i (case r of Returned (e, Some d) \<Rightarrow> out @ [(n, d)] | _ \<Rightarrow> out) k'"
proof -
  have st: "mq_state q k" using h by (simp add: mq_hist_def)
  have "interrupt_nest k = 0" if "mq_entry (mqs k q) = 0"
    using run that by (simp add: mq_recv_loop_def in_thread_context_def in_interrupt_def Let_def split: if_splits)
  from mq_recv_loop_ok [OF st _ t this, of "Some t" n] run t(1)
  have *: "mq_state q k'" "case mq_contents (mqs k q) of
       y # ys \<Rightarrow> r = Returned (RT_EOK, Some (take n y)) \<and> mq_get (mqs k q) = Some (y, mqs k' q)
     | [] \<Rightarrow> mqs k' = mqs k \<and> (\<forall>e d. r \<noteq> Returned (e, Some d))"
    by auto
  show ?thesis
  proof (cases "mq_contents (mqs k q)")
    case (Cons y ys)
    then have r: "r = Returned (RT_EOK, Some (take n y))" "mq_get (mqs k q) = Some (y, mqs k' q)"
      using *(2) by simp_all
    have "mq_ok (mqs k q)" using st by (simp add: mq_state_def)
    from mq_ok_fetch [OF this Cons] r(2) have "msg_size (mqs k' q) = msg_size (mqs k q)" "length y = unat (msg_size (mqs k q))"
      by (auto simp: mq_get_def)
    then have sz: "msg_size (mqs k' q) = msg_size mq0" "length y = unat (msg_size mq0)" using h by (simp_all add: mq_hist_def)
    obtain zs where "mqq.history mq0 i zs (mqs k q)" "list_all2 (delivered (unat (msg_size mq0))) out zs"
      using h by (auto simp: mq_hist_def)
    then have "mqq.history mq0 i (zs @ [y]) (mqs k' q)"
        "list_all2 (delivered (unat (msg_size mq0))) (out @ [(n, take n y)]) (zs @ [y])"
      using mqq.history.get [OF _ _ r(2)] Cons sz(2) by (auto intro: list_all2_appendI)
    with sz(1) show ?thesis using *(1) r(1) by (auto simp: mq_hist_def)
  next
    case Nil
    then show ?thesis using * mq_hist_same [OF h *(1)] by (auto split: call.splits option.splits)
  qed
qed

lemma mq_trace_history:
  assumes "mq_trace q k0 i out k" and "mq_state q k0"
  shows "mq_hist q (mqs k0 q) i out k"
  using assms
proof (induction rule: mq_trace.induct)
  case start
  then show ?case using mqq.history.start by (auto simp: mq_hist_def)
next
  case (sent i out k t f timeout buf r k')
  have h: "mq_hist q (mqs k0 q) i out k" by (rule sent.IH [OF sent.prems])
  consider "r \<noteq> Returned RT_EOK" "k' = k" |
    "fits (mqs k q) buf" "mq_send_loop q buf timeout f (Some t) k = Some (r, k')"
    using sent.hyps(2,6) errno_distinct
    by (auto simp: mq_send_wait_def fits_def rt_thread_self_def split: if_splits)
  then show ?case
    using h mq_send_loop_history [OF h sent.hyps(2-5)] by cases simp_all
next
  case (send_resumed i out k t f timeout start buf r k')
  have h: "mq_hist q (mqs k0 q) i out k" by (rule send_resumed.IH [OF send_resumed.prems])
  show ?case
  proof (cases "error (threads k t) = RT_EOK")
    case True
    then have "mq_send_loop q buf (time_left timeout start k) f (Some t) k = Some (r, k')"
      using send_resumed.hyps(7) by (simp add: mq_send_resume_def)
    then show ?thesis by (rule mq_send_loop_history [OF h send_resumed.hyps(2-6)])
  next
    case False
    then show ?thesis using send_resumed.hyps(7) h by (auto simp: mq_send_resume_def)
  qed
next
  case (received i out k t f timeout n r k')
  have h: "mq_hist q (mqs k0 q) i out k" by (rule received.IH [OF received.prems])
  show ?case
  proof (cases "mq_entry (mqs k q) = 0 \<and> timeout = 0")
    case True
    then have "r = Returned (- RT_ETIMEOUT, None)" "k' = k" using received.hyps(6) by (auto simp: mq_recv_def split: if_splits)
    then show ?thesis using h by simp
  next
    case False
    then have "mq_recv_loop q n timeout f (Some t) k = Some (r, k')"
      using received.hyps(2,6) by (auto simp: mq_recv_def rt_thread_self_def split: if_splits)
    then show ?thesis by (rule mq_recv_loop_history [OF h received.hyps(2-5)])
  qed
next
  case (recv_resumed i out k t f timeout start n r k')
  have h: "mq_hist q (mqs k0 q) i out k" by (rule recv_resumed.IH [OF recv_resumed.prems])
  show ?case
  proof (cases "error (threads k t) = RT_EOK")
    case True
    then have "mq_recv_loop q n (time_left timeout start k) f (Some t) k = Some (r, k')"
      using recv_resumed.hyps(6) by (simp add: mq_recv_resume_def)
    then show ?thesis by (rule mq_recv_loop_history [OF h recv_resumed.hyps(2-5)])
  next
    case False
    then show ?thesis using recv_resumed.hyps(6) h by (auto simp: mq_recv_resume_def)
  qed
next
  case (timed_out i out k t call k')
  have h: "mq_hist q (mqs k0 q) i out k" by (rule timed_out.IH [OF timed_out.prems])
  then have st: "mq_state q k" and inv: "kernel_inv k" "current_thread k \<noteq> None"
    by (simp_all add: mq_hist_def mq_state_def)
  from timer_fire_thread [OF inv(1) timed_out.hyps(2,3) inv(2), of call] timed_out.hyps(4)
  have k': "kernel_inv k'" "current_thread k' \<noteq> None" "ipc_frame k k'" by auto
  then show ?case using mq_hist_same [OF h mq_state_frame [OF st k']] ipc_frameD(5) [OF k'(3)] by simp
qed

subsection \<open>A sample state\<close>

text \<open>A queue of two messages of two bytes; one message, and thread 3 waiting to receive.\<close>

definition sample_msgq :: rt_messagequeue where
  "sample_msgq = \<lparr>msg_pool = [\<lparr>msg_next = None, msg_data = [5, 6, 0]\<rparr>, \<lparr>msg_next = None, msg_data = [8, 9, 0]\<rparr>],
     msg_size = 2, max_msgs = 2, mq_entry = 1, msg_queue_head = Some 0, msg_queue_tail = Some 0,
     msg_queue_free = Some 1\<rparr>"

definition sample_mq :: kernel where
  "sample_mq = set_mq 0 sample_msgq (sample_wait (QMqRecv 0))"

lemma sample_msgq_rep: "mq_rep [1] [0] {} sample_msgq"
proof -
  have "{..<2 :: nat} = {1, 0}" by auto
  then have "{..<unat (max_msgs sample_msgq)} = {1, 0}" by (simp add: sample_msgq_def)
  moreover have "\<forall>n < unat (max_msgs sample_msgq). unat (msg_size sample_msgq) \<le> length (msg_data (msg_pool sample_msgq ! n))"
    by code_simp
  ultimately show ?thesis unfolding mq_rep_def by (simp add: sample_msgq_def)
qed

lemma sample_mq_facts:
  "mq_state 0 sample_mq" "current_thread sample_mq = Some 1" "started (threads sample_mq 1)"
  "stat_class (threads sample_mq 1) = RT_THREAD_RUNNING" "mqs sample_mq 0 = sample_msgq"
  "queues sample_mq (QMqRecv 0) = [3]" "mq_contents sample_msgq = [[5, 6]]"
proof -
  have "kernel_inv sample_mq" using sample_wait_inv [of "QMqRecv 0"] by (simp add: sample_mq_def)
  then show "mq_state 0 sample_mq"
    using mq_okI [OF sample_msgq_rep]
    by (simp add: mq_state_def is_mq_def rt_object_get_type_def sample_mq_def sample_wait_def
        sample_waiting_defs rt_defs)
  show "mq_contents sample_msgq = [[5, 6]]" by code_simp
qed (simp_all add: sample_mq_def sample_wait_def sample_waiting_defs started_def stat_class_def rt_defs)

subsection \<open>Properties\<close>

text \<open>C9: A message queue delivers messages exactly once, in order and with the length asked for.  Over any
  history of sends and receives with buffers of any size, of waits, continuations and timeouts: the
  payloads in the queue at the start, followed by one payload for each send that returned \<open>RT_EOK\<close>, which
  begins with the bytes sent, are the payloads handed out, followed by the payloads still queued; a
  receiver that asked for \<open>n\<close> bytes got exactly the first \<open>n\<close> bytes of its payload, or all the bytes
  of a message of the queue when it asked for more; the number queued stays within the number
  of slots.\<close>

theorem mq_fifo_history:
  assumes "mq_trace q k0 sent recvd k" and "kernel_inv k0" and "current_thread k0 \<noteq> None" and "is_mq q k0"
    and "mq_ok (mqs k0 q)"
  shows "\<exists>ps ys. list_all2 starts_with sent ps
    \<and> list_all2 (\<lambda>(n, d) y. length y = unat (msg_size (mqs k0 q)) \<and> d = take n y) recvd ys
    \<and> mq_contents (mqs k0 q) @ ps = ys @ mq_contents (mqs k q)
    \<and> length (mq_contents (mqs k q)) \<le> mq_capacity (mqs k0 q) \<and> kernel_inv k"
proof -
  have "mq_state q k0" using assms(2-5) by (simp add: mq_state_def)
  then have "mq_hist q (mqs k0 q) sent recvd k" by (rule mq_trace_history [OF assms(1)])
  then obtain ys where h: "kernel_inv k" "mqq.history (mqs k0 q) sent ys (mqs k q)" "list_all2 (delivered (unat (msg_size (mqs k0 q)))) recvd ys"
    by (auto simp: mq_hist_def mq_state_def)
  obtain ps where "list_all2 starts_with sent ps" "mq_contents (mqs k0 q) @ ps = ys @ mq_contents (mqs k q)"
    using mqq.history_inv(2) [OF h(2) assms(5)] by blast
  moreover have "list_all2 (\<lambda>(n, d) y. length y = unat (msg_size (mqs k0 q)) \<and> d = take n y) recvd ys"
    using h(3) by (rule list_all2_mono) auto
  ultimately show ?thesis using h mqq.history_inv(4) [OF h(2) assms(5)] by blast
qed

theorem mq_fifo_history_witness:
  "\<exists>k ps ys. mq_trace 0 sample_mq [[1]] [(1, [5])] k \<and> list_all2 starts_with [[1]] ps \<and>
    list_all2 (\<lambda>(n, d) y. length y = 2 \<and> d = take n y) [(1, [5])] ys \<and>
    [[5, 6]] @ ps = ys @ mq_contents (mqs k 0)"
proof -
  let ?k1 = "snd (the (mq_send_wait 0 [1] 0 RT_UNINTERRUPTIBLE sample_mq))"
  let ?k2 = "snd (the (mq_recv 0 1 0 RT_UNINTERRUPTIBLE ?k1))"
  have r1: "map_option fst (mq_send_wait 0 [1] 0 RT_UNINTERRUPTIBLE sample_mq) = Some (Returned 0)"
    and r2: "map_option fst (mq_recv 0 1 0 RT_UNINTERRUPTIBLE ?k1) = Some (Returned (0, Some [5]))"
    and c: "current_thread ?k1 = Some 2" "stat (threads ?k1 2) = 3"
    by code_simp+
  have s1: "mq_send_wait 0 [1] 0 RT_UNINTERRUPTIBLE sample_mq = Some (Returned RT_EOK, ?k1)"
    using r1 by (auto simp: rt_defs)
  have s2: "mq_recv 0 1 0 RT_UNINTERRUPTIBLE ?k1 = Some (Returned (RT_EOK, Some [5]), ?k2)"
    using r2 by (auto simp: rt_defs)
  have f: "flag_ok RT_UNINTERRUPTIBLE" "sint (0 :: 32 word) < 2147483647" "started (threads ?k1 2)"
    using c(2) by (simp_all add: flag_ok_def started_def stat_class_def rt_defs)
  have t1: "mq_trace 0 sample_mq [[1]] [] ?k1"
    using mq_trace.sent [OF mq_trace.start sample_mq_facts(2,3) f(1,2) s1] by simp
  have t2: "mq_trace 0 sample_mq [[1]] [(1, [5])] ?k2"
    using mq_trace.received [OF t1 c(1) f(3) f(1,2) s2] by simp
  have "kernel_inv sample_mq" "current_thread sample_mq \<noteq> None" "is_mq 0 sample_mq" "mq_ok (mqs sample_mq 0)"
    using sample_mq_facts(1) by (simp_all add: mq_state_def)
  moreover have "unat (msg_size (mqs sample_mq 0)) = 2" by (simp add: sample_mq_facts(5) sample_msgq_def)
  ultimately show ?thesis using mq_fifo_history [OF t2] t2 sample_mq_facts(5,7) by auto
qed

text \<open>C5: The copies outside the critical sections are safe.  Interleave the atomic steps of any number
  of senders and receivers (take a node, fill it, link it; unlink a node, read it, free it) in any
  order, starting with a well-formed queue: messages keep the order in which they were linked, every
  receiver that still reads finds exactly the payload its message had when it was unlinked, every
  sender's next step succeeds and the count never overflows, and no node is in two places.\<close>

theorem mq_preemption_safe:
  assumes "mq_steps mq0 ts sent taken mq" and "mq_ok mq0"
  shows "(\<exists>ps. list_all2 starts_with sent ps \<and> mq_contents mq0 @ ps = taken @ mq_contents mq)
    \<and> (\<forall>x p n. ts x = Some (Reading p) \<and> n \<le> unat (msg_size mq) \<longrightarrow> mq_read x n mq = Some (take n p))
    \<and> (\<forall>x buf. ts x = Some (Filling buf) \<longrightarrow> mq_fill_msg x buf mq \<noteq> None)
    \<and> (\<forall>x buf. ts x = Some (Filled buf) \<longrightarrow> (\<exists>mq'. mq_link x mq = Some (True, mq')))
    \<and> (\<exists>F Q. mq_rep F Q (dom ts) mq)"
proof -
  obtain F Q where rep: "mq_rep F Q (dom ts) mq" and ts: "tasks_ok ts mq"
    and ord: "\<exists>ps. list_all2 starts_with sent ps \<and> mq_contents mq0 @ ps = taken @ mq_contents mq"
    using mq_steps_inv [OF assms] by (auto simp: steps_inv_def)
  have task: "task_ok mq x task" "x \<in> dom ts" if "ts x = Some task" for x task
    using ts that by (auto simp: tasks_ok_def)
  have "mq_read x n mq = Some (take n p)" if "ts x = Some (Reading p)" "n \<le> unat (msg_size mq)" for x p n
    using mq_read_ok [OF rep task(2) that(2)] task(1) [OF that(1)] that(1) by (auto simp: task_ok_def)
  moreover have "mq_fill_msg x buf mq \<noteq> None" if "ts x = Some (Filling buf)" for x buf
    using mq_fill_msg_ok [OF rep task(2) [OF that], of buf] task(1) [OF that] by (auto simp: task_ok_def fits_def)
  moreover have "\<exists>mq'. mq_link x mq = Some (True, mq')" if "ts x = Some (Filled buf)" for x buf
    using mq_link_ok [OF rep task(2) [OF that]] task(1) [OF that] by (auto simp: task_ok_def)
  ultimately show ?thesis using ord rep by blast
qed

theorem mq_preemption_safe_witness:
  "\<exists>mq. mq_steps sample_msgq ((\<lambda>_. None)(1 := Some (Filling [7]), 0 := Some (Reading [5, 6]))) [] [[5, 6]] mq
    \<and> mq_read 0 2 mq = Some [5, 6] \<and> mq_fill_msg 1 [7] mq \<noteq> None"
proof -
  let ?m1 = "the (mq_alloc 1 sample_msgq)" and ?t1 = "(\<lambda>_. None)(1 := Some (Filling [7]))"
  let ?m2 = "snd (the (mq_unlink ?m1))"
  have c: "mq_alloc 1 sample_msgq \<noteq> None" "map_option fst (mq_unlink ?m1) = Some 0"
      "payload ?m1 0 = [5, 6]" "mq_entry ?m1 \<noteq> 0" "msg_queue_free sample_msgq = Some 1"
    by code_simp+
  have f: "fits sample_msgq [7]" "2 \<le> unat (msg_size ?m2)"
    by (simp add: fits_def sample_msgq_def) code_simp
  have "mq_alloc 1 sample_msgq = Some ?m1" using c(1) by auto
  then have s1: "mq_steps sample_msgq ?t1 [] [] ?m1"
    using mq_steps.send_take [OF mq_steps.start c(5) f(1)] by simp
  have "mq_unlink ?m1 = Some (0, ?m2)" using c(2) by auto
  from mq_steps.recv_take [OF s1 c(4) this]
  have s2: "mq_steps sample_msgq (?t1(0 := Some (Reading [5, 6]))) [] [[5, 6]] ?m2"
    unfolding c(3) by simp
  from mq_preemption_safe [OF s2 mq_okI [OF sample_msgq_rep]]
  have "mq_read 0 2 ?m2 = Some (take 2 [5, 6])" "mq_fill_msg 1 [7] ?m2 \<noteq> None" using f(2) by auto
  then show ?thesis using s2 by auto
qed

text \<open>An urgent message overtakes all others.  It becomes the next message to be received, the first
  waiting receiver is woken with \<open>RT_EOK\<close>; a message longer than a slot is refused with \<open>-RT_ERROR\<close> and
  a full queue with \<open>-RT_EFULL\<close>, both without any change.\<close>

lemma mq_urgent_first:
  assumes "kernel_inv k" and "current_thread k \<noteq> None" and "is_mq q k" and "mq_ok (mqs k q)" and "buf \<noteq> []"
  shows "\<exists>r k'. rt_mq_urgent q buf k = Some (r, k') \<and>
    (if unat (msg_size (mqs k q)) < length buf then r = - RT_ERROR \<and> k' = k
     else if length (mq_contents (mqs k q)) = mq_capacity (mqs k q) then r = - RT_EFULL \<and> k' = k
     else r = RT_EOK \<and> kernel_inv k' \<and> mq_ok (mqs k' q) \<and>
       (\<exists>y. starts_with buf y \<and> mq_contents (mqs k' q) = y # mq_contents (mqs k q)) \<and>
       queues k' (QMqRecv q) = tl (queues k (QMqRecv q)) \<and>
       (\<forall>u us. queues k (QMqRecv q) = u # us \<longrightarrow> error (threads k' u) = RT_EOK \<and>
          stat_class (threads k' u) \<in> {RT_THREAD_READY, RT_THREAD_RUNNING}))"
proof (cases "unat (msg_size (mqs k q)) < length buf \<or> length (mq_contents (mqs k q)) = mq_capacity (mqs k q)")
  case True
  then show ?thesis using assms mq_ok_free(1) [OF assms(4)] by (auto simp: rt_mq_urgent_def)
next
  case False
  obtain F0 Q where rep0: "mq_rep F0 Q {} (mqs k q)" using assms(4) by (auto simp: mq_ok_def)
  then obtain x F where rep: "mq_rep (x # F) Q {} (mqs k q)"
    using False mq_rep_count(1) [OF rep0] mq_contents_rep [OF rep0] by (cases F0) (auto simp: mq_capacity_def)
  have fit: "length buf \<le> unat (msg_size (mqs k q))" using False by simp
  obtain mq y where m: "mq_store_urgent x buf (mqs k q) = Some (True, mq)" "mq_rep F (x # Q) {} mq"
      "take (length buf) y = buf" "mq_contents mq = y # mq_contents (mqs k q)"
    using mq_store_urgent_ok [OF rep fit] by blast
  have st: "mq_state q k" and w: "wait_queue (QMqRecv q)" using assms by (simp_all add: mq_state_def)
  obtain k' where k': "wake_first (QMqRecv q) (set_mq q mq k) = Some k'" "mq_state q k'" "mqs k' q = mq"
      "queues k' (QMqRecv q) = tl (queues k (QMqRecv q))"
      "\<forall>u us. queues k (QMqRecv q) = u # us \<longrightarrow> error (threads k' u) = RT_EOK \<and>
         stat_class (threads k' u) \<in> {RT_THREAD_READY, RT_THREAD_RUNNING}"
    using mq_wake_ok [OF st mq_okI [OF m(2)] w] by blast
  have "msg_queue_free (mqs k q) = Some x" using mq_free_iff(1) [OF rep] by simp
  then have "rt_mq_urgent q buf k = Some (RT_EOK, k')"
    using assms(3,5) fit m(1) k'(1) by (simp add: rt_mq_urgent_def)
  then show ?thesis using False m(3,4) k'(2-5) by (auto simp: starts_with_def mq_state_def)
qed

text \<open>A reset of a message queue returns, however long the queue and the lists of waiting threads
  are: all messages are discarded and every slot is free again, every waiting sender and receiver is
  made runnable with the result \<open>-RT_ERROR\<close>, and the invariants hold.\<close>

lemma mq_reset_terminates:
  assumes "kernel_inv k" and "current_thread k \<noteq> None" and "is_mq q k" and "mq_ok (mqs k q)"
  shows "\<exists>k'. rt_mq_control q RT_IPC_CMD_RESET k = Some (RT_EOK, k') \<and> kernel_inv k' \<and> mq_ok (mqs k' q)
    \<and> mq_contents (mqs k' q) = [] \<and> mq_capacity (mqs k' q) = mq_capacity (mqs k q)
    \<and> queues k' (QMqRecv q) = [] \<and> queues k' (QMqSend q) = []
    \<and> (\<forall>t. t \<in> set (queues k (QMqRecv q)) \<union> set (queues k (QMqSend q)) \<longrightarrow> error (threads k' t) = - RT_ERROR \<and>
         stat_class (threads k' t) \<in> {RT_THREAD_READY, RT_THREAD_RUNNING})"
proof -
  obtain F Q where rep: "mq_rep F Q {} (mqs k q)" using assms(4) by (auto simp: mq_ok_def)
  have "wait_queue (QMqRecv q)" "wait_queue (QMqSend q)" by simp_all
  then obtain k1 where k1: "rt_ipc_list_resume_all (QMqRecv q) k = Some (RT_EOK, k1)" "all_woken (QMqRecv q) k k1"
    using rt_ipc_list_resume_all_ok [OF assms(1)] by blast
  have inv1: "kernel_inv k1" using k1(2) by (simp add: all_woken_def)
  obtain k2 where k2: "rt_ipc_list_resume_all (QMqSend q) k1 = Some (RT_EOK, k2)" "all_woken (QMqSend q) k1 k2"
    using rt_ipc_list_resume_all_ok [OF inv1 \<open>wait_queue (QMqSend q)\<close>] by blast
  have mqs2: "mqs k2 = mqs k"
    using k1(2) k2(2) ipc_frameD(5) [of k k1] ipc_frameD(5) [of k1 k2] by (simp add: all_woken_def)
  have "mq_rep F Q {} ((mqs k q)\<lparr>mq_entry := mq_entry (mqs k q)\<rparr>)" using rep by simp
  from mq_reset_loop_ok [OF this] obtain mq where m: "mq_reset_loop (mqs k q) = Some mq"
      "mq_rep (rev Q @ F) [] {} (mq\<lparr>mq_entry := 0\<rparr>)" "max_msgs mq = max_msgs (mqs k q)" by blast
  let ?k3 = "set_mq q (mq\<lparr>mq_entry := 0\<rparr>) k2"
  have inv3: "kernel_inv ?k3" using k2(2) by (simp add: all_woken_def)
  obtain c where "current_thread ?k3 = Some c" using assms(2) k1(2) k2(2) by (auto simp: all_woken_def)
  from rt_schedule_ok [OF inv3 this] obtain k' where k': "rt_schedule ?k3 = Some k'" "kernel_inv k'"
      "sched_frame ?k3 k'" "ipc_frame ?k3 k'"
      "\<forall>t. stat_class (threads ?k3 t) \<in> {RT_THREAD_READY, RT_THREAD_RUNNING} \<longrightarrow>
           stat_class (threads k' t) \<in> {RT_THREAD_READY, RT_THREAD_RUNNING}" by blast
  have "rt_mq_control q RT_IPC_CMD_RESET k = Some (RT_EOK, k')"
    using assms(3) k1(1) k2(1) mqs2 m(1) k'(1) by (simp add: rt_mq_control_def)
  moreover have "mqs k' q = mq\<lparr>mq_entry := 0\<rparr>" using ipc_frameD(5) [OF k'(4)] by simp
  moreover have "queues k2 (QMqRecv q) = []" "queues k2 (QMqSend q) = []"
    using k1(2) k2(2) by (simp_all add: all_woken_def)
  then have "queues k' (QMqRecv q) = []" "queues k' (QMqSend q) = []"
    using sched_frameD(18) [OF k'(3), of "QMqRecv q"] sched_frameD(18) [OF k'(3), of "QMqSend q"] by simp_all
  moreover have "error (threads k' t) = - RT_ERROR \<and> stat_class (threads k' t) \<in> {RT_THREAD_READY, RT_THREAD_RUNNING}"
    if t: "t \<in> set (queues k (QMqRecv q)) \<union> set (queues k (QMqSend q))" for t
  proof -
    have qs: "queues k1 (QMqSend q) = queues k (QMqSend q)" using k1(2) by (simp add: all_woken_def)
    have "error (threads k2 t) = - RT_ERROR \<and> stat_class (threads k2 t) \<in> {RT_THREAD_READY, RT_THREAD_RUNNING}"
    proof (cases "t \<in> set (queues k1 (QMqSend q))")
      case True
      then show ?thesis using k2(2) unfolding all_woken_def by blast
    next
      case False
      then have "threads k2 t = threads k1 t" "t \<in> set (queues k (QMqRecv q))"
        using k2(2) t qs unfolding all_woken_def by auto
      then show ?thesis using k1(2) unfolding all_woken_def by simp
    qed
    then show ?thesis using k'(5) sched_frame_thread(1) [OF k'(3), of t] by auto
  qed
  moreover have "mq_contents (mq\<lparr>mq_entry := 0\<rparr>) = []" using mq_contents_rep [OF m(2)] by simp
  ultimately show ?thesis
    using k'(2) m(3) mq_okI [OF m(2)] by (auto simp: mq_capacity_def)
qed

end
