(* ===== verification/MemPool.thy ===== *)
theory MemPool
  imports Mutex Mailbox
begin

text \<open>
  The memory pools of \<^verbatim>\<open>src/mempool.c\<close>: blocks of one size, each headed by a word that links the free
  blocks and names the pool while the block is allocated.  Blocks are named by their index.  \<open>mp_alloc_loop\<close>
  is one round of the loop of \<^verbatim>\<open>rt_mp_alloc\<close>, from the test of the loop to the wait or to the end of the
  call; \<open>rt_mp_alloc_resume\<close> goes on after the wait.  Waiting threads are queued in front, so the last one
  to wait is served first.
\<close>

subsection \<open>Operations\<close>

definition is_mp :: "nat \<Rightarrow> kernel \<Rightarrow> bool" where
  "is_mp m k \<longleftrightarrow> rt_object_get_type (OMemPool m) k = RT_Object_Class_MemPool"

definition set_mp :: "nat \<Rightarrow> rt_mempool \<Rightarrow> kernel \<Rightarrow> kernel" where
  "set_mp m b k = k\<lparr>mempools := (mempools k)(m := b)\<rparr>"

text \<open>Writing the head of a block; outside the memory of the pool there is none.\<close>

definition set_head :: "nat \<Rightarrow> block_header \<Rightarrow> block_header list \<Rightarrow> block_header list option" where
  "set_head i h blocks = (if i < length blocks then Some (blocks[i := h]) else None)"

text \<open>The loop that links all blocks, and the end of the chain: with no block at all the last write
  is in front of the pool.\<close>

fun mp_link_loop :: "nat \<Rightarrow> block_header list \<Rightarrow> block_header list option" where
  "mp_link_loop 0 blocks = Some blocks"
| "mp_link_loop (Suc offset) blocks = do {
     blocks \<leftarrow> mp_link_loop offset blocks;
     set_head offset (HNext (Some (offset + 1))) blocks
   }"

definition mp_link :: "nat \<Rightarrow> block_header list \<Rightarrow> block_header list option" where
  "mp_link count blocks = do {
     blocks \<leftarrow> mp_link_loop count blocks;
     if count = 0 then None else set_head (count - 1) (HNext None) blocks
   }"

text \<open>\<open>blocks\<close> is the memory at \<^verbatim>\<open>start\<close>, seen as block heads.\<close>

definition rt_mp_init ::
  "nat \<Rightarrow> u8 list \<Rightarrow> block_header list \<Rightarrow> u64 \<Rightarrow> u64 \<Rightarrow> kernel \<Rightarrow> (int \<times> kernel) option" where
  "rt_mp_init m name blocks sz block_sz k = do {
     rt_assert (0 < sz \<and> 0 < block_sz);
     k \<leftarrow> rt_object_init (OMemPool m) RT_Object_Class_MemPool name k;
     let sz = word_of_int (RT_ALIGN_DOWN (uint sz) RT_ALIGN_SIZE);
     let block_sz = word_of_int (RT_ALIGN (uint block_sz) RT_ALIGN_SIZE);
     let count = sz div (block_sz + 8);
     let k = set_queue (QMemPool m) [] k;
     blocks \<leftarrow> mp_link (unat count) blocks;
     Some (RT_EOK, set_mp m \<lparr>mp_size = sz, mp_block_size = block_sz, mp_blocks = blocks, mp_block_list = Some 0,
       block_total_count = count, block_free_count = count\<rparr> k)
   }"

definition rt_mp_detach :: "nat \<Rightarrow> kernel \<Rightarrow> (int \<times> kernel) option" where
  "rt_mp_detach m k = do {
     rt_assert (is_mp m k);
     rt_assert (rt_object_is_systemobject (OMemPool m) k);
     (_, k) \<leftarrow> rt_ipc_list_resume_all (QMemPool m) k;
     Some (RT_EOK, rt_object_detach (OMemPool m) k)
   }"

text \<open>The heap is a parameter: the object, and the memory it may provide for a number of bytes.\<close>

definition rt_mp_create ::
  "nat option \<Rightarrow> (u64 \<Rightarrow> block_header list option) \<Rightarrow> u8 list \<Rightarrow> u64 \<Rightarrow> u64 \<Rightarrow> kernel \<Rightarrow>
   (nat option \<times> kernel) option" where
  "rt_mp_create malloc malloc_pool name block_count block_sz k = do {
     rt_assert (\<not> in_interrupt k);
     rt_assert (0 < block_count \<and> 0 < block_sz);
     (r, k) \<leftarrow> rt_object_allocate (map_option OMemPool malloc) RT_Object_Class_MemPool name k;
     case r of
       Some (OMemPool m) \<Rightarrow> do {
         let block_sz = word_of_int (RT_ALIGN (uint block_sz) RT_ALIGN_SIZE);
         let sz = (block_sz + 8) * block_count;
         let k = set_mp m ((mempools k m)\<lparr>mp_size := sz, mp_block_size := block_sz\<rparr>) k;
         case malloc_pool sz of
           None \<Rightarrow> do {
             k \<leftarrow> rt_object_delete (OMemPool m) k;
             Some (None, k)
           }
         | Some blocks \<Rightarrow> do {
             let k = set_queue (QMemPool m) [] k;
             blocks \<leftarrow> mp_link (unat block_count) blocks;
             Some (Some m, set_mp m \<lparr>mp_size = sz, mp_block_size = block_sz, mp_blocks = blocks,
               mp_block_list = Some 0, block_total_count = block_count, block_free_count = block_count\<rparr> k)
           }
       }
     | _ \<Rightarrow> Some (None, k)
   }"

definition rt_mp_delete :: "nat \<Rightarrow> kernel \<Rightarrow> (int \<times> kernel) option" where
  "rt_mp_delete m k = do {
     rt_assert (\<not> in_interrupt k);
     rt_assert (is_mp m k);
     rt_assert (\<not> rt_object_is_systemobject (OMemPool m) k);
     (_, k) \<leftarrow> rt_ipc_list_resume_all (QMemPool m) k;
     k \<leftarrow> rt_object_delete (OMemPool m) k;
     Some (RT_EOK, k)
   }"

text \<open>Taking the first free block, and giving a block back.\<close>

definition mp_take :: "nat \<Rightarrow> rt_mempool \<Rightarrow> (nat \<times> rt_mempool) option" where
  "mp_take m mp = do {
     i \<leftarrow> mp_block_list mp;
     next \<leftarrow> (if i < length (mp_blocks mp)
              then case mp_blocks mp ! i of HNext n \<Rightarrow> Some n | HPool _ \<Rightarrow> None
              else None);
     Some (i, mp\<lparr>mp_blocks := (mp_blocks mp)[i := HPool m], mp_block_list := next,
                 block_free_count := block_free_count mp - 1\<rparr>)
   }"

definition mp_give :: "nat \<Rightarrow> nat \<Rightarrow> rt_mempool \<Rightarrow> rt_mempool option" where
  "mp_give m i mp =
     (if i < length (mp_blocks mp) \<and> mp_blocks mp ! i = HPool m
      then Some (mp\<lparr>mp_blocks := (mp_blocks mp)[i := HNext (mp_block_list mp)], mp_block_list := Some i,
                    block_free_count := block_free_count mp + 1\<rparr>)
      else None)"

text \<open>The wait of an allocation: the caller is suspended and put in front of the list.\<close>

definition mp_block :: "nat \<Rightarrow> tid \<Rightarrow> 32 word \<Rightarrow> kernel \<Rightarrow> kernel option" where
  "mp_block m t time k = do {
     (_, k) \<leftarrow> rt_thread_suspend_with_flag t RT_UNINTERRUPTIBLE k;
     let k = tlist_insert_after (QMemPool m) t k;
     k \<leftarrow> (if 0 < sint time then start_thread_timer t time k else Some k);
     rt_schedule k
   }"

text \<open>The result of a call that returns is the index of the block.\<close>

definition mp_alloc_loop ::
  "nat \<Rightarrow> 32 word \<Rightarrow> tid option \<Rightarrow> kernel \<Rightarrow> (nat option call \<times> kernel) option" where
  "mp_alloc_loop m time self k =
     (if block_free_count (mempools k m) = 0
      then if time = 0 then Some (Returned None, rt_set_errno (- RT_ETIMEOUT) k)
           else do {
             rt_assert (\<not> in_interrupt k);
             t \<leftarrow> self;
             let k = upd_thread t (\<lambda>th. th\<lparr>error := RT_EOK\<rparr>) k;
             k \<leftarrow> mp_block m t time k;
             Some (Waiting, k)
           }
      else do {
        (i, mp) \<leftarrow> mp_take m (mempools k m);
        Some (Returned (Some i), set_mp m mp k)
      })"

definition rt_mp_alloc :: "nat \<Rightarrow> 32 word \<Rightarrow> kernel \<Rightarrow> (nat option call \<times> kernel) option" where
  "rt_mp_alloc m time k = mp_alloc_loop m time (rt_thread_self k) k"

definition rt_mp_alloc_resume :: "nat \<Rightarrow> 32 word \<Rightarrow> u32 \<Rightarrow> tid \<Rightarrow> kernel \<Rightarrow> (nat option call \<times> kernel) option" where
  "rt_mp_alloc_resume m time before_sleep t k =
     (if error (threads k t) \<noteq> RT_EOK then Some (Returned None, k)
      else mp_alloc_loop m (time_left time before_sleep k) (Some t) k)"

text \<open>A block is given by the pool whose memory it lies in and its index; its head must name a pool.\<close>

definition rt_mp_free :: "(nat \<times> nat) option \<Rightarrow> kernel \<Rightarrow> kernel option" where
  "rt_mp_free block k =
     (case block of
        None \<Rightarrow> Some k
      | Some (m, i) \<Rightarrow> do {
          mp \<leftarrow> mp_give m i (mempools k m);
          wake_first (QMemPool m) (set_mp m mp k)
        })"

subsection \<open>The free blocks\<close>

fun mp_chain :: "block_header list \<Rightarrow> nat option \<Rightarrow> nat list \<Rightarrow> bool" where
  "mp_chain blocks p [] \<longleftrightarrow> p = None"
| "mp_chain blocks p (i # is) \<longleftrightarrow> p = Some i \<and> i < length blocks \<and>
     (case blocks ! i of HNext n \<Rightarrow> mp_chain blocks n is | HPool _ \<Rightarrow> False)"

text \<open>\<open>F\<close> are the free blocks in the order of the list, \<open>A\<close> the allocated ones.\<close>

definition mp_rep :: "nat \<Rightarrow> nat list \<Rightarrow> nat set \<Rightarrow> rt_mempool \<Rightarrow> bool" where
  "mp_rep m F A mp \<longleftrightarrow>
     mp_chain (mp_blocks mp) (mp_block_list mp) F \<and> distinct F \<and> set F \<inter> A = {} \<and>
     set F \<union> A = {..<unat (block_total_count mp)} \<and> unat (block_total_count mp) \<le> length (mp_blocks mp) \<and>
     unat (block_free_count mp) = length F \<and> (\<forall>i\<in>A. mp_blocks mp ! i = HPool m)"

lemma mp_chain_update [simp]: "i \<notin> set is \<Longrightarrow> mp_chain (blocks[i := h]) p is = mp_chain blocks p is"
  by (induction "is" arbitrary: p) (auto simp: nth_list_update split: block_header.splits)

lemma mp_rep_count:
  assumes "mp_rep m F A mp"
  shows "length F + card A = unat (block_total_count mp)" "finite A"
proof -
  have f: "finite A" using assms finite_subset [of A "{..<unat (block_total_count mp)}"] by (auto simp: mp_rep_def)
  have "card (set F \<union> A) = card (set F) + card A"
    using assms f by (intro card_Un_disjoint) (auto simp: mp_rep_def)
  then show "length F + card A = unat (block_total_count mp)"
    using assms distinct_card [of F] by (simp add: mp_rep_def)
  show "finite A" by (rule f)
qed

lemma mp_take_ok:
  assumes rep: "mp_rep m (i # F) A mp"
  shows "\<exists>mp'. mp_take m mp = Some (i, mp') \<and> mp_rep m F (insert i A) mp' \<and> block_total_count mp' = block_total_count mp"
proof -
  obtain n where n: "mp_blocks mp ! i = HNext n" "mp_block_list mp = Some i" "i < length (mp_blocks mp)"
      "mp_chain (mp_blocks mp) n F" "i \<notin> set F"
    using rep by (auto simp: mp_rep_def split: block_header.splits)
  have "unat (block_free_count mp - 1) = length F"
    using rep by (simp add: mp_rep_def unat_minus_one word_gt_0 unat_gt_0 [symmetric])
  then show ?thesis using rep n by (auto simp: mp_take_def mp_rep_def nth_list_update)
qed

lemma mp_give_ok:
  assumes rep: "mp_rep m F A mp" and i: "i \<in> A"
  shows "\<exists>mp'. mp_give m i mp = Some mp' \<and> mp_rep m (i # F) (A - {i}) mp' \<and> block_total_count mp' = block_total_count mp"
proof -
  have il: "i < length (mp_blocks mp)" "mp_blocks mp ! i = HPool m" "i \<notin> set F"
    using rep i by (auto simp: mp_rep_def)
  have "0 < card A" using i mp_rep_count(2) [OF rep] by (auto simp: card_gt_0_iff)
  then have "unat (block_free_count mp) < unat (block_total_count mp)"
    using mp_rep_count(1) [OF rep] rep by (simp add: mp_rep_def)
  moreover have "unat (block_total_count mp) < 2 ^ LENGTH(64)" by (rule unsigned_less)
  ultimately have "unat (block_free_count mp + 1) = Suc (length F)"
    using rep by (simp add: mp_rep_def unat_word_ariths)
  then show ?thesis using rep i il by (auto simp: mp_give_def mp_rep_def nth_list_update)
qed

text \<open>A fresh pool.\<close>

lemma mp_link_loop_ok:
  assumes "n \<le> length blocks"
  shows "\<exists>b. mp_link_loop n blocks = Some b \<and> length b = length blocks \<and> (\<forall>i<n. b ! i = HNext (Some (Suc i)))"
  using assms
proof (induction n)
  case (Suc n)
  then obtain b where "mp_link_loop n blocks = Some b" "length b = length blocks" "\<forall>i<n. b ! i = HNext (Some (Suc i))"
    by auto
  then show ?case
    using Suc.prems by (auto simp: set_head_def nth_list_update less_Suc_eq)
qed simp

lemma mp_chain_upt:
  assumes "j \<le> n" and "n < length b" and "\<And>i. j \<le> i \<Longrightarrow> i < n \<Longrightarrow> b ! i = HNext (Some (Suc i))" and "b ! n = HNext None"
  shows "mp_chain b (Some j) [j..<Suc n]"
  using assms
proof (induction "n - j" arbitrary: j)
  case 0
  then show ?case by simp
next
  case (Suc d)
  then have "mp_chain b (Some (Suc j)) [Suc j..<Suc n]" by simp
  moreover have "[j..<Suc n] = j # [Suc j..<Suc n]" using Suc.prems(1) by (simp add: upt_rec)
  moreover have "j < n" using Suc.hyps(2) by simp
  ultimately show ?case using Suc.prems by (simp del: upt_Suc)
qed

lemma mp_link_ok:
  assumes "0 < n" and "n \<le> length blocks"
  shows "\<exists>b. mp_link n blocks = Some b \<and> length b = length blocks \<and> mp_chain b (Some 0) [0..<n]"
proof -
  obtain b where b: "mp_link_loop n blocks = Some b" "length b = length blocks" "\<forall>i<n. b ! i = HNext (Some (Suc i))"
    using mp_link_loop_ok [OF assms(2)] by blast
  have "mp_chain (b[n - 1 := HNext None]) (Some 0) [0..<Suc (n - 1)]"
    by (rule mp_chain_upt) (use assms b in \<open>auto simp: nth_list_update\<close>)
  then show ?thesis using b assms by (simp add: mp_link_def set_head_def)
qed

subsection \<open>Waiting for a block\<close>

lemma set_mp_simps [simp]:
  "mempools (set_mp m b k) = (mempools k)(m := b)" "queues (set_mp m b k) = queues k" "threads (set_mp m b k) = threads k"
  "current_thread (set_mp m b k) = current_thread k" "kernel_inv (set_mp m b k) = kernel_inv k"
  "interrupt_nest (set_mp m b k) = interrupt_nest k" "mempools (upd_thread t f k) = mempools k"
  by (simp_all add: set_mp_def) (simp add: upd_thread_def)

lemma mp_block_ok:
  assumes inv: "kernel_inv k" and cur: "current_thread k = Some t" and run: "stat_class (threads k t) = RT_THREAD_RUNNING"
    and time: "sint time < 2147483647"
  shows "\<exists>k'. mp_block m t time k = Some k' \<and> kernel_inv k' \<and> current_thread k' \<noteq> None \<and> ipc_frame k k' \<and>
    suspended (threads k' t) \<and> error (threads k' t) = error (threads k t) \<and>
    queues k' (QMemPool m) = t # queues k (QMemPool m) \<and>
    (0 < sint time \<longrightarrow> timeout_tick (timers k' (ThreadTimer t)) = tick k + time)"
proof -
  have f: "flag_ok RT_UNINTERRUPTIBLE" "lwp_suspend_sigcheck t RT_UNINTERRUPTIBLE k = Some True"
    by (simp_all add: flag_ok_def lwp_suspend_sigcheck_def Let_def rt_defs)
  have cls: "stat_class (threads k t) \<in> {RT_THREAD_READY, RT_THREAD_RUNNING}" using run by simp
  obtain k1 where k1: "rt_thread_suspend_with_flag t RT_UNINTERRUPTIBLE k = Some (RT_EOK, k1)" "suspends t k k1"
    using rt_thread_suspend_ok [OF inv cls f] by blast
  then have s: "kernel_inv k1" "suspended (threads k1 t)" "unqueued t k1" "ipc_frame k k1" "current_thread k1 = Some t"
      "queues k1 (QMemPool m) = queues k (QMemPool m)" "error (threads k1 t) = error (threads k t)"
    using cur by (auto simp: suspends_def)
  let ?k2 = "tlist_insert_after (QMemPool m) t k1"
  have w: "wait_queue (QMemPool m)" by simp
  have inv2: "kernel_inv ?k2"
    unfolding tlist_insert_after_def
  proof (rule kernel_inv_wait [OF s(1,2,3) w])
    show "distinct (t # queues k1 (QMemPool m))"
      using s(1,3) core_distinct by (auto simp: kernel_inv_def sched_inv_def unqueued_def)
  qed auto
  have same2: "threads ?k2 = threads k1" "current_thread ?k2 = Some t" "tick ?k2 = tick k1"
      "queues ?k2 (QMemPool m) = t # queues k (QMemPool m)" "ipc_frame k1 ?k2"
    using s by (simp_all add: tlist_insert_after_def set_queue_def ipc_frame_def)
  have "suspended (threads ?k2 t)" using s(2) same2(1) by simp
  from timer_schedule_ok [OF inv2 same2(2) this time] obtain k3 k' where
    k': "(if 0 < sint time then start_thread_timer t time ?k2 else Some ?k2) = Some k3" "rt_schedule k3 = Some k'"
      "kernel_inv k'" "ipc_frame ?k2 k'" "current_thread k' \<noteq> None" "threads k' t = threads ?k2 t"
      "\<forall>q. \<not> ready_queue q \<longrightarrow> queues k' q = queues ?k2 q"
      "0 < sint time \<longrightarrow> ThreadTimer t \<in> set (timer_lists k' LHard) \<and>
         timeout_tick (timers k' (ThreadTimer t)) = tick ?k2 + time" by blast
  have "mp_block m t time k = Some k'" using k1(1) k'(1,2) by (simp add: mp_block_def)
  moreover have "ipc_frame k k'" using ipc_frame_trans [OF ipc_frame_trans [OF s(4) same2(5)] k'(4)] .
  ultimately show ?thesis
    using k'(3,5-8) same2 s ipc_frameD(7) [OF s(4)] by simp
qed

definition mp_state :: "nat \<Rightarrow> nat set \<Rightarrow> kernel \<Rightarrow> bool" where
  "mp_state m A k \<longleftrightarrow> kernel_inv k \<and> current_thread k \<noteq> None \<and> (\<exists>F. mp_rep m F A (mempools k m))"

lemma mp_state_frame:
  "mp_state m A k \<Longrightarrow> kernel_inv k' \<Longrightarrow> current_thread k' \<noteq> None \<Longrightarrow> mempools k' m = mempools k m \<Longrightarrow> mp_state m A k'"
  by (simp add: mp_state_def)

lemma mp_free_iff: "mp_rep m F A mp \<Longrightarrow> block_free_count mp = 0 \<longleftrightarrow> F = []"
  by (auto simp: mp_rep_def word_unat_eq_iff)

lemma rt_set_errno_simps [simp]:
  "queues (rt_set_errno e k) = queues k" "mempools (rt_set_errno e k) = mempools k"
  "current_thread (rt_set_errno e k) = current_thread k"
  by (simp_all add: rt_set_errno_def upd_thread_def split: option.splits)

lemma kernel_inv_set_errno: "kernel_inv k \<Longrightarrow> kernel_inv (rt_set_errno e k)"
  using kernel_inv_upd_other [of k "\<lambda>th. th\<lparr>error := e\<rparr>"] kernel_inv_cong [of "k\<lparr>rt_errno := e\<rparr>" k]
  by (auto simp: rt_set_errno_def split: option.splits)

lemma mp_alloc_loop_ok:
  assumes st: "mp_state m A k" and self: "self = current_thread k" and cur: "current_thread k = Some t"
    and run: "stat_class (threads k t) = RT_THREAD_RUNNING" and time: "sint time < 2147483647"
    and ctx: "block_free_count (mempools k m) = 0 \<Longrightarrow> time \<noteq> 0 \<Longrightarrow> interrupt_nest k = 0"
  shows "\<exists>r k'. mp_alloc_loop m time self k = Some (r, k') \<and> kernel_inv k' \<and> current_thread k' \<noteq> None \<and>
    (if A = {..<unat (block_total_count (mempools k m))}
     then mempools k' = mempools k \<and>
       (if time = 0 then r = Returned None \<and> k' = rt_set_errno (- RT_ETIMEOUT) k
        else r = Waiting \<and> suspended (threads k' t) \<and> error (threads k' t) = RT_EOK \<and>
          queues k' (QMemPool m) = t # queues k (QMemPool m) \<and>
          (0 < sint time \<longrightarrow> timeout_tick (timers k' (ThreadTimer t)) = tick k + time))
     else \<exists>i. r = Returned (Some i) \<and> i \<notin> A \<and> i < unat (block_total_count (mempools k m)) \<and> mp_state m (insert i A) k' \<and>
       block_total_count (mempools k' m) = block_total_count (mempools k m))"
proof -
  obtain F where rep: "mp_rep m F A (mempools k m)" and inv: "kernel_inv k" using st by (auto simp: mp_state_def)
  have all: "A = {..<unat (block_total_count (mempools k m))} \<longleftrightarrow> F = []"
    using rep by (cases F) (auto simp: mp_rep_def)
  show ?thesis
  proof (cases F)
    case (Cons i F')
    obtain mp where mp: "mp_take m (mempools k m) = Some (i, mp)" "mp_rep m F' (insert i A) mp"
        "block_total_count mp = block_total_count (mempools k m)"
      using mp_take_ok [of m i F' A "mempools k m"] rep Cons by auto
    have "block_free_count (mempools k m) \<noteq> 0" using mp_free_iff [OF rep] Cons by simp
    then have "mp_alloc_loop m time self k = Some (Returned (Some i), set_mp m mp k)"
      using mp(1) by (simp add: mp_alloc_loop_def)
    moreover have "i \<notin> A" "i < unat (block_total_count (mempools k m))" using rep Cons by (auto simp: mp_rep_def)
    ultimately show ?thesis using all Cons mp(2,3) st by (auto simp: mp_state_def)
  next
    case Nil
    have none: "block_free_count (mempools k m) = 0" using mp_free_iff [OF rep] Nil by simp
    let ?k = "upd_thread t (\<lambda>th. th\<lparr>error := RT_EOK\<rparr>) k"
    show ?thesis
    proof (cases "time = 0")
      case True
      then show ?thesis using none all Nil kernel_inv_set_errno [OF inv] cur by (simp add: mp_alloc_loop_def)
    next
      case False
      have inv1: "kernel_inv ?k" by (rule kernel_inv_upd_other [OF inv]) simp_all
      have k1: "current_thread ?k = Some t" "stat_class (threads ?k t) = RT_THREAD_RUNNING" "tick ?k = tick k"
          "error (threads ?k t) = RT_EOK"
        using cur run by (simp_all add: threads_upd_thread stat_class_def) (simp add: upd_thread_def)
      from mp_block_ok [OF inv1 k1(1,2) time, of m] obtain k' where
        k': "mp_block m t time ?k = Some k'" "kernel_inv k'" "current_thread k' \<noteq> None" "ipc_frame ?k k'"
          "suspended (threads k' t)" "error (threads k' t) = RT_EOK" "queues k' (QMemPool m) = t # queues k (QMemPool m)"
          "0 < sint time \<longrightarrow> timeout_tick (timers k' (ThreadTimer t)) = tick k + time"
        unfolding k1(3,4) by auto
      have "mp_alloc_loop m time self k = Some (Waiting, k')"
        using none False self cur k'(1) ctx [OF none False] by (simp add: mp_alloc_loop_def in_interrupt_def)
      then show ?thesis using False all Nil k'(2-8) ipc_frameD(6) [OF k'(4)] by simp
    qed
  qed
qed

lemma rt_mp_free_ok:
  assumes st: "mp_state m A k" and i: "i \<in> A"
  shows "\<exists>k'. rt_mp_free (Some (m, i)) k = Some k' \<and> mp_state m (A - {i}) k' \<and>
    block_total_count (mempools k' m) = block_total_count (mempools k m) \<and>
    queues k' (QMemPool m) = tl (queues k (QMemPool m)) \<and>
    (\<forall>u us. queues k (QMemPool m) = u # us \<longrightarrow> error (threads k' u) = RT_EOK \<and>
       stat_class (threads k' u) \<in> {RT_THREAD_READY, RT_THREAD_RUNNING})"
proof -
  obtain F where rep: "mp_rep m F A (mempools k m)" using st by (auto simp: mp_state_def)
  obtain mp where mp: "mp_give m i (mempools k m) = Some mp" "mp_rep m (i # F) (A - {i}) mp"
      "block_total_count mp = block_total_count (mempools k m)"
    using mp_give_ok [OF rep i] by blast
  have "kernel_inv (set_mp m mp k)" "current_thread (set_mp m mp k) \<noteq> None" "wait_queue (QMemPool m)"
    using st by (simp_all add: mp_state_def)
  from wake_first_ok [OF this] obtain k' where k': "wake_first (QMemPool m) (set_mp m mp k) = Some k'" "kernel_inv k'"
      "current_thread k' \<noteq> None" "ipc_frame (set_mp m mp k) k'"
      "queues k' (QMemPool m) = tl (queues (set_mp m mp k) (QMemPool m))"
      "case queues (set_mp m mp k) (QMemPool m) of [] \<Rightarrow> k' = set_mp m mp k | t # _ \<Rightarrow> handed t (QMemPool m) (set_mp m mp k) k'"
    by blast
  have "mempools k' m = mp" using ipc_frameD(6) [OF k'(4)] by simp
  moreover have "error (threads k' u) = RT_EOK \<and> stat_class (threads k' u) \<in> {RT_THREAD_READY, RT_THREAD_RUNNING}"
    if "queues k (QMemPool m) = u # us" for u us
    using k'(6) that handedD(7,8) [of u "QMemPool m" "set_mp m mp k" k'] by simp
  ultimately show ?thesis using mp k'(1-3,5) by (auto simp: rt_mp_free_def mp_state_def)
qed

subsection \<open>Histories\<close>

text \<open>The life of a pool, with the list of the blocks that have been handed out and not given back.\<close>

inductive mp_trace :: "nat \<Rightarrow> kernel \<Rightarrow> nat list \<Rightarrow> kernel \<Rightarrow> bool" for m :: nat and k0 :: kernel where
  start: "mp_trace m k0 [] k0"
| alloc: "mp_trace m k0 L k \<Longrightarrow> current_thread k = Some t \<Longrightarrow> stat_class (threads k t) = RT_THREAD_RUNNING \<Longrightarrow>
    sint time < 2147483647 \<Longrightarrow> rt_mp_alloc m time k = Some (r, k') \<Longrightarrow>
    mp_trace m k0 (case r of Returned (Some i) \<Rightarrow> i # L | _ \<Rightarrow> L) k'"
| resumed: "mp_trace m k0 L k \<Longrightarrow> current_thread k = Some t \<Longrightarrow> stat_class (threads k t) = RT_THREAD_RUNNING \<Longrightarrow>
    sint (time_left time before k) < 2147483647 \<Longrightarrow> rt_mp_alloc_resume m time before t k = Some (r, k') \<Longrightarrow>
    mp_trace m k0 (case r of Returned (Some i) \<Rightarrow> i # L | _ \<Rightarrow> L) k'"
| freed: "mp_trace m k0 L k \<Longrightarrow> i \<in> set L \<Longrightarrow> rt_mp_free (Some (m, i)) k = Some k' \<Longrightarrow>
    mp_trace m k0 (remove1 i L) k'"
| timed_out: "mp_trace m k0 L k \<Longrightarrow> ThreadTimer t \<in> set (timer_lists k LHard) \<Longrightarrow>
    timer_lists k LTmpHard = [] \<Longrightarrow> timer_fire call (ThreadTimer t) k = Some k' \<Longrightarrow> mp_trace m k0 L k'"

definition mp_held :: "nat \<Rightarrow> u64 \<Rightarrow> nat list \<Rightarrow> kernel \<Rightarrow> bool" where
  "mp_held m n L k \<longleftrightarrow> mp_state m (set L) k \<and> distinct L \<and> block_total_count (mempools k m) = n"

lemma mp_alloc_loop_held:
  assumes h: "mp_held m n L k" and cur: "current_thread k = Some t" and run: "stat_class (threads k t) = RT_THREAD_RUNNING"
    and time: "sint time < 2147483647" and call: "mp_alloc_loop m time (Some t) k = Some (r, k')"
  shows "mp_held m n (case r of Returned (Some i) \<Rightarrow> i # L | _ \<Rightarrow> L) k'"
proof -
  have st: "mp_state m (set L) k" and tot: "block_total_count (mempools k m) = n" and d: "distinct L"
    using h by (simp_all add: mp_held_def)
  have "interrupt_nest k = 0" if "block_free_count (mempools k m) = 0" "time \<noteq> 0"
    using call that by (simp add: mp_alloc_loop_def in_interrupt_def split: if_splits)
  from mp_alloc_loop_ok [OF st _ cur run time this, of "Some t"] call cur
  have inv': "kernel_inv k'" "current_thread k' \<noteq> None"
    and res: "if set L = {..<unat n}
       then mempools k' = mempools k \<and> (if time = 0 then r = Returned None else r = Waiting)
       else \<exists>i. r = Returned (Some i) \<and> i \<notin> set L \<and> mp_state m (insert i (set L)) k' \<and> block_total_count (mempools k' m) = n"
    unfolding tot by (auto split: if_splits)
  show ?thesis
  proof (cases "set L = {..<unat n}")
    case True
    then have "mempools k' = mempools k" "r = Returned None \<or> r = Waiting" using res by (auto split: if_splits)
    then show ?thesis using mp_state_frame [OF st inv'] tot d by (auto simp: mp_held_def)
  next
    case False
    then show ?thesis using res d by (auto simp: mp_held_def)
  qed
qed

lemma mp_trace_held:
  assumes "mp_trace m k0 L k" and "mp_state m {} k0"
  shows "mp_held m (block_total_count (mempools k0 m)) L k"
  using assms
proof (induction rule: mp_trace.induct)
  case start
  then show ?case by (simp add: mp_held_def)
next
  case (alloc L k t time r k')
  have h: "mp_held m (block_total_count (mempools k0 m)) L k" by (rule alloc.IH [OF alloc.prems])
  have "mp_alloc_loop m time (Some t) k = Some (r, k')"
    using alloc.hyps(2,5) by (simp add: rt_mp_alloc_def rt_thread_self_def)
  then show ?case by (rule mp_alloc_loop_held [OF h alloc.hyps(2-4)])
next
  case (resumed L k t time before r k')
  have h: "mp_held m (block_total_count (mempools k0 m)) L k" by (rule resumed.IH [OF resumed.prems])
  show ?case
  proof (cases "error (threads k t) = RT_EOK")
    case True
    then have "mp_alloc_loop m (time_left time before k) (Some t) k = Some (r, k')"
      using resumed.hyps(5) by (simp add: rt_mp_alloc_resume_def)
    then show ?thesis by (rule mp_alloc_loop_held [OF h resumed.hyps(2-4)])
  next
    case False
    then show ?thesis using resumed.hyps(5) h by (auto simp: rt_mp_alloc_resume_def)
  qed
next
  case (freed L k i k')
  then have h: "mp_state m (set L) k" "distinct L" "block_total_count (mempools k m) = block_total_count (mempools k0 m)"
    by (simp_all add: mp_held_def)
  then show ?case using rt_mp_free_ok [OF h(1) freed.hyps(2)] freed.hyps(3) by (auto simp: mp_held_def)
next
  case (timed_out L k t call k')
  have h: "mp_held m (block_total_count (mempools k0 m)) L k" by (rule timed_out.IH [OF timed_out.prems])
  then have st: "mp_state m (set L) k" and inv: "kernel_inv k" "current_thread k \<noteq> None"
    by (simp_all add: mp_held_def mp_state_def)
  from timer_fire_thread [OF inv(1) timed_out.hyps(2,3) inv(2), of call] timed_out.hyps(4)
  have k': "kernel_inv k'" "current_thread k' \<noteq> None" "ipc_frame k k'" by auto
  then show ?case
    using h mp_state_frame [OF st k'(1,2)] ipc_frameD(6) [OF k'(3)] by (simp add: mp_held_def)
qed

subsection \<open>A sample state\<close>

text \<open>A pool of two blocks, with thread 3 waiting.\<close>

definition sample_pool :: rt_mempool where
  "sample_pool = \<lparr>mp_size = 192, mp_block_size = 64, mp_blocks = [HNext (Some 1), HNext None], mp_block_list = Some 0,
     block_total_count = 2, block_free_count = 2\<rparr>"

definition sample_mp :: kernel where
  "sample_mp = set_mp 0 sample_pool (sample_wait (QMemPool 0))"

lemma sample_mp_facts:
  "kernel_inv sample_mp" "current_thread sample_mp = Some 1" "stat_class (threads sample_mp 1) = RT_THREAD_RUNNING"
  "interrupt_nest sample_mp = 0" "mempools sample_mp 0 = sample_pool" "mp_rep 0 [0, 1] {} sample_pool"
  "queues sample_mp (QMemPool 0) = [3]"
proof -
  show "kernel_inv sample_mp" using sample_wait_inv [of "QMemPool 0"] by (simp add: sample_mp_def)
  have "{..<2 :: nat} = {0, 1}" by auto
  then show "mp_rep 0 [0, 1] {} sample_pool" by (simp add: mp_rep_def sample_pool_def)
qed (simp_all add: sample_mp_def sample_wait_def sample_waiting_defs stat_class_def rt_defs)

subsection \<open>Properties\<close>

text \<open>C11: No block of a memory pool is handed out twice.  Over any history of allocations, waits,
  continuations, timeouts and frees, starting with all blocks free: the blocks that have been handed out and
  not given back are pairwise distinct blocks of the pool, the free count is the number of the others, and
  the next allocation yields a block that nobody holds.\<close>

theorem mempool_exclusive:
  assumes "mp_trace m k0 held k" and "kernel_inv k0" and "current_thread k0 \<noteq> None"
    and "mp_rep m F {} (mempools k0 m)"
  shows "distinct held \<and> set held \<subseteq> {..<unat (block_total_count (mempools k0 m))}
    \<and> unat (block_free_count (mempools k m)) + length held = unat (block_total_count (mempools k0 m))
    \<and> (\<forall>i mp. mp_take m (mempools k m) = Some (i, mp) \<longrightarrow> i \<notin> set held) \<and> kernel_inv k"
proof -
  have "mp_state m {} k0" using assms(2-4) by (auto simp: mp_state_def)
  from mp_trace_held [OF assms(1) this] obtain G where
    h: "kernel_inv k" "mp_rep m G (set held) (mempools k m)" "distinct held"
      "block_total_count (mempools k m) = block_total_count (mempools k0 m)"
    by (auto simp: mp_held_def mp_state_def)
  have "i \<notin> set held" if "mp_take m (mempools k m) = Some (i, mp)" for i mp
  proof (cases G)
    case Nil
    then show ?thesis using h(2) that by (simp add: mp_take_def mp_rep_def)
  next
    case (Cons j G')
    then have "i = j" using mp_take_ok [of m j G' "set held" "mempools k m"] h(2) that by auto
    then show ?thesis using h(2) Cons by (auto simp: mp_rep_def)
  qed
  moreover have "unat (block_free_count (mempools k m)) + length held = unat (block_total_count (mempools k0 m))"
    using mp_rep_count(1) [OF h(2)] h(2-4) distinct_card [OF h(3)] by (simp add: mp_rep_def)
  ultimately show ?thesis using h by (auto simp: mp_rep_def)
qed

theorem mempool_exclusive_witness:
  "\<exists>k. mp_trace 0 sample_mp [1, 0] k \<and> unat (block_free_count (mempools k 0)) = 0"
proof -
  let ?k1 = "snd (the (rt_mp_alloc 0 0 sample_mp))"
  let ?k2 = "snd (the (rt_mp_alloc 0 0 ?k1))"
  have r: "map_option fst (rt_mp_alloc 0 0 sample_mp) = Some (Returned (Some 0))"
      "map_option fst (rt_mp_alloc 0 0 ?k1) = Some (Returned (Some 1))"
    and c: "current_thread ?k1 = Some 1" "stat (threads ?k1 1) = 3"
    by code_simp+
  have s: "rt_mp_alloc 0 0 sample_mp = Some (Returned (Some 0), ?k1)"
      "rt_mp_alloc 0 0 ?k1 = Some (Returned (Some 1), ?k2)"
    using r by auto
  have f: "sint (0 :: 32 word) < 2147483647" "stat_class (threads ?k1 1) = RT_THREAD_RUNNING"
    using c(2) by (simp_all add: stat_class_def rt_defs)
  have t1: "mp_trace 0 sample_mp [0] ?k1"
    using mp_trace.alloc [OF mp_trace.start sample_mp_facts(2,3) f(1) s(1)] by simp
  have t2: "mp_trace 0 sample_mp [1, 0] ?k2"
    using mp_trace.alloc [OF t1 c(1) f(2,1) s(2)] by simp
  have "mp_rep 0 [0, 1] {} (mempools sample_mp 0)" "current_thread sample_mp \<noteq> None"
    using sample_mp_facts by simp_all
  from mempool_exclusive [OF t2 sample_mp_facts(1) this(2,1)]
  have "unat (block_free_count (mempools ?k2 0)) = 0" by (simp add: sample_mp_facts(5) sample_pool_def)
  then show ?thesis using t2 by blast
qed

text \<open>Allocation from a pool.  While a block is free, the call returns a block of the pool that is not
  allocated; with none it sets the error \<open>-RT_ETIMEOUT\<close> and returns null, or suspends the running caller
  in front of all other waiters: the last one to wait is the first one served.\<close>

lemma mempool_alloc_spec:
  assumes "kernel_inv k" and "current_thread k = Some t" and "stat_class (threads k t) = RT_THREAD_RUNNING"
    and "interrupt_nest k = 0" and "mp_rep m F A (mempools k m)" and "sint time < 2147483647"
  shows "\<exists>r k'. rt_mp_alloc m time k = Some (r, k') \<and> kernel_inv k' \<and>
    (if F \<noteq> []
     then \<exists>i. r = Returned (Some i) \<and> i < unat (block_total_count (mempools k m)) \<and> i \<notin> A \<and>
       (\<exists>F'. mp_rep m F' (insert i A) (mempools k' m))
     else if time = 0 then r = Returned None \<and> error (threads k' t) = - RT_ETIMEOUT \<and> mempools k' = mempools k
     else r = Waiting \<and> mempools k' = mempools k \<and> suspended (threads k' t) \<and>
       queues k' (QMemPool m) = t # queues k (QMemPool m) \<and>
       (0 < sint time \<longrightarrow> timeout_tick (timers k' (ThreadTimer t)) = tick k + time))"
proof -
  have st: "mp_state m A k" using assms(1,2,5) by (auto simp: mp_state_def)
  have all: "A = {..<unat (block_total_count (mempools k m))} \<longleftrightarrow> F = []"
    using assms(5) by (cases F) (auto simp: mp_rep_def)
  from mp_alloc_loop_ok [OF st refl assms(2,3,6,4)] obtain r k' where
    k': "mp_alloc_loop m time (current_thread k) k = Some (r, k')" "kernel_inv k'"
      "if F = []
       then mempools k' = mempools k \<and>
         (if time = 0 then r = Returned None \<and> k' = rt_set_errno (- RT_ETIMEOUT) k
          else r = Waiting \<and> suspended (threads k' t) \<and> error (threads k' t) = RT_EOK \<and>
            queues k' (QMemPool m) = t # queues k (QMemPool m) \<and>
            (0 < sint time \<longrightarrow> timeout_tick (timers k' (ThreadTimer t)) = tick k + time))
       else \<exists>i. r = Returned (Some i) \<and> i \<notin> A \<and> i < unat (block_total_count (mempools k m)) \<and> mp_state m (insert i A) k' \<and>
         block_total_count (mempools k' m) = block_total_count (mempools k m)"
    unfolding all by blast
  have run: "rt_mp_alloc m time k = Some (r, k')" using k'(1) by (simp add: rt_mp_alloc_def rt_thread_self_def)
  have "error (threads (rt_set_errno (- RT_ETIMEOUT) k) t) = - RT_ETIMEOUT"
    using assms(2,4) by (simp add: rt_set_errno_def in_interrupt_def rt_thread_self_def threads_upd_thread)
  then show ?thesis
    using run k'(2,3) by (cases "F = []"; cases "time = 0") (auto simp: mp_state_def)
qed

end
