(* ===== verification/ThreadExit.thy ===== *)
theory ThreadExit
  imports Mutex
begin

text \<open>
  The end of a thread: \<^verbatim>\<open>rt_thread_exit\<close>, \<^verbatim>\<open>rt_thread_detach\<close>, \<^verbatim>\<open>rt_thread_delete\<close> and the complete
  \<^verbatim>\<open>rt_thread_control\<close> of \<^verbatim>\<open>src/thread.c\<close>, and the list of dead threads with the system thread that
  reclaims them (\<^verbatim>\<open>src/idle.c\<close>).

  The field \<^verbatim>\<open>flags\<close> of a thread is the flag of the object it is.  The callback \<^verbatim>\<open>cleanup\<close> is a client's
  function; its effect is an argument of \<open>rt_defunct_execute\<close>, whose result begins with the sequence of
  what it did to the dead threads: calls of cleanup functions, removals from the objects, stacks given back.  Pending kernel signals (\<^verbatim>\<open>si_list\<close>, \<^verbatim>\<open>sig_vectors\<close>) are not part of the
  model; \<^verbatim>\<open>rt_thread_free_sig\<close> changes nothing else.
\<close>

subsection \<open>Operations\<close>

definition RT_THREAD_FLAG_CLEANUP_OWNS_TCB :: u8 where [rt_defs]: "RT_THREAD_FLAG_CLEANUP_OWNS_TCB = 0x01"
definition RT_THREAD_CTRL_STARTUP :: int where [rt_defs]: "RT_THREAD_CTRL_STARTUP = 0x00"
definition RT_THREAD_CTRL_CLOSE :: int where [rt_defs]: "RT_THREAD_CTRL_CLOSE = 0x01"
definition RT_THREAD_CTRL_CHANGE_PRIORITY :: int where [rt_defs]: "RT_THREAD_CTRL_CHANGE_PRIORITY = 0x02"
definition RT_THREAD_CTRL_UPDATE_PRIORITY :: int where [rt_defs]: "RT_THREAD_CTRL_UPDATE_PRIORITY = 0x12"

definition rt_thread_defunct_enqueue :: "tid \<Rightarrow> kernel \<Rightarrow> kernel option" where
  "rt_thread_defunct_enqueue t k = do {
     let k = tlist_insert_after QDefunct t k;
     (_, k) \<leftarrow> rt_sem_release (system_sem k) k;
     Some k
   }"

definition rt_thread_defunct_dequeue :: "kernel \<Rightarrow> tid option \<times> kernel" where
  "rt_thread_defunct_dequeue k =
     (case queues k QDefunct of
        [] \<Rightarrow> (None, k)
      | t # _ \<Rightarrow> (Some t, tlist_remove t k))"

text \<open>The end of a dead thread: a static one without a cleanup function is only taken out of the objects,
  any other one is handed to the system thread.\<close>

definition thread_bury :: "tid \<Rightarrow> kernel \<Rightarrow> kernel option" where
  "thread_bury t k =
     (if rt_object_is_systemobject (OThread t) k \<and> cleanup (threads k t) = None
      then Some (rt_object_detach (OThread t) k)
      else rt_thread_defunct_enqueue t k)"

text \<open>When the release of the semaphore has already given the processor away, the calling thread never
  reaches its last call of the scheduler.\<close>

definition rt_thread_exit :: "kernel \<Rightarrow> kernel option" where
  "rt_thread_exit k = do {
     t \<leftarrow> rt_thread_self k;
     k \<leftarrow> rt_schedule_remove_thread t k;
     let k = upd_thread t (\<lambda>th. th\<lparr>stat := RT_THREAD_CLOSE\<rparr>) k;
     (_, k) \<leftarrow> rt_timer_detach (ThreadTimer t) k;
     k \<leftarrow> thread_bury t k;
     if rt_thread_self k = Some t then rt_schedule k else Some k
   }"

text \<open>A thread that waits for a mutex gives up its claim on the owner's priority.\<close>

definition drop_pending :: "tid \<Rightarrow> kernel \<Rightarrow> kernel option" where
  "drop_pending t k =
     (case pending_object (threads k t) of
        Some (OMutex m) \<Rightarrow>
          if is_mutex m k
          then do {
            k \<leftarrow> rt_mutex_drop_thread m t k;
            Some (upd_thread t (\<lambda>th. th\<lparr>pending_object := None\<rparr>) k)
          }
          else Some k
      | _ \<Rightarrow> Some k)"

definition thread_close :: "tid \<Rightarrow> kernel \<Rightarrow> kernel option" where
  "thread_close t k = do {
     k \<leftarrow> (if stat_class (threads k t) \<noteq> RT_THREAD_INIT then rt_schedule_remove_thread t k else Some k);
     (_, k) \<leftarrow> rt_timer_detach (ThreadTimer t) k;
     let k = upd_thread t (\<lambda>th. th\<lparr>stat := RT_THREAD_CLOSE\<rparr>) k;
     drop_pending t k
   }"

definition rt_thread_detach :: "tid \<Rightarrow> kernel \<Rightarrow> (int \<times> kernel) option" where
  "rt_thread_detach t k = do {
     rt_assert (is_thread t k);
     rt_assert (rt_object_is_systemobject (OThread t) k);
     if stat_class (threads k t) = RT_THREAD_CLOSE then Some (RT_EOK, k)
     else do {
       k \<leftarrow> thread_close t k;
       k \<leftarrow> thread_bury t k;
       Some (RT_EOK, k)
     }
   }"

definition rt_thread_delete :: "tid \<Rightarrow> kernel \<Rightarrow> (int \<times> kernel) option" where
  "rt_thread_delete t k = do {
     rt_assert (is_thread t k);
     rt_assert (\<not> rt_object_is_systemobject (OThread t) k);
     if stat_class (threads k t) = RT_THREAD_CLOSE then Some (RT_EOK, k)
     else do {
       k \<leftarrow> thread_close t k;
       k \<leftarrow> rt_thread_defunct_enqueue t k;
       Some (RT_EOK, k)
     }
   }"

definition rt_thread_control :: "tid \<Rightarrow> int \<Rightarrow> u8 \<Rightarrow> kernel \<Rightarrow> (int \<times> kernel) option" where
  "rt_thread_control t cmd arg k = do {
     rt_assert (is_thread t k);
     if cmd = RT_THREAD_CTRL_UPDATE_PRIORITY \<or> cmd = RT_THREAD_CTRL_CHANGE_PRIORITY
     then thread_control_priority t arg (cmd = RT_THREAD_CTRL_CHANGE_PRIORITY) k
     else if cmd = RT_THREAD_CTRL_STARTUP then rt_thread_startup t k
     else if cmd = RT_THREAD_CTRL_CLOSE
     then if rt_object_is_systemobject (OThread t) k then rt_thread_detach t k else rt_thread_delete t k
     else Some (RT_EOK, k)
   }"

text \<open>The system thread: one dead thread after the other.\<close>

datatype reap = Cleanup nat tid | Detach tid | Free_stack nat | Delete tid

partial_function (option) rt_defunct_execute ::
  "(nat \<Rightarrow> tid \<Rightarrow> kernel \<Rightarrow> kernel option) \<Rightarrow> kernel \<Rightarrow> (reap list \<times> kernel) option" where
  "rt_defunct_execute cleanup_fn k = do {
     rt_assert (\<not> in_interrupt k);
     case fst (rt_thread_defunct_dequeue k) of
       None \<Rightarrow> Some ([], k)
     | Some t \<Rightarrow> do {
         let k = snd (rt_thread_defunct_dequeue k);
         let callback = cleanup (threads k t);
         let cleanup_owns_tcb = (callback \<noteq> None \<and>
               obj_flag (objs k (OThread t)) AND RT_THREAD_FLAG_CLEANUP_OWNS_TCB \<noteq> 0);
         let (done1, k) = (if cleanup_owns_tcb \<and> rt_object_is_systemobject (OThread t) k
                           then ([Detach t], rt_object_detach (OThread t) k) else ([], k));
         (done2, k) \<leftarrow> (case callback of
                          Some f \<Rightarrow> do { k \<leftarrow> cleanup_fn f t k; Some ([Cleanup f t], k) }
                        | None \<Rightarrow> Some ([], k));
         (done3, k) \<leftarrow>
           (if cleanup_owns_tcb then Some ([], k)
            else if rt_object_is_systemobject (OThread t) k
            then Some ([Detach t], rt_object_detach (OThread t) k)
            else do {
              let stack = stack_addr (threads k t);
              k \<leftarrow> rt_object_delete (OThread t) k;
              Some ([Free_stack stack, Delete t], k)
            });
         (rest, k) \<leftarrow> rt_defunct_execute cleanup_fn k;
         Some (done1 @ done2 @ done3 @ rest, k)
       }
   }"

text \<open>One round of \<^verbatim>\<open>rt_thread_system_entry\<close>: the wait for a dead thread, and what follows it.\<close>

definition system_wait :: "kernel \<Rightarrow> (int call \<times> kernel) option" where
  "system_wait k = rt_sem_take (system_sem k) (- 1) k"

definition rt_thread_system_entry ::
  "(nat \<Rightarrow> tid \<Rightarrow> kernel \<Rightarrow> kernel option) \<Rightarrow> kernel \<Rightarrow> (reap list call \<times> kernel) option" where
  "rt_thread_system_entry cleanup_fn k = do {
     (r, k) \<leftarrow> system_wait k;
     case r of
       Waiting \<Rightarrow> Some (Waiting, k)
     | Returned _ \<Rightarrow> do { (freed, k) \<leftarrow> rt_defunct_execute cleanup_fn k; Some (Returned freed, k) }
   }"

text \<open>Start-up of the idle and the system thread.  Their structures, entries and stacks are static;
  \<^verbatim>\<open>IDLE_THREAD_STACK_SIZE\<close> is 16384.\<close>

definition rt_thread_idle_init ::
  "tid \<Rightarrow> tid \<Rightarrow> nat \<Rightarrow> nat \<Rightarrow> nat \<Rightarrow> nat \<Rightarrow> kernel \<Rightarrow> kernel option" where
  "rt_thread_idle_init idle system idle_entry system_entry idle_stack system_stack k = do {
     (_, k) \<leftarrow> rt_thread_init idle [0x74, 0x69, 0x64, 0x6c, 0x65, 0x30, 0] idle_entry 0 idle_stack 16384 31 32 k;
     (_, k) \<leftarrow> rt_thread_startup idle k;
     (_, k) \<leftarrow> rt_sem_init (system_sem k) [0x64, 0x65, 0x66, 0x75, 0x6e, 0x63, 0x74, 0] 1 RT_IPC_FLAG_FIFO k;
     (_, k) \<leftarrow> rt_thread_init system [0x74, 0x73, 0x79, 0x73, 0x74, 0x65, 0x6d, 0] system_entry 0 system_stack 16384 30 32 k;
     (_, k) \<leftarrow> rt_thread_startup system k;
     Some k
   }"

subsection \<open>Closing a thread\<close>

text \<open>What changes when a thread dies: its state byte, its timer and its place in the lists.\<close>

definition closed :: "tid \<Rightarrow> kernel \<Rightarrow> kernel \<Rightarrow> bool" where
  "closed t k k' \<longleftrightarrow>
     kernel_inv k' \<and> unqueued t k' \<and> threads k' = (threads k)(t := (threads k t)\<lparr>stat := RT_THREAD_CLOSE\<rparr>) \<and>
     queues k' = (\<lambda>q. removeAll t (queues k q)) \<and> current_thread k' = current_thread k \<and>
     sems k' = sems k \<and> mutexes k' = mutexes k \<and> system_sem k' = system_sem k \<and>
     scheduler_lock_nest k' = scheduler_lock_nest k \<and> interrupt_nest k' = interrupt_nest k \<and>
     (\<forall>x. x \<noteq> OTimer (ThreadTimer t) \<longrightarrow> objs k' x = objs k x)"

lemma class_close [simp]: "stat_class (th\<lparr>stat := RT_THREAD_CLOSE\<rparr>) = RT_THREAD_CLOSE"
  by (simp add: stat_class_def rt_defs)

lemma not_started_close: "stat_class th = RT_THREAD_CLOSE \<Longrightarrow> \<not> started th"
  by (simp add: started_def)

lemma unqueued_tlist_remove [simp]: "unqueued t (tlist_remove t k)"
  by (simp add: unqueued_def)

text \<open>The state byte and the timer are independent of each other.\<close>

lemma timer_detach_eq:
  assumes "is_timer tm k" and "rt_object_is_systemobject (OTimer tm) k"
  shows "rt_timer_detach tm k = Some (RT_EOK, rt_object_detach (OTimer tm) (deactivate tm (timer_remove tm k)))"
  using assms by (simp add: rt_timer_detach_def)

lemma timer_detach_upd_thread:
  "rt_object_detach (OTimer tm) (deactivate tm (timer_remove tm (upd_thread t f k))) =
     upd_thread t f (rt_object_detach (OTimer tm) (deactivate tm (timer_remove tm k)))"
  by (simp add: rt_object_detach_def deactivate_def timer_remove_def list_remove_object_def set_timer_flag_def
      timer_flag_def upd_obj_def upd_thread_def)

lemma detach_keeps [simp]:
  "threads (rt_object_detach x k) = threads k" "queues (rt_object_detach x k) = queues k"
  "current_thread (rt_object_detach x k) = current_thread k" "sems (rt_object_detach x k) = sems k"
  "system_sem (rt_object_detach x k) = system_sem k" "timer_lists (rt_object_detach x k) = timer_lists k"
  "scheduler_lock_nest (rt_object_detach x k) = scheduler_lock_nest k" "timers (rt_object_detach x k) = timers k"
  "interrupt_nest (rt_object_detach x k) = interrupt_nest k" "mutexes (rt_object_detach x k) = mutexes k"
  "ready_priority_group (rt_object_detach x k) = ready_priority_group k"
  "objs (rt_object_detach x k) = (objs k)(x := (objs k x)\<lparr>obj_type := 0\<rparr>)"
  by (simp_all add: rt_object_detach_def list_remove_object_def upd_obj_def)

text \<open>A dead thread and its timer may leave the object lists.\<close>

lemma kernel_inv_detach:
  assumes inv: "kernel_inv k" and dead: "\<not> started (threads k t)"
    and x: "x = OThread t \<or> x = OTimer (ThreadTimer t)"
  shows "kernel_inv (rt_object_detach x k)"
proof -
  let ?k = "rt_object_detach x k"
  have "sched_inv ?k" using inv by (simp add: kernel_inv_def rt_object_detach_def list_remove_object_def upd_obj_def)
  moreover have "thread_obj_ok s ?k" if s: "started (threads k s)" for s
  proof -
    have "s \<noteq> t" using s dead by auto
    then have "x \<noteq> OThread s" "x \<noteq> OTimer (ThreadTimer s)" using x by auto
    then show ?thesis using inv s
      by (simp add: kernel_inv_def thread_objs_ok_def thread_obj_ok_def is_thread_def is_timer_def
          rt_object_get_type_def timer_flag_def)
  qed
  moreover have "timer_active tm ?k = timer_active tm k" for tm by (simp add: timer_active_def timer_flag_def)
  ultimately show ?thesis
    using inv by (simp add: kernel_inv_def thread_objs_ok_def timer_inv_def wait_timers_ok_def)
qed

abbreviation timer_gone :: "tid \<Rightarrow> kernel \<Rightarrow> kernel" where
  "timer_gone t k \<equiv> rt_object_detach (OTimer (ThreadTimer t)) (deactivate (ThreadTimer t) (timer_remove (ThreadTimer t) k))"

abbreviation set_close :: "tid \<Rightarrow> kernel \<Rightarrow> kernel" where
  "set_close t \<equiv> upd_thread t (\<lambda>th. th\<lparr>stat := RT_THREAD_CLOSE\<rparr>)"

lemma objs_deactivate:
  "x \<noteq> OTimer tm \<Longrightarrow> objs (deactivate tm (timer_remove tm k)) x = objs k x"
  by (simp add: deactivate_def timer_remove_def set_timer_flag_def upd_obj_def)

lemma close_core:
  assumes inv: "kernel_inv k" and core: "core_inv {t} k1"
    and k1: "k1 = k\<lparr>queues := (\<lambda>q. removeAll t (queues k q)), ready_priority_group := g\<rparr>"
  shows "closed t k (timer_gone t (set_close t k1))"
proof -
  let ?k2 = "set_close t k1"
  let ?k3 = "deactivate (ThreadTimer t) (timer_remove (ThreadTimer t) ?k2)"
  have thr: "threads ?k2 = (threads k)(t := (threads k t)\<lparr>stat := RT_THREAD_CLOSE\<rparr>)"
    by (simp add: k1 upd_thread_def)
  have cls: "stat_class (threads ?k2 t) = RT_THREAD_CLOSE" by (simp add: thr)
  have "core_inv ({t} - {t}) ?k2"
    using core_inv_transit_upd [OF core] not_started_close [OF cls] cls
    by (intro core_inv_leave_transit) auto
  moreover have "running_inv ?k2"
    using inv by (auto simp: kernel_inv_def sched_inv_def running_inv_def thr k1 upd_thread_def)
  ultimately have "sched_inv ?k2" by (simp add: sched_inv_def)
  moreover have frame: "timer_frame ?k2 ?k3" by (rule timer_frame_deactivate)
  ultimately have sched: "sched_inv ?k3" using sched_inv_timer_frame by blast
  have thr3: "threads ?k3 = threads ?k2" using timer_frameD(2) [OF frame] .
  have objs: "objs ?k3 x = objs k x" if "x \<noteq> OTimer (ThreadTimer t)" for x
    using objs_deactivate [OF that] by (simp add: k1 upd_thread_def)
  have ok: "thread_obj_ok s ?k3" if s: "started (threads ?k3 s)" for s
  proof -
    have "s \<noteq> t" using s not_started_close [OF cls] thr3 by auto
    then show ?thesis
      using inv s thr3 thr objs [of "OThread s"] objs [of "OTimer (ThreadTimer s)"]
      by (simp add: kernel_inv_def thread_objs_ok_def thread_obj_ok_def is_thread_def is_timer_def
          rt_object_get_type_def timer_flag_def k1 upd_thread_def)
  qed
  have "timer_inv ?k2"
    using inv by (simp add: kernel_inv_def timer_inv_def timer_active_def timer_flag_def k1 upd_thread_def)
  then have tinv: "timer_inv ?k3" by (rule timer_inv_deactivate)
  have "timer_lists ?k2 = timer_lists k" by (simp add: k1 upd_thread_def)
  then have "wait_timers_ok ?k3"
    using inv thr thr3 by (auto simp: kernel_inv_def wait_timers_ok_def)
  with sched ok tinv have "kernel_inv ?k3" by (simp add: kernel_inv_def thread_objs_ok_def)
  moreover have "\<not> started (threads ?k3 t)" using not_started_close [OF cls] thr3 by simp
  ultimately have "kernel_inv (timer_gone t ?k2)" by (rule kernel_inv_detach) simp
  moreover have "unqueued t (timer_gone t ?k2)"
    using timer_frameD(1) [OF frame] by (simp add: unqueued_def k1)
  ultimately show ?thesis
    using thr3 thr objs timer_frameD [OF frame] by (simp add: closed_def k1 upd_thread_def)
qed

lemma schedule_remove_form:
  assumes "rt_schedule_remove_thread t k = Some k1"
  obtains g where "k1 = k\<lparr>queues := (\<lambda>q. removeAll t (queues k q)), ready_priority_group := g\<rparr>"
proof (rule that)
  show "k1 = k\<lparr>queues := (\<lambda>q. removeAll t (queues k q)), ready_priority_group := ready_priority_group k1\<rparr>"
    using assms by (cases k) (auto simp: rt_schedule_remove_thread_def tlist_remove_def Let_def split: if_splits)
qed

text \<open>A dead thread joins the list of dead threads.\<close>

lemma kernel_inv_defunct:
  assumes inv: "kernel_inv k" and out: "unqueued t k" and dead: "stat_class (threads k t) = RT_THREAD_CLOSE"
  shows "kernel_inv (tlist_insert_after QDefunct t k)"
proof -
  let ?k = "tlist_insert_after QDefunct t k"
  have core: "core_inv {} k" using inv by (simp add: kernel_inv_def sched_inv_def)
  have q: "queues ?k = (queues k)(QDefunct := t # queues k QDefunct)" and thr: "threads ?k = threads k"
    by (simp_all add: upd_defs)
  have t: "t \<notin> set (queues k q)" for q using out by (simp add: unqueued_def)
  have "core_inv {} ?k"
  proof (rule core_invI)
    fix r r' s assume "s \<in> set (queues ?k r)" "s \<in> set (queues ?k r')"
    then show "r = r'" using core_one_queue [OF core, of s r r'] t by (auto simp: q split: if_splits)
  next
    fix p assume "p < RT_THREAD_PRIORITY_MAX"
    then show "bit (ready_priority_group ?k) p \<longleftrightarrow> queues ?k (QReady p) \<noteq> []"
      using core_bitmap [OF core, of p] by (simp add: upd_defs)
  qed (use core_distinct [OF core] core_ready [OF core] core_prio [OF core] core_waiting [OF core]
        core_defunct [OF core] t dead in \<open>auto simp: q thr\<close>)
  then have "sched_inv ?k"
    using inv by (simp add: kernel_inv_def sched_inv_def running_inv_def upd_defs)
  then show ?thesis
    by (rule kernel_inv_sched [OF inv]) (simp_all add: tlist_insert_after_def, simp_all add: set_queue_def)
qed

lemma ready_group:
  assumes inv: "kernel_inv k" and s: "stat_class (threads k s) = RT_THREAD_READY"
  shows "ready_priority_group k \<noteq> 0"
proof -
  let ?p = "unat (current_priority (threads k s))"
  have core: "core_inv {} k" using inv by (simp add: kernel_inv_def sched_inv_def)
  have "?p < RT_THREAD_PRIORITY_MAX" using core_prio [OF core, of s] s by (simp add: started_def prio_ok_def)
  moreover have "queues k (QReady ?p) \<noteq> []" using core_ready [OF core, of s ?p] s by auto
  ultimately have "bit (ready_priority_group k) ?p" using core_bitmap [OF core] by blast
  then show ?thesis by auto
qed

text \<open>A dead thread gives the processor away for good.\<close>

lemma schedule_away:
  assumes inv: "kernel_inv k" and cur: "current_thread k = Some t" and dead: "stat_class (threads k t) = RT_THREAD_CLOSE"
    and free: "scheduler_lock_nest k = 0" and s: "stat_class (threads k s) = RT_THREAD_READY"
  shows "\<exists>k' c. rt_schedule k = Some k' \<and> kernel_inv k' \<and> highest_running c k' \<and> c \<noteq> t
    \<and> threads k' t = threads k t \<and> sched_frame k k'
    \<and> (\<forall>r. stat_class (threads k r) \<in> {RT_THREAD_READY, RT_THREAD_RUNNING} \<longrightarrow>
         stat_class (threads k' r) \<in> {RT_THREAD_READY, RT_THREAD_RUNNING})"
proof -
  from rt_schedule_ok [OF inv cur] ready_group [OF inv s] free dead obtain k' c where
    k': "rt_schedule k = Some k'" "kernel_inv k'" "sched_frame k k'" "highest_running c k'"
      "threads k' t = threads k t"
      "\<forall>r. stat_class (threads k r) \<in> {RT_THREAD_READY, RT_THREAD_RUNNING} \<longrightarrow>
         stat_class (threads k' r) \<in> {RT_THREAD_READY, RT_THREAD_RUNNING}"
    by auto
  moreover have "c \<noteq> t" using k'(4,5) dead by (auto simp: highest_running_def)
  ultimately show ?thesis by blast
qed

text \<open>The system thread hears of the dead thread: it is woken, or finds one more token.\<close>

definition notified :: "kernel \<Rightarrow> kernel \<Rightarrow> bool" where
  "notified k k' \<longleftrightarrow>
     (let s = system_sem k; v = sem_value (sems k s)
      in case queues k (QSem s) of
           [] \<Rightarrow> sem_value (sems k' s) = (if v < RT_SEM_VALUE_MAX then v + 1 else v)
         | r # rs \<Rightarrow> queues k' (QSem s) = rs \<and> stat_class (threads k' r) \<in> {RT_THREAD_READY, RT_THREAD_RUNNING})"

lemma defunct_keeps [simp]:
  "threads (tlist_insert_after q t k) = threads k" "mutexes (tlist_insert_after q t k) = mutexes k" "sems (tlist_insert_after q t k) = sems k"
  "current_thread (tlist_insert_after q t k) = current_thread k"
  "system_sem (tlist_insert_after q t k) = system_sem k" "is_sem s (tlist_insert_after q t k) = is_sem s k"
  "scheduler_lock_nest (tlist_insert_after q t k) = scheduler_lock_nest k"
  "queues (tlist_insert_after q t k) r = (if r = q then t # queues k q else queues k r)"
  by (simp_all add: upd_defs is_sem_def rt_object_get_type_def)

text \<open>The release of the system thread's semaphore by a dying thread.\<close>

lemma enqueue_woken:
  assumes inv: "kernel_inv k" and cur: "current_thread k = Some t" and dead: "stat_class (threads k t) = RT_THREAD_CLOSE"
    and free: "scheduler_lock_nest k = 0" and sem: "is_sem s k" and q: "queues k (QSem s) = r # rs"
    and r: "r \<noteq> t"
  shows "\<exists>k' c. rt_sem_release s k = Some (RT_EOK, k') \<and> kernel_inv k' \<and> highest_running c k' \<and> c \<noteq> t
    \<and> threads k' t = threads k t \<and> mutexes k' = mutexes k
    \<and> queues k' QDefunct = queues k QDefunct \<and> queues k' (QSem s) = rs
    \<and> stat_class (threads k' r) \<in> {RT_THREAD_READY, RT_THREAD_RUNNING}"
proof -
  have "wait_queue (QSem s)" "current_thread k \<noteq> None" using cur by simp_all
  from resume_schedule_ok [OF inv this(2,1) q] obtain k1 k' where
    k: "rt_ipc_list_resume (QSem s) k = Some (RT_EOK, k1)" "rt_schedule k1 = Some k'"
      "handed r (QSem s) k k'" "queues k' (QSem s) = rs" "woken r RT_EOK k k1" by blast
  have w: "kernel_inv k1" "ipc_frame k k1" "current_thread k1 = Some t"
      "stat_class (threads k1 r) = RT_THREAD_READY" "threads k1 t = threads k t"
    using k(5) cur r by (auto simp: woken_def)
  have lock: "scheduler_lock_nest k1 = 0" using ipc_frameD(9) [OF w(2)] free by simp
  have dead1: "stat_class (threads k1 t) = RT_THREAD_CLOSE" using dead w(5) by simp
  from schedule_away [OF w(1,3) dead1 lock w(4)] k(2) obtain c where
    c: "kernel_inv k'" "highest_running c k'" "c \<noteq> t" "threads k' t = threads k1 t" by auto
  have "rt_sem_release s k = Some (RT_EOK, k')" using sem q k(1,2) by (simp add: rt_sem_release_def)
  moreover have "queues k' QDefunct = queues k QDefunct" using handedD(6) [OF k(3), of QDefunct] by simp
  moreover have "mutexes k' = mutexes k" using ipc_frameD(2) [OF handedD(2) [OF k(3)]] .
  ultimately show ?thesis using c w(5) k(4) handedD(8) [OF k(3)] by auto
qed

lemma bury_schedule_ok:
  assumes inv: "kernel_inv k" and cur: "current_thread k = Some t" and out: "unqueued t k"
    and dead: "stat_class (threads k t) = RT_THREAD_CLOSE" and free: "scheduler_lock_nest k = 0"
    and s: "stat_class (threads k s) = RT_THREAD_READY" and sem: "is_sem (system_sem k) k"
  shows "\<exists>k4 k' c. thread_bury t k = Some k4 \<and> (if rt_thread_self k4 = Some t then rt_schedule k4 else Some k4) = Some k'
    \<and> kernel_inv k' \<and> highest_running c k' \<and> c \<noteq> t \<and> threads k' t = threads k t \<and> mutexes k' = mutexes k
    \<and> (if rt_object_is_systemobject (OThread t) k \<and> cleanup (threads k t) = None
       then queues k' QDefunct = queues k QDefunct
       else queues k' QDefunct = t # queues k QDefunct \<and> notified k k')"
proof (cases "rt_object_is_systemobject (OThread t) k \<and> cleanup (threads k t) = None")
  case True
  let ?k4 = "rt_object_detach (OThread t) k"
  have "kernel_inv ?k4" using inv not_started_close [OF dead] by (rule kernel_inv_detach) simp
  from schedule_away [OF this, of t s] cur dead free s obtain k' c where
    k': "rt_schedule ?k4 = Some k'" "kernel_inv k'" "highest_running c k'" "c \<noteq> t" "threads k' t = threads k t"
      "sched_frame ?k4 k'" by auto
  have "queues k' QDefunct = queues k QDefunct" using sched_frameD(18) [OF k'(6), of QDefunct] by simp
  then show ?thesis using True k' cur sched_frameD(8) [OF k'(6)]
    by (intro exI [of _ ?k4] exI [of _ k'] exI [of _ c]) (simp add: thread_bury_def rt_thread_self_def)
next
  case False
  let ?s = "system_sem k"
  let ?k3 = "tlist_insert_after QDefunct t k"
  have inv3: "kernel_inv ?k3" by (rule kernel_inv_defunct [OF inv out dead])
  have bury: "thread_bury t k = Some k4" if "rt_sem_release ?s ?k3 = Some (r, k4)" for r k4
    using False that by (auto simp: thread_bury_def rt_thread_defunct_enqueue_def)
  show ?thesis
  proof (cases "queues k (QSem ?s)")
    case (Cons r rs)
    have "r \<noteq> t" using out Cons by (auto simp: unqueued_def dest: spec [of _ "QSem ?s"])
    then obtain k' c where
      k': "rt_sem_release ?s ?k3 = Some (RT_EOK, k')" "kernel_inv k'" "highest_running c k'" "c \<noteq> t"
        "threads k' t = threads k t" "queues k' QDefunct = t # queues k QDefunct" "queues k' (QSem ?s) = rs" "mutexes k' = mutexes k"
        "stat_class (threads k' r) \<in> {RT_THREAD_READY, RT_THREAD_RUNNING}"
      using enqueue_woken [OF inv3, of t ?s r rs] cur dead free sem Cons by auto
    have "rt_thread_self k' \<noteq> Some t" using k'(3,4) by (simp add: highest_running_def rt_thread_self_def)
    then show ?thesis using bury [OF k'(1)] k' Cons False
      by (intro exI [of _ k'] exI [of _ c]) (auto simp: notified_def)
  next
    case Nil
    let ?v = "sem_value (sems k ?s)"
    let ?k4 = "if ?v < RT_SEM_VALUE_MAX then set_sem ?s (?v + 1) ?k3 else ?k3"
    have rel: "\<exists>r. rt_sem_release ?s ?k3 = Some (r, ?k4)"
      using Nil sem by (simp add: rt_sem_release_def)
    have inv4: "kernel_inv ?k4" using inv3 by simp
    have same: "threads ?k4 = threads k" "current_thread ?k4 = Some t" "scheduler_lock_nest ?k4 = 0"
        "queues ?k4 QDefunct = t # queues k QDefunct"
        "sem_value (sems ?k4 ?s) = (if ?v < RT_SEM_VALUE_MAX then ?v + 1 else ?v)"
      using cur free by (simp_all add: set_sem_def)
    from schedule_away [OF inv4 same(2) _ same(3), of s] dead s same(1) obtain k' c where
      k': "rt_schedule ?k4 = Some k'" "kernel_inv k'" "highest_running c k'" "c \<noteq> t" "threads k' t = threads k t"
        "sched_frame ?k4 k'" by auto
    have "queues k' QDefunct = t # queues k QDefunct" using sched_frameD(18) [OF k'(6), of QDefunct] same(4) by simp
    moreover have "notified k k'" using same(5) sched_frameD(7) [OF k'(6)] Nil by (simp add: notified_def)
    moreover have "thread_bury t k = Some ?k4" using rel bury by blast
    moreover have "rt_thread_self ?k4 = Some t" using same(2) by (simp add: rt_thread_self_def)
    moreover have "mutexes k' = mutexes k"
      using sched_frameD(8) [OF k'(6)] by (simp add: set_sem_def)
    ultimately show ?thesis using k' False by (intro exI [of _ ?k4] exI [of _ k'] exI [of _ c]) simp
  qed
qed

lemma close_running:
  assumes inv: "kernel_inv k" and cls: "started (threads k t)"
    and st: "rt_object_is_systemobject (OTimer (ThreadTimer t)) k"
  shows "\<exists>k1. rt_schedule_remove_thread t k = Some k1 \<and> is_timer (ThreadTimer t) k1
    \<and> rt_object_is_systemobject (OTimer (ThreadTimer t)) k1 \<and> closed t k (timer_gone t (set_close t k1))"
proof -
  have core: "core_inv {} k" using inv by (simp add: kernel_inv_def sched_inv_def)
  have "prio_ok (threads k t)" using core_prio [OF core] cls by simp
  from rt_schedule_remove_thread_core [OF core this] obtain k1 where
    k1: "rt_schedule_remove_thread t k = Some k1" "core_inv {t} k1" by auto
  obtain g where g: "k1 = k\<lparr>queues := (\<lambda>q. removeAll t (queues k q)), ready_priority_group := g\<rparr>"
    using schedule_remove_form [OF k1(1)] .
  have "is_timer (ThreadTimer t) k"
    using inv cls by (auto simp: kernel_inv_def thread_objs_ok_def thread_obj_ok_def)
  then show ?thesis
    using k1 close_core [OF inv k1(2) g] st g
    by (simp add: is_timer_def rt_object_get_type_def rt_object_is_systemobject_def)
qed

subsection \<open>Reclaiming dead threads\<close>

text \<open>What the reaper needs of a cleanup function: it returns, keeps the kernel's invariant and the list of
  dead threads, and leaves the dead threads alone (the one it is called for it may release).\<close>

definition cleanup_ok :: "(nat \<Rightarrow> tid \<Rightarrow> kernel \<Rightarrow> kernel option) \<Rightarrow> bool" where
  "cleanup_ok cleanup_fn \<longleftrightarrow>
     (\<forall>f t k. kernel_inv k \<longrightarrow> current_thread k \<noteq> None \<longrightarrow> \<not> in_interrupt k \<longrightarrow> \<not> started (threads k t) \<longrightarrow>
        (\<exists>k'. cleanup_fn f t k = Some k' \<and> kernel_inv k' \<and> current_thread k' \<noteq> None \<and> \<not> in_interrupt k' \<and>
           queues k' QDefunct = queues k QDefunct \<and>
           (\<forall>s\<in>insert t (set (queues k QDefunct)). threads k' s = threads k s \<and> objs k' (OThread s) = objs k (OThread s))))"

definition owns_tcb :: "kernel \<Rightarrow> tid \<Rightarrow> bool" where
  "owns_tcb k t \<longleftrightarrow> cleanup (threads k t) \<noteq> None \<and>
     obj_flag (objs k (OThread t)) AND RT_THREAD_FLAG_CLEANUP_OWNS_TCB \<noteq> 0"

text \<open>What has to happen to a dead thread.  A cleanup function that owns the structure is called last, after
  a static thread has left the objects; otherwise it is called first.\<close>

definition reap_plan :: "kernel \<Rightarrow> tid \<Rightarrow> reap list" where
  "reap_plan k t =
     (let call = (case cleanup (threads k t) of Some f \<Rightarrow> [Cleanup f t] | None \<Rightarrow> []);
          static = rt_object_is_systemobject (OThread t) k
      in if owns_tcb k t then (if static then [Detach t] else []) @ call
         else call @ (if static then [Detach t] else [Free_stack (stack_addr (threads k t)), Delete t]))"

lemma reap_plan_cong:
  "threads k' t = threads k t \<Longrightarrow> objs k' (OThread t) = objs k (OThread t) \<Longrightarrow> reap_plan k' t = reap_plan k t"
  by (simp add: reap_plan_def owns_tcb_def rt_object_is_systemobject_def Let_def)

lemma kernel_inv_dequeue:
  assumes inv: "kernel_inv k" and q: "queues k QDefunct = t # ts"
  shows "kernel_inv (tlist_remove t k)" "queues (tlist_remove t k) QDefunct = ts" "\<not> started (threads k t)"
proof -
  let ?k = "tlist_remove t k"
  have core: "core_inv {} k" using inv by (simp add: kernel_inv_def sched_inv_def)
  have dead: "stat_class (threads k t) = RT_THREAD_CLOSE" using core_defunct [OF core, of t] q by simp
  then show "\<not> started (threads k t)" by (rule not_started_close)
  have "t \<notin> set ts" using core_distinct [OF core, of QDefunct] q by simp
  then show "queues ?k QDefunct = ts" using q by simp
  have other: "queues ?k r = queues k r" if "r \<noteq> QDefunct" for r
  proof -
    have "t \<notin> set (queues k r)" using core_one_queue [OF core, of t r QDefunct] q that by auto
    then show ?thesis by (simp add: removeAll_id)
  qed
  have thr: "threads ?k = threads k" "current_thread ?k = current_thread k" by (simp_all add: tlist_remove_def)
  have "core_inv {} ?k"
  proof (rule core_invI)
    fix p assume "p < RT_THREAD_PRIORITY_MAX"
    then show "bit (ready_priority_group ?k) p \<longleftrightarrow> queues ?k (QReady p) \<noteq> []"
      using core_bitmap [OF core, of p] other [of "QReady p"] by (simp add: tlist_remove_def)
  next
    fix r r' s assume "s \<in> set (queues ?k r)" "s \<in> set (queues ?k r')"
    then show "r = r'" using core_one_queue [OF core, of s r r'] by simp
  next
    fix p s show "s \<in> set (queues ?k (QReady p)) \<longleftrightarrow>
        stat_class (threads ?k s) = RT_THREAD_READY \<and> unat (current_priority (threads ?k s)) = p"
      using core_ready [OF core, of s p] other [of "QReady p"] by (simp only: thr) simp
  qed (use core_distinct [OF core] core_prio [OF core] core_waiting [OF core]
        core_defunct [OF core] in \<open>auto simp: thr distinct_removeAll\<close>)
  then have "sched_inv ?k" using inv by (simp add: kernel_inv_def sched_inv_def running_inv_def thr)
  then show "kernel_inv ?k"
    by (rule kernel_inv_sched [OF inv _ ipc_frame_tlist(1)]) (simp_all add: tlist_remove_def)
qed

text \<open>One round of the loop.\<close>

lemma cleanup_call:
  assumes ok: "cleanup_ok cleanup_fn" and inv: "kernel_inv k" and cur: "current_thread k \<noteq> None"
    and thr: "\<not> in_interrupt k" and dead: "\<not> started (threads k t)"
  shows "\<exists>k'. (case c of Some f \<Rightarrow> do { k \<leftarrow> cleanup_fn f t k; Some ([Cleanup f t], k) } | None \<Rightarrow> Some ([], k)) =
        Some (case c of Some f \<Rightarrow> [Cleanup f t] | None \<Rightarrow> [], k')
    \<and> kernel_inv k' \<and> current_thread k' \<noteq> None \<and> \<not> in_interrupt k' \<and> queues k' QDefunct = queues k QDefunct
    \<and> (\<forall>s\<in>insert t (set (queues k QDefunct)). threads k' s = threads k s \<and> objs k' (OThread s) = objs k (OThread s))"
proof (cases c)
  case None
  then show ?thesis using inv cur thr by simp
next
  case (Some f)
  obtain k' where "cleanup_fn f t k = Some k'" "kernel_inv k'" "current_thread k' \<noteq> None" "\<not> in_interrupt k'"
      "queues k' QDefunct = queues k QDefunct"
      "\<forall>s\<in>insert t (set (queues k QDefunct)). threads k' s = threads k s \<and> objs k' (OThread s) = objs k (OThread s)"
    using ok [unfolded cleanup_ok_def, rule_format, OF inv cur thr dead, of f] by blast
  then show ?thesis using Some by simp
qed

lemma reap_step:
  assumes ok: "cleanup_ok cleanup_fn" and inv: "kernel_inv k" and cur: "current_thread k \<noteq> None"
    and thr: "\<not> in_interrupt k" and q: "queues k QDefunct = t # ts"
  shows "\<exists>k'. rt_defunct_execute cleanup_fn k =
      do { (rest, k2) \<leftarrow> rt_defunct_execute cleanup_fn k'; Some (reap_plan k t @ rest, k2) }
    \<and> kernel_inv k' \<and> current_thread k' \<noteq> None \<and> \<not> in_interrupt k' \<and> queues k' QDefunct = ts
    \<and> (\<forall>s\<in>set ts. threads k' s = threads k s \<and> objs k' (OThread s) = objs k (OThread s))"
proof -
  let ?owns = "owns_tcb k t" and ?static = "rt_object_is_systemobject (OThread t) k"
  define k1 where "k1 = tlist_remove t k"
  define k2 where "k2 = (if ?owns \<and> ?static then rt_object_detach (OThread t) k1 else k1)"
  have same1: "threads k1 = threads k" "objs k1 = objs k" "current_thread k1 = current_thread k"
      "interrupt_nest k1 = interrupt_nest k" by (simp_all add: k1_def tlist_remove_def)
  note inv1 = kernel_inv_dequeue [OF inv q, folded k1_def]
  have nt: "t \<notin> set ts"
    using core_distinct [of "{}" k QDefunct] inv q by (simp add: kernel_inv_def sched_inv_def)
  have inv2: "kernel_inv k2" using kernel_inv_detach [OF inv1(1), of t] inv1(1,3) same1(1) by (auto simp: k2_def)
  have same2: "threads k2 = threads k" "current_thread k2 = current_thread k" "queues k2 QDefunct = ts"
      "in_interrupt k2 = in_interrupt k" "s \<noteq> t \<Longrightarrow> objs k2 (OThread s) = objs k (OThread s)"
      "\<not> ?owns \<Longrightarrow> objs k2 (OThread t) = objs k (OThread t)" for s
    using same1 inv1(2) by (auto simp: in_interrupt_def k2_def)
  let ?call = "case cleanup (threads k t) of Some f \<Rightarrow> [Cleanup f t] | None \<Rightarrow> []"
  obtain k3 where call: "(case cleanup (threads k t) of
        Some f \<Rightarrow> do { k \<leftarrow> cleanup_fn f t k2; Some ([Cleanup f t], k) } | None \<Rightarrow> Some ([], k2)) = Some (?call, k3)"
      and k3: "kernel_inv k3" "current_thread k3 \<noteq> None" "\<not> in_interrupt k3" "queues k3 QDefunct = ts"
        "\<forall>s\<in>insert t (set ts). threads k3 s = threads k s \<and> objs k3 (OThread s) = objs k2 (OThread s)"
    using cleanup_call [OF ok inv2, where c = "cleanup (threads k t)" and t = t] cur thr inv1(3)
    by (auto simp only: same2(1-4))
  define k4 where "k4 = (if ?owns then k3 else rt_object_detach (OThread t) k3)"
  have static: "rt_object_is_systemobject (OThread t) k3 = ?static" if "\<not> ?owns"
    using that k3(5) same2(6) by (simp add: rt_object_is_systemobject_def)
  have del: "rt_object_delete (OThread t) k3 = Some (rt_object_detach (OThread t) k3)" if "\<not> ?owns" "\<not> ?static"
    using static that by (simp add: rt_object_delete_def rt_object_detach_def)
  have run: "rt_defunct_execute cleanup_fn k =
      do { (rest, k5) \<leftarrow> rt_defunct_execute cleanup_fn k4; Some (reap_plan k t @ rest, k5) }"
  proof -
    have "rt_defunct_execute cleanup_fn k = do {
        (done2, k') \<leftarrow> (case cleanup (threads k t) of
          Some f \<Rightarrow> do { k \<leftarrow> cleanup_fn f t k2; Some ([Cleanup f t], k) } | None \<Rightarrow> Some ([], k2));
        (done3, k5) \<leftarrow> (if ?owns then Some ([], k')
          else if rt_object_is_systemobject (OThread t) k' then Some ([Detach t], rt_object_detach (OThread t) k')
          else do { let stack = stack_addr (threads k' t); k5 \<leftarrow> rt_object_delete (OThread t) k';
            Some ([Free_stack stack, Delete t], k5) });
        (rest, k5) \<leftarrow> rt_defunct_execute cleanup_fn k5;
        Some ((if ?owns \<and> ?static then [Detach t] else []) @ done2 @ done3 @ rest, k5) }"
      using q thr
      by (subst rt_defunct_execute.simps)
        (cases "cleanup (threads k t)"; simp add: rt_thread_defunct_dequeue_def k1_def [symmetric] k2_def same1
          owns_tcb_def rt_object_is_systemobject_def Let_def)
    then show ?thesis
      using call static del k3(5) by (cases ?owns; cases ?static) (simp_all add: k4_def reap_plan_def Let_def split_def)
  qed
  have dead: "\<not> started (threads k3 t)" using k3(5) inv1(3) by simp
  have "kernel_inv k4" using kernel_inv_detach [OF k3(1) dead] k3(1) by (auto simp: k4_def)
  moreover have "in_interrupt k4 = in_interrupt k3" by (simp add: in_interrupt_def k4_def)
  moreover have "objs k4 (OThread s) = objs k (OThread s)" "threads k4 s = threads k s" if "s \<in> set ts" for s
  proof -
    have "s \<noteq> t" using that nt by auto
    then show "objs k4 (OThread s) = objs k (OThread s)" "threads k4 s = threads k s"
      using that k3(5) same2(5) by (auto simp: k4_def)
  qed
  ultimately show ?thesis using run k3(2-4) by (intro exI [of _ k4]) (auto simp: k4_def)
qed

lemma rt_defunct_execute_ok:
  assumes "cleanup_ok cleanup_fn" and "kernel_inv k" and "current_thread k \<noteq> None" and "\<not> in_interrupt k"
    and "queues k QDefunct = ts"
  shows "\<exists>k'. rt_defunct_execute cleanup_fn k = Some (concat (map (reap_plan k) ts), k') \<and> kernel_inv k'
    \<and> queues k' QDefunct = []"
  using assms(2-5)
proof (induction ts arbitrary: k)
  case Nil
  then show ?case by (subst rt_defunct_execute.simps) (simp add: rt_thread_defunct_dequeue_def)
next
  case (Cons t ts)
  from reap_step [OF assms(1) Cons.prems] obtain k1 where
    k1: "rt_defunct_execute cleanup_fn k =
        do { (rest, k2) \<leftarrow> rt_defunct_execute cleanup_fn k1; Some (reap_plan k t @ rest, k2) }"
      "kernel_inv k1" "current_thread k1 \<noteq> None" "\<not> in_interrupt k1" "queues k1 QDefunct = ts"
      "\<forall>s\<in>set ts. threads k1 s = threads k s \<and> objs k1 (OThread s) = objs k (OThread s)" by blast
  have "concat (map (reap_plan k1) ts) = concat (map (reap_plan k) ts)"
    by (intro arg_cong [where f = concat] map_cong refl reap_plan_cong) (use k1(6) in blast)+
  moreover obtain k' where k': "rt_defunct_execute cleanup_fn k1 = Some (concat (map (reap_plan k1) ts), k')"
      "kernel_inv k'" "queues k' QDefunct = []"
    using Cons.IH [OF k1(2-5)] by blast
  ultimately have "rt_defunct_execute cleanup_fn k = Some (concat (map (reap_plan k) (t # ts)), k')"
    using k1(1) by simp
  then show ?case using k'(2,3) by blast
qed

text \<open>A cleanup function that tells a waiting thread of the end, by releasing a semaphore.\<close>

definition notify_cleanup :: "nat \<Rightarrow> tid \<Rightarrow> kernel \<Rightarrow> kernel option" where
  "notify_cleanup s t k = (if is_sem s k then map_option snd (rt_sem_release s k) else Some k)"

lemma release_keeps_dead:
  assumes inv: "kernel_inv k" and cur: "current_thread k \<noteq> None" and s: "is_sem s k"
  shows "\<exists>r k'. rt_sem_release s k = Some (r, k') \<and> kernel_inv k' \<and> current_thread k' \<noteq> None
    \<and> interrupt_nest k' = interrupt_nest k \<and> queues k' QDefunct = queues k QDefunct
    \<and> (\<forall>t. \<not> started (threads k t) \<longrightarrow> threads k' t = threads k t \<and> objs k' (OThread t) = objs k (OThread t))"
proof (cases "queues k (QSem s)")
  case Nil
  have "interrupt_nest (set_sem s v k) = interrupt_nest k" for v by (simp add: set_sem_def)
  then show ?thesis using Nil assms by (simp add: rt_sem_release_def)
next
  case (Cons r rs)
  have "wait_queue (QSem s)" by simp
  from resume_schedule_ok [OF inv cur this Cons] obtain k1 k' where
    k: "rt_ipc_list_resume (QSem s) k = Some (RT_EOK, k1)" "rt_schedule k1 = Some k'"
      "handed r (QSem s) k k'" "woken r RT_EOK k k1" by blast
  have w: "kernel_inv k1" "current_thread k1 = current_thread k"
    using k(4) by (auto simp: woken_def)
  obtain c where "current_thread k1 = Some c" using cur w(2) by auto
  from rt_schedule_ok [OF w(1) this] k(2) have same: "stat_class (threads k1 t) \<notin> {RT_THREAD_READY, RT_THREAD_RUNNING} \<Longrightarrow>
      threads k' t = threads k1 t" for t by auto
  have "started (threads k r)"
    using waiting_suspended [OF inv, of "QSem s" r] Cons suspended_class [of "threads k r"] by (auto simp: started_def)
  have dead: "threads k' t = threads k t" if t: "\<not> started (threads k t)" for t
  proof -
    have "t \<noteq> r" using t \<open>started (threads k r)\<close> by auto
    then have "threads k1 t = threads k t" using k(4) by (auto simp: woken_def)
    moreover have "stat_class (threads k t) \<notin> {RT_THREAD_READY, RT_THREAD_RUNNING}" using t by (auto simp: started_def)
    ultimately show ?thesis using same [of t] by simp
  qed
  have "objs k' (OThread t) = objs k (OThread t)" for t
    using handedD(2) [OF k(3)] by (simp add: ipc_frame_def)
  moreover have "interrupt_nest k' = interrupt_nest k" using handedD(2) [OF k(3)] by (simp add: ipc_frame_def)
  moreover have "rt_sem_release s k = Some (RT_EOK, k')" using Cons s k(1,2) by (simp add: rt_sem_release_def)
  moreover have "kernel_inv k'" "current_thread k' \<noteq> None" "queues k' QDefunct = queues k QDefunct"
    using handedD(1,3) [OF k(3)] handedD(6) [OF k(3), of QDefunct] by simp_all
  ultimately show ?thesis using dead by (intro exI [of _ RT_EOK] exI [of _ k']) simp
qed

lemma notify_cleanup_ok: "cleanup_ok notify_cleanup"
  unfolding cleanup_ok_def
proof (intro allI impI)
  fix s t k assume k: "kernel_inv k" "current_thread k \<noteq> None" "\<not> in_interrupt k" "\<not> started (threads k t)"
  have dead: "\<not> started (threads k r)" if "r \<in> insert t (set (queues k QDefunct))" for r
    using that k(1,4) core_defunct [of "{}" k r] not_started_close [of "threads k r"]
    by (auto simp: kernel_inv_def sched_inv_def)
  show "\<exists>k'. notify_cleanup s t k = Some k' \<and> kernel_inv k' \<and> current_thread k' \<noteq> None \<and> \<not> in_interrupt k' \<and>
      queues k' QDefunct = queues k QDefunct \<and>
      (\<forall>r\<in>insert t (set (queues k QDefunct)). threads k' r = threads k r \<and> objs k' (OThread r) = objs k (OThread r))"
  proof (cases "is_sem s k")
    case True
    from release_keeps_dead [OF k(1,2) True] obtain r k' where
      k': "rt_sem_release s k = Some (r, k')" "kernel_inv k'" "current_thread k' \<noteq> None"
        "interrupt_nest k' = interrupt_nest k" "queues k' QDefunct = queues k QDefunct"
        "\<forall>t. \<not> started (threads k t) \<longrightarrow> threads k' t = threads k t \<and> objs k' (OThread t) = objs k (OThread t)" by blast
    have "notify_cleanup s t k = Some k'" using True k'(1) by (simp add: notify_cleanup_def)
    moreover have "\<not> in_interrupt k'" using k(3) k'(4) by (simp add: in_interrupt_def)
    ultimately show ?thesis using k'(2,3,5,6) dead by blast
  next
    case False
    then show ?thesis using k by (simp add: notify_cleanup_def)
  qed
qed

subsection \<open>Deleting a thread\<close>

lemma unqueued_remove [simp]: "unqueued t k \<Longrightarrow> tlist_remove t k = k"
  by (simp add: unqueued_def tlist_remove_def)

text \<open>Dropping out of the wait for a mutex changes priorities only.\<close>

definition dropped :: "tid \<Rightarrow> kernel \<Rightarrow> kernel \<Rightarrow> bool" where
  "dropped t k k' \<longleftrightarrow>
     kernel_inv k' \<and> current_thread k' = current_thread k \<and> unqueued t k' \<and> system_sem k' = system_sem k \<and> sems k' = sems k \<and>
     (\<forall>s. stat_class (threads k' s) = stat_class (threads k s)) \<and>
     (\<forall>s. is_sem s k' = is_sem s k) \<and> (\<forall>q. \<not> ready_queue q \<longrightarrow> queues k' q = queues k q)"

lemma dropped_refl: "kernel_inv k \<Longrightarrow> unqueued t k \<Longrightarrow> dropped t k k"
  by (simp add: dropped_def)

lemma drop_thread_ok:
  assumes st: "mutex_state m k" and owner: "mutex_owner (mutexes k m) = Some ow" and out: "unqueued t k"
    and dead: "\<not> started (threads k t)"
  shows "\<exists>k'. rt_mutex_drop_thread m t k = Some k' \<and> dropped t k k'"
proof -
  note d = mutex_stateD [OF st]
  let ?k1 = "snd (mutex_update_priority m k)"
  have k1: "kernel_inv ?k1" "prios_ok ?k1" "dropped t k ?k1"
    using d(1,2) out
    by (simp_all add: dropped_def is_sem_def rt_object_get_type_def unqueued_def)
      (simp add: mutex_update_priority_def Let_def upd_mutex_def)
  show ?thesis
  proof (cases "owner_needs_update m t k \<and> thread_get_mutex_priority ow ?k1 \<noteq> current_priority (threads ?k1 ow)")
    case False
    then have "rt_mutex_drop_thread m t k = Some ?k1"
      using out owner by (auto simp: rt_mutex_drop_thread_def owner_restore_def Let_def)
    then show ?thesis using k1(3) by blast
  next
    case True
    have th: "is_thread ow ?k1"
      using d(7) owner by (simp add: lock_ok_state_def is_thread_def rt_object_get_type_def)
    from thread_update_priority_ok [OF k1(1,2) th get_mutex_priority_range [OF k1(2)], of ow RT_UNINTERRUPTIBLE] obtain k' where
      k': "thread_update_priority ow (thread_get_mutex_priority ow ?k1) RT_UNINTERRUPTIBLE ?k1 = Some k'"
        "reprio ow (thread_get_mutex_priority ow ?k1) ?k1 k'" by blast
    have "rt_mutex_drop_thread m t k = Some k'"
      using True out owner k'(1) by (auto simp: rt_mutex_drop_thread_def owner_restore_def Let_def)
    moreover have "dropped t k k'"
    proof -
      note r = reprioD [OF k'(2)]
      have core: "core_inv {} k'" using r(1) by (simp add: kernel_inv_def sched_inv_def)
      have "stat_class (threads k' t) \<noteq> RT_THREAD_READY" using r(7) [of t] dead by (auto simp: started_def)
      then have "t \<notin> set (queues k' q)" for q
        using core_ready [OF core, of t] r(12) [of q] out by (cases q) (auto simp: unqueued_def)
      moreover have "is_sem s k' = is_sem s k" for s
        using is_sem_frame [OF r(2), of s] k1(3) by (simp add: dropped_def)
      ultimately show ?thesis
        using r k1(3) ipc_frameD(1,10) [OF r(2)] by (simp add: dropped_def unqueued_def)
    qed
    ultimately show ?thesis by blast
  qed
qed

lemma mutex_state_closed:
  assumes st: "mutex_state m k" and owner: "mutex_owner (mutexes k m) \<noteq> None" and c: "closed t k k'"
  shows "mutex_state m k'"
proof -
  note d = mutex_stateD [OF st]
  have "prios_ok k'"
    using d(2) c by (auto simp: prios_ok_def closed_def) (simp add: rt_defs)
  moreover have "lock_ok_state m k'"
    using d(7) c owner by (auto simp: lock_ok_state_def closed_def is_thread_def rt_object_get_type_def)
  ultimately show ?thesis
    using st c by (simp add: mutex_state_def closed_def is_mutex_def rt_object_get_type_def)
qed

lemma drop_pending_ok:
  assumes inv: "kernel_inv k" and out: "unqueued t k" and dead: "\<not> started (threads k t)"
    and m: "\<And>m. pending_object (threads k t) = Some (OMutex m) \<Longrightarrow> is_mutex m k \<Longrightarrow>
      mutex_state m k \<and> mutex_owner (mutexes k m) \<noteq> None"
  shows "\<exists>k'. drop_pending t k = Some k' \<and> dropped t k k'"
proof (cases "\<exists>m. pending_object (threads k t) = Some (OMutex m) \<and> is_mutex m k")
  case True
  then obtain m where pend: "pending_object (threads k t) = Some (OMutex m)" "is_mutex m k" by blast
  from m [OF this] obtain ow where "mutex_state m k" "mutex_owner (mutexes k m) = Some ow" by blast
  from drop_thread_ok [OF this out dead] obtain k1 where k1: "rt_mutex_drop_thread m t k = Some k1" "dropped t k k1"
    by blast
  let ?k2 = "upd_thread t (\<lambda>th. th\<lparr>pending_object := None\<rparr>) k1"
  have "kernel_inv ?k2" using k1(2) by (intro kernel_inv_upd_other) (simp_all add: dropped_def)
  moreover have "system_sem ?k2 = system_sem k1" by (simp add: upd_thread_def)
  ultimately have "dropped t k ?k2"
    using k1(2) by (simp add: dropped_def threads_upd_thread stat_class_def)
  then show ?thesis using pend k1(1) by (auto simp: drop_pending_def)
next
  case False
  then have "drop_pending t k = Some k" by (auto simp: drop_pending_def split: option.splits oid.splits)
  then show ?thesis using dropped_refl [OF inv out] by blast
qed

lemma thread_close_ok:
  assumes inv: "kernel_inv k" and st: "started (threads k t)"
    and tm: "rt_object_is_systemobject (OTimer (ThreadTimer t)) k"
    and m: "\<And>m. pending_object (threads k t) = Some (OMutex m) \<Longrightarrow> is_mutex m k \<Longrightarrow>
      mutex_state m k \<and> mutex_owner (mutexes k m) \<noteq> None"
  shows "\<exists>k1 k'. thread_close t k = Some k' \<and> closed t k k1 \<and> dropped t k1 k'"
proof -
  from close_running [OF inv st tm] obtain k1 where k1: "rt_schedule_remove_thread t k = Some k1"
      "is_timer (ThreadTimer t) k1" "rt_object_is_systemobject (OTimer (ThreadTimer t)) k1"
      "closed t k (timer_gone t (set_close t k1))" by blast
  define k3 where "k3 = timer_gone t (set_close t k1)"
  have c: "closed t k k3" using k1(4) by (simp add: k3_def)
  have k3: "kernel_inv k3" "unqueued t k3" "\<not> started (threads k3 t)"
    using c by (simp_all add: closed_def not_started_close)
  have "\<exists>k'. drop_pending t k3 = Some k' \<and> dropped t k3 k'"
  proof (rule drop_pending_ok [OF k3])
    fix m assume "pending_object (threads k3 t) = Some (OMutex m)" "is_mutex m k3"
    then have "mutex_state m k \<and> mutex_owner (mutexes k m) \<noteq> None"
      using c assms(4) [of m] by (simp add: closed_def is_mutex_def rt_object_get_type_def)
    then show "mutex_state m k3 \<and> mutex_owner (mutexes k3 m) \<noteq> None"
      using mutex_state_closed [OF _ _ c] c by (simp add: closed_def)
  qed
  moreover have "thread_close t k = drop_pending t k3"
    using st k1(1) timer_detach_eq [OF k1(2,3)]
    by (simp add: thread_close_def k3_def timer_detach_upd_thread started_def)
  ultimately show ?thesis using c by auto
qed

subsection \<open>Sample states\<close>

text \<open>Thread 3 waits as the system thread, thread 1 runs and has a cleanup function; in the second state
  the dead thread 4 waits for the system thread, which runs.\<close>

definition sample_exit :: kernel where
  "sample_exit = upd_thread 1 (\<lambda>th. th\<lparr>cleanup := Some 0\<rparr>) sample_waiting"

lemma sample_exit_facts:
  "kernel_inv sample_exit" "current_thread sample_exit = Some 1"
  "stat_class (threads sample_exit 1) = RT_THREAD_RUNNING" "stat_class (threads sample_exit 2) = RT_THREAD_READY"
  "rt_object_is_systemobject (OTimer (ThreadTimer 1)) sample_exit" "scheduler_lock_nest sample_exit = 0"
  "rt_object_is_systemobject (OTimer (ThreadTimer 2)) sample_exit"
  "is_sem (system_sem sample_exit) sample_exit" "cleanup (threads sample_exit 1) = Some 0"
  "queues sample_exit QDefunct = []" "queues sample_exit (QSem (system_sem sample_exit)) = [3]"
  "pending_object (threads sample_exit 2) = None"
proof -
  show "kernel_inv sample_exit"
    unfolding sample_exit_def using sample_waiting_inv by (intro kernel_inv_upd_other) simp_all
qed (simp_all add: sample_exit_def upd_thread_def sample_waiting_defs zero_thread_def zero_object_def stat_class_def
    rt_object_is_systemobject_def is_sem_def rt_object_get_type_def rt_defs)

definition sample_delete :: kernel where
  "sample_delete = upd_obj (OThread 2) (\<lambda>ob. ob\<lparr>obj_type := RT_Object_Class_Thread\<rparr>) sample_waiting"

lemma sample_delete_facts:
  "kernel_inv sample_delete" "current_thread sample_delete \<noteq> None" "started (threads sample_delete 2)"
  "\<not> rt_object_is_systemobject (OThread 2) sample_delete"
  "rt_object_is_systemobject (OTimer (ThreadTimer 2)) sample_delete" "pending_object (threads sample_delete 2) = None"
  "is_sem (system_sem sample_delete) sample_delete" "queues sample_delete QDefunct = []"
proof -
  have "obj_type (objs sample_waiting (OThread 2)) AND NOT RT_Object_Class_Static = RT_Object_Class_Thread"
    by (simp add: sample_waiting_defs zero_object_def rt_defs)
  then have "rt_object_get_type x sample_delete = rt_object_get_type x sample_waiting" for x
    by (simp add: sample_delete_def rt_object_get_type_def upd_obj_def) (simp add: rt_defs)
  moreover have "sched_inv sample_delete"
    using sample_waiting_sched by (simp add: sample_delete_def upd_obj_def sched_inv_def core_inv_def running_inv_def unqueued_def)
  ultimately show "kernel_inv sample_delete"
    using sample_waiting_inv
    by (simp add: kernel_inv_def thread_objs_ok_def thread_obj_ok_def is_thread_def is_timer_def timer_flag_def
        timer_inv_def timer_active_def wait_timers_ok_def) (simp add: sample_delete_def upd_obj_def)
qed (simp_all add: sample_delete_def upd_obj_def sample_waiting_defs zero_thread_def zero_object_def stat_class_def started_def
    rt_object_is_systemobject_def is_sem_def rt_object_get_type_def rt_defs)

definition sample_reap :: kernel where
  "sample_reap = tlist_insert_after QDefunct 4
     (timer_gone 4 (set_close 4 (upd_thread 4 (\<lambda>th. th\<lparr>cleanup := Some 0\<rparr>) sample_waiting)))"

lemma sample_reap_facts:
  "kernel_inv sample_reap" "current_thread sample_reap \<noteq> None" "\<not> in_interrupt sample_reap"
  "queues sample_reap QDefunct = [4]"
proof -
  let ?k = "upd_thread 4 (\<lambda>th. th\<lparr>cleanup := Some 0\<rparr>) sample_waiting"
  have inv: "kernel_inv ?k" using sample_waiting_inv by (intro kernel_inv_upd_other) simp_all
  have out: "unqueued 4 ?k" by (auto simp: unqueued_def sample_waiting_defs)
  have "core_inv {4} ?k" using inv out core_inv_enter_transit by (simp add: kernel_inv_def sched_inv_def)
  moreover have "?k = ?k\<lparr>queues := (\<lambda>q. removeAll 4 (queues ?k q)), ready_priority_group := ready_priority_group ?k\<rparr>"
    using unqueued_remove [OF out] by (simp add: tlist_remove_def)
  ultimately have c: "closed 4 ?k (timer_gone 4 (set_close 4 ?k))" using inv close_core by blast
  then show "kernel_inv sample_reap"
    unfolding sample_reap_def by (intro kernel_inv_defunct) (simp_all add: closed_def)
  show "current_thread sample_reap \<noteq> None" "\<not> in_interrupt sample_reap" "queues sample_reap QDefunct = [4]"
    using c by (simp_all add: sample_reap_def closed_def in_interrupt_def)
      (simp_all add: upd_thread_def sample_waiting_defs upd_defs in_interrupt_def)
qed

subsection \<open>Properties\<close>

text \<open>C23: The exit of a thread.  As long as another thread is ready (the idle thread always is), the
  call of the running thread ends with the most urgent ready thread running in its place.  The dead thread
  is in no list but that of the dead threads, where it is put, and the system thread notified, when it is
  dynamic or has a cleanup function.  Its mutexes are not released.\<close>

theorem thread_exit_spec:
  assumes "kernel_inv k" and "current_thread k = Some t" and "stat_class (threads k t) = RT_THREAD_RUNNING"
    and "rt_object_is_systemobject (OTimer (ThreadTimer t)) k" and "scheduler_lock_nest k = 0"
    and "stat_class (threads k s) = RT_THREAD_READY" and "is_sem (system_sem k) k"
  shows "\<exists>k' c. rt_thread_exit k = Some k' \<and> kernel_inv k' \<and> highest_running c k' \<and> c \<noteq> t
    \<and> stat_class (threads k' t) = RT_THREAD_CLOSE \<and> mutexes k' = mutexes k
    \<and> (if rt_object_is_systemobject (OThread t) k \<and> cleanup (threads k t) = None
       then queues k' QDefunct = queues k QDefunct
       else queues k' QDefunct = t # queues k QDefunct \<and> notified k k')"
proof -
  have "started (threads k t)" using assms(3) by (simp add: started_def)
  from close_running [OF assms(1) this assms(4)] obtain k1 where k1: "rt_schedule_remove_thread t k = Some k1"
      "is_timer (ThreadTimer t) k1" "rt_object_is_systemobject (OTimer (ThreadTimer t)) k1"
      "closed t k (timer_gone t (set_close t k1))" by blast
  define k3 where "k3 = timer_gone t (set_close t k1)"
  have c: "closed t k k3" using k1(4) by (simp add: k3_def)
  have det: "rt_timer_detach (ThreadTimer t) (set_close t k1) = Some (RT_EOK, k3)"
    using timer_detach_eq [of "ThreadTimer t" "set_close t k1"] k1(2,3)
    by (simp add: k3_def is_timer_def rt_object_get_type_def rt_object_is_systemobject_def upd_thread_def)
  have "t \<noteq> s" using assms(3,6) by auto
  have out: "t \<notin> set (queues k q)" for q
    using core_running_unqueued [of "{}" k t] assms(1,3) by (simp add: kernel_inv_def sched_inv_def unqueued_def)
  have same: "queues k3 = queues k" using c out by (simp add: closed_def removeAll_id)
  from bury_schedule_ok [of k3 t s] c assms(2,5-7) \<open>t \<noteq> s\<close> obtain k4 k' d where
    k': "thread_bury t k3 = Some k4" "(if rt_thread_self k4 = Some t then rt_schedule k4 else Some k4) = Some k'"
      "kernel_inv k'" "highest_running d k'" "d \<noteq> t" "threads k' t = threads k3 t" "mutexes k' = mutexes k3"
      "if rt_object_is_systemobject (OThread t) k3 \<and> cleanup (threads k3 t) = None
       then queues k' QDefunct = queues k3 QDefunct
       else queues k' QDefunct = t # queues k3 QDefunct \<and> notified k3 k'"
    by (auto simp: closed_def is_sem_def rt_object_get_type_def)
  have "rt_thread_exit k = Some k'"
    using assms(2) k1(1) det k'(1,2) by (simp add: rt_thread_exit_def rt_thread_self_def)
  moreover have "notified k3 k' = notified k k'" using c same by (simp add: notified_def closed_def)
  moreover have "rt_object_is_systemobject (OThread t) k3 = rt_object_is_systemobject (OThread t) k"
    using c by (simp add: closed_def rt_object_is_systemobject_def)
  ultimately show ?thesis using k'(3-8) c same
    by (intro exI [of _ k'] exI [of _ d]) (auto simp: closed_def split: if_splits)
qed

theorem thread_exit_spec_witness:
  "\<exists>k' c. rt_thread_exit sample_exit = Some k' \<and> highest_running c k' \<and> c \<noteq> 1 \<and> queues k' QDefunct = [1]
     \<and> queues k' (QSem 0) = []"
  using thread_exit_spec [OF sample_exit_facts(1-3,5,6,4,8)] sample_exit_facts(8-11)
  by (auto simp: notified_def Let_def sample_exit_def sample_waiting_defs upd_thread_def)

text \<open>C25: The deletion of another thread.  A dynamic thread that is ready or suspended, also one that
  waits for a mutex, is taken out of the list it is in and joins the dead threads as a closed thread; the invariant is kept and the call succeeds.\<close>

theorem thread_delete_spec:
  assumes "kernel_inv k" and "current_thread k \<noteq> None" and "started (threads k t)"
    and "\<not> rt_object_is_systemobject (OThread t) k" and "rt_object_is_systemobject (OTimer (ThreadTimer t)) k"
    and "\<And>m. pending_object (threads k t) = Some (OMutex m) \<Longrightarrow> is_mutex m k \<Longrightarrow>
      mutex_state m k \<and> mutex_owner (mutexes k m) \<noteq> None"
    and "is_sem (system_sem k) k"
  shows "\<exists>k'. rt_thread_delete t k = Some (RT_EOK, k') \<and> kernel_inv k' \<and> stat_class (threads k' t) = RT_THREAD_CLOSE
    \<and> queues k' QDefunct = t # queues k QDefunct \<and> (\<forall>q. t \<in> set (queues k' q) \<longrightarrow> q = QDefunct)"
proof -
  from thread_close_ok [OF assms(1,3,5,6)] obtain k1 k2 where
    k2: "thread_close t k = Some k2" "closed t k k1" "dropped t k1 k2" by blast
  let ?k3 = "tlist_insert_after QDefunct t k2"
  have cls: "stat_class (threads k2 t) = RT_THREAD_CLOSE" using k2(2,3) by (simp add: closed_def dropped_def)
  have inv3: "kernel_inv ?k3"
    using k2(3) cls by (intro kernel_inv_defunct) (simp_all add: dropped_def)
  have dead: "\<not> started (threads ?k3 t)" using cls not_started_close by simp
  have "is_sem (system_sem k) k1" using k2(2) assms(7) by (simp add: closed_def is_sem_def rt_object_get_type_def)
  then have sem: "system_sem k2 = system_sem k" "is_sem (system_sem k) ?k3" "current_thread ?k3 \<noteq> None"
    using k2(2,3) assms(2) by (simp_all add: closed_def dropped_def)
  from release_keeps_dead [OF inv3 sem(3,2)] obtain r k' where
    k': "rt_sem_release (system_sem k) ?k3 = Some (r, k')" "kernel_inv k'" "queues k' QDefunct = queues ?k3 QDefunct"
      "\<forall>t. \<not> started (threads ?k3 t) \<longrightarrow> threads k' t = threads ?k3 t" by blast
  have "t \<notin> set (queues k QDefunct)"
    using assms(1,3) core_defunct [of "{}" k t] not_started_close by (auto simp: kernel_inv_def sched_inv_def)
  then have "queues k2 QDefunct = queues k QDefunct"
    using k2(2,3) by (simp add: closed_def dropped_def removeAll_id)
  then have q: "queues k' QDefunct = t # queues k QDefunct" using k'(3) by simp
  have thr: "threads k' t = threads k2 t" using k'(4) dead by simp
  have "is_thread t k" "stat_class (threads k t) \<noteq> RT_THREAD_CLOSE"
    using started_is_thread [OF assms(1,3)] assms(3) by (simp_all add: started_def)
  then have "rt_thread_delete t k = Some (RT_EOK, k')"
    using assms(4) k2(1) k'(1) sem(1) by (simp add: rt_thread_delete_def rt_thread_defunct_enqueue_def)
  moreover have "q = QDefunct" if "t \<in> set (queues k' q)" for q
    using core_one_queue [of "{}" k' t q QDefunct] that k'(2) \<open>queues k' QDefunct = t # _\<close>
    by (simp add: kernel_inv_def sched_inv_def)
  ultimately show ?thesis using k'(2) cls thr q by (intro exI [of _ k']) simp
qed

theorem thread_delete_spec_witness:
  "\<exists>k'. rt_thread_delete 2 sample_delete = Some (RT_EOK, k') \<and> queues k' QDefunct = [2]"
  using thread_delete_spec [OF sample_delete_facts(1-5) _ sample_delete_facts(7)] sample_delete_facts(6,8) by auto

text \<open>C15: The system thread reclaims all dead threads.  With cleanup functions that return and keep their
  hands off the dead threads, the loop ends with no dead thread left, and has done to each of them, in the
  order of the list, exactly what its kind demands: a stack is given back once, for dynamic threads only, and
  a cleanup function that owns the thread's structure is called after everything that reads it.\<close>

theorem reaper_reclaims_all:
  assumes "cleanup_ok cleanup_fn" and "kernel_inv k" and "current_thread k \<noteq> None" and "\<not> in_interrupt k"
  shows "\<exists>k'. rt_defunct_execute cleanup_fn k = Some (concat (map (reap_plan k) (queues k QDefunct)), k')
    \<and> kernel_inv k' \<and> queues k' QDefunct = []"
  using rt_defunct_execute_ok [OF assms refl] .

theorem reaper_reclaims_all_witness:
  "\<exists>k'. rt_defunct_execute notify_cleanup sample_reap = Some ([Cleanup 0 4, Detach 4], k') \<and> kernel_inv k'"
proof -
  have "reap_plan sample_reap 4 = [Cleanup 0 4, Detach 4]"
    by (simp add: reap_plan_def owns_tcb_def sample_reap_def upd_defs sample_waiting_defs rt_object_detach_def
        list_remove_object_def deactivate_def timer_remove_def set_timer_flag_def zero_object_def
        rt_object_is_systemobject_def rt_defs)
  then show ?thesis
    using reaper_reclaims_all [OF notify_cleanup_ok sample_reap_facts(1-3)] sample_reap_facts(4) by auto
qed

end
