(* ===== verification/Avl.thy ===== *)
theory Avl
  imports Interfaces
begin

text \<open>
  The balanced search trees of \<^verbatim>\<open>components/lwp/lwp_avl.c\<close>, which index the memory areas and other
  resources of a process.  A store has the nodes by address and the variable \<^verbatim>\<open>*ptree\<close>.  A \<open>nodeplace\<close>
  (\<^verbatim>\<open>struct lwp_avl_struct **\<close>) is the root variable or a child field of a node.  The stacks of nodeplaces are
  lists, the top first; a push beyond \<^verbatim>\<open>avl_maxheight\<close> entries is a write out of bounds and gives \<open>None\<close>, as does
  an access through a null pointer.

  The second part abstracts the store to trees: \<open>tree_of s t\<close> says that the nodes reachable from the root form
  the tree \<open>t\<close>.  Keys may occur several times; nodes are identified by their address.
\<close>

subsection \<open>Nodes and places\<close>

record lwp_avl_struct =
  avl_left :: "nat option"
  avl_right :: "nat option"
  avl_height :: int
  avl_key :: u64
  avl_data :: nat

record avl_store =
  avl_root :: "nat option"
  avl_nodes :: "nat \<Rightarrow> lwp_avl_struct"

datatype nodeplace = PRoot | PLeft nat | PRight nat

definition avl_maxheight :: nat where
  "avl_maxheight = 32"

definition heightof :: "avl_store \<Rightarrow> nat option \<Rightarrow> int" where
  "heightof s p = (case p of None \<Rightarrow> 0 | Some n \<Rightarrow> avl_height (avl_nodes s n))"

definition upd_node :: "nat \<Rightarrow> (lwp_avl_struct \<Rightarrow> lwp_avl_struct) \<Rightarrow> avl_store \<Rightarrow> avl_store" where
  "upd_node n f s = s\<lparr>avl_nodes := (avl_nodes s)(n := f (avl_nodes s n))\<rparr>"

fun get_place :: "nodeplace \<Rightarrow> avl_store \<Rightarrow> nat option" where
  "get_place PRoot s = avl_root s"
| "get_place (PLeft n) s = avl_left (avl_nodes s n)"
| "get_place (PRight n) s = avl_right (avl_nodes s n)"

fun set_place :: "nodeplace \<Rightarrow> nat option \<Rightarrow> avl_store \<Rightarrow> avl_store" where
  "set_place PRoot p s = s\<lparr>avl_root := p\<rparr>"
| "set_place (PLeft n) p s = upd_node n (\<lambda>x. x\<lparr>avl_left := p\<rparr>) s"
| "set_place (PRight n) p s = upd_node n (\<lambda>x. x\<lparr>avl_right := p\<rparr>) s"

subsection \<open>Operations\<close>

fun lwp_avl_rebalance :: "nodeplace list \<Rightarrow> avl_store \<Rightarrow> avl_store option" where
  "lwp_avl_rebalance [] s = Some s"
| "lwp_avl_rebalance (nodeplace # stack) s = do {
     node \<leftarrow> get_place nodeplace s;
     let nodeleft = avl_left (avl_nodes s node);
     let noderight = avl_right (avl_nodes s node);
     let heightleft = heightof s nodeleft;
     let heightright = heightof s noderight;
     if heightright + 1 < heightleft
     then do {
       nodeleft \<leftarrow> nodeleft;
       let nodeleftleft = avl_left (avl_nodes s nodeleft);
       let nodeleftright = avl_right (avl_nodes s nodeleft);
       let heightleftright = heightof s nodeleftright;
       if heightof s nodeleftleft \<ge> heightleftright
       then do {
         let s = upd_node node (\<lambda>x. x\<lparr>avl_left := nodeleftright\<rparr>) s;
         let s = upd_node nodeleft (\<lambda>x. x\<lparr>avl_right := Some node\<rparr>) s;
         let s = upd_node node (\<lambda>x. x\<lparr>avl_height := 1 + heightleftright\<rparr>) s;
         let s = upd_node nodeleft (\<lambda>x. x\<lparr>avl_height := 1 + (1 + heightleftright)\<rparr>) s;
         lwp_avl_rebalance stack (set_place nodeplace (Some nodeleft) s)
       }
       else do {
         nodeleftright \<leftarrow> nodeleftright;
         let s = upd_node nodeleft (\<lambda>x. x\<lparr>avl_right := avl_left (avl_nodes s nodeleftright)\<rparr>) s;
         let s = upd_node node (\<lambda>x. x\<lparr>avl_left := avl_right (avl_nodes s nodeleftright)\<rparr>) s;
         let s = upd_node nodeleftright (\<lambda>x. x\<lparr>avl_left := Some nodeleft\<rparr>) s;
         let s = upd_node nodeleftright (\<lambda>x. x\<lparr>avl_right := Some node\<rparr>) s;
         let s = upd_node node (\<lambda>x. x\<lparr>avl_height := heightleftright\<rparr>) s;
         let s = upd_node nodeleft (\<lambda>x. x\<lparr>avl_height := heightleftright\<rparr>) s;
         let s = upd_node nodeleftright (\<lambda>x. x\<lparr>avl_height := heightleft\<rparr>) s;
         lwp_avl_rebalance stack (set_place nodeplace (Some nodeleftright) s)
       }
     }
     else if heightleft + 1 < heightright
     then do {
       noderight \<leftarrow> noderight;
       let noderightright = avl_right (avl_nodes s noderight);
       let noderightleft = avl_left (avl_nodes s noderight);
       let heightrightleft = heightof s noderightleft;
       if heightof s noderightright \<ge> heightrightleft
       then do {
         let s = upd_node node (\<lambda>x. x\<lparr>avl_right := noderightleft\<rparr>) s;
         let s = upd_node noderight (\<lambda>x. x\<lparr>avl_left := Some node\<rparr>) s;
         let s = upd_node node (\<lambda>x. x\<lparr>avl_height := 1 + heightrightleft\<rparr>) s;
         let s = upd_node noderight (\<lambda>x. x\<lparr>avl_height := 1 + (1 + heightrightleft)\<rparr>) s;
         lwp_avl_rebalance stack (set_place nodeplace (Some noderight) s)
       }
       else do {
         noderightleft \<leftarrow> noderightleft;
         let s = upd_node noderight (\<lambda>x. x\<lparr>avl_left := avl_right (avl_nodes s noderightleft)\<rparr>) s;
         let s = upd_node node (\<lambda>x. x\<lparr>avl_right := avl_left (avl_nodes s noderightleft)\<rparr>) s;
         let s = upd_node noderightleft (\<lambda>x. x\<lparr>avl_right := Some noderight\<rparr>) s;
         let s = upd_node noderightleft (\<lambda>x. x\<lparr>avl_left := Some node\<rparr>) s;
         let s = upd_node node (\<lambda>x. x\<lparr>avl_height := heightrightleft\<rparr>) s;
         let s = upd_node noderight (\<lambda>x. x\<lparr>avl_height := heightrightleft\<rparr>) s;
         let s = upd_node noderightleft (\<lambda>x. x\<lparr>avl_height := heightright\<rparr>) s;
         lwp_avl_rebalance stack (set_place nodeplace (Some noderightleft) s)
       }
     }
     else do {
       let height = (if heightleft < heightright then heightright else heightleft) + 1;
       if height = avl_height (avl_nodes s node) then Some s
       else lwp_avl_rebalance stack (upd_node node (\<lambda>x. x\<lparr>avl_height := height\<rparr>) s)
     }
   }"

text \<open>The search of \<^verbatim>\<open>lwp_avl_find_nodeplace\<close>: the two arrays as one list of places with their state, the
  deepest first.  State 1 and 2 visit both subtrees of a node with the same key; state 3 visits one.\<close>

partial_function (option) avl_search ::
  "nat \<Rightarrow> avl_store \<Rightarrow> (nodeplace \<times> u8) list \<Rightarrow> nodeplace list option option" where
  "avl_search target s search =
     (case search of
        [] \<Rightarrow> Some None
      | (place, state) # rest \<Rightarrow>
          (case get_place place s of
             None \<Rightarrow> avl_search target s rest
           | Some node \<Rightarrow>
               if state = 0 \<and> node = target then Some (Some (map fst search))
               else if state = 0 \<or> state = 1
               then do {
                 let key = avl_key (avl_nodes s target);
                 let (state', next) =
                   (if state = 1 then (2, PRight node)
                    else if key < avl_key (avl_nodes s node) then (3, PLeft node)
                    else if key > avl_key (avl_nodes s node) then (3, PRight node)
                    else (1, PLeft node));
                 if length rest + 1 \<ge> avl_maxheight \<and> get_place next s \<noteq> None then Some None
                 else avl_search target s ((next, 0) # (place, state') # rest)
               }
               else avl_search target s rest))"

definition lwp_avl_find_nodeplace :: "nodeplace \<Rightarrow> nat \<Rightarrow> avl_store \<Rightarrow> nodeplace list option option" where
  "lwp_avl_find_nodeplace nodeplace target s = avl_search target s [(nodeplace, 0)]"

text \<open>The descent to the largest node of the left subtree.\<close>

function avl_rightmost ::
  "nodeplace \<Rightarrow> nodeplace list \<Rightarrow> nat \<Rightarrow> avl_store \<Rightarrow> (nat \<times> nodeplace \<times> nodeplace list) option" where
  "avl_rightmost nodeplace pushed stack_count s = do {
     node \<leftarrow> get_place nodeplace s;
     if avl_right (avl_nodes s node) = None then Some (node, nodeplace, pushed)
     else if stack_count < avl_maxheight
     then avl_rightmost (PRight node) (nodeplace # pushed) (stack_count + 1) s
     else None
   }"
  by pat_completeness auto
termination by (relation "measure (\<lambda>(_, _, stack_count, _). avl_maxheight - stack_count)") auto

definition lwp_avl_remove :: "nat option \<Rightarrow> avl_store \<Rightarrow> avl_store option" where
  "lwp_avl_remove node_to_delete s =
     (case node_to_delete of
        None \<Rightarrow> Some s
      | Some target \<Rightarrow> do {
          r \<leftarrow> lwp_avl_find_nodeplace PRoot target s;
          case r of
            None \<Rightarrow> Some s
          | Some stack \<Rightarrow> do {
              let nodeplace = hd stack;
              node_to_delete \<leftarrow> get_place nodeplace s;
              if avl_left (avl_nodes s node_to_delete) = None
              then lwp_avl_rebalance (tl stack) (set_place nodeplace (avl_right (avl_nodes s node_to_delete)) s)
              else do {
                (node, place, pushed) \<leftarrow> avl_rightmost (PLeft node_to_delete) [] (length stack) s;
                let s = set_place place (avl_left (avl_nodes s node)) s;
                let s = upd_node node (\<lambda>x. x\<lparr>avl_left := avl_left (avl_nodes s node_to_delete)\<rparr>) s;
                let s = upd_node node (\<lambda>x. x\<lparr>avl_right := avl_right (avl_nodes s node_to_delete)\<rparr>) s;
                let s = upd_node node (\<lambda>x. x\<lparr>avl_height := avl_height (avl_nodes s node_to_delete)\<rparr>) s;
                let s = set_place nodeplace (Some node) s;
                rt_assert (length stack < avl_maxheight);
                let pushed = (if pushed = [] then [] else butlast pushed @ [PLeft node]);
                lwp_avl_rebalance (pushed @ stack) s
              }
            }
        })"

function avl_descend :: "u64 \<Rightarrow> nodeplace \<Rightarrow> nodeplace list \<Rightarrow> avl_store \<Rightarrow> (nodeplace \<times> nodeplace list) option" where
  "avl_descend key nodeplace stack s =
     (case get_place nodeplace s of
        None \<Rightarrow> Some (nodeplace, stack)
      | Some node \<Rightarrow>
          if length stack < avl_maxheight
          then avl_descend key (if key < avl_key (avl_nodes s node) then PLeft node else PRight node)
                 (nodeplace # stack) s
          else None)"
  by pat_completeness auto
termination by (relation "measure (\<lambda>(_, _, stack, _). avl_maxheight - length stack)") auto

definition lwp_avl_insert :: "nat \<Rightarrow> avl_store \<Rightarrow> avl_store option" where
  "lwp_avl_insert new_node s = do {
     (nodeplace, stack) \<leftarrow> avl_descend (avl_key (avl_nodes s new_node)) PRoot [] s;
     let s = upd_node new_node (\<lambda>x. x\<lparr>avl_left := None, avl_right := None, avl_height := 1\<rparr>) s;
     lwp_avl_rebalance stack (set_place nodeplace (Some new_node) s)
   }"

partial_function (option) lwp_avl_find :: "u64 \<Rightarrow> nat option \<Rightarrow> avl_store \<Rightarrow> nat option option" where
  "lwp_avl_find key ptree s =
     (case ptree of
        None \<Rightarrow> Some None
      | Some n \<Rightarrow>
          if key = avl_key (avl_nodes s n) then Some (Some n)
          else if key < avl_key (avl_nodes s n) then lwp_avl_find key (avl_left (avl_nodes s n)) s
          else lwp_avl_find key (avl_right (avl_nodes s n)) s)"

text \<open>The callback of a traversal works on a state of its own.\<close>

partial_function (option) lwp_avl_traversal ::
  "nat option \<Rightarrow> (nat \<Rightarrow> 'a \<Rightarrow> int \<times> 'a) \<Rightarrow> avl_store \<Rightarrow> 'a \<Rightarrow> (int \<times> 'a) option" where
  "lwp_avl_traversal ptree fn s arg =
     (case ptree of
        None \<Rightarrow> Some (0, arg)
      | Some n \<Rightarrow> do {
          (ret, arg) \<leftarrow> (if avl_left (avl_nodes s n) \<noteq> None
             then lwp_avl_traversal (avl_left (avl_nodes s n)) fn s arg else Some (0, arg));
          if ret \<noteq> 0 then Some (ret, arg)
          else do {
            let (ret, arg) = fn n arg;
            if ret \<noteq> 0 then Some (ret, arg)
            else if avl_right (avl_nodes s n) \<noteq> None
            then lwp_avl_traversal (avl_right (avl_nodes s n)) fn s arg
            else Some (ret, arg)
          }
        })"

partial_function (option) avl_leftmost :: "nat \<Rightarrow> avl_store \<Rightarrow> nat option" where
  "avl_leftmost n s =
     (case avl_left (avl_nodes s n) of None \<Rightarrow> Some n | Some l \<Rightarrow> avl_leftmost l s)"

definition lwp_map_find_first :: "nat option \<Rightarrow> avl_store \<Rightarrow> nat option option" where
  "lwp_map_find_first ptree s =
     (case ptree of None \<Rightarrow> Some None | Some n \<Rightarrow> map_option Some (avl_leftmost n s))"

declare avl_rightmost.simps [simp del] avl_descend.simps [simp del]

subsection \<open>Trees in the store\<close>

datatype tr = Lf | Nd tr nat int tr

fun ptr :: "tr \<Rightarrow> nat option" where
  "ptr Lf = None"
| "ptr (Nd l n ht r) = Some n"

fun inorder :: "tr \<Rightarrow> nat list" where
  "inorder Lf = []"
| "inorder (Nd l n ht r) = inorder l @ n # inorder r"

fun rep :: "(nat \<Rightarrow> lwp_avl_struct) \<Rightarrow> tr \<Rightarrow> bool" where
  "rep h Lf = True"
| "rep h (Nd l n ht r) \<longleftrightarrow>
     avl_left (h n) = ptr l \<and> avl_right (h n) = ptr r \<and> avl_height (h n) = ht \<and> rep h l \<and> rep h r"

definition tree_of :: "avl_store \<Rightarrow> tr \<Rightarrow> bool" where
  "tree_of s t \<longleftrightarrow> avl_root s = ptr t \<and> rep (avl_nodes s) t \<and> distinct (inorder t)"

text \<open>A position in a tree: the steps from it to the root, each with the node and its other subtree.\<close>

datatype step = GoL nat int tr | GoR tr nat int

fun plug1 :: "step \<Rightarrow> tr \<Rightarrow> tr" where
  "plug1 (GoL n ht r) t = Nd t n ht r"
| "plug1 (GoR l n ht) t = Nd l n ht t"

fun plug :: "step list \<Rightarrow> tr \<Rightarrow> tr" where
  "plug [] t = t"
| "plug (f # fs) t = plug fs (plug1 f t)"

fun place_of :: "step list \<Rightarrow> nodeplace" where
  "place_of [] = PRoot"
| "place_of (GoL n ht r # fs) = PLeft n"
| "place_of (GoR l n ht # fs) = PRight n"

text \<open>The stack the C code has built when it stands at a position: the places of all nodes above it.\<close>

fun stack_of :: "step list \<Rightarrow> nodeplace list" where
  "stack_of [] = []"
| "stack_of (f # fs) = place_of fs # stack_of fs"

fun left_of :: "step list \<Rightarrow> nat list" where
  "left_of [] = []"
| "left_of (GoL n ht r # fs) = left_of fs"
| "left_of (GoR l n ht # fs) = left_of fs @ inorder l @ [n]"

fun right_of :: "step list \<Rightarrow> nat list" where
  "right_of [] = []"
| "right_of (GoL n ht r # fs) = n # inorder r @ right_of fs"
| "right_of (GoR l n ht # fs) = right_of fs"

lemma inorder_plug: "inorder (plug fs t) = left_of fs @ inorder t @ right_of fs"
proof (induction fs arbitrary: t)
  case (Cons f fs)
  then show ?case by (cases f) simp_all
qed simp

lemma length_stack_of [simp]: "length (stack_of fs) = length fs"
  by (induction fs) simp_all

lemma plug_append: "plug (fs @ gs) t = plug gs (plug fs t)"
  by (induction fs arbitrary: t) simp_all

text \<open>What a descent from one position to another one below it pushes.\<close>

fun pushed :: "step list \<Rightarrow> step list \<Rightarrow> nodeplace list" where
  "pushed [] fs = []"
| "pushed (h # hs) fs = place_of (hs @ fs) # pushed hs fs"

lemma stack_of_append: "stack_of (hs @ fs) = pushed hs fs @ stack_of fs"
  by (induction hs) simp_all

lemma left_of_append: "left_of (hs @ fs) = left_of fs @ left_of hs"
  by (induction hs rule: left_of.induct) simp_all

lemma right_of_append: "right_of (hs @ fs) = right_of hs @ right_of fs"
  by (induction hs rule: right_of.induct) simp_all

lemma rep_cong: "(\<And>n. n \<in> set (inorder t) \<Longrightarrow> h' n = h n) \<Longrightarrow> rep h' t = rep h t"
  by (induction t) auto

text \<open>The steps alone are in the store when every node of them has its other child, and \<open>p\<close> in the hole.\<close>

fun rep_steps :: "(nat \<Rightarrow> lwp_avl_struct) \<Rightarrow> step list \<Rightarrow> nat option \<Rightarrow> bool" where
  "rep_steps h [] p = True"
| "rep_steps h (GoL n ht r # fs) p \<longleftrightarrow>
     avl_left (h n) = p \<and> avl_right (h n) = ptr r \<and> avl_height (h n) = ht \<and> rep h r \<and> rep_steps h fs (Some n)"
| "rep_steps h (GoR l n ht # fs) p \<longleftrightarrow>
     avl_left (h n) = ptr l \<and> avl_right (h n) = p \<and> avl_height (h n) = ht \<and> rep h l \<and> rep_steps h fs (Some n)"

lemma rep_plug: "rep h (plug fs t) \<longleftrightarrow> rep h t \<and> rep_steps h fs (ptr t)"
proof (induction fs arbitrary: t)
  case (Cons f fs)
  then show ?case by (cases f) auto
qed simp

lemma rep_steps_cong:
  "(\<And>n. n \<in> set (left_of fs) \<union> set (right_of fs) \<Longrightarrow> h' n = h n) \<Longrightarrow> rep_steps h' fs p = rep_steps h fs p"
proof (induction fs arbitrary: p)
  case (Cons f fs)
  show ?case
  proof (cases f)
    case (GoL n ht r)
    then have "rep h' r = rep h r" using Cons.prems by (intro rep_cong) simp
    moreover have "rep_steps h' fs (Some n) = rep_steps h fs (Some n)"
      by (rule Cons.IH) (rule Cons.prems, auto simp: GoL)
    ultimately show ?thesis using GoL Cons.prems by simp
  next
    case (GoR l n ht)
    then have "rep h' l = rep h l" using Cons.prems by (intro rep_cong) simp
    moreover have "rep_steps h' fs (Some n) = rep_steps h fs (Some n)"
      by (rule Cons.IH) (rule Cons.prems, auto simp: GoR)
    ultimately show ?thesis using GoR Cons.prems by simp
  qed
qed simp

lemma rep_upd [simp]: "n \<notin> set (inorder t) \<Longrightarrow> rep (h(n := x)) t = rep h t"
  by (rule rep_cong) auto

lemma rep_steps_upd [simp]:
  "n \<notin> set (left_of fs) \<Longrightarrow> n \<notin> set (right_of fs) \<Longrightarrow> rep_steps (h(n := x)) fs p = rep_steps h fs p"
  by (rule rep_steps_cong) auto

lemma ptr_plug: "fs \<noteq> [] \<Longrightarrow> ptr (plug fs t) = ptr (plug fs t')"
proof (induction fs arbitrary: t t')
  case (Cons f fs)
  show ?case
  proof (cases fs)
    case Nil
    then show ?thesis by (cases f) simp_all
  next
    case (Cons g gs)
    then show ?thesis using Cons.IH [of "plug1 f t" "plug1 f t'"] by simp
  qed
qed simp

text \<open>Reading and writing the place of a position.\<close>

lemma get_place_of: "tree_of s (plug fs t) \<Longrightarrow> get_place (place_of fs) s = ptr t"
  by (cases fs rule: place_of.cases) (auto simp: tree_of_def rep_plug)

lemma set_place_of:
  assumes t: "tree_of s (plug fs t)"
    and same: "\<And>n. n \<in> set (left_of fs) \<union> set (right_of fs) \<Longrightarrow> avl_nodes s' n = avl_nodes s n" and root: "avl_root s' = avl_root s"
    and t': "rep (avl_nodes s') t'" "distinct (inorder t')"
      "set (inorder t') \<inter> (set (left_of fs) \<union> set (right_of fs)) = {}"
  shows "tree_of (set_place (place_of fs) (ptr t') s') (plug fs t')"
proof -
  let ?s = "set_place (place_of fs) (ptr t') s'"
  have d: "distinct (left_of fs @ inorder t @ right_of fs)" and steps: "rep_steps (avl_nodes s) fs (ptr t)"
      and r: "avl_root s = ptr (plug fs t)"
    using t by (auto simp: tree_of_def inorder_plug rep_plug)
  have steps': "rep_steps (avl_nodes s') fs (ptr t)"
    using steps same by (subst rep_steps_cong [of fs _ "avl_nodes s"])
  have out: "n \<notin> set (inorder t')" if "n \<in> set (left_of fs) \<union> set (right_of fs)" for n using t'(3) that by auto
  have "distinct (inorder (plug fs t'))" using d t'(2,3) by (auto simp: inorder_plug)
  moreover have "rep (avl_nodes ?s) t'" and "rep_steps (avl_nodes ?s) fs (ptr t')" and "avl_root ?s = ptr (plug fs t')"
  proof -
    consider "fs = []" | n ht r' gs where "fs = GoL n ht r' # gs" | l n ht gs where "fs = GoR l n ht # gs"
      by (cases fs rule: place_of.cases) auto
    then show "rep (avl_nodes ?s) t'" "rep_steps (avl_nodes ?s) fs (ptr t')" "avl_root ?s = ptr (plug fs t')"
    proof (atomize (full), cases)
      case 1
      then show "rep (avl_nodes ?s) t' \<and> rep_steps (avl_nodes ?s) fs (ptr t') \<and> avl_root ?s = ptr (plug fs t')"
        using t' by simp
    next
      case 2
      then have "n \<notin> set (inorder r')" "n \<notin> set (left_of gs) \<union> set (right_of gs)" using d by auto
      then show "rep (avl_nodes ?s) t' \<and> rep_steps (avl_nodes ?s) fs (ptr t') \<and> avl_root ?s = ptr (plug fs t')"
        using 2 t'(1) steps' out [of n] r root ptr_plug [of fs t t']
        by (simp add: upd_node_def)
    next
      case 3
      then have "n \<notin> set (inorder l)" "n \<notin> set (left_of gs) \<union> set (right_of gs)" using d by auto
      then show "rep (avl_nodes ?s) t' \<and> rep_steps (avl_nodes ?s) fs (ptr t') \<and> avl_root ?s = ptr (plug fs t')"
        using 3 t'(1) steps' out [of n] r root ptr_plug [of fs t t']
        by (simp add: upd_node_def)
    qed
  qed
  ultimately show ?thesis by (simp add: tree_of_def rep_plug)
qed

subsection \<open>Balance\<close>

fun hof :: "tr \<Rightarrow> int" where
  "hof Lf = 0"
| "hof (Nd l n ht r) = ht"

text \<open>Stored heights are right, and the subtrees of a node differ by at most one level.\<close>

fun avl :: "tr \<Rightarrow> bool" where
  "avl Lf = True"
| "avl (Nd l n ht r) \<longleftrightarrow> avl l \<and> avl r \<and> ht = 1 + max (hof l) (hof r) \<and> \<bar>hof l - hof r\<bar> \<le> 1"

text \<open>The steps above a position fit a balanced subtree of height \<open>H\<close> there.\<close>

fun avl_steps :: "step list \<Rightarrow> int \<Rightarrow> bool" where
  "avl_steps [] H = True"
| "avl_steps (GoL n ht r # fs) H \<longleftrightarrow> avl r \<and> ht = 1 + max H (hof r) \<and> \<bar>H - hof r\<bar> \<le> 1 \<and> avl_steps fs ht"
| "avl_steps (GoR l n ht # fs) H \<longleftrightarrow> avl l \<and> ht = 1 + max H (hof l) \<and> \<bar>H - hof l\<bar> \<le> 1 \<and> avl_steps fs ht"

lemma avl_plug: "avl (plug fs t) \<longleftrightarrow> avl t \<and> avl_steps fs (hof t)"
proof (induction fs arbitrary: t)
  case (Cons f fs)
  then show ?case by (cases f) (auto simp: max.commute abs_minus_commute)
qed simp

lemma hof_nonneg: "avl t \<Longrightarrow> 0 \<le> hof t"
  by (induction t) auto

lemma hof_zero: "avl t \<Longrightarrow> hof t = 0 \<longleftrightarrow> t = Lf"
  by (cases t) (auto simp: max_def dest: hof_nonneg)

lemma heightof_ptr: "rep (avl_nodes s) t \<Longrightarrow> heightof s (ptr t) = hof t"
  by (cases t) (simp_all add: heightof_def)

lemma avl_pos: "avl t \<Longrightarrow> 0 < hof t \<Longrightarrow> \<exists>l n ht r. t = Nd l n ht r"
  by (cases t) auto

text \<open>What an operation leaves of the nodes: keys and data of all of them, and everything of those outside
  the tree.\<close>

definition keeps :: "avl_store \<Rightarrow> avl_store \<Rightarrow> nat set \<Rightarrow> bool" where
  "keeps s s' A \<longleftrightarrow>
     (\<forall>n. avl_key (avl_nodes s' n) = avl_key (avl_nodes s n) \<and> avl_data (avl_nodes s' n) = avl_data (avl_nodes s n)) \<and>
     (\<forall>n. n \<notin> A \<longrightarrow> avl_nodes s' n = avl_nodes s n)"

lemma keeps_refl [simp]: "keeps s s A"
  by (simp add: keeps_def)

lemma keeps_trans: "keeps a b A \<Longrightarrow> keeps b c A \<Longrightarrow> keeps a c A"
  by (simp add: keeps_def)

lemma keeps_mono: "keeps a b A \<Longrightarrow> A \<subseteq> B \<Longrightarrow> keeps a b B"
  by (auto simp: keeps_def)

lemma keeps_upd:
  "n \<in> A \<Longrightarrow> (\<And>x. avl_key (f x) = avl_key x \<and> avl_data (f x) = avl_data x) \<Longrightarrow> keeps s s' A \<Longrightarrow> keeps s (upd_node n f s') A"
  by (simp add: keeps_def upd_node_def)

lemma keeps_place:
  assumes "keeps s s' (set (left_of fs) \<union> A \<union> set (right_of fs))"
  shows "keeps s (set_place (place_of fs) p s') (set (left_of fs) \<union> A \<union> set (right_of fs))"
proof -
  have "keeps s (s'\<lparr>avl_root := p\<rparr>) A = keeps s s' A" for A by (simp add: keeps_def)
  then show ?thesis using assms by (cases fs rule: place_of.cases) (auto intro!: keeps_upd)
qed

definition nodes_of :: "step list \<Rightarrow> tr \<Rightarrow> nat set" where
  "nodes_of fs t = set (left_of fs) \<union> set (inorder t) \<union> set (right_of fs)"

text \<open>One round of the loop: it stops at a balanced node, or goes on above a balanced subtree with the same
  nodes in the same order.\<close>

definition round_ok :: "step list \<Rightarrow> tr \<Rightarrow> nodeplace list \<Rightarrow> avl_store \<Rightarrow> bool" where
  "round_ok fs t stk s \<longleftrightarrow>
     (\<exists>s1 t1. lwp_avl_rebalance (place_of fs # stk) s = lwp_avl_rebalance stk s1 \<and> tree_of s1 (plug fs t1)
        \<and> avl t1 \<and> inorder t1 = inorder t \<and> keeps s s1 (nodes_of fs t)
        \<and> (case t of Lf \<Rightarrow> False | Nd l n ht r \<Rightarrow>
             if \<bar>hof l - hof r\<bar> \<le> 1 then hof t1 = 1 + max (hof l) (hof r)
             else hof t1 \<in> {max (hof l) (hof r), 1 + max (hof l) (hof r)}))"

lemma round_okI:
  assumes t: "tree_of s (plug fs t)"
    and run: "lwp_avl_rebalance (place_of fs # stk) s = lwp_avl_rebalance stk (set_place (place_of fs) (ptr t1) s1)"
    and s1: "avl_root s1 = avl_root s" "keeps s s1 (set (inorder t))" "rep (avl_nodes s1) t1"
    and t1: "inorder t1 = inorder t" "avl t1"
    and h: "case t of Lf \<Rightarrow> False | Nd l n ht r \<Rightarrow>
             if \<bar>hof l - hof r\<bar> \<le> 1 then hof t1 = 1 + max (hof l) (hof r)
             else hof t1 \<in> {max (hof l) (hof r), 1 + max (hof l) (hof r)}"
  shows "round_ok fs t stk s"
proof -
  have d: "distinct (left_of fs @ inorder t @ right_of fs)" using t by (simp add: tree_of_def inorder_plug)
  have "tree_of (set_place (place_of fs) (ptr t1) s1) (plug fs t1)"
    by (rule set_place_of [OF t _ s1(1,3)]) (use s1(2) d t1(1) in \<open>auto simp: keeps_def\<close>)
  moreover have "keeps s (set_place (place_of fs) (ptr t1) s1) (nodes_of fs t)"
    unfolding nodes_of_def by (rule keeps_place) (rule keeps_mono [OF s1(2)], auto)
  ultimately show ?thesis unfolding round_ok_def using run t1 h by blast
qed

lemma tree_of_sub:
  assumes "tree_of s (plug fs t)"
  shows "rep (avl_nodes s) t" "distinct (inorder t)" "get_place (place_of fs) s = ptr t"
  using assms get_place_of [OF assms] by (auto simp: tree_of_def rep_plug inorder_plug)

lemma round_left_single:
  assumes t: "tree_of s (plug fs (Nd (Nd ll ln lh lr) n ht r))"
    and a: "avl (Nd ll ln lh lr)" "avl r" "lh = hof r + 2" "hof lr \<le> hof ll"
  shows "round_ok fs (Nd (Nd ll ln lh lr) n ht r) stk s"
proof -
  note sub = tree_of_sub [OF t]
  let ?s1 = "upd_node ln (\<lambda>x. x\<lparr>avl_height := 1 + (1 + hof lr)\<rparr>) (upd_node n (\<lambda>x. x\<lparr>avl_height := 1 + hof lr\<rparr>)
     (upd_node ln (\<lambda>x. x\<lparr>avl_right := Some n\<rparr>) (upd_node n (\<lambda>x. x\<lparr>avl_left := ptr lr\<rparr>) s)))"
  have h: "heightof s (Some ln) = lh" "heightof s (ptr r) = hof r" "heightof s (ptr ll) = hof ll" "heightof s (ptr lr) = hof lr"
    using sub(1) heightof_ptr [of s "Nd ll ln lh lr"] by (simp_all add: heightof_ptr)
  have "lwp_avl_rebalance (place_of fs # stk) s = lwp_avl_rebalance stk (set_place (place_of fs) (Some ln) ?s1)"
    using sub(1,3) a by (simp add: h Let_def)
  then show ?thesis
    by (intro round_okI [OF t, where ?t1.0 = "Nd ll ln (1 + (1 + hof lr)) (Nd lr n (1 + hof lr) r)" and ?s1.0 = ?s1])
      (use sub(1,2) a in \<open>auto simp: upd_node_def keeps_def\<close>)
qed

lemma round_left_double:
  assumes t: "tree_of s (plug fs (Nd (Nd ll ln lh (Nd b m mh c)) n ht r))"
    and a: "avl (Nd ll ln lh (Nd b m mh c))" "avl r" "lh = hof r + 2" "hof ll < mh"
  shows "round_ok fs (Nd (Nd ll ln lh (Nd b m mh c)) n ht r) stk s"
proof -
  note sub = tree_of_sub [OF t]
  let ?s1 = "upd_node m (\<lambda>x. x\<lparr>avl_height := lh\<rparr>) (upd_node ln (\<lambda>x. x\<lparr>avl_height := mh\<rparr>)
     (upd_node n (\<lambda>x. x\<lparr>avl_height := mh\<rparr>) (upd_node m (\<lambda>x. x\<lparr>avl_right := Some n\<rparr>)
     (upd_node m (\<lambda>x. x\<lparr>avl_left := Some ln\<rparr>) (upd_node n (\<lambda>x. x\<lparr>avl_left := ptr c\<rparr>)
     (upd_node ln (\<lambda>x. x\<lparr>avl_right := ptr b\<rparr>) s))))))"
  have h: "heightof s (Some ln) = lh" "heightof s (ptr r) = hof r" "heightof s (ptr ll) = hof ll" "heightof s (Some m) = mh"
    using sub(1) heightof_ptr [of s "Nd ll ln lh (Nd b m mh c)"] heightof_ptr [of s "Nd b m mh c"] by (simp_all add: heightof_ptr)
  have ne: "m \<noteq> ln" "m \<noteq> n" "ln \<noteq> n" using sub(2) by auto
  have "lwp_avl_rebalance (place_of fs # stk) s = lwp_avl_rebalance stk (set_place (place_of fs) (Some m) ?s1)"
    using sub(1,3) a ne by (simp add: h Let_def) (simp add: upd_node_def)
  then show ?thesis
    by (intro round_okI [OF t, where ?t1.0 = "Nd (Nd ll ln mh b) m lh (Nd c n mh r)" and ?s1.0 = ?s1])
      (use sub(1,2) a ne in \<open>auto simp: upd_node_def keeps_def\<close>)
qed

lemma round_right_single:
  assumes t: "tree_of s (plug fs (Nd l n ht (Nd rl rn rh rr)))"
    and a: "avl (Nd rl rn rh rr)" "avl l" "rh = hof l + 2" "hof rl \<le> hof rr"
  shows "round_ok fs (Nd l n ht (Nd rl rn rh rr)) stk s"
proof -
  note sub = tree_of_sub [OF t]
  let ?s1 = "upd_node rn (\<lambda>x. x\<lparr>avl_height := 1 + (1 + hof rl)\<rparr>) (upd_node n (\<lambda>x. x\<lparr>avl_height := 1 + hof rl\<rparr>)
     (upd_node rn (\<lambda>x. x\<lparr>avl_left := Some n\<rparr>) (upd_node n (\<lambda>x. x\<lparr>avl_right := ptr rl\<rparr>) s)))"
  have h: "heightof s (Some rn) = rh" "heightof s (ptr l) = hof l" "heightof s (ptr rl) = hof rl" "heightof s (ptr rr) = hof rr"
    using sub(1) heightof_ptr [of s "Nd rl rn rh rr"] by (simp_all add: heightof_ptr)
  have "lwp_avl_rebalance (place_of fs # stk) s = lwp_avl_rebalance stk (set_place (place_of fs) (Some rn) ?s1)"
    using sub(1,3) a by (simp add: h Let_def)
  then show ?thesis
    by (intro round_okI [OF t, where ?t1.0 = "Nd (Nd l n (1 + hof rl) rl) rn (1 + (1 + hof rl)) rr" and ?s1.0 = ?s1])
      (use sub(1,2) a in \<open>auto simp: upd_node_def keeps_def\<close>)
qed

lemma round_right_double:
  assumes t: "tree_of s (plug fs (Nd l n ht (Nd (Nd b m mh c) rn rh rr)))"
    and a: "avl (Nd (Nd b m mh c) rn rh rr)" "avl l" "rh = hof l + 2" "hof rr < mh"
  shows "round_ok fs (Nd l n ht (Nd (Nd b m mh c) rn rh rr)) stk s"
proof -
  note sub = tree_of_sub [OF t]
  let ?s1 = "upd_node m (\<lambda>x. x\<lparr>avl_height := rh\<rparr>) (upd_node rn (\<lambda>x. x\<lparr>avl_height := mh\<rparr>)
     (upd_node n (\<lambda>x. x\<lparr>avl_height := mh\<rparr>) (upd_node m (\<lambda>x. x\<lparr>avl_left := Some n\<rparr>)
     (upd_node m (\<lambda>x. x\<lparr>avl_right := Some rn\<rparr>) (upd_node n (\<lambda>x. x\<lparr>avl_right := ptr b\<rparr>)
     (upd_node rn (\<lambda>x. x\<lparr>avl_left := ptr c\<rparr>) s))))))"
  have h: "heightof s (Some rn) = rh" "heightof s (ptr l) = hof l" "heightof s (ptr rr) = hof rr" "heightof s (Some m) = mh"
    using sub(1) heightof_ptr [of s "Nd (Nd b m mh c) rn rh rr"] heightof_ptr [of s "Nd b m mh c"]
    by (simp_all add: heightof_ptr)
  have ne: "m \<noteq> rn" "m \<noteq> n" "rn \<noteq> n" using sub(2) by auto
  have "lwp_avl_rebalance (place_of fs # stk) s = lwp_avl_rebalance stk (set_place (place_of fs) (Some m) ?s1)"
    using sub(1,3) a ne by (simp add: h Let_def) (simp add: upd_node_def)
  then show ?thesis
    by (intro round_okI [OF t, where ?t1.0 = "Nd (Nd l n mh b) m rh (Nd c rn mh rr)" and ?s1.0 = ?s1])
      (use sub(1,2) a ne in \<open>auto simp: upd_node_def keeps_def\<close>)
qed

text \<open>A round at a node whose subtrees differ by one level: the height is right already, or corrected.\<close>

lemma set_place_same: "get_place p s = q \<Longrightarrow> set_place p q s = s"
  by (cases p) (auto simp: upd_node_def)

lemma round_height:
  assumes t: "tree_of s (plug fs (Nd l n ht r))" and a: "avl l" "avl r" "\<bar>hof l - hof r\<bar> \<le> 1"
  shows "lwp_avl_rebalance (place_of fs # stk) s = Some s \<and> avl (Nd l n ht r) \<or> round_ok fs (Nd l n ht r) stk s"
proof -
  note sub = tree_of_sub [OF t]
  have h: "heightof s (ptr l) = hof l" "heightof s (ptr r) = hof r"
    using sub(1) by (simp_all add: heightof_ptr)
  let ?height = "1 + max (hof l) (hof r)"
  let ?s1 = "upd_node n (\<lambda>x. x\<lparr>avl_height := ?height\<rparr>) s"
  have height: "(if hof l < hof r then hof r else hof l) + 1 = ?height" by auto
  have no: "\<not> hof r + 1 < hof l" "\<not> hof l + 1 < hof r" using a(3) by linarith+
  have run: "lwp_avl_rebalance (place_of fs # stk) s = (if ?height = ht then Some s else lwp_avl_rebalance stk ?s1)"
    using sub(1,3) no unfolding height [symmetric] by (simp add: h Let_def)
  show ?thesis
  proof (cases "?height = ht")
    case True
    then have "avl (Nd l n ht r)" using a by simp
    then show ?thesis using True run by simp
  next
    case False
    have "get_place (place_of fs) ?s1 = Some n"
      using sub(3) by (cases "place_of fs") (auto simp: upd_node_def)
    then have "set_place (place_of fs) (Some n) ?s1 = ?s1" by (rule set_place_same)
    then have "lwp_avl_rebalance (place_of fs # stk) s = lwp_avl_rebalance stk (set_place (place_of fs) (Some n) ?s1)"
      using run False by simp
    then have "round_ok fs (Nd l n ht r) stk s"
      by (intro round_okI [OF t, where ?t1.0 = "Nd l n ?height r" and ?s1.0 = ?s1])
        (use sub(1,2) a in \<open>auto simp: upd_node_def keeps_def\<close>)
    then show ?thesis ..
  qed
qed

lemma round_cases:
  assumes t: "tree_of s (plug fs (Nd l n ht r))" and a: "avl l" "avl r" "\<bar>hof l - hof r\<bar> \<le> 2"
  shows "lwp_avl_rebalance (place_of fs # stk) s = Some s \<and> avl (Nd l n ht r) \<or> round_ok fs (Nd l n ht r) stk s"
proof -
  consider "\<bar>hof l - hof r\<bar> \<le> 1" | "hof l = hof r + 2" | "hof r = hof l + 2" using a(3) by linarith
  then show ?thesis
  proof cases
    case 1
    then show ?thesis using round_height [OF t a(1,2)] by blast
  next
    case 2
    then obtain ll ln lh lr where l: "l = Nd ll ln lh lr" using avl_pos [OF a(1)] hof_nonneg [OF a(2)] by force
    show ?thesis
    proof (cases "hof lr \<le> hof ll")
      case True
      show ?thesis by (intro disjI2) (simp only: l, rule round_left_single, use t a l 2 True in auto)
    next
      case False
      then obtain b m mh c where lr: "lr = Nd b m mh c"
        using avl_pos [of lr] hof_nonneg [of ll] a(1) l by force
      show ?thesis by (intro disjI2) (simp only: l lr, rule round_left_double, use t a l lr 2 False in auto)
    qed
  next
    case 3
    then obtain rl rn rh rr where r: "r = Nd rl rn rh rr" using avl_pos [OF a(2)] hof_nonneg [OF a(1)] by force
    show ?thesis
    proof (cases "hof rl \<le> hof rr")
      case True
      show ?thesis by (intro disjI2) (simp only: r, rule round_right_single, use t a r 3 True in auto)
    next
      case False
      then obtain b m mh c where rl: "rl = Nd b m mh c"
        using avl_pos [of rl] hof_nonneg [of rr] a(2) r by force
      show ?thesis by (intro disjI2) (simp only: r rl, rule round_right_double, use t a r rl 3 False in auto)
    qed
  qed
qed

text \<open>The loop.\<close>

lemma rebalance_ok:
  assumes "tree_of s (plug fs t)" and "avl t" and "avl_steps fs H" and "\<bar>hof t - H\<bar> \<le> 1"
  shows "\<exists>s' t'. lwp_avl_rebalance (stack_of fs) s = Some s' \<and> tree_of s' t' \<and> avl t'
    \<and> inorder t' = inorder (plug fs t) \<and> keeps s s' (nodes_of fs t)"
  using assms
proof (induction fs arbitrary: s t H)
  case Nil
  then show ?case by (intro exI [of _ s] exI [of _ t]) simp
next
  case (Cons f fs)
  obtain l n ht r where N: "plug1 f t = Nd l n ht r" by (cases f) auto
  have tree: "tree_of s (plug fs (Nd l n ht r))" using Cons.prems(1) N by simp
  have a: "avl l" "avl r" "\<bar>hof l - hof r\<bar> \<le> 2" "avl_steps fs ht"
    using Cons.prems(2-4) N by (cases f; auto)+
  have same: "nodes_of fs (Nd l n ht r) = nodes_of (f # fs) t"
    using N by (cases f) (auto simp: nodes_of_def)
  have "lwp_avl_rebalance (place_of fs # stack_of fs) s = Some s \<and> avl (Nd l n ht r)
      \<or> round_ok fs (Nd l n ht r) (stack_of fs) s"
    by (rule round_cases [OF tree a(1-3)])
  then show ?case
  proof
    assume stop: "lwp_avl_rebalance (place_of fs # stack_of fs) s = Some s \<and> avl (Nd l n ht r)"
    then have "avl (plug fs (Nd l n ht r))" using a(4) by (simp add: avl_plug)
    then show ?thesis using stop tree N by (intro exI [of _ s] exI [of _ "plug (f # fs) t"]) simp
  next
    assume "round_ok fs (Nd l n ht r) (stack_of fs) s"
    then obtain s1 t1 where
      s1: "lwp_avl_rebalance (place_of fs # stack_of fs) s = lwp_avl_rebalance (stack_of fs) s1"
        "tree_of s1 (plug fs t1)" "avl t1" "inorder t1 = inorder (Nd l n ht r)" "keeps s s1 (nodes_of fs (Nd l n ht r))"
        "if \<bar>hof l - hof r\<bar> \<le> 1 then hof t1 = 1 + max (hof l) (hof r)
         else hof t1 \<in> {max (hof l) (hof r), 1 + max (hof l) (hof r)}"
      by (auto simp: round_ok_def)
    have "\<bar>hof t1 - ht\<bar> \<le> 1"
      using s1(6) Cons.prems(3,4) N by (cases f) (auto split: if_splits)
    from Cons.IH [OF s1(2,3) a(4) this] obtain s' t' where
      "lwp_avl_rebalance (stack_of fs) s1 = Some s'" "tree_of s' t'" "avl t'"
      "inorder t' = inorder (plug fs t1)" "keeps s1 s' (nodes_of fs t1)" by blast
    moreover have "nodes_of fs t1 = nodes_of fs (Nd l n ht r)" using s1(4) by (simp add: nodes_of_def)
    ultimately show ?thesis
      using s1 N same by (intro exI [of _ s'] exI [of _ t']) (auto simp: inorder_plug intro: keeps_trans)
  qed
qed

subsection \<open>Insertion\<close>

abbreviation keys :: "avl_store \<Rightarrow> nat \<Rightarrow> u64" where
  "keys s n \<equiv> avl_key (avl_nodes s n)"

lemma depth_bound: "avl (plug fs t) \<Longrightarrow> int (length fs) + hof t \<le> hof (plug fs t)"
proof (induction fs arbitrary: t)
  case (Cons f fs)
  have "avl (plug fs (plug1 f t))" using Cons.prems by simp
  then have "int (length fs) + hof (plug1 f t) \<le> hof (plug fs (plug1 f t))" by (rule Cons.IH)
  moreover have "1 + hof t \<le> hof (plug1 f t)"
    using Cons.prems by (cases f) (auto simp: avl_plug)
  ultimately show ?case by simp
qed simp

lemma descend_ok:
  assumes "tree_of s (plug fs t)" and "avl t" and "int (length fs) + hof t \<le> 32" and "sorted (map (keys s) (inorder t))"
  shows "\<exists>hs. avl_descend key (place_of fs) (stack_of fs) s = Some (place_of (hs @ fs), stack_of (hs @ fs))
    \<and> t = plug hs Lf \<and> (\<forall>m\<in>set (left_of hs). keys s m \<le> key) \<and> (\<forall>m\<in>set (right_of hs). key < keys s m)"
  using assms
proof (induction t arbitrary: fs)
  case Lf
  then show ?case using get_place_of [OF Lf.prems(1)] by (subst avl_descend.simps) (intro exI [of _ "[]"], simp)
next
  case (Nd l n ht r)
  have p: "get_place (place_of fs) s = Some n" using get_place_of [OF Nd.prems(1)] by simp
  have h: "0 \<le> hof l" "0 \<le> hof r" using Nd.prems(2) hof_nonneg by auto
  have len: "length fs < avl_maxheight" using Nd.prems(2,3) h by (auto simp: avl_maxheight_def)
  show ?case
  proof (cases "key < keys s n")
    case True
    let ?f = "GoL n ht r"
    have "tree_of s (plug (?f # fs) l)" "avl l" "int (length (?f # fs)) + hof l \<le> 32" "sorted (map (keys s) (inorder l))"
      using Nd.prems by (auto simp: sorted_append)
    from Nd.IH(1) [OF this] obtain hs where
      hs: "avl_descend key (PLeft n) (place_of fs # stack_of fs) s = Some (place_of (hs @ ?f # fs), stack_of (hs @ ?f # fs))"
        "l = plug hs Lf" "\<forall>m\<in>set (left_of hs). keys s m \<le> key" "\<forall>m\<in>set (right_of hs). key < keys s m"
      by auto
    have "\<forall>m\<in>set (right_of (hs @ [?f])). key < keys s m"
      using hs(4) True Nd.prems(4) by (auto simp: right_of_append sorted_append intro: less_le_trans)
    then show ?thesis
      using hs True p len
      by (subst avl_descend.simps) (intro exI [of _ "hs @ [?f]"], simp add: left_of_append plug_append)
  next
    case False
    let ?f = "GoR l n ht"
    have "tree_of s (plug (?f # fs) r)" "avl r" "int (length (?f # fs)) + hof r \<le> 32" "sorted (map (keys s) (inorder r))"
      using Nd.prems by (auto simp: sorted_append)
    from Nd.IH(2) [OF this] obtain hs where
      hs: "avl_descend key (PRight n) (place_of fs # stack_of fs) s = Some (place_of (hs @ ?f # fs), stack_of (hs @ ?f # fs))"
        "r = plug hs Lf" "\<forall>m\<in>set (left_of hs). keys s m \<le> key" "\<forall>m\<in>set (right_of hs). key < keys s m"
      by auto
    have "\<forall>m\<in>set (left_of (hs @ [?f])). keys s m \<le> key"
      using hs(3) False Nd.prems(4) by (auto simp: left_of_append sorted_append intro: order_trans)
    then show ?thesis
      using hs False p len
      by (subst avl_descend.simps) (intro exI [of _ "hs @ [?f]"], simp add: right_of_append plug_append)
  qed
qed

lemma insert_ok:
  assumes t: "tree_of s t" "avl t" "sorted (map (keys s) (inorder t))" "hof t \<le> 32" and new: "new \<notin> set (inorder t)"
  shows "\<exists>s' t' xs ys. lwp_avl_insert new s = Some s' \<and> tree_of s' t' \<and> avl t' \<and> inorder t = xs @ ys
    \<and> inorder t' = xs @ new # ys \<and> (\<forall>m\<in>set xs. keys s m \<le> keys s new) \<and> (\<forall>m\<in>set ys. keys s new < keys s m)
    \<and> keeps s s' (insert new (set (inorder t)))"
proof -
  have "tree_of s (plug [] t)" "int (length ([] :: step list)) + hof t \<le> 32" using t(1,4) by simp_all
  from descend_ok [OF this(1) t(2) this(2) t(3), of "keys s new"] obtain hs where
    hs: "avl_descend (keys s new) PRoot [] s = Some (place_of hs, stack_of hs)" "t = plug hs Lf"
      "\<forall>m\<in>set (left_of hs). keys s m \<le> keys s new" "\<forall>m\<in>set (right_of hs). keys s new < keys s m"
    by auto
  let ?s1 = "upd_node new (\<lambda>x. x\<lparr>avl_left := None, avl_right := None, avl_height := 1\<rparr>) s"
  let ?s2 = "set_place (place_of hs) (Some new) ?s1"
  have tree: "tree_of s (plug hs Lf)" using t(1) hs(2) by simp
  have out: "new \<notin> set (left_of hs) \<union> set (right_of hs)" using new hs(2) by (auto simp: inorder_plug)
  have "tree_of (set_place (place_of hs) (ptr (Nd Lf new 1 Lf)) ?s1) (plug hs (Nd Lf new 1 Lf))"
    by (rule set_place_of [OF tree]) (use out in \<open>auto simp: upd_node_def\<close>)
  then have t2: "tree_of ?s2 (plug hs (Nd Lf new 1 Lf))" by simp
  have "avl_steps hs 0" using t(2) hs(2) by (simp add: avl_plug)
  from rebalance_ok [OF t2 _ this] obtain s' t' where
    s': "lwp_avl_rebalance (stack_of hs) ?s2 = Some s'" "tree_of s' t'" "avl t'"
      "inorder t' = inorder (plug hs (Nd Lf new 1 Lf))" "keeps ?s2 s' (nodes_of hs (Nd Lf new 1 Lf))" by auto
  have "keeps s ?s1 (nodes_of hs (Nd Lf new 1 Lf))" by (rule keeps_upd) (auto simp: nodes_of_def)
  then have "keeps s ?s2 (nodes_of hs (Nd Lf new 1 Lf))" unfolding nodes_of_def by (rule keeps_place)
  moreover have "nodes_of hs (Nd Lf new 1 Lf) = insert new (set (inorder t))"
    by (auto simp: nodes_of_def hs(2) inorder_plug)
  ultimately have "keeps s s' (insert new (set (inorder t)))" using keeps_trans s'(5) by metis
  moreover have "lwp_avl_insert new s = Some s'" using hs(1) s'(1) by (simp add: lwp_avl_insert_def)
  ultimately show ?thesis
    using s'(2-4) hs(2-4)
    by (intro exI [of _ s'] exI [of _ t'] exI [of _ "left_of hs"] exI [of _ "right_of hs"]) (simp add: inorder_plug)
qed

subsection \<open>Removal\<close>

lemma search_skip:
  assumes "get_place place s = Some node" and "state \<noteq> 0" "state \<noteq> 1"
  shows "avl_search target s ((place, state) # rest) = avl_search target s rest"
  using assms by (subst avl_search.simps) simp

lemma search_push:
  assumes "get_place place s = Some node" and "state = 0 \<and> node \<noteq> target \<or> state = 1"
    and "(state', next) =
       (if state = 1 then (2, PRight node)
        else if keys s target < keys s node then (3, PLeft node)
        else if keys s target > keys s node then (3, PRight node)
        else (1, PLeft node))"
    and "length rest + 1 < avl_maxheight \<or> get_place next s = None"
  shows "avl_search target s ((place, state) # rest) = avl_search target s ((next, 0) # (place, state') # rest)"
  using assms(1,2,4) unfolding assms(3) [symmetric]
  by (subst avl_search.simps) (auto simp: Let_def assms(3) [symmetric] split: prod.splits)

lemma sorted_around:
  assumes "sorted (map f (xs @ n # ys))"
  shows "m \<in> set xs \<Longrightarrow> f m \<le> f n" "m \<in> set ys \<Longrightarrow> f n \<le> f m" "sorted (map f xs)" "sorted (map f ys)"
  using assms by (auto simp: sorted_append)

text \<open>The search below a position: it finds the target with the stack of its position, or leaves the
  subtree.\<close>

definition search_spec :: "nat \<Rightarrow> avl_store \<Rightarrow> step list \<Rightarrow> tr \<Rightarrow> (nodeplace \<times> u8) list \<Rightarrow> bool" where
  "search_spec target s fs t rest \<longleftrightarrow>
     (if target \<in> set (inorder t)
      then \<exists>hs l ht r. t = plug hs (Nd l target ht r) \<and>
        avl_search target s ((place_of fs, 0) # rest) = Some (Some (place_of (hs @ fs) # stack_of (hs @ fs)))
      else avl_search target s ((place_of fs, 0) # rest) = avl_search target s rest)"

lemma search_spec_found:
  assumes "search_spec target s (f # fs) c rest'" and "target \<in> set (inorder c)" and "plug1 f c = t"
    and "avl_search target s ((place_of fs, 0) # rest) = avl_search target s ((place_of (f # fs), 0) # rest')"
    and "target \<in> set (inorder t)"
  shows "search_spec target s fs t rest"
proof -
  from assms(1,2) obtain hs l ht r where "c = plug hs (Nd l target ht r)"
      "avl_search target s ((place_of (f # fs), 0) # rest') = Some (Some (place_of (hs @ f # fs) # stack_of (hs @ f # fs)))"
    by (auto simp: search_spec_def)
  then have "\<exists>hs l ht r. t = plug hs (Nd l target ht r) \<and>
      avl_search target s ((place_of fs, 0) # rest) = Some (Some (place_of (hs @ fs) # stack_of (hs @ fs)))"
    using assms(3,4)
    by (intro exI [of _ "hs @ [f]"] exI [of _ l] exI [of _ ht] exI [of _ r]) (simp add: plug_append)
  then show ?thesis using assms(5) by (simp add: search_spec_def)
qed

lemma search_ok:
  assumes "tree_of s (plug fs t)" and "avl t" and "int (length fs) + hof t \<le> 32"
    and "sorted (map (keys s) (inorder t))" and "map fst rest = stack_of fs"
  shows "search_spec target s fs t rest"
  using assms
proof (induction t arbitrary: fs rest)
  case Lf
  then show ?case using get_place_of [OF Lf.prems(1)]
    by (subst search_spec_def, subst avl_search.simps) simp
next
  case (Nd l n ht r)
  let ?p = "place_of fs" and ?L = "GoL n ht r" and ?R = "GoR l n ht"
  have p: "get_place ?p s = Some n" using get_place_of [OF Nd.prems(1)] by simp
  note around = sorted_around [of "keys s" "inorder l" n "inorder r", OF Nd.prems(4) [unfolded inorder.simps]]
  have len: "length rest = length fs" using Nd.prems(5) by (metis length_map length_stack_of)
  have left: "tree_of s (plug (?L # fs) l)" "avl l" "int (length (?L # fs)) + hof l \<le> 32"
    and right: "tree_of s (plug (?R # fs) r)" "avl r" "int (length (?R # fs)) + hof r \<le> 32"
    using Nd.prems(1-3) by auto
  have room: "length rest + 1 < avl_maxheight \<or> ptr c = None" if "avl c" "int (length fs) + 1 + hof c \<le> 32" for c
  proof (cases c)
    case (Nd l' n' ht' r')
    then have "0 < hof c" using that(1) hof_nonneg [of c] hof_zero [of c] by force
    then show ?thesis using that(2) len by (simp add: avl_maxheight_def)
  qed simp
  have lroom: "length rest + 1 < avl_maxheight \<or> get_place (PLeft n) s = None"
    and rroom: "length rest + 1 < avl_maxheight \<or> get_place (PRight n) s = None"
    using room [of l] room [of r] left right get_place_of [OF left(1)] get_place_of [OF right(1)] by simp_all
  have IHl: "search_spec target s (?L # fs) l ((?p, st) # rest)"
    and IHr: "search_spec target s (?R # fs) r ((?p, st) # rest)" for st
    using Nd.IH(1) [OF left around(3)] Nd.IH(2) [OF right around(4)] Nd.prems(5) by simp_all
  have skip: "avl_search target s ((?p, st) # rest) = avl_search target s rest" if "st = 2 \<or> st = 3" for st
    using search_skip [OF p, of st] that by auto
  have miss_l: "avl_search target s ((PLeft n, 0) # (?p, st) # rest) = avl_search target s ((?p, st) # rest)"
    if "target \<notin> set (inorder l)" for st
    using IHl [of st] that by (simp add: search_spec_def)
  have miss_r: "avl_search target s ((PRight n, 0) # (?p, st) # rest) = avl_search target s ((?p, st) # rest)"
    if "target \<notin> set (inorder r)" for st
    using IHr [of st] that by (simp add: search_spec_def)
  show ?case
  proof (cases "n = target")
    case True
    then have "avl_search target s ((?p, 0) # rest) = Some (Some (?p # stack_of fs))"
      using p Nd.prems(5) by (subst avl_search.simps) simp
    then show ?thesis using True unfolding search_spec_def
      by (simp, intro exI [of _ "[]"] exI [of _ l] exI [of _ ht] exI [of _ r]) simp
  next
    case False
    consider "keys s target < keys s n" | "keys s target > keys s n" | "keys s target = keys s n" by force
    then show ?thesis
    proof cases
      case 1
      have go: "avl_search target s ((?p, 0) # rest) = avl_search target s ((PLeft n, 0) # (?p, 3) # rest)"
        by (rule search_push [OF p _ _ lroom]) (use False 1 in auto)
      show ?thesis
      proof (cases "target \<in> set (inorder l)")
        case True
        then show ?thesis using search_spec_found [OF IHl [of 3], of "Nd l n ht r" rest] go by simp
      next
        case no: False
        then have "target \<notin> set (inorder (Nd l n ht r))" using around(2) [of target] 1 False by auto
        then show ?thesis using go miss_l [OF no] skip [of 3] by (simp add: search_spec_def)
      qed
    next
      case 2
      have go: "avl_search target s ((?p, 0) # rest) = avl_search target s ((PRight n, 0) # (?p, 3) # rest)"
        by (rule search_push [OF p _ _ rroom]) (use False 2 in auto)
      show ?thesis
      proof (cases "target \<in> set (inorder r)")
        case True
        then show ?thesis using search_spec_found [OF IHr [of 3], of "Nd l n ht r" rest] go by simp
      next
        case no: False
        then have "target \<notin> set (inorder (Nd l n ht r))" using around(1) [of target] 2 False by auto
        then show ?thesis using go miss_r [OF no] skip [of 3] by (simp add: search_spec_def)
      qed
    next
      case 3
      have go: "avl_search target s ((?p, 0) # rest) = avl_search target s ((PLeft n, 0) # (?p, 1) # rest)"
        by (rule search_push [OF p _ _ lroom]) (use False 3 in auto)
      have go2: "avl_search target s ((?p, 1) # rest) = avl_search target s ((PRight n, 0) # (?p, 2) # rest)"
        by (rule search_push [OF p _ _ rroom]) auto
      show ?thesis
      proof (cases "target \<in> set (inorder l)")
        case True
        then show ?thesis using search_spec_found [OF IHl [of 1], of "Nd l n ht r" rest] go by simp
      next
        case no: False
        then have step: "avl_search target s ((?p, 0) # rest) = avl_search target s ((PRight n, 0) # (?p, 2) # rest)"
          using go go2 miss_l [OF no] by simp
        show ?thesis
        proof (cases "target \<in> set (inorder r)")
          case True
          then show ?thesis using search_spec_found [OF IHr [of 2], of "Nd l n ht r" rest] step by simp
        next
          case False
          then show ?thesis using step miss_r [OF False] skip [of 2] no \<open>n \<noteq> target\<close> by (simp add: search_spec_def)
        qed
      qed
    qed
  qed
qed

text \<open>The largest node of a subtree.\<close>

lemma rightmost_ok:
  assumes "tree_of s (plug fs t)" and "avl t" and "t \<noteq> Lf" and "int (length fs) + hof t \<le> 32"
  shows "\<exists>hs l m hm. avl_rightmost (place_of fs) P (length fs) s = Some (m, place_of (hs @ fs), pushed hs fs @ P)
    \<and> t = plug hs (Nd l m hm Lf) \<and> right_of hs = []"
  using assms
proof (induction t arbitrary: fs P)
  case (Nd l n ht r)
  have p: "get_place (place_of fs) s = Some n" using get_place_of [OF Nd.prems(1)] by simp
  have rr: "avl_right (avl_nodes s n) = ptr r" using Nd.prems(1) by (simp add: tree_of_def rep_plug)
  show ?case
  proof (cases r)
    case Lf
    then show ?thesis using p rr
      by (subst avl_rightmost.simps) (intro exI [of _ "[]"] exI [of _ l] exI [of _ n] exI [of _ ht], simp)
  next
    case (Nd a b c d)
    let ?f = "GoR l n ht"
    have "tree_of s (plug (?f # fs) r)" "avl r" "r \<noteq> Lf" "int (length (?f # fs)) + hof r \<le> 32"
      using Nd Nd.prems by auto
    from Nd.IH(2) [OF this, of "place_of fs # P"] obtain hs l' m hm where
      hs: "avl_rightmost (PRight n) (place_of fs # P) (Suc (length fs)) s =
          Some (m, place_of (hs @ ?f # fs), pushed hs (?f # fs) @ place_of fs # P)"
        "r = plug hs (Nd l' m hm Lf)" "right_of hs = []" by auto
    have "0 \<le> hof l" using Nd.prems(2) hof_nonneg by auto
    moreover have "0 < hof r" using Nd hof_nonneg [OF \<open>avl r\<close>] hof_zero [OF \<open>avl r\<close>] by force
    ultimately have len: "length fs < avl_maxheight" using Nd.prems(2,4) by (auto simp: avl_maxheight_def)
    have push: "pushed (hs @ [?f]) fs = pushed hs (?f # fs) @ [place_of fs]"
      by (induction hs) simp_all
    show ?thesis using p rr Nd hs len push
      by (subst avl_rightmost.simps)
        (intro exI [of _ "hs @ [?f]"] exI [of _ l'] exI [of _ m] exI [of _ hm], simp add: plug_append right_of_append)
  qed
qed simp

lemma steps_rename: "avl_steps (hs @ GoL a ht r # fs) H = avl_steps (hs @ GoL b ht r # fs) H"
proof (induction hs arbitrary: H)
  case (Cons h hs)
  then show ?case by (cases h) simp_all
qed simp

lemma pushed_butlast:
  "hs \<noteq> [] \<Longrightarrow> pushed hs (g # fs) = butlast (pushed hs (f # fs)) @ [place_of (g # fs)]"
proof (induction hs)
  case (Cons h hs)
  then show ?case
  proof (cases hs)
    case (Cons h' hs')
    have "place_of (hs @ g # fs) = place_of (hs @ f # fs)" using Cons by (cases h') simp_all
    then show ?thesis using Cons Cons.IH by (simp del: pushed.simps(2)) (simp add: Cons)
  qed simp
qed simp

text \<open>A node without a left child is replaced by its right child.\<close>

lemma remove_outer:
  assumes t: "tree_of s (plug gs (Nd Lf n ht r))" and a: "avl (plug gs (Nd Lf n ht r))"
  shows "\<exists>s' t'. lwp_avl_rebalance (stack_of gs) (set_place (place_of gs) (ptr r) s) = Some s' \<and> tree_of s' t' \<and> avl t'
    \<and> inorder t' = left_of gs @ inorder r @ right_of gs \<and> keeps s s' (nodes_of gs (Nd Lf n ht r))"
proof -
  let ?s1 = "set_place (place_of gs) (ptr r) s"
  have av: "avl r" "avl_steps gs ht" "ht = 1 + hof r" using a hof_nonneg [of r] by (auto simp: avl_plug)
  have "tree_of ?s1 (plug gs r)"
    by (rule set_place_of [OF t]) (use t in \<open>auto simp: tree_of_def rep_plug inorder_plug\<close>)
  from rebalance_ok [OF this av(1,2)] av(3) obtain s' t' where
    s': "lwp_avl_rebalance (stack_of gs) ?s1 = Some s'" "tree_of s' t'" "avl t'" "inorder t' = inorder (plug gs r)"
      "keeps ?s1 s' (nodes_of gs r)" by auto
  have "keeps s ?s1 (nodes_of gs (Nd Lf n ht r))" unfolding nodes_of_def by (rule keeps_place) simp
  moreover have "keeps ?s1 s' (nodes_of gs (Nd Lf n ht r))"
    by (rule keeps_mono [OF s'(5)]) (auto simp: nodes_of_def)
  ultimately show ?thesis using s' keeps_trans by (auto simp: inorder_plug)
qed

text \<open>Any other one by the largest node of its left subtree.\<close>

definition take_over :: "nat \<Rightarrow> nat \<Rightarrow> avl_store \<Rightarrow> avl_store" where
  "take_over node target s =
     (let s = upd_node node (\<lambda>x. x\<lparr>avl_left := avl_left (avl_nodes s target)\<rparr>) s;
          s = upd_node node (\<lambda>x. x\<lparr>avl_right := avl_right (avl_nodes s target)\<rparr>) s
      in upd_node node (\<lambda>x. x\<lparr>avl_height := avl_height (avl_nodes s target)\<rparr>) s)"

lemma remove_inner:
  assumes t: "tree_of s (plug gs (Nd (plug hs (Nd lm m hm Lf)) n ht r))"
    and a: "avl (plug gs (Nd (plug hs (Nd lm m hm Lf)) n ht r))" and hs: "right_of hs = []"
  shows "\<exists>s' t'. lwp_avl_rebalance (stack_of (hs @ GoL m ht r # gs))
      (set_place (place_of gs) (Some m) (take_over m n (set_place (place_of (hs @ GoL n ht r # gs)) (ptr lm) s))) = Some s'
    \<and> tree_of s' t' \<and> avl t' \<and> inorder t' = left_of gs @ inorder (plug hs (Nd lm m hm Lf)) @ inorder r @ right_of gs
    \<and> keeps s s' (nodes_of gs (Nd (plug hs (Nd lm m hm Lf)) n ht r))"
proof -
  let ?T = "Nd (plug hs (Nd lm m hm Lf)) n ht r" and ?fs = "hs @ GoL n ht r # gs" and ?t1 = "plug hs lm"
  let ?s1 = "set_place (place_of ?fs) (ptr lm) s"
  let ?s2 = "take_over m n ?s1"
  let ?s3 = "set_place (place_of gs) (Some m) ?s2"
  have d: "distinct (left_of gs @ inorder ?T @ right_of gs)" using t by (simp add: tree_of_def inorder_plug)
  have T: "tree_of s (plug ?fs (Nd lm m hm Lf))" using t by (simp add: plug_append)
  have t1: "tree_of ?s1 (plug ?fs lm)"
    by (rule set_place_of [OF T]) (use T d in \<open>auto simp: tree_of_def rep_plug inorder_plug left_of_append right_of_append\<close>)
  then have t1': "tree_of ?s1 (plug gs (Nd ?t1 n ht r))" by (simp add: plug_append)
  have r1: "avl_left (avl_nodes ?s1 n) = ptr ?t1" "avl_right (avl_nodes ?s1 n) = ptr r" "avl_height (avl_nodes ?s1 n) = ht"
      "rep (avl_nodes ?s1) ?t1" "rep (avl_nodes ?s1) r"
    using tree_of_sub(1) [OF t1'] by simp_all
  have m: "m \<noteq> n" "m \<notin> set (inorder ?t1)" "m \<notin> set (inorder r)" "m \<notin> set (left_of gs) \<union> set (right_of gs)"
    using d by (auto simp: inorder_plug)
  have s2: "avl_nodes ?s2 = (avl_nodes ?s1)(m := (avl_nodes ?s1 m)\<lparr>avl_left := ptr ?t1, avl_right := ptr r, avl_height := ht\<rparr>)"
      "avl_root ?s2 = avl_root ?s1"
    using r1 m(1) by (simp_all add: take_over_def upd_node_def Let_def)
  have "tree_of (set_place (place_of gs) (ptr (Nd ?t1 m ht r)) ?s2) (plug gs (Nd ?t1 m ht r))"
    by (rule set_place_of [OF t1']) (use d m r1 in \<open>auto simp: s2 inorder_plug\<close>)
  then have t3: "tree_of ?s3 (plug (hs @ GoL m ht r # gs) lm)" by (simp add: plug_append)
  have av: "avl lm" "avl_steps ?fs hm" "hm = 1 + hof lm"
    using a hof_nonneg [of lm] avl_plug [of ?fs "Nd lm m hm Lf"] by (auto simp: plug_append)
  have st: "avl_steps (hs @ GoL m ht r # gs) hm" using av(2) steps_rename by blast
  from rebalance_ok [OF t3 av(1) st] av(3) obtain s' t' where
    s': "lwp_avl_rebalance (stack_of (hs @ GoL m ht r # gs)) ?s3 = Some s'" "tree_of s' t'" "avl t'"
      "inorder t' = inorder (plug (hs @ GoL m ht r # gs) lm)" "keeps ?s3 s' (nodes_of (hs @ GoL m ht r # gs) lm)" by auto
  have N: "nodes_of ?fs (Nd lm m hm Lf) = nodes_of gs ?T"
    by (auto simp: nodes_of_def left_of_append right_of_append inorder_plug)
  have "keeps s ?s1 (nodes_of ?fs (Nd lm m hm Lf))" unfolding nodes_of_def by (rule keeps_place) simp
  then have "keeps s ?s1 (nodes_of gs ?T)" unfolding N .
  then have "keeps s ?s2 (nodes_of gs ?T)"
    using s2(1) by (auto simp: keeps_def nodes_of_def inorder_plug)
  then have "keeps s ?s3 (nodes_of gs ?T)" unfolding nodes_of_def by (rule keeps_place)
  moreover have "keeps ?s3 s' (nodes_of gs ?T)"
    by (rule keeps_mono [OF s'(5)]) (auto simp: nodes_of_def left_of_append right_of_append inorder_plug)
  ultimately have "keeps s s' (nodes_of gs ?T)" by (rule keeps_trans)
  moreover have "inorder (plug (hs @ GoL m ht r # gs) lm) = left_of gs @ inorder (plug hs (Nd lm m hm Lf)) @ inorder r @ right_of gs"
    using hs by (simp add: inorder_plug left_of_append right_of_append)
  ultimately show ?thesis using s' by auto
qed

lemma removed_list:
  assumes "distinct (xs @ n # ys)" shows "xs @ ys = remove1 n (xs @ n # ys)"
  using assms by (simp add: remove1_append)

lemma remove_ok:
  assumes t: "tree_of s t" "avl t" "sorted (map (keys s) (inorder t))" "hof t \<le> 32" and n: "n \<in> set (inorder t)"
  shows "\<exists>s' t'. lwp_avl_remove (Some n) s = Some s' \<and> tree_of s' t' \<and> avl t' \<and> inorder t' = remove1 n (inorder t)
    \<and> keeps s s' (set (inorder t))"
proof -
  have "tree_of s (plug [] t)" "int (length ([] :: step list)) + hof t \<le> 32" "map fst ([] :: (nodeplace \<times> u8) list) = stack_of []"
    using t(1,4) by simp_all
  from search_ok [OF this(1) t(2) this(2) t(3) this(3), of n] n obtain gs l ht r where
    gs: "t = plug gs (Nd l n ht r)" "lwp_avl_find_nodeplace PRoot n s = Some (Some (place_of gs # stack_of gs))"
    by (auto simp: search_spec_def lwp_avl_find_nodeplace_def)
  have tree: "tree_of s (plug gs (Nd l n ht r))" and av: "avl (plug gs (Nd l n ht r))" using t(1,2) gs(1) by simp_all
  note sub = tree_of_sub [OF tree]
  have N: "nodes_of gs (Nd l n ht r) = set (inorder t)" by (auto simp: nodes_of_def gs(1) inorder_plug)
  have dis: "distinct ((left_of gs @ inorder l) @ n # inorder r @ right_of gs)"
    using tree by (simp add: tree_of_def inorder_plug)
  have rem: "left_of gs @ inorder l @ inorder r @ right_of gs = remove1 n (inorder t)"
    using removed_list [OF dis] by (simp add: gs(1) inorder_plug)
  show ?thesis
  proof (cases l)
    case Lf
    then have "lwp_avl_remove (Some n) s = lwp_avl_rebalance (stack_of gs) (set_place (place_of gs) (ptr r) s)"
      using gs(2) sub by (simp add: lwp_avl_remove_def)
    then show ?thesis using remove_outer [of s gs n ht r] tree av Lf rem N by auto
  next
    case (Nd a b c d)
    let ?fs = "GoL n ht r # gs"
    have "tree_of s (plug ?fs l)" "avl l" "l \<noteq> Lf" using tree av Nd by (simp_all add: avl_plug)
    moreover have "int (length ?fs) + hof l \<le> 32"
      using depth_bound [of ?fs l] av t(4) gs(1) by simp
    ultimately obtain hs lm m hm where
      hs: "avl_rightmost (PLeft n) [] (length ?fs) s = Some (m, place_of (hs @ ?fs), pushed hs ?fs)"
        "l = plug hs (Nd lm m hm Lf)" "right_of hs = []"
      using rightmost_ok [of s ?fs l "[]"] by auto
    have "0 < hof l" using Nd hof_nonneg [OF \<open>avl l\<close>] hof_zero [OF \<open>avl l\<close>] by force
    then have room: "Suc (length gs) < avl_maxheight"
      using \<open>int (length ?fs) + hof l \<le> 32\<close> by (simp add: avl_maxheight_def)
    have mleft: "avl_left (avl_nodes s m) = ptr lm"
      using sub(1) hs(2) by (simp add: rep_plug)
    have stk: "(if pushed hs ?fs = [] then [] else butlast (pushed hs ?fs) @ [PLeft m]) @ place_of gs # stack_of gs =
        stack_of (hs @ GoL m ht r # gs)"
      using pushed_butlast [of hs "GoL m ht r" gs "GoL n ht r"] by (cases hs) (simp_all add: stack_of_append)
    have "lwp_avl_remove (Some n) s = lwp_avl_rebalance (stack_of (hs @ GoL m ht r # gs))
      (set_place (place_of gs) (Some m) (take_over m n (set_place (place_of (hs @ ?fs)) (ptr lm) s)))"
      using gs(2) sub(1,3) Nd hs(1) room mleft unfolding stk [symmetric]
      by (simp add: lwp_avl_remove_def take_over_def Let_def)
    then show ?thesis
      using remove_inner [of s gs hs lm m hm n ht r] tree av hs(2,3) rem N by auto
  qed
qed

lemma remove_absent:
  assumes t: "tree_of s t" "avl t" "sorted (map (keys s) (inorder t))" "hof t \<le> 32" and n: "n \<notin> set (inorder t)"
  shows "lwp_avl_remove (Some n) s = Some s"
proof -
  have "tree_of s (plug [] t)" "int (length ([] :: step list)) + hof t \<le> 32" "map fst ([] :: (nodeplace \<times> u8) list) = stack_of []"
    using t(1,4) by simp_all
  from search_ok [OF this(1) t(2) this(2) t(3) this(3), of n] n
  have "lwp_avl_find_nodeplace PRoot n s = avl_search n s []"
    by (simp add: search_spec_def lwp_avl_find_nodeplace_def)
  then show ?thesis by (simp add: lwp_avl_remove_def) (subst avl_search.simps, simp)
qed

subsection \<open>Lookup and traversal\<close>

lemma find_ok:
  assumes "rep (avl_nodes s) t" and "sorted (map (keys s) (inorder t))"
  shows "\<exists>r. lwp_avl_find key (ptr t) s = Some r \<and>
    (case r of Some n \<Rightarrow> n \<in> set (inorder t) \<and> keys s n = key | None \<Rightarrow> key \<notin> keys s ` set (inorder t))"
  using assms
proof (induction t)
  case Lf
  then show ?case by (subst lwp_avl_find.simps) simp
next
  case (Nd l n ht r)
  note around = sorted_around [of "keys s" "inorder l" n "inorder r", OF Nd.prems(2) [unfolded inorder.simps]]
  have sub: "avl_left (avl_nodes s n) = ptr l" "avl_right (avl_nodes s n) = ptr r" "rep (avl_nodes s) l" "rep (avl_nodes s) r"
    using Nd.prems(1) by simp_all
  consider "key = keys s n" | "key < keys s n" | "keys s n < key" by force
  then show ?case
  proof cases
    case 1
    then show ?thesis by (subst lwp_avl_find.simps) simp
  next
    case 2
    then have "lwp_avl_find key (ptr (Nd l n ht r)) s = lwp_avl_find key (ptr l) s"
      using sub by (subst lwp_avl_find.simps) auto
    moreover have "key \<notin> keys s ` set (inorder r)" using around(2) 2 by force
    ultimately show ?thesis using Nd.IH(1) [OF sub(3) around(3)] 2 by (fastforce split: option.splits)
  next
    case 3
    then have "lwp_avl_find key (ptr (Nd l n ht r)) s = lwp_avl_find key (ptr r) s"
      using sub by (subst lwp_avl_find.simps) auto
    moreover have "key \<notin> keys s ` set (inorder l)" using around(1) 3 by force
    ultimately show ?thesis using Nd.IH(2) [OF sub(4) around(4)] 3 by (fastforce split: option.splits)
  qed
qed

text \<open>The callback is applied in the order of the keys until it answers non-zero.\<close>

fun visit :: "(nat \<Rightarrow> 'a \<Rightarrow> int \<times> 'a) \<Rightarrow> nat list \<Rightarrow> 'a \<Rightarrow> int \<times> 'a" where
  "visit fn [] arg = (0, arg)"
| "visit fn (n # ns) arg = (let (ret, arg) = fn n arg in if ret \<noteq> 0 then (ret, arg) else visit fn ns arg)"

lemma visit_append:
  "visit fn (xs @ ys) arg = (let (ret, arg) = visit fn xs arg in if ret \<noteq> 0 then (ret, arg) else visit fn ys arg)"
  by (induction xs arbitrary: arg) (auto simp: Let_def split: prod.splits)

lemma traversal_ok:
  "rep (avl_nodes s) t \<Longrightarrow> lwp_avl_traversal (ptr t) fn s arg = Some (visit fn (inorder t) arg)"
proof (induction t arbitrary: arg)
  case Lf
  then show ?case by (subst lwp_avl_traversal.simps) simp
next
  case (Nd l n ht r)
  have nil: "ptr c = None \<Longrightarrow> inorder c = []" for c by (cases c) simp_all
  have "lwp_avl_traversal (ptr l) fn s arg = Some (visit fn (inorder l) arg)" for arg using Nd by simp
  moreover have "lwp_avl_traversal (ptr r) fn s arg = Some (visit fn (inorder r) arg)" for arg using Nd by simp
  ultimately show ?case using Nd.prems nil [of l] nil [of r]
    by (subst lwp_avl_traversal.simps)
      (cases "ptr l"; cases "ptr r"; auto simp: visit_append Let_def split: prod.splits)
qed

lemma leftmost_ok: "rep (avl_nodes s) t \<Longrightarrow> ptr t = Some n \<Longrightarrow> avl_leftmost n s = Some (hd (inorder t))"
proof (induction t arbitrary: n)
  case (Nd l m ht r)
  show ?case
  proof (cases l)
    case Lf
    then show ?thesis using Nd.prems by (subst avl_leftmost.simps) simp
  next
    case (Nd a b c d)
    then have "avl_leftmost n s = avl_leftmost b s" using Nd.prems by (subst avl_leftmost.simps) simp
    then show ?thesis using Nd Nd.IH(1) Nd.prems by (simp add: hd_append)
  qed
qed simp

subsection \<open>The height\<close>

fun fib :: "nat \<Rightarrow> nat" where
  "fib 0 = 0"
| "fib (Suc 0) = 1"
| "fib (Suc (Suc n)) = fib n + fib (Suc n)"

lemma fib_mono: "m \<le> n \<Longrightarrow> fib m \<le> fib n"
proof -
  have "fib n \<le> fib (Suc n)" for n by (cases n) simp_all
  then show "m \<le> n \<Longrightarrow> fib m \<le> fib n" by (rule lift_Suc_mono_le)
qed

lemma avl_size: "avl t \<Longrightarrow> fib (nat (hof t) + 2) \<le> length (inorder t) + 1"
proof (induction t)
  case (Nd l n ht r)
  have h: "0 \<le> hof l" "0 \<le> hof r" using Nd.prems hof_nonneg by auto
  have l: "fib (nat (hof l) + 2) \<le> length (inorder l) + 1" and r: "fib (nat (hof r) + 2) \<le> length (inorder r) + 1"
    using Nd by auto
  define k where "k = nat (max (hof l) (hof r))"
  have ht: "nat ht = Suc k" using Nd.prems h by (simp add: k_def)
  have "k = nat (hof l) \<and> k \<le> nat (hof r) + 1 \<or> k = nat (hof r) \<and> k \<le> nat (hof l) + 1"
    using Nd.prems h by (auto simp: k_def max_def)
  then have "fib (k + 2) + fib (k + 1) \<le> fib (nat (hof l) + 2) + fib (nat (hof r) + 2)"
    using fib_mono [of "k + 1" "nat (hof l) + 2"] fib_mono [of "k + 1" "nat (hof r) + 2"] by auto
  then show ?case using l r ht by (simp add: numeral_2_eq_2)
qed simp

fun fib_pair :: "nat \<Rightarrow> nat \<Rightarrow> nat \<Rightarrow> nat" where
  "fib_pair 0 a b = a"
| "fib_pair (Suc n) a b = fib_pair n b (a + b)"

lemma fib_pair: "fib_pair n (fib k) (fib (Suc k)) = fib (n + k)"
  by (induction n arbitrary: k) (simp_all flip: fib.simps(3))

lemma fib_pair_numeral: "fib_pair (numeral n) a b = fib_pair (pred_numeral n) b (a + b)"
  by (simp add: numeral_eq_Suc)

lemma fib_35: "fib 35 = 9227465"
proof -
  have "fib 3 = 2" "fib (Suc 3) = 3" by (simp_all add: numeral_eq_Suc)
  moreover have "fib_pair 32 2 3 = 9227465" by (simp add: fib_pair_numeral)
  ultimately show ?thesis using fib_pair [of 32 3] by simp
qed

lemma height_bound:
  assumes "avl t" and "length (inorder t) < 9227464"
  shows "hof t \<le> 32"
proof (rule ccontr)
  assume "\<not> hof t \<le> 32"
  then have "35 \<le> nat (hof t) + 2" by simp
  then have "fib 35 \<le> length (inorder t) + 1" using avl_size [OF assms(1)] fib_mono le_trans by blast
  then show False using assms(2) by (simp add: fib_35)
qed

subsection \<open>A sample tree\<close>

text \<open>Three nodes with the keys 10, 20 and 30, and two more nodes outside the tree.\<close>

definition sample_node :: "nat option \<Rightarrow> nat option \<Rightarrow> int \<Rightarrow> u64 \<Rightarrow> lwp_avl_struct" where
  "sample_node l r h k = \<lparr>avl_left = l, avl_right = r, avl_height = h, avl_key = k, avl_data = 0\<rparr>"

definition sample_avl :: avl_store where
  "sample_avl = \<lparr>avl_root = Some 2, avl_nodes = (\<lambda>_. sample_node None None 0 0)
     (1 := sample_node None None 1 10, 2 := sample_node (Some 1) (Some 3) 2 20, 3 := sample_node None None 1 30,
      4 := sample_node None None 0 40, 5 := sample_node None None 0 50)\<rparr>"

definition sample_tree :: tr where
  "sample_tree = Nd (Nd Lf 1 1 Lf) 2 2 (Nd Lf 3 1 Lf)"

text \<open>A store that holds a balanced search tree.\<close>

definition index_ok :: "avl_store \<Rightarrow> tr \<Rightarrow> bool" where
  "index_ok s t \<longleftrightarrow> tree_of s t \<and> avl t \<and> sorted (map (keys s) (inorder t))"

lemma sample_index: "index_ok sample_avl sample_tree"
  by (simp add: index_ok_def tree_of_def sample_avl_def sample_tree_def sample_node_def)

lemma sorted_split:
  assumes "\<forall>m\<in>set xs. f m \<le> k" and "\<forall>m\<in>set ys. k < (f m :: 'b :: linorder)"
  shows "takeWhile (\<lambda>m. f m \<le> k) (xs @ ys) = xs" "dropWhile (\<lambda>m. f m \<le> k) (xs @ ys) = ys"
proof -
  have y: "takeWhile (\<lambda>m. f m \<le> k) ys = []" "dropWhile (\<lambda>m. f m \<le> k) ys = ys" using assms(2) by (cases ys; auto)+
  show "takeWhile (\<lambda>m. f m \<le> k) (xs @ ys) = xs" "dropWhile (\<lambda>m. f m \<le> k) (xs @ ys) = ys"
    using assms(1) y by (auto simp: takeWhile_append2 dropWhile_append2)
qed

subsection \<open>The index as a map\<close>

lemma map_eqI: "(\<And>k x. f k = Some x \<longleftrightarrow> g k = Some x) \<Longrightarrow> f = g"
  by (rule ext) (metis not_Some_eq)

text \<open>A tree with distinct keys is a map from keys to nodes.\<close>

definition index_of :: "avl_store \<Rightarrow> (u64 \<rightharpoonup> nat) \<Rightarrow> bool" where
  "index_of s M \<longleftrightarrow>
     (\<exists>t. index_ok s t \<and> distinct (map (keys s) (inorder t)) \<and> M = map_of (map (\<lambda>n. (keys s n, n)) (inorder t)))"

lemma map_of_nodes: "distinct (map f ns) \<Longrightarrow> map_of (map (\<lambda>n. (f n, n)) ns) k = Some n \<longleftrightarrow> n \<in> set ns \<and> f n = k"
  by (subst map_of_eq_Some_iff) (auto simp: comp_def)

lemma dom_map_of_nodes: "dom (map_of (map (\<lambda>n. (f n, n)) ns)) = f ` set ns"
  by (simp add: dom_map_of_conv_image_fst image_image)

lemma ran_map_of_nodes: "distinct (map f ns) \<Longrightarrow> ran (map_of (map (\<lambda>n. (f n, n)) ns)) = set ns"
  by (auto simp: ran_def map_of_nodes)

lemma insert_index:
  assumes ok: "index_ok s t" and new: "new \<notin> set (inorder t)" and small: "length (inorder t) < 9227464"
  shows "\<exists>s' t'. lwp_avl_insert new s = Some s' \<and> index_ok s' t' \<and> keeps s s' (insert new (set (inorder t)))
    \<and> inorder t' = takeWhile (\<lambda>m. keys s m \<le> keys s new) (inorder t) @ new #
        dropWhile (\<lambda>m. keys s m \<le> keys s new) (inorder t)"
proof -
  have t: "tree_of s t" "avl t" "sorted (map (keys s) (inorder t))" using ok by (simp_all add: index_ok_def)
  from insert_ok [OF t height_bound [OF t(2) small] new] obtain s' t' xs ys where
    s': "lwp_avl_insert new s = Some s'" "tree_of s' t'" "avl t'" "inorder t = xs @ ys" "inorder t' = xs @ new # ys"
      "\<forall>m\<in>set xs. keys s m \<le> keys s new" "\<forall>m\<in>set ys. keys s new < keys s m" "keeps s s' (insert new (set (inorder t)))"
    by blast
  have "keys s' = keys s" using s'(8) by (auto simp: keeps_def)
  then have "sorted (map (keys s') (inorder t'))"
    using t(3) s'(4-7) by (auto simp: sorted_append less_imp_le)
  then show ?thesis
    using s' sorted_split [OF s'(6,7)] by (intro exI [of _ s'] exI [of _ t']) (simp add: index_ok_def)
qed

lemma remove_index:
  assumes ok: "index_ok s t" and small: "length (inorder t) < 9227464"
  shows "\<exists>s' t'. lwp_avl_remove (Some n) s = Some s' \<and> index_ok s' t' \<and> inorder t' = remove1 n (inorder t)
    \<and> keeps s s' (set (inorder t)) \<and> (n \<notin> set (inorder t) \<longrightarrow> s' = s)"
proof -
  have t: "tree_of s t" "avl t" "sorted (map (keys s) (inorder t))" using ok by (simp_all add: index_ok_def)
  note h = height_bound [OF t(2) small]
  show ?thesis
  proof (cases "n \<in> set (inorder t)")
    case True
    from remove_ok [OF t h this] obtain s' t' where
      s': "lwp_avl_remove (Some n) s = Some s'" "tree_of s' t'" "avl t'" "inorder t' = remove1 n (inorder t)"
        "keeps s s' (set (inorder t))" by blast
    have "keys s' = keys s" using s'(5) by (auto simp: keeps_def)
    then have "sorted (map (keys s') (inorder t'))" using t(3) s'(4) by (simp add: sorted_map_remove1)
    then show ?thesis using s' True by (intro exI [of _ s'] exI [of _ t']) (simp add: index_ok_def)
  next
    case False
    then show ?thesis using remove_absent [OF t h False] ok
      by (intro exI [of _ s] exI [of _ t]) (simp add: remove1_idem)
  qed
qed

lemma find_index:
  assumes "index_ok s t"
  shows "\<exists>r. lwp_avl_find key (avl_root s) s = Some r \<and>
    (case r of Some n \<Rightarrow> n \<in> set (inorder t) \<and> keys s n = key | None \<Rightarrow> key \<notin> keys s ` set (inorder t))"
  using assms find_ok [of s t key] by (simp add: index_ok_def tree_of_def)

lemma index_card:
  assumes "distinct (map f ns)" shows "card (dom (map_of (map (\<lambda>n. (f n, n)) ns))) = length ns"
proof -
  have "card (f ` set ns) = length (map f ns)" using distinct_card [OF assms] by simp
  then show ?thesis by (simp add: dom_map_of_nodes)
qed

lemma index_insert:
  assumes h: "index_of s M" and k: "keys s n \<notin> dom M" and n: "n \<notin> ran M" and c: "card (dom M) < 9227464"
  shows "\<exists>s'. lwp_avl_insert n s = Some s' \<and> index_of s' (M(keys s n \<mapsto> n)) \<and> keeps s s' (insert n (ran M))"
proof -
  obtain t where t: "index_ok s t" "distinct (map (keys s) (inorder t))" "M = map_of (map (\<lambda>n. (keys s n, n)) (inorder t))"
    using h by (auto simp: index_of_def)
  have ran: "ran M = set (inorder t)" and dom: "dom M = keys s ` set (inorder t)"
    using t(2,3) by (simp_all add: ran_map_of_nodes dom_map_of_nodes)
  have "length (inorder t) < 9227464" using c index_card [OF t(2)] t(3) by simp
  from insert_index [OF t(1) n [unfolded ran] this] obtain s' t' where
    s': "lwp_avl_insert n s = Some s'" "index_ok s' t'" "keeps s s' (insert n (set (inorder t)))"
      "inorder t' = takeWhile (\<lambda>m. keys s m \<le> keys s n) (inorder t) @ n # dropWhile (\<lambda>m. keys s m \<le> keys s n) (inorder t)"
    by blast
  have same: "keys s' m = keys s m" for m using s'(3) by (simp add: keeps_def)
  let ?P = "\<lambda>m. keys s m \<le> keys s n"
  have mset: "set (inorder t') = insert n (set (inorder t))"
  proof -
    have "set (takeWhile ?P (inorder t)) \<union> set (dropWhile ?P (inorder t)) = set (inorder t)"
      by (metis set_append takeWhile_dropWhile_id)
    then show ?thesis using s'(4) by auto
  qed
  have "distinct (inorder t')" using s'(2) by (simp add: index_ok_def tree_of_def)
  then have d: "distinct (map (keys s) (inorder t'))"
    using t(2) k dom mset by (simp add: distinct_map) blast
  have no: "keys s x \<noteq> keys s n" if "x \<in> set (inorder t)" for x
    using k dom that by (metis imageI)
  have "map_of (map (\<lambda>n. (keys s n, n)) (inorder t')) = M(keys s n \<mapsto> n)"
  proof (rule map_eqI)
    fix k' x show "map_of (map (\<lambda>n. (keys s n, n)) (inorder t')) k' = Some x \<longleftrightarrow> (M(keys s n \<mapsto> n)) k' = Some x"
      using no unfolding t(3) by (auto simp: map_of_nodes [OF d] map_of_nodes [OF t(2)] mset)
  qed
  then have "index_of s' (M(keys s n \<mapsto> n))" 
    unfolding index_of_def using s'(2) d by (intro exI [of _ t']) (simp add: same)
  then show ?thesis using s'(1,3) ran by simp
qed

lemma index_remove:
  assumes h: "index_of s M" and k: "M k = Some n" and c: "card (dom M) < 9227464"
  shows "\<exists>s'. lwp_avl_remove (Some n) s = Some s' \<and> index_of s' (M(k := None)) \<and> keeps s s' (ran M)"
proof -
  obtain t where t: "index_ok s t" "distinct (map (keys s) (inorder t))" "M = map_of (map (\<lambda>n. (keys s n, n)) (inorder t))"
    using h by (auto simp: index_of_def)
  have ran: "ran M = set (inorder t)" using t(2,3) by (simp add: ran_map_of_nodes)
  have n: "n \<in> set (inorder t)" "keys s n = k" using k map_of_nodes [OF t(2)] t(3) by simp_all
  have "length (inorder t) < 9227464" using c index_card [OF t(2)] t(3) by simp
  from remove_index [OF t(1) this, of n] obtain s' t' where
    s': "lwp_avl_remove (Some n) s = Some s'" "index_ok s' t'" "inorder t' = remove1 n (inorder t)" "keeps s s' (set (inorder t))"
    by blast
  have same: "keys s' m = keys s m" for m using s'(4) by (simp add: keeps_def)
  have "distinct (inorder t)" using t(1) by (simp add: index_ok_def tree_of_def)
  then have mset: "set (inorder t') = set (inorder t) - {n}" using s'(3) by simp
  have inj: "inj_on (keys s) (set (inorder t))" using t(2) by (simp add: distinct_map)
  have d: "distinct (map (keys s) (inorder t'))"
    using \<open>distinct (inorder t)\<close> inj s'(3) mset by (simp add: distinct_map inj_on_diff)
  have "map_of (map (\<lambda>n. (keys s n, n)) (inorder t')) = M(k := None)"
  proof (rule map_eqI)
    fix k' x show "map_of (map (\<lambda>n. (keys s n, n)) (inorder t')) k' = Some x \<longleftrightarrow> (M(k := None)) k' = Some x"
      using n inj unfolding t(3) by (auto simp: map_of_nodes [OF d] map_of_nodes [OF t(2)] mset inj_on_def)
  qed
  then have "index_of s' (M(k := None))" 
    unfolding index_of_def using s'(2) d by (intro exI [of _ t']) (simp add: same)
  then show ?thesis using s'(1,4) ran by simp
qed

lemma index_find: "index_of s M \<Longrightarrow> lwp_avl_find k (avl_root s) s = Some (M k)"
proof -
  assume "index_of s M"
  then obtain t where t: "index_ok s t" "distinct (map (keys s) (inorder t))" "M = map_of (map (\<lambda>n. (keys s n, n)) (inorder t))"
    by (auto simp: index_of_def)
  from find_index [OF t(1), of k] obtain r where r: "lwp_avl_find k (avl_root s) s = Some r"
      "case r of Some n \<Rightarrow> n \<in> set (inorder t) \<and> keys s n = k | None \<Rightarrow> k \<notin> keys s ` set (inorder t)" by blast
  have "r = M k"
  proof (cases r)
    case None
    then have "k \<notin> dom M" using r(2) t(3) by (simp add: dom_map_of_nodes)
    then show ?thesis using None by (simp add: domIff)
  next
    case (Some n)
    then have "M k = Some n" using r(2) map_of_nodes [OF t(2)] t(3) by simp
    then show ?thesis using Some by simp
  qed
  then show ?thesis using r(1) by simp
qed

interpretation avlmap: node_map index_of keys 9227464 keeps lwp_avl_insert "\<lambda>n. lwp_avl_remove (Some n)"
  "\<lambda>k s. lwp_avl_find k (avl_root s) s"
proof
  fix s M k n assume "index_of s M" "M k = Some n"
  then show "keys s n = k" by (auto simp: index_of_def map_of_nodes)
next
  fix s M assume "index_of s M"
  then show "finite (dom M)" by (auto simp: index_of_def finite_dom_map_of)
qed (use index_insert index_remove index_find in blast)+

subsection \<open>Properties\<close>

text \<open>C20: Insertion into an index.  In a balanced search tree of fewer than 9227464 nodes the call returns
  without running over its stack of 32 places; the tree is balanced again, its nodes in the order of the keys are
  the old ones with the new node after all nodes with a smaller or the same key, and no key and no node outside
  the tree is changed.\<close>

theorem avl_insert_refines:
  assumes "index_ok s t" and "new \<notin> set (inorder t)" and "length (inorder t) < 9227464"
  shows "\<exists>s' t'. lwp_avl_insert new s = Some s' \<and> index_ok s' t' \<and> keeps s s' (insert new (set (inorder t)))
    \<and> inorder t' = takeWhile (\<lambda>m. keys s m \<le> keys s new) (inorder t) @ new #
        dropWhile (\<lambda>m. keys s m \<le> keys s new) (inorder t)"
  using insert_index [OF assms] .

theorem avl_insert_refines_witness:
  "\<exists>s' t'. lwp_avl_insert 4 sample_avl = Some s' \<and> index_ok s' t' \<and> inorder t' = [1, 2, 3, 4]"
  using avl_insert_refines [OF sample_index, of 4] by (simp add: sample_tree_def sample_avl_def sample_node_def) blast

text \<open>C8: Removal from an index.  The node itself is removed, also among nodes with the same key, the tree
  is balanced again and the order of the others stays; a node that is not in the tree changes nothing.\<close>

theorem avl_remove_refines:
  assumes "index_ok s t" and "length (inorder t) < 9227464"
  shows "\<exists>s' t'. lwp_avl_remove (Some n) s = Some s' \<and> index_ok s' t' \<and> inorder t' = remove1 n (inorder t)
    \<and> keeps s s' (set (inorder t)) \<and> (n \<notin> set (inorder t) \<longrightarrow> s' = s)"
  using remove_index [OF assms] .

theorem avl_remove_refines_witness:
  "\<exists>s' t'. lwp_avl_remove (Some 2) sample_avl = Some s' \<and> index_ok s' t' \<and> inorder t' = [1, 3]"
  using avl_remove_refines [OF sample_index, of 2] by (simp add: sample_tree_def) blast

text \<open>Queries of an index.  The lookup returns and finds a node with the key whenever there is one, the
  first node is the one with the smallest key, and the traversal calls its function on the nodes in the order
  of the keys until it answers non-zero.\<close>

lemma avl_queries:
  assumes "index_ok s t"
  shows "(\<exists>r. lwp_avl_find key (avl_root s) s = Some r \<and>
      (case r of Some n \<Rightarrow> n \<in> set (inorder t) \<and> keys s n = key | None \<Rightarrow> key \<notin> keys s ` set (inorder t)))
    \<and> lwp_map_find_first (avl_root s) s = Some (if inorder t = [] then None else Some (hd (inorder t)))
    \<and> lwp_avl_traversal (avl_root s) fn s arg = Some (visit fn (inorder t) arg)"
proof -
  have t: "rep (avl_nodes s) t" "sorted (map (keys s) (inorder t))" and r: "avl_root s = ptr t"
    using assms by (simp_all add: index_ok_def tree_of_def)
  have "lwp_map_find_first (avl_root s) s = Some (if inorder t = [] then None else Some (hd (inorder t)))"
    using leftmost_ok [OF t(1)] unfolding r by (cases t) (auto simp: lwp_map_find_first_def)
  then show ?thesis using find_ok [OF t, of key] traversal_ok [OF t(1), of fn arg] r by simp
qed

end
