(* ===== verification/IdTable.thy ===== *)
theory IdTable
  imports Avl
begin

text \<open>
  The tables of process and thread identifiers: \<^verbatim>\<open>components/lwp/lwp_tid.c\<close> and the first part of
  \<^verbatim>\<open>components/lwp/lwp_pid.c\<close>, which are the same code over two sets of static variables (with room for
  \<^verbatim>\<open>LWP_TID_MAX_NR\<close> 64 and \<^verbatim>\<open>RT_LWP_MAX_NR\<close> 30 entries).  A table has an array of tree nodes, a chain of
  released nodes through their right child, and the search tree of the identifiers in use.  Nodes are named by their
  index in the array.  Identifiers are positive and below 10000, so the machine integers of the source do not
  overflow.
\<close>

subsection \<open>Operations\<close>

record id_table =
  id_tree :: avl_store
  id_free_head :: "nat option"
  id_ary_alloced :: nat
  current_id :: nat

definition TID_MAX :: nat where "TID_MAX = 10000"
definition LWP_TID_MAX_NR :: nat where "LWP_TID_MAX_NR = 64"
definition RT_LWP_MAX_NR :: nat where "RT_LWP_MAX_NR = 30"

definition id_find :: "nat \<Rightarrow> avl_store \<Rightarrow> nat option option" where
  "id_find tid s = lwp_avl_find (of_nat tid) (avl_root s) s"

text \<open>One of the two loops: the first identifier from \<open>tid\<close> on and below \<open>hi\<close> that is not in use.\<close>

function id_scan :: "nat \<Rightarrow> nat \<Rightarrow> avl_store \<Rightarrow> (nat \<times> bool) option" where
  "id_scan tid hi s =
     (if tid < hi
      then do {
        r \<leftarrow> id_find tid s;
        if r = None then Some (tid, True) else id_scan (tid + 1) hi s
      }
      else Some (tid, False))"
  by pat_completeness auto
termination by (relation "measure (\<lambda>(tid, hi, _). hi - tid)") auto

definition id_node :: "nat \<Rightarrow> id_table \<Rightarrow> nat option \<times> id_table" where
  "id_node max_nr T =
     (case id_free_head T of
        Some p \<Rightarrow> (Some p, T\<lparr>id_free_head := avl_right (avl_nodes (id_tree T) p)\<rparr>)
      | None \<Rightarrow>
          if id_ary_alloced T < max_nr
          then (Some (id_ary_alloced T), T\<lparr>id_ary_alloced := id_ary_alloced T + 1\<rparr>)
          else (None, T))"

definition id_choose :: "nat \<Rightarrow> avl_store \<Rightarrow> (nat \<times> bool) option" where
  "id_choose current s = do {
     (tid, found_noused) \<leftarrow> id_scan (current + 1) TID_MAX s;
     if found_noused then Some (tid, found_noused) else id_scan 1 (current + 1) s
   }"

definition id_get :: "nat \<Rightarrow> id_table \<Rightarrow> (nat \<times> id_table) option" where
  "id_get max_nr T = (case id_node max_nr T of
     (None, T) \<Rightarrow> Some (0, T)
   | (Some p, T) \<Rightarrow> do {
       rt_assert (avl_data (avl_nodes (id_tree T) p) = 0);
       (tid, _) \<leftarrow> id_choose (current_id T) (id_tree T);
       let s = upd_node p (\<lambda>x. x\<lparr>avl_key := of_nat tid\<rparr>) (id_tree T);
       s \<leftarrow> lwp_avl_insert p s;
       Some (tid, T\<lparr>id_tree := s, current_id := tid\<rparr>)
     })"

definition id_put :: "nat \<Rightarrow> id_table \<Rightarrow> id_table option" where
  "id_put tid T = do {
     r \<leftarrow> id_find tid (id_tree T);
     case r of
       None \<Rightarrow> Some T
     | Some p \<Rightarrow> do {
         let s = upd_node p (\<lambda>x. x\<lparr>avl_data := 0\<rparr>) (id_tree T);
         s \<leftarrow> lwp_avl_remove (Some p) s;
         let s = upd_node p (\<lambda>x. x\<lparr>avl_right := id_free_head T\<rparr>) s;
         Some (T\<lparr>id_tree := s, id_free_head := Some p\<rparr>)
       }
   }"

definition id_data :: "nat \<Rightarrow> id_table \<Rightarrow> nat option" where
  "id_data tid T = do {
     r \<leftarrow> id_find tid (id_tree T);
     Some (case r of None \<Rightarrow> 0 | Some p \<Rightarrow> avl_data (avl_nodes (id_tree T) p))
   }"

definition id_set :: "nat \<Rightarrow> nat \<Rightarrow> id_table \<Rightarrow> id_table option" where
  "id_set tid d T = do {
     r \<leftarrow> id_find tid (id_tree T);
     Some (case r of None \<Rightarrow> T | Some p \<Rightarrow> T\<lparr>id_tree := upd_node p (\<lambda>x. x\<lparr>avl_data := d\<rparr>) (id_tree T)\<rparr>)
   }"

definition lwp_tid_get :: "id_table \<Rightarrow> (nat \<times> id_table) option" where
  "lwp_tid_get = id_get LWP_TID_MAX_NR"

definition lwp_tid_put :: "nat \<Rightarrow> id_table \<Rightarrow> id_table option" where
  "lwp_tid_put = id_put"

definition lwp_tid_get_thread :: "nat \<Rightarrow> id_table \<Rightarrow> nat option" where
  "lwp_tid_get_thread = id_data"

definition lwp_tid_set_thread :: "nat \<Rightarrow> nat \<Rightarrow> id_table \<Rightarrow> id_table option" where
  "lwp_tid_set_thread = id_set"

definition lwp_pid_get :: "id_table \<Rightarrow> (nat \<times> id_table) option" where
  "lwp_pid_get = id_get RT_LWP_MAX_NR"

definition lwp_pid_put :: "nat \<Rightarrow> id_table \<Rightarrow> id_table option" where
  "lwp_pid_put = id_put"

definition lwp_pid_set_lwp :: "nat \<Rightarrow> nat \<Rightarrow> id_table \<Rightarrow> id_table option" where
  "lwp_pid_set_lwp = id_set"

definition lwp_from_pid :: "nat \<Rightarrow> id_table \<Rightarrow> nat option" where
  "lwp_from_pid = id_data"

text \<open>The static variables at reset.\<close>

definition id_reset :: id_table where
  "id_reset = \<lparr>id_tree = \<lparr>avl_root = None, avl_nodes = (\<lambda>_. \<lparr>avl_left = None, avl_right = None, avl_height = 0,
       avl_key = 0, avl_data = 0\<rparr>)\<rparr>, id_free_head = None, id_ary_alloced = 0, current_id = 0\<rparr>"

declare id_scan.simps [simp del]

subsection \<open>The state of a table\<close>

fun free_chain :: "avl_store \<Rightarrow> nat option \<Rightarrow> nat list \<Rightarrow> bool" where
  "free_chain s p [] \<longleftrightarrow> p = None"
| "free_chain s p (n # ns) \<longleftrightarrow> p = Some n \<and> free_chain s (avl_right (avl_nodes s n)) ns"

lemma free_chain_cong:
  "(\<And>n. n \<in> set ns \<Longrightarrow> avl_nodes s' n = avl_nodes s n) \<Longrightarrow> free_chain s' p ns = free_chain s p ns"
  by (induction ns arbitrary: p) auto

text \<open>\<open>M\<close> maps the identifiers in use to their nodes, \<open>F\<close> is the chain of released nodes.\<close>

definition table_ok :: "nat \<Rightarrow> id_table \<Rightarrow> (u64 \<rightharpoonup> nat) \<Rightarrow> nat list \<Rightarrow> bool" where
  "table_ok max_nr T M F \<longleftrightarrow>
     1 < max_nr \<and> max_nr < TID_MAX \<and> current_id T < TID_MAX \<and>
     index_of (id_tree T) M \<and> dom M \<subseteq> of_nat ` {1..<TID_MAX} \<and>
     free_chain (id_tree T) (id_free_head T) F \<and> distinct F \<and> set F \<inter> ran M = {} \<and>
     set F \<union> ran M = {..<id_ary_alloced T} \<and> id_ary_alloced T \<le> max_nr \<and>
     (\<forall>n. n \<notin> ran M \<longrightarrow> avl_data (avl_nodes (id_tree T) n) = 0)"

lemma table_okD:
  assumes "table_ok max_nr T M F"
  shows "1 < max_nr" "max_nr < TID_MAX" "current_id T < TID_MAX" "index_of (id_tree T) M" "dom M \<subseteq> of_nat ` {1..<TID_MAX}"
    "free_chain (id_tree T) (id_free_head T) F" "distinct F" "set F \<inter> ran M = {}" "set F \<union> ran M = {..<id_ary_alloced T}"
    "id_ary_alloced T \<le> max_nr" "n \<notin> ran M \<Longrightarrow> avl_data (avl_nodes (id_tree T) n) = 0"
  using assms by (auto simp: table_ok_def)

lemma of_nat_id_inj: "a < TID_MAX \<Longrightarrow> b < TID_MAX \<Longrightarrow> (of_nat a :: u64) = of_nat b \<longleftrightarrow> a = b"
  using word_of_nat_less_iff [where 'a = 64] by (auto simp: TID_MAX_def word_of_nat_eq_iff take_bit_nat_def)

lemma table_card:
  assumes "table_ok max_nr T M F" shows "card (dom M) + length F = id_ary_alloced T"
proof -
  note d = table_okD [OF assms]
  have "card (set F \<union> ran M) = card (set F) + card (ran M)"
    using d(8) finite_subset [of "ran M" "{..<id_ary_alloced T}"] d(9) by (intro card_Un_disjoint) auto
  then show ?thesis using d(9) avlmap.card_entries [OF d(4)] distinct_card [OF d(7)] by simp
qed

lemma id_find_index: "index_of s M \<Longrightarrow> id_find tid s = Some (M (of_nat tid))"
  using avlmap.look_entry by (simp add: id_find_def)

text \<open>The index does not see the data of nodes, nor anything of nodes outside.\<close>

lemma rep_fields:
  "(\<And>n. n \<in> set (inorder t) \<Longrightarrow> avl_left (h' n) = avl_left (h n) \<and> avl_right (h' n) = avl_right (h n) \<and>
      avl_height (h' n) = avl_height (h n)) \<Longrightarrow> rep h' t = rep h t"
  by (induction t) auto

lemma index_of_fields:
  assumes ix: "index_of s M" and root: "avl_root s' = avl_root s"
    and same: "\<And>n. n \<in> ran M \<Longrightarrow> avl_left (avl_nodes s' n) = avl_left (avl_nodes s n) \<and>
      avl_right (avl_nodes s' n) = avl_right (avl_nodes s n) \<and> avl_height (avl_nodes s' n) = avl_height (avl_nodes s n) \<and>
      avl_key (avl_nodes s' n) = avl_key (avl_nodes s n)"
  shows "index_of s' M"
proof -
  obtain t where t: "index_ok s t" "distinct (map (keys s) (inorder t))" "M = map_of (map (\<lambda>n. (keys s n, n)) (inorder t))"
    using ix by (auto simp: index_of_def)
  have ran: "ran M = set (inorder t)" using t(2,3) by (simp add: ran_map_of_nodes)
  have k: "map (keys s') (inorder t) = map (keys s) (inorder t)" using same ran by simp
  have "rep (avl_nodes s') t = rep (avl_nodes s) t" by (rule rep_fields) (use same ran in blast)
  then have "index_ok s' t" using t(1) root k by (simp add: index_ok_def tree_of_def del: map_eq_conv)
  moreover have "M = map_of (map (\<lambda>n. (keys s' n, n)) (inorder t))"
    unfolding t(3) by (rule arg_cong [where f = map_of], rule map_cong) (use same ran in auto)
  moreover have "distinct (map (keys s') (inorder t))" using t(2) unfolding k .
  ultimately show ?thesis unfolding index_of_def by blast
qed

subsection \<open>The scan\<close>

lemma id_scan_ok:
  assumes "index_of s M"
  shows "\<exists>r found. id_scan lo hi s = Some (r, found) \<and>
    (if found then lo \<le> r \<and> r < hi \<and> M (of_nat r) = None else \<forall>u. lo \<le> u \<and> u < hi \<longrightarrow> M (of_nat u) \<noteq> None)"
proof (induction "hi - lo" arbitrary: lo)
  case 0
  then show ?case by (subst id_scan.simps) (intro exI [of _ lo] exI [of _ False], auto)
next
  case (Suc n)
  then have lt: "lo < hi" "n = hi - (lo + 1)" by simp_all
  show ?case
  proof (cases "M (of_nat lo)")
    case None
    then have "id_scan lo hi s = Some (lo, True)"
      using lt(1) id_find_index [OF assms, of lo] by (subst id_scan.simps) simp
    then show ?thesis using None lt(1) by auto
  next
    case (Some p)
    then have run: "id_scan lo hi s = id_scan (lo + 1) hi s"
      using lt(1) id_find_index [OF assms, of lo] by (subst id_scan.simps) simp
    from Suc.hyps(1) [OF lt(2)] obtain r found where r: "id_scan (lo + 1) hi s = Some (r, found)"
        "if found then lo + 1 \<le> r \<and> r < hi \<and> M (of_nat r) = None
         else \<forall>u. lo + 1 \<le> u \<and> u < hi \<longrightarrow> M (of_nat u) \<noteq> None" by blast
    have "u = lo \<or> lo + 1 \<le> u" if "lo \<le> u" for u using that by auto
    then show ?thesis using run r Some by (intro exI [of _ r] exI [of _ found]) (auto split: if_splits)
  qed
qed

text \<open>The two loops together find an identifier that is not in use.\<close>

lemma unused_id:
  assumes t: "table_ok max_nr T M F" and c: "card (dom M) < max_nr"
  shows "\<exists>u. 1 \<le> u \<and> u < TID_MAX \<and> M (of_nat u) = None"
proof -
  note d = table_okD [OF t]
  let ?ks = "map (of_nat :: nat \<Rightarrow> u64) [1..<TID_MAX]"
  have "distinct ?ks" by (auto simp: distinct_map inj_on_def of_nat_id_inj)
  moreover have "card (dom M) < length ?ks" using c d(2) by (simp add: TID_MAX_def)
  ultimately obtain k where "k \<in> set ?ks" "lwp_avl_find k (avl_root (id_tree T)) (id_tree T) = Some None"
    using avlmap.free_key [OF d(4)] by blast
  then show ?thesis using avlmap.look_entry [OF d(4), of k] by auto
qed

lemma id_choice:
  assumes t: "table_ok max_nr T M F" and c: "card (dom M) < max_nr"
  shows "\<exists>tid. id_choose (current_id T) (id_tree T) = Some (tid, True) \<and> 1 \<le> tid \<and> tid < TID_MAX \<and> M (of_nat tid) = None"
proof -
  note d = table_okD [OF t]
  obtain r found where r: "id_scan (current_id T + 1) TID_MAX (id_tree T) = Some (r, found)"
      "if found then current_id T + 1 \<le> r \<and> r < TID_MAX \<and> M (of_nat r) = None
       else \<forall>u. current_id T + 1 \<le> u \<and> u < TID_MAX \<longrightarrow> M (of_nat u) \<noteq> None"
    using id_scan_ok [OF d(4)] by blast
  obtain r2 found2 where r2: "id_scan 1 (current_id T + 1) (id_tree T) = Some (r2, found2)"
      "if found2 then 1 \<le> r2 \<and> r2 < current_id T + 1 \<and> M (of_nat r2) = None
       else \<forall>u. 1 \<le> u \<and> u < current_id T + 1 \<longrightarrow> M (of_nat u) \<noteq> None"
    using id_scan_ok [OF d(4)] by blast
  show ?thesis
  proof (cases found)
    case True
    then show ?thesis using r by (auto simp: id_choose_def)
  next
    case False
    obtain u where u: "1 \<le> u" "u < TID_MAX" "M (of_nat u) = None" using unused_id [OF t c] by blast
    have found2
    proof (rule ccontr)
      assume "\<not> found2"
      then have "M (of_nat u) \<noteq> None"
        using r2(2) r(2) False u(1,2) by (cases "u < current_id T + 1") (simp_all only: if_False, simp_all)
      then show False using u(3) by simp
    qed
    then show ?thesis using r r2 False d(3) by (auto simp: id_choose_def)
  qed
qed

subsection \<open>The operations\<close>

lemma table_fresh:
  assumes t: "table_ok max_nr T M F"
  shows "case id_node max_nr T of
      (None, T') \<Rightarrow> T' = T \<and> card (dom M) = max_nr
    | (Some p, T') \<Rightarrow> p \<notin> ran M \<and> card (dom M) < max_nr \<and> id_tree T' = id_tree T \<and> current_id T' = current_id T \<and>
        (\<exists>F'. free_chain (id_tree T) (id_free_head T') F' \<and> distinct F' \<and> p \<notin> set F' \<and> set F' \<inter> ran M = {} \<and>
           insert p (set F') \<union> ran M = {..<id_ary_alloced T'} \<and> id_ary_alloced T' \<le> max_nr)"
proof (cases F)
  case Nil
  note d = table_okD [OF t]
  have c: "card (dom M) = id_ary_alloced T" using table_card [OF t] Nil by simp
  have fh: "id_free_head T = None" using d(6) Nil by simp
  have r: "ran M = {..<id_ary_alloced T}" using d(9) Nil by simp
  show ?thesis
  proof (cases "id_ary_alloced T < max_nr")
    case True
    have "insert (id_ary_alloced T) (set []) \<union> ran M = {..<id_ary_alloced T + 1}" unfolding r by auto
    then show ?thesis using True c fh r by (simp add: id_node_def) (intro exI [of _ "[]"], simp)
  next
    case False
    then show ?thesis using c fh d(10) by (simp add: id_node_def)
  qed
next
  case (Cons p F')
  note d = table_okD [OF t]
  have c: "card (dom M) < max_nr" using table_card [OF t] d(10) Cons by simp
  have f: "id_free_head T = Some p" "free_chain (id_tree T) (avl_right (avl_nodes (id_tree T) p)) F'" "distinct F'" "p \<notin> set F'"
    using d(6,7) Cons by simp_all
  moreover have "p \<notin> ran M" "set F' \<inter> ran M = {}" "insert p (set F') \<union> ran M = {..<id_ary_alloced T}"
    using d(8,9) Cons by auto
  ultimately show ?thesis using c d(10) by (auto simp: id_node_def)
qed

lemma small_index: "table_ok max_nr T M F \<Longrightarrow> card (dom M) < 9227464"
  using table_card [of max_nr T M F] table_okD(2,10) [of max_nr T M F] by (simp add: TID_MAX_def)

lemma id_get_ok:
  assumes t: "table_ok max_nr T M F"
  shows "\<exists>tid T'. id_get max_nr T = Some (tid, T') \<and>
    (if card (dom M) = max_nr then tid = 0 \<and> T' = T
     else 1 \<le> tid \<and> tid < TID_MAX \<and> M (of_nat tid) = None \<and>
       (\<exists>p F'. p \<notin> ran M \<and> table_ok max_nr T' (M(of_nat tid \<mapsto> p)) F' \<and>
          (\<forall>n. avl_data (avl_nodes (id_tree T') n) = avl_data (avl_nodes (id_tree T) n))))"
proof -
  note d = table_okD [OF t]
  obtain q T1 where node: "id_node max_nr T = (q, T1)" by (cases "id_node max_nr T")
  note fresh = table_fresh [OF t, unfolded node]
  show ?thesis
  proof (cases q)
    case None
    then show ?thesis using fresh node by (simp add: id_get_def)
  next
    case (Some p)
    from fresh Some obtain F' where
      p: "p \<notin> ran M" "card (dom M) < max_nr" "id_tree T1 = id_tree T" "current_id T1 = current_id T"
      and F': "free_chain (id_tree T) (id_free_head T1) F'" "distinct F'" "p \<notin> set F'" "set F' \<inter> ran M = {}"
        "insert p (set F') \<union> ran M = {..<id_ary_alloced T1}" "id_ary_alloced T1 \<le> max_nr" by auto
    from id_choice [OF t p(2)] obtain tid where
      tid: "id_choose (current_id T) (id_tree T) = Some (tid, True)"
        "1 \<le> tid" "tid < TID_MAX" "M (of_nat tid) = None" by blast
    let ?s1 = "upd_node p (\<lambda>x. x\<lparr>avl_key := of_nat tid\<rparr>) (id_tree T)"
    have ix: "index_of ?s1 M" by (rule index_of_fields [OF d(4)]) (use p(1) in \<open>auto simp: upd_node_def\<close>)
    have key: "keys ?s1 p = of_nat tid" by (simp add: upd_node_def)
    then have "keys ?s1 p \<notin> dom M" using tid(4) by (simp add: domIff)
    from avlmap.add_entry [OF ix this p(1) small_index [OF t]] key obtain s2 where
      s2: "lwp_avl_insert p ?s1 = Some s2" "index_of s2 (M(of_nat tid \<mapsto> p))" "keeps ?s1 s2 (insert p (ran M))" by auto
    let ?T = "T1\<lparr>id_tree := s2, current_id := tid\<rparr>"
    have data: "avl_data (avl_nodes s2 n) = avl_data (avl_nodes (id_tree T) n)" for n
      using s2(3) by (simp add: keeps_def upd_node_def)
    have ran: "ran (M(of_nat tid \<mapsto> p)) = insert p (ran M)" using tid(4) by (simp add: ran_map_upd)
    have "free_chain s2 (id_free_head T1) F' = free_chain (id_tree T) (id_free_head T1) F'"
    proof (rule free_chain_cong)
      fix n assume "n \<in> set F'"
      then have "n \<notin> insert p (ran M)" using F'(3,4) by auto
      then show "avl_nodes s2 n = avl_nodes (id_tree T) n" using s2(3) by (auto simp: keeps_def upd_node_def)
    qed
    moreover have "dom (M(of_nat tid \<mapsto> p)) \<subseteq> of_nat ` {1..<TID_MAX}" using d(5) tid(2,3) by auto
    ultimately have "table_ok max_nr ?T (M(of_nat tid \<mapsto> p)) F'"
      using d(1,2,11) tid(3) s2(2) F' ran data by (auto simp: table_ok_def)
    moreover have "id_get max_nr T = Some (tid, ?T)"
      using node Some p(3,4) d(11) [OF p(1)] s2(1) tid(1) by (simp add: id_get_def)
    ultimately show ?thesis using tid p(1,2) data by (intro exI [of _ tid] exI [of _ ?T]) auto
  qed
qed

lemma id_put_ok:
  assumes t: "table_ok max_nr T M F"
  shows "\<exists>T' F'. id_put tid T = Some T' \<and> table_ok max_nr T' (M(of_nat tid := None)) F' \<and>
    (\<forall>n. n \<in> ran (M(of_nat tid := None)) \<longrightarrow> avl_data (avl_nodes (id_tree T') n) = avl_data (avl_nodes (id_tree T) n))"
proof -
  note d = table_okD [OF t]
  show ?thesis
  proof (cases "M (of_nat tid)")
    case None
    then have "M(of_nat tid := None) = M" by auto
    moreover have "id_put tid T = Some T" using None id_find_index [OF d(4)] by (simp add: id_put_def)
    ultimately show ?thesis using t by auto
  next
    case (Some p)
    let ?M = "M(of_nat tid := None)"
    have pr: "p \<in> ran M" using Some by (auto simp: ran_def)
    have ran: "ran ?M = ran M - {p}" by (rule avlmap.ran_del [OF d(4) Some])
    let ?s1 = "upd_node p (\<lambda>x. x\<lparr>avl_data := 0\<rparr>) (id_tree T)"
    have ix: "index_of ?s1 M" by (rule index_of_fields [OF d(4)]) (auto simp: upd_node_def)
    from avlmap.del_entry [OF ix Some small_index [OF t]] obtain s2 where
      s2: "lwp_avl_remove (Some p) ?s1 = Some s2" "index_of s2 ?M" "keeps ?s1 s2 (ran M)" by blast
    let ?s3 = "upd_node p (\<lambda>x. x\<lparr>avl_right := id_free_head T\<rparr>) s2"
    let ?T = "T\<lparr>id_tree := ?s3, id_free_head := Some p\<rparr>"
    have ix3: "index_of ?s3 ?M" by (rule index_of_fields [OF s2(2)]) (use ran in \<open>auto simp: upd_node_def\<close>)
    have pF: "p \<notin> set F" using d(8) pr by auto
    have data: "avl_data (avl_nodes ?s3 n) = (if n = p then 0 else avl_data (avl_nodes (id_tree T) n))" for n
      using s2(3) by (simp add: keeps_def upd_node_def)
    have "free_chain ?s3 (id_free_head T) F = free_chain (id_tree T) (id_free_head T) F"
    proof (rule free_chain_cong)
      fix n assume n: "n \<in> set F"
      then have "n \<notin> ran M" "n \<noteq> p" using d(8) pF by auto
      then show "avl_nodes ?s3 n = avl_nodes (id_tree T) n" using s2(3) by (auto simp: keeps_def upd_node_def)
    qed
    then have "free_chain ?s3 (Some p) (p # F)" using d(6) by (simp add: upd_node_def)
    moreover have "set (p # F) \<union> ran ?M = {..<id_ary_alloced T}" using d(9) pr ran by auto
    moreover have "dom ?M \<subseteq> of_nat ` {1..<TID_MAX}" using d(5) by auto
    ultimately have "table_ok max_nr ?T ?M (p # F)"
      using d(1-3,7,8,10,11) ix3 pF ran data by (auto simp: table_ok_def)
    moreover have "id_put tid T = Some ?T" using Some id_find_index [OF d(4)] s2(1) by (simp add: id_put_def)
    ultimately show ?thesis using data ran by (intro exI [of _ ?T] exI [of _ "p # F"]) auto
  qed
qed

lemma id_set_ok:
  assumes t: "table_ok max_nr T M F"
  shows "\<exists>T'. id_set tid v T = Some T' \<and> table_ok max_nr T' M F \<and>
    (\<forall>n. avl_data (avl_nodes (id_tree T') n) = (if M (of_nat tid) = Some n then v else avl_data (avl_nodes (id_tree T) n)))"
proof -
  note d = table_okD [OF t]
  show ?thesis
  proof (cases "M (of_nat tid)")
    case None
    then show ?thesis using t id_find_index [OF d(4)] by (simp add: id_set_def)
  next
    case (Some p)
    let ?s = "upd_node p (\<lambda>x. x\<lparr>avl_data := v\<rparr>) (id_tree T)"
    have pr: "p \<in> ran M" using Some by (auto simp: ran_def)
    have ix: "index_of ?s M" by (rule index_of_fields [OF d(4)]) (auto simp: upd_node_def)
    have "free_chain ?s (id_free_head T) F = free_chain (id_tree T) (id_free_head T) F"
      by (rule free_chain_cong) (use d(8) pr in \<open>auto simp: upd_node_def\<close>)
    then have "table_ok max_nr (T\<lparr>id_tree := ?s\<rparr>) M F"
      using t ix pr by (auto simp: table_ok_def upd_node_def)
    then show ?thesis using Some id_find_index [OF d(4)] by (simp add: id_set_def upd_node_def)
  qed
qed

subsection \<open>The table as a map\<close>

text \<open>The abstract table: the identifiers in use with what they stand for.  Zero is the null pointer.\<close>

definition table_rel :: "nat \<Rightarrow> id_table \<Rightarrow> (nat \<rightharpoonup> nat) \<Rightarrow> bool" where
  "table_rel max_nr T L \<longleftrightarrow>
     (\<exists>M F. table_ok max_nr T M F \<and> dom L \<subseteq> {1..<TID_MAX} \<and>
        (\<forall>tid<TID_MAX. L tid = map_option (\<lambda>p. avl_data (avl_nodes (id_tree T) p)) (M (of_nat tid))))"

lemma table_rel_card:
  assumes t: "table_ok max_nr T M F" and dom: "dom L \<subseteq> {1..<TID_MAX}"
    and L: "\<forall>tid<TID_MAX. L tid = map_option (\<lambda>p. avl_data (avl_nodes (id_tree T) p)) (M (of_nat tid))"
  shows "card (dom L) = card (dom M)"
proof -
  note d = table_okD [OF t]
  have "dom M = of_nat ` dom L"
  proof (intro set_eqI iffI)
    fix k assume k: "k \<in> dom M"
    then obtain tid where "k = of_nat tid" "tid < TID_MAX" using d(5) by auto
    then show "k \<in> of_nat ` dom L" using k L by (intro image_eqI [of _ _ tid]) (auto simp: dom_def)
  next
    fix k :: u64 assume "k \<in> of_nat ` dom L"
    then obtain tid where tid: "k = of_nat tid" "tid \<in> dom L" by blast
    then have "tid < TID_MAX" using dom by auto
    then have "L tid = map_option (\<lambda>p. avl_data (avl_nodes (id_tree T) p)) (M k)" using L tid(1) by simp
    then show "k \<in> dom M" using tid(2) by (cases "M k") auto
  qed
  moreover have "inj_on (of_nat :: nat \<Rightarrow> u64) (dom L)"
  proof (rule inj_onI)
    fix a b assume ab: "a \<in> dom L" "b \<in> dom L" "(of_nat a :: u64) = of_nat b"
    then have "a < TID_MAX" "b < TID_MAX" using subsetD [OF dom] by auto
    then show "a = b" using ab(3) of_nat_id_inj by blast
  qed
  ultimately show ?thesis by (simp add: card_image)
qed

lemma table_rel_get:
  assumes rel: "table_rel max_nr T L"
  shows "\<exists>tid T'. id_get max_nr T = Some (tid, T') \<and> (tid = 0 \<longleftrightarrow> card (dom L) = max_nr) \<and> tid < TID_MAX \<and> tid \<notin> dom L
    \<and> table_rel max_nr T' (if tid = 0 then L else L(tid \<mapsto> 0))"
proof -
  obtain M F where t: "table_ok max_nr T M F" and dom: "dom L \<subseteq> {1..<TID_MAX}"
    and L: "\<forall>tid<TID_MAX. L tid = map_option (\<lambda>p. avl_data (avl_nodes (id_tree T) p)) (M (of_nat tid))"
    using rel by (auto simp: table_rel_def)
  have c: "card (dom L) = card (dom M)" by (rule table_rel_card [OF t dom L])
  from id_get_ok [OF t] obtain tid T' where get: "id_get max_nr T = Some (tid, T')"
      "if card (dom M) = max_nr then tid = 0 \<and> T' = T
       else 1 \<le> tid \<and> tid < TID_MAX \<and> M (of_nat tid) = None \<and>
         (\<exists>p F'. p \<notin> ran M \<and> table_ok max_nr T' (M(of_nat tid \<mapsto> p)) F' \<and>
            (\<forall>n. avl_data (avl_nodes (id_tree T') n) = avl_data (avl_nodes (id_tree T) n)))" by blast
  show ?thesis
  proof (cases "card (dom M) = max_nr")
    case True
    then have "tid = 0" "T' = T" using get(2) by simp_all
    moreover have "0 \<notin> dom L" using dom by auto
    ultimately show ?thesis using get(1) True c rel by (intro exI [of _ tid] exI [of _ T']) (simp add: TID_MAX_def)
  next
    case False
    then obtain p F' where n: "1 \<le> tid" "tid < TID_MAX" "M (of_nat tid) = None" "p \<notin> ran M"
        "table_ok max_nr T' (M(of_nat tid \<mapsto> p)) F'"
        "\<And>n. avl_data (avl_nodes (id_tree T') n) = avl_data (avl_nodes (id_tree T) n)" using get(2) by auto
    have "avl_data (avl_nodes (id_tree T) p) = 0" using table_okD(11) [OF t n(4)] .
    then have "(L(tid \<mapsto> 0)) u = map_option (\<lambda>p. avl_data (avl_nodes (id_tree T') p)) ((M(of_nat tid \<mapsto> p)) (of_nat u))"
      if "u < TID_MAX" for u
      using that L n(2,6) of_nat_id_inj [of u tid] by simp
    moreover have "dom (L(tid \<mapsto> 0)) \<subseteq> {1..<TID_MAX}" using dom n(1,2) by auto
    ultimately have "table_rel max_nr T' (L(tid \<mapsto> 0))" unfolding table_rel_def using n(5) by blast
    moreover have "tid \<notin> dom L" using L n(2,3) by (simp add: domIff)
    ultimately show ?thesis using get(1) False c n(1,2) by (intro exI [of _ tid] exI [of _ T']) simp
  qed
qed

lemma table_rel_put:
  assumes rel: "table_rel max_nr T L" and tid: "tid < TID_MAX"
  shows "\<exists>T'. id_put tid T = Some T' \<and> table_rel max_nr T' (L(tid := None))"
proof -
  obtain M F where t: "table_ok max_nr T M F" and dom: "dom L \<subseteq> {1..<TID_MAX}"
    and L: "\<forall>tid<TID_MAX. L tid = map_option (\<lambda>p. avl_data (avl_nodes (id_tree T) p)) (M (of_nat tid))"
    using rel by (auto simp: table_rel_def)
  let ?M = "M(of_nat tid := None)"
  from id_put_ok [OF t, of tid] obtain T' F' where put: "id_put tid T = Some T'" "table_ok max_nr T' ?M F'"
      "\<forall>n. n \<in> ran ?M \<longrightarrow> avl_data (avl_nodes (id_tree T') n) = avl_data (avl_nodes (id_tree T) n)" by blast
  have "(L(tid := None)) u = map_option (\<lambda>p. avl_data (avl_nodes (id_tree T') p)) (?M (of_nat u))" if u: "u < TID_MAX" for u
  proof (cases "?M (of_nat u)")
    case None
    then show ?thesis using L u of_nat_id_inj [OF u tid] by (auto split: if_splits)
  next
    case (Some p)
    then have "p \<in> ran ?M" by (rule ranI)
    then show ?thesis using Some L u of_nat_id_inj [OF u tid] put(3) by (auto split: if_splits)
  qed
  moreover have "dom (L(tid := None)) \<subseteq> {1..<TID_MAX}" using dom by auto
  ultimately show ?thesis using put(1,2) unfolding table_rel_def by blast
qed

lemma table_rel_set:
  assumes rel: "table_rel max_nr T L" and tid: "tid < TID_MAX"
  shows "\<exists>T'. id_set tid v T = Some T' \<and> table_rel max_nr T' (if tid \<in> dom L then L(tid \<mapsto> v) else L)"
proof -
  obtain M F where t: "table_ok max_nr T M F" and dom: "dom L \<subseteq> {1..<TID_MAX}"
    and L: "\<forall>tid<TID_MAX. L tid = map_option (\<lambda>p. avl_data (avl_nodes (id_tree T) p)) (M (of_nat tid))"
    using rel by (auto simp: table_rel_def)
  from id_set_ok [OF t, of tid v] obtain T' where set: "id_set tid v T = Some T'" "table_ok max_nr T' M F"
      "\<forall>n. avl_data (avl_nodes (id_tree T') n) = (if M (of_nat tid) = Some n then v else avl_data (avl_nodes (id_tree T) n))"
    by blast
  let ?L = "if tid \<in> dom L then L(tid \<mapsto> v) else L"
  have "?L u = map_option (\<lambda>p. avl_data (avl_nodes (id_tree T') p)) (M (of_nat u))" if u: "u < TID_MAX" for u
  proof (cases "M (of_nat u)")
    case None
    then show ?thesis using L u tid by (auto simp: dom_def)
  next
    case (Some p)
    have "u = tid" if "M (of_nat tid) = Some p"
      using avlmap.holds_keys [OF table_okD(4) [OF t] that] avlmap.holds_keys [OF table_okD(4) [OF t] Some]
        of_nat_id_inj [OF u tid] by simp
    then show ?thesis using Some L u tid set(3) by (auto simp: dom_def)
  qed
  moreover have "dom ?L \<subseteq> {1..<TID_MAX}" using dom by auto
  ultimately show ?thesis using set(1,2) unfolding table_rel_def by blast
qed

lemma index_reset: "index_of (id_tree id_reset) Map.empty"
proof -
  have "index_ok (id_tree id_reset) Lf" by (simp add: index_ok_def tree_of_def id_reset_def)
  then show ?thesis unfolding index_of_def by (intro exI [of _ Lf]) simp
qed

lemma table_rel_reset:
  assumes "1 < max_nr" "max_nr < TID_MAX"
  shows "table_rel max_nr id_reset Map.empty"
proof -
  have "table_ok max_nr id_reset Map.empty []"
    using assms index_reset by (simp add: table_ok_def) (simp add: id_reset_def TID_MAX_def)
  then show ?thesis unfolding table_rel_def by (intro exI [of _ Map.empty] exI [of _ "[]"]) simp
qed

text \<open>Histories of a table, with the map of what is in use.\<close>

inductive id_trace :: "nat \<Rightarrow> (nat \<rightharpoonup> nat) \<Rightarrow> id_table \<Rightarrow> bool" for max_nr :: nat where
  start: "id_trace max_nr Map.empty id_reset"
| get: "id_trace max_nr L T \<Longrightarrow> id_get max_nr T = Some (tid, T') \<Longrightarrow>
    id_trace max_nr (if tid = 0 then L else L(tid \<mapsto> 0)) T'"
| put: "id_trace max_nr L T \<Longrightarrow> tid < TID_MAX \<Longrightarrow> id_put tid T = Some T' \<Longrightarrow> id_trace max_nr (L(tid := None)) T'"
| assign: "id_trace max_nr L T \<Longrightarrow> tid < TID_MAX \<Longrightarrow> id_set tid v T = Some T' \<Longrightarrow>
    id_trace max_nr (if tid \<in> dom L then L(tid \<mapsto> v) else L) T'"

lemma id_trace_rel:
  assumes "id_trace max_nr L T" and "1 < max_nr" "max_nr < TID_MAX"
  shows "table_rel max_nr T L"
  using assms(1)
proof (induction rule: id_trace.induct)
  case start
  show ?case using table_rel_reset [OF assms(2,3)] .
next
  case (get L T tid T')
  then show ?case using table_rel_get [OF get.IH] by auto
next
  case (put L T tid T')
  then show ?case using table_rel_put [OF put.IH put.hyps(2)] by (metis option.inject)
next
  case (assign L T tid v T')
  then show ?case using table_rel_set [OF assign.IH assign.hyps(2), of v] by auto
qed

subsection \<open>Properties\<close>

text \<open>C12: The table of identifiers refines a finite map.  After any history of allocations, releases and
  assignments, a lookup returns what was last assigned to an identifier in use and null for all others; and the
  next allocation returns, with an identifier between 1 and 9999 that is not in use, or with 0 exactly when all
  entries of the table are in use.\<close>

theorem id_table_refines:
  assumes "id_trace max_nr L T" and "1 < max_nr" and "max_nr < TID_MAX"
  shows "(\<forall>tid<TID_MAX. id_data tid T = Some (case L tid of Some v \<Rightarrow> v | None \<Rightarrow> 0))
    \<and> (\<exists>tid T'. id_get max_nr T = Some (tid, T') \<and> (tid = 0 \<longleftrightarrow> card (dom L) = max_nr) \<and> tid < TID_MAX \<and> tid \<notin> dom L)"
proof -
  have rel: "table_rel max_nr T L" by (rule id_trace_rel [OF assms])
  then obtain M F where t: "table_ok max_nr T M F"
    and L: "\<forall>tid<TID_MAX. L tid = map_option (\<lambda>p. avl_data (avl_nodes (id_tree T) p)) (M (of_nat tid))"
    by (auto simp: table_rel_def)
  have "id_data tid T = Some (case L tid of Some v \<Rightarrow> v | None \<Rightarrow> 0)" if "tid < TID_MAX" for tid
    using L that id_find_index [OF table_okD(4) [OF t], of tid] by (simp add: id_data_def option.case_eq_if option.map_sel)
  then show ?thesis using table_rel_get [OF rel] by blast
qed

theorem id_table_refines_witness:
  "\<exists>tid T. lwp_tid_get id_reset = Some (tid, T) \<and> tid \<noteq> 0 \<and> id_data 5 id_reset = Some 0"
  using id_table_refines [OF id_trace.start, of LWP_TID_MAX_NR]
  by (auto simp: lwp_tid_get_def LWP_TID_MAX_NR_def TID_MAX_def)

end
