(* ===== verification/MmArea.thy ===== *)
theory MmArea
  imports IdTable
begin

text \<open>
  The memory areas of an address space, \<^verbatim>\<open>components/lwp/lwp_mm_area.c\<close>: a search tree of areas by their
  start address.  Areas and nodes come from the heap; what \<^verbatim>\<open>rt_malloc\<close> returns for them is an argument of
  \<open>lwp_map_area_insert\<close>.  The data of a tree node is the number of its area.
\<close>

subsection \<open>Operations\<close>

record rt_mm_area_struct =
  ma_addr :: u64
  ma_size :: u64
  ma_type :: int
  unmap_all_addr :: u64

record mm_store =
  mm_tree :: avl_store
  mm_areas :: "nat \<Rightarrow> rt_mm_area_struct"

definition lwp_map_area_insert ::
  "nat option \<Rightarrow> nat option \<Rightarrow> u64 \<Rightarrow> u64 \<Rightarrow> int \<Rightarrow> mm_store \<Rightarrow> (int \<times> mm_store) option" where
  "lwp_map_area_insert malloc_ma malloc_node addr sz type s =
     (if sz = 0 then Some (- 1, s)
      else case malloc_ma of
        None \<Rightarrow> Some (- 1, s)
      | Some ma \<Rightarrow> do {
          let s = s\<lparr>mm_areas := (mm_areas s)(ma := \<lparr>ma_addr = addr, ma_size = sz, ma_type = type, unmap_all_addr = 0\<rparr>)\<rparr>;
          case malloc_node of
            None \<Rightarrow> Some (- 1, s)
          | Some node \<Rightarrow> do {
              let t = upd_node node (\<lambda>_. \<lparr>avl_left = None, avl_right = None, avl_height = 0, avl_key = 0, avl_data = 0\<rparr>) (mm_tree s);
              let t = upd_node node (\<lambda>x. x\<lparr>avl_key := ma_addr (mm_areas s ma)\<rparr>) t;
              let t = upd_node node (\<lambda>x. x\<lparr>avl_data := ma\<rparr>) t;
              t \<leftarrow> lwp_avl_insert node t;
              Some (0, s\<lparr>mm_tree := t\<rparr>)
            }
        })"

definition lwp_map_area_remove :: "u64 \<Rightarrow> mm_store \<Rightarrow> mm_store option" where
  "lwp_map_area_remove addr s = do {
     node \<leftarrow> lwp_avl_find addr (avl_root (mm_tree s)) (mm_tree s);
     case node of
       None \<Rightarrow> Some s
     | Some n \<Rightarrow> do { t \<leftarrow> lwp_avl_remove (Some n) (mm_tree s); Some (s\<lparr>mm_tree := t\<rparr>) }
   }"

definition area_of :: "mm_store \<Rightarrow> nat \<Rightarrow> rt_mm_area_struct" where
  "area_of s n = mm_areas s (avl_data (avl_nodes (mm_tree s) n))"

partial_function (option) lwp_map_find :: "nat option \<Rightarrow> u64 \<Rightarrow> mm_store \<Rightarrow> nat option option" where
  "lwp_map_find node addr s =
     (case node of
        None \<Rightarrow> Some None
      | Some n \<Rightarrow>
          if avl_key (avl_nodes (mm_tree s) n) \<le> addr
          then if ma_addr (area_of s n) \<le> addr \<and> addr < ma_addr (area_of s n) + ma_size (area_of s n)
               then Some (Some n)
               else lwp_map_find (avl_right (avl_nodes (mm_tree s) n)) addr s
          else lwp_map_find (avl_left (avl_nodes (mm_tree s) n)) addr s)"

definition top_mem_fun :: "mm_store \<Rightarrow> nat \<Rightarrow> u64 \<Rightarrow> int \<times> u64" where
  "top_mem_fun s n vs = (0, vs + ma_size (area_of s n))"

definition lwp_vmem_count :: "mm_store \<Rightarrow> u64 option" where
  "lwp_vmem_count s = map_option snd (lwp_avl_traversal (avl_root (mm_tree s)) (top_mem_fun s) (mm_tree s) 0)"

subsection \<open>Disjoint areas\<close>

text \<open>The area of a node ends before the address space does, and contains an address.\<close>

definition within :: "mm_store \<Rightarrow> nat \<Rightarrow> u64 \<Rightarrow> bool" where
  "within s n a \<longleftrightarrow> uint (ma_addr (area_of s n)) \<le> uint a \<and> uint a < uint (ma_addr (area_of s n)) + uint (ma_size (area_of s n))"

definition area_ok :: "mm_store \<Rightarrow> nat \<Rightarrow> bool" where
  "area_ok s n \<longleftrightarrow> keys (mm_tree s) n = ma_addr (area_of s n) \<and> 0 < ma_size (area_of s n) \<and>
     uint (ma_addr (area_of s n)) + uint (ma_size (area_of s n)) < 2 ^ 64"

definition space_ok :: "mm_store \<Rightarrow> (u64 \<rightharpoonup> nat) \<Rightarrow> bool" where
  "space_ok s M \<longleftrightarrow> index_of (mm_tree s) M \<and> card (dom M) < 9227464 \<and> (\<forall>n\<in>ran M. area_ok s n) \<and>
     (\<forall>n\<in>ran M. \<forall>m\<in>ran M. \<forall>a. within s n a \<longrightarrow> within s m a \<longrightarrow> n = m)"

lemma contains_iff:
  assumes "area_ok s n"
  shows "ma_addr (area_of s n) \<le> a \<and> a < ma_addr (area_of s n) + ma_size (area_of s n) \<longleftrightarrow> within s n a"
  using assms by (simp add: area_ok_def within_def word_le_def word_less_def uint_word_ariths)

lemma start_within: "area_ok s n \<Longrightarrow> within s n (keys (mm_tree s) n)"
  by (simp add: area_ok_def within_def word_less_def)

text \<open>An address at or behind the start of an area and outside of it is behind all areas before it.\<close>

lemma map_find_tree:
  assumes "rep (avl_nodes (mm_tree s)) t" and "sorted (map (keys (mm_tree s)) (inorder t))"
    and "\<And>n. n \<in> set (inorder t) \<Longrightarrow> area_ok s n"
    and "\<And>n m a. n \<in> set (inorder t) \<Longrightarrow> m \<in> set (inorder t) \<Longrightarrow> within s n a \<Longrightarrow> within s m a \<Longrightarrow> n = m"
  shows "\<exists>r. lwp_map_find (ptr t) addr s = Some r \<and>
    (case r of Some n \<Rightarrow> n \<in> set (inorder t) \<and> within s n addr | None \<Rightarrow> \<forall>n\<in>set (inorder t). \<not> within s n addr)"
  using assms
proof (induction t)
  case Lf
  then show ?case by (subst lwp_map_find.simps) simp
next
  case (Nd l n ht r)
  note around = sorted_around [of "keys (mm_tree s)" "inorder l" n "inorder r", OF Nd.prems(2) [unfolded inorder.simps]]
  have sub: "avl_left (avl_nodes (mm_tree s) n) = ptr l" "avl_right (avl_nodes (mm_tree s) n) = ptr r"
      "rep (avl_nodes (mm_tree s)) l" "rep (avl_nodes (mm_tree s)) r"
    using Nd.prems(1) by simp_all
  have ok: "area_ok s m" if "m \<in> set (inorder (Nd l n ht r))" for m using Nd.prems(3) that by blast
  have one: "m = m'" if "m \<in> set (inorder (Nd l n ht r))" "m' \<in> set (inorder (Nd l n ht r))" "within s m a" "within s m' a" for m m' a
    using Nd.prems(4) that by blast
  have L: "\<exists>q. lwp_map_find (ptr l) addr s = Some q \<and>
      (case q of Some n \<Rightarrow> n \<in> set (inorder l) \<and> within s n addr | None \<Rightarrow> \<forall>n\<in>set (inorder l). \<not> within s n addr)"
    by (rule Nd.IH(1) [OF sub(3) around(3)]) (use ok one in auto)
  have R: "\<exists>q. lwp_map_find (ptr r) addr s = Some q \<and>
      (case q of Some n \<Rightarrow> n \<in> set (inorder r) \<and> within s n addr | None \<Rightarrow> \<forall>n\<in>set (inorder r). \<not> within s n addr)"
    by (rule Nd.IH(2) [OF sub(4) around(4)]) (use ok one in auto)
  have okn: "area_ok s n" using ok by simp
  show ?case
  proof (cases "keys (mm_tree s) n \<le> addr")
    case le: True
    show ?thesis
    proof (cases "within s n addr")
      case True
      then have "lwp_map_find (ptr (Nd l n ht r)) addr s = Some (Some n)"
        using le contains_iff [OF okn, of addr] by (subst lwp_map_find.simps) simp
      then show ?thesis using True by simp
    next
      case False
      then have go: "lwp_map_find (ptr (Nd l n ht r)) addr s = lwp_map_find (ptr r) addr s"
        using le contains_iff [OF okn, of addr] sub(2) by (subst lwp_map_find.simps) auto
      have "\<not> within s m addr" if m: "m \<in> set (inorder l)" for m
      proof
        assume w: "within s m addr"
        have "within s m (keys (mm_tree s) n)"
          using w around(1) [OF m] le ok [of m] m by (auto simp: within_def area_ok_def word_le_def)
        then have "m = n" using one [of m n] start_within [OF okn] m by simp
        then show False using w False by simp
      qed
      then show ?thesis using go R False by (auto split: option.splits)
    qed
  next
    case False
    then have go: "lwp_map_find (ptr (Nd l n ht r)) addr s = lwp_map_find (ptr l) addr s"
      using sub(1) by (subst lwp_map_find.simps) simp
    have "\<not> within s m addr" if "m = n \<or> m \<in> set (inorder r)" for m
      using that around(2) [of m] False ok [of m] by (auto simp: within_def area_ok_def word_le_def)
    then show ?thesis using go L by (auto split: option.splits)
  qed
qed

lemma map_find_ok:
  assumes "space_ok s M"
  shows "\<exists>r. lwp_map_find (avl_root (mm_tree s)) addr s = Some r \<and>
    (case r of Some n \<Rightarrow> n \<in> ran M \<and> within s n addr | None \<Rightarrow> \<forall>n\<in>ran M. \<not> within s n addr)"
proof -
  obtain t where t: "index_ok (mm_tree s) t" "distinct (map (keys (mm_tree s)) (inorder t))"
      "M = map_of (map (\<lambda>n. (keys (mm_tree s) n, n)) (inorder t))"
    using assms by (auto simp: space_ok_def index_of_def)
  have ran: "ran M = set (inorder t)" using t(2,3) by (simp add: ran_map_of_nodes)
  have ok: "area_ok s n" if "n \<in> set (inorder t)" for n using assms that ran by (simp add: space_ok_def)
  have one: "n = m" if "n \<in> set (inorder t)" "m \<in> set (inorder t)" "within s n a" "within s m a" for n m a
    using assms that unfolding space_ok_def ran by blast
  show ?thesis
    using map_find_tree [of s t addr, OF _ _ ok] one t(1) unfolding ran index_ok_def tree_of_def by (metis (no_types, lifting))
qed

lemma space_okD:
  assumes "space_ok s M"
  shows "index_of (mm_tree s) M" "card (dom M) < 9227464" "n \<in> ran M \<Longrightarrow> area_ok s n"
    "n \<in> ran M \<Longrightarrow> m \<in> ran M \<Longrightarrow> within s n a \<Longrightarrow> within s m a \<Longrightarrow> n = m"
  using assms unfolding space_ok_def by blast+

lemma map_find_hit:
  assumes "space_ok s M" and "n \<in> ran M" and "within s n a"
  shows "lwp_map_find (avl_root (mm_tree s)) a s = Some (Some n)"
  using map_find_ok [OF assms(1), of a] space_okD(4) [OF assms(1)] assms(2,3) by (auto split: option.splits)

lemma map_find_miss:
  assumes "space_ok s M" and "\<And>n. n \<in> ran M \<Longrightarrow> \<not> within s n a"
  shows "lwp_map_find (avl_root (mm_tree s)) a s = Some None"
  using map_find_ok [OF assms(1), of a] assms(2) by (auto split: option.splits)

subsection \<open>Changes of the address space\<close>

text \<open>The addresses of a range; a range does not reach the end of the address space.\<close>

definition span :: "u64 \<Rightarrow> u64 \<Rightarrow> u64 set" where
  "span addr sz = {a. uint addr \<le> uint a \<and> uint a < uint addr + uint sz}"

lemma map_area_insert_ok:
  assumes ok: "space_ok s M" and room: "card (dom M) < 9227463"
    and ma': "\<forall>n\<in>ran M. avl_data (avl_nodes (mm_tree s) n) \<noteq> ma" and node: "node \<notin> ran M"
    and sz: "sz \<noteq> 0" "uint addr + uint sz < 2 ^ 64"
    and free': "\<forall>n\<in>ran M. \<forall>a. within s n a \<longrightarrow> a \<notin> span addr sz"
  shows "\<exists>s'. lwp_map_area_insert (Some ma) (Some node) addr sz type s = Some (0, s') \<and> space_ok s' (M(addr \<mapsto> node))
    \<and> (\<forall>a. within s' node a \<longleftrightarrow> a \<in> span addr sz) \<and> (\<forall>n\<in>ran M. \<forall>a. within s' n a = within s n a)
    \<and> mm_areas s' ma = \<lparr>ma_addr = addr, ma_size = sz, ma_type = type, unmap_all_addr = 0\<rparr> \<and> avl_data (avl_nodes (mm_tree s') node) = ma"
proof -
  note d = space_okD [OF ok] and ma = bspec [OF ma']
  have free: "a \<notin> span addr sz" if "n \<in> ran M" "within s n a" for n a using free' that by blast
  let ?A = "(mm_areas s)(ma := \<lparr>ma_addr = addr, ma_size = sz, ma_type = type, unmap_all_addr = 0\<rparr>)"
  let ?t = "upd_node node (\<lambda>_. \<lparr>avl_left = None, avl_right = None, avl_height = 0, avl_key = addr, avl_data = ma\<rparr>) (mm_tree s)"
  have ix: "index_of ?t M" by (rule index_of_fields [OF d(1)]) (use node in \<open>auto simp: upd_node_def\<close>)
  have key: "keys ?t node = addr" by (simp add: upd_node_def)
  have pos: "0 < uint sz" using word_gt_0 [of sz] sz(1) unfolding word_less_def by simp
  have new: "addr \<notin> dom M"
  proof
    assume "addr \<in> dom M"
    then obtain n where n: "M addr = Some n" by blast
    have "n \<in> ran M" using n by (rule ranI)
    moreover have "within s n addr" using start_within [OF d(3) [OF \<open>n \<in> ran M\<close>]] avlmap.holds_keys [OF d(1) n] by simp
    ultimately have "addr \<notin> span addr sz" by (rule free)
    then show False using pos by (simp add: span_def)
  qed
  from avlmap.add_entry [OF ix, of node, unfolded key, OF new node d(2)] obtain t where
    t: "lwp_avl_insert node ?t = Some t" "index_of t (M(addr \<mapsto> node))" "keeps ?t t (insert node (ran M))" by auto
  let ?s = "s\<lparr>mm_areas := ?A, mm_tree := t\<rparr>"
  have ins: "lwp_map_area_insert (Some ma) (Some node) addr sz type s = Some (0, ?s)"
    using sz(1) t(1) by (simp add: lwp_map_area_insert_def upd_node_def)
  have fields: "avl_data (avl_nodes t n) = avl_data (avl_nodes ?t n)" "keys t n = keys ?t n" for n
    using t(3) by (simp_all add: keeps_def)
  have old: "area_of ?s n = area_of s n" "keys t n = keys (mm_tree s) n" if "n \<in> ran M" for n
    using that ma [OF that] node fields [of n] by (auto simp: area_of_def upd_node_def)
  have mine: "area_of ?s node = \<lparr>ma_addr = addr, ma_size = sz, ma_type = type, unmap_all_addr = 0\<rparr>" "keys t node = addr"
    using fields [of node] by (simp_all add: area_of_def upd_node_def)
  have ran: "ran (M(addr \<mapsto> node)) = insert node (ran M)" using new by (simp add: ran_map_upd domIff)
  have win: "within ?s node a \<longleftrightarrow> a \<in> span addr sz" for a using mine(1) by (simp add: within_def span_def)
  have wold: "within ?s n a = within s n a" if "n \<in> ran M" for n a using old(1) [OF that] by (simp add: within_def)
  have "card (dom (M(addr \<mapsto> node))) < 9227464"
    using room avlmap.holds_finite [OF d(1)] new by (simp add: card_insert_if)
  moreover have "area_ok ?s n" if "n \<in> ran (M(addr \<mapsto> node))" for n
    using that d(3) [of n] old [of n] mine sz pos unfolding ran by (auto simp: area_ok_def word_less_def)
  moreover have "n = m" if "n \<in> ran (M(addr \<mapsto> node))" "m \<in> ran (M(addr \<mapsto> node))" "within ?s n a" "within ?s m a" for n m a
    using that d(4) [of n m a] free [of _ a] win wold unfolding ran by auto
  ultimately have "space_ok ?s (M(addr \<mapsto> node))" unfolding space_ok_def using t(2) by simp
  then show ?thesis using ins win wold fields(1) [of node]
    by (intro exI [of _ ?s]) (simp add: upd_node_def)
qed

lemma map_area_remove_ok:
  assumes ok: "space_ok s M" and n: "M addr = Some node"
  shows "\<exists>s'. lwp_map_area_remove addr s = Some s' \<and> space_ok s' (M(addr := None)) \<and> mm_areas s' = mm_areas s
    \<and> (\<forall>n a. within s' n a = within s n a)"
proof -
  note d = space_okD [OF ok]
  from avlmap.del_entry [OF d(1) n d(2)] obtain t where
    t: "lwp_avl_remove (Some node) (mm_tree s) = Some t" "index_of t (M(addr := None))" "keeps (mm_tree s) t (ran M)" by blast
  let ?s = "s\<lparr>mm_tree := t\<rparr>"
  have rem: "lwp_map_area_remove addr s = Some ?s"
    using avlmap.look_entry [OF d(1), of addr] n t(1) by (simp add: lwp_map_area_remove_def)
  have same: "area_of ?s m = area_of s m" "keys t m = keys (mm_tree s) m" for m
    using t(3) by (simp_all add: keeps_def area_of_def)
  have within: "within ?s m a = within s m a" and area: "area_ok ?s m = area_ok s m" for m a
    using same [of m] by (simp_all add: within_def area_ok_def)
  have sub: "ran (M(addr := None)) \<subseteq> ran M" by (auto simp: ran_def)
  have "card (dom (M(addr := None))) < 9227464"
    using d(2) card_mono [OF avlmap.holds_finite [OF d(1)], of "dom (M(addr := None))"] by auto
  then have "space_ok ?s (M(addr := None))"
    unfolding space_ok_def within area using t(2) sub d(3,4) by (intro conjI) (simp, assumption, (meson subsetD)+)
  then show ?thesis using rem within by simp
qed

subsection \<open>Counting the mapped addresses\<close>

lemma visit_count: "visit (top_mem_fun s) ns v = (0, v + (\<Sum>n\<leftarrow>ns. ma_size (area_of s n)))"
  by (induction ns arbitrary: v) (simp_all add: top_mem_fun_def ac_simps)

lemma card_span:
  assumes "uint addr + uint sz < 2 ^ 64"
  shows "int (card (span addr sz)) = uint sz"
proof -
  have "uint ` span addr sz = {uint addr..<uint addr + uint sz}"
  proof (intro set_eqI iffI)
    fix x assume x: "x \<in> {uint addr..<uint addr + uint sz}"
    have "0 \<le> uint addr" by simp
    then have "0 \<le> x" using x by (simp only: atLeastLessThan_iff) linarith
    then have "uint (word_of_int x :: u64) = x" using x assms by (simp add: uint_word_of_int)
    then show "x \<in> uint ` span addr sz" using x by (intro image_eqI [of _ _ "word_of_int x"]) (auto simp: span_def)
  qed (auto simp: span_def)
  moreover have "inj_on uint (span addr sz)" by (simp add: inj_on_def word_uint_eq_iff)
  ultimately have "card (span addr sz) = card {uint addr..<uint addr + uint sz}" by (metis card_image)
  then show ?thesis by simp
qed

lemma within_span: "{a. within s n a} = span (ma_addr (area_of s n)) (ma_size (area_of s n))"
  by (auto simp: within_def span_def)

lemma card_words: "card (UNIV :: u64 set) = 2 ^ 64"
  by (simp add: card_word)

text \<open>The areas are disjoint, so that their sizes add up to the number of mapped addresses.\<close>

lemma sizes_add_up:
  assumes ok: "\<And>n. n \<in> A \<Longrightarrow> area_ok s n" and fin: "finite A"
    and one: "\<And>n m a. n \<in> A \<Longrightarrow> m \<in> A \<Longrightarrow> within s n a \<Longrightarrow> within s m a \<Longrightarrow> n = m"
  shows "uint (\<Sum>n\<in>A. ma_size (area_of s n)) = int (card {a. \<exists>n\<in>A. within s n a})"
proof -
  let ?W = "\<lambda>n. {a. within s n a}"
  have U: "{a. \<exists>n\<in>A. within s n a} = \<Union> (?W ` A)" by blast
  have one_size: "int (card (?W n)) = uint (ma_size (area_of s n))" if "n \<in> A" for n
    using ok [OF that] by (simp add: within_span card_span area_ok_def)
  have "card (\<Union> (?W ` A)) = (\<Sum>n\<in>A. card (?W n))"
    using fin one by (intro card_UN_disjoint) auto
  then have sum: "int (card (\<Union> (?W ` A))) = (\<Sum>n\<in>A. uint (ma_size (area_of s n)))"
    using one_size by simp
  have "\<not> within s n (- 1)" if "n \<in> A" for n
    using ok [OF that] by (auto simp: within_def area_ok_def unsigned_minus_1_eq_mask mask_eq_exp_minus_1)
  then have "(- 1 :: u64) \<notin> \<Union> (?W ` A)" by blast
  then have "\<Union> (?W ` A) \<subset> UNIV" by blast
  then have "card (\<Union> (?W ` A)) < 2 ^ 64" using psubset_card_mono [of "UNIV :: u64 set"] card_words by simp
  then have "int (card (\<Union> (?W ` A))) < 2 ^ 64" by simp
  then have "(\<Sum>n\<in>A. uint (ma_size (area_of s n))) < 2 ^ 64" using sum by simp
  moreover have "(\<Sum>n\<in>A. ma_size (area_of s n)) = word_of_int (\<Sum>n\<in>A. uint (ma_size (area_of s n)))"
    by simp
  moreover have "0 \<le> (\<Sum>n\<in>A. uint (ma_size (area_of s n)))" by (simp add: sum_nonneg)
  ultimately have "uint (\<Sum>n\<in>A. ma_size (area_of s n)) = (\<Sum>n\<in>A. uint (ma_size (area_of s n)))"
    by (simp only: uint_word_of_int) simp
  then show ?thesis using sum U by simp
qed

lemma vmem_count_ok:
  assumes "space_ok s M"
  shows "lwp_vmem_count s = Some (\<Sum>n\<in>ran M. ma_size (area_of s n))"
proof -
  obtain t where t: "index_ok (mm_tree s) t" "distinct (map (keys (mm_tree s)) (inorder t))"
      "M = map_of (map (\<lambda>n. (keys (mm_tree s) n, n)) (inorder t))"
    using assms by (auto simp: space_ok_def index_of_def)
  have r: "avl_root (mm_tree s) = ptr t" "rep (avl_nodes (mm_tree s)) t" "distinct (inorder t)"
    using t(1) by (simp_all add: index_ok_def tree_of_def)
  have "ran M = set (inorder t)" using t(2,3) by (simp add: ran_map_of_nodes)
  then show ?thesis using traversal_ok [OF r(2), of "top_mem_fun s" 0] r(1,3)
    by (simp add: lwp_vmem_count_def visit_count sum_list_distinct_conv_sum_set)
qed

subsection \<open>Properties\<close>

text \<open>An address space with two areas: 16 addresses from 10 on and 4 from 30 on.\<close>

definition sample_areas :: mm_store where
  "sample_areas = \<lparr>mm_tree = \<lparr>avl_root = Some 1, avl_nodes = (\<lambda>_. sample_node None None 0 0)
       (1 := (sample_node None (Some 2) 2 10)\<lparr>avl_data := 1\<rparr>, 2 := (sample_node None None 1 30)\<lparr>avl_data := 2\<rparr>)\<rparr>,
     mm_areas = (\<lambda>_. \<lparr>ma_addr = 0, ma_size = 0, ma_type = 0, unmap_all_addr = 0\<rparr>)
       (1 := \<lparr>ma_addr = 10, ma_size = 16, ma_type = 0, unmap_all_addr = 0\<rparr>,
        2 := \<lparr>ma_addr = 30, ma_size = 4, ma_type = 1, unmap_all_addr = 0\<rparr>)\<rparr>"

lemma sample_areas_ok: "space_ok sample_areas [10 \<mapsto> 1, 30 \<mapsto> 2]"
proof -
  let ?t = "Nd Lf 1 2 (Nd Lf 2 1 Lf)"
  have "index_ok (mm_tree sample_areas) ?t" by (simp add: index_ok_def tree_of_def sample_areas_def sample_node_def)
  then have "index_of (mm_tree sample_areas) [10 \<mapsto> 1, 30 \<mapsto> 2]"
    unfolding index_of_def by (intro exI [of _ ?t]) (auto simp: sample_areas_def sample_node_def fun_eq_iff)
  moreover have "ran [10 \<mapsto> 1, (30 :: u64) \<mapsto> (2 :: nat)] = {1, 2}" by (simp add: ran_map_upd insert_commute)
  ultimately show ?thesis
    by (auto simp: space_ok_def area_ok_def within_def area_of_def sample_areas_def sample_node_def)
qed

lemma sample_ran: "ran [10 \<mapsto> 1, (30 :: u64) \<mapsto> (2 :: nat)] = {1, 2}"
  by (simp add: ran_map_upd insert_commute)

text \<open>C16: Mapping an area.  When the heap provides an area and a node that are not in use and the range is free,
  the call succeeds, the areas stay disjoint, every address of the range is found in the new area from then on and
  every other address in the area it was in before.\<close>

theorem map_area_insert_spec:
  assumes "space_ok s M" and "card (dom M) < 9227463"
    and "\<forall>n\<in>ran M. avl_data (avl_nodes (mm_tree s) n) \<noteq> ma" and "node \<notin> ran M"
    and "sz \<noteq> 0" and "uint addr + uint sz < 2 ^ 64"
    and "\<forall>a\<in>span addr sz. lwp_map_find (avl_root (mm_tree s)) a s = Some None"
  shows "\<exists>s'. lwp_map_area_insert (Some ma) (Some node) addr sz type s = Some (0, s') \<and> space_ok s' (M(addr \<mapsto> node))
    \<and> area_of s' node = \<lparr>ma_addr = addr, ma_size = sz, ma_type = type, unmap_all_addr = 0\<rparr>
    \<and> (\<forall>a. lwp_map_find (avl_root (mm_tree s')) a s' =
         (if a \<in> span addr sz then Some (Some node) else lwp_map_find (avl_root (mm_tree s)) a s))"
proof -
  have free: "a \<notin> span addr sz" if "n \<in> ran M" "within s n a" for n a
    using map_find_hit [OF assms(1) that] assms(7) by force
  then have "\<forall>n\<in>ran M. \<forall>a. within s n a \<longrightarrow> a \<notin> span addr sz" by blast
  from map_area_insert_ok [OF assms(1-6) this, of type] obtain s' where
    s': "lwp_map_area_insert (Some ma) (Some node) addr sz type s = Some (0, s')" "space_ok s' (M(addr \<mapsto> node))"
      "\<forall>a. within s' node a \<longleftrightarrow> a \<in> span addr sz" "\<forall>n\<in>ran M. \<forall>a. within s' n a = within s n a"
      "mm_areas s' ma = \<lparr>ma_addr = addr, ma_size = sz, ma_type = type, unmap_all_addr = 0\<rparr>"
      "avl_data (avl_nodes (mm_tree s') node) = ma" by blast
  have ran: "x \<in> ran (M(addr \<mapsto> node)) \<Longrightarrow> x = node \<or> x \<in> ran M" for x by (auto simp: ran_def split: if_splits)
  have mem: "node \<in> ran (M(addr \<mapsto> node))" by (auto simp: ran_def)
  have "lwp_map_find (avl_root (mm_tree s')) a s' =
      (if a \<in> span addr sz then Some (Some node) else lwp_map_find (avl_root (mm_tree s)) a s)" for a
  proof (cases "a \<in> span addr sz")
    case True
    then show ?thesis using map_find_hit [OF s'(2) mem] s'(3) by simp
  next
    case False
    show ?thesis
    proof (cases "\<exists>n\<in>ran M. within s n a")
      case True
      then obtain n where n: "n \<in> ran M" "within s n a" by blast
      then obtain k where k: "M k = Some n" by (auto simp: ran_def)
      have "M addr = None"
      proof (rule ccontr)
        assume "M addr \<noteq> None"
        then obtain m where m: "M addr = Some m" by blast
        have "within s m addr" using start_within [OF space_okD(3) [OF assms(1) ranI [of M, OF m]]]
            avlmap.holds_keys [OF space_okD(1) [OF assms(1)] m] by simp
        then have "addr \<notin> span addr sz" using free ranI [of M, OF m] by blast
        then show False using assms(5) word_gt_0 [of sz] by (simp add: span_def word_less_def)
      qed
      then have "n \<in> ran (M(addr \<mapsto> node))" using k by (intro ranI [of _ k]) auto
      then show ?thesis using map_find_hit [OF s'(2)] map_find_hit [OF assms(1)] n s'(4) False by simp
    next
      case none: False
      have "lwp_map_find (avl_root (mm_tree s')) a s' = Some None"
        by (rule map_find_miss [OF s'(2)]) (use none s'(3,4) False ran in metis)
      then show ?thesis using map_find_miss [OF assms(1), of a] none False by simp
    qed
  qed
  then show ?thesis using s'(1,2,5,6) by (intro exI [of _ s']) (simp add: area_of_def)
qed

theorem map_area_insert_spec_witness:
  "\<exists>s'. lwp_map_area_insert (Some 3) (Some 3) 26 4 0 sample_areas = Some (0, s') \<and>
     lwp_map_find (avl_root (mm_tree s')) 27 s' = Some (Some 3)"
proof -
  have "lwp_map_find (avl_root (mm_tree sample_areas)) a sample_areas = Some None" if "a \<in> span 26 4" for a
    by (rule map_find_miss [OF sample_areas_ok])
      (use that in \<open>auto simp: sample_ran span_def within_def area_of_def sample_areas_def sample_node_def\<close>)
  then show ?thesis
    using map_area_insert_spec [OF sample_areas_ok, of 3 3 4 26 0] unfolding sample_ran
    by (auto simp: span_def sample_areas_def sample_node_def)
qed

text \<open>Unmapping the area that starts at an address.  Exactly the addresses of this area are not found any
  more, all others are found in the same area as before; without an area that starts there nothing changes.\<close>

lemma map_area_remove_spec:
  assumes "space_ok s M"
  shows "\<exists>s'. lwp_map_area_remove addr s = Some s' \<and> space_ok s' (M(addr := None)) \<and>
    (\<forall>a. lwp_map_find (avl_root (mm_tree s')) a s' =
       (case M addr of Some n \<Rightarrow> if within s n a then Some None else lwp_map_find (avl_root (mm_tree s)) a s
        | None \<Rightarrow> lwp_map_find (avl_root (mm_tree s)) a s))"
proof (cases "M addr")
  case None
  then have "M(addr := None) = M" by auto
  moreover have "lwp_map_area_remove addr s = Some s"
    using None avlmap.look_entry [OF space_okD(1) [OF assms], of addr] by (simp add: lwp_map_area_remove_def)
  ultimately show ?thesis using None assms by simp
next
  case (Some n)
  from map_area_remove_ok [OF assms Some] obtain s' where
    s': "lwp_map_area_remove addr s = Some s'" "space_ok s' (M(addr := None))" "\<forall>n a. within s' n a = within s n a" by blast
  have n: "n \<in> ran M" using Some by (rule ranI)
  have ran: "m \<in> ran (M(addr := None)) \<longleftrightarrow> m \<in> ran M \<and> m \<noteq> n" for m
  proof
    assume "m \<in> ran (M(addr := None))"
    then obtain k where k: "k \<noteq> addr" "M k = Some m" by (auto simp: ran_def split: if_splits)
    then show "m \<in> ran M \<and> m \<noteq> n"
      using avlmap.holds_keys [OF space_okD(1) [OF assms]] Some by (auto intro: ranI)
  next
    assume "m \<in> ran M \<and> m \<noteq> n"
    then obtain k where "M k = Some m" "m \<noteq> n" by (auto simp: ran_def)
    then show "m \<in> ran (M(addr := None))" using Some by (intro ranI [of _ k]) auto
  qed
  have "lwp_map_find (avl_root (mm_tree s')) a s' = (if within s n a then Some None else lwp_map_find (avl_root (mm_tree s)) a s)" for a
  proof (cases "\<exists>m\<in>ran M. m \<noteq> n \<and> within s m a")
    case True
    then obtain m where m: "m \<in> ran M" "m \<noteq> n" "within s m a" by blast
    then have "\<not> within s n a" using space_okD(4) [OF assms n m(1)] by blast
    then show ?thesis using map_find_hit [OF s'(2), of m a] map_find_hit [OF assms m(1,3)] m ran s'(3) by simp
  next
    case False
    then have "lwp_map_find (avl_root (mm_tree s')) a s' = Some None"
      using map_find_miss [OF s'(2), of a] ran s'(3) by blast
    moreover have "lwp_map_find (avl_root (mm_tree s)) a s = Some None" if "\<not> within s n a"
      by (rule map_find_miss [OF assms]) (use False that in metis)
    ultimately show ?thesis by simp
  qed
  then show ?thesis using Some s'(1,2) by simp
qed

text \<open>C30: The size of an address space.  The sum of the sizes of all areas does not wrap around and is the number of
  addresses that the lookup finds in some area.\<close>

theorem vmem_count_spec:
  assumes "space_ok s M"
  shows "\<exists>v. lwp_vmem_count s = Some v \<and> uint v = int (card {a. lwp_map_find (avl_root (mm_tree s)) a s \<noteq> Some None})"
proof -
  have "lwp_map_find (avl_root (mm_tree s)) a s \<noteq> Some None \<longleftrightarrow> (\<exists>n\<in>ran M. within s n a)" for a
    using map_find_hit [OF assms] map_find_miss [OF assms, of a] by (metis option.distinct(1) option.inject)
  moreover have "finite (ran M)" using avlmap.holds_finite [OF space_okD(1) [OF assms]] by (simp add: finite_ran)
  ultimately show ?thesis
    using vmem_count_ok [OF assms] sizes_add_up [of "ran M" s] space_okD(3,4) [OF assms] by simp
qed

theorem vmem_count_spec_witness:
  "card {a. lwp_map_find (avl_root (mm_tree sample_areas)) a sample_areas \<noteq> Some None} = 20"
proof -
  have "lwp_vmem_count sample_areas = Some 20"
    using vmem_count_ok [OF sample_areas_ok] by (simp add: sample_ran area_of_def sample_areas_def sample_node_def)
  then show ?thesis using vmem_count_spec [OF sample_areas_ok] by auto
qed

end
