(* ===== verification/PageBits.thy ===== *)
theory PageBits
  imports Prelude
begin

text \<open>
  The bit searches of \<^verbatim>\<open>components/lwp/page.c\<close>, in the variant for 64-bit processors: leading and trailing zeros
  without special instructions, and the block size for a number of bytes.
\<close>

subsection \<open>Operations\<close>

definition ARCH_PAGE_SHIFT :: nat where "ARCH_PAGE_SHIFT = 12"

text \<open>The two halves of \<^verbatim>\<open>rt_hw_clz\<close>: spreading the highest bit to the right, and counting bits.\<close>

definition clz_spread :: "u64 \<Rightarrow> u64" where
  "clz_spread n =
     (let n = n OR drop_bit 1 n;
          n = n OR drop_bit 2 n;
          n = n OR drop_bit 4 n;
          n = n OR drop_bit 8 n;
          n = n OR drop_bit 16 n
      in n OR drop_bit 32 n)"

definition clz_count :: "u64 \<Rightarrow> u64" where
  "clz_count n =
     (let n = (n AND 0x5555555555555555) + (drop_bit 1 n AND 0x5555555555555555);
          n = (n AND 0x3333333333333333) + (drop_bit 2 n AND 0x3333333333333333);
          n = (n AND 0x0707070707070707) + (drop_bit 4 n AND 0x0707070707070707);
          n = (n AND 0x000f000f000f000f) + (drop_bit 8 n AND 0x000f000f000f000f);
          n = (n AND 0x0000001f0000001f) + (drop_bit 16 n AND 0x0000001f0000001f)
      in (n AND 0x000000000000003f) + (drop_bit 32 n AND 0x000000000000003f))"

definition rt_hw_clz :: "u64 \<Rightarrow> int" where
  "rt_hw_clz n = sint (ucast (64 - clz_count (clz_spread n)) :: 32 word)"

definition rt_hw_ctz :: "u64 \<Rightarrow> int" where
  "rt_hw_ctz n = (let ret = 64 in if n \<noteq> 0 then ret - (rt_hw_clz (n XOR (n - 1)) + 1) else ret)"

text \<open>A shift by a negative number is undefined.\<close>

definition rt_page_bits :: "u64 \<Rightarrow> u64 option" where
  "rt_page_bits sz = do {
     let bit = 64 - rt_hw_clz sz - 1;
     rt_assert (0 \<le> bit \<and> bit < 64);
     let bit = (if sz XOR push_bit (nat bit) 1 \<noteq> 0 then bit + 1 else bit);
     let bit = bit - int ARCH_PAGE_SHIFT;
     Some (word_of_int (if bit < 0 then 0 else bit))
   }"

subsection \<open>Leading zeros\<close>

text \<open>Of a number with the highest bit \<open>k - 1\<close>, the \<open>d\<close> bits from the highest one down are set.\<close>

definition top_set :: "nat \<Rightarrow> nat \<Rightarrow> u64 \<Rightarrow> bool" where
  "top_set k d n \<longleftrightarrow> (\<forall>i. bit n i \<longrightarrow> i < k) \<and> (\<forall>i<k. k \<le> i + d \<longrightarrow> bit n i)"

lemma top_set_step:
  assumes "top_set k d n" and "0 < d" and "e = d + d"
  shows "top_set k e (n OR drop_bit d n)"
proof -
  have "bit (n OR drop_bit d n) i" if i: "i < k" "k \<le> i + (d + d)" for i
  proof (cases "k \<le> i + d")
    case True
    then show ?thesis using assms i by (simp add: top_set_def bit_or_iff)
  next
    case False
    then have "bit n (d + i)" using assms(1) i by (simp add: top_set_def ac_simps)
    then show ?thesis by (simp add: bit_or_iff bit_drop_bit_eq)
  qed
  moreover have "i < k" if "bit (n OR drop_bit d n) i" for i
    using that assms(1) by (auto simp: top_set_def bit_or_iff bit_drop_bit_eq dest: spec [of _ "d + i"])
  ultimately show ?thesis using assms(3) by (simp add: top_set_def)
qed

lemma clz_spread_mask:
  assumes "top_set k 1 n" and "k \<le> 64"
  shows "clz_spread n = mask k"
proof -
  have "top_set k 64 (clz_spread n)"
    unfolding clz_spread_def Let_def
    by (rule top_set_step [of k 32], rule top_set_step [of k 16], rule top_set_step [of k 8], rule top_set_step [of k 4],
        rule top_set_step [of k 2], rule top_set_step [of k 1], rule assms(1)) simp_all
  then show ?thesis using assms(2) by (intro bit_eqI) (auto simp: top_set_def bit_mask_iff)
qed

lemma clz_count_mask:
  assumes "k \<le> 64"
  shows "sint (ucast (64 - clz_count (mask k)) :: 32 word) = 64 - int k"
proof -
  let ?P = "\<lambda>k. sint (ucast (64 - clz_count (mask k)) :: 32 word) = 64 - int k"
  have "list_all ?P [2..<65]" by (simp add: clz_count_def mask_numeral upt_rec_numeral)
  moreover have "?P 0" "?P 1" by (simp_all add: clz_count_def)
  moreover have "k = 0 \<or> k = 1 \<or> k \<in> set [2..<65]" using assms unfolding set_upt atLeastLessThan_iff by arith
  ultimately show ?thesis unfolding list_all_iff by blast
qed

lemma clz_of_top:
  assumes "top_set k 1 n" and "k \<le> 64"
  shows "rt_hw_clz n = 64 - int k"
  using clz_count_mask [OF assms(2)] clz_spread_mask [OF assms] by (simp add: rt_hw_clz_def)

lemma exp_less_64: "(2 :: nat) ^ k < 2 ^ 64 \<Longrightarrow> k < 64"
  by (rule power_less_imp_less_exp [of 2]) simp_all

lemma exp_le_word: "2 ^ k \<le> unat n \<Longrightarrow> k < 64" for n :: u64
  using exp_less_64 [of k] unsigned_less [of n, where 'a = nat] by simp

text \<open>The number of significant bits.\<close>

lemma top_bit: "bit n i \<longleftrightarrow> odd (unat n div 2 ^ i)" for n :: u64
  using bit_iff_odd [of "unat n" i] by (simp add: bit_unsigned_iff)

lemma top_setI:
  assumes "2 ^ k \<le> unat n" and "unat n < 2 ^ Suc k"
  shows "top_set (Suc k) 1 n"
proof -
  have "i < Suc k" if "bit n i" for i
  proof (rule ccontr)
    assume "\<not> i < Suc k"
    then have "unat n < 2 ^ i" using assms(2) power_increasing [of "Suc k" i "2 :: nat"] by simp
    then show False using that by (simp add: top_bit)
  qed
  moreover have "unat n div 2 ^ k = 1" using assms by (simp add: div_nat_eqI)
  then have "bit n k" by (simp add: top_bit)
  ultimately show ?thesis by (auto simp: top_set_def less_Suc_eq)
qed

lemma clz_spec:
  assumes "2 ^ k \<le> unat n" and "unat n < 2 ^ Suc k"
  shows "rt_hw_clz n = 63 - int k"
  using clz_of_top [OF top_setI [OF assms]] exp_le_word [OF assms(1)] by simp

lemma clz_zero: "rt_hw_clz 0 = 64"
  using clz_of_top [of 0 0] by (simp add: top_set_def)

lemma log_exists: "0 < m \<Longrightarrow> \<exists>k. 2 ^ k \<le> m \<and> m < 2 ^ Suc k" for m :: nat
  using ex_power_ivl1 [of 2 m] by auto

subsection \<open>Trailing zeros\<close>

lemma ctz_mask:
  assumes "unat n = 2 ^ Suc t * q + 2 ^ t" and "t < 64"
  shows "n XOR (n - 1) = (mask (Suc t) :: u64)"
proof -
  let ?h = "push_bit (Suc t) (of_nat q) :: u64"
  have n: "n = ?h + push_bit t 1"
  proof -
    have "n = of_nat (unat n)" by simp
    also have "\<dots> = ?h + push_bit t 1" unfolding assms(1) by (simp add: push_bit_eq_mult)
    finally show ?thesis .
  qed
  then have "n - 1 = ?h + mask t" by (simp add: mask_eq_exp_minus_1 push_bit_eq_mult)
  also have "\<dots> = ?h OR mask t"
    by (rule disjunctive_add) (auto simp: bit_push_bit_iff bit_mask_iff)
  finally have m: "n - 1 = ?h OR mask t" .
  have "?h + push_bit t 1 = ?h OR push_bit t 1"
    by (rule disjunctive_add) (auto simp: bit_push_bit_iff bit_1_iff simp del: push_bit_Suc push_bit_of_1)
  then have n': "n = ?h OR push_bit t 1" using n by simp
  show ?thesis
    by (subst m, subst n', rule bit_eqI)
      (use assms(2) in \<open>auto simp: bit_xor_iff bit_or_iff bit_push_bit_iff bit_mask_iff bit_1_iff less_Suc_eq simp del: push_bit_Suc push_bit_of_1\<close>)
qed

lemma ctz_spec:
  assumes "unat n = 2 ^ Suc t * q + 2 ^ t"
  shows "rt_hw_ctz n = int t"
proof -
  have "2 ^ t \<le> unat n" using assms by simp
  then have t: "t < 64" by (rule exp_le_word)
  have "top_set (Suc t) 1 (mask (Suc t))" using t by (auto simp: top_set_def bit_mask_iff)
  then have "rt_hw_clz (n XOR (n - 1)) = 64 - int (Suc t)"
    unfolding ctz_mask [OF assms t] using t by (intro clz_of_top) simp_all
  moreover have "n \<noteq> 0" using \<open>2 ^ t \<le> unat n\<close> by auto
  ultimately show ?thesis by (simp add: rt_hw_ctz_def)
qed

lemma odd_part: "0 < m \<Longrightarrow> \<exists>t q. m = 2 ^ Suc t * q + 2 ^ t" for m :: nat
proof (induction m rule: less_induct)
  case (less m)
  show ?case
  proof (cases "even m")
    case True
    then obtain j where j: "m = 2 * j" by blast
    then have "j < m" "0 < j" using less.prems by auto
    then obtain t q where "j = 2 ^ Suc t * q + 2 ^ t" using less.IH by blast
    then show ?thesis using j by (intro exI [of _ "Suc t"] exI [of _ q]) simp
  next
    case False
    then obtain j where "m = 2 * j + 1" by (blast elim: oddE)
    then show ?thesis by (intro exI [of _ 0] exI [of _ j]) simp
  qed
qed

subsection \<open>Block sizes\<close>

lemma xor_zero: "a XOR b = 0 \<longleftrightarrow> a = (b :: u64)"
proof
  assume "a XOR b = 0"
  then have "(a XOR b) XOR b = b" by simp
  then show "a = b" by (simp add: xor.assoc)
qed simp

lemma unat_push_one: "k < 64 \<Longrightarrow> unat (push_bit k 1 :: u64) = 2 ^ k"
proof -
  assume "k < 64"
  then have "(2 :: nat) ^ k < 2 ^ 64" by (intro power_strict_increasing) simp_all
  moreover have "(push_bit k 1 :: u64) = of_nat (2 ^ k)" by simp
  ultimately show ?thesis using take_bit_nat_eq_self [of "2 ^ k" 64] by (simp only: unsigned_of_nat) simp
qed

lemma page_bits_ok:
  assumes "sz \<noteq> 0"
  shows "\<exists>r. rt_page_bits sz = Some (of_nat r) \<and> r \<le> 52 \<and> unat sz \<le> 2 ^ (12 + r) \<and> (r = 0 \<or> 2 ^ (11 + r) < unat sz)"
proof -
  have "0 < unat sz" using assms by (simp add: unat_gt_0)
  then obtain k where k: "2 ^ k \<le> unat sz" "unat sz < 2 ^ Suc k" using log_exists by blast
  have k64: "k < 64" by (rule exp_le_word [OF k(1)])
  have clz: "64 - rt_hw_clz sz - 1 = int k" using clz_spec [OF k] by simp
  have x: "sz XOR push_bit k 1 = 0 \<longleftrightarrow> unat sz = 2 ^ k"
  proof -
    have "sz XOR push_bit k 1 = 0 \<longleftrightarrow> sz = push_bit k 1"  by (rule xor_zero)
    also have "\<dots> \<longleftrightarrow> unat sz = unat (push_bit k 1 :: u64)" by (simp add: word_unat_eq_iff)
    also have "unat (push_bit k 1 :: u64) = 2 ^ k" by (rule unat_push_one [OF k64])
    finally show ?thesis .
  qed
  define b where "b = (if unat sz = 2 ^ k then k else k + 1)"
  have bits: "rt_page_bits sz = Some (of_nat (b - 12))"
  proof -
    have b: "(if sz XOR push_bit (nat (int k)) 1 \<noteq> 0 then int k + 1 else int k) = int b" using x by (simp add: b_def)
    have "word_of_int (if int b - 12 < 0 then 0 else int b - 12) = (of_nat (b - 12) :: u64)"
      by (cases "b < 12") (simp_all add: of_nat_diff)
    then show ?thesis using k64 unfolding rt_page_bits_def clz Let_def b
      by (simp add: rt_assert_def ARCH_PAGE_SHIFT_def)
  qed
  have up: "unat sz \<le> 2 ^ b" using k(2) by (simp add: b_def)
  have "b \<le> 12 + (b - 12)" by simp
  then have "unat sz \<le> 2 ^ (12 + (b - 12))" using up power_increasing [of b "12 + (b - 12)" "2 :: nat"] le_trans by (metis one_le_numeral)
  moreover have "2 ^ (11 + (b - 12)) < unat sz" if "b - 12 \<noteq> 0"
  proof (cases "unat sz = 2 ^ k")
    case True
    then show ?thesis using that power_strict_increasing [of "11 + (k - 12)" k "2 :: nat"] by (simp add: b_def)
  next
    case False
    then have "11 + (b - 12) = k" using that by (simp add: b_def)
    then show ?thesis using False k(1) by simp
  qed
  moreover have "b \<le> 64" using k64 by (simp add: b_def)
  ultimately show ?thesis using bits by (intro exI [of _ "b - 12"]) (simp add: disj_imp)
qed

subsection \<open>Properties\<close>

text \<open>C34: Leading and trailing zeros.  The search by spreading and counting bits gives the position of the highest and of the
  lowest bit for every word, and 64 for zero.\<close>

theorem bit_search_spec:
  assumes "n \<noteq> 0"
  shows "(\<exists>k<64. rt_hw_clz n = 63 - int k \<and> 2 ^ k \<le> unat n \<and> unat n < 2 ^ Suc k)
    \<and> (\<exists>t<64. rt_hw_ctz n = int t \<and> 2 ^ t dvd unat n \<and> \<not> 2 ^ Suc t dvd unat n)
    \<and> rt_hw_clz 0 = 64 \<and> rt_hw_ctz 0 = 64"
proof -
  have pos: "0 < unat n" using assms by (simp add: unat_gt_0)
  obtain k where k: "2 ^ k \<le> unat n" "unat n < 2 ^ Suc k" using log_exists [OF pos] by blast
  obtain t q where t: "unat n = 2 ^ Suc t * q + 2 ^ t" using odd_part [OF pos] by blast
  have "2 ^ t dvd unat n" using t by simp
  moreover have "\<not> 2 ^ Suc t dvd unat n"
  proof
    assume "2 ^ Suc t dvd unat n"
    then have "(2 :: nat) ^ Suc t dvd 2 ^ t" unfolding t by (simp add: dvd_add_right_iff)
    then show False by (auto dest!: dvd_imp_le)
  qed
  moreover have "2 ^ t \<le> unat n" using t by simp
  then have "t < 64" by (rule exp_le_word)
  ultimately show ?thesis using clz_spec [OF k] k exp_le_word [OF k(1)] ctz_spec [OF t] clz_zero by (auto simp: rt_hw_ctz_def)
qed

theorem bit_search_spec_witness: "\<exists>k<64. rt_hw_clz 40960 = 63 - int k \<and> 2 ^ k \<le> unat (40960 :: u64)"
  using bit_search_spec [of 40960] by auto

text \<open>The block for a number of bytes.  For every positive size the level is the smallest one whose blocks have at least
  this size; it is at most 52, which is one beyond the last level of the allocator.\<close>

lemma page_bits_spec:
  assumes "sz \<noteq> 0"
  shows "\<exists>r. rt_page_bits sz = Some (of_nat r) \<and> r \<le> 52 \<and> unat sz \<le> 2 ^ (12 + r) \<and> (r = 0 \<or> 2 ^ (11 + r) < unat sz)"
  using page_bits_ok [OF assms] .

end
