(* ===== verification/Buddy.thy ===== *)
theory Buddy
  imports Prelude
begin

text \<open>
  The combinatorics of the page allocator: partial maps from page numbers to levels, read as blocks of \<open>2 ^ l\<close>
  pages aligned to their size.  Blocks are disjoint; splitting a block and merging a block with its buddy keep them
  disjoint and cover the same pages.  A set of pages has at most one tiling without a pair of buddies.
\<close>

type_synonym tiling = "nat \<rightharpoonup> nat"

definition block :: "nat \<Rightarrow> nat \<Rightarrow> nat set" where
  "block a l = {a..<a + 2 ^ l}"

definition tiles :: "nat \<Rightarrow> nat \<Rightarrow> tiling \<Rightarrow> bool" where
  "tiles lo hi B \<longleftrightarrow>
     (\<forall>a l. B a = Some l \<longrightarrow> 2 ^ l dvd a \<and> lo \<le> a \<and> a + 2 ^ l \<le> hi) \<and>
     (\<forall>a l b m. B a = Some l \<longrightarrow> B b = Some m \<longrightarrow> a \<noteq> b \<longrightarrow> block a l \<inter> block b m = {})"

definition covered :: "tiling \<Rightarrow> nat set" where
  "covered B = {k. \<exists>a l. B a = Some l \<and> k \<in> block a l}"

text \<open>The buddy of a block at its level, and tilings without a pair of buddies.\<close>

definition mate :: "nat \<Rightarrow> nat \<Rightarrow> nat" where
  "mate l a = (if 2 ^ Suc l dvd a then a + 2 ^ l else a - 2 ^ l)"

definition coalesced :: "tiling \<Rightarrow> bool" where
  "coalesced B \<longleftrightarrow> (\<forall>a l. B a = Some l \<longrightarrow> B (mate l a) \<noteq> Some l)"

lemma tilesD:
  assumes "tiles lo hi B"
  shows "B a = Some l \<Longrightarrow> 2 ^ l dvd a" "B a = Some l \<Longrightarrow> lo \<le> a" "B a = Some l \<Longrightarrow> a + 2 ^ l \<le> hi"
    "B a = Some l \<Longrightarrow> B b = Some m \<Longrightarrow> a \<noteq> b \<Longrightarrow> block a l \<inter> block b m = {}"
  using assms by (auto simp: tiles_def)

lemma in_block: "k \<in> block a l \<longleftrightarrow> a \<le> k \<and> k < a + 2 ^ l"
  by (simp add: block_def)

lemma covered_block: "B a = Some l \<Longrightarrow> block a l \<subseteq> covered B"
  unfolding covered_def by blast

lemma block_start [simp]: "a \<in> block a l"
  by (simp add: in_block)

lemma uncovered: "a \<notin> covered B \<Longrightarrow> B a = None"
proof (cases "B a")
  case (Some l)
  assume "a \<notin> covered B"
  then show ?thesis using subsetD [OF covered_block [of B, OF Some] block_start] by simp
qed

lemma tiles_same:
  assumes "tiles lo hi B" "B a = Some l" "B b = Some m" "k \<in> block a l" "k \<in> block b m"
  shows "a = b \<and> l = m"
proof -
  have "a = b" using tilesD(4) [OF assms(1-3)] assms(4,5) by blast
  then show ?thesis using assms(2,3) by simp
qed

lemma covered_bounds: "tiles lo hi B \<Longrightarrow> covered B \<subseteq> {lo..<hi}"
proof
  fix k assume t: "tiles lo hi B" and "k \<in> covered B"
  then obtain a l where "B a = Some l" "k \<in> block a l" by (auto simp: covered_def)
  then show "k \<in> {lo..<hi}" using tilesD(2,3) [OF t, of a l] by (auto simp: in_block)
qed

lemma tiles_finite: "tiles lo hi B \<Longrightarrow> finite (dom B)"
proof -
  assume t: "tiles lo hi B"
  have "a \<in> covered B" if "B a = Some l" for a l using covered_block [of B, OF that] block_start by (rule subsetD)
  then have "dom B \<subseteq> covered B" by auto
  then show ?thesis using covered_bounds [OF t] by (metis finite_atLeastLessThan finite_subset)
qed

lemma tiles_subset: "tiles lo hi B \<Longrightarrow> C \<subseteq>\<^sub>m B \<Longrightarrow> tiles lo hi C"
  unfolding tiles_def map_le_def by (metis domI)

lemma tiles_upd:
  assumes "tiles lo hi (B(a := None))" and "2 ^ l dvd a" and "lo \<le> a" and "a + 2 ^ l \<le> hi"
    and "block a l \<inter> covered (B(a := None)) = {}"
  shows "tiles lo hi (B(a \<mapsto> l))"
proof -
  have apart: "block a l \<inter> block b m = {}" if "B b = Some m" "b \<noteq> a" for b m
    using assms(5) covered_block [of "B(a := None)" b m] that by auto
  have old: "2 ^ m dvd b \<and> lo \<le> b \<and> b + 2 ^ m \<le> hi" if "B b = Some m" "b \<noteq> a" for b m
    using tilesD(1-3) [OF assms(1), of b m] that by simp
  have disj: "block b m \<inter> block c n = {}" if "B b = Some m" "b \<noteq> a" "B c = Some n" "c \<noteq> a" "b \<noteq> c" for b m c n
    using tilesD(4) [OF assms(1), of b m c n] that by simp
  have "block b m \<inter> block c n = {}" if "(B(a \<mapsto> l)) b = Some m" "(B(a \<mapsto> l)) c = Some n" "b \<noteq> c" for b m c n
    using that apart [of b m] apart [of c n] disj [of b m c n] by (auto split: if_splits)
  then show ?thesis unfolding tiles_def using assms(2-4) old by (simp split: if_splits)
qed

lemma covered_upd: "covered (B(a \<mapsto> l)) = block a l \<union> covered (B(a := None))"
proof (intro set_eqI iffI)
  fix k assume "k \<in> covered (B(a \<mapsto> l))"
  then obtain b m where "(B(a \<mapsto> l)) b = Some m" "k \<in> block b m" unfolding covered_def by blast
  then show "k \<in> block a l \<union> covered (B(a := None))"
    using covered_block [of "B(a := None)" b m] by (cases "b = a") auto
next
  fix k assume "k \<in> block a l \<union> covered (B(a := None))"
  then consider "k \<in> block a l" | b m where "b \<noteq> a" "B b = Some m" "k \<in> block b m"
    unfolding covered_def by (auto split: if_splits)
  then show "k \<in> covered (B(a \<mapsto> l))"
  proof cases
    case 1
    then show ?thesis using covered_block [of "B(a \<mapsto> l)" a l] by auto
  next
    case 2
    then show ?thesis using covered_block [of "B(a \<mapsto> l)" b m] by auto
  qed
qed

lemma covered_minus:
  assumes "tiles lo hi B" and "B a = Some l"
  shows "covered (B(a := None)) = covered B - block a l"
proof (intro set_eqI iffI)
  fix k assume "k \<in> covered (B(a := None))"
  then obtain b m where b: "B b = Some m" "b \<noteq> a" "k \<in> block b m" by (auto simp: covered_def split: if_splits)
  then have "k \<notin> block a l" using tiles_same [OF assms(1) b(1) assms(2)] by blast
  then show "k \<in> covered B - block a l" using b covered_block by blast
next
  fix k assume k: "k \<in> covered B - block a l"
  then obtain b m where b: "B b = Some m" "k \<in> block b m" by (auto simp: covered_def)
  then have "b \<noteq> a" using k assms(2) by auto
  then show "k \<in> covered (B(a := None))" using b covered_block [of "B(a := None)" b m] by auto
qed

subsection \<open>Splitting and merging\<close>

lemma block_halves: "block a (Suc l) = block a l \<union> block (a + 2 ^ l) l" "block a l \<inter> block (a + 2 ^ l) l = {}"
  by (auto simp: block_def)

lemma tiles_split:
  assumes t: "tiles lo hi B" and a: "B a = Some (Suc l)"
  shows "tiles lo hi (B(a \<mapsto> l, a + 2 ^ l \<mapsto> l))" "covered (B(a \<mapsto> l, a + 2 ^ l \<mapsto> l)) = covered B"
    "B (a + 2 ^ l) = None"
proof -
  note d = tilesD(1-3) [OF t a]
  let ?N = "B(a := None)"
  have N: "tiles lo hi ?N" by (rule tiles_subset [OF t]) (simp add: map_le_def)
  have cov: "covered ?N = covered B - block a (Suc l)" by (rule covered_minus [OF t a])
  show none: "B (a + 2 ^ l) = None"
  proof (rule ccontr)
    assume "B (a + 2 ^ l) \<noteq> None"
    then obtain m where "B (a + 2 ^ l) = Some m" by blast
    from tiles_same [OF t this a, of "a + 2 ^ l"] show False by (simp add: in_block)
  qed
  have half: "(2 :: nat) ^ l dvd 2 ^ Suc l" by simp
  have d1: "2 ^ l dvd a" using d(1) half dvd_trans by blast
  have 1: "tiles lo hi (B(a \<mapsto> l))"
  proof (rule tiles_upd [OF N d1 d(2)])
    show "a + 2 ^ l \<le> hi" using d(3) by simp
    show "block a l \<inter> covered ?N = {}" using cov block_halves(1) [of a l] by blast
  qed
  have free: "(B(a \<mapsto> l))(a + 2 ^ l := None) = B(a \<mapsto> l)" using none by auto
  have cov1: "covered (B(a \<mapsto> l)) = block a l \<union> (covered B - block a (Suc l))" using covered_upd cov by simp
  show "tiles lo hi (B(a \<mapsto> l, a + 2 ^ l \<mapsto> l))"
  proof (rule tiles_upd)
    show "tiles lo hi ((B(a \<mapsto> l))(a + 2 ^ l := None))" using 1 free by simp
    show "2 ^ l dvd a + 2 ^ l" "lo \<le> a + 2 ^ l" "a + 2 ^ l + 2 ^ l \<le> hi" using d d1 by simp_all
    show "block (a + 2 ^ l) l \<inter> covered ((B(a \<mapsto> l))(a + 2 ^ l := None)) = {}"
      unfolding free cov1 using block_halves [of a l] by blast
  qed
  show "covered (B(a \<mapsto> l, a + 2 ^ l \<mapsto> l)) = covered B"
    unfolding covered_upd [of "B(a \<mapsto> l)"] free cov1 using block_halves(1) [of a l] covered_block [of B, OF a] by blast
qed

lemma tiles_merge:
  assumes t: "tiles lo hi B" and a: "B a = Some l" and b: "B (a + 2 ^ l) = Some l" and al: "2 ^ Suc l dvd a"
  shows "tiles lo hi (B(a + 2 ^ l := None, a \<mapsto> Suc l))" "covered (B(a + 2 ^ l := None, a \<mapsto> Suc l)) = covered B"
proof -
  let ?M = "B(a + 2 ^ l := None)"
  let ?N = "?M(a := None)"
  have M: "tiles lo hi ?M" and N: "tiles lo hi ?N" by (auto intro!: tiles_subset [OF t] simp: map_le_def)
  have "covered ?N = covered ?M - block a l" by (rule covered_minus [OF M]) (use a in simp)
  then have cov: "covered ?N = covered B - block a (Suc l)"
    using covered_minus [OF t b] block_halves(1) [of a l] by auto
  have top: "a + 2 ^ Suc l \<le> hi" using tilesD(3) [OF t b] by simp
  show "tiles lo hi (?M(a \<mapsto> Suc l))"
    by (rule tiles_upd [OF N al tilesD(2) [OF t a] top]) (use cov in blast)
  show "covered (?M(a \<mapsto> Suc l)) = covered B"
    unfolding covered_upd cov using covered_block [of B, OF a] covered_block [of B, OF b] block_halves(1) [of a l] by blast
qed

subsection \<open>Buddies\<close>

lemma aligned_nested:
  assumes "2 ^ l dvd a" and "2 ^ m dvd b" and "l \<le> m" and k: "k \<in> block a l" "k \<in> block b m"
  shows "block a l \<subseteq> block b m"
proof -
  let ?q = "2 ^ l :: nat"
  obtain x where x: "a = ?q * x" using assms(1) by blast
  have "?q dvd 2 ^ m" using assms(3) by (rule le_imp_power_dvd)
  then obtain y w where y: "b = ?q * y" "2 ^ m = ?q * w" using assms(2) dvd_trans by (metis dvd_def)
  have "?q * y < ?q * (x + 1)" "?q * x < ?q * (y + w)" using k x y by (simp_all add: in_block algebra_simps)
  then have "y < x + 1" "x < y + w" using mult_less_cancel1 [of ?q y "x + 1"] mult_less_cancel1 [of ?q x "y + w"] by blast+
  then have "y \<le> x" "x + 1 \<le> y + w" by simp_all
  then have "?q * y \<le> ?q * x" "?q * (x + 1) \<le> ?q * (y + w)" by (blast intro: mult_le_mono2)+
  then have "b \<le> a" "a + ?q \<le> b + 2 ^ m" using x y by (simp_all add: algebra_simps)
  then show ?thesis by (simp add: block_def)
qed

lemma aligned_same: "2 ^ l dvd a \<Longrightarrow> 2 ^ l dvd b \<Longrightarrow> k \<in> block a l \<Longrightarrow> k \<in> block b l \<Longrightarrow> a = b"
  using aligned_nested [of l a l b k] aligned_nested [of l b l a k] block_start by (meson in_block le_antisym order_refl subsetD)

text \<open>The block that a block and its buddy make up.\<close>

definition parent :: "nat \<Rightarrow> nat \<Rightarrow> nat" where
  "parent l a = (if 2 ^ Suc l dvd a then a else a - 2 ^ l)"

lemma odd_multiple:
  assumes "2 ^ l dvd a" and "\<not> 2 ^ Suc l dvd a"
  shows "2 ^ l \<le> (a :: nat)" "2 ^ Suc l dvd a - 2 ^ l"
proof -
  obtain x where x: "a = 2 ^ l * x" using assms(1) by blast
  then have "odd x" using assms(2) by auto
  then obtain y where y: "x = 2 * y + 1" by (blast elim: oddE)
  have "a = 2 ^ Suc l * y + 2 ^ l" using x y by simp
  then show "2 ^ l \<le> a" "2 ^ Suc l dvd a - 2 ^ l" by simp_all
qed

lemma buddy_parent:
  assumes "2 ^ l dvd a"
  shows "2 ^ Suc l dvd parent l a" "2 ^ l dvd mate l a" "mate l a \<noteq> a" "mate l (mate l a) = a"
    "a = parent l a \<and> mate l a = a + 2 ^ l \<or> mate l a = parent l a \<and> a = mate l a + 2 ^ l"
    "parent l (mate l a) = parent l a" "min a (mate l a) = parent l a"
proof -
  have pos: "(0 :: nat) < 2 ^ l" by simp
  have half: "(2 :: nat) ^ l dvd 2 ^ Suc l" by simp
  have "2 ^ Suc l dvd parent l a \<and> 2 ^ l dvd mate l a \<and> mate l a \<noteq> a \<and> mate l (mate l a) = a \<and>
    (a = parent l a \<and> mate l a = a + 2 ^ l \<or> mate l a = parent l a \<and> a = mate l a + 2 ^ l) \<and>
    parent l (mate l a) = parent l a"
  proof (cases "2 ^ Suc l dvd a")
    case True
    have "\<not> 2 ^ Suc l dvd a + 2 ^ l"
    proof
      assume "2 ^ Suc l dvd a + 2 ^ l"
      then have "(2 :: nat) ^ Suc l dvd 2 ^ l" using True by (simp add: dvd_add_right_iff)
      then show False by (auto dest!: dvd_imp_le)
    qed
    then show ?thesis using True assms pos by (simp add: mate_def parent_def)
  next
    case False
    note o = odd_multiple [OF assms False]
    have "2 ^ l dvd a - 2 ^ l" using o(2) half dvd_trans by blast
    moreover have "a - 2 ^ l \<noteq> a" using o(1) pos by linarith
    ultimately show ?thesis using False o by (simp add: mate_def parent_def)
  qed
  then show "2 ^ Suc l dvd parent l a" "2 ^ l dvd mate l a" "mate l a \<noteq> a" "mate l (mate l a) = a"
    "a = parent l a \<and> mate l a = a + 2 ^ l \<or> mate l a = parent l a \<and> a = mate l a + 2 ^ l"
    "parent l (mate l a) = parent l a" by simp_all
  then show "min a (mate l a) = parent l a" by linarith
qed

lemma block_parent:
  assumes "2 ^ l dvd a"
  shows "block (parent l a) (Suc l) = block a l \<union> block (mate l a) l"
proof -
  from buddy_parent(5) [OF assms] consider "a = parent l a" "mate l a = a + 2 ^ l" | "mate l a = parent l a" "a = mate l a + 2 ^ l"
    by blast
  then show ?thesis
  proof cases
    case 1
    then show ?thesis using block_halves(1) [of a l] by simp
  next
    case 2
    then show ?thesis using block_halves(1) [of "mate l a" l] by (simp add: Un_commute)
  qed
qed

text \<open>A tiling without a pair of buddies that covers an aligned block has no smaller block in it.\<close>

lemma coalesced_inside:
  assumes t: "tiles lo hi B" and c: "coalesced B" and y: "2 ^ m dvd y" "block y m \<subseteq> covered B"
    and a: "B a = Some l" "block a l \<subseteq> block y m"
  shows "m \<le> l"
proof (rule ccontr)
  assume "\<not> m \<le> l"
  let ?S = "\<lambda>l. \<exists>a. B a = Some l \<and> block a l \<subseteq> block y m \<and> l < m"
  have "?S l" using a \<open>\<not> m \<le> l\<close> by auto
  then have S: "?S (LEAST l. ?S l)" by (rule LeastI)
  define n where "n = (LEAST l. ?S l)"
  obtain b where b: "B b = Some n" "block b n \<subseteq> block y m" "n < m" using S unfolding n_def by blast
  have least: "n \<le> k" if "B x = Some k" "block x k \<subseteq> block y m" "k < m" for x k
    unfolding n_def by (rule Least_le) (use that in blast)
  have al: "2 ^ n dvd b" using tilesD(1) [OF t b(1)] .
  note bp = buddy_parent [OF al] and P = block_parent [OF al]
  have bP: "b \<in> block (parent n b) (Suc n)" using P block_start by blast
  have "block (parent n b) (Suc n) \<subseteq> block y m"
    by (rule aligned_nested [OF bp(1) y(1) _ bP]) (use b(2,3) in auto)
  then have j: "block (mate n b) n \<subseteq> block y m" using P by blast
  then have "mate n b \<in> covered B" using y(2) block_start by blast
  then obtain x k where x: "B x = Some k" "mate n b \<in> block x k" unfolding covered_def by blast
  have alx: "2 ^ k dvd x" using tilesD(1) [OF t x(1)] .
  show False
  proof (cases k n rule: linorder_cases)
    case less
    have "block x k \<subseteq> block (mate n b) n"
      by (rule aligned_nested [OF alx bp(2) _ x(2)]) (use less in auto)
    then show False using least [OF x(1)] j less b(3) by auto
  next
    case equal
    then have "x = mate n b" using aligned_same [OF alx] bp(2) x(2) block_start by blast
    then show False using c b(1) x(1) equal by (simp add: coalesced_def)
  next
    case greater
    have "block (parent n b) (Suc n) \<subseteq> block x k"
      by (rule aligned_nested [OF bp(1) alx _ _ x(2)]) (use greater P in auto)
    then have "b \<in> block x k" using bP by blast
    then have "x = b \<and> k = n" by (rule tiles_same [OF t x(1) b(1) _ block_start])
    then show False using greater by simp
  qed
qed

lemma coalesced_unique:
  assumes B: "tiles lo hi B" "coalesced B" and C: "tiles lo' hi' C" "coalesced C" and same: "covered B = covered C"
  shows "B = C"
proof -
  have le: "C a = Some l" if B: "tiles lo hi B" "coalesced B" and C: "tiles lo' hi' C" "coalesced C"
    and same: "covered B = covered C" and a: "B a = Some l" for B C :: tiling and lo hi lo' hi' a l
  proof -
    have "a \<in> covered C" using covered_block [of B, OF a] block_start same by blast
    then obtain b m where b: "C b = Some m" "a \<in> block b m" unfolding covered_def by blast
    have al: "2 ^ l dvd a" "2 ^ m dvd b" using tilesD(1) [OF B(1) a] tilesD(1) [OF C(1) b(1)] by simp_all
    have cov: "block a l \<subseteq> covered C" "block b m \<subseteq> covered B"
      using covered_block [of B, OF a] covered_block [of C, OF b(1)] same by simp_all
    have "l = m"
    proof (rule linorder_cases [of l m])
      assume lt: "l < m"
      have "block a l \<subseteq> block b m" by (rule aligned_nested [OF al _ _ b(2)]) (use lt in auto)
      then show ?thesis using coalesced_inside [OF B al(2) cov(2) a] lt by simp
    next
      assume lt: "m < l"
      have "block b m \<subseteq> block a l" by (rule aligned_nested [OF al(2,1) _ b(2)]) (use lt in auto)
      then show ?thesis using coalesced_inside [OF C al(1) cov(1) b(1)] lt by simp
    qed simp
    moreover have "a = b" using aligned_same [of l a b a] al b(2) calculation by simp
    ultimately show ?thesis using b(1) by simp
  qed
  have "B a = Some l \<longleftrightarrow> C a = Some l" for a l using le [OF B C same] le [OF C B same [symmetric]] by blast
  then show ?thesis by (intro ext) (metis not_Some_eq)
qed

end
