(* ===== verification/Page.thy ===== *)
theory Page
  imports PageBits Buddy
begin

text \<open>
  The allocator of page blocks, \<^verbatim>\<open>components/lwp/page.c\<close>: a buddy system over an array of page descriptors.  A
  descriptor is named by its index in the array; its field \<open>size_bits\<close> is the level of the free block that starts
  at the page, or 64 when no free block starts there.  Addresses are machine words.  \<open>None\<close> is a halt by
  \<^verbatim>\<open>RT_ASSERT\<close>, an access out of the bounds of \<^verbatim>\<open>page_list\<close> or through a null pointer, and undefined
  arithmetic: an \<^verbatim>\<open>int\<close> shifted or counted out of its range, a difference with a null pointer.
\<close>

subsection \<open>Operations\<close>

definition ARCH_ADDRESS_WIDTH_BITS :: nat where "ARCH_ADDRESS_WIDTH_BITS = 64"
definition ARCH_PAGE_LIST_SIZE :: nat where "ARCH_PAGE_LIST_SIZE = 52"

lemmas page_consts = ARCH_ADDRESS_WIDTH_BITS_def ARCH_PAGE_LIST_SIZE_def ARCH_PAGE_SHIFT_def

record page =
  pg_next :: "nat option"
  pg_pre :: "nat option"
  size_bits :: nat
  ref_cnt :: int

record page_store =
  pages :: "nat \<Rightarrow> page"
  page_start :: u64
  page_addr :: u64
  page_nr :: nat
  used_page_nr :: u64
  used_page_nr_peak :: u64
  page_list :: "nat \<Rightarrow> nat option"

definition upd_page :: "nat \<Rightarrow> (page \<Rightarrow> page) \<Rightarrow> page_store \<Rightarrow> page_store" where
  "upd_page p f s = s\<lparr>pages := (pages s)(p := f (pages s p))\<rparr>"

definition addr_to_page :: "u64 \<Rightarrow> page_store \<Rightarrow> nat option" where
  "addr_to_page addr s =
     (if addr < page_addr s then None
      else let off = drop_bit ARCH_PAGE_SHIFT (addr - page_addr s)
           in if page_nr s \<le> unat off then None else Some (unat off))"

definition page_to_addr :: "nat option \<Rightarrow> page_store \<Rightarrow> u64" where
  "page_to_addr p s = (case p of None \<Rightarrow> 0 | Some i \<Rightarrow> page_addr s + push_bit ARCH_PAGE_SHIFT (of_nat i))"

definition buddy_get :: "nat \<Rightarrow> nat \<Rightarrow> page_store \<Rightarrow> nat option" where
  "buddy_get p sb s =
     (let addr = page_to_addr (Some p) s;
          addr = addr XOR push_bit (sb + ARCH_PAGE_SHIFT) 1
      in addr_to_page addr s)"

definition page_remove :: "nat \<Rightarrow> nat \<Rightarrow> page_store \<Rightarrow> page_store option" where
  "page_remove p sb s = do {
     s \<leftarrow> (case pg_pre (pages s p) of
            Some q \<Rightarrow> Some (upd_page q (\<lambda>x. x\<lparr>pg_next := pg_next (pages s p)\<rparr>) s)
          | None \<Rightarrow> do {
              rt_assert (sb < ARCH_PAGE_LIST_SIZE);
              Some (s\<lparr>page_list := (page_list s)(sb := pg_next (pages s p))\<rparr>)
            });
     let s = (case pg_next (pages s p) of
            Some q \<Rightarrow> upd_page q (\<lambda>x. x\<lparr>pg_pre := pg_pre (pages s p)\<rparr>) s
          | None \<Rightarrow> s);
     Some (upd_page p (\<lambda>x. x\<lparr>size_bits := ARCH_ADDRESS_WIDTH_BITS\<rparr>) s)
   }"

definition page_insert :: "nat \<Rightarrow> nat \<Rightarrow> page_store \<Rightarrow> page_store option" where
  "page_insert p sb s = do {
     rt_assert (sb < ARCH_PAGE_LIST_SIZE);
     let s = upd_page p (\<lambda>x. x\<lparr>pg_next := page_list s sb\<rparr>) s;
     let s = (case pg_next (pages s p) of
            Some q \<Rightarrow> upd_page q (\<lambda>x. x\<lparr>pg_pre := Some p\<rparr>) s
          | None \<Rightarrow> s);
     let s = upd_page p (\<lambda>x. x\<lparr>pg_pre := None\<rparr>) s;
     let s = s\<lparr>page_list := (page_list s)(sb := Some p)\<rparr>;
     Some (upd_page p (\<lambda>x. x\<lparr>size_bits := sb\<rparr>) s)
   }"

text \<open>The head of the group of a page, by index: \<open>Some None\<close> when the index is out of range.\<close>

definition page_head :: "nat option \<Rightarrow> nat \<Rightarrow> page_store \<Rightarrow> nat option option" where
  "page_head p sb s = do {
     p \<leftarrow> p;
     let idx = sint (of_nat p :: 32 word);
     if idx < 0 \<or> int (page_nr s) \<le> idx then Some None
     else do {
       rt_assert (sb < 64);
       Some (Some (unat ((of_nat (nat idx) :: u64) AND NOT (push_bit sb 1 - 1))))
     }
   }"

definition pages_ref_inc :: "nat option \<Rightarrow> nat \<Rightarrow> page_store \<Rightarrow> page_store option" where
  "pages_ref_inc p sb s = do {
     r \<leftarrow> page_head p sb s;
     case r of
       None \<Rightarrow> Some s
     | Some h \<Rightarrow> do {
         rt_assert (ref_cnt (pages s h) < 2 ^ 31 - 1);
         Some (upd_page h (\<lambda>x. x\<lparr>ref_cnt := ref_cnt x + 1\<rparr>) s)
       }
   }"

definition pages_ref_get :: "nat option \<Rightarrow> nat \<Rightarrow> page_store \<Rightarrow> int option" where
  "pages_ref_get p sb s = do {
     r \<leftarrow> page_head p sb s;
     Some (case r of None \<Rightarrow> 0 | Some h \<Rightarrow> ref_cnt (pages s h))
   }"

text \<open>The loop of \<^verbatim>\<open>_pages_free\<close> that merges a block with its free buddies.\<close>

function free_merge :: "nat \<Rightarrow> nat \<Rightarrow> page_store \<Rightarrow> (nat \<times> nat \<times> page_store) option" where
  "free_merge p level s =
     (if level < ARCH_PAGE_LIST_SIZE
      then case buddy_get p level s of
             None \<Rightarrow> Some (p, level, s)
           | Some buddy \<Rightarrow>
               if size_bits (pages s buddy) = level
               then do {
                 s \<leftarrow> page_remove buddy level s;
                 free_merge (if p < buddy then p else buddy) (level + 1) s
               }
               else Some (p, level, s)
      else Some (p, level, s))"
  by pat_completeness auto
termination by (relation "measure (\<lambda>(_, level, _). ARCH_PAGE_LIST_SIZE - level)") auto

definition pages_free :: "nat \<Rightarrow> nat \<Rightarrow> page_store \<Rightarrow> (int \<times> page_store) option" where
  "pages_free p sb s = do {
     rt_assert (0 < ref_cnt (pages s p));
     rt_assert (size_bits (pages s p) = ARCH_ADDRESS_WIDTH_BITS);
     let s = upd_page p (\<lambda>x. x\<lparr>ref_cnt := ref_cnt x - 1\<rparr>) s;
     if ref_cnt (pages s p) \<noteq> 0 then Some (0, s)
     else do {
       (p, level, s) \<leftarrow> free_merge p sb s;
       s \<leftarrow> page_insert p level s;
       rt_assert (sb < 31);
       Some (1, s\<lparr>used_page_nr := used_page_nr s - push_bit sb 1\<rparr>)
     }
   }"

function find_level :: "nat \<Rightarrow> page_store \<Rightarrow> nat" where
  "find_level level s =
     (if level < ARCH_PAGE_LIST_SIZE
      then if page_list s level \<noteq> None then level else find_level (level + 1) s
      else level)"
  by pat_completeness auto
termination by (relation "measure (\<lambda>(level, _). ARCH_PAGE_LIST_SIZE - level)") auto

function alloc_split :: "nat \<Rightarrow> nat \<Rightarrow> nat \<Rightarrow> page_store \<Rightarrow> (nat \<times> page_store) option" where
  "alloc_split p level sb s =
     (if sb < level
      then do {
        s \<leftarrow> page_insert p (level - 1) s;
        p \<leftarrow> buddy_get p (level - 1) s;
        alloc_split p (level - 1) sb s
      }
      else Some (p, s))"
  by pat_completeness auto
termination by (relation "measure (\<lambda>(_, level, _, _). level)") auto

definition pages_take :: "nat \<Rightarrow> page_store \<Rightarrow> (nat option \<times> page_store) option" where
  "pages_take sb s = do {
     rt_assert (sb < ARCH_PAGE_LIST_SIZE);
     case page_list s sb of
       Some p \<Rightarrow> do { s \<leftarrow> page_remove p sb s; Some (Some p, s) }
     | None \<Rightarrow> do {
         let level = find_level (sb + 1) s;
         if level = ARCH_PAGE_LIST_SIZE then Some (None, s)
         else do {
           p \<leftarrow> page_list s level;
           s \<leftarrow> page_remove p level s;
           (p, s) \<leftarrow> alloc_split p level sb s;
           Some (Some p, s)
         }
       }
   }"

definition pages_alloc :: "nat \<Rightarrow> page_store \<Rightarrow> (nat option \<times> page_store) option" where
  "pages_alloc sb s = do {
     (r, s) \<leftarrow> pages_take sb s;
     case r of
       None \<Rightarrow> Some (None, s)
     | Some p \<Rightarrow> do {
         let s = upd_page p (\<lambda>x. x\<lparr>size_bits := ARCH_ADDRESS_WIDTH_BITS, ref_cnt := 1\<rparr>) s;
         rt_assert (sb < 31);
         let s = s\<lparr>used_page_nr := used_page_nr s + push_bit sb 1\<rparr>;
         let s = (if used_page_nr_peak s < used_page_nr s then s\<lparr>used_page_nr_peak := used_page_nr s\<rparr> else s);
         Some (Some p, s)
       }
   }"

definition rt_page_ref_get :: "u64 \<Rightarrow> nat \<Rightarrow> page_store \<Rightarrow> int option" where
  "rt_page_ref_get addr sb s = pages_ref_get (addr_to_page addr s) sb s"

definition rt_page_ref_inc :: "u64 \<Rightarrow> nat \<Rightarrow> page_store \<Rightarrow> page_store option" where
  "rt_page_ref_inc addr sb s = pages_ref_inc (addr_to_page addr s) sb s"

definition rt_pages_alloc :: "nat \<Rightarrow> page_store \<Rightarrow> (u64 \<times> page_store) option" where
  "rt_pages_alloc sb s = do {
     (p, s) \<leftarrow> pages_alloc sb s;
     Some (page_to_addr p s, s)
   }"

definition rt_pages_free :: "u64 \<Rightarrow> nat \<Rightarrow> page_store \<Rightarrow> (int \<times> page_store) option" where
  "rt_pages_free addr sb s =
     (case addr_to_page addr s of
        None \<Rightarrow> Some (0, s)
      | Some p \<Rightarrow> pages_free p sb s)"

text \<open>The number of free pages: the two loops of \<^verbatim>\<open>rt_page_get_info\<close>.\<close>

partial_function (option) info_walk :: "nat option \<Rightarrow> nat \<Rightarrow> u64 \<Rightarrow> page_store \<Rightarrow> u64 option" where
  "info_walk p i total_free s =
     (case p of
        None \<Rightarrow> Some total_free
      | Some q \<Rightarrow> info_walk (pg_next (pages s q)) i (total_free + push_bit i 1) s)"

fun info_lists :: "nat list \<Rightarrow> u64 \<Rightarrow> page_store \<Rightarrow> u64 option" where
  "info_lists [] total_free s = Some total_free"
| "info_lists (i # is) total_free s = do {
     total_free \<leftarrow> info_walk (page_list s i) i total_free s;
     info_lists is total_free s
   }"

definition rt_page_get_info :: "page_store \<Rightarrow> (nat \<times> u64) option" where
  "rt_page_get_info s = do {
     total_free \<leftarrow> info_lists [0..<ARCH_PAGE_LIST_SIZE] 0 s;
     Some (page_nr s, total_free)
   }"

text \<open>The loop of \<^verbatim>\<open>rt_page_init\<close> that puts the pages on the free lists.  A block smaller than a page
  would be put on a list out of bounds.\<close>

partial_function (option) page_init_loop :: "u64 \<Rightarrow> u64 \<Rightarrow> page_store \<Rightarrow> page_store option" where
  "page_init_loop start stop s =
     (if start = stop then Some s
      else do {
        let sb = int ARCH_ADDRESS_WIDTH_BITS - 1 - rt_hw_clz (stop - start);
        let align_bits = rt_hw_ctz start;
        let sb = (if align_bits < sb then align_bits else sb);
        p \<leftarrow> addr_to_page start s;
        let s = upd_page p (\<lambda>x. x\<lparr>size_bits := ARCH_ADDRESS_WIDTH_BITS, ref_cnt := 1\<rparr>) s;
        rt_assert (int ARCH_PAGE_SHIFT \<le> sb);
        (_, s) \<leftarrow> pages_free p (nat (sb - int ARCH_PAGE_SHIFT)) s;
        page_init_loop (start + push_bit (nat sb) 1) stop s
      })"

definition sizeof_page :: nat where "sizeof_page = 24"

definition rt_page_init :: "u64 \<Rightarrow> u64 \<Rightarrow> page_store \<Rightarrow> page_store option" where
  "rt_page_init start stop s = do {
     let start = start + 4095;
     let start = start AND NOT 4095;
     let stop = stop AND NOT 4095;
     let nr = int (4096 div sizeof_page);
     let total = sint (ucast (drop_bit ARCH_PAGE_SHIFT (stop - start)) :: 32 word);
     rt_assert (total + nr < 2 ^ 31);
     let mnr = (total + nr) div (nr + 1);
     rt_assert (mnr < total);
     rt_assert (mnr * 4096 < 2 ^ 31);
     let s = s\<lparr>page_start := start\<rparr>;
     let start = start + word_of_int (mnr * 4096);
     let s = s\<lparr>page_addr := start, page_nr := unat (drop_bit ARCH_PAGE_SHIFT (stop - start))\<rparr>;
     let s = s\<lparr>pages := (\<lambda>i. if i < page_nr s
        then \<lparr>pg_next = None, pg_pre = None, size_bits = ARCH_ADDRESS_WIDTH_BITS, ref_cnt = 0\<rparr> else pages s i)\<rparr>;
     let s = s\<lparr>page_list := (\<lambda>i. if i < ARCH_PAGE_LIST_SIZE then None else page_list s i)\<rparr>;
     s \<leftarrow> page_init_loop start stop s;
     Some (s\<lparr>used_page_nr := 0, used_page_nr_peak := 0\<rparr>)
   }"

declare free_merge.simps [simp del] find_level.simps [simp del] alloc_split.simps [simp del]

subsection \<open>The free lists\<close>

text \<open>A segment of a doubly linked list: from a pointer with a given predecessor to a following pointer.\<close>

fun dseg :: "(nat \<Rightarrow> page) \<Rightarrow> nat option \<Rightarrow> nat option \<Rightarrow> nat list \<Rightarrow> nat option \<Rightarrow> bool" where
  "dseg P pre h [] q \<longleftrightarrow> h = q"
| "dseg P pre h (x # xs) q \<longleftrightarrow> h = Some x \<and> pg_pre (P x) = pre \<and> dseg P (Some x) (pg_next (P x)) xs q"

fun last_of :: "nat option \<Rightarrow> nat list \<Rightarrow> nat option" where
  "last_of pre [] = pre"
| "last_of pre (x # xs) = last_of (Some x) xs"

lemma last_of_cases: "last_of pre xs = (if xs = [] then pre else Some (last xs))"
  by (induction xs arbitrary: pre) simp_all

lemma dseg_append: "dseg P pre h (xs @ ys) q \<longleftrightarrow> (\<exists>m. dseg P pre h xs m \<and> dseg P (last_of pre xs) m ys q)"
  by (induction xs arbitrary: pre h) auto

lemma dseg_cong:
  "(\<And>x. x \<in> set xs \<Longrightarrow> pg_next (Q x) = pg_next (P x) \<and> pg_pre (Q x) = pg_pre (P x)) \<Longrightarrow> dseg Q pre h xs q = dseg P pre h xs q"
  by (induction xs arbitrary: pre h) auto

lemma dseg_end:
  assumes "dseg P pre h (xs @ [x]) q" and "x \<notin> set xs" and "pg_pre (Q x) = pg_pre (P x)" and "pg_next (Q x) = q'"
    and "\<And>y. y \<in> set xs \<Longrightarrow> pg_next (Q y) = pg_next (P y) \<and> pg_pre (Q y) = pg_pre (P y)"
  shows "dseg Q pre h (xs @ [x]) q'"
  using assms dseg_cong [of xs Q P] by (auto simp: dseg_append)

lemma dseg_head:
  assumes "dseg P pre h xs q" and "distinct xs"
    and "\<And>y. y \<in> set xs \<Longrightarrow> pg_next (Q y) = pg_next (P y)"
    and "\<And>y. y \<in> set (tl xs) \<Longrightarrow> pg_pre (Q y) = pg_pre (P y)" and "xs \<noteq> [] \<Longrightarrow> pg_pre (Q (hd xs)) = pre'"
  shows "dseg Q pre' h xs q"
proof (cases xs)
  case (Cons x ys)
  then show ?thesis using assms dseg_cong [of ys Q P] by simp
qed (use assms in simp)

text \<open>What an operation on the lists may change besides the links: the level recorded for one page.\<close>

definition relevels :: "nat \<Rightarrow> nat \<Rightarrow> page_store \<Rightarrow> page_store \<Rightarrow> bool" where
  "relevels p l s s' \<longleftrightarrow>
     (\<forall>i. size_bits (pages s' i) = (if i = p then l else size_bits (pages s i)) \<and> ref_cnt (pages s' i) = ref_cnt (pages s i)) \<and>
     page_addr s' = page_addr s \<and> page_nr s' = page_nr s \<and> page_start s' = page_start s \<and>
     used_page_nr s' = used_page_nr s \<and> used_page_nr_peak s' = used_page_nr_peak s"

definition list_ok :: "page_store \<Rightarrow> nat \<Rightarrow> nat list \<Rightarrow> bool" where
  "list_ok s l xs \<longleftrightarrow> dseg (pages s) None (page_list s l) xs None \<and> distinct xs \<and>
     set xs = {i. i < page_nr s \<and> size_bits (pages s i) = l}"

definition lists_ok :: "page_store \<Rightarrow> bool" where
  "lists_ok s \<longleftrightarrow> (\<forall>l<ARCH_PAGE_LIST_SIZE. \<exists>xs. list_ok s l xs)"

lemma page_remove_list:
  assumes xs: "list_ok s l (ys @ p # zs)" and l: "l < ARCH_PAGE_LIST_SIZE"
  shows "\<exists>s'. page_remove p l s = Some s' \<and> relevels p ARCH_ADDRESS_WIDTH_BITS s s' \<and> list_ok s' l (ys @ zs) \<and>
    (\<forall>m. m \<noteq> l \<longrightarrow> page_list s' m = page_list s m) \<and>
    (\<forall>i. i \<notin> set (ys @ p # zs) \<longrightarrow> pg_next (pages s' i) = pg_next (pages s i) \<and> pg_pre (pages s' i) = pg_pre (pages s i))"
proof -
  let ?P = "pages s"
  have d: "dseg ?P None (page_list s l) (ys @ p # zs) None" "distinct (ys @ p # zs)"
    and set: "set (ys @ p # zs) = {i. i < page_nr s \<and> size_bits (?P i) = l}" using xs by (simp_all add: list_ok_def)
  have seg: "dseg ?P None (page_list s l) ys (Some p)" "pg_pre (?P p) = last_of None ys" "dseg ?P (Some p) (pg_next (?P p)) zs None"
    using d(1) by (auto simp: dseg_append)
  have next_zs: "pg_next (?P p) = (if zs = [] then None else Some (hd zs))" using seg(3) by (cases zs) simp_all
  have pre_ys: "pg_pre (?P p) = (if ys = [] then None else Some (last ys))" using seg(2) by (simp add: last_of_cases)
  let ?Q = "\<lambda>i. (?P i)\<lparr>pg_next := if ys \<noteq> [] \<and> i = last ys then pg_next (?P p) else pg_next (?P i),
    pg_pre := if zs \<noteq> [] \<and> i = hd zs then pg_pre (?P p) else pg_pre (?P i),
    size_bits := if i = p then ARCH_ADDRESS_WIDTH_BITS else size_bits (?P i)\<rparr>"
  let ?s = "s\<lparr>pages := ?Q, page_list := if ys = [] then (page_list s)(l := pg_next (?P p)) else page_list s\<rparr>"
  have p: "ys \<noteq> [] \<Longrightarrow> p \<noteq> last ys" "zs \<noteq> [] \<Longrightarrow> p \<noteq> hd zs" "\<lbrakk>ys \<noteq> []; zs \<noteq> []\<rbrakk> \<Longrightarrow> last ys \<noteq> hd zs"
    using d(2) by (auto dest: last_in_set hd_in_set)
  have "page_remove p l s = Some ?s"
    using l p pre_ys next_zs unfolding page_remove_def
    by (cases "ys = []"; cases "zs = []") (auto simp: upd_page_def rt_assert_def fun_eq_iff)
  moreover have "dseg ?Q None (page_list ?s l) (ys @ zs) None"
  proof (cases ys rule: rev_cases)
    case Nil
    have "dseg ?Q None (pg_next (?P p)) zs None"
      by (rule dseg_head [OF seg(3)]) (use d(2) Nil pre_ys in \<open>auto simp: neq_Nil_conv\<close>)
    then show ?thesis using Nil by simp
  next
    case (snoc ws w)
    have "dseg ?Q (last_of None ys) (pg_next (?P p)) zs None"
      by (rule dseg_head [OF seg(3)]) (use d(2) snoc pre_ys in \<open>auto simp: neq_Nil_conv last_of_cases\<close>)
    moreover have "dseg ?Q None (page_list s l) (ws @ [w]) (pg_next (?P p))"
      by (rule dseg_end [of ?P _ _ _ _ "Some p"]) (use seg(1) d(2) snoc in auto)
    then have "dseg ?Q None (page_list s l) ys (pg_next (?P p))" using snoc by simp
    ultimately have "dseg ?Q None (page_list s l) (ys @ zs) None" unfolding dseg_append [of _ _ _ ys] by blast
    then show ?thesis using snoc by simp
  qed
  moreover have "set (ys @ zs) = {i. i < page_nr s \<and> size_bits (?Q i) = l}"
    using set d(2) l by (auto simp: page_consts)
  moreover have "relevels p ARCH_ADDRESS_WIDTH_BITS s ?s" by (simp add: relevels_def)
  moreover have "pg_next (pages ?s i) = pg_next (?P i) \<and> pg_pre (pages ?s i) = pg_pre (?P i)" if "i \<notin> set (ys @ p # zs)" for i
    using that by (auto dest: last_in_set hd_in_set)
  moreover have "page_list ?s m = page_list s m" if "m \<noteq> l" for m using that by simp
  moreover have "list_ok ?s l (ys @ zs)" unfolding list_ok_def
    using calculation(2,3) d(2) by simp
  ultimately show ?thesis by blast
qed

lemma page_insert_list:
  assumes xs: "list_ok s l xs" and p: "p < page_nr s" "size_bits (pages s p) \<noteq> l" and l: "l < ARCH_PAGE_LIST_SIZE"
  shows "\<exists>s'. page_insert p l s = Some s' \<and> relevels p l s s' \<and> list_ok s' l (p # xs) \<and>
    (\<forall>m. m \<noteq> l \<longrightarrow> page_list s' m = page_list s m) \<and>
    (\<forall>i. i \<notin> set (p # xs) \<longrightarrow> pg_next (pages s' i) = pg_next (pages s i) \<and> pg_pre (pages s' i) = pg_pre (pages s i))"
proof -
  let ?P = "pages s"
  have d: "dseg ?P None (page_list s l) xs None" "distinct xs"
    and set: "set xs = {i. i < page_nr s \<and> size_bits (?P i) = l}" using xs by (simp_all add: list_ok_def)
  have pxs: "p \<notin> set xs" using set p by simp
  have head: "page_list s l = (if xs = [] then None else Some (hd xs))" using d(1) by (cases xs) simp_all
  let ?Q = "\<lambda>i. (?P i)\<lparr>pg_next := if i = p then page_list s l else pg_next (?P i),
    pg_pre := if i = p then None else if xs \<noteq> [] \<and> i = hd xs then Some p else pg_pre (?P i),
    size_bits := if i = p then l else size_bits (?P i)\<rparr>"
  let ?s = "s\<lparr>pages := ?Q, page_list := (page_list s)(l := Some p)\<rparr>"
  have "page_insert p l s = Some ?s"
    using l pxs head unfolding page_insert_def
    by (cases "xs = []") (auto simp: upd_page_def rt_assert_def fun_eq_iff dest: hd_in_set)
  moreover have seg: "dseg ?Q (Some p) (page_list s l) xs None"
    by (rule dseg_head [OF d]) (use pxs d(2) in \<open>cases xs; auto\<close>)+
  moreover have "relevels p l s ?s" by (simp add: relevels_def)
  moreover have "set (p # xs) = {i. i < page_nr s \<and> size_bits (?Q i) = l}" using set p by auto
  moreover have "list_ok ?s l (p # xs)" unfolding list_ok_def using seg calculation(4) d(2) pxs by simp
  moreover have "pg_next (pages ?s i) = pg_next (?P i) \<and> pg_pre (pages ?s i) = pg_pre (?P i)" if "i \<notin> set (p # xs)" for i
    using that by (auto dest: hd_in_set)
  moreover have "page_list ?s m = page_list s m" if "m \<noteq> l" for m using that by simp
  ultimately show ?thesis by blast
qed

lemma list_ok_other:
  assumes "list_ok s m ys" and "relevels p k s s'" and "page_list s' m = page_list s m"
    and "size_bits (pages s p) \<noteq> m" and "k \<noteq> m"
    and "\<And>i. i \<in> set ys \<Longrightarrow> pg_next (pages s' i) = pg_next (pages s i) \<and> pg_pre (pages s' i) = pg_pre (pages s i)"
  shows "list_ok s' m ys"
proof -
  have "set ys = {i. i < page_nr s' \<and> size_bits (pages s' i) = m}"
    using assms(1,2,4,5) by (auto simp: list_ok_def relevels_def)
  then show ?thesis using assms(1,3) dseg_cong [of ys "pages s'" "pages s", OF assms(6)] by (simp add: list_ok_def)
qed

lemma page_remove_ok:
  assumes ok: "lists_ok s" and p: "p < page_nr s" "size_bits (pages s p) = l" and l: "l < ARCH_PAGE_LIST_SIZE"
  shows "\<exists>s'. page_remove p l s = Some s' \<and> relevels p ARCH_ADDRESS_WIDTH_BITS s s' \<and> lists_ok s'"
proof -
  obtain xs where xs: "list_ok s l xs" using ok l by (auto simp: lists_ok_def)
  have "p \<in> set xs" using xs p by (simp add: list_ok_def)
  then obtain ys zs where yz: "xs = ys @ p # zs" by (meson split_list)
  from page_remove_list [OF xs [unfolded yz] l] obtain s' where
    s': "page_remove p l s = Some s'" "relevels p ARCH_ADDRESS_WIDTH_BITS s s'" "list_ok s' l (ys @ zs)"
      "\<And>m. m \<noteq> l \<Longrightarrow> page_list s' m = page_list s m"
      "\<And>i. i \<notin> set xs \<Longrightarrow> pg_next (pages s' i) = pg_next (pages s i) \<and> pg_pre (pages s' i) = pg_pre (pages s i)"
    unfolding yz by blast
  have "\<exists>ys. list_ok s' m ys" if m: "m < ARCH_PAGE_LIST_SIZE" for m
  proof (cases "m = l")
    case False
    obtain ws where ws: "list_ok s m ws" using ok m by (auto simp: lists_ok_def)
    have "i \<notin> set xs" if "i \<in> set ws" for i using that xs ws False by (auto simp: list_ok_def)
    then have "list_ok s' m ws"
      using False m p(2) by (intro list_ok_other [OF ws s'(2) s'(4)] s'(5)) (auto simp: page_consts)
    then show ?thesis by blast
  qed (use s'(3) in auto)
  then show ?thesis using s'(1,2) by (auto simp: lists_ok_def)
qed

lemma page_insert_ok:
  assumes ok: "lists_ok s" and p: "p < page_nr s" "size_bits (pages s p) = ARCH_ADDRESS_WIDTH_BITS" and l: "l < ARCH_PAGE_LIST_SIZE"
  shows "\<exists>s'. page_insert p l s = Some s' \<and> relevels p l s s' \<and> lists_ok s'"
proof -
  obtain xs where xs: "list_ok s l xs" using ok l by (auto simp: lists_ok_def)
  have "size_bits (pages s p) \<noteq> l" using p(2) l by (simp add: page_consts)
  from page_insert_list [OF xs p(1) this l] obtain s' where
    s': "page_insert p l s = Some s'" "relevels p l s s'" "list_ok s' l (p # xs)"
      "\<And>m. m \<noteq> l \<Longrightarrow> page_list s' m = page_list s m"
      "\<And>i. i \<notin> set (p # xs) \<Longrightarrow> pg_next (pages s' i) = pg_next (pages s i) \<and> pg_pre (pages s' i) = pg_pre (pages s i)"
    by blast
  have "\<exists>ys. list_ok s' m ys" if m: "m < ARCH_PAGE_LIST_SIZE" for m
  proof (cases "m = l")
    case False
    obtain ws where ws: "list_ok s m ws" using ok m by (auto simp: lists_ok_def)
    have "i \<notin> set (p # xs)" if i: "i \<in> set ws" for i
    proof -
      have "size_bits (pages s i) = m" using ws i by (simp add: list_ok_def)
      moreover have "set xs = {i. i < page_nr s \<and> size_bits (pages s i) = l}" using xs by (simp add: list_ok_def)
      moreover have "size_bits (pages s p) \<noteq> m" using p(2) m by (simp add: page_consts)
      ultimately show ?thesis using False by auto
    qed
    then have "list_ok s' m ws"
      using False m p(2) by (intro list_ok_other [OF ws s'(2) s'(4)] s'(5)) (auto simp: page_consts)
    then show ?thesis by blast
  qed (use s'(3) in auto)
  then show ?thesis using s'(1,2) by (auto simp: lists_ok_def)
qed

end
