(* ===== verification/PageSource.thy ===== *)
theory PageSource
  imports Buddy
begin

text \<open>
  The contract \<open>page_source\<close> of an allocator of page blocks, as the page allocator offers it to the shared
  memories: \<open>alloc\<close> gives an address of a block of free pages or null, and a block that has one holder can be
  freed by it.
\<close>

locale page_source =
  fixes holds_pages :: "'s \<Rightarrow> tiling \<Rightarrow> (nat \<Rightarrow> nat) \<Rightarrow> bool"
    and page_of :: "'w \<Rightarrow> nat"
    and addr_of :: "nat \<Rightarrow> 'w"
    and null :: 'w
    and levels :: nat
    and alloc :: "nat \<Rightarrow> 's \<Rightarrow> ('w \<times> 's) option"
    and release :: "'w \<Rightarrow> nat \<Rightarrow> 's \<Rightarrow> (int \<times> 's) option"
  assumes alloc_law: "holds_pages s v r \<Longrightarrow> l < levels \<Longrightarrow> \<exists>addr s'. alloc l s = Some (addr, s') \<and>
      (if addr = null then s' = s
       else addr = addr_of (page_of addr) \<and> v (page_of addr) = None \<and> block (page_of addr) l \<inter> covered v = {} \<and>
         holds_pages s' (v(page_of addr \<mapsto> l)) (r(page_of addr := 1)))"
    and release_law: "holds_pages s v r \<Longrightarrow> v (page_of addr) = Some l \<Longrightarrow> r (page_of addr) = 1 \<Longrightarrow>
      \<exists>s'. release addr l s = Some (1, s') \<and> holds_pages s' (v(page_of addr := None)) (r(page_of addr := 0))"
begin

text \<open>A client that gives a block back has the pages of before.\<close>

lemma undo:
  assumes "holds_pages s v r" and "l < levels" and "alloc l s = Some (addr, s')" and "addr \<noteq> null"
  shows "\<exists>s''. release addr l s' = Some (1, s'') \<and> holds_pages s'' v (r(page_of addr := 0))"
proof -
  from alloc_law [OF assms(1,2)] assms(3,4) have
    h: "v (page_of addr) = None" "holds_pages s' (v(page_of addr \<mapsto> l)) (r(page_of addr := 1))" by auto
  have "v(page_of addr \<mapsto> l, page_of addr := None) = v" using h(1) by auto
  then show ?thesis using release_law [OF h(2), of addr l] by simp
qed

end

end
