(* ===== verification/PageAlloc.thy ===== *)
theory PageAlloc
  imports Page PageSource
begin

text \<open>
  The invariant of the page allocator and its properties.  Pages are numbered by address, so that the free blocks and
  the blocks in use are tilings of the page numbers of the pool; the operations refine splitting and
  merging of tilings.
\<close>

subsection \<open>Addresses\<close>

definition base :: "page_store \<Rightarrow> nat" where
  "base s = unat (page_addr s) div 4096"

definition pool_ok :: "page_store \<Rightarrow> bool" where
  "pool_ok s \<longleftrightarrow> 4096 dvd unat (page_addr s) \<and> 0 < unat (page_addr s) \<and>
     unat (page_addr s) + 4096 * page_nr s < 2 ^ 64 \<and> page_nr s < 2 ^ 31"

lemma unat_small: "n < 2 ^ 64 \<Longrightarrow> unat (of_nat n :: u64) = n"
  using take_bit_nat_eq_self [of n 64] by (simp only: unsigned_of_nat) simp

lemma pool_base:
  assumes "pool_ok s"
  shows "unat (page_addr s) = 4096 * base s" "0 < base s" "4096 * (base s + page_nr s) < 2 ^ 64" "base s + page_nr s < 2 ^ 52"
proof -
  show b: "unat (page_addr s) = 4096 * base s" using assms by (simp add: pool_ok_def base_def)
  show "0 < base s" using assms b by (auto simp: pool_ok_def)
  show m: "4096 * (base s + page_nr s) < 2 ^ 64" using assms b by (simp add: pool_ok_def)
  show "base s + page_nr s < 2 ^ 52" using m by simp
qed

lemma unat_page_addr:
  assumes "pool_ok s" and "i \<le> page_nr s"
  shows "unat (page_addr s + push_bit 12 (of_nat i)) = 4096 * (base s + i)"
proof -
  have "page_addr s + push_bit 12 (of_nat i) = of_nat (unat (page_addr s)) + of_nat (4096 * i)"
    by (simp add: push_bit_eq_mult)
  also have "\<dots> = (of_nat (4096 * (base s + i)) :: u64)" unfolding pool_base(1) [OF assms(1)] by (simp add: algebra_simps)
  finally show ?thesis using unat_small [of "4096 * (base s + i)"] pool_base(3) [OF assms(1)] assms(2) by simp
qed

lemma page_to_addr_ok:
  "pool_ok s \<Longrightarrow> i < page_nr s \<Longrightarrow> unat (page_to_addr (Some i) s) = 4096 * (base s + i)"
  using unat_page_addr [of s i] by (simp add: page_to_addr_def page_consts)

lemma addr_to_page_ok:
  assumes "pool_ok s"
  shows "addr_to_page addr s =
    (if base s \<le> unat addr div 4096 \<and> unat addr div 4096 < base s + page_nr s then Some (unat addr div 4096 - base s) else None)"
proof (cases "addr < page_addr s")
  case True
  then have "unat addr < 4096 * base s" using pool_base(1) [OF assms] by (simp add: word_less_nat_alt)
  then have "unat addr div 4096 < base s" by (simp add: less_mult_imp_div_less mult.commute)
  then show ?thesis using True by (simp add: addr_to_page_def)
next
  case False
  then have le: "page_addr s \<le> addr" by simp
  then have "unat (addr - page_addr s) = unat addr - 4096 * base s"
    using pool_base(1) [OF assms] by (simp add: unat_sub)
  moreover have "unat (drop_bit 12 w) = unat w div 4096" for w :: u64
    by (simp add: drop_bit_eq_div unat_div)
  ultimately have off: "unat (drop_bit 12 (addr - page_addr s)) = unat addr div 4096 - base s" by simp
  have "4096 * base s \<le> unat addr" using le pool_base(1) [OF assms] by (simp add: word_le_nat_alt)
  then have "base s \<le> unat addr div 4096" by simp
  then show ?thesis using False off by (auto simp: addr_to_page_def page_consts)
qed

subsection \<open>Buddies of pages\<close>

lemma xor_up: "2 ^ Suc l dvd c \<Longrightarrow> c XOR 2 ^ l = (c + 2 ^ l :: nat)"
proof -
  assume "2 ^ Suc l dvd c"
  then obtain y where y: "c = 2 ^ l * (2 * y)" by (auto simp: mult.assoc mult.left_commute elim: dvdE)
  then have "\<not> bit c l" by (simp add: bit_iff_odd)
  then have "flip_bit l c = c + 2 ^ l" by (simp add: flip_bit_eq_if set_bit_eq)
  then show ?thesis by (simp add: flip_bit_def)
qed

lemma xor_mate:
  assumes "2 ^ l dvd a"
  shows "a XOR 2 ^ l = mate l a"
proof (cases "2 ^ Suc l dvd a")
  case True
  then show ?thesis using xor_up [OF True] by (simp add: mate_def)
next
  case False
  note o = odd_multiple [OF assms False]
  have "a = (a - 2 ^ l) XOR 2 ^ l" using xor_up [OF o(2)] o(1) by simp
  then have "a XOR 2 ^ l = ((a - 2 ^ l) XOR 2 ^ l) XOR 2 ^ l" by simp
  then show ?thesis using False by (simp add: mate_def xor.assoc)
qed

lemma buddy_get_ok:
  assumes ok: "pool_ok s" and i: "i < page_nr s" and l: "l < ARCH_PAGE_LIST_SIZE" and al: "2 ^ l dvd base s + i"
  shows "buddy_get i l s =
    (if base s \<le> mate l (base s + i) \<and> mate l (base s + i) < base s + page_nr s then Some (mate l (base s + i) - base s) else None)"
proof -
  let ?a = "base s + i"
  have "unat (page_to_addr (Some i) s XOR push_bit (l + 12) 1) = (4096 * ?a) XOR 2 ^ (l + 12)"
    using page_to_addr_ok [OF ok i] unat_push_one [of "l + 12"] l by (simp add: unsigned_xor_eq page_consts)
  also have "\<dots> = push_bit 12 ?a XOR push_bit 12 (2 ^ l)" by (simp add: push_bit_eq_mult power_add mult.commute)
  also have "\<dots> = push_bit 12 (?a XOR 2 ^ l)" by (simp only: push_bit_xor)
  also have "\<dots> = 4096 * mate l ?a" using xor_mate [OF al] by (simp add: push_bit_eq_mult)
  finally show ?thesis unfolding buddy_get_def Let_def page_consts addr_to_page_ok [OF ok] by simp
qed

subsection \<open>The invariant\<close>

text \<open>The free blocks by page number.\<close>

definition free_map :: "page_store \<Rightarrow> tiling" where
  "free_map s a =
     (if base s \<le> a \<and> a < base s + page_nr s \<and> size_bits (pages s (a - base s)) < ARCH_PAGE_LIST_SIZE
      then Some (size_bits (pages s (a - base s))) else None)"

text \<open>The free blocks and the blocks \<open>v\<close> in use are disjoint aligned blocks of the pool, and no two free blocks are
  buddies.\<close>

definition page_inv :: "page_store \<Rightarrow> tiling \<Rightarrow> bool" where
  "page_inv s v \<longleftrightarrow> pool_ok s \<and> lists_ok s \<and>
     (\<forall>i<page_nr s. size_bits (pages s i) < ARCH_PAGE_LIST_SIZE \<or> size_bits (pages s i) = ARCH_ADDRESS_WIDTH_BITS) \<and>
     dom (free_map s) \<inter> dom v = {} \<and> tiles (base s) (base s + page_nr s) (free_map s ++ v) \<and> coalesced (free_map s)"

definition same_pool :: "page_store \<Rightarrow> page_store \<Rightarrow> bool" where
  "same_pool s s' \<longleftrightarrow> page_addr s' = page_addr s \<and> page_nr s' = page_nr s \<and> page_start s' = page_start s \<and>
     used_page_nr s' = used_page_nr s \<and> used_page_nr_peak s' = used_page_nr_peak s \<and>
     (\<forall>i. ref_cnt (pages s' i) = ref_cnt (pages s i))"

text \<open>A block that is neither free nor in use: it is being split or merged.\<close>

definition in_hand :: "page_store \<Rightarrow> tiling \<Rightarrow> nat \<Rightarrow> nat \<Rightarrow> bool" where
  "in_hand s v p l \<longleftrightarrow> p < page_nr s \<and> v (base s + p) = None \<and> page_inv s (v(base s + p \<mapsto> l))"

lemma same_pool_refl [simp]: "same_pool s s"
  by (simp add: same_pool_def)

lemma same_pool_trans: "same_pool a b \<Longrightarrow> same_pool b c \<Longrightarrow> same_pool a c"
  by (simp add: same_pool_def)

lemma same_pool_base: "same_pool s s' \<Longrightarrow> base s' = base s \<and> page_nr s' = page_nr s"
  by (simp add: same_pool_def base_def)

lemma relevels_same: "relevels p l s s' \<Longrightarrow> same_pool s s'"
  by (simp add: relevels_def same_pool_def)

lemma page_invD:
  assumes "page_inv s v"
  shows "pool_ok s" "lists_ok s" "dom (free_map s) \<inter> dom v = {}" "tiles (base s) (base s + page_nr s) (free_map s ++ v)"
    "coalesced (free_map s)" "i < page_nr s \<Longrightarrow> size_bits (pages s i) < ARCH_PAGE_LIST_SIZE \<or> size_bits (pages s i) = ARCH_ADDRESS_WIDTH_BITS"
  using assms by (simp_all add: page_inv_def)

lemma free_map_page: "i < page_nr s \<Longrightarrow> free_map s (base s + i) =
    (if size_bits (pages s i) < ARCH_PAGE_LIST_SIZE then Some (size_bits (pages s i)) else None)"
  by (simp add: free_map_def)

lemma free_map_Some:
  "free_map s a = Some l \<longleftrightarrow> (\<exists>i<page_nr s. a = base s + i \<and> size_bits (pages s i) = l \<and> l < ARCH_PAGE_LIST_SIZE)"
proof
  assume "free_map s a = Some l"
  then show "\<exists>i<page_nr s. a = base s + i \<and> size_bits (pages s i) = l \<and> l < ARCH_PAGE_LIST_SIZE"
    by (intro exI [of _ "a - base s"]) (auto simp: free_map_def split: if_splits)
qed (auto simp: free_map_def)

lemma free_map_relevels:
  assumes "relevels p l s s'" and "p < page_nr s"
  shows "free_map s' = (free_map s)(base s + p := if l < ARCH_PAGE_LIST_SIZE then Some l else None)"
proof
  fix a
  have b: "base s' = base s" "page_nr s' = page_nr s" using same_pool_base [OF relevels_same [OF assms(1)]] by simp_all
  have "size_bits (pages s' i) = (if i = p then l else size_bits (pages s i))" for i using assms(1) by (simp add: relevels_def)
  then show "free_map s' a = ((free_map s)(base s + p := if l < ARCH_PAGE_LIST_SIZE then Some l else None)) a"
    using assms(2) unfolding free_map_def b by auto
qed

lemma held_page:
  assumes "page_inv s v" and "v (base s + p) = Some l" and "p < page_nr s"
  shows "size_bits (pages s p) = ARCH_ADDRESS_WIDTH_BITS" "free_map s (base s + p) = None" "l < 31"
    "2 ^ l dvd base s + p" "p + 2 ^ l \<le> page_nr s"
proof -
  note d = page_invD [OF assms(1)]
  have "base s + p \<notin> dom (free_map s)" using d(3) assms(2) by blast
  then show f: "free_map s (base s + p) = None" by blast
  then show "size_bits (pages s p) = ARCH_ADDRESS_WIDTH_BITS"
    using free_map_page [OF assms(3)] d(6) [OF assms(3)] by (auto split: if_splits)
  have t: "(free_map s ++ v) (base s + p) = Some l" using assms(2) by simp
  show "2 ^ l dvd base s + p" using tilesD(1) [OF d(4) t] .
  show top: "p + 2 ^ l \<le> page_nr s" using tilesD(3) [OF d(4) t] by simp
  have "(2 :: nat) ^ l < 2 ^ 31" using top d(1) by (simp add: pool_ok_def)
  then show "l < 31" by (rule power_less_imp_less_exp [rotated]) simp
qed

lemma in_handD:
  assumes "in_hand s v p l"
  shows "p < page_nr s" "v (base s + p) = None" "page_inv s (v(base s + p \<mapsto> l))" "size_bits (pages s p) = ARCH_ADDRESS_WIDTH_BITS"
    "free_map s (base s + p) = None" "l < 31" "2 ^ l dvd base s + p" "p + 2 ^ l \<le> page_nr s"
  using assms held_page [of s "v(base s + p \<mapsto> l)" p l] by (simp_all add: in_hand_def)

lemma page_invI:
  assumes "page_inv s w" and "relevels p l s s'" and "p < page_nr s" and "lists_ok s'"
    and "l < ARCH_PAGE_LIST_SIZE \<or> l = ARCH_ADDRESS_WIDTH_BITS"
    and "dom (free_map s') \<inter> dom v = {}" and "tiles (base s) (base s + page_nr s) (free_map s' ++ v)" and "coalesced (free_map s')"
  shows "page_inv s' v"
proof -
  note d = page_invD [OF assms(1)]
  have b: "base s' = base s" "page_nr s' = page_nr s" using same_pool_base [OF relevels_same [OF assms(2)]] by simp_all
  have "pool_ok s'" using d(1) assms(2) by (simp add: pool_ok_def relevels_def)
  moreover have "size_bits (pages s' i) < ARCH_PAGE_LIST_SIZE \<or> size_bits (pages s' i) = ARCH_ADDRESS_WIDTH_BITS" if "i < page_nr s'" for i
    using d(6) [of i] that assms(2,5) b by (simp add: relevels_def)
  ultimately show ?thesis unfolding page_inv_def b using assms(4,6-8) b by simp
qed

subsection \<open>Tilings without buddies\<close>

lemma coalesced_subset: "coalesced B \<Longrightarrow> coalesced (B(a := None))"
  by (simp add: coalesced_def)

lemma coalesced_upd:
  assumes "coalesced B" and "B a = None" and "2 ^ l dvd a" and "B (mate l a) \<noteq> Some l" and "\<And>b m. B b = Some m \<Longrightarrow> 2 ^ m dvd b"
  shows "coalesced (B(a \<mapsto> l))"
proof -
  have "(B(a \<mapsto> l)) (mate m b) \<noteq> Some m" if b: "(B(a \<mapsto> l)) b = Some m" for b m
  proof (cases "b = a")
    case True
    then show ?thesis using b assms(4) buddy_parent(3) [OF assms(3)] by simp
  next
    case False
    then have B: "B b = Some m" using b by simp
    then have "mate m b = a \<Longrightarrow> m = l \<Longrightarrow> False"
      using assms(4) buddy_parent(4) [OF assms(5) [OF B]] by auto
    then show ?thesis using B assms(1) by (auto simp: coalesced_def)
  qed
  then show ?thesis by (simp add: coalesced_def)
qed

subsection \<open>Merging\<close>

abbreviation all_pages :: "page_store \<Rightarrow> tiling \<Rightarrow> nat set" where
  "all_pages s v \<equiv> covered (free_map s ++ v)"

lemma free_aligned: "page_inv s v \<Longrightarrow> free_map s b = Some m \<Longrightarrow> 2 ^ m dvd b"
proof -
  assume inv: "page_inv s v" and b: "free_map s b = Some m"
  then have "b \<notin> dom v" using page_invD(3) by blast
  then have "(free_map s ++ v) b = Some m" using b by (simp add: map_add_dom_app_simps)
  then show ?thesis by (rule tilesD(1) [OF page_invD(4) [OF inv]])
qed

lemma merge_step:
  assumes h: "in_hand s v p l" and b: "buddy_get p l s = Some b" "size_bits (pages s b) = l"
  shows "\<exists>s' q. page_remove b l s = Some s' \<and> q = (if p < b then p else b) \<and> in_hand s' v q (Suc l) \<and> same_pool s s' \<and>
    all_pages s' (v(base s + q \<mapsto> Suc l)) = all_pages s (v(base s + p \<mapsto> l))"
proof -
  note d = in_handD [OF h] and i = page_invD [OF in_handD(3) [OF h]]
  let ?a = "base s + p" and ?T = "free_map s ++ v(base s + p \<mapsto> l)"
  have l: "l < ARCH_PAGE_LIST_SIZE" using d(6) by (simp add: page_consts)
  let ?m = "mate l ?a"
  have m: "base s \<le> ?m" "?m < base s + page_nr s" "b = ?m - base s"
    using b(1) unfolding buddy_get_ok [OF i(1) d(1) l d(7)] by (auto split: if_splits)
  have bm: "base s + b = ?m" and bn: "b < page_nr s" using m by simp_all
  have fm: "free_map s ?m = Some l" using free_map_page [OF bn] b(2) l bm by simp
  note bp = buddy_parent [OF d(7)]
  from page_remove_ok [OF i(2) bn b(2) l] obtain s' where
    s': "page_remove b l s = Some s'" "relevels b ARCH_ADDRESS_WIDTH_BITS s s'" "lists_ok s'" by blast
  have f': "free_map s' = (free_map s)(?m := None)" using free_map_relevels [OF s'(2) bn] bm by (simp add: page_consts)
  have vm: "v ?m = None" using i(3) fm bp(3) by (auto simp: disjoint_iff dom_def split: if_splits)
  let ?q = "if p < b then p else b"
  have q: "base s + ?q = parent l ?a" "?q < page_nr s" using bp(7) bm d(1) bn by (auto simp: min_def split: if_splits)
  have T: "?T ?a = Some l" "?T ?m = Some l" using fm vm bp(3) by (simp_all add: map_add_def)
  have par: "parent l ?a + 2 ^ l = (if ?a = parent l ?a then ?m else ?a)" "?T (parent l ?a) = Some l" "?T (parent l ?a + 2 ^ l) = Some l"
    using bp(5) T by auto
  have vq: "v (parent l ?a) = None" using bp(5) d(2) vm by auto
  have new: "?T(parent l ?a + 2 ^ l := None, parent l ?a \<mapsto> Suc l) = free_map s' ++ v(parent l ?a \<mapsto> Suc l)"
  proof
    fix x
    have "x = ?a \<or> x = ?m \<or> x \<noteq> ?a \<and> x \<noteq> ?m" by blast
    then show "(?T(parent l ?a + 2 ^ l := None, parent l ?a \<mapsto> Suc l)) x = (free_map s' ++ v(parent l ?a \<mapsto> Suc l)) x"
      unfolding f' using bp(5) d(2,5) vm by (auto simp: map_add_def split: option.split)
  qed
  have tm: "tiles (base s) (base s + page_nr s) (free_map s' ++ v(parent l ?a \<mapsto> Suc l))"
      "covered (free_map s' ++ v(parent l ?a \<mapsto> Suc l)) = covered ?T"
    unfolding new [symmetric] by (rule tiles_merge [OF i(4) par(2,3) bp(1)])+
  have "dom (free_map s') \<inter> dom (v(parent l ?a \<mapsto> Suc l)) = {}"
  proof -
    have df: "dom (free_map s') = dom (free_map s) - {?m}" using f' by simp
    have "dom (free_map s) \<inter> dom v = {}" using i(3) by auto
    moreover have "parent l ?a \<notin> dom (free_map s')" using bp(5) d(5) unfolding df by (auto simp: domIff)
    ultimately show ?thesis unfolding df by auto
  qed
  then have "page_inv s' (v(parent l ?a \<mapsto> Suc l))"
    using page_invI [OF d(3) s'(2) bn s'(3) _ _ tm(1)] coalesced_subset [OF i(5)] f' by (simp add: page_consts)
  then have "in_hand s' v ?q (Suc l)"
    using q vq same_pool_base [OF relevels_same [OF s'(2)]] by (simp add: in_hand_def)
  then show ?thesis using s'(1) relevels_same [OF s'(2)] tm(2) unfolding q(1) [symmetric] by blast
qed

lemma free_merge_ok:
  assumes "in_hand s v p l"
  shows "\<exists>q m s'. free_merge p l s = Some (q, m, s') \<and> in_hand s' v q m \<and> same_pool s s' \<and>
    all_pages s' (v(base s + q \<mapsto> m)) = all_pages s (v(base s + p \<mapsto> l)) \<and> free_map s' (mate m (base s + q)) \<noteq> Some m"
  using assms
proof (induction "ARCH_PAGE_LIST_SIZE - l" arbitrary: s p l rule: less_induct)
  case less
  note d = in_handD [OF less.prems] and i = page_invD [OF in_handD(3) [OF less.prems]]
  have l: "l < ARCH_PAGE_LIST_SIZE" using d(6) by (simp add: page_consts)
  note bud = buddy_get_ok [OF i(1) d(1) l d(7)]
  show ?case
  proof (cases "\<exists>b. buddy_get p l s = Some b \<and> size_bits (pages s b) = l")
    case True
    then obtain b where b: "buddy_get p l s = Some b" "size_bits (pages s b) = l" by blast
    from merge_step [OF less.prems b] obtain s1 q1 where
      s1: "page_remove b l s = Some s1" "q1 = (if p < b then p else b)" "in_hand s1 v q1 (Suc l)" "same_pool s s1"
        "all_pages s1 (v(base s + q1 \<mapsto> Suc l)) = all_pages s (v(base s + p \<mapsto> l))" by blast
    have "ARCH_PAGE_LIST_SIZE - Suc l < ARCH_PAGE_LIST_SIZE - l" using l by simp
    from less.hyps [OF this s1(3)] obtain q m s' where
      s': "free_merge q1 (Suc l) s1 = Some (q, m, s')" "in_hand s' v q m" "same_pool s1 s'"
        "all_pages s' (v(base s1 + q \<mapsto> m)) = all_pages s1 (v(base s1 + q1 \<mapsto> Suc l))"
        "free_map s' (mate m (base s1 + q)) \<noteq> Some m" by blast
    have "free_merge p l s = Some (q, m, s')" using l b s1(1,2) s'(1) by (subst free_merge.simps) simp
    then show ?thesis using s' s1(4,5) same_pool_base [OF s1(4)] same_pool_trans [OF s1(4) s'(3)] by auto
  next
    case False
    then have "free_merge p l s = Some (p, l, s)" using l by (subst free_merge.simps) (auto split: option.splits)
    moreover have "free_map s (mate l (base s + p)) \<noteq> Some l"
    proof
      assume "free_map s (mate l (base s + p)) = Some l"
      then obtain b where b: "b < page_nr s" "mate l (base s + p) = base s + b" "size_bits (pages s b) = l"
        unfolding free_map_Some by blast
      then have "buddy_get p l s = Some b" unfolding bud by simp
      then show False using False b(3) by blast
    qed
    ultimately show ?thesis using less.prems by auto
  qed
qed

text \<open>Putting a block on its free list when its buddy is not free.\<close>

lemma give_back:
  assumes h: "in_hand s v p l" and m: "free_map s (mate l (base s + p)) \<noteq> Some l"
  shows "\<exists>s'. page_insert p l s = Some s' \<and> page_inv s' v \<and> same_pool s s' \<and> free_map s' = (free_map s)(base s + p \<mapsto> l) \<and>
    all_pages s' v = all_pages s (v(base s + p \<mapsto> l))"
proof -
  note d = in_handD [OF h] and i = page_invD [OF in_handD(3) [OF h]]
  have l: "l < ARCH_PAGE_LIST_SIZE" using d(6) by (simp add: page_consts)
  from page_insert_ok [OF i(2) d(1,4) l] obtain s' where
    s': "page_insert p l s = Some s'" "relevels p l s s'" "lists_ok s'" by blast
  have f': "free_map s' = (free_map s)(base s + p \<mapsto> l)" using free_map_relevels [OF s'(2) d(1)] l by simp
  have same: "free_map s' ++ v = free_map s ++ v(base s + p \<mapsto> l)"
    unfolding f' using d(2) by (auto simp: map_add_def fun_eq_iff split: option.split)
  have "coalesced (free_map s')"
    unfolding f' by (rule coalesced_upd [OF i(5) d(5,7) m]) (rule free_aligned [OF d(3)])
  moreover have "dom (free_map s') \<inter> dom v = {}" using i(3) d(2) f' by auto
  ultimately have "page_inv s' v"
    using page_invI [OF d(3) s'(2) d(1) s'(3), of v] l i(4) same by simp
  then show ?thesis using s'(1) f' same relevels_same [OF s'(2)] by auto
qed

subsection \<open>Splitting\<close>

lemma split_step:
  assumes h: "in_hand s v p (Suc l)"
  shows "\<exists>s' q. page_insert p l s = Some s' \<and> buddy_get p l s' = Some q \<and> in_hand s' v q l \<and> same_pool s s' \<and>
    all_pages s' (v(base s + q \<mapsto> l)) = all_pages s (v(base s + p \<mapsto> Suc l))"
proof -
  note d = in_handD [OF h] and i = page_invD [OF in_handD(3) [OF h]]
  let ?a = "base s + p" and ?q = "p + 2 ^ l" and ?T = "free_map s ++ v(base s + p \<mapsto> Suc l)"
  have l: "l < ARCH_PAGE_LIST_SIZE" using d(6) by (simp add: page_consts)
  have al: "2 ^ l dvd ?a" using d(7) by (meson dvd_trans le_imp_power_dvd lessI less_imp_le)
  have mate: "mate l ?a = ?a + 2 ^ l" using d(7) by (simp add: mate_def)
  have qn: "?q < page_nr s" "base s + ?q = ?a + 2 ^ l" using d(8) less_le_trans [of ?q "p + 2 ^ Suc l"] by simp_all
  from page_insert_ok [OF i(2) d(1,4) l] obtain s' where
    s': "page_insert p l s = Some s'" "relevels p l s s'" "lists_ok s'" by blast
  note same = relevels_same [OF s'(2)]
  note b = same_pool_base [OF same]
  have f': "free_map s' = (free_map s)(?a \<mapsto> l)" using free_map_relevels [OF s'(2) d(1)] l by simp
  have T: "?T ?a = Some (Suc l)" by simp
  note ts = tiles_split [OF i(4) T]
  have none: "v (?a + 2 ^ l) = None" "free_map s (?a + 2 ^ l) = None" using ts(3) by (auto simp: map_add_def split: option.splits if_splits)
  have new: "?T(?a \<mapsto> l, ?a + 2 ^ l \<mapsto> l) = free_map s' ++ v(?a + 2 ^ l \<mapsto> l)"
    unfolding f' using d(2) by (auto simp: map_add_def fun_eq_iff split: option.split)
  have tm: "tiles (base s) (base s + page_nr s) (free_map s' ++ v(?a + 2 ^ l \<mapsto> l))"
      "covered (free_map s' ++ v(?a + 2 ^ l \<mapsto> l)) = covered ?T"
    unfolding new [symmetric] by (rule ts(1), rule ts(2))
  have "coalesced (free_map s')" unfolding f'
  proof (rule coalesced_upd [OF i(5) d(5) al])
    show "free_map s (mate l ?a) \<noteq> Some l" using mate none by simp
  qed (rule free_aligned [OF d(3)])
  moreover have "dom (free_map s') \<inter> dom (v(?a + 2 ^ l \<mapsto> l)) = {}"
  proof -
    have "dom (free_map s') = insert ?a (dom (free_map s))" using f' by simp
    moreover have "dom (free_map s) \<inter> dom v = {}" using i(3) by auto
    ultimately show ?thesis using d(2) none(2) by (auto simp: domIff)
  qed
  ultimately have "page_inv s' (v(?a + 2 ^ l \<mapsto> l))"
    using page_invI [OF d(3) s'(2) d(1) s'(3) _ _ tm(1)] l by simp
  then have "in_hand s' v ?q l"
    unfolding in_hand_def conjunct1 [OF b] conjunct2 [OF b] qn(2) using none(1) qn(1) by blast
  moreover have "buddy_get p l s' = Some ?q"
  proof -
    have "pool_ok s'" using i(1) same by (simp add: pool_ok_def same_pool_def)
    then show ?thesis using buddy_get_ok [of s' p l] d(1) l al mate qn b by simp
  qed
  ultimately show ?thesis using s'(1) same tm(2) unfolding qn(2) [symmetric] by blast
qed

lemma alloc_split_ok:
  assumes "in_hand s v p m" and "l \<le> m"
  shows "\<exists>q s'. alloc_split p m l s = Some (q, s') \<and> in_hand s' v q l \<and> same_pool s s' \<and>
    all_pages s' (v(base s + q \<mapsto> l)) = all_pages s (v(base s + p \<mapsto> m))"
  using assms
proof (induction m arbitrary: s p)
  case 0
  then show ?case by (subst alloc_split.simps) auto
next
  case (Suc m)
  show ?case
  proof (cases "l = Suc m")
    case True
    then show ?thesis using Suc.prems by (subst alloc_split.simps) auto
  next
    case False
    then have lm: "l < Suc m" "l \<le> m" using Suc.prems by simp_all
    from split_step [OF Suc.prems(1)] obtain s1 q1 where
      s1: "page_insert p m s = Some s1" "buddy_get p m s1 = Some q1" "in_hand s1 v q1 m" "same_pool s s1"
        "all_pages s1 (v(base s + q1 \<mapsto> m)) = all_pages s (v(base s + p \<mapsto> Suc m))" by blast
    from Suc.IH [OF s1(3) lm(2)] obtain q s' where
      s': "alloc_split q1 m l s1 = Some (q, s')" "in_hand s' v q l" "same_pool s1 s'"
        "all_pages s' (v(base s1 + q \<mapsto> l)) = all_pages s1 (v(base s1 + q1 \<mapsto> m))" by blast
    have "alloc_split p (Suc m) l s = Some (q, s')" using lm(1) s1(1,2) s'(1) by (subst alloc_split.simps) simp
    moreover have "all_pages s' (v(base s + q \<mapsto> l)) = all_pages s (v(base s + p \<mapsto> Suc m))"
      using s'(4) s1(5) same_pool_base [OF s1(4)] by (simp only:)
    ultimately show ?thesis using s'(2) same_pool_trans [OF s1(4) s'(3)] by blast
  qed
qed

text \<open>Taking a free block off its list.\<close>

lemma take_off:
  assumes inv: "page_inv s v" and p: "p < page_nr s" "size_bits (pages s p) = l" and l: "l < ARCH_PAGE_LIST_SIZE"
  shows "\<exists>s'. page_remove p l s = Some s' \<and> in_hand s' v p l \<and> same_pool s s' \<and> all_pages s' (v(base s + p \<mapsto> l)) = all_pages s v"
proof -
  note i = page_invD [OF inv]
  let ?a = "base s + p"
  from page_remove_ok [OF i(2) p l] obtain s' where
    s': "page_remove p l s = Some s'" "relevels p ARCH_ADDRESS_WIDTH_BITS s s'" "lists_ok s'" by blast
  note same = relevels_same [OF s'(2)]
  have f': "free_map s' = (free_map s)(?a := None)" using free_map_relevels [OF s'(2) p(1)] by (simp add: page_consts)
  have fa: "free_map s ?a = Some l" using free_map_page [OF p(1)] p(2) l by simp
  have va: "v ?a = None" using i(3) fa by (auto simp: disjoint_iff dom_def)
  have new: "free_map s' ++ v(?a \<mapsto> l) = free_map s ++ v"
    unfolding f' using fa va by (auto simp: map_add_def fun_eq_iff split: option.split)
  have "dom (free_map s') \<inter> dom (v(?a \<mapsto> l)) = {}" using i(3) f' by auto
  then have "page_inv s' (v(?a \<mapsto> l))"
    using page_invI [OF inv s'(2) p(1) s'(3)] coalesced_subset [OF i(5)] i(4) f' new by (simp add: page_consts)
  then have "in_hand s' v p l" using va p(1) same_pool_base [OF same] by (simp add: in_hand_def)
  then show ?thesis using s'(1) same new by simp
qed

lemma list_head:
  assumes "lists_ok s" and "l < ARCH_PAGE_LIST_SIZE"
  shows "page_list s l = Some p \<Longrightarrow> p < page_nr s \<and> size_bits (pages s p) = l"
    and "page_list s l = None \<Longrightarrow> i < page_nr s \<Longrightarrow> size_bits (pages s i) \<noteq> l"
proof -
  obtain xs where xs: "dseg (pages s) None (page_list s l) xs None" "set xs = {i. i < page_nr s \<and> size_bits (pages s i) = l}"
    using assms by (auto simp: lists_ok_def list_ok_def)
  show "p < page_nr s \<and> size_bits (pages s p) = l" if "page_list s l = Some p"
    using xs that by (cases xs) auto
  show "size_bits (pages s i) \<noteq> l" if "page_list s l = None" "i < page_nr s"
    using xs that by (cases xs) auto
qed

lemma find_level_ok:
  assumes "k \<le> ARCH_PAGE_LIST_SIZE"
  shows "k \<le> find_level k s \<and> find_level k s \<le> ARCH_PAGE_LIST_SIZE \<and> (\<forall>l. k \<le> l \<longrightarrow> l < find_level k s \<longrightarrow> page_list s l = None) \<and>
    (find_level k s < ARCH_PAGE_LIST_SIZE \<longrightarrow> page_list s (find_level k s) \<noteq> None)"
  using assms
proof (induction "ARCH_PAGE_LIST_SIZE - k" arbitrary: k rule: less_induct)
  case less
  show ?case
  proof (cases "k < ARCH_PAGE_LIST_SIZE \<and> page_list s k = None")
    case True
    then have eq: "find_level k s = find_level (k + 1) s" by (subst find_level.simps) simp
    have "ARCH_PAGE_LIST_SIZE - (k + 1) < ARCH_PAGE_LIST_SIZE - k" "k + 1 \<le> ARCH_PAGE_LIST_SIZE" using True by auto
    note IH = less.hyps [OF this]
    have "page_list s l = None" if "k \<le> l" "l < find_level (k + 1) s" for l
      using that True IH by (cases "l = k") auto
    then show ?thesis unfolding eq using IH by auto
  next
    case False
    then have "find_level k s = k" by (subst find_level.simps) auto
    then show ?thesis using False less.prems by auto
  qed
qed

lemma pages_take_ok:
  assumes inv: "page_inv s v" and l: "l < ARCH_PAGE_LIST_SIZE"
  shows "(\<exists>p s'. pages_take l s = Some (Some p, s') \<and> in_hand s' v p l \<and> same_pool s s' \<and>
      all_pages s' (v(base s + p \<mapsto> l)) = all_pages s v) \<or>
    pages_take l s = Some (None, s) \<and> (\<forall>a m. free_map s a = Some m \<longrightarrow> m < l)"
proof (cases "page_list s l")
  case (Some p)
  from take_off [OF inv _ _ l] list_head(1) [OF page_invD(2) [OF inv] l Some] obtain s' where
    "page_remove p l s = Some s'" "in_hand s' v p l" "same_pool s s'" "all_pages s' (v(base s + p \<mapsto> l)) = all_pages s v" by blast
  then show ?thesis using Some l by (auto simp: pages_take_def rt_assert_def)
next
  case None
  let ?m = "find_level (l + 1) s"
  have "l + 1 \<le> ARCH_PAGE_LIST_SIZE" using l by simp
  note fl = find_level_ok [OF this, of s]
  show ?thesis
  proof (cases "?m = ARCH_PAGE_LIST_SIZE")
    case True
    have "m < l" if "free_map s a = Some m" for a m
    proof (rule ccontr)
      assume "\<not> m < l"
      from that obtain i where i: "i < page_nr s" "size_bits (pages s i) = m" "m < ARCH_PAGE_LIST_SIZE" unfolding free_map_Some by blast
      have "page_list s m = None" using None fl True \<open>\<not> m < l\<close> i(3) by (cases "m = l") auto
      then show False using list_head(2) [OF page_invD(2) [OF inv] i(3)] i(1,2) by blast
    qed
    then show ?thesis using None True l by (simp add: pages_take_def rt_assert_def)
  next
    case False
    then have m: "?m < ARCH_PAGE_LIST_SIZE" "l \<le> ?m" using fl by auto
    then obtain p where p: "page_list s ?m = Some p" using fl by blast
    from take_off [OF inv _ _ m(1)] list_head(1) [OF page_invD(2) [OF inv] m(1) p] obtain s1 where
      s1: "page_remove p ?m s = Some s1" "in_hand s1 v p ?m" "same_pool s s1" "all_pages s1 (v(base s + p \<mapsto> ?m)) = all_pages s v" by blast
    from alloc_split_ok [OF s1(2) m(2)] obtain q s' where
      s': "alloc_split p ?m l s1 = Some (q, s')" "in_hand s' v q l" "same_pool s1 s'"
        "all_pages s' (v(base s1 + q \<mapsto> l)) = all_pages s1 (v(base s1 + p \<mapsto> ?m))" by blast
    have "pages_take l s = Some (Some q, s')"
      using None False l p s1(1) s'(1) by (simp add: pages_take_def rt_assert_def)
    moreover have "all_pages s' (v(base s + q \<mapsto> l)) = all_pages s v"
      using s'(4) s1(4) same_pool_base [OF s1(3)] by (simp only:)
    ultimately show ?thesis using s'(2) same_pool_trans [OF s1(3) s'(3)] by blast
  qed
qed

subsection \<open>Allocation and release\<close>

lemma page_inv_cong:
  assumes "\<And>i. pg_next (pages s' i) = pg_next (pages s i) \<and> pg_pre (pages s' i) = pg_pre (pages s i) \<and> size_bits (pages s' i) = size_bits (pages s i)"
    and "page_list s' = page_list s" and "page_addr s' = page_addr s" and "page_nr s' = page_nr s"
  shows "page_inv s' v = page_inv s v" "free_map s' = free_map s" "base s' = base s"
proof -
  show b: "base s' = base s" using assms(3) by (simp add: base_def)
  show f: "free_map s' = free_map s" using assms(1,4) b by (simp add: free_map_def fun_eq_iff)
  have "list_ok s' l xs = list_ok s l xs" for l xs
    using assms dseg_cong [of xs "pages s'" "pages s"] by (simp add: list_ok_def)
  then have "lists_ok s' = lists_ok s" by (simp add: lists_ok_def)
  then show "page_inv s' v = page_inv s v" using assms b f by (simp add: page_inv_def pool_ok_def)
qed

lemma tiles_live: "page_inv s v \<Longrightarrow> tiles (base s) (base s + page_nr s) v"
  by (rule tiles_subset [OF page_invD(4)]) (auto simp: map_le_def map_add_def)

lemma card_block [simp]: "card (block a l) = 2 ^ l" "finite (block a l)"
  by (simp_all add: block_def)

lemma live_upd:
  assumes inv: "page_inv s (v(a \<mapsto> l))" and a: "v a = None"
  shows "covered (v(a \<mapsto> l)) = block a l \<union> covered v" "block a l \<inter> covered v = {}"
    "card (covered (v(a \<mapsto> l))) = 2 ^ l + card (covered v)" "card (covered (v(a \<mapsto> l))) \<le> page_nr s"
proof -
  have va: "v(a := None) = v" "(v(a \<mapsto> l))(a := None) = v" using a by auto
  note t = tiles_live [OF inv]
  show c: "covered (v(a \<mapsto> l)) = block a l \<union> covered v" using covered_upd [of v a l] va by simp
  have "covered v = covered (v(a \<mapsto> l)) - block a l" using covered_minus [OF t, of a l] va(2) by simp
  then show dj: "block a l \<inter> covered v = {}" by blast
  have sub: "covered (v(a \<mapsto> l)) \<subseteq> {base s..<base s + page_nr s}" by (rule covered_bounds [OF t])
  have "finite (covered v)" using finite_subset [OF sub] c by simp
  then show "card (covered (v(a \<mapsto> l))) = 2 ^ l + card (covered v)" using c dj by (simp add: card_Un_disjoint)
  show "card (covered (v(a \<mapsto> l))) \<le> page_nr s" using card_mono [OF _ sub] by simp
qed

text \<open>The state of the allocator: blocks in use \<open>v\<close>, their numbers of references \<open>r\<close>, all other pages free.\<close>

definition page_state :: "page_store \<Rightarrow> tiling \<Rightarrow> (nat \<Rightarrow> nat) \<Rightarrow> bool" where
  "page_state s v r \<longleftrightarrow> page_inv s v \<and> all_pages s v = {base s..<base s + page_nr s} \<and>
     (\<forall>a\<in>dom v. ref_cnt (pages s (a - base s)) = int (r a) \<and> 0 < r a) \<and>
     (\<forall>i<page_nr s. base s + i \<notin> dom v \<longrightarrow> ref_cnt (pages s i) = 0) \<and> unat (used_page_nr s) = card (covered v)"

lemma unat_used_add:
  assumes "unat w + 2 ^ l < 2 ^ 31" and "l < 31"
  shows "unat (w + push_bit l 1 :: u64) = unat w + 2 ^ l"
proof -
  have "unat w + unat (push_bit l 1 :: u64) < 2 ^ 64" using assms unat_push_one [of l] by simp
  then show ?thesis using unat_push_one [of l] assms(2) by (simp add: unat_add_lem [THEN iffD1])
qed

lemma pages_alloc_ok:
  assumes st: "page_state s v r" and l: "l < ARCH_PAGE_LIST_SIZE"
  shows "(\<exists>p s'. pages_alloc l s = Some (Some p, s') \<and> p < page_nr s \<and> v (base s + p) = None \<and> block (base s + p) l \<inter> covered v = {} \<and>
      page_state s' (v(base s + p \<mapsto> l)) (r(base s + p := 1)) \<and> page_addr s' = page_addr s \<and> page_nr s' = page_nr s) \<or>
    pages_alloc l s = Some (None, s) \<and> (\<forall>a m. free_map s a = Some m \<longrightarrow> m < l)"
proof -
  have inv: "page_inv s v" and all: "all_pages s v = {base s..<base s + page_nr s}"
    and refs: "\<And>a. a \<in> dom v \<Longrightarrow> ref_cnt (pages s (a - base s)) = int (r a) \<and> 0 < r a"
    and none: "\<And>i. i < page_nr s \<Longrightarrow> base s + i \<notin> dom v \<Longrightarrow> ref_cnt (pages s i) = 0"
    and used: "unat (used_page_nr s) = card (covered v)" using st by (auto simp: page_state_def)
  from pages_take_ok [OF inv l] consider
      p s1 where "pages_take l s = Some (Some p, s1)" "in_hand s1 v p l" "same_pool s s1" "all_pages s1 (v(base s + p \<mapsto> l)) = all_pages s v"
    | "pages_take l s = Some (None, s)" "\<forall>a m. free_map s a = Some m \<longrightarrow> m < l" by blast
  then show ?thesis
  proof cases
    case 1
    note d = in_handD [OF 1(2)] and b = same_pool_base [OF 1(3)]
    let ?a = "base s + p"
    let ?s2 = "upd_page p (\<lambda>x. x\<lparr>size_bits := ARCH_ADDRESS_WIDTH_BITS, ref_cnt := 1\<rparr>) s1"
    let ?s3 = "?s2\<lparr>used_page_nr := used_page_nr ?s2 + push_bit l 1\<rparr>"
    let ?s = "if used_page_nr_peak ?s3 < used_page_nr ?s3 then ?s3\<lparr>used_page_nr_peak := used_page_nr ?s3\<rparr> else ?s3"
    have call: "pages_alloc l s = Some (Some p, ?s)" using 1(1) d(6) by (simp add: pages_alloc_def rt_assert_def Let_def)
    have c: "page_inv ?s w = page_inv s1 w" "free_map ?s = free_map s1" "base ?s = base s1" for w
      by (rule page_inv_cong; use d(4) in \<open>simp add: upd_page_def\<close>)+
    have inv': "page_inv s1 (v(?a \<mapsto> l))" using d(3) b by simp
    have va: "v ?a = None" using d(2) b by simp
    note lu = live_upd [OF inv' va]
    have "page_nr s1 < 2 ^ 31" using page_invD(1) [OF inv'] by (simp add: pool_ok_def)
    then have "unat (used_page_nr s1) + 2 ^ l < 2 ^ 31" using lu(3,4) used 1(3) by (simp add: same_pool_def)
    then have "unat (used_page_nr ?s) = card (covered (v(?a \<mapsto> l)))"
      using unat_used_add [of "used_page_nr s1" l] d(6) lu(3) used 1(3) by (simp add: same_pool_def upd_page_def)
    moreover have "ref_cnt (pages ?s (x - base ?s)) = int ((r(?a := 1)) x) \<and> 0 < (r(?a := 1)) x" if x: "x \<in> dom (v(?a \<mapsto> l))" for x
    proof (cases "x = ?a")
      case True
      then show ?thesis using c(3) b by (simp add: upd_page_def)
    next
      case False
      then have "x \<in> dom v" using x by simp
      then have "base s \<le> x" using tilesD(2) [OF tiles_live [OF inv]] by blast
      then have "x - base s \<noteq> p" using False by auto
      then show ?thesis using refs [OF \<open>x \<in> dom v\<close>] False c(3) b 1(3) by (simp add: upd_page_def same_pool_def)
    qed
    moreover have "page_addr ?s = page_addr s" "page_nr ?s = page_nr s" using 1(3) by (simp_all add: upd_page_def same_pool_def)
    moreover have "page_inv ?s (v(?a \<mapsto> l))" "all_pages ?s (v(?a \<mapsto> l)) = {base ?s..<base ?s + page_nr ?s}"
      using c inv' 1(4) all b calculation(4) by simp_all
    moreover have "ref_cnt (pages ?s i) = 0" if "i < page_nr ?s" "base ?s + i \<notin> dom (v(?a \<mapsto> l))" for i
      using none [of i] that c(3) b 1(3) calculation(4) by (auto simp: upd_page_def same_pool_def)
    ultimately have "page_state ?s (v(?a \<mapsto> l)) (r(?a := 1))" unfolding page_state_def by blast
    moreover have "p < page_nr s" using d(1) b by simp
    ultimately show ?thesis using call va lu(2) \<open>page_addr ?s = page_addr s\<close> \<open>page_nr ?s = page_nr s\<close> by blast
  next
    case 2
    then show ?thesis by (simp add: pages_alloc_def)
  qed
qed

text \<open>The last reference of a block: it is merged with its free buddies and put on a free list.\<close>

lemma release_last:
  assumes h: "in_hand s v p l" and ref: "ref_cnt (pages s p) = 1"
  shows "\<exists>s'. pages_free p l s = Some (1, s') \<and> page_inv s' v \<and> all_pages s' v = all_pages s (v(base s + p \<mapsto> l)) \<and>
    page_addr s' = page_addr s \<and> page_nr s' = page_nr s \<and> page_start s' = page_start s \<and> used_page_nr s' = used_page_nr s - push_bit l 1 \<and>
    (\<forall>i. ref_cnt (pages s' i) = (if i = p then 0 else ref_cnt (pages s i)))"
proof -
  note d = in_handD [OF h]
  let ?s1 = "upd_page p (\<lambda>x. x\<lparr>ref_cnt := ref_cnt x - 1\<rparr>) s"
  have c: "page_inv ?s1 w = page_inv s w" "free_map ?s1 = free_map s" "base ?s1 = base s" for w
    by (rule page_inv_cong; simp add: upd_page_def)+
  have nr: "page_nr ?s1 = page_nr s" by (simp add: upd_page_def)
  have "in_hand ?s1 v p l" using h c nr by (simp add: in_hand_def)
  from free_merge_ok [OF this] obtain q m s2 where
    s2: "free_merge p l ?s1 = Some (q, m, s2)" "in_hand s2 v q m" "same_pool ?s1 s2"
      "all_pages s2 (v(base s + q \<mapsto> m)) = all_pages s (v(base s + p \<mapsto> l))" "free_map s2 (mate m (base s + q)) \<noteq> Some m"
    unfolding c(2,3) by blast
  have b: "base s2 = base s" "page_nr s2 = page_nr s" using same_pool_base [OF s2(3)] c(3) nr by simp_all
  from give_back [OF s2(2)] s2(5) b(1) obtain s3 where
    s3: "page_insert q m s2 = Some s3" "page_inv s3 v" "same_pool s2 s3" "all_pages s3 v = all_pages s2 (v(base s + q \<mapsto> m))" by auto
  let ?s = "s3\<lparr>used_page_nr := used_page_nr s3 - push_bit l 1\<rparr>"
  have c3: "page_inv ?s w = page_inv s3 w" "free_map ?s = free_map s3" for w by (rule page_inv_cong; simp)+
  have "pages_free p l s = Some (1, ?s)"
    using ref d(4,6) s2(1) s3(1) by (simp add: pages_free_def rt_assert_def upd_page_def)
  moreover have "all_pages ?s v = all_pages s (v(base s + p \<mapsto> l))" using c3(2) s2(4) s3(4) by (simp only:)
  moreover have "page_inv ?s v" using c3 s3(2) by simp
  moreover have "same_pool ?s1 s3" using same_pool_trans [OF s2(3) s3(3)] .
  then have "page_addr ?s = page_addr s" "page_nr ?s = page_nr s" "page_start ?s = page_start s"
      "used_page_nr ?s = used_page_nr s - push_bit l 1" "\<forall>i. ref_cnt (pages ?s i) = (if i = p then 0 else ref_cnt (pages s i))"
    using ref by (simp_all add: same_pool_def upd_page_def)
  ultimately show ?thesis by blast
qed

lemma live_hand:
  assumes inv: "page_inv s v" and a: "v a = Some l"
  shows "in_hand s (v(a := None)) (a - base s) l" "base s \<le> a" "a < base s + page_nr s" "base s + (a - base s) = a"
proof -
  note t = tiles_live [OF inv]
  show lo: "base s \<le> a" using tilesD(2) [OF t a] .
  show hi: "a < base s + page_nr s" using tilesD(3) [OF t a] zero_less_power [of "2 :: nat" l] by linarith
  show e: "base s + (a - base s) = a" using lo by simp
  have "v(a := None, a \<mapsto> l) = v" using a by auto
  then show "in_hand s (v(a := None)) (a - base s) l" using inv hi lo unfolding in_hand_def e by simp
qed

lemma pages_free_ok:
  assumes st: "page_state s v r" and a: "v a = Some l"
  shows "\<exists>s'. pages_free (a - base s) l s = Some (if r a = 1 then 1 else 0, s') \<and>
    page_state s' (if r a = 1 then v(a := None) else v) (r(a := r a - 1)) \<and> page_addr s' = page_addr s \<and> page_nr s' = page_nr s"
proof -
  have inv: "page_inv s v" and all: "all_pages s v = {base s..<base s + page_nr s}"
    and refs: "\<And>a. a \<in> dom v \<Longrightarrow> ref_cnt (pages s (a - base s)) = int (r a) \<and> 0 < r a"
    and none: "\<And>i. i < page_nr s \<Longrightarrow> base s + i \<notin> dom v \<Longrightarrow> ref_cnt (pages s i) = 0"
    and used: "unat (used_page_nr s) = card (covered v)" using st by (auto simp: page_state_def)
  let ?p = "a - base s"
  note h = live_hand [OF inv a]
  note d = in_handD [OF h(1)]
  have ra: "ref_cnt (pages s ?p) = int (r a)" "0 < r a" using refs [of a] a by auto
  have other: "x - base s \<noteq> ?p" if "x \<in> dom v" "x \<noteq> a" for x
    using that tilesD(2) [OF tiles_live [OF inv]] h(2) by (auto simp: diff_eq_diff_eq dest!: tilesD(2) [OF tiles_live [OF inv]])
  have va: "v(a := None, a \<mapsto> l) = v" using a by auto
  show ?thesis
  proof (cases "r a = 1")
    case True
    from release_last [OF h(1)] ra True obtain s' where
      s': "pages_free ?p l s = Some (1, s')" "page_inv s' (v(a := None))" "all_pages s' (v(a := None)) = all_pages s (v(a := None, base s + ?p \<mapsto> l))"
        "page_addr s' = page_addr s" "page_nr s' = page_nr s" "used_page_nr s' = used_page_nr s - push_bit l 1"
        "\<And>i. ref_cnt (pages s' i) = (if i = ?p then 0 else ref_cnt (pages s i))" by auto
    have b: "base s' = base s" using s'(4) by (simp add: base_def)
    have "page_inv s (v(a := None, a \<mapsto> l))" using inv va by simp
    note lu = live_upd [OF this, unfolded va]
    have c: "card (covered v) = 2 ^ l + card (covered (v(a := None)))" using lu(3) by simp
    have "unat (push_bit l 1 :: u64) = 2 ^ l" using d(6) by (intro unat_push_one) simp
    then have "unat (used_page_nr s') = card (covered (v(a := None)))"
      using c used s'(6) by (simp add: unat_sub_if' )
    moreover have "all_pages s' (v(a := None)) = {base s'..<base s' + page_nr s'}"
      using s'(3,5) h(4) va all b by (simp only:)
    moreover have "ref_cnt (pages s' (x - base s')) = int ((r(a := r a - 1)) x) \<and> 0 < (r(a := r a - 1)) x" if "x \<in> dom (v(a := None))" for x
      using refs [of x] other [of x] s'(7) b that by (auto split: if_splits)
    moreover have "ref_cnt (pages s' i) = 0" if "i < page_nr s'" "base s' + i \<notin> dom (v(a := None))" for i
      using none [of i] that b s'(5,7) by auto
    ultimately have "page_state s' (v(a := None)) (r(a := r a - 1))" using s'(2) unfolding page_state_def by blast
    then show ?thesis using s'(1,4,5) True by simp
  next
    case False
    let ?s = "upd_page ?p (\<lambda>x. x\<lparr>ref_cnt := ref_cnt x - 1\<rparr>) s"
    have c: "page_inv ?s w = page_inv s w" "free_map ?s = free_map s" "base ?s = base s" for w
      by (rule page_inv_cong; simp add: upd_page_def)+
    have "pages_free ?p l s = Some (0, ?s)" using False ra d(4) by (simp add: pages_free_def rt_assert_def upd_page_def)
    moreover have "ref_cnt (pages ?s (x - base ?s)) = int ((r(a := r a - 1)) x) \<and> 0 < (r(a := r a - 1)) x" if "x \<in> dom v" for x
      using refs [OF that] other [OF that] ra False c(3) by (cases "x = a") (auto simp: upd_page_def)
    moreover have "page_inv ?s v" "all_pages ?s v = {base ?s..<base ?s + page_nr ?s}" "unat (used_page_nr ?s) = card (covered v)"
      using inv all used c by (simp_all only:) (simp_all add: upd_page_def)
    moreover have "ref_cnt (pages ?s i) = 0" if "i < page_nr ?s" "base ?s + i \<notin> dom v" for i
      using none [of i] that c(3) a h(2) by (auto simp: upd_page_def)
    ultimately have "page_state ?s v (r(a := r a - 1))" unfolding page_state_def by blast
    then show ?thesis using False \<open>pages_free ?p l s = Some (0, ?s)\<close> by (simp add: upd_page_def)
  qed
qed

subsection \<open>References\<close>

lemma and_not_low:
  assumes "i < 2 ^ 64"
  shows "unat ((of_nat i :: u64) AND NOT (push_bit l 1 - 1)) = i div 2 ^ l * 2 ^ l"
proof -
  have "(of_nat i :: u64) AND NOT (push_bit l 1 - 1) = of_nat i AND NOT (mask l)" by (simp add: mask_eq_exp_minus_1)
  also have "\<dots> = push_bit l (drop_bit l (of_nat i))" by (rule bit_eqI) (auto simp: bit_simps)
  also have "\<dots> = push_bit l (of_nat (unat (drop_bit l (of_nat i :: u64))))" by simp
  also have "unat (drop_bit l (of_nat i :: u64)) = i div 2 ^ l"
    unfolding unat_drop_bit_eq using assms unat_small [of i] by (simp add: drop_bit_eq_div)
  finally have "(of_nat i :: u64) AND NOT (push_bit l 1 - 1) = of_nat (i div 2 ^ l * 2 ^ l)" by (simp add: push_bit_eq_mult)
  moreover have "i div 2 ^ l * 2 ^ l < 2 ^ 64"
    using assms le_less_trans [OF div_times_less_eq_dividend [of i "2 ^ l"], of "2 ^ 64"] by simp
  ultimately show ?thesis using unat_small by (simp only:)
qed

lemma sint_small: "i < 2 ^ 31 \<Longrightarrow> sint (of_nat i :: 32 word) = int i"
proof -
  assume i: "i < 2 ^ 31"
  then have "take_bit 32 i = i" by (intro take_bit_nat_eq_self) simp
  then have "uint (of_nat i :: 32 word) = int i" by (simp add: uint_nat unsigned_of_nat)
  moreover have "signed_take_bit 31 (int i) = int i" using i by (intro signed_take_bit_int_eq_self) simp_all
  ultimately show ?thesis by (simp add: sint_uint)
qed

lemma page_head_ok:
  assumes "pool_ok s" and "i < page_nr s" and "l < 64"
  shows "page_head (Some i) l s = Some (Some (i div 2 ^ l * 2 ^ l))"
proof -
  have i: "i < 2 ^ 31" using assms(1,2) by (simp add: pool_ok_def)
  note idx = sint_small [OF i]
  have "i < 2 ^ 64" using i by simp
  then show ?thesis using assms(2,3) and_not_low [of i l] unfolding page_head_def
    by (simp add: rt_assert_def idx del: push_bit_of_1)
qed

text \<open>In a pool aligned to the size of a block, the group of each page of the block is the block.\<close>

lemma aligned_head:
  assumes inv: "page_inv s v" and a: "v a = Some l" and k: "k \<in> block a l" and al: "2 ^ l dvd base s"
  shows "(k - base s) div 2 ^ l * 2 ^ l = a - base s" "base s \<le> k" "k < base s + page_nr s"
proof -
  note t = tiles_live [OF inv] and h = live_hand [OF inv a]
  show lo: "base s \<le> k" using h(2) k by (simp add: in_block)
  show "k < base s + page_nr s" using k tilesD(3) [OF t a] by (simp add: in_block)
  have "2 ^ l dvd a - base s" using tilesD(1) [OF t a] al by (rule dvd_diff_nat)
  then obtain x where x: "a - base s = 2 ^ l * x" by blast
  obtain y where y: "k - base s = 2 ^ l * x + y" "y < 2 ^ l"
  proof
    show "k - base s = 2 ^ l * x + (k - a)" using k h(2) x by (simp add: in_block)
    show "k - a < 2 ^ l" using k by (auto simp: in_block)
  qed
  then show "(k - base s) div 2 ^ l * 2 ^ l = a - base s" using x by simp
qed

lemma ref_inc_ok:
  assumes st: "page_state s v r" and a: "v a = Some l" and k: "unat addr div 4096 \<in> block a l" and al: "2 ^ l dvd base s"
    and small: "r a < 2 ^ 31 - 1"
  shows "\<exists>s'. rt_page_ref_inc addr l s = Some s' \<and> page_state s' v (r(a := r a + 1)) \<and> page_addr s' = page_addr s \<and> page_nr s' = page_nr s"
    and "rt_page_ref_get addr l s = Some (int (r a))"
proof -
  have inv: "page_inv s v" and all: "all_pages s v = {base s..<base s + page_nr s}"
    and refs: "\<And>a. a \<in> dom v \<Longrightarrow> ref_cnt (pages s (a - base s)) = int (r a) \<and> 0 < r a"
    and none: "\<And>i. i < page_nr s \<Longrightarrow> base s + i \<notin> dom v \<Longrightarrow> ref_cnt (pages s i) = 0"
    and used: "unat (used_page_nr s) = card (covered v)" using st by (auto simp: page_state_def)
  let ?k = "unat addr div 4096" and ?p = "a - base s"
  note ok = page_invD(1) [OF inv]
  note h = aligned_head [OF inv a k al]
  have page: "addr_to_page addr s = Some (?k - base s)" using addr_to_page_ok [OF ok, of addr] h(2,3) by simp
  have "l < 64" using in_handD(6) [OF live_hand(1) [OF inv a]] by simp
  then have head: "page_head (Some (?k - base s)) l s = Some (Some ?p)"
    using page_head_ok [OF ok, of "?k - base s" l] h by simp
  have ra: "ref_cnt (pages s ?p) = int (r a)" using refs [of a] a by auto
  show "rt_page_ref_get addr l s = Some (int (r a))"
    using page head ra by (simp add: rt_page_ref_get_def pages_ref_get_def)
  let ?s = "upd_page ?p (\<lambda>x. x\<lparr>ref_cnt := ref_cnt x + 1\<rparr>) s"
  have c: "page_inv ?s w = page_inv s w" "free_map ?s = free_map s" "base ?s = base s" for w
    by (rule page_inv_cong; simp add: upd_page_def)+
  have "ref_cnt (pages ?s (x - base ?s)) = int ((r(a := r a + 1)) x) \<and> 0 < (r(a := r a + 1)) x" if x: "x \<in> dom v" for x
  proof (cases "x = a")
    case False
    have "base s \<le> x" "base s \<le> a" using tilesD(2) [OF tiles_live [OF inv]] x a by blast+
    then have "x - base s \<noteq> ?p" using False by auto
    then show ?thesis using refs [OF x] c(3) False by (simp add: upd_page_def)
  qed (use ra c(3) in \<open>simp add: upd_page_def\<close>)
  moreover have "page_inv ?s v" "all_pages ?s v = {base ?s..<base ?s + page_nr ?s}" "unat (used_page_nr ?s) = card (covered v)"
    using inv all used c by (simp_all only:) (simp_all add: upd_page_def)
  moreover have "ref_cnt (pages ?s i) = 0" if "i < page_nr ?s" "base ?s + i \<notin> dom v" for i
    using none [of i] that c(3) a live_hand(2) [OF inv a] by (auto simp: upd_page_def)
  ultimately have "page_state ?s v (r(a := r a + 1))" unfolding page_state_def by blast
  moreover have "rt_page_ref_inc addr l s = Some ?s"
    using page head ra small by (simp add: rt_page_ref_inc_def pages_ref_inc_def rt_assert_def)
  ultimately show "\<exists>s'. rt_page_ref_inc addr l s = Some s' \<and> page_state s' v (r(a := r a + 1)) \<and> page_addr s' = page_addr s \<and> page_nr s' = page_nr s"
    by (simp add: upd_page_def)
qed

subsection \<open>Calls\<close>

lemma rt_pages_alloc_ok:
  assumes st: "page_state s v r" and l: "l < ARCH_PAGE_LIST_SIZE"
  shows "\<exists>addr s'. rt_pages_alloc l s = Some (addr, s') \<and>
    (if addr = 0 then s' = s \<and> (\<forall>a m. free_map s a = Some m \<longrightarrow> m < l)
     else (\<exists>a. unat addr = 4096 * a \<and> v a = None \<and> block a l \<inter> covered v = {} \<and> page_state s' (v(a \<mapsto> l)) (r(a := 1)))
       \<and> page_addr s' = page_addr s \<and> page_nr s' = page_nr s)"
proof -
  have ok: "pool_ok s" using st page_invD(1) by (auto simp: page_state_def)
  from pages_alloc_ok [OF st l] consider
      p s' where "pages_alloc l s = Some (Some p, s')" "p < page_nr s" "v (base s + p) = None" "block (base s + p) l \<inter> covered v = {}"
        "page_state s' (v(base s + p \<mapsto> l)) (r(base s + p := 1))" "page_addr s' = page_addr s" "page_nr s' = page_nr s"
    | "pages_alloc l s = Some (None, s)" "\<forall>a m. free_map s a = Some m \<longrightarrow> m < l" by blast
  then show ?thesis
  proof cases
    case 1
    let ?addr = "page_to_addr (Some p) s'"
    have "?addr = page_to_addr (Some p) s" using 1(6) by (simp add: page_to_addr_def)
    then have u: "unat ?addr = 4096 * (base s + p)" using page_to_addr_ok [OF ok 1(2)] by simp
    then have "?addr \<noteq> 0" using pool_base(2) [OF ok] by (auto simp: unat_eq_0 [symmetric])
    moreover have "rt_pages_alloc l s = Some (?addr, s')" using 1(1) by (simp add: rt_pages_alloc_def)
    moreover have "\<exists>a. unat ?addr = 4096 * a \<and> v a = None \<and> block a l \<inter> covered v = {} \<and> page_state s' (v(a \<mapsto> l)) (r(a := 1))"
      using u 1(3-5) by (intro exI [of _ "base s + p"] conjI)
    ultimately show ?thesis using 1(6,7) by (intro exI [of _ ?addr] exI [of _ s']) simp
  next
    case 2
    then show ?thesis by (simp add: rt_pages_alloc_def page_to_addr_def)
  qed
qed

lemma rt_pages_free_ok:
  assumes st: "page_state s v r" and a: "v a = Some l" "unat addr div 4096 = a"
  shows "\<exists>s'. rt_pages_free addr l s = Some (if r a = 1 then 1 else 0, s') \<and>
    page_state s' (if r a = 1 then v(a := None) else v) (r(a := r a - 1)) \<and> page_addr s' = page_addr s \<and> page_nr s' = page_nr s"
proof -
  have inv: "page_inv s v" using st by (simp add: page_state_def)
  have "addr_to_page addr s = Some (a - base s)"
    using addr_to_page_ok [OF page_invD(1) [OF inv], of addr] live_hand(2,3) [OF inv a(1)] a(2) by simp
  then show ?thesis using pages_free_ok [OF st a(1)] by (simp add: rt_pages_free_def)
qed

interpretation pager: page_source page_state "\<lambda>addr. unat addr div 4096" "\<lambda>a. of_nat (4096 * a)" "0 :: u64"
  ARCH_PAGE_LIST_SIZE rt_pages_alloc rt_pages_free
proof
  fix s v r l assume st: "page_state s v r" and l: "l < ARCH_PAGE_LIST_SIZE"
  from rt_pages_alloc_ok [OF st l] obtain addr s' where c: "rt_pages_alloc l s = Some (addr, s')"
    "if addr = 0 then s' = s \<and> (\<forall>a m. free_map s a = Some m \<longrightarrow> m < l)
     else (\<exists>a. unat addr = 4096 * a \<and> v a = None \<and> block a l \<inter> covered v = {} \<and> page_state s' (v(a \<mapsto> l)) (r(a := 1)))
       \<and> page_addr s' = page_addr s \<and> page_nr s' = page_nr s" by blast
  have "addr = of_nat (4096 * (unat addr div 4096)) \<and> v (unat addr div 4096) = None \<and> block (unat addr div 4096) l \<inter> covered v = {} \<and>
      page_state s' (v(unat addr div 4096 \<mapsto> l)) (r(unat addr div 4096 := 1))" if nz: "addr \<noteq> 0"
  proof -
    from c(2) nz obtain a where a: "unat addr = 4096 * a" "v a = None" "block a l \<inter> covered v = {}" "page_state s' (v(a \<mapsto> l)) (r(a := 1))" by auto
    have d: "unat addr div 4096 = a" using a(1) by simp
    have "addr = of_nat (4096 * a)" unfolding a(1) [symmetric] by simp
    then show ?thesis unfolding d using a(2-4) by blast
  qed
  then show "\<exists>addr s'. rt_pages_alloc l s = Some (addr, s') \<and>
      (if addr = 0 then s' = s
       else addr = of_nat (4096 * (unat addr div 4096)) \<and> v (unat addr div 4096) = None \<and> block (unat addr div 4096) l \<inter> covered v = {} \<and>
         page_state s' (v(unat addr div 4096 \<mapsto> l)) (r(unat addr div 4096 := 1)))"
    using c by (intro exI [of _ addr] exI [of _ s']) simp
next
  fix s v r l and addr :: u64 assume h: "page_state s v r" "v (unat addr div 4096) = Some l" "r (unat addr div 4096) = 1"
  from rt_pages_free_ok [OF h(1,2) refl] h(3)
  show "\<exists>s'. rt_pages_free addr l s = Some (1, s') \<and> page_state s' (v(unat addr div 4096 := None)) (r(unat addr div 4096 := 0))" by auto
qed

subsection \<open>Counting the free pages\<close>

lemma card_covered:
  assumes t: "tiles lo hi B"
  shows "card (covered B) = (\<Sum>a\<in>dom B. 2 ^ the (B a))"
proof -
  have "covered B = (\<Union>a\<in>dom B. block a (the (B a)))" unfolding covered_def by force
  moreover have "card (\<Union>a\<in>dom B. block a (the (B a))) = (\<Sum>a\<in>dom B. card (block a (the (B a))))"
  proof (rule card_UN_disjoint)
    show "\<forall>a\<in>dom B. \<forall>b\<in>dom B. a \<noteq> b \<longrightarrow> block a (the (B a)) \<inter> block b (the (B b)) = {}"
      using tilesD(4) [OF t] by (metis domD option.sel)
  qed (use tiles_finite [OF t] in simp_all)
  ultimately show ?thesis by simp
qed

definition on_level :: "page_store \<Rightarrow> nat \<Rightarrow> nat set" where
  "on_level s l = {i. i < page_nr s \<and> size_bits (pages s i) = l}"

lemma covered_levels:
  assumes inv: "page_inv s v"
  shows "card (covered (free_map s)) = (\<Sum>l<ARCH_PAGE_LIST_SIZE. card (on_level s l) * 2 ^ l)"
proof -
  let ?f = "free_map s" and ?n = ARCH_PAGE_LIST_SIZE
  have t: "tiles (base s) (base s + page_nr s) ?f"
    by (rule tiles_subset [OF page_invD(4) [OF inv]])
      (use page_invD(3) [OF inv] in \<open>auto simp: map_le_def map_add_dom_app_simps disjoint_iff\<close>)
  have "l < ?n" if "?f a = Some l" for a l using that unfolding free_map_Some by blast
  then have "(\<lambda>a. the (?f a)) ` dom ?f \<subseteq> {..<?n}" by auto
  then have "(\<Sum>l<?n. \<Sum>a\<in>{a \<in> dom ?f. the (?f a) = l}. 2 ^ the (?f a)) = (\<Sum>a\<in>dom ?f. 2 ^ the (?f a) :: nat)"
    by (intro sum.group) (simp_all add: tiles_finite [OF t])
  moreover have "(\<Sum>a\<in>{a \<in> dom ?f. the (?f a) = l}. 2 ^ the (?f a)) = card (on_level s l) * 2 ^ l" if l: "l < ?n" for l
  proof -
    have "{a \<in> dom ?f. the (?f a) = l} = (+) (base s) ` on_level s l"
      using l by (auto simp: free_map_Some on_level_def image_iff dom_def free_map_page)
    moreover have "card ((+) (base s) ` on_level s l) = card (on_level s l)" by (simp add: card_image)
    moreover have "(\<Sum>a\<in>{a \<in> dom ?f. the (?f a) = l}. 2 ^ the (?f a)) = (\<Sum>a\<in>{a \<in> dom ?f. the (?f a) = l}. 2 ^ l :: nat)"
      by (rule sum.cong) auto
    ultimately show ?thesis by (simp only: sum_constant of_nat_id)
  qed
  ultimately show ?thesis using card_covered [OF t] by simp
qed

lemma info_walk_ok:
  "dseg (pages s) pre h xs None \<Longrightarrow> info_walk h l t s = Some (t + of_nat (length xs * 2 ^ l))"
proof (induction xs arbitrary: pre h t)
  case Nil
  then show ?case by (subst info_walk.simps) simp
next
  case (Cons x xs)
  then have "info_walk h l t s = info_walk (pg_next (pages s x)) l (t + push_bit l 1) s" by (subst info_walk.simps) simp
  also have "\<dots> = Some (t + push_bit l 1 + of_nat (length xs * 2 ^ l))" by (rule Cons.IH [of "Some x"]) (use Cons.prems in simp)
  finally show ?case by (simp add: algebra_simps)
qed

lemma info_lists_ok:
  assumes "lists_ok s" and "set ls \<subseteq> {..<ARCH_PAGE_LIST_SIZE}"
  shows "info_lists ls t s = Some (t + of_nat (\<Sum>l\<leftarrow>ls. card (on_level s l) * 2 ^ l))"
  using assms(2)
proof (induction ls arbitrary: t)
  case (Cons l ls)
  then have "l < ARCH_PAGE_LIST_SIZE" by simp
  then obtain xs where xs: "list_ok s l xs" using assms(1) by (auto simp: lists_ok_def)
  then have "length xs = card (on_level s l)"
    using distinct_card [of xs] unfolding list_ok_def on_level_def by metis
  then have "info_walk (page_list s l) l t s = Some (t + of_nat (card (on_level s l) * 2 ^ l))"
    using info_walk_ok [of s None "page_list s l" xs l t] xs unfolding list_ok_def by simp
  then show ?case using Cons by (simp add: algebra_simps)
qed simp

lemma page_state_free:
  assumes st: "page_state s v r"
  shows "covered (free_map s) = {base s..<base s + page_nr s} - covered v" "covered v \<subseteq> {base s..<base s + page_nr s}"
proof -
  have inv: "page_inv s v" and all: "all_pages s v = {base s..<base s + page_nr s}" using st by (auto simp: page_state_def)
  have un: "all_pages s v = covered (free_map s) \<union> covered v"
    using page_invD(3) [OF inv] unfolding covered_def by (auto simp: map_add_Some_iff disjoint_iff domI)
  moreover have "covered (free_map s) \<inter> covered v = {}"
  proof (rule ccontr)
    assume "\<not> ?thesis"
    then obtain k a l b m where k: "free_map s a = Some l" "v b = Some m" "k \<in> block a l" "k \<in> block b m"
      unfolding covered_def by blast
    have av: "v a = None" using page_invD(3) [OF inv] k(1) by (meson disjoint_iff domI domIff)
    then have "(free_map s ++ v) a = Some l" "(free_map s ++ v) b = Some m" using k by (simp_all add: map_add_def)
    from tiles_same [OF page_invD(4) [OF inv] this k(3,4)] show False using av k(2) by simp
  qed
  ultimately show "covered (free_map s) = {base s..<base s + page_nr s} - covered v" "covered v \<subseteq> {base s..<base s + page_nr s}"
    using all by blast+
qed

lemma page_get_info_ok:
  assumes st: "page_state s v r"
  shows "rt_page_get_info s = Some (page_nr s, of_nat (card (covered (free_map s))))"
    "card (covered (free_map s)) + card (covered v) = page_nr s"
proof -
  have inv: "page_inv s v" and all: "all_pages s v = {base s..<base s + page_nr s}" using st by (auto simp: page_state_def)
  have "set [0..<ARCH_PAGE_LIST_SIZE] \<subseteq> {..<ARCH_PAGE_LIST_SIZE}" by auto
  from info_lists_ok [OF page_invD(2) [OF inv] this, of 0]
  show "rt_page_get_info s = Some (page_nr s, of_nat (card (covered (free_map s))))"
    unfolding covered_levels [OF inv] by (simp add: rt_page_get_info_def interv_sum_list_conv_sum_set_nat atLeast0LessThan)
  note f = page_state_free [OF st]
  have "card (covered (free_map s)) = card {base s..<base s + page_nr s} - card (covered v)"
    unfolding f(1) by (rule card_Diff_subset) (use f(2) finite_subset in auto)
  moreover have "card (covered v) \<le> card {base s..<base s + page_nr s}" using f(2) by (intro card_mono) simp_all
  ultimately show "card (covered (free_map s)) + card (covered v) = page_nr s" by simp
qed

subsection \<open>Initialisation\<close>

text \<open>The largest block that fits at the start of a range: its size is bounded by the range and by the alignment.\<close>

lemma first_block:
  assumes ab: "a < b" and b: "4096 * b < 2 ^ 64" and pos: "0 < a"
    and start: "unat start = 4096 * a" and fin: "unat stop = 4096 * b"
  shows "\<exists>l. (let sb = int ARCH_ADDRESS_WIDTH_BITS - 1 - rt_hw_clz (stop - start); align_bits = rt_hw_ctz start
      in if align_bits < sb then align_bits else sb) = int (l + 12) \<and> 2 ^ l dvd a \<and> a + 2 ^ l \<le> b"
proof -
  have "start \<le> stop" using ab start fin by (simp add: word_le_nat_alt)
  then have len: "unat (stop - start) = 4096 * (b - a)" using start fin by (simp add: unat_sub)
  obtain k where k: "2 ^ k \<le> b - a" "b - a < 2 ^ Suc k" using log_exists [of "b - a"] ab by auto
  have "rt_hw_clz (stop - start) = 63 - int (k + 12)" using k len by (intro clz_spec) (simp_all add: power_add)
  then have sb: "int ARCH_ADDRESS_WIDTH_BITS - 1 - rt_hw_clz (stop - start) = int (k + 12)" by (simp add: page_consts)
  obtain t q where t: "a = 2 ^ Suc t * q + 2 ^ t" using odd_part [OF pos] by blast
  have al: "rt_hw_ctz start = int (t + 12)" using start t by (intro ctz_spec [of _ _ q]) (simp add: power_add algebra_simps)
  have td: "2 ^ t dvd a" using t by simp
  show ?thesis
  proof (cases "t < k")
    case True
    then have "(2 :: nat) ^ t \<le> 2 ^ k" by (intro power_increasing) simp_all
    then have "a + 2 ^ t \<le> b" using k(1) ab by linarith
    then show ?thesis using True sb al td by (intro exI [of _ t]) (simp add: Let_def)
  next
    case False
    then have "(2 :: nat) ^ k dvd 2 ^ t" by (intro le_imp_power_dvd) simp
    then have "2 ^ k dvd a" using td dvd_trans by blast
    moreover have "a + 2 ^ k \<le> b" using k(1) ab by linarith
    ultimately show ?thesis using False sb al by (intro exI [of _ k]) (simp add: Let_def)
  qed
qed

text \<open>While the pool is built, the pages behind \<open>a\<close> are on no list yet.\<close>

definition building :: "page_store \<Rightarrow> nat \<Rightarrow> bool" where
  "building s a \<longleftrightarrow> page_inv s Map.empty \<and> covered (free_map s) = {base s..<a} \<and> base s \<le> a \<and> a \<le> base s + page_nr s \<and>
     (\<forall>i<page_nr s. ref_cnt (pages s i) = 0)"

lemma reserve_block:
  assumes b: "building s a" and a: "a < base s + page_nr s" "2 ^ l dvd a" "a + 2 ^ l \<le> base s + page_nr s"
  shows "in_hand (upd_page (a - base s) (\<lambda>x. x\<lparr>size_bits := ARCH_ADDRESS_WIDTH_BITS, ref_cnt := 1\<rparr>) s) Map.empty (a - base s) l"
    (is "in_hand ?s _ _ _")
    and "free_map (upd_page (a - base s) (\<lambda>x. x\<lparr>size_bits := ARCH_ADDRESS_WIDTH_BITS, ref_cnt := 1\<rparr>) s) = free_map s"
    and "base (upd_page (a - base s) (\<lambda>x. x\<lparr>size_bits := ARCH_ADDRESS_WIDTH_BITS, ref_cnt := 1\<rparr>) s) = base s"
proof -
  have inv: "page_inv s Map.empty" and cov: "covered (free_map s) = {base s..<a}" and lo: "base s \<le> a"
    using b by (simp_all add: building_def)
  let ?p = "a - base s"
  have p: "?p < page_nr s" "base s + ?p = a" using a(1) lo by simp_all
  have "a \<notin> covered (free_map s)" using cov by simp
  then have "free_map s a = None" by (rule uncovered)
  then have sz: "size_bits (pages s ?p) = ARCH_ADDRESS_WIDTH_BITS"
    using free_map_page [OF p(1)] page_invD(6) [OF inv p(1)] p(2) by (auto split: if_splits)
  have c: "page_inv ?s w = page_inv s w" "free_map ?s = free_map s" "base ?s = base s" for w
    by (rule page_inv_cong; use sz in \<open>simp add: upd_page_def\<close>)+
  show "free_map ?s = free_map s" "base ?s = base s" using c by simp_all
  have t: "tiles (base s) (base s + page_nr s) (free_map s)" using page_invD(4) [OF inv] by simp
  have "(free_map s)(a := None) = free_map s" using \<open>free_map s a = None\<close> by auto
  then have "tiles (base s) (base s + page_nr s) ((free_map s)(a \<mapsto> l))"
    using t lo a(2,3) cov by (intro tiles_upd) (auto simp: in_block)
  moreover have "free_map s ++ [a \<mapsto> l] = (free_map s)(a \<mapsto> l)" by simp
  moreover have "dom (free_map s) \<inter> dom [a \<mapsto> l] = {}" using \<open>free_map s a = None\<close> by auto
  ultimately have "page_inv s [a \<mapsto> l]" using inv unfolding page_inv_def by auto
  then show "in_hand ?s Map.empty ?p l" using c p by (simp add: in_hand_def) (simp add: upd_page_def)
qed

lemma init_loop_ok:
  assumes "building s a" and "unat start = 4096 * a" and "unat stop = 4096 * (base s + page_nr s)"
  shows "\<exists>s'. page_init_loop start stop s = Some s' \<and> building s' (base s + page_nr s) \<and>
    page_addr s' = page_addr s \<and> page_nr s' = page_nr s \<and> page_start s' = page_start s"
  using assms
proof (induction "base s + page_nr s - a" arbitrary: a s start rule: less_induct)
  case less
  have inv: "page_inv s Map.empty" and cov: "covered (free_map s) = {base s..<a}" and lo: "base s \<le> a" and hi: "a \<le> base s + page_nr s"
    using less.prems(1) by (simp_all add: building_def)
  note ok = page_invD(1) [OF inv] and pb = pool_base [OF page_invD(1) [OF inv]]
  show ?case
  proof (cases "a = base s + page_nr s")
    case True
    then have "start = stop" using less.prems(2,3) by (simp add: word_unat_eq_iff)
    then show ?thesis using True less.prems(1) by (subst page_init_loop.simps) simp
  next
    case False
    then have a: "a < base s + page_nr s" using hi by simp
    then have ne: "start \<noteq> stop" using less.prems(2,3) by auto
    let ?sb = "let sb = int ARCH_ADDRESS_WIDTH_BITS - 1 - rt_hw_clz (stop - start); align_bits = rt_hw_ctz start
      in if align_bits < sb then align_bits else sb"
    from first_block [OF a pb(3) _ less.prems(2,3)] pb(2) lo obtain l where
      l: "?sb = int (l + 12)" "2 ^ l dvd a" "a + 2 ^ l \<le> base s + page_nr s" by auto
    let ?p = "a - base s"
    let ?s1 = "upd_page ?p (\<lambda>x. x\<lparr>size_bits := ARCH_ADDRESS_WIDTH_BITS, ref_cnt := 1\<rparr>) s"
    note r = reserve_block [OF less.prems(1) a l(2,3)]
    have "base ?s1 + ?p = a" using r(3) lo by simp
    from release_last [OF r(1)] this obtain s2 where
      s2: "pages_free ?p l ?s1 = Some (1, s2)" "page_inv s2 Map.empty" "all_pages s2 Map.empty = all_pages ?s1 [a \<mapsto> l]"
        "page_addr s2 = page_addr s" "page_nr s2 = page_nr s" "page_start s2 = page_start s"
        "\<And>i. ref_cnt (pages s2 i) = (if i = ?p then 0 else ref_cnt (pages ?s1 i))"
      by (auto simp: upd_page_def)
    have b2: "base s2 = base s" using s2(4) by (simp add: base_def)
    have "free_map s a = None" using cov by (intro uncovered) simp
    then have "(free_map s)(a := None) = free_map s" by auto
    then have "covered (free_map s2) = block a l \<union> {base s..<a}"
      using s2(3) covered_upd [of "free_map s" a l] cov unfolding r(2) by simp
    then have "building s2 (a + 2 ^ l)"
      unfolding building_def b2 s2(5) using s2(2,7) lo l(3) less.prems(1) by (auto simp: block_def building_def upd_page_def)
    moreover have "unat (start + push_bit (l + 12) 1) = 4096 * (a + 2 ^ l)"
    proof -
      have top: "4096 * (a + 2 ^ l) < 2 ^ 64" using le_less_trans [OF mult_le_mono2 [OF l(3)] pb(3)] .
      have "l + 12 < 64"
      proof (rule exp_less_64)
        show "(2 :: nat) ^ (l + 12) < 2 ^ 64" using top by (simp add: power_add)
      qed
      then have u: "unat (push_bit (l + 12) 1 :: u64) = 4096 * 2 ^ l" using unat_push_one [of "l + 12"] by (simp add: power_add)
      have "unat start + unat (push_bit (l + 12) 1 :: u64) < 2 ^ 64" unfolding u less.prems(2) using top by simp
      then show ?thesis using u less.prems(2) by (simp add: unat_add_lem [THEN iffD1])
    qed
    moreover have "base s2 + page_nr s2 - (a + 2 ^ l) < base s + page_nr s - a"
      using b2 s2(5) a by (simp add: diff_less_mono2)
    moreover have "unat stop = 4096 * (base s2 + page_nr s2)" using less.prems(3) b2 s2(5) by simp
    ultimately obtain s' where
      s': "page_init_loop (start + push_bit (l + 12) 1) stop s2 = Some s'" "building s' (base s2 + page_nr s2)"
        "page_addr s' = page_addr s2" "page_nr s' = page_nr s2" "page_start s' = page_start s2"
      using less.hyps by blast
    have "addr_to_page start s = Some ?p" using addr_to_page_ok [OF ok, of start] less.prems(2) lo a by simp
    then have "page_init_loop start stop s = Some s'"
      using ne l(1) s2(1) s'(1) nat_int [of "l + 12"] by (subst page_init_loop.simps) (simp add: Let_def rt_assert_def page_consts)
    then show ?thesis using s'(2-5) s2(4-6) b2 by simp
  qed
qed

lemma page_mask: "unat (w AND NOT 4095) = unat w div 4096 * 4096" for w :: u64
  using and_not_low [of "unat w" 12] unsigned_less [of w, where 'a = nat] by simp

lemma empty_pool:
  assumes "pool_ok s" and "\<And>i. i < page_nr s \<Longrightarrow> size_bits (pages s i) = ARCH_ADDRESS_WIDTH_BITS"
    and "\<And>i. i < page_nr s \<Longrightarrow> ref_cnt (pages s i) = 0" and "\<And>l. l < ARCH_PAGE_LIST_SIZE \<Longrightarrow> page_list s l = None"
  shows "building s (base s)"
proof -
  have "free_map s a = None" for a using assms(2) by (simp add: free_map_def page_consts)
  then have f: "free_map s = Map.empty" by auto
  have "list_ok s l []" if "l < ARCH_PAGE_LIST_SIZE" for l
    using assms(2,4) that by (auto simp: list_ok_def page_consts)
  then have "lists_ok s" by (auto simp: lists_ok_def)
  then show ?thesis using assms(1-3) f
    by (simp add: building_def page_inv_def tiles_def coalesced_def covered_def)
qed

lemma page_init_ok:
  fixes a b :: nat
  defines "m \<equiv> (b - a + 170) div 171"
  assumes start: "a = (unat start + 4095) div 4096" "unat start + 4095 < 2 ^ 64" and fin: "b = unat stop div 4096"
    and room: "a + 2 \<le> b" "b - a \<le> 89653077"
  shows "\<exists>s'. rt_page_init start stop s = Some s' \<and> page_state s' Map.empty r \<and> unat (page_addr s') = 4096 * (a + m) \<and>
    page_nr s' = b - a - m \<and> unat (page_start s') = 4096 * a \<and> unat (page_start s') + sizeof_page * page_nr s' \<le> unat (page_addr s')"
proof -
  let ?t = "b - a"
  have m: "0 < m" "m < ?t" "171 * m \<ge> ?t" "m * 4096 < 2 ^ 31"
    using room unfolding m_def by (simp, linarith, linarith, simp add: div_less_iff_less_mult)
  let ?start = "(start + 4095) AND NOT 4095" and ?stop = "stop AND NOT 4095"
  have "unat (start + 4095) = unat start + 4095" using start(2) by (simp add: unat_add_lem [THEN iffD1])
  then have us: "unat ?start = 4096 * a" using page_mask [of "start + 4095"] start(1) by simp
  have ue: "unat ?stop = 4096 * b" using page_mask [of stop] fin by simp
  have b64: "4096 * b < 2 ^ 64" using ue unsigned_less [of ?stop, where 'a = nat] by simp
  have "?start \<le> ?stop" using us ue room(1) by (simp add: word_le_nat_alt)
  then have len: "unat (?stop - ?start) = 4096 * ?t" using us ue by (simp add: unat_sub)
  have dt: "unat (drop_bit 12 (?stop - ?start)) = ?t" unfolding unat_drop_bit_eq len by (simp add: drop_bit_eq_div)
  have t31: "?t < 2 ^ 31" using room(2) by simp
  have "(ucast (drop_bit 12 (?stop - ?start)) :: 32 word) = of_nat ?t"
    unfolding dt [symmetric] by simp
  then have total: "sint (ucast (drop_bit 12 (?stop - ?start)) :: 32 word) = int ?t" using sint_small [OF t31] by simp
  have mi: "(int ?t + 170) div (170 + 1) = int m" unfolding m_def by (simp add: zdiv_int)
  let ?first = "?start + word_of_int (int m * 4096)"
  have wm: "word_of_int (int m * 4096) = (of_nat (4096 * m) :: u64)" by simp
  have um: "unat (of_nat (4096 * m) :: u64) = 4096 * m" using m(4) by (intro unat_small) simp
  have am: "4096 * (a + m) < 2 ^ 64" using m(2) b64 by simp
  then have uf: "unat ?first = 4096 * (a + m)"
    unfolding wm using us um unat_add_lem [of ?start "of_nat (4096 * m)"] by simp
  have "?first \<le> ?stop" using uf ue m(2) by (simp add: word_le_nat_alt)
  then have "unat (?stop - ?first) = 4096 * (?t - m)" using uf ue by (simp add: unat_sub algebra_simps)
  then have nr: "unat (drop_bit 12 (?stop - ?first)) = ?t - m" unfolding unat_drop_bit_eq by (simp add: drop_bit_eq_div)
  define s1 where "s1 = s\<lparr>page_start := ?start, page_addr := ?first, page_nr := ?t - m,
    pages := (\<lambda>i. if i < ?t - m then \<lparr>pg_next = None, pg_pre = None, size_bits = ARCH_ADDRESS_WIDTH_BITS, ref_cnt = 0\<rparr> else pages s i),
    page_list := (\<lambda>i. if i < ARCH_PAGE_LIST_SIZE then None else page_list s i)\<rparr>"
  have base: "base s1 = a + m" using uf by (simp add: s1_def base_def)
  have "4096 * (a + m) + 4096 * (?t - m) = 4096 * b" using m(2) room(1) by simp
  moreover have pa: "unat (page_addr s1) = 4096 * (a + m)" "page_nr s1 = ?t - m" using uf by (simp_all add: s1_def)
  ultimately have "pool_ok s1" using m(1) b64 t31 unfolding pool_ok_def pa by simp
  then have "building s1 (base s1)" by (rule empty_pool) (simp_all add: s1_def)
  moreover have "unat ?first = 4096 * base s1" using uf base by simp
  moreover have "unat ?stop = 4096 * (base s1 + page_nr s1)" using ue base m(2) room(1) by (simp add: s1_def)
  ultimately obtain s2 where
    s2: "page_init_loop ?first ?stop s1 = Some s2" "building s2 (base s1 + page_nr s1)"
      "page_addr s2 = page_addr s1" "page_nr s2 = page_nr s1" "page_start s2 = page_start s1" using init_loop_ok by blast
  let ?s = "s2\<lparr>used_page_nr := 0, used_page_nr_peak := 0\<rparr>"
  have c: "page_inv ?s w = page_inv s2 w" "free_map ?s = free_map s2" "base ?s = base s2" for w by (rule page_inv_cong; simp)+
  have "base s2 = base s1" using s2(3) by (simp add: base_def)
  then have "page_state ?s Map.empty r" using s2(2,4) c unfolding page_state_def building_def by (simp add: covered_def)
  moreover have "rt_page_init start stop s = Some ?s"
  proof -
    have n: "int (4096 div 24) = 170" by simp
    have g: "int ?t + 170 < 2 ^ 31" "int m < int ?t" "int m * 4096 < 2 ^ 31" using m(2,4) room(2) by simp_all
    have r: "rt_assert (int ?t + 170 < 2 ^ 31) = Some ()" "rt_assert (int m < int ?t) = Some ()" "rt_assert (int m * 4096 < 2 ^ 31) = Some ()"
      by (simp_all only: rt_assert_def g if_True)
    show ?thesis
      unfolding rt_page_init_def Let_def ARCH_PAGE_SHIFT_def sizeof_page_def n total mi nr r Option.bind_lunit
      using s2(1) unfolding s1_def by (simp cong: if_cong)
  qed
  moreover have "24 * (?t - m) \<le> 4096 * m" using m(3) by simp
  ultimately show ?thesis using s2(3-5) uf us unfolding s1_def
    by (intro exI [of _ ?s]) (simp add: sizeof_page_def)
qed

subsection \<open>Histories\<close>

text \<open>A region of at least two pages whose descriptors and offsets fit the machine integers.\<close>

definition region_ok :: "u64 \<Rightarrow> u64 \<Rightarrow> bool" where
  "region_ok start stop \<longleftrightarrow> unat start + 4095 < 2 ^ 64 \<and> (unat start + 4095) div 4096 + 2 \<le> unat stop div 4096 \<and>
     unat stop div 4096 - (unat start + 4095) div 4096 \<le> 89653077"

text \<open>Histories from the initialisation on, with the blocks in use and their references.  A caller frees a block with
  the level of its allocation; it shares a block through any of its pages when the pool is aligned to the
  size of the block, which it is for single pages.\<close>

inductive page_trace :: "u64 \<Rightarrow> u64 \<Rightarrow> page_store \<Rightarrow> tiling \<Rightarrow> (nat \<Rightarrow> nat) \<Rightarrow> page_store \<Rightarrow> bool"
  for start :: u64 and stop :: u64 and init :: page_store where
  start: "rt_page_init start stop init = Some s \<Longrightarrow> page_trace start stop init Map.empty (\<lambda>_. 0) s"
| alloc: "page_trace start stop init v r s \<Longrightarrow> l < ARCH_PAGE_LIST_SIZE \<Longrightarrow> rt_pages_alloc l s = Some (addr, s') \<Longrightarrow> addr \<noteq> 0 \<Longrightarrow>
    page_trace start stop init (v(unat addr div 4096 \<mapsto> l)) (r(unat addr div 4096 := 1)) s'"
| refuse: "page_trace start stop init v r s \<Longrightarrow> l < ARCH_PAGE_LIST_SIZE \<Longrightarrow> rt_pages_alloc l s = Some (addr, s') \<Longrightarrow> addr = 0 \<Longrightarrow>
    page_trace start stop init v r s'"
| free: "page_trace start stop init v r s \<Longrightarrow> v a = Some l \<Longrightarrow> unat addr div 4096 = a \<Longrightarrow> rt_pages_free addr l s = Some (k, s') \<Longrightarrow>
    page_trace start stop init (if k = 1 then v(a := None) else v) (r(a := r a - 1)) s'"
| share: "page_trace start stop init v r s \<Longrightarrow> v a = Some l \<Longrightarrow> unat addr div 4096 \<in> block a l \<Longrightarrow> 2 ^ l dvd base s \<Longrightarrow>
    r a < 2 ^ 31 - 1 \<Longrightarrow> rt_page_ref_inc addr l s = Some s' \<Longrightarrow> page_trace start stop init v (r(a := r a + 1)) s'"

lemma pool_span: "m < b - a \<Longrightarrow> 4096 * (a + m) + 4096 * (b - a - m) = b * (4096 :: nat)"
  by simp

lemma region_init:
  assumes "region_ok start stop"
  shows "\<exists>s. rt_page_init start stop init = Some s \<and> page_state s Map.empty r \<and> unat start \<le> unat (page_start s) \<and>
    unat (page_start s) + sizeof_page * page_nr s \<le> unat (page_addr s) \<and>
    unat (page_addr s) + 4096 * page_nr s = unat stop div 4096 * 4096 \<and> 0 < page_nr s"
proof -
  let ?a = "(unat start + 4095) div 4096" and ?b = "unat stop div 4096"
  let ?m = "(?b - ?a + 170) div 171"
  have r: "unat start + 4095 < 2 ^ 64" "?a + 2 \<le> ?b" "?b - ?a \<le> 89653077" using assms by (simp_all add: region_ok_def)
  from page_init_ok [OF refl r(1) refl r(2,3), of init r] obtain s where
    s: "rt_page_init start stop init = Some s" "page_state s Map.empty r" "unat (page_addr s) = 4096 * (?a + ?m)" "page_nr s = ?b - ?a - ?m"
      "unat (page_start s) = 4096 * ?a" "unat (page_start s) + sizeof_page * page_nr s \<le> unat (page_addr s)" by blast
  have m: "?m < ?b - ?a" using r(2) by linarith
  have "unat (page_addr s) + 4096 * page_nr s = ?b * 4096" unfolding s(3,4) by (rule pool_span [OF m])
  moreover have "unat start \<le> unat (page_start s)" unfolding s(5) by simp
  moreover have "0 < page_nr s" unfolding s(4) using m by (rule zero_less_diff [THEN iffD2])
  ultimately show ?thesis using s(1,2,6) by blast
qed

lemma page_trace_state:
  assumes "page_trace start stop init v r s" and "region_ok start stop"
  shows "page_state s v r \<and> (\<exists>s0. rt_page_init start stop init = Some s0 \<and> page_addr s = page_addr s0 \<and> page_nr s = page_nr s0)"
  using assms(1)
proof (induction rule: page_trace.induct)
  case (start s)
  then show ?case using region_init [OF assms(2), of init "\<lambda>_. 0"] by auto
next
  case (alloc v r s l addr s')
  then obtain a where a: "unat addr = 4096 * a" "page_state s' (v(a \<mapsto> l)) (r(a := 1))" "page_addr s' = page_addr s" "page_nr s' = page_nr s"
    using rt_pages_alloc_ok [of s v r l] by auto
  have "unat addr div 4096 = a" using a(1) by simp
  then show ?case using a(2-4) alloc.IH by (simp only:)
next
  case (refuse v r s l addr s')
  then show ?case using rt_pages_alloc_ok [of s v r l] by auto
next
  case (free v r s a l addr k s')
  then have st: "page_state s v r" by blast
  from rt_pages_free_ok [OF st free.hyps(2,3)] free.hyps(4) have
    "page_state s' (if r a = 1 then v(a := None) else v) (r(a := r a - 1))" "page_addr s' = page_addr s" "page_nr s' = page_nr s"
    "(k = 1) = (r a = 1)" by auto
  then show ?case using free.IH by (simp only:)
next
  case (share v r s a l addr s')
  then have st: "page_state s v r" by blast
  from ref_inc_ok(1) [OF st share.hyps(2-5)] share.hyps(6) have
    "page_state s' v (r(a := r a + 1))" "page_addr s' = page_addr s" "page_nr s' = page_nr s" by auto
  then show ?case using share.IH by (simp only:)
qed

subsection \<open>Properties\<close>

definition sample_pool :: page_store where
  "sample_pool = \<lparr>pages = (\<lambda>_. \<lparr>pg_next = None, pg_pre = None, size_bits = 0, ref_cnt = 0\<rparr>), page_start = 0, page_addr = 0,
     page_nr = 0, used_page_nr = 0, used_page_nr_peak = 0, page_list = (\<lambda>_. None)\<rparr>"

lemma sample_region: "region_ok 5000 40960"
  by (simp add: region_ok_def)

lemma sample_start: "\<exists>s. rt_page_init 5000 40960 sample_pool = Some s \<and> page_trace 5000 40960 sample_pool Map.empty (\<lambda>_. 0) s"
  using region_init [OF sample_region, of sample_pool "\<lambda>_. 0"] page_trace.start by blast

text \<open>C22: Initialisation.  For a region of at least two and at most 89653077 pages the call returns; the descriptors lie inside the region
  in front of the pool, the pool ends at the last page boundary of the region, and all its pages are free, none in use.\<close>

theorem page_init_spec:
  assumes "region_ok start stop"
  shows "\<exists>s. rt_page_init start stop init = Some s \<and> unat start \<le> unat (page_start s)
    \<and> unat (page_start s) + sizeof_page * page_nr s \<le> unat (page_addr s)
    \<and> unat (page_addr s) + 4096 * page_nr s = unat stop div 4096 * 4096
    \<and> covered (free_map s) = {base s..<base s + page_nr s} \<and> 0 < page_nr s \<and> used_page_nr s = 0"
proof -
  from region_init [OF assms, of init "\<lambda>_. 0"] obtain s where
    s: "rt_page_init start stop init = Some s" "page_state s Map.empty (\<lambda>_. 0)" "unat start \<le> unat (page_start s)"
      "unat (page_start s) + sizeof_page * page_nr s \<le> unat (page_addr s)"
      "unat (page_addr s) + 4096 * page_nr s = unat stop div 4096 * 4096" "0 < page_nr s" by blast
  have "covered Map.empty = {}" by (simp add: covered_def)
  then have "covered (free_map s) = {base s..<base s + page_nr s}" "used_page_nr s = 0"
    using page_state_free(1) [OF s(2)] s(2) by (simp_all add: page_state_def unat_eq_0)
  then show ?thesis using s by blast
qed

theorem page_init_spec_witness: "\<exists>s. rt_page_init 5000 40960 sample_pool = Some s \<and> 0 < page_nr s"
  using page_init_spec [OF sample_region, of sample_pool] by blast

text \<open>C6: No page is given to two holders.  After any history of allocations, releases and sharing from the
  initialisation on, in which a block is shared when the pool is aligned to its size (always so for single
  pages; the property of the misdirected reference shows what happens otherwise), the blocks in use are disjoint, aligned to their size and inside the pool; an allocation
  returns, and returns a block of pages none of which is in use, or null only when every free block is smaller.\<close>

theorem pages_exclusive:
  assumes "page_trace start stop init v r s" and "region_ok start stop"
  shows "(\<forall>a l b m. v a = Some l \<and> v b = Some m \<and> a \<noteq> b \<longrightarrow> block a l \<inter> block b m = {})
    \<and> (\<forall>a l. v a = Some l \<longrightarrow> 2 ^ l dvd a \<and> unat (page_addr s) \<le> 4096 * a \<and> 4096 * (a + 2 ^ l) \<le> unat stop)
    \<and> (\<forall>l<ARCH_PAGE_LIST_SIZE. \<exists>addr s'. rt_pages_alloc l s = Some (addr, s') \<and>
         (if addr = 0 then s' = s \<and> (\<forall>a m. free_map s a = Some m \<longrightarrow> m < l)
          else \<exists>a. unat addr = 4096 * a \<and> 2 ^ l dvd a \<and> block a l \<inter> covered v = {} \<and>
            unat (page_addr s) \<le> 4096 * a \<and> 4096 * (a + 2 ^ l) \<le> unat stop))"
proof -
  from page_trace_state [OF assms] obtain s0 where
    st: "page_state s v r" and s0: "rt_page_init start stop init = Some s0" "page_addr s = page_addr s0" "page_nr s = page_nr s0" by blast
  from region_init [OF assms(2), of init r] s0 have "unat (page_addr s) + 4096 * page_nr s = unat stop div 4096 * 4096" by auto
  then have top: "unat (page_addr s) + 4096 * page_nr s \<le> unat stop" by simp
  have inside: "2 ^ l dvd a \<and> unat (page_addr s) \<le> 4096 * a \<and> 4096 * (a + 2 ^ l) \<le> unat stop"
    if w: "page_state s' w q" "w a = Some l" and same: "page_addr s' = page_addr s" "page_nr s' = page_nr s" for s' w q a l
  proof -
    have inv: "page_inv s' w" using w(1) by (simp add: page_state_def)
    have b: "unat (page_addr s) = 4096 * base s'" using pool_base(1) [OF page_invD(1) [OF inv]] same by simp
    note t = tilesD(1-3) [OF tiles_live [OF inv] w(2)]
    have "4096 * (a + 2 ^ l) \<le> 4096 * (base s' + page_nr s')" using t(3) by (rule mult_le_mono2)
    also have "\<dots> \<le> unat stop" using top b same by (simp add: algebra_simps)
    finally show ?thesis using t(1,2) b by simp
  qed
  have inv: "page_inv s v" using st by (simp add: page_state_def)
  have "\<exists>addr s'. rt_pages_alloc l s = Some (addr, s') \<and>
         (if addr = 0 then s' = s \<and> (\<forall>a m. free_map s a = Some m \<longrightarrow> m < l)
          else \<exists>a. unat addr = 4096 * a \<and> 2 ^ l dvd a \<and> block a l \<inter> covered v = {} \<and>
            unat (page_addr s) \<le> 4096 * a \<and> 4096 * (a + 2 ^ l) \<le> unat stop)" if l: "l < ARCH_PAGE_LIST_SIZE" for l
  proof -
    from rt_pages_alloc_ok [OF st l] obtain addr s' where c: "rt_pages_alloc l s = Some (addr, s')"
      "if addr = 0 then s' = s \<and> (\<forall>a m. free_map s a = Some m \<longrightarrow> m < l)
       else (\<exists>a. unat addr = 4096 * a \<and> v a = None \<and> block a l \<inter> covered v = {} \<and> page_state s' (v(a \<mapsto> l)) (r(a := 1)))
         \<and> page_addr s' = page_addr s \<and> page_nr s' = page_nr s" by blast
    show ?thesis
    proof (cases "addr = 0")
      case False
      then obtain a where a: "unat addr = 4096 * a" "block a l \<inter> covered v = {}" "page_state s' (v(a \<mapsto> l)) (r(a := 1))"
          "page_addr s' = page_addr s" "page_nr s' = page_nr s" using c(2) by auto
      have "(v(a \<mapsto> l)) a = Some l" by simp
      note i = inside [OF a(3) this a(4,5)]
      then have "\<exists>a. unat addr = 4096 * a \<and> 2 ^ l dvd a \<and> block a l \<inter> covered v = {} \<and>
          unat (page_addr s) \<le> 4096 * a \<and> 4096 * (a + 2 ^ l) \<le> unat stop" using a(1,2) by blast
      then show ?thesis using c(1) False by (intro exI [of _ addr] exI [of _ s']) simp
    qed (use c in auto)
  qed
  moreover have "block a l \<inter> block b m = {}" if "v a = Some l \<and> v b = Some m \<and> a \<noteq> b" for a l b m
    using tilesD(4) [OF tiles_live [OF inv]] that by blast
  moreover have "2 ^ l dvd a \<and> unat (page_addr s) \<le> 4096 * a \<and> 4096 * (a + 2 ^ l) \<le> unat stop" if "v a = Some l" for a l
    using inside [OF st that] by simp
  ultimately show ?thesis by blast
qed

theorem pages_exclusive_witness:
  "\<exists>s. rt_page_init 5000 40960 sample_pool = Some s \<and> (\<exists>addr s'. rt_pages_alloc 2 s = Some (addr, s'))"
proof -
  obtain s where s: "rt_page_init 5000 40960 sample_pool = Some s" "page_trace 5000 40960 sample_pool Map.empty (\<lambda>_. 0) s"
    using sample_start by blast
  have "2 < ARCH_PAGE_LIST_SIZE" by (simp add: page_consts)
  then show ?thesis using s(1) pages_exclusive [OF s(2) sample_region] by blast
qed

text \<open>C13: No lasting fragmentation.  Whatever the order in which blocks were allocated, shared and released, once all
  are released the free blocks are the same as after the initialisation.\<close>

theorem pages_coalesce:
  assumes "page_trace start stop init Map.empty r s" and "region_ok start stop"
  shows "\<exists>s0. rt_page_init start stop init = Some s0 \<and> free_map s = free_map s0"
proof -
  from page_trace_state [OF assms] obtain s0 where
    st: "page_state s Map.empty r" and s0: "rt_page_init start stop init = Some s0" "page_addr s = page_addr s0" "page_nr s = page_nr s0" by blast
  from region_init [OF assms(2), of init r] s0(1) have st0: "page_state s0 Map.empty r" by auto
  have b: "base s = base s0" using s0(2) by (simp add: base_def)
  have "free_map s = free_map s0"
  proof (rule coalesced_unique)
    show "tiles (base s) (base s + page_nr s) (free_map s)" "coalesced (free_map s)"
      using st page_invD(4,5) [of s Map.empty] by (simp_all add: page_state_def)
    show "tiles (base s0) (base s0 + page_nr s0) (free_map s0)" "coalesced (free_map s0)"
      using st0 page_invD(4,5) [of s0 Map.empty] by (simp_all add: page_state_def)
    show "covered (free_map s) = covered (free_map s0)" using st st0 b s0(3) by (simp add: page_state_def)
  qed
  then show ?thesis using s0(1) by blast
qed

theorem pages_coalesce_witness:
  "\<exists>s. page_trace 5000 40960 sample_pool Map.empty (\<lambda>_. 0) s \<and> (\<exists>s0. rt_page_init 5000 40960 sample_pool = Some s0 \<and> free_map s = free_map s0)"
  using sample_start pages_coalesce [OF _ sample_region] by blast

text \<open>C28: The page counts.  After any history the reported number of free pages and the pages of the blocks in use
  add up to the pages of the pool, and the counter of used pages is the number of pages in use.\<close>

theorem page_info_spec:
  assumes "page_trace start stop init v r s" and "region_ok start stop"
  shows "\<exists>n. rt_page_get_info s = Some (page_nr s, n) \<and> unat n + card (covered v) = page_nr s
    \<and> unat (used_page_nr s) = card (covered v)"
proof -
  from page_trace_state [OF assms] have st: "page_state s v r" by blast
  note i = page_get_info_ok [OF st]
  have "page_nr s < 2 ^ 31" using st page_invD(1) [of s v] by (simp add: page_state_def pool_ok_def)
  then have "unat (of_nat (card (covered (free_map s))) :: u64) = card (covered (free_map s))" using i(2) by (intro unat_small) simp
  then show ?thesis using i st by (simp add: page_state_def)
qed

theorem page_info_spec_witness:
  "\<exists>s n. rt_page_init 5000 40960 sample_pool = Some s \<and> rt_page_get_info s = Some (page_nr s, n) \<and> unat n = page_nr s"
proof -
  obtain s where s: "rt_page_init 5000 40960 sample_pool = Some s" "page_trace 5000 40960 sample_pool Map.empty (\<lambda>_. 0) s"
    using sample_start by blast
  then show ?thesis using page_info_spec [OF s(2) sample_region] by (auto simp: covered_def)
qed

text \<open>C24: Releasing a reference, of those counted by a history in which a block is shared when the pool is
  aligned to its size.  The call returns 1 exactly for the last reference of a block; then all its pages are
  free and no two free blocks are buddies, otherwise the free blocks stay as they are.\<close>

theorem pages_free_spec:
  assumes "page_trace start stop init v r s" and "region_ok start stop" and "v (unat addr div 4096) = Some l"
  shows "\<exists>k s'. rt_pages_free addr l s = Some (k, s') \<and> k = (if r (unat addr div 4096) = 1 then 1 else 0)
    \<and> covered (free_map s') = (if k = 1 then covered (free_map s) \<union> block (unat addr div 4096) l else covered (free_map s))
    \<and> coalesced (free_map s')"
proof -
  let ?a = "unat addr div 4096"
  from page_trace_state [OF assms(1,2)] have st: "page_state s v r" by blast
  from rt_pages_free_ok [OF st assms(3) refl] obtain s' where
    s': "rt_pages_free addr l s = Some (if r ?a = 1 then 1 else 0, s')" "page_state s' (if r ?a = 1 then v(?a := None) else v) (r(?a := r ?a - 1))"
      "page_addr s' = page_addr s" "page_nr s' = page_nr s" by blast
  have pool: "covered (free_map x) = {base x..<base x + page_nr x} - covered w" if "page_state x w q" for x w q
    using page_state_free(1) [OF that] .
  have b: "base s' = base s" using s'(3) by (simp add: base_def)
  have inv: "page_inv s v" using st by (simp add: page_state_def)
  note t = tiles_live [OF inv]
  have sub: "block ?a l \<subseteq> {base s..<base s + page_nr s}" "block ?a l \<subseteq> covered v"
    using covered_block [of v, OF assms(3)] covered_bounds [OF t] by auto
  have "covered (free_map s') = (if r ?a = 1 then covered (free_map s) \<union> block ?a l else covered (free_map s))"
    using pool [OF st] pool [OF s'(2)] covered_minus [OF t assms(3)] sub b s'(4) by auto
  moreover have "coalesced (free_map s')" using s'(2) page_invD(5) by (auto simp: page_state_def split: if_splits)
  ultimately show ?thesis using s'(1) by auto
qed

text \<open>A block of the sample region is in use after an allocation of one page.\<close>

lemma sample_page:
  "\<exists>s addr s'. rt_page_init 5000 40960 sample_pool = Some s \<and> page_trace 5000 40960 sample_pool Map.empty (\<lambda>_. 0) s \<and>
    rt_pages_alloc 0 s = Some (addr, s') \<and> addr \<noteq> 0"
proof -
  obtain s where s: "rt_page_init 5000 40960 sample_pool = Some s" "page_trace 5000 40960 sample_pool Map.empty (\<lambda>_. 0) s"
    using sample_start by blast
  have st: "page_state s Map.empty (\<lambda>_. 0)" using page_trace_state [OF s(2) sample_region] by blast
  have l: "0 < ARCH_PAGE_LIST_SIZE" by (simp add: page_consts)
  from rt_pages_alloc_ok [OF st l] obtain addr s' where c: "rt_pages_alloc 0 s = Some (addr, s')"
    "addr = 0 \<Longrightarrow> \<forall>a m. free_map s a \<noteq> Some m" by (auto split: if_splits)
  have "0 < page_nr s" using region_init [OF sample_region, of sample_pool "\<lambda>_. 0"] s(1) by auto
  then have "covered (free_map s) \<noteq> {}" using page_state_free(1) [OF st] by (auto simp: covered_def)
  then obtain a m where "free_map s a = Some m" unfolding covered_def by blast
  then have "addr \<noteq> 0" using c(2) by auto
  then show ?thesis using s c(1) by blast
qed

lemma sample_alloc:
  "\<exists>(addr :: u64) r s. page_trace 5000 40960 sample_pool [unat addr div 4096 \<mapsto> 0] r s \<and> r (unat addr div 4096) = 1"
proof -
  obtain s addr s' where s: "page_trace 5000 40960 sample_pool Map.empty (\<lambda>_. 0) s" "rt_pages_alloc 0 s = Some (addr, s')" "addr \<noteq> 0"
    using sample_page by blast
  have l: "0 < ARCH_PAGE_LIST_SIZE" by (simp add: page_consts)
  from page_trace.alloc [OF s(1) l s(2,3)] show ?thesis by (intro exI [of _ addr]) auto
qed

theorem pages_free_spec_witness:
  "\<exists>(addr :: u64) r s s'. page_trace 5000 40960 sample_pool [unat addr div 4096 \<mapsto> 0] r s \<and> rt_pages_free addr 0 s = Some (1, s')"
proof -
  obtain addr :: u64 and r s where s: "page_trace 5000 40960 sample_pool [unat addr div 4096 \<mapsto> 0] r s" "r (unat addr div 4096) = 1"
    using sample_alloc by blast
  then show ?thesis using pages_free_spec [OF s(1) sample_region, of addr 0] by auto
qed

text \<open>C32: Sharing a block in a pool that is not aligned to the size of the block counts the reference at another
  page: the group is computed from the index of the page, blocks are aligned by address.  The count of the block stays, so that the
  next release frees the block although it is shared.\<close>

theorem page_ref_misdirected:
  assumes "page_trace start stop init v r s" and "region_ok start stop" and "v a = Some l" and "r a = 1"
    and "\<forall>b\<in>dom v. r b < 2 ^ 31 - 1" and "\<not> 2 ^ l dvd base s" and "unat addr = 4096 * a"
  shows "\<exists>s' h. rt_page_ref_inc addr l s = Some s' \<and> h \<noteq> a - base s \<and> ref_cnt (pages s' h) = ref_cnt (pages s h) + 1
    \<and> ref_cnt (pages s' (a - base s)) = 1 \<and> (\<exists>s''. rt_pages_free addr l s' = Some (1, s''))"
proof -
  let ?p = "a - base s" and ?h = "(a - base s) div 2 ^ l * 2 ^ l"
  from page_trace_state [OF assms(1,2)] have st: "page_state s v r" by blast
  have inv: "page_inv s v" using st by (simp add: page_state_def)
  note h = live_hand [OF inv assms(3)]
  note d = in_handD [OF h(1)]
  have nd: "\<not> 2 ^ l dvd ?p"
  proof
    assume "2 ^ l dvd ?p"
    from dvd_diff_nat [OF d(7) this] have "2 ^ l dvd base s" by (simp only: diff_add_inverse2)
    then show False using assms(6) by simp
  qed
  then have ne: "?h \<noteq> ?p" by (metis dvd_triv_right)
  have "?h \<le> ?p" by simp
  then have hn: "?h < page_nr s" using d(1) by (rule le_less_trans)
  have small: "ref_cnt (pages s ?h) < 2 ^ 31 - 1"
  proof (cases "base s + ?h \<in> dom v")
    case True
    have "base s + ?h - base s = ?h" by simp
    then have "ref_cnt (pages s ?h) = int (r (base s + ?h))" using st True unfolding page_state_def by metis
    then show ?thesis using assms(5) True by auto
  next
    case False
    then have "ref_cnt (pages s ?h) = 0" using st hn unfolding page_state_def by blast
    then show ?thesis by simp
  qed
  let ?s = "upd_page ?h (\<lambda>x. x\<lparr>ref_cnt := ref_cnt x + 1\<rparr>) s"
  have page: "addr_to_page addr x = Some ?p" if "pool_ok x" "base x = base s" "page_nr x = page_nr s" for x
    using addr_to_page_ok [OF that(1), of addr] assms(7) h(2,3) that(2,3) by simp
  have inc: "rt_page_ref_inc addr l s = Some ?s"
    using page [OF page_invD(1) [OF inv]] page_head_ok [OF page_invD(1) [OF inv] d(1), of l] d(6) small
    by (simp add: rt_page_ref_inc_def pages_ref_inc_def rt_assert_def)
  have c: "page_inv ?s w = page_inv s w" "base ?s = base s" for w by (rule page_inv_cong; simp add: upd_page_def)+
  have nr: "page_nr ?s = page_nr s" by (simp add: upd_page_def)
  have hand: "in_hand ?s (v(a := None)) ?p l" using h(1) c nr by (simp add: in_hand_def)
  have "ref_cnt (pages s ?p) = int (r a)" using st assms(3) by (auto simp: page_state_def)
  then have one: "ref_cnt (pages ?s ?p) = 1" using assms(4) ne by (auto simp: upd_page_def)
  have "pool_ok ?s" using page_invD(1) [OF in_handD(3) [OF hand]] .
  then have "\<exists>s''. rt_pages_free addr l ?s = Some (1, s'')"
    using release_last [OF hand one] page [of ?s] c(2) nr by (auto simp: rt_pages_free_def)
  moreover have "ref_cnt (pages ?s ?h) = ref_cnt (pages s ?h) + 1" by (simp add: upd_page_def)
  ultimately show ?thesis using inc ne one by blast
qed

text \<open>In the sample region the pool starts at page 3; a block of two pages is not aligned in it.\<close>

lemma sample_pair:
  "\<exists>(addr :: u64) r s. page_trace 5000 40960 sample_pool [unat addr div 4096 \<mapsto> 1] r s \<and> r (unat addr div 4096) = 1
    \<and> base s = 3 \<and> unat addr = 4096 * (unat addr div 4096)"
proof -
  have i: "\<exists>s. rt_page_init 5000 40960 sample_pool = Some s \<and> page_state s Map.empty (\<lambda>_. 0) \<and> unat (page_addr s) = 4096 * 3 \<and> page_nr s = 7"
    using page_init_ok [of 2 5000 10 40960 sample_pool "\<lambda>_. 0"] by auto
  then obtain s where s: "rt_page_init 5000 40960 sample_pool = Some s" "page_state s Map.empty (\<lambda>_. 0)"
      "unat (page_addr s) = 4096 * 3" "page_nr s = 7" by blast
  have b: "base s = 3" using s(3) by (simp add: base_def)
  have tr: "page_trace 5000 40960 sample_pool Map.empty (\<lambda>_. 0) s" using s(1) by (rule page_trace.start)
  have l: "1 < ARCH_PAGE_LIST_SIZE" by (simp add: page_consts)
  from rt_pages_alloc_ok [OF s(2) l] obtain addr s' where c: "rt_pages_alloc 1 s = Some (addr, s')"
    "addr = 0 \<Longrightarrow> \<forall>a m. free_map s a = Some m \<longrightarrow> m < 1"
    "addr \<noteq> 0 \<Longrightarrow> (\<exists>a. unat addr = 4096 * a) \<and> page_addr s' = page_addr s" by (auto split: if_splits)
  have "addr \<noteq> 0"
  proof
    assume "addr = 0"
    then have zero: "m = 0" if "free_map s a = Some m" for a m using c(2) that by auto
    have "covered (free_map s) = {3..<10}" using page_state_free(1) [OF s(2)] b s(4) by (simp add: covered_def)
    then have cov: "4 \<in> covered (free_map s)" "5 \<in> covered (free_map s)" by simp_all
    have single: "free_map s k = Some 0" if k: "k \<in> covered (free_map s)" for k
    proof -
      obtain a m where a: "free_map s a = Some m" "k \<in> block a m" using k unfolding covered_def by blast
      moreover have "m = 0" by (rule zero [OF a(1)])
      ultimately have "k = a" by (simp add: in_block)
      then show ?thesis using a(1) \<open>m = 0\<close> by simp
    qed
    have "free_map s 4 = Some 0" "free_map s 5 = Some 0" using single cov by simp_all
    moreover have "coalesced (free_map s)" using s(2) page_invD(5) by (auto simp: page_state_def)
    moreover have "mate 0 4 = 5" by (simp add: mate_def)
    ultimately show False unfolding coalesced_def by metis
  qed
  then have "page_trace 5000 40960 sample_pool (Map.empty(unat addr div 4096 \<mapsto> 1)) ((\<lambda>_. 0)(unat addr div 4096 := 1)) s'"
    by (rule page_trace.alloc [OF tr l c(1)])
  moreover have "base s' = 3" "unat addr = 4096 * (unat addr div 4096)"
    using c(3) \<open>addr \<noteq> 0\<close> b by (auto simp: base_def)
  ultimately show ?thesis by (intro exI [of _ addr] exI [of _ "(\<lambda>_. 0)(unat addr div 4096 := 1)"] exI [of _ s']) simp
qed

theorem page_ref_misdirected_witness:
  "\<exists>(addr :: u64) s s' s''. rt_page_ref_inc addr 1 s = Some s' \<and> rt_pages_free addr 1 s' = Some (1, s'')"
proof -
  obtain addr :: u64 and r s where s: "page_trace 5000 40960 sample_pool [unat addr div 4096 \<mapsto> 1] r s" "r (unat addr div 4096) = 1"
      "base s = 3" "unat addr = 4096 * (unat addr div 4096)" using sample_pair by blast
  have "\<not> 2 ^ 1 dvd base s" "\<forall>b\<in>dom [unat addr div 4096 \<mapsto> 1]. r b < 2 ^ 31 - 1" using s(2,3) by simp_all
  then show ?thesis using page_ref_misdirected [OF s(1) sample_region _ s(2) _ _ s(4), of 1] by auto
qed

end
