(* ===== verification/Shm.thy ===== *)
theory Shm
  imports IdTable PageAlloc
begin

text \<open>
  Shared memories, \<^verbatim>\<open>components/lwp/lwp_shm.c\<close>: a table of memories with a chain of released entries through
  their address field, two search trees over the entries in use, by key and by physical address, and the page
  allocator.  The pair of tree nodes of a memory is one allocation of the heap; its number names the node in both trees.  The
  data of a node is the index of the entry.  What \<^verbatim>\<open>rt_malloc\<close> returns and what the memory management
  unit answers (\<^verbatim>\<open>lwp_map_user_type\<close>, \<^verbatim>\<open>rt_hw_mmu_v2p\<close>) are arguments.
\<close>

subsection \<open>Operations\<close>

definition RT_LWP_SHM_MAX_NR :: nat where "RT_LWP_SHM_MAX_NR = 64"
definition PV_OFFSET :: u64 where "PV_OFFSET = 0"

record lwp_shm_struct =
  shm_addr :: u64
  shm_size :: u64
  shm_ref :: int
  shm_key :: u64

record shm_store =
  shm_tree_key :: avl_store
  shm_tree_pa :: avl_store
  shm_free_list :: int
  shm_id_used :: nat
  shm_ary :: "nat \<Rightarrow> lwp_shm_struct"
  shm_pages :: page_store

definition shm_id_alloc :: "shm_store \<Rightarrow> int \<times> shm_store" where
  "shm_id_alloc s =
     (if shm_free_list s \<noteq> - 1
      then (shm_free_list s, s\<lparr>shm_free_list := sint (ucast (shm_addr (shm_ary s (nat (shm_free_list s)))) :: 32 word)\<rparr>)
      else if shm_id_used s < RT_LWP_SHM_MAX_NR
      then (int (shm_id_used s), s\<lparr>shm_id_used := shm_id_used s + 1\<rparr>)
      else (- 1, s))"

definition shm_id_free :: "int \<Rightarrow> shm_store \<Rightarrow> shm_store" where
  "shm_id_free sid s =
     s\<lparr>shm_ary := (shm_ary s)(nat sid := (shm_ary s (nat sid))\<lparr>shm_addr := word_of_int (shm_free_list s)\<rparr>), shm_free_list := sid\<rparr>"

text \<open>The part of \<^verbatim>\<open>_lwp_shmget\<close> from the table entry to the trees.\<close>

definition shm_create :: "u64 \<Rightarrow> nat \<Rightarrow> u64 \<Rightarrow> nat option \<Rightarrow> int \<Rightarrow> shm_store \<Rightarrow> (int \<times> shm_store) option" where
  "shm_create key bits page_va malloc_node sid s = do {
     let p = \<lparr>shm_addr = page_va + PV_OFFSET, shm_size = push_bit (bits + ARCH_PAGE_SHIFT) 1, shm_ref = 0, shm_key = key\<rparr>;
     let s = s\<lparr>shm_ary := (shm_ary s)(nat sid := p)\<rparr>;
     case malloc_node of
       None \<Rightarrow> do {
         let s = shm_id_free sid s;
         (_, pg) \<leftarrow> rt_pages_free page_va bits (shm_pages s);
         Some (- 1, s\<lparr>shm_pages := pg\<rparr>)
       }
     | Some node \<Rightarrow> do {
         tk \<leftarrow> lwp_avl_insert node (upd_node node (\<lambda>x. x\<lparr>avl_key := shm_key p, avl_data := nat sid\<rparr>) (shm_tree_key s));
         tp \<leftarrow> lwp_avl_insert node (upd_node node (\<lambda>x. x\<lparr>avl_key := shm_addr p, avl_data := nat sid\<rparr>) (shm_tree_pa s));
         Some (sid, s\<lparr>shm_tree_key := tk, shm_tree_pa := tp\<rparr>)
       }
   }"

definition lwp_shmget :: "u64 \<Rightarrow> u64 \<Rightarrow> bool \<Rightarrow> nat option \<Rightarrow> shm_store \<Rightarrow> (int \<times> shm_store) option" where
  "lwp_shmget key sz create malloc_node s = do {
     nkey \<leftarrow> lwp_avl_find key (avl_root (shm_tree_key s)) (shm_tree_key s);
     case nkey of
       Some n \<Rightarrow> Some (int (avl_data (avl_nodes (shm_tree_key s) n)), s)
     | None \<Rightarrow>
         if \<not> create \<or> sz = 0 then Some (- 1, s)
         else do {
           let (sid, s) = shm_id_alloc s;
           if sid = - 1 then Some (- 1, s)
           else do {
             bits \<leftarrow> rt_page_bits sz;
             (page_va, pg) \<leftarrow> rt_pages_alloc (unat bits) (shm_pages s);
             let s = s\<lparr>shm_pages := pg\<rparr>;
             if page_va = 0 then Some (- 1, shm_id_free sid s)
             else shm_create key (unat bits) page_va malloc_node sid s
           }
         }
   }"

definition shm_id_to_node :: "int \<Rightarrow> shm_store \<Rightarrow> nat option option" where
  "shm_id_to_node sid s =
     (if sid < 0 \<or> int RT_LWP_SHM_MAX_NR \<le> sid then Some None
      else do {
        nkey \<leftarrow> lwp_avl_find (shm_key (shm_ary s (nat sid))) (avl_root (shm_tree_key s)) (shm_tree_key s);
        case nkey of
          None \<Rightarrow> Some None
        | Some n \<Rightarrow> if avl_data (avl_nodes (shm_tree_key s) n) \<noteq> nat sid then Some None else Some (Some n)
      })"

definition lwp_shmrm :: "int \<Rightarrow> shm_store \<Rightarrow> (int \<times> shm_store) option" where
  "lwp_shmrm sid s = do {
     nkey \<leftarrow> shm_id_to_node sid s;
     case nkey of
       None \<Rightarrow> Some (- 1, s)
     | Some n \<Rightarrow> do {
         let p = shm_ary s (avl_data (avl_nodes (shm_tree_key s) n));
         if shm_ref p \<noteq> 0 then Some (0, s)
         else do {
           bits \<leftarrow> rt_page_bits (shm_size p);
           (_, pg) \<leftarrow> rt_pages_free (shm_addr p - PV_OFFSET) (unat bits) (shm_pages s);
           tk \<leftarrow> lwp_avl_remove (Some n) (shm_tree_key s);
           tp \<leftarrow> lwp_avl_remove (Some n) (shm_tree_pa s);
           Some (0, shm_id_free sid (s\<lparr>shm_pages := pg, shm_tree_key := tk, shm_tree_pa := tp\<rparr>))
         }
       }
   }"

text \<open>References are counted in an \<^verbatim>\<open>int\<close>.\<close>

definition shm_ref_up :: "nat \<Rightarrow> shm_store \<Rightarrow> shm_store option" where
  "shm_ref_up i s = do {
     rt_assert (shm_ref (shm_ary s i) < 2 ^ 31 - 1);
     Some (s\<lparr>shm_ary := (shm_ary s)(i := (shm_ary s i)\<lparr>shm_ref := shm_ref (shm_ary s i) + 1\<rparr>)\<rparr>)
   }"

text \<open>\<open>va\<close> is what mapping the memory into the current process answers, null when it fails.\<close>

definition lwp_shmat :: "bool \<Rightarrow> u64 \<Rightarrow> int \<Rightarrow> u64 \<Rightarrow> shm_store \<Rightarrow> (u64 \<times> shm_store) option" where
  "lwp_shmat lwp va sid shm_vaddr s =
     (if shm_vaddr AND 4095 \<noteq> 0 then Some (0, s)
      else do {
        nkey \<leftarrow> shm_id_to_node sid s;
        case nkey of
          None \<Rightarrow> Some (0, s)
        | Some n \<Rightarrow>
            if \<not> lwp then Some (0, s)
            else if va \<noteq> 0 then do { s \<leftarrow> shm_ref_up (avl_data (avl_nodes (shm_tree_key s) n)) s; Some (va, s) }
            else Some (va, s)
      })"

text \<open>\<open>pa\<close> is the physical address of the given virtual address in the process, null without a process.\<close>

definition lwp_shm_struct_get :: "u64 option \<Rightarrow> shm_store \<Rightarrow> nat option option" where
  "lwp_shm_struct_get pa s =
     (case pa of
        None \<Rightarrow> Some None
      | Some pa \<Rightarrow> do {
          npa \<leftarrow> lwp_avl_find pa (avl_root (shm_tree_pa s)) (shm_tree_pa s);
          Some (map_option (\<lambda>n. avl_data (avl_nodes (shm_tree_pa s) n)) npa)
        })"

definition lwp_shm_ref_inc :: "u64 option \<Rightarrow> shm_store \<Rightarrow> (int \<times> shm_store) option" where
  "lwp_shm_ref_inc pa s = do {
     p \<leftarrow> lwp_shm_struct_get pa s;
     case p of
       None \<Rightarrow> Some (- 1, s)
     | Some i \<Rightarrow> do { s \<leftarrow> shm_ref_up i s; Some (shm_ref (shm_ary s i), s) }
   }"

definition lwp_shm_ref_dec :: "u64 option \<Rightarrow> shm_store \<Rightarrow> (int \<times> shm_store) option" where
  "lwp_shm_ref_dec pa s = do {
     p \<leftarrow> lwp_shm_struct_get pa s;
     case p of
       None \<Rightarrow> Some (- 1, s)
     | Some i \<Rightarrow>
         if 0 < shm_ref (shm_ary s i)
         then do {
           let s = s\<lparr>shm_ary := (shm_ary s)(i := (shm_ary s i)\<lparr>shm_ref := shm_ref (shm_ary s i) - 1\<rparr>)\<rparr>;
           Some (shm_ref (shm_ary s i), s)
         }
         else Some (- 1, s)
   }"

text \<open>Detaching also unmaps the address in the process.\<close>

definition lwp_shmdt :: "u64 option \<Rightarrow> shm_store \<Rightarrow> (int \<times> shm_store) option" where
  "lwp_shmdt pa s = do {
     (ret, s) \<leftarrow> lwp_shm_ref_dec pa s;
     if 0 \<le> ret then Some (0, s) else Some (- 1, s)
   }"

definition lwp_shminfo :: "int \<Rightarrow> shm_store \<Rightarrow> u64 option" where
  "lwp_shminfo sid s = do {
     nkey \<leftarrow> shm_id_to_node sid s;
     Some (case nkey of
         None \<Rightarrow> 0
       | Some n \<Rightarrow> shm_addr (shm_ary s (avl_data (avl_nodes (shm_tree_key s) n))) - PV_OFFSET)
   }"

text \<open>The static variables at reset, with a page allocator.\<close>

definition shm_reset :: "page_store \<Rightarrow> shm_store" where
  "shm_reset pg = \<lparr>shm_tree_key = id_tree id_reset, shm_tree_pa = id_tree id_reset, shm_free_list = - 1, shm_id_used = 0,
     shm_ary = (\<lambda>_. \<lparr>shm_addr = 0, shm_size = 0, shm_ref = 0, shm_key = 0\<rparr>), shm_pages = pg\<rparr>"

subsection \<open>The table\<close>

definition node_id :: "shm_store \<Rightarrow> nat \<Rightarrow> nat" where
  "node_id s n = avl_data (avl_nodes (shm_tree_key s) n)"

definition shm_block :: "lwp_shm_struct \<Rightarrow> nat" where
  "shm_block p = unat (shm_addr p - PV_OFFSET) div 4096"

text \<open>An entry in use: its pages are a block in use with one holder.\<close>

definition entry_ok :: "tiling \<Rightarrow> (nat \<Rightarrow> nat) \<Rightarrow> lwp_shm_struct \<Rightarrow> bool" where
  "entry_ok v r p \<longleftrightarrow> unat (shm_addr p - PV_OFFSET) = 4096 * shm_block p \<and> r (shm_block p) = 1 \<and> 0 \<le> shm_ref p \<and>
     (\<exists>l<ARCH_PAGE_LIST_SIZE. v (shm_block p) = Some l \<and> shm_size p = push_bit (l + 12) 1)"

fun free_ids :: "(nat \<Rightarrow> lwp_shm_struct) \<Rightarrow> int \<Rightarrow> nat list \<Rightarrow> bool" where
  "free_ids A h [] \<longleftrightarrow> h = - 1"
| "free_ids A h (i # is) \<longleftrightarrow> h = int i \<and> free_ids A (sint (ucast (shm_addr (A i)) :: 32 word)) is"

text \<open>The entries in use are those of the trees; \<open>H\<close> are entries being set up or taken down.\<close>

definition ids_ok :: "shm_store \<Rightarrow> nat set \<Rightarrow> nat list \<Rightarrow> nat set \<Rightarrow> bool" where
  "ids_ok s N F H \<longleftrightarrow> free_ids (shm_ary s) (shm_free_list s) F \<and> distinct F \<and> inj_on (node_id s) N \<and>
     set F \<inter> node_id s ` N = {} \<and> H \<inter> (set F \<union> node_id s ` N) = {} \<and> set F \<union> node_id s ` N \<union> H = {..<shm_id_used s} \<and>
     shm_id_used s \<le> RT_LWP_SHM_MAX_NR"

definition trees_ok :: "shm_store \<Rightarrow> (u64 \<rightharpoonup> nat) \<Rightarrow> (u64 \<rightharpoonup> nat) \<Rightarrow> bool" where
  "trees_ok s K P \<longleftrightarrow> index_of (shm_tree_key s) K \<and> index_of (shm_tree_pa s) P \<and> ran P = ran K \<and>
     (\<forall>n\<in>ran K. avl_data (avl_nodes (shm_tree_pa s) n) = node_id s n \<and> keys (shm_tree_key s) n = shm_key (shm_ary s (node_id s n)) \<and>
        keys (shm_tree_pa s) n = shm_addr (shm_ary s (node_id s n)))"

definition shm_ok :: "shm_store \<Rightarrow> (u64 \<rightharpoonup> nat) \<Rightarrow> nat set \<Rightarrow> tiling \<Rightarrow> (nat \<Rightarrow> nat) \<Rightarrow> bool" where
  "shm_ok s K H v r \<longleftrightarrow> (\<exists>P. trees_ok s K P) \<and> (\<exists>F. ids_ok s (ran K) F H) \<and> page_state (shm_pages s) v r \<and>
     (\<forall>n\<in>ran K. entry_ok v r (shm_ary s (node_id s n))) \<and> inj_on (\<lambda>n. shm_block (shm_ary s (node_id s n))) (ran K)"

lemma node_id_simps [simp]:
  "node_id (s\<lparr>shm_free_list := x\<rparr>) = node_id s" "node_id (s\<lparr>shm_id_used := y\<rparr>) = node_id s"
  "node_id (s\<lparr>shm_ary := z\<rparr>) = node_id s" "node_id (s\<lparr>shm_pages := w\<rparr>) = node_id s" "node_id (s\<lparr>shm_tree_pa := u\<rparr>) = node_id s"
  by (simp_all add: node_id_def fun_eq_iff)

lemma shm_okD:
  assumes "shm_ok s K H v r"
  obtains P F where "trees_ok s K P" "ids_ok s (ran K) F H" "page_state (shm_pages s) v r"
    "\<And>n. n \<in> ran K \<Longrightarrow> entry_ok v r (shm_ary s (node_id s n))" "inj_on (\<lambda>n. shm_block (shm_ary s (node_id s n))) (ran K)"
  using assms unfolding shm_ok_def by blast

lemma index_small:
  assumes "index_of t K" and "finite I" and "inj_on f (ran K)" and "f ` ran K \<subseteq> I" and "card I \<le> RT_LWP_SHM_MAX_NR"
  shows "card (dom K) < 9227464"
proof -
  have "card (dom K) = card (f ` ran K)" using avlmap.card_entries [OF assms(1)] assms(3) by (simp add: card_image)
  also have "\<dots> \<le> card I" using assms(2,4) by (intro card_mono)
  finally show ?thesis using assms(5) by (simp add: RT_LWP_SHM_MAX_NR_def)
qed

lemma ids_small:
  assumes "ids_ok s (ran K) F H" and "index_of t L" and "ran L = ran K"
  shows "card (dom L) < 9227464"
proof (rule index_small [OF assms(2), of "{..<shm_id_used s}" "node_id s"])
  show "inj_on (node_id s) (ran L)" using assms(1,3) by (simp add: ids_ok_def)
  show "node_id s ` ran L \<subseteq> {..<shm_id_used s}" using assms(1,3) by (auto simp: ids_ok_def)
  show "card {..<shm_id_used s} \<le> RT_LWP_SHM_MAX_NR" using assms(1) by (simp add: ids_ok_def)
qed simp

text \<open>Links of released entries.\<close>

lemma link_back:
  assumes "h = - 1 \<or> (\<exists>j. h = int j \<and> j < 2 ^ 31)"
  shows "sint (ucast (word_of_int h :: u64) :: 32 word) = h"
  using assms
proof
  assume "\<exists>j. h = int j \<and> j < 2 ^ 31"
  then obtain j where j: "h = int j" "j < 2 ^ 31" by blast
  have "unat (of_nat j :: u64) = j" using j(2) by (intro unat_small) simp
  then have "ucast (of_nat j :: u64) = (of_nat j :: 32 word)" by (metis of_nat_unat)
  then show ?thesis using sint_small [OF j(2)] j(1) by simp
next
  assume "h = - 1"
  moreover have "(ucast (- 1 :: u64) :: 32 word) = - 1" by (simp add: unsigned_minus_1_eq_mask mask_eq_exp_minus_1)
  ultimately show ?thesis by simp
qed

lemma free_ids_cong: "(\<And>i. i \<in> set F \<Longrightarrow> shm_addr (B i) = shm_addr (A i)) \<Longrightarrow> free_ids B h F = free_ids A h F"
  by (induction F arbitrary: h) auto

lemma trees_cong:
  assumes "shm_tree_key s' = shm_tree_key s" and "shm_tree_pa s' = shm_tree_pa s"
    and "\<And>n. n \<in> ran K \<Longrightarrow> shm_ary s' (node_id s n) = shm_ary s (node_id s n)"
  shows "trees_ok s' K P = trees_ok s K P"
proof -
  have "node_id s' = node_id s" using assms(1) by (simp add: node_id_def fun_eq_iff)
  then show ?thesis using assms by (simp add: trees_ok_def)
qed

lemma id_alloc_ok:
  assumes ok: "shm_ok s K {} v r"
  shows "shm_id_alloc s = (- 1, s) \<or>
    (\<exists>i s'. shm_id_alloc s = (int i, s') \<and> i < RT_LWP_SHM_MAX_NR \<and> i \<notin> node_id s ` ran K \<and> shm_ok s' K {i} v r \<and>
       shm_tree_key s' = shm_tree_key s \<and> shm_tree_pa s' = shm_tree_pa s \<and> shm_ary s' = shm_ary s \<and> shm_pages s' = shm_pages s)"
proof -
  obtain P F where d: "trees_ok s K P" "ids_ok s (ran K) F {}" "page_state (shm_pages s) v r"
    "\<And>n. n \<in> ran K \<Longrightarrow> entry_ok v r (shm_ary s (node_id s n))" "inj_on (\<lambda>n. shm_block (shm_ary s (node_id s n))) (ran K)"
    by (rule shm_okD [OF ok]) blast
  have keep: "shm_ok s' K {i} v r" if "ids_ok s' (ran K) F' {i}" "shm_tree_key s' = shm_tree_key s" "shm_tree_pa s' = shm_tree_pa s"
    "shm_ary s' = shm_ary s" "shm_pages s' = shm_pages s" for s' i F'
  proof -
    have "node_id s' = node_id s" using that(2) by (simp add: node_id_def fun_eq_iff)
    then show ?thesis unfolding shm_ok_def using d(3-5) that trees_cong [of s' s K P] d(1) by auto
  qed
  show ?thesis
  proof (cases F)
    case Nil
    then have h: "shm_free_list s = - 1" using d(2) by (simp add: ids_ok_def)
    show ?thesis
    proof (cases "shm_id_used s < RT_LWP_SHM_MAX_NR")
      case True
      let ?s = "s\<lparr>shm_id_used := shm_id_used s + 1\<rparr>" and ?i = "shm_id_used s"
      have U: "node_id s ` ran K = {..<?i}" using d(2) Nil by (simp add: ids_ok_def)
      have "{..<Suc ?i} = insert ?i {..<?i}" by auto
      then have "ids_ok ?s (ran K) F {?i}" using d(2) Nil h True U by (simp add: ids_ok_def)
      from keep [OF this] have "shm_ok ?s K {?i} v r" by simp
      moreover have "?i \<notin> node_id s ` ran K" using U by simp
      ultimately show ?thesis using h True by (auto simp: shm_id_alloc_def)
    qed (use h in \<open>simp add: shm_id_alloc_def\<close>)
  next
    case (Cons i F')
    then have h: "shm_free_list s = int i" "free_ids (shm_ary s) (sint (ucast (shm_addr (shm_ary s i)) :: 32 word)) F'"
      using d(2) by (simp_all add: ids_ok_def)
    let ?s = "s\<lparr>shm_free_list := sint (ucast (shm_addr (shm_ary s i)) :: 32 word)\<rparr>"
    have iU: "i \<notin> node_id s ` ran K" "i < shm_id_used s" using d(2) Cons unfolding ids_ok_def by auto
    have "ids_ok ?s (ran K) F' {i}" using d(2) Cons h(2) unfolding ids_ok_def by (auto simp: image_def)
    from keep [OF this] have "shm_ok ?s K {i} v r" by simp
    moreover have "i < RT_LWP_SHM_MAX_NR" using iU(2) d(2) by (simp add: ids_ok_def)
    ultimately show ?thesis using h(1) iU(1) by (auto simp: shm_id_alloc_def)
  qed
qed

lemma id_free_ok:
  assumes ok: "shm_ok s K {i} v r"
  shows "shm_ok (shm_id_free (int i) s) K {} v r"
proof -
  obtain P F where d: "trees_ok s K P" "ids_ok s (ran K) F {i}" "page_state (shm_pages s) v r"
    "\<And>n. n \<in> ran K \<Longrightarrow> entry_ok v r (shm_ary s (node_id s n))" "inj_on (\<lambda>n. shm_block (shm_ary s (node_id s n))) (ran K)"
    by (rule shm_okD [OF ok]) blast
  let ?s = "shm_id_free (int i) s"
  let ?A = "(shm_ary s)(i := (shm_ary s i)\<lparr>shm_addr := word_of_int (shm_free_list s)\<rparr>)"
  have f: "shm_tree_key ?s = shm_tree_key s" "shm_tree_pa ?s = shm_tree_pa s" "shm_pages ?s = shm_pages s" "shm_ary ?s = ?A"
      "shm_free_list ?s = int i" "shm_id_used ?s = shm_id_used s" by (simp_all add: shm_id_free_def)
  have nid: "node_id ?s = node_id s" by (simp add: node_id_def f fun_eq_iff)
  have i: "i \<notin> set F" "i \<notin> node_id s ` ran K" using d(2) by (auto simp: ids_ok_def)
  then have same: "shm_ary ?s (node_id s n) = shm_ary s (node_id s n)" if "n \<in> ran K" for n using that f(4) by auto
  have "shm_free_list s = - 1 \<or> (\<exists>j. shm_free_list s = int j \<and> j < 2 ^ 31)"
  proof (cases F)
    case Nil
    then show ?thesis using d(2) by (simp add: ids_ok_def)
  next
    case (Cons j F')
    then have "shm_free_list s = int j" "j < RT_LWP_SHM_MAX_NR" using d(2) unfolding ids_ok_def by auto
    then show ?thesis by (simp add: RT_LWP_SHM_MAX_NR_def)
  qed
  note link = link_back [OF this]
  have "free_ids ?A (shm_free_list s) F = free_ids (shm_ary s) (shm_free_list s) F"
    by (rule free_ids_cong) (use i(1) in auto)
  then have "free_ids ?A (int i) (i # F)" using d(2) link by (simp add: ids_ok_def)
  then have "ids_ok ?s (ran K) (i # F) {}" using d(2) i unfolding ids_ok_def nid f by auto
  moreover have "trees_ok ?s K P" using d(1) trees_cong [of ?s s K P] f same by simp
  moreover have "inj_on (\<lambda>n. shm_block (shm_ary ?s (node_id ?s n))) (ran K)" using d(5) same nid by (simp add: inj_on_def)
  ultimately show ?thesis unfolding shm_ok_def using d(3,4) same nid f(3) by auto
qed

subsection \<open>Creating a memory\<close>

lemma tree_add:
  assumes ix: "index_of t M" and new: "M k = None" "n \<notin> ran M" and c: "card (dom M) < 9227464"
  shows "\<exists>t'. lwp_avl_insert n (upd_node n (\<lambda>x. x\<lparr>avl_key := k, avl_data := d\<rparr>) t) = Some t' \<and> index_of t' (M(k \<mapsto> n)) \<and>
    (\<forall>m. avl_data (avl_nodes t' m) = (if m = n then d else avl_data (avl_nodes t m)) \<and> keys t' m = (if m = n then k else keys t m))"
proof -
  let ?t = "upd_node n (\<lambda>x. x\<lparr>avl_key := k, avl_data := d\<rparr>) t"
  have ix': "index_of ?t M" by (rule index_of_fields [OF ix]) (use new(2) in \<open>auto simp: upd_node_def\<close>)
  have k: "keys ?t n = k" by (simp add: upd_node_def)
  have "keys ?t n \<notin> dom M" using new(1) k by (simp add: domIff)
  from avlmap.add_entry [OF ix' this new(2) c] k obtain t' where
    t': "lwp_avl_insert n ?t = Some t'" "index_of t' (M(k \<mapsto> n))" "keeps ?t t' (insert n (ran M))" by metis
  then show ?thesis by (intro exI [of _ t']) (simp add: keeps_def upd_node_def)
qed

lemma tree_del:
  assumes ix: "index_of t M" and k: "M k = Some n" and c: "card (dom M) < 9227464"
  shows "\<exists>t'. lwp_avl_remove (Some n) t = Some t' \<and> index_of t' (M(k := None)) \<and>
    (\<forall>m. avl_data (avl_nodes t' m) = avl_data (avl_nodes t m) \<and> keys t' m = keys t m)"
  using avlmap.del_entry [OF ix k c] by (auto simp: keeps_def)

lemma entry_upd: "entry_ok v r p \<Longrightarrow> shm_block p \<noteq> a \<Longrightarrow> entry_ok (v(a := x)) (r(a := k)) p"
  by (simp add: entry_ok_def)

lemma entry_live: "entry_ok v r p \<Longrightarrow> v (shm_block p) \<noteq> None"
  by (auto simp: entry_ok_def)

lemma new_address:
  assumes tr: "trees_ok s K P" and e: "\<And>n. n \<in> ran K \<Longrightarrow> entry_ok v r (shm_ary s (node_id s n))"
    and a: "v (unat addr div 4096) = None"
  shows "P (addr + PV_OFFSET) = None"
proof (rule ccontr)
  assume "P (addr + PV_OFFSET) \<noteq> None"
  then obtain m where m: "P (addr + PV_OFFSET) = Some m" by blast
  have "m \<in> ran P" using m by (rule ranI)
  then have ran: "m \<in> ran K" using tr by (simp add: trees_ok_def)
  then have "shm_addr (shm_ary s (node_id s m)) = addr + PV_OFFSET"
    using tr avlmap.holds_keys [of "shm_tree_pa s" P, OF _ m] by (auto simp: trees_ok_def)
  then have "shm_block (shm_ary s (node_id s m)) = unat addr div 4096" by (simp add: shm_block_def)
  then show False using entry_live [OF e [OF ran]] a by simp
qed

lemma trees_add:
  assumes tr: "trees_ok s K P" and ids: "ids_ok s (ran K) F {i}" and new: "K (shm_key p) = None" "P (shm_addr p) = None" "n \<notin> ran K"
    and p: "shm_ary s i = p"
  shows "\<exists>tk tp s'. lwp_avl_insert n (upd_node n (\<lambda>x. x\<lparr>avl_key := shm_key p, avl_data := i\<rparr>) (shm_tree_key s)) = Some tk \<and>
    lwp_avl_insert n (upd_node n (\<lambda>x. x\<lparr>avl_key := shm_addr p, avl_data := i\<rparr>) (shm_tree_pa s)) = Some tp \<and>
    s' = s\<lparr>shm_tree_key := tk, shm_tree_pa := tp\<rparr> \<and> trees_ok s' (K(shm_key p \<mapsto> n)) (P(shm_addr p \<mapsto> n)) \<and> node_id s' = (node_id s)(n := i)"
proof -
  have ix: "index_of (shm_tree_key s) K" "index_of (shm_tree_pa s) P" and ran: "ran P = ran K" using tr by (simp_all add: trees_ok_def)
  have nP: "n \<notin> ran P" using new(3) ran by simp
  from tree_add [OF ix(1) new(1,3) ids_small [OF ids ix(1) refl], of i] obtain tk where
    tk: "lwp_avl_insert n (upd_node n (\<lambda>x. x\<lparr>avl_key := shm_key p, avl_data := i\<rparr>) (shm_tree_key s)) = Some tk" "index_of tk (K(shm_key p \<mapsto> n))"
      "\<And>m. avl_data (avl_nodes tk m) = (if m = n then i else avl_data (avl_nodes (shm_tree_key s) m))"
      "\<And>m. keys tk m = (if m = n then shm_key p else keys (shm_tree_key s) m)" by blast
  from tree_add [OF ix(2) new(2) nP ids_small [OF ids ix(2) ran], of i] obtain tp where
    tp: "lwp_avl_insert n (upd_node n (\<lambda>x. x\<lparr>avl_key := shm_addr p, avl_data := i\<rparr>) (shm_tree_pa s)) = Some tp" "index_of tp (P(shm_addr p \<mapsto> n))"
      "\<And>m. avl_data (avl_nodes tp m) = (if m = n then i else avl_data (avl_nodes (shm_tree_pa s) m))"
      "\<And>m. keys tp m = (if m = n then shm_addr p else keys (shm_tree_pa s) m)" by blast
  let ?s = "s\<lparr>shm_tree_key := tk, shm_tree_pa := tp\<rparr>"
  have nid: "node_id ?s = (node_id s)(n := i)" using tk(3) by (simp add: node_id_def fun_eq_iff)
  have "trees_ok ?s (K(shm_key p \<mapsto> n)) (P(shm_addr p \<mapsto> n))"
    unfolding trees_ok_def nid using tr tk(2,4) tp(2-4) p ran new by (auto simp: trees_ok_def ran_map_upd)
  then show ?thesis using tk(1) tp(1) nid by blast
qed

lemma aligned_of_page:
  assumes "addr = of_nat (4096 * (unat addr div 4096))"
  shows "unat (addr :: u64) = 4096 * (unat addr div 4096)"
proof -
  have "4096 * (unat addr div 4096) < 2 ^ 64" using unsigned_less [of addr, where 'a = nat] by simp
  then show ?thesis using unat_small assms by metis
qed

lemma ids_add:
  assumes ids: "ids_ok s N F {i}" and n: "n \<notin> N"
    and f: "shm_free_list s' = shm_free_list s" "shm_id_used s' = shm_id_used s" "node_id s' = (node_id s)(n := i)"
    and A: "\<And>j. j \<noteq> i \<Longrightarrow> shm_ary s' j = shm_ary s j"
  shows "ids_ok s' (insert n N) F {}"
proof -
  have i: "i \<notin> set F" "i \<notin> node_id s ` N" using ids by (auto simp: ids_ok_def)
  have fr: "free_ids (shm_ary s') h F = free_ids (shm_ary s) h F" for h by (rule free_ids_cong) (use i(1) A in metis)
  have im: "(node_id s)(n := i) ` N = node_id s ` N" by (rule image_cong) (use n in auto)
  have "inj_on ((node_id s)(n := i)) (insert n N)" using ids i(2) n im by (auto simp: ids_ok_def inj_on_def)
  moreover have "(node_id s)(n := i) ` insert n N = insert i (node_id s ` N)" unfolding image_insert im by simp
  ultimately show ?thesis using ids i unfolding ids_ok_def f fr by simp
qed

lemma blocks_add:
  assumes e: "\<And>m. m \<in> N \<Longrightarrow> entry_ok v r (A (f m))" and inj: "inj_on (\<lambda>m. shm_block (A (f m))) N"
    and p: "entry_ok (v(a \<mapsto> l)) (r(a := 1)) p" "shm_block p = a" "v a = None" and i: "i \<notin> f ` N" and n: "n \<notin> N"
  shows "\<forall>m\<in>insert n N. entry_ok (v(a \<mapsto> l)) (r(a := 1)) ((A(i := p)) ((f(n := i)) m))"
    "inj_on (\<lambda>m. shm_block ((A(i := p)) ((f(n := i)) m))) (insert n N)"
proof -
  have old: "(A(i := p)) ((f(n := i)) m) = A (f m)" "shm_block (A (f m)) \<noteq> a" if "m \<in> N" for m
    using that i n entry_live [OF e [OF that]] p(3) by (auto simp: image_iff)
  show "\<forall>m\<in>insert n N. entry_ok (v(a \<mapsto> l)) (r(a := 1)) ((A(i := p)) ((f(n := i)) m))"
  proof
    fix m assume "m \<in> insert n N"
    then consider "m = n" | "m \<in> N" by blast
    then show "entry_ok (v(a \<mapsto> l)) (r(a := 1)) ((A(i := p)) ((f(n := i)) m))"
    proof cases
      case 2
      then show ?thesis unfolding old(1) [OF 2] by (intro entry_upd e old(2))
    qed (use p(1) in simp)
  qed
  have "inj_on (\<lambda>m. shm_block ((A(i := p)) ((f(n := i)) m))) N" using inj old(1) by (simp add: inj_on_def)
  moreover have "shm_block ((A(i := p)) ((f(n := i)) n)) \<notin> (\<lambda>m. shm_block ((A(i := p)) ((f(n := i)) m))) ` N"
  proof
    assume "shm_block ((A(i := p)) ((f(n := i)) n)) \<in> (\<lambda>m. shm_block ((A(i := p)) ((f(n := i)) m))) ` N"
    then obtain m where m: "m \<in> N" "shm_block ((A(i := p)) ((f(n := i)) n)) = shm_block ((A(i := p)) ((f(n := i)) m))" by (rule imageE)
    then show False using old(2) [OF m(1)] p(2) unfolding old(1) [OF m(1)] by simp
  qed
  ultimately show "inj_on (\<lambda>m. shm_block ((A(i := p)) ((f(n := i)) m))) (insert n N)" using n by (simp add: inj_on_insert)
qed

lemma create_ok:
  fixes key addr l
  defines "p \<equiv> \<lparr>shm_addr = addr + PV_OFFSET, shm_size = push_bit (l + ARCH_PAGE_SHIFT) 1, shm_ref = 0, shm_key = key\<rparr>"
  assumes ok: "shm_ok s K {i} v r" and l: "l < ARCH_PAGE_LIST_SIZE"
    and al: "rt_pages_alloc l (shm_pages s) = Some (addr, pg)" "addr \<noteq> 0" and new: "K key = None" "n \<notin> ran K"
  shows "\<exists>s' v' r'. shm_create key l addr (Some n) (int i) (s\<lparr>shm_pages := pg\<rparr>) = Some (int i, s') \<and> shm_ok s' (K(key \<mapsto> n)) {} v' r' \<and>
    node_id s' = (node_id s)(n := i) \<and> shm_ary s' = (shm_ary s)(i := p)"
proof -
  obtain P F where d: "trees_ok s K P" "ids_ok s (ran K) F {i}" "page_state (shm_pages s) v r"
    "\<And>n. n \<in> ran K \<Longrightarrow> entry_ok v r (shm_ary s (node_id s n))" "inj_on (\<lambda>n. shm_block (shm_ary s (node_id s n))) (ran K)"
    by (rule shm_okD [OF ok]) blast
  let ?a = "unat addr div 4096"
  from pager.alloc_law [OF d(3) l] al have a: "addr = of_nat (4096 * ?a)" "v ?a = None" "page_state pg (v(?a \<mapsto> l)) (r(?a := 1))" by auto
  let ?s = "s\<lparr>shm_pages := pg, shm_ary := (shm_ary s)(i := p)\<rparr>"
  have i: "i \<notin> node_id s ` ran K" "i \<notin> set F" using d(2) by (auto simp: ids_ok_def)
  then have "shm_ary ?s (node_id s m) = shm_ary s (node_id s m)" if "m \<in> ran K" for m using that by auto
  then have tr: "trees_ok ?s K P" using d(1) trees_cong [of ?s s K P] by simp
  have fr: "free_ids ((shm_ary s)(i := p)) h F = free_ids (shm_ary s) h F" for h by (rule free_ids_cong) (use i(2) in auto)
  then have ids: "ids_ok ?s (ran K) F {i}" using d(2) by (simp add: ids_ok_def)
  have pnew: "K (shm_key p) = None" "P (shm_addr p) = None" using new(1) new_address [OF d(1,4) a(2)] by (simp_all add: p_def)
  have pi: "shm_ary ?s i = p" by simp
  from trees_add [OF tr ids pnew new(2) pi] obtain tk tp s' where
    t: "lwp_avl_insert n (upd_node n (\<lambda>x. x\<lparr>avl_key := shm_key p, avl_data := i\<rparr>) (shm_tree_key ?s)) = Some tk"
      "lwp_avl_insert n (upd_node n (\<lambda>x. x\<lparr>avl_key := shm_addr p, avl_data := i\<rparr>) (shm_tree_pa ?s)) = Some tp"
      "s' = ?s\<lparr>shm_tree_key := tk, shm_tree_pa := tp\<rparr>" "trees_ok s' (K(shm_key p \<mapsto> n)) (P(shm_addr p \<mapsto> n))" "node_id s' = (node_id ?s)(n := i)"
    by blast
  have f: "shm_ary s' = (shm_ary s)(i := p)" "shm_pages s' = pg" by (simp_all add: t(3))
  have nid: "node_id s' = (node_id s)(n := i)" using t(5) unfolding node_id_simps .
  note f = f nid
  have ran: "ran (K(key \<mapsto> n)) = insert n (ran K)" using new(1) by simp
  have "ids_ok s' (ran (K(key \<mapsto> n))) F {}" unfolding ran by (rule ids_add [OF d(2) new(2) _ _ nid]) (simp_all add: t(3))
  moreover have blk: "shm_block p = ?a" by (simp add: p_def shm_block_def)
  have "unat addr = 4096 * ?a" using aligned_of_page [OF a(1)] .
  then have pe: "entry_ok (v(?a \<mapsto> l)) (r(?a := 1)) p" unfolding entry_ok_def blk using l by (simp add: p_def ARCH_PAGE_SHIFT_def)
  note b = blocks_add [OF d(4,5) pe blk a(2) i(1) new(2)]
  ultimately have "shm_ok s' (K(key \<mapsto> n)) {} (v(?a \<mapsto> l)) (r(?a := 1))"
    unfolding shm_ok_def ran f using t(4) b a(3) by (auto simp: p_def)
  moreover have "shm_create key l addr (Some n) (int i) (s\<lparr>shm_pages := pg\<rparr>) = Some (int i, s')"
    using t(1-3) by (simp add: shm_create_def p_def)
  ultimately show ?thesis using f by blast
qed

text \<open>Steps that leave the memories \<open>N\<close> as they are.\<close>

definition same_mems :: "shm_store \<Rightarrow> shm_store \<Rightarrow> nat set \<Rightarrow> bool" where
  "same_mems s s' N \<longleftrightarrow> (\<forall>n\<in>N. node_id s' n = node_id s n \<and> shm_ary s' (node_id s n) = shm_ary s (node_id s n))"

lemma set_entry_ok:
  assumes ok: "shm_ok s K {i} v r"
  shows "shm_ok (s\<lparr>shm_ary := (shm_ary s)(i := p)\<rparr>) K {i} v r" "same_mems s (s\<lparr>shm_ary := (shm_ary s)(i := p)\<rparr>) (ran K)"
proof -
  obtain P F where d: "trees_ok s K P" "ids_ok s (ran K) F {i}" "page_state (shm_pages s) v r"
    "\<And>n. n \<in> ran K \<Longrightarrow> entry_ok v r (shm_ary s (node_id s n))" "inj_on (\<lambda>n. shm_block (shm_ary s (node_id s n))) (ran K)"
    by (rule shm_okD [OF ok]) blast
  let ?s = "s\<lparr>shm_ary := (shm_ary s)(i := p)\<rparr>"
  have i: "i \<notin> node_id s ` ran K" "i \<notin> set F" using d(2) by (auto simp: ids_ok_def)
  then have same: "shm_ary ?s (node_id s m) = shm_ary s (node_id s m)" if "m \<in> ran K" for m using that by auto
  then show "same_mems s ?s (ran K)" by (simp add: same_mems_def)
  have tr: "trees_ok ?s K P" using d(1) trees_cong [of ?s s K P] same by simp
  have fr: "free_ids ((shm_ary s)(i := p)) h F = free_ids (shm_ary s) h F" for h by (rule free_ids_cong) (use i(2) in auto)
  then have ids: "ids_ok ?s (ran K) F {i}" using d(2) by (simp add: ids_ok_def)
  have "inj_on (\<lambda>n. shm_block (shm_ary ?s (node_id s n))) (ran K)" using d(5) same by (simp add: inj_on_def)
  then show "shm_ok ?s K {i} v r" unfolding shm_ok_def node_id_simps using tr ids d(3,4) same by auto
qed

lemma pages_ok:
  assumes "shm_ok s K H v r" and "page_state pg v' r'" and "\<And>n. n \<in> ran K \<Longrightarrow> entry_ok v' r' (shm_ary s (node_id s n))"
  shows "shm_ok (s\<lparr>shm_pages := pg\<rparr>) K H v' r'"
proof -
  have "trees_ok (s\<lparr>shm_pages := pg\<rparr>) K P = trees_ok s K P" for P by (rule trees_cong) simp_all
  moreover have "ids_ok (s\<lparr>shm_pages := pg\<rparr>) N F H = ids_ok s N F H" for N F by (simp add: ids_ok_def)
  ultimately show ?thesis using assms by (simp add: shm_ok_def)
qed

lemma create_undo:
  assumes ok: "shm_ok s K {i} v r" and l: "l < ARCH_PAGE_LIST_SIZE" and al: "rt_pages_alloc l (shm_pages s) = Some (addr, pg)" "addr \<noteq> 0"
  shows "\<exists>s' r'. shm_create key l addr None (int i) (s\<lparr>shm_pages := pg\<rparr>) = Some (- 1, s') \<and> shm_ok s' K {} v r' \<and> same_mems s s' (ran K)"
proof -
  let ?a = "unat addr div 4096"
  let ?p = "\<lparr>shm_addr = addr + PV_OFFSET, shm_size = push_bit (l + ARCH_PAGE_SHIFT) 1, shm_ref = 0, shm_key = key\<rparr>"
  let ?s = "s\<lparr>shm_ary := (shm_ary s)(i := ?p)\<rparr>"
  note st = set_entry_ok [OF ok, of ?p]
  have pst: "page_state (shm_pages s) v r" and e: "\<And>n. n \<in> ran K \<Longrightarrow> entry_ok v r (shm_ary s (node_id s n))"
    using ok by (simp_all add: shm_ok_def)
  have va: "v ?a = None" using pager.alloc_law [OF pst l] al by auto
  from pager.undo [OF pst l al] obtain pg' where pg': "rt_pages_free addr l pg = Some (1, pg')" "page_state pg' v (r(?a := 0))" by blast
  let ?t = "shm_id_free (int i) ?s"
  have f: "shm_ok ?t K {} v r" by (rule id_free_ok [OF st(1)])
  have i: "i \<notin> node_id s ` ran K" using ok by (auto simp: shm_ok_def ids_ok_def)
  have nid: "node_id ?t = node_id s" by (simp add: shm_id_free_def)
  have same: "shm_ary ?t (node_id s m) = shm_ary s (node_id s m)" if "m \<in> ran K" for m
    using that i by (auto simp: shm_id_free_def image_iff)
  have "entry_ok v (r(?a := 0)) (shm_ary ?t (node_id ?t m))" if "m \<in> ran K" for m
    unfolding nid same [OF that] using e [OF that] entry_live [OF e [OF that]] va by (auto simp: entry_ok_def)
  then have "shm_ok (?t\<lparr>shm_pages := pg'\<rparr>) K {} v (r(?a := 0))" by (rule pages_ok [OF f pg'(2)])
  moreover have "same_mems s (?t\<lparr>shm_pages := pg'\<rparr>) (ran K)" using nid same by (simp add: same_mems_def)
  moreover have "shm_create key l addr None (int i) (s\<lparr>shm_pages := pg\<rparr>) = Some (- 1, ?t\<lparr>shm_pages := pg'\<rparr>)"
    using pg'(1) by (simp add: shm_create_def shm_id_free_def)
  ultimately show ?thesis by blast
qed

text \<open>A size of at most half the address space has a level of the page lists.\<close>

lemma shm_bits:
  assumes "sz \<noteq> 0" and "unat sz \<le> 2 ^ 63"
  shows "\<exists>l<ARCH_PAGE_LIST_SIZE. rt_page_bits sz = Some (of_nat l) \<and> unat (of_nat l :: u64) = l \<and> unat sz \<le> unat (push_bit (l + ARCH_PAGE_SHIFT) 1 :: u64)"
proof -
  from page_bits_ok [OF assms(1)] obtain l where l: "rt_page_bits sz = Some (of_nat l)" "l \<le> 52" "unat sz \<le> 2 ^ (12 + l)" "l = 0 \<or> 2 ^ (11 + l) < unat sz"
    by blast
  have "l \<noteq> 52" using l(4) assms(2) by auto
  then have l52: "l < 52" using l(2) by simp
  have "unat (push_bit (l + 12) 1 :: u64) = 2 ^ (l + 12)" by (rule unat_push_one) (use l52 in simp)
  moreover have "unat (of_nat l :: u64) = l" by (rule unat_small) (use l52 in simp)
  ultimately show ?thesis using l(1,3) l52 by (auto simp: ARCH_PAGE_LIST_SIZE_def ARCH_PAGE_SHIFT_def add.commute)
qed

definition got_mem :: "(u64 \<rightharpoonup> nat) \<Rightarrow> u64 \<Rightarrow> u64 \<Rightarrow> nat option \<Rightarrow> shm_store \<Rightarrow> int \<Rightarrow> shm_store \<Rightarrow> bool" where
  "got_mem K key sz malloc_node s sid s' \<longleftrightarrow> same_mems s s' (ran K) \<and>
     (sid = - 1 \<and> (\<exists>v' r'. shm_ok s' K {} v' r') \<or>
      (\<exists>n v' r'. malloc_node = Some n \<and> sid = int (node_id s' n) \<and> shm_ok s' (K(key \<mapsto> n)) {} v' r' \<and>
         unat sz \<le> unat (shm_size (shm_ary s' (node_id s' n))) \<and> shm_ref (shm_ary s' (node_id s' n)) = 0))"

lemma shm_fill:
  assumes ok: "shm_ok s K {i} v r" and l: "l < ARCH_PAGE_LIST_SIZE" and al: "rt_pages_alloc l (shm_pages s) = Some (addr, pg)"
    and sz: "unat sz \<le> unat (push_bit (l + ARCH_PAGE_SHIFT) 1 :: u64)" and new: "K key = None" "\<And>n. malloc_node = Some n \<Longrightarrow> n \<notin> ran K"
  shows "\<exists>sid s'. (if addr = 0 then Some (- 1, shm_id_free (int i) (s\<lparr>shm_pages := pg\<rparr>))
      else shm_create key l addr malloc_node (int i) (s\<lparr>shm_pages := pg\<rparr>)) = Some (sid, s') \<and> got_mem K key sz malloc_node s sid s'"
proof -
  have pst: "page_state (shm_pages s) v r" using ok by (simp add: shm_ok_def)
  have i: "i \<notin> node_id s ` ran K" using ok by (auto simp: shm_ok_def ids_ok_def)
  consider "addr = 0" | "addr \<noteq> 0" "malloc_node = None" | n where "addr \<noteq> 0" "malloc_node = Some n" by blast
  then show ?thesis
  proof cases
    case 1
    then have "pg = shm_pages s" using pager.alloc_law [OF pst l] al by auto
    then have s: "s\<lparr>shm_pages := pg\<rparr> = s" by simp
    have "same_mems s (shm_id_free (int i) s) (ran K)" using i by (auto simp: same_mems_def shm_id_free_def image_iff)
    then show ?thesis using 1 id_free_ok [OF ok] unfolding got_mem_def s by auto
  next
    case 2
    then show ?thesis using create_undo [OF ok l al, of key] by (auto simp: got_mem_def)
  next
    case 3
    from create_ok [OF ok l al 3(1) new(1) new(2) [OF 3(2)]] obtain s' v' r' where
      c: "shm_create key l addr (Some n) (int i) (s\<lparr>shm_pages := pg\<rparr>) = Some (int i, s')" "shm_ok s' (K(key \<mapsto> n)) {} v' r'"
        "node_id s' = (node_id s)(n := i)"
        "shm_ary s' = (shm_ary s)(i := \<lparr>shm_addr = addr + PV_OFFSET, shm_size = push_bit (l + ARCH_PAGE_SHIFT) 1, shm_ref = 0, shm_key = key\<rparr>)" by blast
    have "same_mems s s' (ran K)" using i new(2) [OF 3(2)] by (auto simp: same_mems_def c(3,4) image_iff)
    then have "got_mem K key sz malloc_node s (int i) s'" unfolding got_mem_def using c(2) 3(2) sz by (auto simp: c(3,4))
    then show ?thesis using c(1) 3 by auto
  qed
qed

lemma shmget_ok:
  assumes ok: "shm_ok s K {} v r" and sz: "unat sz \<le> 2 ^ 63" and fresh: "\<And>n. malloc_node = Some n \<Longrightarrow> n \<notin> ran K"
  shows "\<exists>sid s'. lwp_shmget key sz create malloc_node s = Some (sid, s') \<and>
    (case K key of Some n \<Rightarrow> sid = int (node_id s n) \<and> s' = s | None \<Rightarrow> got_mem K key sz malloc_node s sid s')"
proof -
  have look: "lwp_avl_find key (avl_root (shm_tree_key s)) (shm_tree_key s) = Some (K key)"
    using ok avlmap.look_entry by (auto simp: shm_ok_def trees_ok_def)
  have stay: "got_mem K key sz malloc_node s (- 1) s" using ok by (auto simp: got_mem_def same_mems_def)
  show ?thesis
  proof (cases "K key = None \<and> create \<and> sz \<noteq> 0")
    case False
    then show ?thesis using look stay by (auto simp: lwp_shmget_def node_id_def split: option.splits)
  next
    case True
    from id_alloc_ok [OF ok] consider "shm_id_alloc s = (- 1, s)" | i s1 where "shm_id_alloc s = (int i, s1)" "shm_ok s1 K {i} v r"
        "shm_tree_key s1 = shm_tree_key s" "shm_ary s1 = shm_ary s" by blast
    then show ?thesis
    proof cases
      case 1
      then show ?thesis using look stay True by (simp add: lwp_shmget_def)
    next
      case 2
      obtain l where l: "l < ARCH_PAGE_LIST_SIZE" "rt_page_bits sz = Some (of_nat l)" "unat (of_nat l :: u64) = l"
        "unat sz \<le> unat (push_bit (l + ARCH_PAGE_SHIFT) 1 :: u64)" using shm_bits [OF _ sz] True by blast
      have pst: "page_state (shm_pages s1) v r" using 2(2) by (simp add: shm_ok_def)
      obtain addr pg where al: "rt_pages_alloc l (shm_pages s1) = Some (addr, pg)" using pager.alloc_law [OF pst l(1)] by blast
      have "node_id s1 = node_id s" using 2(3) by (simp add: node_id_def fun_eq_iff)
      then have same: "got_mem K key sz malloc_node s1 sid s' = got_mem K key sz malloc_node s sid s'" for sid s'
        using 2(4) by (simp add: got_mem_def same_mems_def)
      have "lwp_shmget key sz create malloc_node s = (if addr = 0 then Some (- 1, shm_id_free (int i) (s1\<lparr>shm_pages := pg\<rparr>))
          else shm_create key l addr malloc_node (int i) (s1\<lparr>shm_pages := pg\<rparr>))"
        using look True 2(1) l(2,3) al by (simp add: lwp_shmget_def)
      then show ?thesis using shm_fill [OF 2(2) l(1) al l(4), of key malloc_node] fresh True unfolding same by auto
    qed
  qed
qed

subsection \<open>Finding, counting and removing\<close>

lemma ids_bound:
  assumes "ids_ok s N F H" and "n \<in> N"
  shows "node_id s n < RT_LWP_SHM_MAX_NR"
proof -
  have "node_id s n \<in> {..<shm_id_used s}" using assms unfolding ids_ok_def by blast
  then show ?thesis using assms(1) by (simp add: ids_ok_def)
qed

text \<open>An identifier stands for a memory exactly when its entry is in use, whatever key a released entry still has.\<close>

lemma id_to_node_ok:
  assumes ok: "shm_ok s K H v r"
  shows "\<exists>x. shm_id_to_node sid s = Some x \<and> (\<forall>n. x = Some n \<longleftrightarrow> n \<in> ran K \<and> sid = int (node_id s n))"
proof -
  obtain P F where d: "trees_ok s K P" "ids_ok s (ran K) F H" by (rule shm_okD [OF ok]) blast
  have ix: "index_of (shm_tree_key s) K" using d(1) by (simp add: trees_ok_def)
  have key: "K (shm_key (shm_ary s (node_id s n))) = Some n" if "n \<in> ran K" for n
  proof -
    from that obtain k where k: "K k = Some n" by (auto simp: ran_def)
    then show ?thesis using avlmap.holds_keys [OF ix k] d(1) that by (auto simp: trees_ok_def)
  qed
  have bound: "node_id s n < RT_LWP_SHM_MAX_NR" if "n \<in> ran K" for n by (rule ids_bound [OF d(2) that])
  have look: "lwp_avl_find k (avl_root (shm_tree_key s)) (shm_tree_key s) = Some (K k)" for k by (rule avlmap.look_entry [OF ix])
  show ?thesis
  proof (cases "sid < 0 \<or> int RT_LWP_SHM_MAX_NR \<le> sid")
    case True
    have "sid \<noteq> int (node_id s n)" if "n \<in> ran K" for n using True bound [OF that] by auto
    then show ?thesis using True by (simp add: shm_id_to_node_def)
  next
    case False
    let ?k = "shm_key (shm_ary s (nat sid))"
    show ?thesis
    proof (cases "\<exists>n. K ?k = Some n \<and> node_id s n = nat sid")
      case True
      then obtain n where n: "K ?k = Some n" "node_id s n = nat sid" by blast
      have "m = n" if "m \<in> ran K" "sid = int (node_id s m)" for m using key [OF that(1)] that(2) n by simp
      moreover have "n \<in> ran K" using n(1) by (rule ranI)
      moreover have "sid = int (node_id s n)" using n(2) False by simp
      ultimately have "\<forall>m. Some n = Some m \<longleftrightarrow> m \<in> ran K \<and> sid = int (node_id s m)" by blast
      moreover have "shm_id_to_node sid s = Some (Some n)" using False n look by (simp add: shm_id_to_node_def node_id_def)
      ultimately show ?thesis by blast
    next
      case out: False
      have "shm_id_to_node sid s = Some None" using False out look by (auto simp: shm_id_to_node_def node_id_def split: option.splits)
      moreover have "sid \<noteq> int (node_id s n)" if "n \<in> ran K" for n using key [OF that] out by auto
      ultimately show ?thesis by auto
    qed
  qed
qed

lemma pa_index:
  assumes tr: "trees_ok s K P"
  shows "P a = Some n \<longleftrightarrow> n \<in> ran K \<and> a = shm_addr (shm_ary s (node_id s n))"
proof -
  have ix: "index_of (shm_tree_pa s) P" and ran: "ran P = ran K" using tr by (simp_all add: trees_ok_def)
  have node: "keys (shm_tree_pa s) n = shm_addr (shm_ary s (node_id s n))" if "n \<in> ran K" using tr that by (simp add: trees_ok_def)
  show ?thesis
  proof
    assume p: "P a = Some n"
    then have n: "n \<in> ran K" unfolding ran [symmetric] by (rule ranI)
    then show "n \<in> ran K \<and> a = shm_addr (shm_ary s (node_id s n))" using avlmap.holds_keys [OF ix p] node by simp
  next
    assume h: "n \<in> ran K \<and> a = shm_addr (shm_ary s (node_id s n))"
    then obtain b where b: "P b = Some n" using ran by (auto simp: ran_def)
    then show "P a = Some n" using avlmap.holds_keys [OF ix b] node h by simp
  qed
qed

lemma struct_get_ok:
  assumes ok: "shm_ok s K H v r"
  shows "\<exists>x. lwp_shm_struct_get pa s = Some x \<and> (\<forall>i. x = Some i \<longleftrightarrow> (\<exists>n\<in>ran K. i = node_id s n \<and> pa = Some (shm_addr (shm_ary s i))))"
proof -
  obtain P F where d: "trees_ok s K P" by (rule shm_okD [OF ok]) blast
  have ix: "index_of (shm_tree_pa s) P" using d by (simp add: trees_ok_def)
  have node: "avl_data (avl_nodes (shm_tree_pa s) n) = node_id s n" if "n \<in> ran K" for n using d that by (simp add: trees_ok_def)
  have look: "lwp_avl_find a (avl_root (shm_tree_pa s)) (shm_tree_pa s) = Some (P a)" for a by (rule avlmap.look_entry [OF ix])
  show ?thesis
  proof (cases pa)
    case (Some a)
    have "map_option (\<lambda>n. avl_data (avl_nodes (shm_tree_pa s) n)) (P a) = Some i \<longleftrightarrow> (\<exists>n\<in>ran K. i = node_id s n \<and> a = shm_addr (shm_ary s i))" for i
      using pa_index [OF d, of a] node by (auto simp: map_option_eq_Some)
    then show ?thesis using Some look by (simp add: lwp_shm_struct_get_def)
  qed (simp add: lwp_shm_struct_get_def)
qed

lemma set_ref_ok:
  assumes ok: "shm_ok s K H v r" and n: "n \<in> ran K" and c: "0 \<le> c"
  shows "shm_ok (s\<lparr>shm_ary := (shm_ary s)(node_id s n := (shm_ary s (node_id s n))\<lparr>shm_ref := c\<rparr>)\<rparr>) K H v r"
proof -
  obtain P F where d: "trees_ok s K P" "ids_ok s (ran K) F H" "page_state (shm_pages s) v r"
    "\<And>n. n \<in> ran K \<Longrightarrow> entry_ok v r (shm_ary s (node_id s n))" "inj_on (\<lambda>n. shm_block (shm_ary s (node_id s n))) (ran K)"
    by (rule shm_okD [OF ok]) blast
  let ?A = "(shm_ary s)(node_id s n := (shm_ary s (node_id s n))\<lparr>shm_ref := c\<rparr>)"
  let ?s = "s\<lparr>shm_ary := ?A\<rparr>"
  have f: "shm_addr (?A i) = shm_addr (shm_ary s i)" "shm_size (?A i) = shm_size (shm_ary s i)" "shm_key (?A i) = shm_key (shm_ary s i)"
    "shm_block (?A i) = shm_block (shm_ary s i)" for i by (simp_all add: shm_block_def)
  have fr: "free_ids ?A h F = free_ids (shm_ary s) h F" for h by (rule free_ids_cong) (rule f(1))
  have ids: "ids_ok ?s (ran K) F H" using d(2) fr by (simp add: ids_ok_def)
  have "trees_ok ?s K P" using d(1) unfolding trees_ok_def node_id_simps by (simp add: f del: fun_upd_apply)
  moreover have "entry_ok v r (?A (node_id s m))" if "m \<in> ran K" for m
    using d(4) [OF that] c unfolding entry_ok_def f by simp
  moreover have "inj_on (\<lambda>m. shm_block (?A (node_id s m))) (ran K)" unfolding f by (rule d(5))
  ultimately show ?thesis unfolding shm_ok_def node_id_simps using ids d(3) by (auto simp del: fun_upd_apply)
qed

lemma trees_del:
  assumes tr: "trees_ok s K P" and ids: "ids_ok s (ran K) F H" and k: "K key = Some n"
  shows "\<exists>tk tp s' P'. lwp_avl_remove (Some n) (shm_tree_key s) = Some tk \<and> lwp_avl_remove (Some n) (shm_tree_pa s) = Some tp \<and>
    s' = s\<lparr>shm_tree_key := tk, shm_tree_pa := tp\<rparr> \<and> trees_ok s' (K(key := None)) P' \<and> node_id s' = node_id s"
proof -
  have ix: "index_of (shm_tree_key s) K" "index_of (shm_tree_pa s) P" and ran: "ran P = ran K" using tr by (simp_all add: trees_ok_def)
  have n: "n \<in> ran K" using k by (rule ranI)
  let ?a = "shm_addr (shm_ary s (node_id s n))"
  have P: "P ?a = Some n" using pa_index [OF tr] n by blast
  from tree_del [OF ix(1) k ids_small [OF ids ix(1) refl]] obtain tk where
    tk: "lwp_avl_remove (Some n) (shm_tree_key s) = Some tk" "index_of tk (K(key := None))"
      "\<And>m. avl_data (avl_nodes tk m) = avl_data (avl_nodes (shm_tree_key s) m)" "\<And>m. keys tk m = keys (shm_tree_key s) m" by blast
  from tree_del [OF ix(2) P ids_small [OF ids ix(2) ran]] obtain tp where
    tp: "lwp_avl_remove (Some n) (shm_tree_pa s) = Some tp" "index_of tp (P(?a := None))"
      "\<And>m. avl_data (avl_nodes tp m) = avl_data (avl_nodes (shm_tree_pa s) m)" "\<And>m. keys tp m = keys (shm_tree_pa s) m" by blast
  let ?s = "s\<lparr>shm_tree_key := tk, shm_tree_pa := tp\<rparr>"
  have nid: "node_id ?s = node_id s" using tk(3) by (simp add: node_id_def fun_eq_iff)
  have rans: "ran (K(key := None)) = ran K - {n}" "ran (P(?a := None)) = ran K - {n}"
    using avlmap.ran_del [OF ix(1) k] avlmap.ran_del [OF ix(2) P] ran by simp_all
  have "trees_ok ?s (K(key := None)) (P(?a := None))"
    unfolding trees_ok_def nid rans using tr tk(2,4) tp(2-4) by (simp add: trees_ok_def)
  then show ?thesis using tk(1) tp(1) nid by blast
qed

lemma ids_del:
  assumes "ids_ok s N F {}" and "n \<in> N"
    and "node_id s' = node_id s" "shm_ary s' = shm_ary s" "shm_free_list s' = shm_free_list s" "shm_id_used s' = shm_id_used s"
  shows "ids_ok s' (N - {n}) F {node_id s n}"
proof -
  have inj: "inj_on (node_id s) N" using assms(1) by (simp add: ids_ok_def)
  have "node_id s ` (N - {n}) = node_id s ` N - {node_id s n}" using inj_on_image_set_diff [OF inj, of N "{n}"] assms(2) by simp
  moreover have "inj_on (node_id s) (N - {n})" using inj by (rule inj_on_diff)
  moreover have "node_id s n \<in> node_id s ` N" using assms(2) by (rule imageI)
  ultimately show ?thesis using assms(1,2) unfolding ids_ok_def assms(3-6) by blast
qed

lemma size_bits_back:
  assumes "l < ARCH_PAGE_LIST_SIZE"
  shows "rt_page_bits (push_bit (l + 12) 1) = Some (of_nat l)" "unat (of_nat l :: u64) = l"
proof -
  have l: "l < 52" using assms by (simp add: ARCH_PAGE_LIST_SIZE_def)
  have u: "unat (push_bit (l + 12) 1 :: u64) = 2 ^ (l + 12)" by (rule unat_push_one) (use l in simp)
  then have "(push_bit (l + 12) 1 :: u64) \<noteq> 0" by (metis power_not_zero unsigned_0 zero_neq_numeral)
  from page_bits_ok [OF this] u obtain m where m: "rt_page_bits (push_bit (l + 12) 1) = Some (of_nat m)"
    "(2 :: nat) ^ (l + 12) \<le> 2 ^ (12 + m)" "m = 0 \<or> (2 :: nat) ^ (11 + m) < 2 ^ (l + 12)" by auto
  have "l + 12 \<le> 12 + m" using m(2) by (rule power_le_imp_le_exp [rotated]) simp
  moreover have "m = 0 \<or> 11 + m < l + 12" using m(3) power_less_imp_less_exp [of "2 :: nat" "11 + m" "l + 12"] by auto
  ultimately have "m = l" by auto
  then show "rt_page_bits (push_bit (l + 12) 1) = Some (of_nat l)" using m(1) by simp
  show "unat (of_nat l :: u64) = l" by (rule unat_small) (use l in simp)
qed

lemma shmrm_ok:
  assumes ok: "shm_ok s K {} v r" and k: "K key = Some n" and idle: "shm_ref (shm_ary s (node_id s n)) = 0"
  shows "\<exists>s' v' r'. lwp_shmrm (int (node_id s n)) s = Some (0, s') \<and> shm_ok s' (K(key := None)) {} v' r' \<and> same_mems s s' (ran (K(key := None)))"
proof -
  obtain P F where d: "trees_ok s K P" "ids_ok s (ran K) F {}" "page_state (shm_pages s) v r"
    "\<And>n. n \<in> ran K \<Longrightarrow> entry_ok v r (shm_ary s (node_id s n))" "inj_on (\<lambda>n. shm_block (shm_ary s (node_id s n))) (ran K)"
    by (rule shm_okD [OF ok]) blast
  let ?i = "node_id s n" and ?K = "K(key := None)"
  let ?p = "shm_ary s ?i"
  have n: "n \<in> ran K" using k by (rule ranI)
  have ran: "ran ?K = ran K - {n}" by (rule avlmap.ran_del [of "shm_tree_key s"]) (use d(1) k in \<open>simp_all add: trees_ok_def\<close>)
  obtain l where l: "l < ARCH_PAGE_LIST_SIZE" "v (shm_block ?p) = Some l" "shm_size ?p = push_bit (l + 12) 1" "r (shm_block ?p) = 1"
    using d(4) [OF n] by (auto simp: entry_ok_def)
  have blk: "unat (shm_addr ?p - PV_OFFSET) div 4096 = shm_block ?p" by (simp add: shm_block_def)
  from pager.release_law [OF d(3), of "shm_addr ?p - PV_OFFSET" l] l(2,4) blk obtain pg where
    pg: "rt_pages_free (shm_addr ?p - PV_OFFSET) l (shm_pages s) = Some (1, pg)" "page_state pg (v(shm_block ?p := None)) (r(shm_block ?p := 0))" by auto
  from trees_del [OF d(1,2) k] obtain tk tp s1 P' where t: "lwp_avl_remove (Some n) (shm_tree_key s) = Some tk"
    "lwp_avl_remove (Some n) (shm_tree_pa s) = Some tp" "s1 = s\<lparr>shm_tree_key := tk, shm_tree_pa := tp\<rparr>" "trees_ok s1 ?K P'" "node_id s1 = node_id s" by blast
  have f: "shm_ary s1 = shm_ary s" "shm_free_list s1 = shm_free_list s" "shm_id_used s1 = shm_id_used s" "shm_pages s1 = shm_pages s" by (simp_all add: t(3))
  have ids: "ids_ok s1 (ran ?K) F {?i}" unfolding ran by (rule ids_del [OF d(2) n t(5) f(1-3)])
  have inj: "inj_on (\<lambda>m. shm_block (shm_ary s (node_id s m))) (ran ?K)" unfolding ran using d(5) by (rule inj_on_diff)
  have ok1: "shm_ok s1 ?K {?i} v r" unfolding shm_ok_def t(5) f using t(4) ids d(3,4) inj ran by auto
  have "shm_block (shm_ary s (node_id s m)) \<noteq> shm_block ?p" if "m \<in> ran ?K" for m using d(5) that n unfolding ran inj_on_def by auto
  then have "entry_ok (v(shm_block ?p := None)) (r(shm_block ?p := 0)) (shm_ary s1 (node_id s1 m))" if "m \<in> ran ?K" for m
    unfolding t(5) f(1) using that d(4) ran by (intro entry_upd) auto
  from pages_ok [OF ok1 pg(2) this] have ok2: "shm_ok (s1\<lparr>shm_pages := pg\<rparr>) ?K {?i} (v(shm_block ?p := None)) (r(shm_block ?p := 0))" .
  let ?t = "shm_id_free (int ?i) (s1\<lparr>shm_pages := pg\<rparr>)"
  obtain x where x: "shm_id_to_node (int ?i) s = Some x" "\<And>m. x = Some m \<longleftrightarrow> m \<in> ran K \<and> int ?i = int (node_id s m)"
    using id_to_node_ok [OF ok, of "int ?i"] by blast
  have upd: "s\<lparr>shm_pages := pg, shm_tree_key := tk, shm_tree_pa := tp\<rparr> = s1\<lparr>shm_pages := pg\<rparr>" unfolding t(3) by (cases s) simp
  have "x = Some n" using x(2) n by blast
  then have "lwp_shmrm (int ?i) s = Some (0, ?t)"
    using x(1) idle l(3) size_bits_back [OF l(1)] pg(1) t(1,2) upd by (simp add: lwp_shmrm_def node_id_def [symmetric])
  moreover have "same_mems s ?t (ran ?K)" using d(2) n unfolding ran by (auto simp: same_mems_def shm_id_free_def t(5) f ids_ok_def inj_on_def)
  ultimately show ?thesis using id_free_ok [OF ok2] by blast
qed

subsection \<open>The memories as a map from keys\<close>

text \<open>What a client knows of a memory: its allocation of tree nodes, identifier, physical address and number of
  attachments.\<close>

record shm_mem =
  mem_node :: nat
  mem_id :: nat
  mem_pa :: u64
  mem_refs :: nat

definition mem_at :: "shm_store \<Rightarrow> nat \<Rightarrow> shm_mem" where
  "mem_at s n = \<lparr>mem_node = n, mem_id = node_id s n, mem_pa = shm_addr (shm_ary s (node_id s n)), mem_refs = nat (shm_ref (shm_ary s (node_id s n)))\<rparr>"

definition mem_nodes :: "(u64 \<rightharpoonup> shm_mem) \<Rightarrow> (u64 \<rightharpoonup> nat)" where
  "mem_nodes L = (\<lambda>k. map_option mem_node (L k))"

definition shm_rel :: "shm_store \<Rightarrow> (u64 \<rightharpoonup> shm_mem) \<Rightarrow> bool" where
  "shm_rel s L \<longleftrightarrow> (\<exists>v r. shm_ok s (mem_nodes L) {} v r) \<and> (\<forall>m\<in>ran L. mem_at s (mem_node m) = m)"

definition counted :: "(shm_mem \<Rightarrow> bool) \<Rightarrow> (nat \<Rightarrow> nat) \<Rightarrow> (u64 \<rightharpoonup> shm_mem) \<Rightarrow> (u64 \<rightharpoonup> shm_mem)" where
  "counted Q f L = (\<lambda>k. map_option (\<lambda>m. if Q m then m\<lparr>mem_refs := f (mem_refs m)\<rparr> else m) (L k))"

definition removed :: "int \<Rightarrow> (u64 \<rightharpoonup> shm_mem) \<Rightarrow> (u64 \<rightharpoonup> shm_mem)" where
  "removed sid L = (\<lambda>k. case L k of Some m \<Rightarrow> if int (mem_id m) = sid \<and> mem_refs m = 0 then None else Some m | None \<Rightarrow> None)"

lemma ran_mem_nodes: "ran (mem_nodes L) = mem_node ` ran L"
  unfolding mem_nodes_def by (rule ran_map_option)

lemma mem_nodes_upd: "mem_nodes (L(k \<mapsto> m)) = (mem_nodes L)(k \<mapsto> mem_node m)" "mem_nodes (L(k := None)) = (mem_nodes L)(k := None)"
  by (auto simp: mem_nodes_def)

lemma mem_at_same: "same_mems s s' N \<Longrightarrow> n \<in> N \<Longrightarrow> mem_at s' n = mem_at s n"
  by (simp add: same_mems_def mem_at_def)

lemma mem_fields:
  assumes "mem_at s (mem_node m) = m"
  shows "node_id s (mem_node m) = mem_id m" "shm_addr (shm_ary s (mem_id m)) = mem_pa m" "nat (shm_ref (shm_ary s (mem_id m))) = mem_refs m"
proof -
  show i: "node_id s (mem_node m) = mem_id m" using arg_cong [OF assms, of mem_id] by (simp add: mem_at_def)
  show "shm_addr (shm_ary s (mem_id m)) = mem_pa m" using arg_cong [OF assms, of mem_pa] i by (simp add: mem_at_def)
  show "nat (shm_ref (shm_ary s (mem_id m))) = mem_refs m" using arg_cong [OF assms, of mem_refs] i by (simp add: mem_at_def)
qed

lemma rel_mem:
  assumes "shm_rel s L" and "m \<in> ran L"
  shows "node_id s (mem_node m) = mem_id m" "shm_addr (shm_ary s (mem_id m)) = mem_pa m" "shm_ref (shm_ary s (mem_id m)) = int (mem_refs m)"
proof -
  have m: "mem_at s (mem_node m) = m" using assms by (simp add: shm_rel_def)
  show id: "node_id s (mem_node m) = mem_id m" and "shm_addr (shm_ary s (mem_id m)) = mem_pa m" by (rule mem_fields [OF m])+
  obtain v r where "shm_ok s (mem_nodes L) {} v r" using assms(1) by (auto simp: shm_rel_def)
  then have "entry_ok v r (shm_ary s (mem_id m))" using assms(2) id by (auto simp: shm_ok_def ran_mem_nodes)
  then have "0 \<le> shm_ref (shm_ary s (mem_id m))" by (simp add: entry_ok_def)
  then show "shm_ref (shm_ary s (mem_id m)) = int (mem_refs m)" using mem_fields(3) [OF m] by simp
qed

lemma rel_inj:
  assumes rel: "shm_rel s L" and m: "m \<in> ran L" "m' \<in> ran L" and eq: "mem_id m = mem_id m' \<or> mem_pa m = mem_pa m'"
  shows "m = m'"
proof -
  obtain v r where ok: "shm_ok s (mem_nodes L) {} v r" using rel by (auto simp: shm_rel_def)
  have inj: "inj_on (node_id s) (mem_node ` ran L)" "inj_on (\<lambda>n. shm_block (shm_ary s (node_id s n))) (mem_node ` ran L)"
    using ok by (auto simp: shm_ok_def ids_ok_def ran_mem_nodes)
  have "node_id s (mem_node m) = node_id s (mem_node m') \<or>
      shm_block (shm_ary s (node_id s (mem_node m))) = shm_block (shm_ary s (node_id s (mem_node m')))"
    using eq rel_mem [OF rel m(1)] rel_mem [OF rel m(2)] by (auto simp: shm_block_def)
  then have "mem_node m = mem_node m'" using inj m by (auto dest: inj_onD)
  then show ?thesis using rel m unfolding shm_rel_def by metis
qed

lemma rel_get:
  assumes rel: "shm_rel s L" and sz: "unat sz \<le> 2 ^ 63" and fresh: "\<And>n. malloc_node = Some n \<Longrightarrow> n \<notin> mem_node ` ran L"
  shows "\<exists>sid s'. lwp_shmget key sz create malloc_node s = Some (sid, s') \<and>
    (case L key of Some m \<Rightarrow> sid = int (mem_id m) \<and> s' = s
     | None \<Rightarrow> if sid = - 1 then shm_rel s' L
         else \<exists>n. malloc_node = Some n \<and> sid = int (node_id s' n) \<and> shm_rel s' (L(key \<mapsto> mem_at s' n)) \<and> mem_refs (mem_at s' n) = 0 \<and>
           unat sz \<le> unat (shm_size (shm_ary s' (nat sid))))"
proof -
  obtain v r where ok: "shm_ok s (mem_nodes L) {} v r" using rel by (auto simp: shm_rel_def)
  from shmget_ok [OF ok sz, of malloc_node key create] fresh obtain sid s' where
    g: "lwp_shmget key sz create malloc_node s = Some (sid, s')"
      "case mem_nodes L key of Some n \<Rightarrow> sid = int (node_id s n) \<and> s' = s | None \<Rightarrow> got_mem (mem_nodes L) key sz malloc_node s sid s'"
    by (auto simp: ran_mem_nodes)
  show ?thesis
  proof (cases "L key")
    case (Some m)
    then have "m \<in> ran L" by (rule ranI)
    then show ?thesis using g Some rel_mem(1) [OF rel] by (auto simp: mem_nodes_def)
  next
    case None
    then have got: "got_mem (mem_nodes L) key sz malloc_node s sid s'" using g(2) by (simp add: mem_nodes_def)
    then have same: "mem_at s' (mem_node m) = m" if "m \<in> ran L" for m
      using mem_at_same [of s s' "ran (mem_nodes L)" "mem_node m"] that rel by (auto simp: got_mem_def ran_mem_nodes shm_rel_def)
    from got consider "sid = - 1" "\<exists>v r. shm_ok s' (mem_nodes L) {} v r" | n v r where "malloc_node = Some n" "sid = int (node_id s' n)"
        "shm_ok s' ((mem_nodes L)(key \<mapsto> n)) {} v r" "unat sz \<le> unat (shm_size (shm_ary s' (node_id s' n)))" "shm_ref (shm_ary s' (node_id s' n)) = 0"
      unfolding got_mem_def by blast
    then show ?thesis
    proof cases
      case 1
      then show ?thesis using g(1) None same by (auto simp: shm_rel_def)
    next
      case 2
      have "shm_rel s' (L(key \<mapsto> mem_at s' n))"
        unfolding shm_rel_def mem_nodes_upd using 2(3) same None by (auto simp: mem_at_def)
      then show ?thesis using g(1) None 2 by (intro exI [of _ sid] exI [of _ s']) (simp add: mem_at_def)
    qed
  qed
qed

text \<open>The lookups, by identifier and by physical address.\<close>

lemma rel_node:
  assumes rel: "shm_rel s L"
  shows "m \<in> ran L \<Longrightarrow> sid = int (mem_id m) \<Longrightarrow> shm_id_to_node sid s = Some (Some (mem_node m)) \<and> avl_data (avl_nodes (shm_tree_key s) (mem_node m)) = mem_id m"
    and "\<forall>m\<in>ran L. int (mem_id m) \<noteq> sid \<Longrightarrow> shm_id_to_node sid s = Some None"
proof -
  obtain v r where ok: "shm_ok s (mem_nodes L) {} v r" using rel by (auto simp: shm_rel_def)
  obtain x where x: "shm_id_to_node sid s = Some x" "\<And>n. x = Some n \<longleftrightarrow> n \<in> mem_node ` ran L \<and> sid = int (node_id s n)"
    using id_to_node_ok [OF ok, of sid] by (auto simp: ran_mem_nodes)
  show "shm_id_to_node sid s = Some (Some (mem_node m)) \<and> avl_data (avl_nodes (shm_tree_key s) (mem_node m)) = mem_id m"
    if "m \<in> ran L" "sid = int (mem_id m)"
    using x that rel_mem(1) [OF rel that(1)] by (auto simp: node_id_def)
  show "shm_id_to_node sid s = Some None" if "\<forall>m\<in>ran L. int (mem_id m) \<noteq> sid"
  proof (cases x)
    case (Some n)
    then obtain m where "m \<in> ran L" "n = mem_node m" "sid = int (node_id s n)" using x(2) by blast
    then show ?thesis using that rel_mem(1) [OF rel] by auto
  qed (use x(1) in simp)
qed

lemma rel_struct:
  assumes rel: "shm_rel s L"
  shows "m \<in> ran L \<Longrightarrow> lwp_shm_struct_get (Some (mem_pa m)) s = Some (Some (mem_id m))"
    and "\<forall>m\<in>ran L. Some (mem_pa m) \<noteq> pa \<Longrightarrow> lwp_shm_struct_get pa s = Some None"
proof -
  obtain v r where ok: "shm_ok s (mem_nodes L) {} v r" using rel by (auto simp: shm_rel_def)
  have get: "\<exists>x. lwp_shm_struct_get a s = Some x \<and> (\<forall>i. x = Some i \<longleftrightarrow> (\<exists>m\<in>ran L. i = mem_id m \<and> a = Some (mem_pa m)))" for a
    using struct_get_ok [OF ok, of a] rel_mem(1,2) [OF rel] by (simp add: ran_mem_nodes) metis
  show "lwp_shm_struct_get (Some (mem_pa m)) s = Some (Some (mem_id m))" if "m \<in> ran L" using get [of "Some (mem_pa m)"] that by auto
  show "lwp_shm_struct_get pa s = Some None" if "\<forall>m\<in>ran L. Some (mem_pa m) \<noteq> pa" using get [of pa] that by (metis not_None_eq)
qed

lemma rel_info:
  assumes rel: "shm_rel s L"
  shows "m \<in> ran L \<Longrightarrow> lwp_shminfo (int (mem_id m)) s = Some (mem_pa m - PV_OFFSET)"
    and "\<forall>m\<in>ran L. int (mem_id m) \<noteq> sid \<Longrightarrow> lwp_shminfo sid s = Some 0"
proof -
  show "lwp_shminfo (int (mem_id m)) s = Some (mem_pa m - PV_OFFSET)" if "m \<in> ran L"
    using rel_node(1) [OF rel that refl] rel_mem(2) [OF rel that] by (simp add: lwp_shminfo_def)
  show "lwp_shminfo sid s = Some 0" if "\<forall>m\<in>ran L. int (mem_id m) \<noteq> sid"
    using rel_node(2) [OF rel that] by (simp add: lwp_shminfo_def)
qed

lemma rel_key:
  assumes rel: "shm_rel s L" and L: "L j = Some m" "L k = Some m"
  shows "j = k"
proof -
  obtain v r where "shm_ok s (mem_nodes L) {} v r" using rel by (auto simp: shm_rel_def)
  then have ix: "index_of (shm_tree_key s) (mem_nodes L)" by (auto simp: shm_ok_def trees_ok_def)
  have K: "mem_nodes L j = Some (mem_node m)" "mem_nodes L k = Some (mem_node m)" using L by (simp_all add: mem_nodes_def)
  show ?thesis using avlmap.holds_keys [OF ix K(1)] avlmap.holds_keys [OF ix K(2)] by simp
qed

lemma removed_none:
  assumes "\<And>m. m \<in> ran L \<Longrightarrow> int (mem_id m) = sid \<Longrightarrow> mem_refs m \<noteq> 0"
  shows "removed sid L = L"
proof
  fix j show "removed sid L j = L j" using assms ranI [of L j] by (cases "L j") (auto simp: removed_def)
qed

lemma removed_one:
  assumes "L k = Some m" and "sid = int (mem_id m)" and "mem_refs m = 0" and "\<And>j. L j = Some m \<Longrightarrow> j = k"
    and "\<And>m'. m' \<in> ran L \<Longrightarrow> int (mem_id m') = sid \<Longrightarrow> m' = m"
  shows "removed sid L = L(k := None)"
proof
  fix j show "removed sid L j = (L(k := None)) j"
  proof (cases "L j")
    case None
    then show ?thesis by (simp add: removed_def)
  next
    case (Some m')
    then have r: "m' \<in> ran L" by (rule ranI)
    show ?thesis
    proof (cases "int (mem_id m') = sid")
      case True
      then have m': "m' = m" by (rule assms(5) [OF r])
      then have "j = k" using Some assms(4) by blast
      then show ?thesis using Some True m' assms(3) by (simp add: removed_def)
    next
      case False
      then have "j \<noteq> k" using Some assms(1,2) by auto
      then show ?thesis using Some False by (simp add: removed_def)
    qed
  qed
qed

lemma rel_rm:
  assumes rel: "shm_rel s L"
  shows "\<exists>s'. lwp_shmrm sid s = Some (if \<exists>m\<in>ran L. int (mem_id m) = sid then 0 else - 1, s') \<and> shm_rel s' (removed sid L) \<and>
    ((\<forall>m\<in>ran L. int (mem_id m) = sid \<longrightarrow> mem_refs m \<noteq> 0) \<longrightarrow> s' = s)"
proof (cases "\<exists>m\<in>ran L. int (mem_id m) = sid")
  case False
  then have "removed sid L = L" by (intro removed_none) blast
  then show ?thesis using rel_node(2) [OF rel, of sid] False rel by (auto simp: lwp_shmrm_def)
next
  case True
  then obtain m where m: "m \<in> ran L" "sid = int (mem_id m)" by blast
  then obtain k where k: "L k = Some m" by (auto simp: ran_def)
  have uniq: "m' = m" if "m' \<in> ran L" "int (mem_id m') = sid" for m' using rel_inj [OF rel that(1) m(1)] that(2) m(2) by simp
  obtain v r where ok: "shm_ok s (mem_nodes L) {} v r" using rel by (auto simp: shm_rel_def)
  have K: "mem_nodes L k = Some (mem_node m)" using k by (simp add: mem_nodes_def)
  show ?thesis
  proof (cases "mem_refs m = 0")
    case False
    have "removed sid L = L" by (rule removed_none) (use uniq False in blast)
    moreover have "lwp_shmrm sid s = Some (0, s)" using rel_node(1) [OF rel m] rel_mem(3) [OF rel m(1)] False by (simp add: lwp_shmrm_def)
    ultimately show ?thesis using True rel by auto
  next
    case idle: True
    have idle': "shm_ref (shm_ary s (node_id s (mem_node m))) = 0" using rel_mem [OF rel m(1)] idle by simp
    from shmrm_ok [OF ok K idle'] obtain s' v' r' where s': "lwp_shmrm sid s = Some (0, s')"
      "shm_ok s' ((mem_nodes L)(k := None)) {} v' r'" "same_mems s s' (ran ((mem_nodes L)(k := None)))"
      using rel_mem(1) [OF rel m(1)] m(2) by auto
    have key: "j = k" if "L j = Some m" for j by (rule rel_key [OF rel that k])
    have L: "removed sid L = L(k := None)" by (rule removed_one [of L k m sid, OF k m(2) idle key uniq])
    have "mem_at s' (mem_node m') = m'" if "m' \<in> ran (L(k := None))" for m'
    proof -
      have "m' \<in> ran L" using that by (auto simp: ran_def split: if_splits)
      moreover have "mem_node m' \<in> ran ((mem_nodes L)(k := None))" using that unfolding mem_nodes_upd(2) [symmetric] ran_mem_nodes by (rule imageI)
      ultimately show ?thesis using mem_at_same [OF s'(3)] rel by (simp add: shm_rel_def)
    qed
    then have "shm_rel s' (removed sid L)" unfolding L shm_rel_def mem_nodes_upd using s'(2) by blast
    then show ?thesis using s'(1) True m idle by auto
  qed
qed

text \<open>Counting references.\<close>

lemma rel_count:
  assumes rel: "shm_rel s L" and m: "m \<in> ran L" and c: "0 \<le> c" "f (mem_refs m) = nat c" and Q: "\<And>m'. m' \<in> ran L \<Longrightarrow> Q m' \<longleftrightarrow> m' = m"
  shows "shm_rel (s\<lparr>shm_ary := (shm_ary s)(mem_id m := (shm_ary s (mem_id m))\<lparr>shm_ref := c\<rparr>)\<rparr>) (counted Q f L)"
proof -
  obtain v r where ok: "shm_ok s (mem_nodes L) {} v r" using rel by (auto simp: shm_rel_def)
  let ?s = "s\<lparr>shm_ary := (shm_ary s)(mem_id m := (shm_ary s (mem_id m))\<lparr>shm_ref := c\<rparr>)\<rparr>"
  have nodes: "mem_nodes (counted Q f L) = mem_nodes L" by (auto simp: mem_nodes_def counted_def option.map_comp comp_def intro!: map_option_cong)
  have "mem_node m \<in> ran (mem_nodes L)" unfolding ran_mem_nodes using m by (rule imageI)
  from set_ref_ok [OF ok this c(1)] have ok': "shm_ok ?s (mem_nodes (counted Q f L)) {} v r" unfolding rel_mem(1) [OF rel m] nodes .
  have "mem_at ?s (mem_node m') = m'" if counted: "m' \<in> ran (counted Q f L)" for m'
  proof -
    obtain k where "counted Q f L k = Some m'" using counted by (auto simp: ran_def)
    then obtain m0 where m0: "L k = Some m0" "m' = (if Q m0 then m0\<lparr>mem_refs := f (mem_refs m0)\<rparr> else m0)" by (auto simp: counted_def)
    then have r0: "m0 \<in> ran L" by (auto intro: ranI)
    note f0 = rel_mem [OF rel r0]
    show ?thesis
    proof (cases "m0 = m")
      case True
      then have "m' = m\<lparr>mem_refs := nat c\<rparr>" using m0(2) Q [OF m] c(2) by simp
      then show ?thesis using f0 True by (simp add: mem_at_def)
    next
      case False
      then have "m' = m0" "mem_id m0 \<noteq> mem_id m" using m0(2) Q [OF r0] rel_inj [OF rel r0 m] by auto
      then show ?thesis using f0 by (simp add: mem_at_def)
    qed
  qed
  then show ?thesis using ok' unfolding shm_rel_def by blast
qed

lemma counted_none: "(\<And>m. m \<in> ran L \<Longrightarrow> Q m \<Longrightarrow> f (mem_refs m) = mem_refs m) \<Longrightarrow> counted Q f L = L"
proof
  fix k assume h: "\<And>m. m \<in> ran L \<Longrightarrow> Q m \<Longrightarrow> f (mem_refs m) = mem_refs m"
  show "counted Q f L k = L k" using h ranI [of L k] by (cases "L k") (auto simp: counted_def)
qed

lemma rel_at:
  assumes rel: "shm_rel s L" and call: "lwp_shmat lwp va sid vaddr s = Some (ret, s')"
  shows "shm_rel s' (if ret = 0 then L else counted (\<lambda>m. int (mem_id m) = sid) Suc L)"
proof (cases "\<exists>m\<in>ran L. int (mem_id m) = sid")
  case False
  then show ?thesis using rel_node(2) [OF rel, of sid] call rel by (auto simp: lwp_shmat_def split: if_splits)
next
  case True
  then obtain m where m: "m \<in> ran L" "sid = int (mem_id m)" by blast
  show ?thesis
  proof (cases "vaddr AND 4095 = 0 \<and> lwp \<and> va \<noteq> 0")
    case False
    then show ?thesis using rel_node(1) [OF rel m] call rel by (auto simp: lwp_shmat_def split: if_splits)
  next
    case True
    then have "ret = va" "s' = s\<lparr>shm_ary := (shm_ary s)(mem_id m := (shm_ary s (mem_id m))\<lparr>shm_ref := shm_ref (shm_ary s (mem_id m)) + 1\<rparr>)\<rparr>"
      using rel_node(1) [OF rel m] call by (auto simp: lwp_shmat_def shm_ref_up_def rt_assert_def split: if_splits)
    moreover have "int (mem_id m') = sid \<longleftrightarrow> m' = m" if "m' \<in> ran L" for m' using rel_inj [OF rel that m(1)] m(2) by auto
    ultimately show ?thesis using rel_count [OF rel m(1), of "int (Suc (mem_refs m))" Suc "\<lambda>m. int (mem_id m) = sid"] rel_mem(3) [OF rel m(1)] True by (simp add: add.commute)
  qed
qed

lemma rel_inc:
  assumes rel: "shm_rel s L" and call: "lwp_shm_ref_inc pa s = Some (ret, s')"
  shows "shm_rel s' (counted (\<lambda>m. Some (mem_pa m) = pa) Suc L)"
proof (cases "\<exists>m\<in>ran L. Some (mem_pa m) = pa")
  case False
  then have "counted (\<lambda>m. Some (mem_pa m) = pa) Suc L = L" by (intro counted_none) blast
  then show ?thesis using rel_struct(2) [OF rel, of pa] False call rel by (auto simp: lwp_shm_ref_inc_def)
next
  case True
  then obtain m where m: "m \<in> ran L" "pa = Some (mem_pa m)" by blast
  have "s' = s\<lparr>shm_ary := (shm_ary s)(mem_id m := (shm_ary s (mem_id m))\<lparr>shm_ref := shm_ref (shm_ary s (mem_id m)) + 1\<rparr>)\<rparr>"
    using rel_struct(1) [OF rel m(1)] call m(2) by (auto simp: lwp_shm_ref_inc_def shm_ref_up_def rt_assert_def split: if_splits)
  moreover have "Some (mem_pa m') = pa \<longleftrightarrow> m' = m" if "m' \<in> ran L" for m' using rel_inj [OF rel that m(1)] m(2) by auto
  ultimately show ?thesis using rel_count [OF rel m(1), of "int (Suc (mem_refs m))" Suc "\<lambda>m. Some (mem_pa m) = pa"] rel_mem(3) [OF rel m(1)] by (simp add: add.commute)
qed

lemma rel_dec:
  assumes rel: "shm_rel s L"
  shows "\<exists>ret s'. lwp_shm_ref_dec pa s = Some (ret, s') \<and> shm_rel s' (counted (\<lambda>m. Some (mem_pa m) = pa) (\<lambda>c. c - 1) L)"
proof (cases "\<exists>m\<in>ran L. Some (mem_pa m) = pa \<and> mem_refs m \<noteq> 0")
  case False
  then have c: "counted (\<lambda>m. Some (mem_pa m) = pa) (\<lambda>c. c - 1) L = L" by (intro counted_none) auto
  have "lwp_shm_ref_dec pa s = Some (- 1, s)"
  proof (cases "\<exists>m\<in>ran L. Some (mem_pa m) = pa")
    case True
    then obtain m where m: "m \<in> ran L" "pa = Some (mem_pa m)" by blast
    then have "shm_ref (shm_ary s (mem_id m)) = 0" using False rel_mem(3) [OF rel m(1)] by auto
    then show ?thesis using rel_struct(1) [OF rel m(1)] m(2) by (simp add: lwp_shm_ref_dec_def)
  next
    case none: False
    then show ?thesis using rel_struct(2) [OF rel, of pa] by (auto simp: lwp_shm_ref_dec_def)
  qed
  then show ?thesis using rel c by simp
next
  case True
  then obtain m where m: "m \<in> ran L" "pa = Some (mem_pa m)" "mem_refs m \<noteq> 0" by blast
  let ?s = "s\<lparr>shm_ary := (shm_ary s)(mem_id m := (shm_ary s (mem_id m))\<lparr>shm_ref := int (mem_refs m) - 1\<rparr>)\<rparr>"
  have "lwp_shm_ref_dec pa s = Some (int (mem_refs m) - 1, ?s)"
    using rel_struct(1) [OF rel m(1)] m(2,3) rel_mem(3) [OF rel m(1)] by (simp add: lwp_shm_ref_dec_def)
  moreover have "Some (mem_pa m') = pa \<longleftrightarrow> m' = m" if "m' \<in> ran L" for m' using rel_inj [OF rel that m(1)] m(2) by auto
  then have "shm_rel ?s (counted (\<lambda>m. Some (mem_pa m) = pa) (\<lambda>c. c - 1) L)"
    using m(3) by (intro rel_count [OF rel m(1)]) auto
  ultimately show ?thesis by blast
qed

subsection \<open>Disjoint memories\<close>

definition mem_bytes :: "shm_store \<Rightarrow> shm_mem \<Rightarrow> nat set" where
  "mem_bytes s m = {unat (mem_pa m - PV_OFFSET)..<unat (mem_pa m - PV_OFFSET) + unat (shm_size (shm_ary s (mem_id m)))}"

lemma byte_page:
  assumes "4096 * a \<le> x" and "x < 4096 * a + 2 ^ (l + 12)"
  shows "x div 4096 \<in> block a l"
proof -
  have "x < (a + 2 ^ l) * 4096" using assms(2) by (simp add: power_add)
  then have "x div 4096 < a + 2 ^ l" by (rule less_mult_imp_div_less)
  moreover have "a \<le> x div 4096" using div_le_mono [OF assms(1), of 4096] by simp
  ultimately show ?thesis by (simp add: block_def)
qed

lemma rel_disjoint:
  assumes rel: "shm_rel s L" and m: "m \<in> ran L" "m' \<in> ran L" and neq: "m \<noteq> m'"
  shows "mem_bytes s m \<inter> mem_bytes s m' = {}"
proof -
  obtain v r where ok: "shm_ok s (mem_nodes L) {} v r" using rel by (auto simp: shm_rel_def)
  have pages: "\<exists>l. v (shm_block (shm_ary s (mem_id n))) = Some l \<and> mem_bytes s n \<subseteq> {x. x div 4096 \<in> block (shm_block (shm_ary s (mem_id n))) l}"
    if n: "n \<in> ran L" for n
  proof -
    note f = rel_mem [OF rel n]
    let ?a = "shm_block (shm_ary s (mem_id n))"
    have "entry_ok v r (shm_ary s (mem_id n))" using ok n f(1) by (auto simp: shm_ok_def ran_mem_nodes)
    then obtain l where l: "l < 52" "v ?a = Some l" "shm_size (shm_ary s (mem_id n)) = push_bit (l + 12) 1" "unat (mem_pa n - PV_OFFSET) = 4096 * ?a"
      using f(2) by (auto simp: entry_ok_def ARCH_PAGE_LIST_SIZE_def)
    have "unat (shm_size (shm_ary s (mem_id n))) = 2 ^ (l + 12)" unfolding l(3) by (rule unat_push_one) (use l(1) in simp)
    then have "mem_bytes s n \<subseteq> {x. x div 4096 \<in> block ?a l}" unfolding mem_bytes_def l(4) using byte_page by auto
    then show ?thesis using l(2) by blast
  qed
  obtain l l' where l: "v (shm_block (shm_ary s (mem_id m))) = Some l" "mem_bytes s m \<subseteq> {x. x div 4096 \<in> block (shm_block (shm_ary s (mem_id m))) l}"
    "v (shm_block (shm_ary s (mem_id m'))) = Some l'" "mem_bytes s m' \<subseteq> {x. x div 4096 \<in> block (shm_block (shm_ary s (mem_id m'))) l'}"
    using pages [OF m(1)] pages [OF m(2)] by blast
  have inj: "inj_on (\<lambda>n. shm_block (shm_ary s (node_id s n))) (mem_node ` ran L)" using ok by (auto simp: shm_ok_def ran_mem_nodes)
  have "mem_node m \<noteq> mem_node m'" using rel m neq unfolding shm_rel_def by metis
  then have "shm_block (shm_ary s (mem_id m)) \<noteq> shm_block (shm_ary s (mem_id m'))"
    using m rel_mem(1) [OF rel m(1)] rel_mem(1) [OF rel m(2)] inj_onD [OF inj, of "mem_node m" "mem_node m'"] by auto
  moreover have "page_inv (shm_pages s) v" using ok by (simp add: shm_ok_def page_state_def)
  ultimately have "block (shm_block (shm_ary s (mem_id m))) l \<inter> block (shm_block (shm_ary s (mem_id m'))) l' = {}"
    using tilesD(4) [OF tiles_live] l(1,3) by blast
  then show ?thesis using l(2,4) by blast
qed

subsection \<open>Histories\<close>

text \<open>Histories of calls from reset on, with the memories in use.  The heap gives an allocation that is not in use; a size is
  at most half the address space.  Other users of the page allocator leave the pages of the memories alone.\<close>

inductive shm_trace :: "u64 \<Rightarrow> u64 \<Rightarrow> page_store \<Rightarrow> (u64 \<rightharpoonup> shm_mem) \<Rightarrow> shm_store \<Rightarrow> bool"
  for start :: u64 and stop :: u64 and init :: page_store where
  start: "rt_page_init start stop init = Some pg \<Longrightarrow> shm_trace start stop init Map.empty (shm_reset pg)"
| found: "shm_trace start stop init L s \<Longrightarrow> unat sz \<le> 2 ^ 63 \<Longrightarrow> (\<forall>n. malloc_node = Some n \<longrightarrow> n \<notin> mem_node ` ran L) \<Longrightarrow>
    lwp_shmget key sz create malloc_node s = Some (sid, s') \<Longrightarrow> L key \<noteq> None \<or> sid = - 1 \<Longrightarrow> shm_trace start stop init L s'"
| create: "shm_trace start stop init L s \<Longrightarrow> unat sz \<le> 2 ^ 63 \<Longrightarrow> n \<notin> mem_node ` ran L \<Longrightarrow>
    lwp_shmget key sz create (Some n) s = Some (sid, s') \<Longrightarrow> L key = None \<Longrightarrow> sid \<noteq> - 1 \<Longrightarrow> lwp_shminfo sid s' = Some va \<Longrightarrow>
    shm_trace start stop init (L(key \<mapsto> \<lparr>mem_node = n, mem_id = nat sid, mem_pa = va + PV_OFFSET, mem_refs = 0\<rparr>)) s'"
| remove: "shm_trace start stop init L s \<Longrightarrow> lwp_shmrm sid s = Some (ret, s') \<Longrightarrow> shm_trace start stop init (removed sid L) s'"
| attach: "shm_trace start stop init L s \<Longrightarrow> lwp_shmat lwp va sid vaddr s = Some (ret, s') \<Longrightarrow>
    shm_trace start stop init (if ret = 0 then L else counted (\<lambda>m. int (mem_id m) = sid) Suc L) s'"
| inc: "shm_trace start stop init L s \<Longrightarrow> lwp_shm_ref_inc pa s = Some (k, s') \<Longrightarrow>
    shm_trace start stop init (counted (\<lambda>m. Some (mem_pa m) = pa) Suc L) s'"
| dec: "shm_trace start stop init L s \<Longrightarrow> lwp_shm_ref_dec pa s = Some (k, s') \<Longrightarrow>
    shm_trace start stop init (counted (\<lambda>m. Some (mem_pa m) = pa) (\<lambda>c. c - 1) L) s'"
| detach: "shm_trace start stop init L s \<Longrightarrow> lwp_shmdt pa s = Some (ret, s') \<Longrightarrow>
    shm_trace start stop init (counted (\<lambda>m. Some (mem_pa m) = pa) (\<lambda>c. c - 1) L) s'"
| others: "shm_trace start stop init L s \<Longrightarrow> page_state pg v r \<Longrightarrow> \<forall>m\<in>ran L. entry_ok v r (shm_ary s (mem_id m)) \<Longrightarrow>
    shm_trace start stop init L (s\<lparr>shm_pages := pg\<rparr>)"

lemma rel_reset:
  assumes "page_state pg Map.empty r"
  shows "shm_rel (shm_reset pg) Map.empty"
proof -
  have "trees_ok (shm_reset pg) Map.empty Map.empty" using index_reset by (simp add: trees_ok_def shm_reset_def)
  moreover have "ids_ok (shm_reset pg) {} [] {}" by (simp add: ids_ok_def shm_reset_def)
  ultimately have "shm_ok (shm_reset pg) Map.empty {} Map.empty r" using assms by (auto simp: shm_ok_def shm_reset_def)
  then show ?thesis by (auto simp: shm_rel_def mem_nodes_def)
qed

lemma rel_pages:
  assumes rel: "shm_rel s L" and pg: "page_state pg v r" "\<forall>m\<in>ran L. entry_ok v r (shm_ary s (mem_id m))"
  shows "shm_rel (s\<lparr>shm_pages := pg\<rparr>) L"
proof -
  obtain v0 r0 where ok: "shm_ok s (mem_nodes L) {} v0 r0" using rel by (auto simp: shm_rel_def)
  have "shm_ok (s\<lparr>shm_pages := pg\<rparr>) (mem_nodes L) {} v r"
    by (rule pages_ok [OF ok pg(1)]) (use pg(2) rel_mem(1) [OF rel] in \<open>auto simp: ran_mem_nodes\<close>)
  then show ?thesis using rel by (auto simp: shm_rel_def mem_at_def)
qed

lemma shm_trace_rel:
  assumes "shm_trace start stop init L s" and "region_ok start stop"
  shows "shm_rel s L"
  using assms(1)
proof (induction rule: shm_trace.induct)
  case (start pg)
  then show ?case using region_init [OF assms(2), of init "\<lambda>_. 0"] rel_reset by auto
next
  case (found L s sz malloc_node key create sid s')
  then show ?case using rel_get [OF found.IH found.hyps(2), of malloc_node key create] by (auto split: option.splits)
next
  case (create L s sz n key create sid s' va)
  then obtain c: "sid = int (node_id s' n)" "shm_rel s' (L(key \<mapsto> mem_at s' n))" "mem_refs (mem_at s' n) = 0"
    using rel_get [OF create.IH create.hyps(2), of "Some n" key create] by auto
  have "mem_at s' n \<in> ran (L(key \<mapsto> mem_at s' n))" by (rule ranI [of _ key]) simp
  from rel_info(1) [OF c(2) this] have "va = mem_pa (mem_at s' n) - PV_OFFSET" using create.hyps(7) c(1) by (simp add: mem_at_def)
  then have "mem_at s' n = \<lparr>mem_node = n, mem_id = nat sid, mem_pa = va + PV_OFFSET, mem_refs = 0\<rparr>" using c(1,3) by (simp add: mem_at_def)
  then show ?case using c(2) by (simp only:)
next
  case (remove L s sid ret s')
  then show ?case using rel_rm [OF remove.IH, of sid] by auto
next
  case (attach L s lwp va sid vaddr ret s')
  then show ?case using rel_at by blast
next
  case (inc L s pa k s')
  then show ?case using rel_inc by blast
next
  case (dec L s pa k s')
  then show ?case using rel_dec [OF dec.IH, of pa] by auto
next
  case (detach L s pa ret s')
  then show ?case using rel_dec [OF detach.IH, of pa] by (auto simp: lwp_shmdt_def split: if_splits)
next
  case (others L s pg v r)
  then show ?case using rel_pages by blast
qed

text \<open>A size above half the address space has the level 52, one beyond the page lists: the allocation reads outside
  \<^verbatim>\<open>page_list\<close>.\<close>

lemma shmget_oversize:
  assumes rel: "shm_rel s L" and big: "2 ^ 63 < unat sz" and new: "L key = None" and room: "shm_id_used s < RT_LWP_SHM_MAX_NR"
  shows "lwp_shmget key sz True malloc_node s = None"
proof -
  obtain v r where ok: "shm_ok s (mem_nodes L) {} v r" using rel by (auto simp: shm_rel_def)
  have look: "lwp_avl_find key (avl_root (shm_tree_key s)) (shm_tree_key s) = Some None"
    using ok new avlmap.look_entry [of "shm_tree_key s" "mem_nodes L" key] by (auto simp: shm_ok_def trees_ok_def mem_nodes_def)
  have nz: "sz \<noteq> 0" using big by auto
  from page_bits_ok [OF nz] obtain l where l: "rt_page_bits sz = Some (of_nat l)" "l \<le> 52" "unat sz \<le> 2 ^ (12 + l)" by blast
  have "(2 :: nat) ^ 63 < 2 ^ (12 + l)" using big l(3) by linarith
  then have "63 < 12 + l" by (rule power_less_imp_less_exp [rotated]) simp
  then have l52: "l = 52" using l(2) by simp
  have "rt_pages_alloc 52 pg = None" for pg by (simp add: rt_pages_alloc_def pages_alloc_def pages_take_def rt_assert_def ARCH_PAGE_LIST_SIZE_def)
  moreover obtain i s1 where "shm_id_alloc s = (int i, s1)"
    using id_alloc_ok [OF ok] room by (auto simp: shm_id_alloc_def split: if_splits)
  ultimately show ?thesis using look nz l(1) l52 by (simp add: lwp_shmget_def)
qed

text \<open>A history with one memory.\<close>

lemma sample_shm: "\<exists>m s. shm_trace 5000 40960 sample_pool [7 \<mapsto> m] s"
proof -
  obtain pg addr pg' where pg: "rt_page_init 5000 40960 sample_pool = Some pg" "page_trace 5000 40960 sample_pool Map.empty (\<lambda>_. 0) pg"
    "rt_pages_alloc 0 pg = Some (addr, pg')" "addr \<noteq> 0" using sample_page by blast
  let ?s = "shm_reset pg"
  let ?s1 = "?s\<lparr>shm_id_used := 1\<rparr>"
  have st: "page_state pg Map.empty (\<lambda>_. 0)" using page_trace_state [OF pg(2) sample_region] by blast
  have rel: "shm_rel ?s Map.empty" by (rule rel_reset [OF st])
  then obtain v r where ok: "shm_ok ?s Map.empty {} v r" by (auto simp: shm_rel_def mem_nodes_def)
  have al: "shm_id_alloc ?s = (int 0, ?s1)" by (simp add: shm_id_alloc_def shm_reset_def RT_LWP_SHM_MAX_NR_def)
  then have ok1: "shm_ok ?s1 Map.empty {0} v r" using id_alloc_ok [OF ok] by auto
  have l: "0 < ARCH_PAGE_LIST_SIZE" by (simp add: page_consts)
  have pages: "shm_pages ?s1 = pg" by (simp add: shm_reset_def)
  have alloc: "rt_pages_alloc 0 (shm_pages ?s1) = Some (addr, pg')" unfolding pages by (rule pg(3))
  from create_ok [OF ok1 l alloc pg(4), of 3 7] obtain s' where
    s': "shm_create 7 0 addr (Some 3) (int 0) (?s1\<lparr>shm_pages := pg'\<rparr>) = Some (int 0, s')" by auto
  have bits: "rt_page_bits 4096 = Some 0" using size_bits_back(1) [OF l] by simp
  have look: "lwp_avl_find 7 (avl_root (shm_tree_key ?s)) (shm_tree_key ?s) = Some None"
    using avlmap.look_entry [OF index_reset, of 7] by (simp add: shm_reset_def)
  have get: "lwp_shmget 7 4096 True (Some 3) ?s = Some (0, s')"
    using al bits look s' pg(3,4) pages by (simp add: lwp_shmget_def)
  with rel_get [OF rel, of 4096 "Some 3" 7 True] have "shm_rel s' [7 \<mapsto> mem_at s' 3]" "node_id s' 3 = 0" by auto
  then have info: "lwp_shminfo 0 s' = Some (mem_pa (mem_at s' 3) - PV_OFFSET)"
    using rel_info(1) [of s' "[7 \<mapsto> mem_at s' 3]" "mem_at s' 3"] by (simp add: mem_at_def)
  have start: "shm_trace 5000 40960 sample_pool Map.empty ?s" by (rule shm_trace.start [OF pg(1)])
  show ?thesis
    using shm_trace.create [of 5000 40960 sample_pool Map.empty ?s 4096 3 7 True 0 s', OF start _ _ get _ _ info] by fastforce
qed

subsection \<open>Properties\<close>

text \<open>C14: Shared memories refine a map from keys.  After any history of creations, removals, attachments and detachments the
  lookup by key returns the identifier of the memory with that key, or -1 without one; an identifier in use gives the address
  of its memory and all others give null; memories with different keys have different identifiers and no byte in common.  The
  next lookup or creation returns, a memory it creates covers the size asked for, and a removal returns 0 exactly for
  identifiers in use and changes nothing while the memory is attached.\<close>

theorem shm_refines:
  assumes "shm_trace start stop init L s" and "region_ok start stop"
  shows "(\<forall>key. lwp_shmget key 0 False None s = Some (case L key of Some m \<Rightarrow> int (mem_id m) | None \<Rightarrow> - 1, s))
    \<and> (\<forall>m\<in>ran L. lwp_shminfo (int (mem_id m)) s = Some (mem_pa m - PV_OFFSET))
    \<and> (\<forall>sid. (\<forall>m\<in>ran L. int (mem_id m) \<noteq> sid) \<longrightarrow> lwp_shminfo sid s = Some 0 \<and> lwp_shmrm sid s = Some (- 1, s))
    \<and> (\<forall>k k' m m'. L k = Some m \<longrightarrow> L k' = Some m' \<longrightarrow> k \<noteq> k' \<longrightarrow> mem_id m \<noteq> mem_id m' \<and> mem_bytes s m \<inter> mem_bytes s m' = {})
    \<and> (\<forall>key sz create n. unat sz \<le> 2 ^ 63 \<longrightarrow> n \<notin> mem_node ` ran L \<longrightarrow> (\<exists>sid s'. lwp_shmget key sz create (Some n) s = Some (sid, s')
         \<and> (L key = None \<and> sid \<noteq> - 1 \<longrightarrow> unat sz \<le> unat (shm_size (shm_ary s' (nat sid))))))
    \<and> (\<forall>m\<in>ran L. \<exists>s'. lwp_shmrm (int (mem_id m)) s = Some (0, s') \<and> (mem_refs m \<noteq> 0 \<longrightarrow> s' = s))"
proof (intro conjI allI ballI impI)
  have rel: "shm_rel s L" by (rule shm_trace_rel [OF assms])
  show "lwp_shmget key 0 False None s = Some (case L key of Some m \<Rightarrow> int (mem_id m) | None \<Rightarrow> - 1, s)" for key
  proof -
    obtain v r where "shm_ok s (mem_nodes L) {} v r" using rel by (auto simp: shm_rel_def)
    then have "lwp_avl_find key (avl_root (shm_tree_key s)) (shm_tree_key s) = Some (mem_nodes L key)"
      using avlmap.look_entry by (auto simp: shm_ok_def trees_ok_def)
    then show ?thesis using rel_mem(1) [OF rel ranI, of key] by (cases "L key") (auto simp: lwp_shmget_def mem_nodes_def node_id_def)
  qed
  show "lwp_shminfo (int (mem_id m)) s = Some (mem_pa m - PV_OFFSET)" if "m \<in> ran L" for m by (rule rel_info(1) [OF rel that])
  show "lwp_shminfo sid s = Some 0" if "\<forall>m\<in>ran L. int (mem_id m) \<noteq> sid" for sid by (rule rel_info(2) [OF rel that])
  show "lwp_shmrm sid s = Some (- 1, s)" if "\<forall>m\<in>ran L. int (mem_id m) \<noteq> sid" for sid using rel_rm [OF rel, of sid] that by auto
  show "mem_id m \<noteq> mem_id m'" "mem_bytes s m \<inter> mem_bytes s m' = {}" if k: "L k = Some m" "L k' = Some m'" "k \<noteq> k'" for k k' m m'
  proof -
    have r: "m \<in> ran L" "m' \<in> ran L" using k(1,2) by (auto intro: ranI)
    have neq: "m \<noteq> m'" using rel_key [OF rel k(1)] k(2,3) by blast
    show "mem_bytes s m \<inter> mem_bytes s m' = {}" by (rule rel_disjoint [OF rel r neq])
    show "mem_id m \<noteq> mem_id m'" using rel_inj [OF rel r] neq by blast
  qed
  show "\<exists>sid s'. lwp_shmget key sz create (Some n) s = Some (sid, s') \<and> (L key = None \<and> sid \<noteq> - 1 \<longrightarrow> unat sz \<le> unat (shm_size (shm_ary s' (nat sid))))"
    if "unat sz \<le> 2 ^ 63" "n \<notin> mem_node ` ran L" for key sz create n
    using rel_get [OF rel that(1), of "Some n" key create] that(2) by (cases "L key") (auto split: if_splits)
  show "\<exists>s'. lwp_shmrm (int (mem_id m)) s = Some (0, s') \<and> (mem_refs m \<noteq> 0 \<longrightarrow> s' = s)" if m: "m \<in> ran L" for m
  proof -
    have "mem_refs m \<noteq> 0 \<longrightarrow> (\<forall>m'\<in>ran L. int (mem_id m') = int (mem_id m) \<longrightarrow> mem_refs m' \<noteq> 0)" using rel_inj [OF rel _ m] by auto
    moreover have used: "\<exists>m'\<in>ran L. int (mem_id m') = int (mem_id m)" using m by blast
    ultimately show ?thesis using rel_rm [OF rel, of "int (mem_id m)"] unfolding if_P [OF used] by blast
  qed
qed

theorem shm_refines_witness:
  "\<exists>m s. shm_trace 5000 40960 sample_pool [7 \<mapsto> m] s \<and> lwp_shmget 7 0 False None s = Some (int (mem_id m), s) \<and>
     lwp_shmget 8 0 False None s = Some (- 1, s) \<and> lwp_shminfo (int (mem_id m)) s = Some (mem_pa m - PV_OFFSET)"
proof -
  obtain m s where t: "shm_trace 5000 40960 sample_pool [7 \<mapsto> m] s" using sample_shm by blast
  note r = shm_refines [OF t sample_region]
  have "lwp_shmget 7 0 False None s = Some (int (mem_id m), s)" using r [THEN conjunct1, rule_format, of 7] by simp
  moreover have "lwp_shmget 8 0 False None s = Some (- 1, s)" using r [THEN conjunct1, rule_format, of 8] by simp
  moreover have "lwp_shminfo (int (mem_id m)) s = Some (mem_pa m - PV_OFFSET)" using r [THEN conjunct2, THEN conjunct1] by simp
  ultimately show ?thesis using t by blast
qed

end
